(* ===== verification/Mesh_Prelude.thy ===== *)
theory Mesh_Prelude
  imports
    Main
    "HOL-Library.Char_ord"
    "HOL-Library.List_Lexorder"
    "HOL-Library.Product_Lexorder"
    "HOL-Library.Option_ord"
    "HOL-Library.Sublist"
begin

text \<open>
  Shared vocabulary of the development: the functions of Rust's standard library that the
  sources use, on the model's data, and the lemmas about them that every component needs.

  \<^item> A Rust \<^verbatim>\<open>str\<close> is a list of bytes (\<^typ>\<open>string\<close>). On ASCII text every function below is the
    standard library's; a byte above 127 is never a letter, a digit or white space here, so the
    Unicode case mapping and character classes of \<^verbatim>\<open>to_lowercase\<close>, \<^verbatim>\<open>trim\<close> and
    \<^verbatim>\<open>is_alphanumeric\<close> are modelled on ASCII only.
  \<^item> A \<^verbatim>\<open>HashMap<K, Vec<V>>\<close> is an association list with distinct keys. The order of the list is
    the iteration order of the map, which Rust does not fix: a result that must not depend on it
    is proved equal for every order.
  \<^item> A \<^verbatim>\<open>BTreeMap\<close> is an association list that is strictly sorted by key.
\<close>

named_theorems str_simps \<open>equations of the string functions\<close>
named_theorems bucket_simps \<open>laws of the bucket indices\<close>
named_theorems frame_simps \<open>functions that do not read a field are not changed by its update\<close>

section \<open>Characters and strings\<close>

definition is_ascii_upper :: "char \<Rightarrow> bool" where
  "is_ascii_upper c \<longleftrightarrow> CHR ''A'' \<le> c \<and> c \<le> CHR ''Z''"

definition is_ascii_lower :: "char \<Rightarrow> bool" where
  "is_ascii_lower c \<longleftrightarrow> CHR ''a'' \<le> c \<and> c \<le> CHR ''z''"

definition is_ascii_digit :: "char \<Rightarrow> bool" where
  "is_ascii_digit c \<longleftrightarrow> CHR ''0'' \<le> c \<and> c \<le> CHR ''9''"

definition is_ascii_alphabetic :: "char \<Rightarrow> bool" where
  "is_ascii_alphabetic c \<longleftrightarrow> is_ascii_upper c \<or> is_ascii_lower c"

definition is_ascii_alphanumeric :: "char \<Rightarrow> bool" where
  "is_ascii_alphanumeric c \<longleftrightarrow> is_ascii_alphabetic c \<or> is_ascii_digit c"

text \<open>Bit 5 is what separates \<^verbatim>\<open>A\<close> from \<^verbatim>\<open>a\<close>.\<close>

definition set_bit5 :: "bool \<Rightarrow> char \<Rightarrow> char" where
  "set_bit5 b c = (case c of Char b0 b1 b2 b3 b4 b5 b6 b7 \<Rightarrow> Char b0 b1 b2 b3 b4 b b6 b7)"

definition ascii_lower :: "char \<Rightarrow> char" where
  "ascii_lower c = (if is_ascii_upper c then set_bit5 True c else c)"

definition ascii_upper :: "char \<Rightarrow> char" where
  "ascii_upper c = (if is_ascii_lower c then set_bit5 False c else c)"

definition to_lowercase :: "string \<Rightarrow> string" where
  "to_lowercase s = map ascii_lower s"

definition eq_ignore_ascii_case :: "string \<Rightarrow> string \<Rightarrow> bool" where
  "eq_ignore_ascii_case a b \<longleftrightarrow> to_lowercase a = to_lowercase b"

definition is_whitespace :: "char \<Rightarrow> bool" where
  "is_whitespace c \<longleftrightarrow>
     c \<in> set [CHR '' '', CHR 0x09, CHR 0x0A, CHR 0x0B, CHR 0x0C, CHR 0x0D]"

definition trim_matches :: "(char \<Rightarrow> bool) \<Rightarrow> string \<Rightarrow> string" where
  "trim_matches P s = rev (dropWhile P (rev (dropWhile P s)))"

definition trim :: "string \<Rightarrow> string" where
  "trim s = trim_matches is_whitespace s"

definition trim_start :: "string \<Rightarrow> string" where
  "trim_start s = dropWhile is_whitespace s"

definition starts_with :: "string \<Rightarrow> string \<Rightarrow> bool" where
  "starts_with s p \<longleftrightarrow> take (length p) s = p"

definition ends_with :: "string \<Rightarrow> string \<Rightarrow> bool" where
  "ends_with s p \<longleftrightarrow> starts_with (rev s) (rev p)"

definition strip_prefix :: "string \<Rightarrow> string \<Rightarrow> string option" where
  "strip_prefix p s = (if starts_with s p then Some (drop (length p) s) else None)"

definition strip_suffix :: "string \<Rightarrow> string \<Rightarrow> string option" where
  "strip_suffix p s = (if ends_with s p then Some (take (length s - length p) s) else None)"

text \<open>\<^verbatim>\<open>str::find\<close> with a string pattern: the offset of the first occurrence.\<close>

fun find_str :: "string \<Rightarrow> string \<Rightarrow> nat option" where
  "find_str p [] = (if p = [] then Some 0 else None)"
| "find_str p (c # cs) = (if starts_with (c # cs) p then Some 0 else map_option Suc (find_str p cs))"

definition str_contains :: "string \<Rightarrow> string \<Rightarrow> bool" where
  "str_contains s p \<longleftrightarrow> find_str p s \<noteq> None"

text \<open>\<^verbatim>\<open>str::rfind\<close>: the offset of the last occurrence.\<close>

fun rfind_str :: "string \<Rightarrow> string \<Rightarrow> nat option" where
  "rfind_str p [] = (if p = [] then Some 0 else None)"
| "rfind_str p (c # cs) =
     (case rfind_str p cs of
        Some i \<Rightarrow> Some (Suc i)
      | None \<Rightarrow> if starts_with (c # cs) p then Some 0 else None)"

text \<open>\<^verbatim>\<open>str::split\<close> on a character class; like the original it never returns an empty list.\<close>

fun split_pred :: "(char \<Rightarrow> bool) \<Rightarrow> string \<Rightarrow> string list" where
  "split_pred P [] = [[]]"
| "split_pred P (c # cs) =
     (if P c then [] # split_pred P cs
      else case split_pred P cs of [] \<Rightarrow> [[c]] | t # ts \<Rightarrow> (c # t) # ts)"

abbreviation split :: "char \<Rightarrow> string \<Rightarrow> string list" where
  "split c \<equiv> split_pred (\<lambda>x. x = c)"

definition last_segment :: "char \<Rightarrow> string \<Rightarrow> string" where
  "last_segment c s = last (split c s)"

definition split_once :: "char \<Rightarrow> string \<Rightarrow> (string \<times> string) option" where
  "split_once c s =
     (if c \<in> set s then Some (takeWhile (\<lambda>x. x \<noteq> c) s, tl (dropWhile (\<lambda>x. x \<noteq> c) s)) else None)"

definition rsplit_once :: "char \<Rightarrow> string \<Rightarrow> (string \<times> string) option" where
  "rsplit_once c s =
     (if c \<in> set s
      then Some (rev (tl (dropWhile (\<lambda>x. x \<noteq> c) (rev s))), rev (takeWhile (\<lambda>x. x \<noteq> c) (rev s)))
      else None)"

text \<open>\<^verbatim>\<open>str::replace\<close> with a string pattern: left to right, without overlap. The counter is the
  number of bytes of the current occurrence that are still to be skipped.\<close>

fun replace_skip :: "nat \<Rightarrow> string \<Rightarrow> string \<Rightarrow> string \<Rightarrow> string" where
  "replace_skip n p r [] = []"
| "replace_skip (Suc n) p r (c # cs) = replace_skip n p r cs"
| "replace_skip 0 p r (c # cs) =
     (if starts_with (c # cs) p then r @ replace_skip (length p - 1) p r cs
      else c # replace_skip 0 p r cs)"

definition replace_str :: "string \<Rightarrow> string \<Rightarrow> string \<Rightarrow> string" where
  "replace_str p r s = replace_skip 0 p r s"

definition replace_chars :: "char set \<Rightarrow> char \<Rightarrow> string \<Rightarrow> string" where
  "replace_chars C r s = map (\<lambda>c. if c \<in> C then r else c) s"

fun join_with :: "string \<Rightarrow> string list \<Rightarrow> string" where
  "join_with sep [] = []"
| "join_with sep [x] = x"
| "join_with sep (x # y # ys) = x @ sep @ join_with sep (y # ys)"

section \<open>Hash maps of vectors, ordered maps\<close>

type_synonym ('k, 'v) hmap = "('k \<times> 'v) list"

text \<open>\<^verbatim>\<open>map.entry(k).or_default().push(v)\<close>.\<close>

fun hm_push :: "'k \<Rightarrow> 'v \<Rightarrow> ('k, 'v list) hmap \<Rightarrow> ('k, 'v list) hmap" where
  "hm_push k v [] = [(k, [v])]"
| "hm_push k v ((k', vs) # m) = (if k' = k then (k', vs @ [v]) # m else (k', vs) # hm_push k v m)"

text \<open>\<^verbatim>\<open>map.get(k).unwrap_or(&[])\<close>.\<close>

definition bucket :: "('k, 'v list) hmap \<Rightarrow> 'k \<Rightarrow> 'v list" where
  "bucket m k = (case map_of m k of None \<Rightarrow> [] | Some vs \<Rightarrow> vs)"

text \<open>\<^verbatim>\<open>map.retain(|_, ids| { ids.retain(|id| keep(id)); !ids.is_empty() })\<close>.\<close>

definition hm_retain :: "('v \<Rightarrow> bool) \<Rightarrow> ('k, 'v list) hmap \<Rightarrow> ('k, 'v list) hmap" where
  "hm_retain keep m = filter (\<lambda>(k, vs). vs \<noteq> []) (map (\<lambda>(k, vs). (k, filter keep vs)) m)"

text \<open>\<^verbatim>\<open>map.remove(k)\<close>.\<close>

definition hm_remove :: "'k \<Rightarrow> ('k, 'v) hmap \<Rightarrow> ('k, 'v) hmap" where
  "hm_remove k m = filter (\<lambda>(k', v). k' \<noteq> k) m"

text \<open>\<^verbatim>\<open>map.insert(k, v)\<close>.\<close>

fun hm_insert :: "'k \<Rightarrow> 'v \<Rightarrow> ('k, 'v) hmap \<Rightarrow> ('k, 'v) hmap" where
  "hm_insert k v [] = [(k, v)]"
| "hm_insert k v ((k', v') # m) = (if k' = k then (k', v) # m else (k', v') # hm_insert k v m)"

text \<open>\<^verbatim>\<open>BTreeMap::insert\<close>.\<close>

fun bt_insert :: "'k::linorder \<Rightarrow> 'v \<Rightarrow> ('k \<times> 'v) list \<Rightarrow> ('k \<times> 'v) list" where
  "bt_insert k v [] = [(k, v)]"
| "bt_insert k v ((k', v') # m) =
     (if k < k' then (k, v) # (k', v') # m
      else if k = k' then (k, v) # m
      else (k', v') # bt_insert k v m)"

definition hm_wf :: "('k, 'v list) hmap \<Rightarrow> bool" where
  "hm_wf m \<longleftrightarrow> distinct (map fst m) \<and> [] \<notin> snd ` set m"

text \<open>\<^verbatim>\<open>HashSet::insert\<close> as the sources use it to drop repetitions: the first of the elements
  with the same key stays.\<close>

fun dedup_on :: "('a \<Rightarrow> 'b) \<Rightarrow> 'b list \<Rightarrow> 'a list \<Rightarrow> 'a list" where
  "dedup_on f seen [] = []"
| "dedup_on f seen (x # xs) =
     (if f x \<in> set seen then dedup_on f seen xs else x # dedup_on f (f x # seen) xs)"


section \<open>Lemmas on strings\<close>

lemmas ascii_defs = is_ascii_upper_def is_ascii_lower_def is_ascii_digit_def
  is_ascii_alphabetic_def is_ascii_alphanumeric_def ascii_lower_def ascii_upper_def set_bit5_def

lemma ascii_lower_not_upper: "\<not> is_ascii_upper (ascii_lower c)"
  by (cases c) (auto simp: ascii_defs)

lemma ascii_lower_idem [simp]: "ascii_lower (ascii_lower c) = ascii_lower c"
  using ascii_lower_not_upper[of c] by (simp add: ascii_lower_def)

lemma to_lowercase_idem [simp]: "to_lowercase (to_lowercase s) = to_lowercase s"
  by (simp add: to_lowercase_def)

lemma length_to_lowercase [simp]: "length (to_lowercase s) = length s"
  by (simp add: to_lowercase_def)

lemma to_lowercase_simps [simp]:
  "to_lowercase [] = []"
  "to_lowercase (c # cs) = ascii_lower c # to_lowercase cs"
  "to_lowercase (a @ b) = to_lowercase a @ to_lowercase b"
  by (simp_all add: to_lowercase_def)

lemma to_lowercase_Nil_iff [simp]: "to_lowercase s = [] \<longleftrightarrow> s = []"
  by (simp add: to_lowercase_def)

lemma eq_ignore_ascii_case_refl [simp]: "eq_ignore_ascii_case s s"
  by (simp add: eq_ignore_ascii_case_def)

lemma eq_ignore_ascii_case_sym: "eq_ignore_ascii_case a b \<longleftrightarrow> eq_ignore_ascii_case b a"
  by (auto simp: eq_ignore_ascii_case_def)

lemma starts_with_prefix: "starts_with s p \<longleftrightarrow> prefix p s"
  by (metis append_eq_conv_conj prefix_def starts_with_def append_take_drop_id)

lemma starts_with_Nil [simp]: "starts_with s []"
  by (simp add: starts_with_def)

lemma starts_with_append [simp]: "starts_with (p @ s) p"
  by (simp add: starts_with_def)

lemma strip_prefix_Some: "strip_prefix p s = Some r \<longleftrightarrow> s = p @ r"
  by (auto simp: strip_prefix_def starts_with_prefix prefix_def)

lemma strip_prefix_append [simp]: "strip_prefix p (p @ r) = Some r"
  by (simp add: strip_prefix_Some)

lemma find_str_Some: "find_str p s = Some i \<Longrightarrow> i \<le> length s \<and> starts_with (drop i s) p"
  by (induction s arbitrary: i) (auto split: if_splits)

lemma find_str_shorter: "p \<noteq> [] \<Longrightarrow> find_str p s = Some i \<Longrightarrow> i < length s"
  using find_str_Some[of p s i] by (cases "i = length s") (auto simp: starts_with_def)

lemma find_str_None: "find_str p s = None \<longleftrightarrow> (\<forall>i \<le> length s. \<not> starts_with (drop i s) p)"
proof (induction s)
  case Nil
  then show ?case by (auto simp: starts_with_def)
next
  case (Cons c cs)
  have "(\<forall>i \<le> length (c # cs). \<not> starts_with (drop i (c # cs)) p) \<longleftrightarrow>
        \<not> starts_with (c # cs) p \<and> (\<forall>i \<le> length cs. \<not> starts_with (drop i cs) p)"
    (is "?L \<longleftrightarrow> ?R")
  proof
    assume l: ?L
    have "\<not> starts_with (c # cs) p" using l[rule_format, of 0] by simp
    moreover have "\<not> starts_with (drop i cs) p" if "i \<le> length cs" for i
      using l[rule_format, of "Suc i"] that by simp
    ultimately show ?R by blast
  next
    assume r: ?R
    show ?L
    proof (intro allI impI)
      fix i assume "i \<le> length (c # cs)"
      then show "\<not> starts_with (drop i (c # cs)) p" using r by (cases i) auto
    qed
  qed
  with Cons show ?case by simp
qed

lemma str_contains_sublist: "str_contains s p \<longleftrightarrow> sublist p s"
proof -
  have "str_contains s p \<longleftrightarrow> (\<exists>i \<le> length s. starts_with (drop i s) p)"
    using find_str_None[of p s] by (auto simp: str_contains_def)
  also have "\<dots> \<longleftrightarrow> sublist p s"
  proof
    assume "\<exists>i \<le> length s. starts_with (drop i s) p"
    then obtain i where "prefix p (drop i s)" by (auto simp: starts_with_prefix)
    then show "sublist p s"
      by (metis append_take_drop_id prefix_def sublist_appendI)
  next
    assume "sublist p s"
    then obtain xs zs where "s = xs @ p @ zs" by (auto simp: sublist_def)
    then show "\<exists>i \<le> length s. starts_with (drop i s) p"
      by (intro exI[of _ "length xs"]) simp
  qed
  finally show ?thesis .
qed

lemma rfind_str_None: "rfind_str p s = None \<longleftrightarrow> \<not> str_contains s p"
  by (induction s) (auto simp: str_contains_def split: option.splits)

lemma str_contains_refl [simp]: "str_contains s s"
  by (simp add: str_contains_sublist)

lemma str_contains_Nil [simp]: "str_contains s []"
  by (simp add: str_contains_sublist)

lemma split_pred_nonempty [simp]: "split_pred P s \<noteq> []"
  by (induction s) (auto split: list.splits)

lemma split_pred_no_sep: "t \<in> set (split_pred P s) \<Longrightarrow> c \<in> set t \<Longrightarrow> \<not> P c"
proof (induction s arbitrary: t)
  case (Cons x xs)
  obtain u us where u: "split_pred P xs = u # us" by (meson neq_Nil_conv split_pred_nonempty)
  with Cons show ?case by (force split: if_splits)
qed simp

lemma split_pred_id: "\<forall>c \<in> set s. \<not> P c \<Longrightarrow> split_pred P s = [s]"
  by (induction s) auto

lemma split_pred_append_sep:
  "P c \<Longrightarrow> \<forall>x \<in> set t. \<not> P x \<Longrightarrow> split_pred P (t @ c # s) = t # split_pred P s"
  by (induction t) auto

lemma join_split: "join_with [c] (split c s) = s"
proof (induction s)
  case (Cons x xs)
  obtain u us where u: "split c xs = u # us" by (meson neq_Nil_conv split_pred_nonempty)
  with Cons show ?case by (cases us) auto
qed simp

lemma split_join:
  "ts \<noteq> [] \<Longrightarrow> \<forall>t \<in> set ts. c \<notin> set t \<Longrightarrow> split c (join_with [c] ts) = ts"
proof (induction ts rule: induct_list012)
  case (2 t)
  then show ?case by (auto intro!: split_pred_id)
next
  case (3 t u us)
  then have "split c (t @ c # join_with [c] (u # us)) = t # split c (join_with [c] (u # us))"
    by (intro split_pred_append_sep) auto
  with 3 show ?case by simp
qed simp

lemma last_segment_no_sep [simp]: "c \<notin> set (last_segment c s)"
  using split_pred_no_sep[of "last (split c s)" "\<lambda>x. x = c" s c]
  by (auto simp: last_segment_def)

lemma last_segment_id [simp]: "c \<notin> set s \<Longrightarrow> last_segment c s = s"
  by (subgoal_tac "split c s = [s]") (simp add: last_segment_def, rule split_pred_id, blast)

lemma last_segment_idem [simp]: "last_segment c (last_segment c s) = last_segment c s"
  by simp

lemma split_once_Some: "split_once c s = Some (a, b) \<longleftrightarrow> s = a @ c # b \<and> c \<notin> set a"
proof
  assume h: "split_once c s = Some (a, b)"
  then have c: "c \<in> set s" and a: "a = takeWhile (\<lambda>x. x \<noteq> c) s"
    and b: "b = tl (dropWhile (\<lambda>x. x \<noteq> c) s)"
    by (auto simp: split_once_def split: if_splits)
  have "dropWhile (\<lambda>x. x \<noteq> c) s \<noteq> []" using c by (simp add: dropWhile_eq_Nil_conv)
  then have "dropWhile (\<lambda>x. x \<noteq> c) s = c # b"
    using b hd_dropWhile[of "\<lambda>x. x \<noteq> c" s] by (cases "dropWhile (\<lambda>x. x \<noteq> c) s") auto
  then show "s = a @ c # b \<and> c \<notin> set a"
    using a takeWhile_dropWhile_id[of "\<lambda>x. x \<noteq> c" s] set_takeWhileD by fastforce
next
  assume "s = a @ c # b \<and> c \<notin> set a"
  then show "split_once c s = Some (a, b)"
    by (auto simp: split_once_def takeWhile_tail dropWhile_append)
qed

lemma rsplit_once_rev: "rsplit_once c s = map_option (\<lambda>(a, b). (rev b, rev a)) (split_once c (rev s))"
  by (simp add: rsplit_once_def split_once_def)

lemma rsplit_once_Some: "rsplit_once c s = Some (a, b) \<longleftrightarrow> s = a @ c # b \<and> c \<notin> set b"
proof -
  have "rsplit_once c s = Some (a, b) \<longleftrightarrow> split_once c (rev s) = Some (rev b, rev a)"
    by (auto simp: rsplit_once_rev)
  also have "\<dots> \<longleftrightarrow> s = a @ c # b \<and> c \<notin> set b"
    by (simp add: split_once_Some rev_swap)
  finally show ?thesis .
qed

section \<open>Lemmas on maps\<close>

lemma map_of_hm_push:
  "map_of (hm_push k v m) k' =
     (if k' = k then Some (bucket m k @ [v]) else map_of m k')"
  by (induction m) (auto simp: bucket_def)

lemma keys_hm_push: "fst ` set (hm_push k v m) = insert k (fst ` set m)"
  by (induction m) force+

lemma bucket_hm_push [bucket_simps]:
  "bucket (hm_push k v m) k' = (if k' = k then bucket m k @ [v] else bucket m k')"
  by (simp add: bucket_def map_of_hm_push)

lemma bucket_Nil [simp]: "bucket [] k = []"
  by (simp add: bucket_def)

lemma hm_wf_Nil [simp]: "hm_wf []"
  by (simp add: hm_wf_def)

lemma hm_wf_hm_push: "hm_wf m \<Longrightarrow> hm_wf (hm_push k v m)"
  unfolding hm_wf_def
proof (induction m)
  case (Cons p m)
  obtain k' vs where p: "p = (k', vs)" by force
  with Cons have "distinct (map fst (hm_push k v m)) \<and> [] \<notin> snd ` set (hm_push k v m)" by simp
  with Cons.prems p keys_hm_push[of k v m] show ?case by (auto simp: image_iff)
qed simp

lemma bucket_not_key: "k \<notin> fst ` set m \<Longrightarrow> bucket m k = []"
  using map_of_eq_None_iff[of m k] by (simp add: bucket_def)

lemma bucket_key: "hm_wf m \<Longrightarrow> k \<in> fst ` set m \<Longrightarrow> bucket m k \<noteq> []"
  by (auto simp: hm_wf_def bucket_def map_of_eq_None_iff image_iff dest!: map_of_SomeD
      split: option.splits)

lemma bucket_eq_iff_in:
  "hm_wf m \<Longrightarrow> (k, vs) \<in> set m \<Longrightarrow> bucket m k = vs"
  by (auto simp: hm_wf_def bucket_def)

lemma map_of_filter_key:
  "map_of (filter (\<lambda>(k, v). P k) m) k = (if P k then map_of m k else None)"
  by (induction m) auto

lemma bucket_hm_retain [bucket_simps]:
  "hm_wf m \<Longrightarrow> bucket (hm_retain keep m) k = filter keep (bucket m k)"
  unfolding hm_wf_def hm_retain_def
proof (induction m)
  case (Cons p m)
  obtain k' vs where p: "p = (k', vs)" by force
  from Cons p have IH:
    "bucket (filter (\<lambda>(k, vs). vs \<noteq> []) (map (\<lambda>(k, vs). (k, filter keep vs)) m)) k
     = filter keep (bucket m k)" by simp
  have none: "bucket m k' = []" using Cons.prems p by (auto intro!: bucket_not_key)
  show ?case
  proof (cases "k = k'")
    case True
    with p none IH show ?thesis by (cases "filter keep vs = []") (simp_all add: bucket_def)
  next
    case False
    with p IH show ?thesis by (cases "filter keep vs = []") (simp_all add: bucket_def)
  qed
qed simp

lemma hm_wf_hm_retain: "hm_wf m \<Longrightarrow> hm_wf (hm_retain keep m)"
  unfolding hm_wf_def hm_retain_def
  by (induction m) (auto simp: image_iff)

lemma bucket_hm_remove [bucket_simps]:
  "bucket (hm_remove k m) k' = (if k' = k then [] else bucket m k')"
  using map_of_filter_key[of "\<lambda>x. x \<noteq> k" m k'] by (simp add: bucket_def hm_remove_def)

lemma hm_wf_hm_remove: "hm_wf m \<Longrightarrow> hm_wf (hm_remove k m)"
  by (auto simp: hm_wf_def hm_remove_def distinct_map_filter)

lemma map_of_hm_insert: "map_of (hm_insert k v m) k' = (if k' = k then Some v else map_of m k')"
  by (induction m) auto

lemma keys_hm_insert: "fst ` set (hm_insert k v m) = insert k (fst ` set m)"
  by (induction m) force+

lemma distinct_hm_insert: "distinct (map fst m) \<Longrightarrow> distinct (map fst (hm_insert k v m))"
proof (induction m)
  case (Cons p m)
  then show ?case using keys_hm_insert[of k v m] by (cases p) auto
qed simp

lemma set_bt_insert_keys: "fst ` set (bt_insert k v m) = insert k (fst ` set m)"
  by (induction m) force+

lemma map_of_bt_insert:
  "sorted_wrt (<) (map fst m) \<Longrightarrow>
   map_of (bt_insert k v m) k' = (if k' = k then Some v else map_of m k')"
  by (induction m) (auto simp: map_of_eq_None_iff)

lemma sorted_bt_insert: "sorted_wrt (<) (map fst m) \<Longrightarrow> sorted_wrt (<) (map fst (bt_insert k v m))"
proof (induction m)
  case (Cons p m)
  then show ?case using set_bt_insert_keys[of k v m] by (cases p) (fastforce simp: image_iff)
qed simp

lemma bt_insert_greatest: "\<forall>k' \<in> fst ` set m. k' < k \<Longrightarrow> bt_insert k v m = m @ [(k, v)]"
  by (induction m) fastforce+

lemma set_dedup_on: "set (dedup_on f seen xs) \<subseteq> set xs"
  by (induction xs arbitrary: seen) (simp_all add: subset_insertI2)

lemma keys_dedup_on: "f ` set (dedup_on f seen xs) = f ` set xs - set seen"
  by (induction xs arbitrary: seen) auto

lemma distinct_dedup_on: "distinct (map f (dedup_on f seen xs))"
proof (induction xs arbitrary: seen)
  case (Cons x xs)
  then show ?case using keys_dedup_on[of f "f x # seen" xs] by auto
qed simp

text \<open>
  The contract of an index that maps a key to a vector: what the graph's tables promise to the
  code that fills, prunes and reads them.
\<close>

locale bucket_index =
  fixes get :: "'m \<Rightarrow> 'k \<Rightarrow> 'v list"
    and push :: "'k \<Rightarrow> 'v \<Rightarrow> 'm \<Rightarrow> 'm"
    and retain :: "('v \<Rightarrow> bool) \<Rightarrow> 'm \<Rightarrow> 'm"
    and invar :: "'m \<Rightarrow> bool"
  assumes get_push: "get (push k v m) k' = (if k' = k then get m k @ [v] else get m k')"
    and get_retain: "invar m \<Longrightarrow> get (retain keep m) k = filter keep (get m k)"
    and invar_push: "invar m \<Longrightarrow> invar (push k v m)"
    and invar_retain: "invar m \<Longrightarrow> invar (retain keep m)"
begin

lemma get_push_all:
  "get (fold (\<lambda>(k, v). push k v) kvs m) k = get m k @ map snd (filter (\<lambda>p. fst p = k) kvs)"
  by (induction kvs arbitrary: m) (auto simp: get_push split_beta)

lemma invar_push_all: "invar m \<Longrightarrow> invar (fold (\<lambda>(k, v). push k v) kvs m)"
  by (induction kvs arbitrary: m) (auto simp: invar_push split_beta)

lemma retain_drops: "invar m \<Longrightarrow> \<not> keep v \<Longrightarrow> v \<notin> set (get (retain keep m) k)"
  by (simp add: get_retain)

lemma retain_keeps: "invar m \<Longrightarrow> keep v \<Longrightarrow> v \<in> set (get m k) \<Longrightarrow> v \<in> set (get (retain keep m) k)"
  by (simp add: get_retain)

lemma retain_idem: "invar m \<Longrightarrow> get (retain keep (retain keep m)) k = get (retain keep m) k"
  by (simp add: get_retain invar_retain)

end

interpretation hm: bucket_index bucket hm_push hm_retain hm_wf
  by unfold_locales (simp_all add: bucket_simps hm_wf_hm_push hm_wf_hm_retain)

text \<open>
  The contract of a component with operations and an invariant: the start state satisfies it and
  every operation that is allowed in a state keeps it. Then so does every run.
\<close>

locale invariant_machine =
  fixes step :: "'op \<Rightarrow> 's \<Rightarrow> 's"
    and allowed :: "'op \<Rightarrow> 's \<Rightarrow> bool"
    and start :: 's
    and inv :: "'s \<Rightarrow> bool"
  assumes inv_start: "inv start"
    and inv_step: "inv s \<Longrightarrow> allowed op s \<Longrightarrow> inv (step op s)"
begin

fun run_allowed :: "'op list \<Rightarrow> 's \<Rightarrow> bool" where
  "run_allowed [] s = True"
| "run_allowed (op # ops) s = (allowed op s \<and> run_allowed ops (step op s))"

lemma inv_run_from: "inv s \<Longrightarrow> run_allowed ops s \<Longrightarrow> inv (fold step ops s)"
  by (induction ops arbitrary: s) (auto simp: inv_step)

lemma inv_run: "run_allowed ops start \<Longrightarrow> inv (fold step ops start)"
  by (rule inv_run_from[OF inv_start])

lemma run_allowed_append:
  "run_allowed (xs @ ys) s \<longleftrightarrow> run_allowed xs s \<and> run_allowed ys (fold step xs s)"
  by (induction xs arbitrary: s) auto

end

lemma strict_sorted_remdups_adj: "sorted (xs :: 'a::linorder list) \<Longrightarrow> sorted_wrt (<) (remdups_adj xs)"
  by (induction xs rule: remdups_adj.induct) (auto simp: order.order_iff_strict)

end
