(* ===== verification/Mesh_Paths.thy ===== *)
theory Mesh_Paths
  imports Mesh_Prelude
begin

text \<open>
  Paths as \<^verbatim>\<open>std::path::Path\<close> sees them on Unix: a sequence of components. Equality, hashing and
  order of a Rust path are those of its components, so the component list is the path; only
  repeated separators and inner \<^verbatim>\<open>.\<close> components of the spelling are forgotten. The second part is
  \<^verbatim>\<open>crates/mesh-core/src/test_paths.rs\<close>: recognising test code and generated code by path.
\<close>

datatype component = RootDir | CurDir | ParentDir | Normal string

type_synonym path = "component list"

text \<open>The derived order of \<^verbatim>\<open>std::path::Component\<close>.\<close>

fun component_key :: "component \<Rightarrow> nat \<times> string" where
  "component_key RootDir = (0, [])"
| "component_key CurDir = (1, [])"
| "component_key ParentDir = (2, [])"
| "component_key (Normal n) = (3, n)"

lemma component_key_inj: "component_key a = component_key b \<longleftrightarrow> a = b"
  by (cases a; cases b) auto

instantiation component :: linorder
begin

definition less_eq_component :: "component \<Rightarrow> component \<Rightarrow> bool" where
  "less_eq_component a b \<longleftrightarrow> component_key a \<le> component_key b"

definition less_component :: "component \<Rightarrow> component \<Rightarrow> bool" where
  "less_component a b \<longleftrightarrow> component_key a < component_key b"

instance
  by standard
    (auto simp: less_eq_component_def less_component_def component_key_inj order.strict_iff_order
      intro: order.trans)

end

fun component_of_str :: "string \<Rightarrow> component" where
  "component_of_str t = (if t = ''..'' then ParentDir else if t = ''.'' then CurDir else Normal t)"

definition path_of_str :: "string \<Rightarrow> path" where
  "path_of_str s =
     (let cs = map component_of_str (filter (\<lambda>t. t \<noteq> []) (split CHR ''/'' s)) in
      if starts_with s ''/'' then RootDir # filter (\<lambda>c. c \<noteq> CurDir) cs
      else case cs of [] \<Rightarrow> [] | c # cs' \<Rightarrow> c # filter (\<lambda>c. c \<noteq> CurDir) cs')"

fun component_str :: "component \<Rightarrow> string" where
  "component_str RootDir = ''/''"
| "component_str CurDir = ''.''"
| "component_str ParentDir = ''..''"
| "component_str (Normal n) = n"

text \<open>\<^verbatim>\<open>Path::to_string_lossy\<close>.\<close>

fun path_str :: "path \<Rightarrow> string" where
  "path_str (RootDir # cs) = ''/'' @ join_with ''/'' (map component_str cs)"
| "path_str cs = join_with ''/'' (map component_str cs)"

definition is_relative :: "path \<Rightarrow> bool" where
  "is_relative p \<longleftrightarrow> (case p of RootDir # _ \<Rightarrow> False | _ \<Rightarrow> True)"

definition path_parent :: "path \<Rightarrow> path option" where
  "path_parent p = (if p = [] \<or> last p = RootDir then None else Some (butlast p))"

definition file_name :: "path \<Rightarrow> string option" where
  "file_name p = (if p = [] then None else case last p of Normal n \<Rightarrow> Some n | _ \<Rightarrow> None)"

text \<open>\<^verbatim>\<open>rsplit_file_at_dot\<close> of the standard library: a leading dot does not start an extension.\<close>

definition file_stem :: "path \<Rightarrow> string option" where
  "file_stem p =
     map_option (\<lambda>n. case rsplit_once CHR ''.'' n of
                       Some (before, after) \<Rightarrow> if before = [] then n else before
                     | None \<Rightarrow> n) (file_name p)"

definition extension :: "path \<Rightarrow> string option" where
  "extension p =
     Option.bind (file_name p) (\<lambda>n. case rsplit_once CHR ''.'' n of
                       Some (before, after) \<Rightarrow> if before = [] then None else Some after
                     | None \<Rightarrow> None)"

definition path_starts_with :: "path \<Rightarrow> path \<Rightarrow> bool" where
  "path_starts_with p base \<longleftrightarrow> take (length base) p = base"

definition path_strip_prefix :: "path \<Rightarrow> path \<Rightarrow> path option" where
  "path_strip_prefix base p =
     (if path_starts_with p base then Some (drop (length base) p) else None)"

definition path_join :: "path \<Rightarrow> path \<Rightarrow> path" where
  "path_join p q =
     (if \<not> is_relative q \<or> p = [] then q else p @ filter (\<lambda>c. c \<noteq> CurDir) q)"

text \<open>A path every component of which could have been written: names are not empty.\<close>

definition path_wf :: "path \<Rightarrow> bool" where
  "path_wf p \<longleftrightarrow> Normal [] \<notin> set p"

section \<open>Test code and generated code (\<^verbatim>\<open>test_paths.rs\<close>)\<close>

definition TEST_DIRS :: "string list" where
  "TEST_DIRS =
     [''test'', ''tests'', ''__tests__'', ''__mocks__'', ''__fixtures__'', ''spec'', ''specs'',
      ''e2e'', ''test-utils'', ''test_utils'', ''testutils'', ''testing'', ''fixtures'',
      ''__test-utils__'', ''__test_utils__'', ''__testutils__'', ''__specs__'', ''__e2e__'',
      ''__testing__'']"

definition has_dir_named :: "string list \<Rightarrow> path \<Rightarrow> bool" where
  "has_dir_named dirs p \<longleftrightarrow>
     (\<exists>c \<in> set p. case c of
        Normal n \<Rightarrow> (\<exists>d \<in> set dirs. eq_ignore_ascii_case d n)
      | _ \<Rightarrow> False)"

definition is_test_file_name :: "string \<Rightarrow> bool" where
  "is_test_file_name name \<longleftrightarrow>
     (let parts = split CHR ''.'' name;
          stem = hd parts;
          dotted = (\<exists>part \<in> set (tl parts).
             part \<in> set [''spec'', ''test'', ''e2e-spec'', ''e2e'', ''int-test'', ''it'']) in
      dotted
      \<or> ends_with stem ''_test''
      \<or> ends_with stem ''_spec''
      \<or> starts_with stem ''test_''
      \<or> ((ends_with stem ''Test'' \<or> ends_with stem ''Tests'' \<or> ends_with stem ''IT'')
          \<and> length stem > 4
          \<and> (case stem of c # _ \<Rightarrow> is_ascii_upper c | [] \<Rightarrow> False)))"

definition is_test_path :: "path \<Rightarrow> bool" where
  "is_test_path p \<longleftrightarrow>
     (if has_dir_named TEST_DIRS p then True
      else case file_name p of None \<Rightarrow> False | Some name \<Rightarrow> is_test_file_name name)"

definition GEN_DIRS :: "string list" where
  "GEN_DIRS = [''__generated__'', ''generated'', ''gen'', ''codegen'', ''proto-gen'']"

definition is_generated_path :: "path \<Rightarrow> bool" where
  "is_generated_path p \<longleftrightarrow>
     (if has_dir_named GEN_DIRS p then True
      else case file_name p of
        None \<Rightarrow> False
      | Some name \<Rightarrow>
          ends_with name ''.d.ts'' \<or> str_contains name ''.generated.'' \<or> str_contains name ''.gen.''
          \<or> str_contains name ''.pb.'' \<or> str_contains name ''_pb.'' \<or> str_contains name ''_pb2''
          \<or> str_contains name ''_grpc.'')"

text \<open>\<^verbatim>\<open>Iterator::min_by_key\<close>: the first of the minimal elements.\<close>

fun min_by_key :: "('a \<Rightarrow> 'b::linorder) \<Rightarrow> 'a list \<Rightarrow> 'a option" where
  "min_by_key f [] = None"
| "min_by_key f (x # xs) =
     (case min_by_key f xs of
        None \<Rightarrow> Some x
      | Some y \<Rightarrow> if f y < f x then Some y else Some x)"

text \<open>\<^verbatim>\<open>Iterator::max_by_key\<close>: the last of the maximal elements.\<close>

fun max_by_key :: "('a \<Rightarrow> 'b::linorder) \<Rightarrow> 'a list \<Rightarrow> 'a option" where
  "max_by_key f [] = None"
| "max_by_key f (x # xs) =
     (case max_by_key f xs of
        None \<Rightarrow> Some x
      | Some y \<Rightarrow> if f x \<le> f y then Some y else Some x)"

text \<open>The path a node's file is judged by: relative to its own root, else to the root that leaves
  the fewest components, else as it is.\<close>

definition test_relative_path :: "path \<Rightarrow> nat \<Rightarrow> path list \<Rightarrow> path" where
  "test_relative_path file repo_id roots =
     (let own = (if repo_id < length roots then path_strip_prefix (roots ! repo_id) file else None)
      in case own of
           Some rel \<Rightarrow> rel
         | None \<Rightarrow>
             (case min_by_key length (List.map_filter (\<lambda>r. path_strip_prefix r file) roots) of
                Some rel \<Rightarrow> rel
              | None \<Rightarrow> file))"

section \<open>Lemmas\<close>

lemma path_starts_with_append [simp]: "path_starts_with (base @ rel) base"
  by (simp add: path_starts_with_def)

lemma path_strip_prefix_append [simp]: "path_strip_prefix base (base @ rel) = Some rel"
  by (simp add: path_strip_prefix_def)

lemma path_strip_prefix_Some: "path_strip_prefix base p = Some rel \<longleftrightarrow> p = base @ rel"
  by (auto simp: path_strip_prefix_def path_starts_with_def)
    (metis append_take_drop_id)

lemma path_starts_with_iff: "path_starts_with p base \<longleftrightarrow> (\<exists>rel. p = base @ rel)"
  by (metis path_strip_prefix_Some path_strip_prefix_def option.discI option.exhaust_sel)

lemma path_starts_with_trans:
  "path_starts_with a b \<Longrightarrow> path_starts_with b c \<Longrightarrow> path_starts_with a c"
  by (metis append.assoc path_starts_with_iff)

lemma path_starts_with_refl [simp]: "path_starts_with p p"
  by (simp add: path_starts_with_def)

lemma file_name_append [simp]: "q \<noteq> [] \<Longrightarrow> file_name (p @ q) = file_name q"
  by (simp add: file_name_def)

lemma min_by_key_None [simp]: "min_by_key f xs = None \<longleftrightarrow> xs = []"
  by (cases xs) (auto split: option.splits)

lemma max_by_key_None [simp]: "max_by_key f xs = None \<longleftrightarrow> xs = []"
  by (cases xs) (auto split: option.splits)

lemma min_by_key_Some: "min_by_key f xs = Some y \<Longrightarrow> y \<in> set xs \<and> (\<forall>x \<in> set xs. f y \<le> f x)"
proof (induction xs arbitrary: y)
  case (Cons x xs)
  show ?case
  proof (cases "min_by_key f xs")
    case None
    with Cons.prems show ?thesis by auto
  next
    case (Some z)
    with Cons.IH have "z \<in> set xs" "\<forall>x \<in> set xs. f z \<le> f x" by auto
    with Cons.prems Some show ?thesis by (force split: if_splits)
  qed
qed simp

lemma max_by_key_Some: "max_by_key f xs = Some y \<Longrightarrow> y \<in> set xs \<and> (\<forall>x \<in> set xs. f x \<le> f y)"
proof (induction xs arbitrary: y)
  case (Cons x xs)
  show ?case
  proof (cases "max_by_key f xs")
    case None
    with Cons.prems show ?thesis by auto
  next
    case (Some z)
    with Cons.IH have "z \<in> set xs" "\<forall>x \<in> set xs. f x \<le> f z" by auto
    with Cons.prems Some show ?thesis by (force split: if_splits)
  qed
qed simp

text \<open>A test directory above a path decides for every file below it.\<close>

lemma has_dir_named_append: "has_dir_named ds (p @ q) \<longleftrightarrow> has_dir_named ds p \<or> has_dir_named ds q"
  by (auto simp: has_dir_named_def)

lemma is_test_path_below: "has_dir_named TEST_DIRS p \<Longrightarrow> is_test_path (p @ q)"
  by (simp add: is_test_path_def has_dir_named_append)

text \<open>
  The verdict on a file under its own root depends only on the path relative to that root: a
  checkout that itself lives under \<^verbatim>\<open>~/testing\<close> or \<^verbatim>\<open>/work/e2e\<close> does not turn its files into
  test code, and moving the checkout never changes a verdict.
\<close>

theorem test_path_relocatable:
  assumes "repo < length roots" and "repo < length roots'"
  shows "is_test_path (test_relative_path (roots ! repo @ rel) repo roots)
       = is_test_path (test_relative_path (roots' ! repo @ rel) repo roots')"
  using assms by (simp add: test_relative_path_def)

theorem test_path_relocatable_witness:
  "is_test_path (test_relative_path ([[RootDir, Normal ''testing'']] ! 0 @ [Normal ''src'', Normal ''a.ts''])
       0 [[RootDir, Normal ''testing'']])
     = is_test_path (test_relative_path ([[RootDir, Normal ''ws'']] ! 0 @ [Normal ''src'', Normal ''a.ts''])
       0 [[RootDir, Normal ''ws'']])
   \<and> \<not> is_test_path (test_relative_path ([RootDir, Normal ''ws'', Normal ''src'', Normal ''a.ts''])
       0 [[RootDir, Normal ''ws'']])"
proof -
  have "\<not> is_test_path (test_relative_path ([RootDir, Normal ''ws'', Normal ''src'', Normal ''a.ts''])
       0 [[RootDir, Normal ''ws'']])"
    by code_simp
  then show ?thesis
    using test_path_relocatable[of 0 "[[RootDir, Normal ''testing'']]" "[[RootDir, Normal ''ws'']]"
        "[Normal ''src'', Normal ''a.ts'']"]
    by simp
qed

end
