(* ===== verification/Mesh_Types.thy ===== *)
theory Mesh_Types
  imports Mesh_Paths "HOL-Library.Word"
begin

text \<open>
  \<^verbatim>\<open>crates/mesh-core/src/types.rs\<close>: the nodes and edges of the contract graph, the name
  normalisation shared by the extractors, and the detection of the service a file belongs to.

  A \<^verbatim>\<open>RepoId\<close> (\<^verbatim>\<open>u16\<close>) is a 16-bit word and a \<^verbatim>\<open>NodeId\<close> (\<^verbatim>\<open>u32\<close>) a natural number; node ids are handed out by a
  counter that starts at 0, so the model agrees with the code for the first \<open>2 ^ 32\<close> nodes of a
  graph. \<^verbatim>\<open>RepoId::MAX\<close>, the sentinel of the synthetic topic hubs, is the constant \<open>repo_max\<close>.
\<close>

type_synonym node_id = nat
type_synonym repo_id = "16 word"

definition repo_max :: repo_id where
  "repo_max = 65535"

section \<open>Canonical method names\<close>

definition is_word_sep :: "char \<Rightarrow> bool" where
  "is_word_sep c \<longleftrightarrow> c \<in> set [CHR ''_'', CHR ''-'', CHR ''.'', CHR ''/'', CHR '' '']"

text \<open>The loop of \<^verbatim>\<open>to_pascal_case\<close>; the flag is \<^verbatim>\<open>capitalize_next\<close>.\<close>

fun pascal_loop :: "bool \<Rightarrow> string \<Rightarrow> string" where
  "pascal_loop cap [] = []"
| "pascal_loop cap (c # cs) =
     (if is_word_sep c then pascal_loop True cs
      else if cap then ascii_upper c # pascal_loop False cs
      else c # pascal_loop False cs)"

definition to_pascal_case :: "string \<Rightarrow> string" where
  "to_pascal_case s = pascal_loop True s"

definition canonical_method_id :: "string \<Rightarrow> string \<Rightarrow> string \<Rightarrow> string" where
  "canonical_method_id package service method =
     package @ ''.'' @ to_pascal_case service @ ''/'' @ to_pascal_case method"

section \<open>Nodes and edges\<close>

datatype node_kind =
    GrpcService | GrpcMethod | HttpEndpoint | KafkaTopic | EventStream | Queue | ProtoMessage
  | PostProcessor | Saga | ServiceClass | Interface | Module

record contract_node =
  n_id :: node_id
  n_name :: string
  n_kind :: node_kind
  n_file :: path
  n_line_start :: nat
  n_line_end :: nat
  n_package :: string
  n_repo :: repo_id
  n_signature :: "string option"
  n_docstring :: "string option"

datatype edge_kind = Produces | Consumes | CallsRpc | Implements | Imports | DispatchesTo

datatype edge_confidence = Exact | Heuristic | Ambiguous

fun confidence_label :: "edge_confidence \<Rightarrow> string" where
  "confidence_label Exact = ''exact''"
| "confidence_label Heuristic = ''heuristic''"
| "confidence_label Ambiguous = ''ambiguous''"

record contract_edge =
  e_from :: node_id
  e_to :: node_id
  e_kind :: edge_kind
  e_metadata :: "string option"
  e_confidence :: edge_confidence

text \<open>The kinds that name a topic, a stream or a queue.\<close>

definition stream_like :: "node_kind \<Rightarrow> bool" where
  "stream_like k \<longleftrightarrow> k = KafkaTopic \<or> k = EventStream \<or> k = Queue"

section \<open>The service a file belongs to\<close>

text \<open>
  The file system and the JSON and TOML parsers are parameters: \<open>fs_exists\<close> is \<^verbatim>\<open>Path::exists\<close>,
  \<open>fs_len\<close> and \<open>fs_text\<close> are the length in the metadata and the content as text (\<open>None\<close> when the
  call fails), \<open>json_name\<close> is the string under \<^verbatim>\<open>name\<close> of a JSON document, \<open>toml_cargo\<close> the string
  under \<^verbatim>\<open>package.name\<close> of a TOML document and \<open>toml_pyproject\<close> the string under \<^verbatim>\<open>project.name\<close>, or
  under \<^verbatim>\<open>tool.poetry.name\<close> when there is no \<^verbatim>\<open>project.name\<close>.
\<close>

record manifest_env =
  fs_exists :: "path \<Rightarrow> bool"
  fs_len :: "path \<Rightarrow> nat option"
  fs_text :: "path \<Rightarrow> string option"
  json_name :: "string \<Rightarrow> string option"
  toml_cargo :: "string \<Rightarrow> string option"
  toml_pyproject :: "string \<Rightarrow> string option"

definition MAX_MANIFEST_SIZE_BYTES :: nat where
  "MAX_MANIFEST_SIZE_BYTES = 64 * 1024"

definition MAX_WALK_DEPTH :: nat where
  "MAX_WALK_DEPTH = 32"

definition join_name :: "path \<Rightarrow> string \<Rightarrow> path" where
  "join_name dir name = path_join dir (path_of_str name)"

definition read_manifest_bounded :: "manifest_env \<Rightarrow> path \<Rightarrow> string option" where
  "read_manifest_bounded env p =
     Option.bind (fs_len env p) (\<lambda>len.
       if len > MAX_MANIFEST_SIZE_BYTES then None else fs_text env p)"

text \<open>
  \<^verbatim>\<open>str::lines\<close>: split at newlines, a carriage return before the newline dropped, no empty last line.
\<close>

definition strip_cr :: "string \<Rightarrow> string" where
  "strip_cr l = (case strip_suffix [CHR 0x0D] l of Some l' \<Rightarrow> l' | None \<Rightarrow> l)"

definition str_lines :: "string \<Rightarrow> string list" where
  "str_lines s =
     (let ls = split CHR 0x0A s in
      map strip_cr (butlast ls) @ (if last ls = [] then [] else [last ls]))"

definition non_empty :: "string \<Rightarrow> string option" where
  "non_empty s = (if s = [] then None else Some s)"

definition read_go_mod_module :: "manifest_env \<Rightarrow> path \<Rightarrow> string option" where
  "read_go_mod_module env dir =
     Option.bind (read_manifest_bounded env (join_name dir ''go.mod'')) (\<lambda>content.
     Option.bind (find (\<lambda>l. starts_with (trim_start l) ''module '') (str_lines content)) (\<lambda>line.
     Option.bind (strip_prefix ''module '' (trim_start line)) (\<lambda>rest.
       non_empty (last_segment CHR ''/'' (trim rest)))))"

definition read_package_json_name :: "manifest_env \<Rightarrow> path \<Rightarrow> string option" where
  "read_package_json_name env dir =
     Option.bind (read_manifest_bounded env (join_name dir ''package.json'')) (\<lambda>content.
     Option.bind (json_name env content) (\<lambda>raw.
       non_empty (last_segment CHR ''/'' raw)))"

definition read_cargo_toml_name :: "manifest_env \<Rightarrow> path \<Rightarrow> string option" where
  "read_cargo_toml_name env dir =
     Option.bind (read_manifest_bounded env (join_name dir ''Cargo.toml'')) (toml_cargo env)"

definition read_pyproject_name :: "manifest_env \<Rightarrow> path \<Rightarrow> string option" where
  "read_pyproject_name env dir =
     Option.bind (read_manifest_bounded env (join_name dir ''pyproject.toml'')) (toml_pyproject env)"

definition or_else :: "'a option \<Rightarrow> 'a option \<Rightarrow> 'a option" where
  "or_else a b = (case a of Some x \<Rightarrow> Some x | None \<Rightarrow> b)"

definition manifest_declared_name :: "manifest_env \<Rightarrow> path \<Rightarrow> string option" where
  "manifest_declared_name env dir =
     or_else (read_go_mod_module env dir)
       (or_else (read_package_json_name env dir)
         (or_else (read_cargo_toml_name env dir) (read_pyproject_name env dir)))"

definition has_compilation_manifest :: "manifest_env \<Rightarrow> path \<Rightarrow> bool" where
  "has_compilation_manifest env dir \<longleftrightarrow>
     (\<exists>f \<in> set [''go.mod'', ''Cargo.toml'', ''package.json'', ''pom.xml'', ''build.gradle'',
                ''build.gradle.kts'', ''pyproject.toml'', ''Pipfile'', ''setup.py'', ''Gemfile'',
                ''composer.json'', ''Package.swift''].
        fs_exists env (join_name dir f))"

definition is_container_dir :: "string \<Rightarrow> bool" where
  "is_container_dir n \<longleftrightarrow>
     n \<in> set [''services'', ''apps'', ''packages'', ''modules'', ''crates'', ''libs'',
              ''subprojects'', ''projects'']"

definition is_technical_source_dir :: "string \<Rightarrow> bool" where
  "is_technical_source_dir n \<longleftrightarrow>
     n \<in> set [''src'', ''lib'', ''cmd'', ''pkg'', ''internal'', ''proto'', ''api'', ''test'', ''tests'']"

text \<open>
  The three upward walks. Each visits \<open>dir\<close> and its ancestors, at most \<open>MAX_WALK_DEPTH\<close> of them
  (the first argument is what is left of that budget); only the manifest walk stops at the empty
  path.
\<close>

fun manifest_walk :: "nat \<Rightarrow> manifest_env \<Rightarrow> path option \<Rightarrow> string option" where
  "manifest_walk 0 env cur = None"
| "manifest_walk (Suc n) env None = None"
| "manifest_walk (Suc n) env (Some dir) =
     (if dir = [] then None
      else
        (case (if has_compilation_manifest env dir then
                 or_else (Option.bind (manifest_declared_name env dir) non_empty)
                         (Option.bind (file_name dir) non_empty)
               else None) of
           Some name \<Rightarrow> Some name
         | None \<Rightarrow> manifest_walk n env (path_parent dir)))"

fun container_walk :: "nat \<Rightarrow> path option \<Rightarrow> string option" where
  "container_walk 0 cur = None"
| "container_walk (Suc n) None = None"
| "container_walk (Suc n) (Some dir) =
     (case Option.bind (path_parent dir) (\<lambda>parent.
           Option.bind (file_name parent) (\<lambda>pname.
             if is_container_dir pname then file_name dir else None)) of
        Some name \<Rightarrow> Some name
      | None \<Rightarrow> container_walk n (path_parent dir))"

fun technical_walk :: "nat \<Rightarrow> path option \<Rightarrow> string option" where
  "technical_walk 0 cur = None"
| "technical_walk (Suc n) None = None"
| "technical_walk (Suc n) (Some dir) =
     (case Option.bind (file_name dir) (\<lambda>name.
             if is_technical_source_dir name then None else Some name) of
        Some name \<Rightarrow> Some name
      | None \<Rightarrow> technical_walk n (path_parent dir))"

definition explicit_package :: "string option \<Rightarrow> string option" where
  "explicit_package raw =
     Option.bind raw (\<lambda>pkg.
       let trimmed = trim pkg in
       if trimmed \<noteq> [] \<and> trimmed \<noteq> ''main'' then Some trimmed else None)"

definition detect_service_package :: "manifest_env \<Rightarrow> path \<Rightarrow> string option \<Rightarrow> string" where
  "detect_service_package env file raw =
     (case explicit_package raw of
        Some pkg \<Rightarrow> pkg
      | None \<Rightarrow>
     (case manifest_walk MAX_WALK_DEPTH env (path_parent file) of
        Some name \<Rightarrow> name
      | None \<Rightarrow>
     (case container_walk MAX_WALK_DEPTH (path_parent file) of
        Some name \<Rightarrow> name
      | None \<Rightarrow>
     (case technical_walk MAX_WALK_DEPTH (path_parent file) of
        Some name \<Rightarrow> name
      | None \<Rightarrow> ''shared''))))"

definition is_test_node :: "contract_node \<Rightarrow> path list \<Rightarrow> bool" where
  "is_test_node node roots \<longleftrightarrow>
     is_test_path (test_relative_path (n_file node) (unat (n_repo node)) roots)"

section \<open>Lemmas\<close>

lemma ascii_upper_idem [simp]: "ascii_upper (ascii_upper c) = ascii_upper c"
  by (cases c) (auto simp: ascii_defs)

lemma ascii_upper_not_sep: "\<not> is_word_sep c \<Longrightarrow> \<not> is_word_sep (ascii_upper c)"
  by (cases c) (auto simp: ascii_defs is_word_sep_def)

lemma pascal_loop_no_sep: "c \<in> set (pascal_loop cap s) \<Longrightarrow> \<not> is_word_sep c"
  by (induction s arbitrary: cap) (auto simp: ascii_upper_not_sep split: if_splits)

lemma pascal_loop_False_id: "\<forall>c \<in> set s. \<not> is_word_sep c \<Longrightarrow> pascal_loop False s = s"
  by (induction s) auto

lemma pascal_loop_True_id:
  "\<forall>c \<in> set s. \<not> is_word_sep c \<Longrightarrow>
   (case s of [] \<Rightarrow> True | c # _ \<Rightarrow> ascii_upper c = c) \<Longrightarrow> pascal_loop True s = s"
  by (cases s) (auto simp: pascal_loop_False_id)

lemma pascal_loop_True_head:
  "case pascal_loop True s of [] \<Rightarrow> True | c # _ \<Rightarrow> ascii_upper c = c"
  by (induction s) auto

lemma pascal_loop_append_sep:
  "is_word_sep c \<Longrightarrow> pascal_loop cap (s @ c # t) = pascal_loop cap s @ pascal_loop True t"
  by (induction s arbitrary: cap) auto

text \<open>
  \<^verbatim>\<open>to_pascal_case\<close> is a normal form: its result has no word separator left and applying it
  again changes nothing, and any two separators between the same two words give the same name.
\<close>

theorem to_pascal_case_normal:
  "to_pascal_case (to_pascal_case s) = to_pascal_case s
   \<and> (\<forall>c \<in> set (to_pascal_case s). \<not> is_word_sep c)
   \<and> to_pascal_case (a @ CHR ''_'' # b) = to_pascal_case (a @ CHR ''-'' # b)"
proof -
  have "to_pascal_case (to_pascal_case s) = to_pascal_case s"
    unfolding to_pascal_case_def
    by (rule pascal_loop_True_id) (auto simp: pascal_loop_no_sep pascal_loop_True_head)
  moreover have "\<forall>c \<in> set (to_pascal_case s). \<not> is_word_sep c"
    by (auto simp: to_pascal_case_def pascal_loop_no_sep)
  moreover have "to_pascal_case (a @ CHR ''_'' # b) = to_pascal_case (a @ CHR ''-'' # b)"
    by (simp add: to_pascal_case_def pascal_loop_append_sep is_word_sep_def)
  ultimately show ?thesis by blast
qed

theorem to_pascal_case_normal_witness:
  "to_pascal_case (''sign'' @ CHR ''_'' # ''up'') = to_pascal_case (''sign'' @ CHR ''-'' # ''up'')
   \<and> to_pascal_case ''sign_up'' = ''SignUp''"
proof -
  have "to_pascal_case ''sign_up'' = ''SignUp''" by code_simp
  then show ?thesis using to_pascal_case_normal[of "''x''" "''sign''" "''up''"] by blast
qed

lemma file_name_wf: "path_wf p \<Longrightarrow> file_name p = Some n \<Longrightarrow> n \<noteq> []"
  by (auto simp: path_wf_def file_name_def split: if_splits component.splits)
    (metis last_in_set)

lemma path_parent_wf: "path_wf p \<Longrightarrow> path_parent p = Some q \<Longrightarrow> path_wf q"
  by (auto simp: path_wf_def path_parent_def split: if_splits dest: in_set_butlastD)

lemma non_empty_Some: "non_empty s = Some t \<Longrightarrow> t \<noteq> []"
  by (simp add: non_empty_def split: if_splits)

lemma manifest_walk_nonempty: "manifest_walk n env cur = Some name \<Longrightarrow> name \<noteq> []"
proof (induction n env cur rule: manifest_walk.induct)
  case (3 n env dir)
  then show ?case
    by (auto simp: or_else_def bind_eq_Some_conv dest: non_empty_Some
        split: if_splits option.splits)
qed auto

lemma container_walk_nonempty:
  "container_walk n cur = Some name \<Longrightarrow> (\<forall>d. cur = Some d \<longrightarrow> path_wf d) \<Longrightarrow> name \<noteq> []"
proof (induction n cur rule: container_walk.induct)
  case (3 n dir)
  then show ?case
    by (auto simp: bind_eq_Some_conv file_name_wf path_parent_wf
        split: if_splits option.splits)
qed auto

lemma technical_walk_nonempty:
  "technical_walk n cur = Some name \<Longrightarrow> (\<forall>d. cur = Some d \<longrightarrow> path_wf d) \<Longrightarrow> name \<noteq> []"
proof (induction n cur rule: technical_walk.induct)
  case (3 n dir)
  then show ?case
    by (auto simp: bind_eq_Some_conv path_parent_wf dest: file_name_wf
        split: if_splits option.splits)
qed auto

lemma explicit_package_nonempty: "explicit_package raw = Some p \<Longrightarrow> p \<noteq> []"
  by (auto simp: explicit_package_def Let_def bind_eq_Some_conv split: if_splits)

text \<open>
  Every file gets a service: whatever the file system and the manifests hold, the detected
  package is not the empty string, and an explicit package other than \<^verbatim>\<open>main\<close> is always taken as it
  is, before anything on disk is looked at.
\<close>

theorem detect_service_package_total:
  assumes "path_wf file"
  shows "detect_service_package env file raw \<noteq> []
    \<and> (\<forall>pkg. trim pkg \<noteq> [] \<longrightarrow> trim pkg \<noteq> ''main'' \<longrightarrow>
          detect_service_package env file (Some pkg) = trim pkg)"
proof -
  have wf: "\<forall>d. path_parent file = Some d \<longrightarrow> path_wf d"
    using assms path_parent_wf by blast
  have "detect_service_package env file raw \<noteq> []"
    using manifest_walk_nonempty container_walk_nonempty[OF _ wf] technical_walk_nonempty[OF _ wf]
      explicit_package_nonempty
    by (auto simp: detect_service_package_def split: option.splits)
  moreover have "detect_service_package env file (Some pkg) = trim pkg"
    if "trim pkg \<noteq> []" "trim pkg \<noteq> ''main''" for pkg
    using that by (simp add: detect_service_package_def explicit_package_def Let_def)
  ultimately show ?thesis by blast
qed

definition no_manifests :: manifest_env where
  "no_manifests = \<lparr>fs_exists = (\<lambda>_. False), fs_len = (\<lambda>_. None), fs_text = (\<lambda>_. None),
     json_name = (\<lambda>_. None), toml_cargo = (\<lambda>_. None), toml_pyproject = (\<lambda>_. None)\<rparr>"

theorem detect_service_package_total_witness:
  "detect_service_package no_manifests
     [RootDir, Normal ''services'', Normal ''billing'', Normal ''a.go''] (Some ''main'') \<noteq> []
   \<and> detect_service_package no_manifests
     [RootDir, Normal ''services'', Normal ''billing'', Normal ''a.go''] (Some ''main'') = ''billing''"
proof -
  let ?f = "[RootDir, Normal ''services'', Normal ''billing'', Normal ''a.go'']"
  have "path_wf ?f" by (simp add: path_wf_def)
  then have "detect_service_package no_manifests ?f (Some ''main'') \<noteq> []"
    using detect_service_package_total by blast
  moreover have "detect_service_package no_manifests ?f (Some ''main'') = ''billing''"
    by code_simp
  ultimately show ?thesis by blast
qed

end
