(* ===== verification/Mesh_Topics.thy ===== *)
theory Mesh_Topics
  imports Mesh_Types
begin

text \<open>
  Topic, subject and service names, from the first part of
  \<^verbatim>\<open>crates/mesh-core/src/contracts.rs\<close>: the wildcard dialects of NATS and MQTT subjects, the
  registry key of a topic, and the names derived from client fields and RPC methods.
\<close>

section \<open>Wildcard subjects\<close>

text \<open>\<^verbatim>\<open>subject_dialect\<close>: the separator, the one-token wildcard and the final wildcard.\<close>

definition subject_dialect :: "string \<Rightarrow> char \<times> string \<times> string" where
  "subject_dialect key =
     (if CHR ''/'' \<in> set key then (CHR ''/'', ''+'', ''#'') else (CHR ''.'', ''*'', ''>''))"

text \<open>The token loop of \<^verbatim>\<open>is_subject_pattern\<close>; \<^verbatim>\<open>peek().is_none()\<close> is the empty rest.\<close>

fun has_wildcard :: "string \<Rightarrow> string \<Rightarrow> string list \<Rightarrow> bool" where
  "has_wildcard one rest [] = False"
| "has_wildcard one rest (t # ts) \<longleftrightarrow> t = one \<or> (t = rest \<and> ts = []) \<or> has_wildcard one rest ts"

definition is_subject_pattern :: "string \<Rightarrow> bool" where
  "is_subject_pattern key =
     (case subject_dialect key of (sep, one, rest) \<Rightarrow> has_wildcard one rest (split sep key))"

text \<open>The token loop of \<^verbatim>\<open>subject_matches\<close>.\<close>

fun match_tokens :: "string \<Rightarrow> string \<Rightarrow> string list \<Rightarrow> string list \<Rightarrow> bool" where
  "match_tokens one rest [] ts \<longleftrightarrow> ts = []"
| "match_tokens one rest (p # ps) ts \<longleftrightarrow>
     (if p = rest \<and> ps = [] then rest = ''#'' \<or> ts \<noteq> []
      else case ts of
             t # ts' \<Rightarrow> (p = one \<or> p = t) \<and> match_tokens one rest ps ts'
           | [] \<Rightarrow> False)"

definition subject_matches :: "string \<Rightarrow> string \<Rightarrow> bool" where
  "subject_matches pattern topic =
     (case subject_dialect pattern of
        (sep, one, rest) \<Rightarrow>
          if [] \<in> set (split sep topic) then False
          else match_tokens one rest (split sep pattern) (split sep topic))"

definition MAX_WILDCARD_PRODUCERS :: nat where
  "MAX_WILDCARD_PRODUCERS = 256"

section \<open>The registry key of a topic\<close>

definition is_ident_start :: "char \<Rightarrow> bool" where
  "is_ident_start c \<longleftrightarrow> is_ascii_alphabetic c \<or> c = CHR ''_'' \<or> c = CHR ''$''"

definition is_ident_part :: "char \<Rightarrow> bool" where
  "is_ident_part c \<longleftrightarrow> is_ascii_alphanumeric c \<or> c = CHR ''_'' \<or> c = CHR ''$''"

definition is_ident :: "string \<Rightarrow> bool" where
  "is_ident seg \<longleftrightarrow> (case seg of [] \<Rightarrow> False | c # cs \<Rightarrow> is_ident_start c \<and> list_all is_ident_part cs)"

definition is_constant_case :: "string \<Rightarrow> bool" where
  "is_constant_case s \<longleftrightarrow>
     list_ex is_ascii_alphabetic s
     \<and> list_all (\<lambda>c. is_ascii_upper c \<or> is_ascii_digit c \<or> c = CHR ''_'') s"

definition is_quote :: "char \<Rightarrow> bool" where
  "is_quote c \<longleftrightarrow> c \<in> set [CHR 0x27, CHR 0x22, CHR 0x60]"

definition topic_expr :: "string \<Rightarrow> string" where
  "topic_expr raw =
     (let trimmed = trim (trim_matches is_quote (trim raw)) in
      case strip_prefix ''typeof '' trimmed of Some e \<Rightarrow> trim e | None \<Rightarrow> trimmed)"

definition is_member_ref :: "string \<Rightarrow> bool" where
  "is_member_ref expr \<longleftrightarrow>
     (let segments = split CHR ''.'' expr in
      length segments \<ge> 2
      \<and> list_all is_ident segments
      \<and> (case hd segments of c # _ \<Rightarrow> is_ascii_upper c | [] \<Rightarrow> False)
      \<and> is_constant_case (last segments))"

definition normalize_topic_key :: "string \<Rightarrow> string" where
  "normalize_topic_key raw =
     (let expr = topic_expr raw in
      to_lowercase (if is_member_ref expr then last_segment CHR ''.'' expr else expr))"

section \<open>Recorded RPC calls\<close>

text \<open>
  The prefixes of a recorded call target. \<^verbatim>\<open>=\<close> names one method of a bound client, \<^verbatim>\<open>~\<close> one whose
  service was inferred from a field name, \<^verbatim>\<open>^\<close> one called through an inherited field; the other
  three are facts, not calls.
\<close>

definition RPC_EXACT_METHOD_PREFIX :: char where "RPC_EXACT_METHOD_PREFIX = CHR ''=''"
definition RPC_INFERRED_METHOD_PREFIX :: char where "RPC_INFERRED_METHOD_PREFIX = CHR 0x7E"
definition RPC_INHERITED_METHOD_PREFIX :: char where "RPC_INHERITED_METHOD_PREFIX = CHR 0x5E"
definition CLIENT_FIELD_BINDING_PREFIX :: char where "CLIENT_FIELD_BINDING_PREFIX = CHR ''#''"
definition CONST_VALUE_PREFIX :: char where "CONST_VALUE_PREFIX = CHR ''$''"
definition HANDLER_REF_PREFIX :: char where "HANDLER_REF_PREFIX = CHR ''@''"

lemmas rpc_prefix_defs = RPC_EXACT_METHOD_PREFIX_def RPC_INFERRED_METHOD_PREFIX_def
  RPC_INHERITED_METHOD_PREFIX_def CLIENT_FIELD_BINDING_PREFIX_def CONST_VALUE_PREFIX_def
  HANDLER_REF_PREFIX_def

definition service_from_client_field_name :: "string \<Rightarrow> string option" where
  "service_from_client_field_name field =
     Option.bind (or_else (strip_suffix ''Client'' field) (strip_suffix ''Service'' field)) (\<lambda>stem.
       case stem of
         [] \<Rightarrow> None
       | c # cs \<Rightarrow> if is_ascii_lower c then Some (ascii_upper c # cs @ ''Service'') else None)"

definition fold_rpc_name :: "string \<Rightarrow> string" where
  "fold_rpc_name name = map ascii_lower (filter is_ascii_alphanumeric name)"

section \<open>Subjects: the matcher against its specification\<close>

text \<open>
  What a pattern means, without the loop: without a final wildcard the tokens agree one to one;
  with one, the tokens before it do and the wildcard takes the rest, which may be empty only in
  the MQTT dialect.
\<close>

definition token_ok :: "string \<Rightarrow> string \<Rightarrow> string \<Rightarrow> bool" where
  "token_ok one p t \<longleftrightarrow> p = one \<or> p = t"

definition tokens_spec :: "string \<Rightarrow> string \<Rightarrow> string list \<Rightarrow> string list \<Rightarrow> bool" where
  "tokens_spec one rest ps ts \<longleftrightarrow>
     (if ps \<noteq> [] \<and> last ps = rest
      then length ps \<le> length ts + (if rest = ''#'' then 1 else 0)
           \<and> list_all2 (token_ok one) (butlast ps) (take (length ps - 1) ts)
      else list_all2 (token_ok one) ps ts)"

lemma match_tokens_spec: "match_tokens one rest ps ts \<longleftrightarrow> tokens_spec one rest ps ts"
proof (induction one rest ps ts rule: match_tokens.induct)
  case (2 one rest p ps ts)
  show ?case
  proof (cases "ps = []")
    case True
    then show ?thesis
      by (cases ts) (auto simp: tokens_spec_def token_ok_def)
  next
    case False
    then obtain q qs where ps: "ps = q # qs" by (cases ps) auto
    show ?thesis
      using 2 False unfolding ps
      by (cases ts) (auto simp: tokens_spec_def token_ok_def split: if_splits)
  qed
qed (auto simp: tokens_spec_def)

text \<open>
  \<^verbatim>\<open>subject_matches\<close> decides exactly the subjects its dialect describes: the topic has no empty
  token, and the tokens agree with the pattern's one by one, except that a final \<^verbatim>\<open>>\<close> takes one or
  more of them and a final \<^verbatim>\<open>#\<close> zero or more.
\<close>

theorem subject_matches_spec:
  "subject_matches pattern topic \<longleftrightarrow>
     (case subject_dialect pattern of (sep, one, rest) \<Rightarrow>
        (\<forall>t \<in> set (split sep topic). t \<noteq> [])
        \<and> tokens_spec one rest (split sep pattern) (split sep topic))"
  by (auto simp: subject_matches_def match_tokens_spec split: prod.splits)

theorem subject_matches_spec_witness:
  "subject_matches ''orders.*'' ''orders.created''
   \<and> (case subject_dialect ''orders.*'' of (sep, one, rest) \<Rightarrow>
        (\<forall>t \<in> set (split sep ''orders.created''). t \<noteq> [])
        \<and> tokens_spec one rest (split sep ''orders.*'') (split sep ''orders.created''))
   \<and> \<not> subject_matches ''orders.>'' ''orders'' \<and> subject_matches ''a/#'' ''a''"
proof (intro conjI)
  show m: "subject_matches ''orders.*'' ''orders.created''" by code_simp
  show "case subject_dialect ''orders.*'' of (sep, one, rest) \<Rightarrow>
        (\<forall>t \<in> set (split sep ''orders.created''). t \<noteq> [])
        \<and> tokens_spec one rest (split sep ''orders.*'') (split sep ''orders.created'')"
    by (rule iffD1[OF subject_matches_spec m])
  show "\<not> subject_matches ''orders.>'' ''orders''" by code_simp
  show "subject_matches ''a/#'' ''a''" by code_simp
qed

lemma has_wildcard_last:
  "\<not> has_wildcard one rest ps \<Longrightarrow> one \<notin> set ps \<and> (ps \<noteq> [] \<longrightarrow> last ps \<noteq> rest)"
  by (induction ps) (auto split: if_splits)

lemma split_inj: "split c a = split c b \<Longrightarrow> a = b"
  by (metis join_split)

text \<open>
  A key that is not a wildcard subject matches itself at most: with no wildcard token,
  \<^verbatim>\<open>subject_matches\<close> is equality of the keys, so a literal topic never hears another topic's
  producers.
\<close>

theorem literal_subject_matches_itself_only:
  assumes "\<not> is_subject_pattern key" and "subject_matches key topic"
  shows "topic = key"
proof -
  obtain sep one rest where d: "subject_dialect key = (sep, one, rest)" by (metis prod_cases3)
  from assms(1) d have nw: "one \<notin> set (split sep key)" "last (split sep key) \<noteq> rest"
    using has_wildcard_last[of one rest "split sep key"] by (auto simp: is_subject_pattern_def)
  from assms(2) d have "tokens_spec one rest (split sep key) (split sep topic)"
    by (auto simp: subject_matches_def match_tokens_spec split: if_splits)
  with nw have "list_all2 (token_ok one) (split sep key) (split sep topic)"
    by (auto simp: tokens_spec_def split: if_splits)
  then have "split sep key = split sep topic"
    using nw(1) by (auto simp: list_all2_conv_all_nth token_ok_def in_set_conv_nth
        intro!: nth_equalityI)
  then show ?thesis by (metis split_inj)
qed

theorem literal_subject_matches_itself_only_witness:
  "\<not> is_subject_pattern ''orders.created'' \<and> ''orders.created'' = ''orders.created''"
proof -
  have a: "\<not> is_subject_pattern ''orders.created''" by code_simp
  have b: "subject_matches ''orders.created'' ''orders.created''" by code_simp
  show ?thesis using a literal_subject_matches_itself_only[OF a b] by blast
qed

section \<open>Topic keys\<close>

lemma normalize_topic_key_lowercase [simp]:
  "to_lowercase (normalize_topic_key raw) = normalize_topic_key raw"
  by (simp add: normalize_topic_key_def Let_def)

lemma is_ident_partD: "is_ident s \<Longrightarrow> c \<in> set s \<Longrightarrow> is_ident_part c"
  by (cases s)
    (auto simp: is_ident_def list_all_iff is_ident_start_def is_ident_part_def
      is_ascii_alphanumeric_def)

lemma is_ident_part_plain:
  "is_ident_part c \<Longrightarrow> \<not> is_whitespace c \<and> \<not> is_quote c \<and> c \<noteq> CHR ''.''"
  by (cases c) (auto simp: is_ident_part_def ascii_defs is_whitespace_def is_quote_def)

lemma trim_matches_id:
  "(s = [] \<or> (\<not> P (hd s) \<and> \<not> P (last s))) \<Longrightarrow> trim_matches P s = s"
proof (cases "s = []")
  case False
  assume "s = [] \<or> (\<not> P (hd s) \<and> \<not> P (last s))"
  with False have "dropWhile P s = s" "dropWhile P (rev s) = rev s"
    by (auto simp: dropWhile_eq_self_iff hd_rev)
  then show ?thesis by (simp add: trim_matches_def)
qed (simp add: trim_matches_def)

lemma is_constant_case_ident:
  "is_constant_case s \<Longrightarrow> \<forall>c \<in> set s. is_ident_part c"
  by (auto simp: is_constant_case_def list_all_iff is_ident_part_def ascii_defs)

lemma no_typeof_prefix:
  "is_ascii_upper c \<Longrightarrow> strip_prefix ''typeof '' (c # cs) = None"
  by (auto simp: strip_prefix_def starts_with_def ascii_defs)

lemma topic_expr_member:
  assumes e: "is_ident e" and m: "is_ident m" and up: "is_ascii_upper (hd e)"
  shows "topic_expr (e @ CHR ''.'' # m) = e @ CHR ''.'' # m"
proof -
  let ?x = "e @ CHR ''.'' # m"
  obtain c cs where ec: "e = c # cs" using e by (cases e) (auto simp: is_ident_def)
  have mne: "m \<noteq> []" using m by (auto simp: is_ident_def)
  have h: "is_ident_part (hd ?x)" using e ec by (auto dest: is_ident_partD)
  have l: "is_ident_part (last ?x)" using m mne is_ident_partD[of m "last m"] by simp
  have t: "trim ?x = ?x" "trim_matches is_quote ?x = ?x"
    using is_ident_part_plain[OF h] is_ident_part_plain[OF l]
    by (auto simp: trim_def intro!: trim_matches_id)
  have "strip_prefix ''typeof '' ?x = None" using up ec by (simp add: no_typeof_prefix)
  with t show ?thesis by (simp add: topic_expr_def)
qed

text \<open>
  A reference to an enum or constant member is keyed by the member alone: naming the same
  CONSTANT_CASE member through two different enums gives the same topic, so the producer and the
  consumer meet; a dotted broker literal in lower case keeps its whole name.
\<close>

theorem member_reference_key:
  assumes "is_ident e" and "is_ascii_upper (hd e)" and "is_ident m" and "is_constant_case m"
  shows "normalize_topic_key (e @ ''.'' @ m) = to_lowercase m"
proof -
  have m: "\<forall>x \<in> set m. x \<noteq> CHR ''.''" and e: "\<forall>x \<in> set e. x \<noteq> CHR ''.''"
    using assms is_ident_partD is_ident_part_plain by blast+
  have sp: "split CHR ''.'' (e @ CHR ''.'' # m) = [e, m]"
    using split_pred_append_sep[of "\<lambda>x. x = CHR ''.''" "CHR ''.''" e m]
      split_pred_id[of m "\<lambda>x. x = CHR ''.''"] e m by simp
  obtain c cs where ec: "e = c # cs" using assms(1) by (cases e) (auto simp: is_ident_def)
  have "is_member_ref (e @ CHR ''.'' # m)"
    using assms sp ec by (simp add: is_member_ref_def)
  then show ?thesis
    using topic_expr_member[OF assms(1,3,2)] sp
    by (simp add: normalize_topic_key_def last_segment_def)
qed

theorem member_reference_key_witness:
  "normalize_topic_key (''Streams'' @ ''.'' @ ''EVENT_CREATED'') = to_lowercase ''EVENT_CREATED''
   \<and> normalize_topic_key ''EventMessagingType.EVENT_CREATED'' = ''event_created''
   \<and> normalize_topic_key ''orders.created'' = ''orders.created''"
proof -
  have i: "is_ident ''Streams''" by code_simp
  have u: "is_ascii_upper (hd ''Streams'')" by code_simp
  have m: "is_ident ''EVENT_CREATED''" by code_simp
  have c: "is_constant_case ''EVENT_CREATED''" by code_simp
  have b: "normalize_topic_key ''EventMessagingType.EVENT_CREATED'' = ''event_created''" by code_simp
  have d: "normalize_topic_key ''orders.created'' = ''orders.created''" by code_simp
  show ?thesis using b d member_reference_key[OF i u m c] by blast
qed

lemma fold_rpc_name_append: "fold_rpc_name (a @ b) = fold_rpc_name a @ fold_rpc_name b"
  by (simp add: fold_rpc_name_def)

lemma fold_rpc_name_idem [simp]: "fold_rpc_name (fold_rpc_name s) = fold_rpc_name s"
proof -
  have "is_ascii_alphanumeric (ascii_lower c) = is_ascii_alphanumeric c" for c
    by (cases c) (auto simp: ascii_defs)
  then show ?thesis by (simp add: fold_rpc_name_def filter_map o_def)
qed

end
