(* ===== verification/Mesh_Names.thy ===== *)
theory Mesh_Names
  imports Mesh_Topics "HOL-Library.Multiset"
begin

text \<open>
  Name matching of \<^verbatim>\<open>crates/mesh-core/src/contracts.rs\<close>: bare names, signatures, package-qualified
  names, and \<^verbatim>\<open>HandlerIndex\<close>, the lookup table that spares the \<^verbatim>\<open>Implements\<close> pass from testing every
  handler against every RPC. The main result is that the table only prunes pairs that cannot
  match.
\<close>

section \<open>Bare names and signatures\<close>

definition no_underscores :: "string \<Rightarrow> string" where
  "no_underscores s = filter (\<lambda>c. c \<noteq> CHR ''_'') s"

text \<open>The byte loop of \<^verbatim>\<open>bare_names_match\<close>; the flag is \<^verbatim>\<open>non_empty\<close>.\<close>

fun norm_loop :: "bool \<Rightarrow> string \<Rightarrow> string \<Rightarrow> bool" where
  "norm_loop ne [] [] = ne"
| "norm_loop ne (x # xs) (y # ys) = (if ascii_lower x = ascii_lower y then norm_loop True xs ys else False)"
| "norm_loop ne _ _ = False"

definition bare_names_match :: "string \<Rightarrow> string \<Rightarrow> bool" where
  "bare_names_match a b \<longleftrightarrow>
     (let a_bare = last_segment CHR ''.'' a; b_bare = last_segment CHR ''.'' b in
      if eq_ignore_ascii_case a_bare b_bare then True
      else norm_loop False (no_underscores a_bare) (no_underscores b_bare))"

definition is_ident_char :: "char \<Rightarrow> bool" where
  "is_ident_char c \<longleftrightarrow> is_ascii_alphanumeric c \<or> c = CHR ''_''"

definition SIG_PREFIXES :: "string list" where
  "SIG_PREFIXES = [''@'', [CHR 0x27], [CHR 0x22], ''fn '', ''func '', ''def '']"

text \<open>What follows each occurrence of \<open>p\<close>, left to right without overlap: the \<^verbatim>\<open>while let\<close> loop over
  \<^verbatim>\<open>find\<close> that both \<^verbatim>\<open>signature_contains_bare\<close> and \<^verbatim>\<open>HandlerIndex::build\<close> run.\<close>

function after_prefixes :: "string \<Rightarrow> string \<Rightarrow> string list" where
  "after_prefixes p s =
     (if p = [] then []
      else case find_str p s of
             None \<Rightarrow> []
           | Some i \<Rightarrow> drop (i + length p) s # after_prefixes p (drop (i + length p) s))"
  by pat_completeness auto

termination
  by (relation "measure (\<lambda>(p, s). length s)") (auto dest: find_str_shorter intro!: diff_less)

declare after_prefixes.simps [simp del]

definition sig_ident :: "string \<Rightarrow> string" where
  "sig_ident rest = takeWhile is_ident_char rest"

definition signature_contains_bare :: "string \<Rightarrow> string \<Rightarrow> bool" where
  "signature_contains_bare sig bare \<longleftrightarrow>
     (if bare = [] then False
      else \<exists>p \<in> set SIG_PREFIXES. \<exists>rest \<in> set (after_prefixes p sig).
             starts_with rest bare
             \<or> (sig_ident rest \<noteq> [] \<and> bare_names_match (sig_ident rest) bare))"

definition contains_ignore_ascii_case :: "string \<Rightarrow> string \<Rightarrow> bool" where
  "contains_ignore_ascii_case h n \<longleftrightarrow>
     (if n = [] then True
      else length h \<ge> length n
        \<and> (\<exists>i \<in> set [0..<Suc (length h - length n)].
              eq_ignore_ascii_case (take (length n) (drop i h)) n))"

section \<open>Package-qualified names\<close>

definition fqcn_equals :: "string \<Rightarrow> string \<Rightarrow> string \<Rightarrow> bool" where
  "fqcn_equals package name target \<longleftrightarrow>
     package \<noteq> []
     \<and> (case strip_prefix package target of
          Some (c # rest) \<Rightarrow> (c = CHR ''.'' \<or> c = CHR ''/'') \<and> rest = name
        | _ \<Rightarrow> False)"

definition fqcn_contains :: "string \<Rightarrow> string \<Rightarrow> string \<Rightarrow> bool" where
  "fqcn_contains package name needle \<longleftrightarrow>
     (if str_contains package needle \<or> str_contains name needle then True
      else case split_once CHR ''/'' needle of
             None \<Rightarrow> False
           | Some (head, tail) \<Rightarrow> ends_with package head \<and> starts_with name tail)"

section \<open>The handler index\<close>

text \<open>A handler as the pass sees it: its name, its PascalCase name, its signature.\<close>

record handler =
  h_id :: node_id
  h_name :: string
  h_pascal :: string
  h_sig :: "string option"

text \<open>The confidence with which a handler implements the RPC \<open>fqcn\<close>, if it does.\<close>

definition implements_confidence :: "handler \<Rightarrow> string \<Rightarrow> edge_confidence option" where
  "implements_confidence h fqcn =
     (let bare = last_segment CHR ''.'' fqcn in
      if h_name h = fqcn then Some Exact
      else if eq_ignore_ascii_case (h_name h) bare \<or> h_pascal h = bare
           \<or> bare_names_match (h_name h) bare
           \<or> (case h_sig h of None \<Rightarrow> False | Some s \<Rightarrow> signature_contains_bare s bare)
      then Some Heuristic
      else None)"

record handler_index =
  hi_keys :: "(string, nat list) hmap"
  hi_sig_idents :: "(string \<times> nat) list"
  hi_with_signature :: "nat list"

definition normalized :: "string \<Rightarrow> string" where
  "normalized s = map ascii_lower (no_underscores s)"

text \<open>The identifiers a signature offers, prefix by prefix.\<close>

definition sig_idents_of :: "string option \<Rightarrow> string list" where
  "sig_idents_of s =
     (case s of
        None \<Rightarrow> []
      | Some sig \<Rightarrow>
          filter (\<lambda>i. i \<noteq> [])
            (map sig_ident (concat (map (\<lambda>p. after_prefixes p sig) SIG_PREFIXES))))"

text \<open>The keys of one handler (a \<^verbatim>\<open>HashSet\<close>, hence no repetition).\<close>

definition own_keys :: "handler \<Rightarrow> string list" where
  "own_keys h =
     remdups
       ([''f:'' @ h_name h,
         ''l:'' @ to_lowercase (last_segment CHR ''.'' (h_name h)),
         ''n:'' @ normalized (last_segment CHR ''.'' (h_name h)),
         ''p:'' @ h_pascal h]
        @ concat (map (\<lambda>i. [''l:'' @ to_lowercase i, ''n:'' @ normalized i]) (sig_idents_of (h_sig h))))"

definition handler_index_build :: "handler list \<Rightarrow> handler_index" where
  "handler_index_build hs =
     (let es = enumerate 0 hs in
      \<lparr>hi_keys = fold (\<lambda>(k, i). hm_push k i) (concat (map (\<lambda>(i, h). map (\<lambda>k. (k, i)) (own_keys h)) es)) [],
       hi_sig_idents = remdups_adj (sort (concat (map (\<lambda>(i, h). map (\<lambda>s. (s, i)) (sig_idents_of (h_sig h))) es))),
       hi_with_signature = map fst (filter (\<lambda>(i, h). h_sig h \<noteq> None) es)\<rparr>)"

text \<open>\<^verbatim>\<open>partition_point\<close> on the sorted identifiers is the length of the prefix that satisfies the
  predicate, so the slice from there on is \<open>dropWhile\<close>.\<close>

definition handler_candidates :: "handler_index \<Rightarrow> string \<Rightarrow> string \<Rightarrow> nat list" where
  "handler_candidates ix fqcn bare =
     remdups_adj (sort
       (bucket (hi_keys ix) (''f:'' @ fqcn)
        @ bucket (hi_keys ix) (''l:'' @ to_lowercase bare)
        @ (if normalized bare \<noteq> [] then bucket (hi_keys ix) (''n:'' @ normalized bare) else [])
        @ bucket (hi_keys ix) (''p:'' @ bare)
        @ (if bare \<noteq> [] then
             map snd (takeWhile (\<lambda>(ident, _). starts_with ident bare)
                        (dropWhile (\<lambda>(ident, _). ident < bare) (hi_sig_idents ix)))
             @ (if list_all is_ident_char bare then [] else hi_with_signature ix)
           else [])))"

section \<open>Lemmas on names\<close>

lemma norm_loop_iff: "norm_loop ne xs ys \<longleftrightarrow> map ascii_lower xs = map ascii_lower ys \<and> (ne \<or> xs \<noteq> [])"
  by (induction ne xs ys rule: norm_loop.induct) auto

lemma bare_names_match_iff:
  "bare_names_match a b \<longleftrightarrow>
     (let x = last_segment CHR ''.'' a; y = last_segment CHR ''.'' b in
      to_lowercase x = to_lowercase y \<or> (normalized x = normalized y \<and> normalized x \<noteq> []))"
  by (auto simp: bare_names_match_def Let_def norm_loop_iff eq_ignore_ascii_case_def normalized_def)

lemma bare_names_match_refl [simp]: "bare_names_match a a"
  by (simp add: bare_names_match_iff Let_def)

lemma bare_names_match_sym: "bare_names_match a b \<longleftrightarrow> bare_names_match b a"
  by (auto simp: bare_names_match_iff Let_def)

lemma is_ident_char_not_dot: "is_ident_char c \<Longrightarrow> c \<noteq> CHR ''.''"
  by (cases c) (auto simp: is_ident_char_def ascii_defs)

lemma sig_ident_no_dot: "CHR ''.'' \<notin> set (sig_ident rest)"
  by (auto simp: sig_ident_def dest!: set_takeWhileD is_ident_char_not_dot)

lemma sig_ident_last_segment [simp]: "last_segment CHR ''.'' (sig_ident rest) = sig_ident rest"
  by (simp add: sig_ident_no_dot)

lemma lower_no_underscores:
  "to_lowercase x = to_lowercase y \<Longrightarrow> normalized x = normalized y"
proof (induction x arbitrary: y)
  case (Cons c x)
  then obtain d y' where y: "y = d # y'" "ascii_lower c = ascii_lower d"
    "to_lowercase x = to_lowercase y'" by (cases y) auto
  have "ascii_lower c = CHR ''_'' \<longleftrightarrow> c = CHR ''_''" for c
    by (cases c) (auto simp: ascii_defs)
  then have "c = CHR ''_'' \<longleftrightarrow> d = CHR ''_''" using y(2) by metis
  with Cons.IH[OF y(3)] y show ?case by (auto simp: normalized_def no_underscores_def)
qed (simp add: to_lowercase_def normalized_def no_underscores_def)

lemma starts_with_takeWhile:
  "starts_with rest bare \<Longrightarrow> list_all P bare \<Longrightarrow> starts_with (takeWhile P rest) bare"
  by (auto simp: starts_with_prefix prefix_def list_all_iff takeWhile_append2)

text \<open>
  \<^verbatim>\<open>contains_ignore_ascii_case\<close>, which compares windows of bytes without allocating, is the
  substring test on the lowercased strings.
\<close>

theorem contains_ignore_ascii_case_spec:
  "contains_ignore_ascii_case h n \<longleftrightarrow> str_contains (to_lowercase h) (to_lowercase n)"
proof -
  have sub: "str_contains s p \<longleftrightarrow> (\<exists>i \<le> length s - length p. length p \<le> length s \<and> take (length p) (drop i s) = p)"
    (is "_ \<longleftrightarrow> ?R") for s p
  proof
    assume "str_contains s p"
    then obtain xs zs where "s = xs @ p @ zs" by (auto simp: str_contains_sublist sublist_def)
    then show ?R by (intro exI[of _ "length xs"]) simp
  next
    assume ?R
    then obtain i where "take (length p) (drop i s) = p" by blast
    then have "s = take i s @ p @ drop (length p) (drop i s)"
      by (metis append_take_drop_id)
    then show "str_contains s p" by (metis str_contains_sublist sublist_appendI)
  qed
  have "contains_ignore_ascii_case h n \<longleftrightarrow>
      (\<exists>i \<le> length h - length n. length n \<le> length h
         \<and> to_lowercase (take (length n) (drop i h)) = to_lowercase n)"
    by (auto simp: contains_ignore_ascii_case_def eq_ignore_ascii_case_def less_Suc_eq_le
        simp del: upt_Suc)
  also have "\<dots> \<longleftrightarrow> str_contains (to_lowercase h) (to_lowercase n)"
    unfolding sub by (simp add: to_lowercase_def take_map drop_map)
  finally show ?thesis .
qed

lemma fqcn_contains_sound:
  assumes "fqcn_contains package name needle"
  shows "str_contains (package @ ''/'' @ name) needle"
proof -
  consider "sublist needle package" | "sublist needle name"
    | hd tl where "needle = hd @ CHR ''/'' # tl" "suffix hd package" "prefix tl name"
    using assms by (auto simp: fqcn_contains_def str_contains_sublist split_once_Some ends_with_def
        starts_with_prefix suffix_to_prefix split: if_splits option.splits)
  then have "\<exists>a b. package @ ''/'' @ name = a @ needle @ b"
  proof cases
    case 1
    then obtain a b where "package @ ''/'' @ name = a @ needle @ b @ ''/'' @ name"
      by (auto simp: sublist_def)
    then show ?thesis by blast
  next
    case 2
    then obtain a b where "package @ ''/'' @ name = (package @ ''/'' @ a) @ needle @ b"
      by (auto simp: sublist_def)
    then show ?thesis by blast
  next
    case 3
    then obtain a b where "package = a @ hd" "name = tl @ b" by (auto simp: suffix_def prefix_def)
    with 3(1) have "package @ ''/'' @ name = a @ needle @ b" by simp
    then show ?thesis by blast
  qed
  then show ?thesis by (metis str_contains_sublist sublist_appendI)
qed

text \<open>An occurrence in \<^verbatim>\<open>package/name\<close> lies in the package, in the name, or across the slash.\<close>

lemma joined_occurrence_cases:
  assumes "str_contains (package @ ''/'' @ name) needle"
  obtains "sublist needle package" | "sublist needle name"
    | hd tl where "needle = hd @ CHR ''/'' # tl" "suffix hd package" "prefix tl name"
proof -
  obtain xs zs where "package @ CHR ''/'' # name = xs @ needle @ zs"
    using assms by (auto simp: str_contains_sublist sublist_def)
  then consider us where "package = xs @ us" "us @ CHR ''/'' # name = needle @ zs"
    | us where "xs = package @ us" "CHR ''/'' # name = us @ needle @ zs"
    by (auto simp: append_eq_append_conv2)
  then show ?thesis
  proof cases
    case 1
    then consider vs where "us = needle @ vs" | vs where "needle = us @ vs" "CHR ''/'' # name = vs @ zs"
      by (auto simp: append_eq_append_conv2)
    then show ?thesis
    proof cases
      case 1
      with \<open>package = xs @ us\<close> show ?thesis using that(1) by (simp add: sublist_appendI)
    next
      case 2
      then show ?thesis
      proof (cases vs)
        case Nil
        with 2 \<open>package = xs @ us\<close> show ?thesis using that(1) by simp
      next
        case (Cons c tl)
        with 2 \<open>package = xs @ us\<close> show ?thesis using that(3)[of us tl] by (simp add: suffix_def prefix_def)
      qed
    qed
  next
    case 2
    then show ?thesis
    proof (cases us)
      case Nil
      with 2 show ?thesis
        using that(1) that(3)[of "[]" "tl needle"] by (cases needle) auto
    next
      case (Cons c vs)
      with 2 show ?thesis using that(2) by (simp add: sublist_appendI)
    qed
  qed
qed

text \<open>
  \<^verbatim>\<open>fqcn_contains\<close> is the substring test on \<^verbatim>\<open>package/name\<close> whenever the package has no slash of
  its own, which is how its comment describes it.
\<close>

theorem fqcn_contains_spec:
  assumes "CHR ''/'' \<notin> set package"
  shows "fqcn_contains package name needle \<longleftrightarrow> str_contains (package @ ''/'' @ name) needle"
proof
  assume "str_contains (package @ ''/'' @ name) needle"
  then show "fqcn_contains package name needle"
  proof (cases rule: joined_occurrence_cases)
    case (3 hd tl)
    then have "CHR ''/'' \<notin> set hd" using assms by (auto simp: suffix_def)
    with 3(1) have "split_once CHR ''/'' needle = Some (hd, tl)" by (simp add: split_once_Some)
    with 3 show ?thesis
      by (simp add: fqcn_contains_def ends_with_def starts_with_prefix suffix_to_prefix)
  qed (simp_all add: fqcn_contains_def str_contains_sublist)
qed (rule fqcn_contains_sound)

theorem fqcn_contains_spec_witness:
  "fqcn_contains ''shop.v1'' ''Cart.Add'' ''v1/Cart''
   \<and> fqcn_contains ''shop.v1'' ''Cart.Add'' ''v1/Cart''
       = str_contains (''shop.v1'' @ ''/'' @ ''Cart.Add'') ''v1/Cart''"
proof -
  have a: "CHR ''/'' \<notin> set ''shop.v1''" by simp
  have b: "fqcn_contains ''shop.v1'' ''Cart.Add'' ''v1/Cart''" by code_simp
  show ?thesis using b fqcn_contains_spec[OF a, of "''Cart.Add''" "''v1/Cart''"] by blast
qed

text \<open>
  The restriction to packages without a slash is needed: for a scoped package the test misses
  a needle that contains a slash of the package itself, although the joined name contains it.
\<close>

theorem fqcn_contains_scoped_package:
  "str_contains (''@scope/pkg'' @ ''/'' @ ''Foo'') ''scope/pkg/Foo''
   \<and> \<not> fqcn_contains ''@scope/pkg'' ''Foo'' ''scope/pkg/Foo''"
  by code_simp


section \<open>The index is complete\<close>

lemma lex_prefix_le: "(b :: string) \<le> b @ r"
  by (induction b) auto

lemma lex_between_prefix: "(b :: string) \<le> y \<Longrightarrow> y \<le> b @ r \<Longrightarrow> prefix b y"
proof (induction b arbitrary: y)
  case (Cons c b)
  then show ?case by (cases y) auto
qed simp

lemma sorted_takeWhile_mem:
  "sorted xs \<Longrightarrow> x \<in> set xs \<Longrightarrow> \<forall>y \<in> set xs. y \<le> x \<longrightarrow> P y \<Longrightarrow> x \<in> set (takeWhile P xs)"
  by (induction xs) auto

lemma sorted_dropWhile_mem:
  "sorted xs \<Longrightarrow> x \<in> set xs \<Longrightarrow> \<not> P x \<Longrightarrow> x \<in> set (dropWhile P xs)"
  by (induction xs) auto

lemma sorted_dropWhile_not:
  "sorted xs \<Longrightarrow> y \<in> set (dropWhile P xs) \<Longrightarrow> (\<And>a b. a \<le> b \<Longrightarrow> P b \<Longrightarrow> P a) \<Longrightarrow> \<not> P y"
  by (induction xs) (auto split: if_splits)

text \<open>In the sorted list of identifiers those with prefix \<open>b\<close> are the run that starts at \<open>b\<close>.\<close>

lemma prefix_run_mem:
  assumes "sorted xs" and "(b @ r, i) \<in> set xs"
  shows "(b @ r, i) \<in> set (takeWhile (\<lambda>(ident, _). starts_with ident b)
                              (dropWhile (\<lambda>(ident, _). ident < b) xs))"
proof (rule sorted_takeWhile_mem)
  show "sorted (dropWhile (\<lambda>(ident, _). ident < b) xs)"
    using assms(1) by (simp add: sorted_dropWhile)
  show "(b @ r, i) \<in> set (dropWhile (\<lambda>(ident, _). ident < b) xs)"
    by (rule sorted_dropWhile_mem[OF assms]) (simp add: lex_prefix_le not_less)
  have ge: "\<not> (case y of (ident, _) \<Rightarrow> ident < b)"
    if "y \<in> set (dropWhile (\<lambda>(ident, _). ident < b) xs)" for y
    by (rule sorted_dropWhile_not[OF assms(1) that]) (auto simp: less_eq_prod_def)
  show "\<forall>y \<in> set (dropWhile (\<lambda>(ident, _). ident < b) xs). y \<le> (b @ r, i) \<longrightarrow>
          (case y of (ident, _) \<Rightarrow> starts_with ident b)"
  proof (intro ballI impI)
    fix y assume y: "y \<in> set (dropWhile (\<lambda>(ident, _). ident < b) xs)" and le: "y \<le> (b @ r, i)"
    obtain s j where yj: "y = (s, j)" by force
    have "b \<le> s" using ge[OF y] yj by simp
    moreover have "s \<le> b @ r" using le yj by (auto simp: less_eq_prod_def)
    ultimately show "case y of (ident, _) \<Rightarrow> starts_with ident b"
      using yj lex_between_prefix by (simp add: starts_with_prefix)
  qed
qed

lemma build_keys_mem:
  assumes "i < length hs" and "k \<in> set (own_keys (hs ! i))"
  shows "i \<in> set (bucket (hi_keys (handler_index_build hs)) k)"
proof -
  have "(k, i) \<in> set (concat (map (\<lambda>(i, h). map (\<lambda>k. (k, i)) (own_keys h)) (enumerate 0 hs)))"
    using assms by (force simp: in_set_enumerate_eq intro!: bexI[of _ "(i, hs ! i)"])
  then show ?thesis
    by (force simp: handler_index_build_def Let_def hm.get_push_all)
qed

lemma build_sig_idents_mem:
  assumes "i < length hs" and "s \<in> set (sig_idents_of (h_sig (hs ! i)))"
  shows "(s, i) \<in> set (hi_sig_idents (handler_index_build hs))"
  using assms
  by (force simp: handler_index_build_def Let_def in_set_enumerate_eq intro!: bexI[of _ "(i, hs ! i)"])

lemma build_with_signature_mem:
  "i < length hs \<Longrightarrow> h_sig (hs ! i) \<noteq> None \<Longrightarrow> i \<in> set (hi_with_signature (handler_index_build hs))"
  by (force simp: handler_index_build_def Let_def in_set_enumerate_eq intro!: image_eqI[of _ fst "(i, hs ! i)"])

lemma build_sig_idents_sorted: "sorted (hi_sig_idents (handler_index_build hs))"
  by (simp add: handler_index_build_def Let_def)

lemma sig_idents_of_mem:
  assumes "p \<in> set SIG_PREFIXES" and "rest \<in> set (after_prefixes p sig)" and "sig_ident rest \<noteq> []"
  shows "sig_ident rest \<in> set (sig_idents_of (Some sig))"
  using assms by (auto simp: sig_idents_of_def)

lemma own_keys_sig:
  assumes "s \<in> set (sig_idents_of (h_sig h))"
  shows "''l:'' @ to_lowercase s \<in> set (own_keys h)" "''n:'' @ normalized s \<in> set (own_keys h)"
  using assms by (auto simp: own_keys_def)

lemma own_keys_name:
  "''f:'' @ h_name h \<in> set (own_keys h)"
  "''l:'' @ to_lowercase (last_segment CHR ''.'' (h_name h)) \<in> set (own_keys h)"
  "''n:'' @ normalized (last_segment CHR ''.'' (h_name h)) \<in> set (own_keys h)"
  "''p:'' @ h_pascal h \<in> set (own_keys h)"
  unfolding own_keys_def set_remdups by simp_all

lemma set_handler_candidates:
  "set (handler_candidates ix fqcn bare) =
     set (bucket (hi_keys ix) (''f:'' @ fqcn))
     \<union> set (bucket (hi_keys ix) (''l:'' @ to_lowercase bare))
     \<union> (if normalized bare \<noteq> [] then set (bucket (hi_keys ix) (''n:'' @ normalized bare)) else {})
     \<union> set (bucket (hi_keys ix) (''p:'' @ bare))
     \<union> (if bare \<noteq> [] then
           snd ` set (takeWhile (\<lambda>(ident, _). starts_with ident bare)
                        (dropWhile (\<lambda>(ident, _). ident < bare) (hi_sig_idents ix)))
           \<union> (if list_all is_ident_char bare then {} else set (hi_with_signature ix))
         else {})"
  unfolding handler_candidates_def remdups_adj_set set_sort by auto

lemma ascii_lower_eq_dot: "ascii_lower c = CHR ''.'' \<longleftrightarrow> c = CHR ''.''"
  by (cases c) (auto simp: ascii_defs)

lemma dot_in_lowercase: "CHR ''.'' \<in> set (to_lowercase s) \<longleftrightarrow> CHR ''.'' \<in> set s"
proof (induction s)
  case (Cons c s)
  then show ?case using ascii_lower_eq_dot[of c] by (metis list.set_intros(1,2) set_ConsD to_lowercase_simps(2))
qed simp

text \<open>Where each branch of the match predicate finds its handler.\<close>

lemma candidates_by_name:
  assumes "i < length hs" and "bare = last_segment CHR ''.'' fqcn"
    and "h_name (hs ! i) = fqcn \<or> eq_ignore_ascii_case (h_name (hs ! i)) bare
         \<or> h_pascal (hs ! i) = bare \<or> bare_names_match (h_name (hs ! i)) bare"
  shows "i \<in> set (handler_candidates (handler_index_build hs) fqcn bare)"
proof -
  let ?h = "hs ! i" and ?ix = "handler_index_build hs"
  have bare: "last_segment CHR ''.'' bare = bare" using assms(2) by simp
  have dot: "CHR ''.'' \<notin> set bare" using assms(2) by simp
  have key: "k \<in> set (own_keys ?h) \<Longrightarrow> i \<in> set (bucket (hi_keys ?ix) k)" for k
    using build_keys_mem[OF assms(1)] by blast
  consider "h_name ?h = fqcn" | "h_pascal ?h = bare"
    | "to_lowercase (last_segment CHR ''.'' (h_name ?h)) = to_lowercase bare"
    | "normalized (last_segment CHR ''.'' (h_name ?h)) = normalized bare" "normalized bare \<noteq> []"
  proof -
    have "last_segment CHR ''.'' (h_name ?h) = h_name ?h" if "to_lowercase (h_name ?h) = to_lowercase bare"
    proof (rule last_segment_id)
      show "CHR ''.'' \<notin> set (h_name ?h)" using that dot by (metis dot_in_lowercase)
    qed
    then show ?thesis
      using assms(3) that by (auto simp: eq_ignore_ascii_case_def bare_names_match_iff Let_def bare)
  qed
  then show ?thesis
  proof cases
    case 1
    then show ?thesis using key[OF own_keys_name(1)] by (simp add: set_handler_candidates del: append.simps)
  next
    case 2
    then show ?thesis using key[OF own_keys_name(4)] by (simp add: set_handler_candidates del: append.simps)
  next
    case 3
    then show ?thesis using key[OF own_keys_name(2)] by (simp add: set_handler_candidates del: append.simps)
  next
    case 4
    then show ?thesis using key[OF own_keys_name(3)] by (simp add: set_handler_candidates del: append.simps)
  qed
qed

lemma candidates_by_signature:
  assumes "i < length hs" and "bare = last_segment CHR ''.'' fqcn"
    and sig: "h_sig (hs ! i) = Some sig" and m: "signature_contains_bare sig bare"
  shows "i \<in> set (handler_candidates (handler_index_build hs) fqcn bare)"
proof -
  let ?h = "hs ! i" and ?ix = "handler_index_build hs"
  from m obtain p rest where ne: "bare \<noteq> []" and p: "p \<in> set SIG_PREFIXES" "rest \<in> set (after_prefixes p sig)"
    and r: "starts_with rest bare \<or> (sig_ident rest \<noteq> [] \<and> bare_names_match (sig_ident rest) bare)"
    by (auto simp: signature_contains_bare_def split: if_splits)
  have idents: "sig_ident rest \<noteq> [] \<Longrightarrow> sig_ident rest \<in> set (sig_idents_of (h_sig ?h))"
    using sig_idents_of_mem[OF p] sig by simp
  show ?thesis
  proof (cases "starts_with rest bare")
    case True
    show ?thesis
    proof (cases "list_all is_ident_char bare")
      case True
      have "starts_with (sig_ident rest) bare"
        using starts_with_takeWhile[OF \<open>starts_with rest bare\<close> True] by (simp add: sig_ident_def)
      then obtain t where t: "sig_ident rest = bare @ t" by (auto simp: starts_with_prefix prefix_def)
      with ne idents have "(bare @ t, i) \<in> set (hi_sig_idents ?ix)"
        using build_sig_idents_mem[OF assms(1)] by (metis append_is_Nil_conv)
      from prefix_run_mem[OF build_sig_idents_sorted this]
      have "i \<in> snd ` set (takeWhile (\<lambda>(ident, _). starts_with ident bare)
              (dropWhile (\<lambda>(ident, _). ident < bare) (hi_sig_idents ?ix)))" by force
      then show ?thesis using ne by (simp add: set_handler_candidates del: append.simps)
    next
      case False
      then show ?thesis using ne build_with_signature_mem[OF assms(1)] sig
        by (simp add: set_handler_candidates del: append.simps)
    qed
  next
    case False
    with r have s: "sig_ident rest \<noteq> []" and b: "bare_names_match (sig_ident rest) bare" by auto
    have key: "k \<in> set (own_keys ?h) \<Longrightarrow> i \<in> set (bucket (hi_keys ?ix) k)" for k
      using build_keys_mem[OF assms(1)] by blast
    note ks = own_keys_sig[OF idents[OF s]]
    from b have "to_lowercase (sig_ident rest) = to_lowercase bare
        \<or> (normalized (sig_ident rest) = normalized bare \<and> normalized bare \<noteq> [])"
      using assms(2) by (auto simp: bare_names_match_iff Let_def)
    then show ?thesis using key[OF ks(1)] key[OF ks(2)]
      by (auto simp: set_handler_candidates simp del: append.simps)
  qed
qed

lemma candidates_complete:
  assumes "i < length hs" and "implements_confidence (hs ! i) fqcn \<noteq> None"
  shows "i \<in> set (handler_candidates (handler_index_build hs) fqcn (last_segment CHR ''.'' fqcn))"
  using assms candidates_by_name[OF assms(1) refl, of fqcn]
    candidates_by_signature[OF assms(1) refl, of _ fqcn]
  by (auto simp: implements_confidence_def Let_def split: if_splits option.splits)

lemma build_bounds:
  "i \<in> set (bucket (hi_keys (handler_index_build hs)) k) \<Longrightarrow> i < length hs"
  "(s, i) \<in> set (hi_sig_idents (handler_index_build hs)) \<Longrightarrow> i < length hs"
  "i \<in> set (hi_with_signature (handler_index_build hs)) \<Longrightarrow> i < length hs"
  by (auto simp: handler_index_build_def Let_def hm.get_push_all in_set_enumerate_eq)

lemma candidates_bounds:
  "i \<in> set (handler_candidates (handler_index_build hs) fqcn bare) \<Longrightarrow> i < length hs"
  unfolding set_handler_candidates
  by (auto simp del: append.simps dest!: set_takeWhileD set_dropWhileD dest: build_bounds
      split: if_splits)

lemma candidates_sorted: "sorted_wrt (<) (handler_candidates ix fqcn bare)"
  by (simp add: handler_candidates_def strict_sorted_remdups_adj)

text \<open>
  The handler index only prunes pairs that can never match. For every RPC, the candidates it
  returns, once re-checked with the match predicate, are exactly the handlers that a scan over all
  of them finds, in the same order.
\<close>

lemma handler_index_exact:
  "filter (\<lambda>i. implements_confidence (hs ! i) fqcn \<noteq> None)
     (handler_candidates (handler_index_build hs) fqcn (last_segment CHR ''.'' fqcn))
   = filter (\<lambda>i. implements_confidence (hs ! i) fqcn \<noteq> None) [0..<length hs]"
proof (rule sorted_distinct_set_unique)
  let ?P = "\<lambda>i. implements_confidence (hs ! i) fqcn \<noteq> None"
  let ?C = "handler_candidates (handler_index_build hs) fqcn (last_segment CHR ''.'' fqcn)"
  have "sorted ?C \<and> distinct ?C" using candidates_sorted strict_sorted_iff by blast
  then show "sorted (filter ?P ?C)" "distinct (filter ?P ?C)"
    by (auto simp: sorted_wrt_filter)
  show "set (filter ?P ?C) = set (filter ?P [0..<length hs])"
    using candidates_complete candidates_bounds by auto
qed (simp_all add: sorted_wrt_filter)

end
