(* ===== verification/Contract_Graph.thy ===== *)
theory Contract_Graph
  imports Mesh_Names
begin

text \<open>
  \<^verbatim>\<open>struct ContractGraph\<close> of \<^verbatim>\<open>crates/mesh-core/src/contracts.rs\<close>: the node table, the secondary
  indices over it, the raw facts the extractors record, and the operations that fill and purge
  them. The invariant \<open>wf_graph\<close> says that the four node indices are exactly what the node table
  determines and that no fact mentions a node that is gone; every operation keeps it.
\<close>

section \<open>State\<close>

record contract_graph =
  g_nodes :: "(node_id \<times> contract_node) list"
  g_edges :: "contract_edge list"
  g_name_to_nodes :: "(string, node_id list) hmap"
  g_package_to_nodes :: "(string, node_id list) hmap"
  g_file_to_nodes :: "(path, node_id list) hmap"
  g_fqcn_to_node :: "(string, node_id list) hmap"
  g_reverse_deps :: "(string, node_id list) hmap"
  g_topic_producers :: "(string, node_id list) hmap"
  g_topic_consumers :: "(string, node_id list) hmap"
  g_rpc_calls :: "(node_id \<times> string) list"
  g_heuristic_topic_nodes :: "node_id set"
  g_handler_rpc_names :: "(node_id, string) hmap"
  g_next_node_id :: nat

definition empty_graph :: contract_graph where
  "empty_graph =
     \<lparr>g_nodes = [], g_edges = [], g_name_to_nodes = [], g_package_to_nodes = [],
      g_file_to_nodes = [], g_fqcn_to_node = [], g_reverse_deps = [], g_topic_producers = [],
      g_topic_consumers = [], g_rpc_calls = [], g_heuristic_topic_nodes = {},
      g_handler_rpc_names = [], g_next_node_id = 0\<rparr>"

definition get_node :: "contract_graph \<Rightarrow> node_id \<Rightarrow> contract_node option" where
  "get_node g i = map_of (g_nodes g) i"

definition all_nodes :: "contract_graph \<Rightarrow> contract_node list" where
  "all_nodes g = map snd (g_nodes g)"

definition node_count :: "contract_graph \<Rightarrow> nat" where
  "node_count g = length (g_nodes g)"

definition edge_count :: "contract_graph \<Rightarrow> nat" where
  "edge_count g = length (g_edges g)"

definition file_count :: "contract_graph \<Rightarrow> nat" where
  "file_count g = length (g_file_to_nodes g)"

definition get_nodes_for_file :: "contract_graph \<Rightarrow> path \<Rightarrow> node_id list" where
  "get_nodes_for_file g p = bucket (g_file_to_nodes g) p"

section \<open>Adding nodes, edges and facts\<close>

definition fqcn_indexed :: "contract_node \<Rightarrow> bool" where
  "fqcn_indexed n \<longleftrightarrow> n_kind n = GrpcMethod \<or> n_kind n = GrpcService \<or> n_package n \<noteq> []"

definition fqcn_of :: "contract_node \<Rightarrow> string" where
  "fqcn_of n = n_package n @ ''/'' @ n_name n"

definition add_node :: "contract_node \<Rightarrow> contract_graph \<Rightarrow> contract_graph \<times> node_id" where
  "add_node node0 g =
     (let i = g_next_node_id g;
          node = node0\<lparr>n_id := i\<rparr>;
          names = hm_push (n_name node) i (g_name_to_nodes g);
          packages = (if n_package node \<noteq> [] then hm_push (n_package node) i (g_package_to_nodes g)
                      else g_package_to_nodes g);
          files = hm_push (n_file node) i (g_file_to_nodes g);
          fqcns = (if fqcn_indexed node then hm_push (fqcn_of node) i (g_fqcn_to_node g)
                   else g_fqcn_to_node g);
          names' = (if stream_like (n_kind node) then hm_push (to_lowercase (n_name node)) i names
                    else names) in
      (g\<lparr>g_next_node_id := i + 1, g_name_to_nodes := names', g_package_to_nodes := packages,
         g_file_to_nodes := files, g_fqcn_to_node := fqcns,
         g_nodes := bt_insert i node (g_nodes g)\<rparr>, i))"

definition add_edge :: "contract_edge \<Rightarrow> contract_graph \<Rightarrow> contract_graph" where
  "add_edge e g =
     (let g' = (case (e_kind e, get_node g (e_to e)) of
                  (Produces, Some to_node) \<Rightarrow>
                    g\<lparr>g_topic_producers := hm_push (to_lowercase (n_name to_node)) (e_from e) (g_topic_producers g)\<rparr>
                | (Consumes, Some to_node) \<Rightarrow>
                    g\<lparr>g_topic_consumers := hm_push (to_lowercase (n_name to_node)) (e_from e) (g_topic_consumers g)\<rparr>
                | _ \<Rightarrow> g) in
      g'\<lparr>g_edges := g_edges g' @ [e]\<rparr>)"

definition add_dependency :: "node_id \<Rightarrow> string \<Rightarrow> contract_graph \<Rightarrow> contract_graph" where
  "add_dependency consumer target g =
     g\<lparr>g_reverse_deps := hm_push target consumer (g_reverse_deps g)\<rparr>"

definition add_producer :: "node_id \<Rightarrow> string \<Rightarrow> contract_graph \<Rightarrow> contract_graph" where
  "add_producer producer topic g =
     g\<lparr>g_topic_producers := hm_push (normalize_topic_key topic) producer (g_topic_producers g)\<rparr>"

definition add_consumer :: "node_id \<Rightarrow> string \<Rightarrow> contract_graph \<Rightarrow> contract_graph" where
  "add_consumer consumer topic g =
     g\<lparr>g_topic_consumers := hm_push (normalize_topic_key topic) consumer (g_topic_consumers g)\<rparr>"

definition mark_heuristic_topic_node :: "node_id \<Rightarrow> contract_graph \<Rightarrow> contract_graph" where
  "mark_heuristic_topic_node i g =
     g\<lparr>g_heuristic_topic_nodes := insert i (g_heuristic_topic_nodes g)\<rparr>"

definition topic_confidence :: "contract_graph \<Rightarrow> node_id \<Rightarrow> edge_confidence" where
  "topic_confidence g i = (if i \<in> g_heuristic_topic_nodes g then Heuristic else Exact)"

definition add_rpc_call :: "node_id \<Rightarrow> string \<Rightarrow> contract_graph \<Rightarrow> contract_graph" where
  "add_rpc_call caller target g = g\<lparr>g_rpc_calls := g_rpc_calls g @ [(caller, target)]\<rparr>"

section \<open>Purging files\<close>

definition retain_bucket :: "node_id set \<Rightarrow> 'k \<Rightarrow> ('k, node_id list) hmap \<Rightarrow> ('k, node_id list) hmap" where
  "retain_bucket stale k m =
     (case map_of m k of
        None \<Rightarrow> m
      | Some ids \<Rightarrow>
          (let ids' = filter (\<lambda>x. x \<notin> stale) ids in
           if ids' = [] then hm_remove k m else hm_insert k ids' m))"

text \<open>The keys under which a node is filed in each index.\<close>

definition name_keys :: "contract_node \<Rightarrow> string list" where
  "name_keys n = n_name n # (if stream_like (n_kind n) then [to_lowercase (n_name n)] else [])"

definition package_keys :: "contract_node \<Rightarrow> string list" where
  "package_keys n = (if n_package n \<noteq> [] then [n_package n] else [])"

definition file_keys :: "contract_node \<Rightarrow> path list" where
  "file_keys n = [n_file n]"

definition fqcn_keys :: "contract_node \<Rightarrow> string list" where
  "fqcn_keys n = (if fqcn_indexed n then [fqcn_of n] else [])"

text \<open>One \<^verbatim>\<open>retain\<close> per touched key of the removed nodes; \<open>stale\<close> lists the set of ids to remove.\<close>

definition prune_index ::
  "(contract_node \<Rightarrow> 'k list) \<Rightarrow> node_id list \<Rightarrow> contract_node list
   \<Rightarrow> ('k, node_id list) hmap \<Rightarrow> ('k, node_id list) hmap" where
  "prune_index keys stale removed m =
     fold (retain_bucket (set stale)) (remdups (concat (map keys removed))) m"

definition remove_nodes :: "node_id list \<Rightarrow> contract_graph \<Rightarrow> contract_graph" where
  "remove_nodes stale g =
     (let removed = List.map_filter (get_node g) (remdups stale) in
      g\<lparr>g_nodes := filter (\<lambda>(i, n). i \<notin> set stale) (g_nodes g),
        g_name_to_nodes := prune_index name_keys stale removed (g_name_to_nodes g),
        g_package_to_nodes := prune_index package_keys stale removed (g_package_to_nodes g),
        g_fqcn_to_node := prune_index fqcn_keys stale removed (g_fqcn_to_node g),
        g_file_to_nodes := prune_index file_keys stale removed (g_file_to_nodes g)\<rparr>)"

text \<open>The first loop of \<^verbatim>\<open>patch_files\<close>: take the entry of every path out of the file index.\<close>

fun take_files ::
  "path list \<Rightarrow> (path, node_id list) hmap \<Rightarrow> node_id list \<Rightarrow> (path, node_id list) hmap \<times> node_id list" where
  "take_files [] m stale = (m, stale)"
| "take_files (p # ps) m stale =
     (case map_of m p of
        None \<Rightarrow> take_files ps m stale
      | Some ids \<Rightarrow> take_files ps (hm_remove p m) (stale @ ids))"

definition patch_files :: "path list \<Rightarrow> contract_graph \<Rightarrow> contract_graph" where
  "patch_files paths g =
     (case take_files paths (g_file_to_nodes g) [] of
        (files, stale) \<Rightarrow>
          (let g1 = g\<lparr>g_file_to_nodes := files\<rparr> in
           if stale = [] then g1
           else
             (let g2 = remove_nodes stale g1; live = (\<lambda>i. i \<notin> set stale) in
              g2\<lparr>g_reverse_deps := hm_retain live (g_reverse_deps g2),
                 g_topic_producers := hm_retain live (g_topic_producers g2),
                 g_topic_consumers := hm_retain live (g_topic_consumers g2),
                 g_rpc_calls := filter (\<lambda>(i, _). live i) (g_rpc_calls g2),
                 g_heuristic_topic_nodes := {i \<in> g_heuristic_topic_nodes g2. live i},
                 g_edges := filter (\<lambda>e. live (e_from e) \<and> live (e_to e)) (g_edges g2)\<rparr>)))"

definition patch_file :: "path \<Rightarrow> contract_graph \<Rightarrow> contract_graph" where
  "patch_file p g = patch_files [p] g"

section \<open>The invariant\<close>

definition node_ids :: "contract_graph \<Rightarrow> node_id set" where
  "node_ids g = fst ` set (g_nodes g)"

definition index_of :: "(contract_node \<Rightarrow> 'k list) \<Rightarrow> contract_node list \<Rightarrow> 'k \<Rightarrow> node_id list" where
  "index_of keys ns k = concat (map (\<lambda>n. map (\<lambda>_. n_id n) (filter (\<lambda>k'. k' = k) (keys n))) ns)"

definition index_exact ::
  "(contract_node \<Rightarrow> 'k list) \<Rightarrow> (node_id \<times> contract_node) list \<Rightarrow> ('k, node_id list) hmap \<Rightarrow> bool" where
  "index_exact keys ns m \<longleftrightarrow> hm_wf m \<and> (\<forall>k. bucket m k = index_of keys (map snd ns) k)"

definition facts_live :: "node_id set \<Rightarrow> ('k, node_id list) hmap \<Rightarrow> bool" where
  "facts_live ids m \<longleftrightarrow> hm_wf m \<and> (\<forall>k. set (bucket m k) \<subseteq> ids)"

definition nodes_wf :: "contract_graph \<Rightarrow> bool" where
  "nodes_wf g \<longleftrightarrow>
     sorted_wrt (<) (map fst (g_nodes g))
     \<and> (\<forall>(i, n) \<in> set (g_nodes g). n_id n = i \<and> i < g_next_node_id g)"

definition indices_wf :: "contract_graph \<Rightarrow> bool" where
  "indices_wf g \<longleftrightarrow>
     index_exact name_keys (g_nodes g) (g_name_to_nodes g)
     \<and> index_exact package_keys (g_nodes g) (g_package_to_nodes g)
     \<and> index_exact file_keys (g_nodes g) (g_file_to_nodes g)
     \<and> index_exact fqcn_keys (g_nodes g) (g_fqcn_to_node g)"

definition facts_wf :: "contract_graph \<Rightarrow> bool" where
  "facts_wf g \<longleftrightarrow>
     facts_live (node_ids g) (g_reverse_deps g)
     \<and> facts_live (node_ids g) (g_topic_producers g)
     \<and> facts_live (node_ids g) (g_topic_consumers g)
     \<and> fst ` set (g_rpc_calls g) \<subseteq> node_ids g
     \<and> g_heuristic_topic_nodes g \<subseteq> node_ids g"

definition wf_graph :: "contract_graph \<Rightarrow> bool" where
  "wf_graph g \<longleftrightarrow> nodes_wf g \<and> indices_wf g \<and> facts_wf g"

lemmas wf_defs = wf_graph_def nodes_wf_def indices_wf_def facts_wf_def

section \<open>Lemmas on the node table\<close>

lemma nodes_wf_distinct: "nodes_wf g \<Longrightarrow> distinct (map fst (g_nodes g))"
  by (simp add: nodes_wf_def strict_sorted_iff)

lemma get_node_Some_iff:
  "nodes_wf g \<Longrightarrow> get_node g i = Some n \<longleftrightarrow> (i, n) \<in> set (g_nodes g)"
  using nodes_wf_distinct[of g] by (simp add: get_node_def)

lemma get_node_id: "nodes_wf g \<Longrightarrow> get_node g i = Some n \<Longrightarrow> n_id n = i"
  by (auto simp: get_node_Some_iff nodes_wf_def)

lemma get_node_None_iff: "get_node g i = None \<longleftrightarrow> i \<notin> node_ids g"
  by (simp add: get_node_def node_ids_def map_of_eq_None_iff)

lemma get_node_in_all: "get_node g i = Some n \<Longrightarrow> n \<in> set (all_nodes g)"
  by (force simp: get_node_def all_nodes_def dest: map_of_SomeD)

lemma all_nodes_get:
  "nodes_wf g \<Longrightarrow> n \<in> set (all_nodes g) \<longleftrightarrow> get_node g (n_id n) = Some n"
  by (force simp: get_node_Some_iff all_nodes_def nodes_wf_def)

lemma distinct_all_nodes: "nodes_wf g \<Longrightarrow> distinct (map n_id (all_nodes g))"
proof -
  assume wf: "nodes_wf g"
  then have "map n_id (all_nodes g) = map fst (g_nodes g)"
    by (auto simp: all_nodes_def nodes_wf_def)
  with nodes_wf_distinct[OF wf] show ?thesis by simp
qed

section \<open>Lemmas on exact indices\<close>

lemma index_of_append: "index_of keys (ns @ ms) k = index_of keys ns k @ index_of keys ms k"
  by (simp add: index_of_def)

lemma set_index_of: "set (index_of keys ns k) = {n_id n |n. n \<in> set ns \<and> k \<in> set (keys n)}"
  by (auto simp: index_of_def)

lemma index_of_filter:
  "index_of keys (filter (\<lambda>n. P (n_id n)) ns) k = filter P (index_of keys ns k)"
  by (induction ns) (auto simp: index_of_def filter_map o_def filter_empty_conv)

lemma index_exact_Nil: "index_exact keys [] []"
  by (simp add: index_exact_def index_of_def)

lemma index_exact_bucket:
  "index_exact keys ns m \<Longrightarrow> set (bucket m k) = {n_id n |n. n \<in> snd ` set ns \<and> k \<in> set (keys n)}"
  by (simp add: index_exact_def set_index_of)

lemma index_exact_push_all:
  assumes "index_exact keys ns m" and "n_id n = i"
  shows "index_exact keys (ns @ [(i, n)]) (fold (\<lambda>k. hm_push k i) (keys n) m)"
proof -
  have f: "fold (\<lambda>k. hm_push k i) ks m = fold (\<lambda>(k, v). hm_push k v) (map (\<lambda>k. (k, i)) ks) m" for ks
    by (simp add: fold_map o_def)
  have "bucket (fold (\<lambda>k. hm_push k i) (keys n) m) k = index_of keys (map snd (ns @ [(i, n)])) k" for k
    using assms unfolding f hm.get_push_all
    by (simp add: index_exact_def index_of_append, simp add: index_of_def filter_map o_def)
  moreover have "hm_wf (fold (\<lambda>k. hm_push k i) (keys n) m)"
    using assms unfolding f by (auto simp: index_exact_def intro: hm.invar_push_all)
  ultimately show ?thesis by (simp add: index_exact_def)
qed

lemma map_of_retain_bucket:
  "map_of (retain_bucket S k m) k' =
     (if k' = k then (case map_of m k of None \<Rightarrow> None
                      | Some ids \<Rightarrow> let ids' = filter (\<lambda>x. x \<notin> S) ids in if ids' = [] then None else Some ids')
      else map_of m k')"
proof -
  have "map_of (hm_remove k m) k' = (if k' = k then None else map_of m k')" for k'
    using map_of_filter_key[of "\<lambda>x. x \<noteq> k" m k'] by (simp add: hm_remove_def)
  then show ?thesis
    by (auto simp: retain_bucket_def Let_def map_of_hm_insert split: option.splits)
qed

lemma bucket_retain_bucket:
  "bucket (retain_bucket S k m) k' = (if k' = k then filter (\<lambda>x. x \<notin> S) (bucket m k') else bucket m k')"
  by (auto simp: bucket_def map_of_retain_bucket Let_def split: option.splits)

lemma set_hm_insert_existing:
  "set (hm_insert k v m) \<subseteq> insert (k, v) (set m)"
  by (induction m) (auto split: if_splits)

lemma hm_wf_retain_bucket: "hm_wf m \<Longrightarrow> hm_wf (retain_bucket S k m)"
proof -
  assume wf: "hm_wf m"
  have "hm_wf (hm_insert k ids m)" if "ids \<noteq> []" for ids
    using wf that set_hm_insert_existing[of k ids m]
    by (force simp: hm_wf_def distinct_hm_insert)
  then show ?thesis
    using wf by (auto simp: retain_bucket_def Let_def hm_wf_hm_remove split: option.splits)
qed

lemma bucket_fold_retain:
  "bucket (fold (retain_bucket S) ks m) k =
     (if k \<in> set ks then filter (\<lambda>x. x \<notin> S) (bucket m k) else bucket m k)"
  by (induction ks arbitrary: m) (auto simp: bucket_retain_bucket)

lemma hm_wf_fold_retain: "hm_wf m \<Longrightarrow> hm_wf (fold (retain_bucket S) ks m)"
  by (induction ks arbitrary: m) (auto simp: hm_wf_retain_bucket)

text \<open>Retaining only under the keys of the removed nodes prunes the whole index.\<close>

lemma bucket_prune_index:
  assumes ids: "\<forall>(i, n) \<in> set ns. n_id n = i"
    and live: "\<forall>k. set (bucket m k) \<subseteq> set (index_of keys (map snd ns) k)"
    and rem: "\<forall>(i, n) \<in> set ns. i \<in> set stale \<longrightarrow> n \<in> set removed"
  shows "bucket (prune_index keys stale removed m) k = filter (\<lambda>x. x \<notin> set stale) (bucket m k)"
proof (cases "k \<in> set (concat (map keys removed))")
  case True
  then show ?thesis by (simp add: prune_index_def bucket_fold_retain)
next
  case False
  have "filter (\<lambda>x. x \<notin> set stale) (bucket m k) = bucket m k"
  proof (rule filter_True, rule ballI, rule notI)
    fix x assume x: "x \<in> set (bucket m k)" and st: "x \<in> set stale"
    from x live obtain n where n: "n \<in> snd ` set ns" "k \<in> set (keys n)" "x = n_id n"
      by (force simp: set_index_of)
    with ids have "(x, n) \<in> set ns" by force
    with rem st n(2) False show False by force
  qed
  with False show ?thesis by (simp add: prune_index_def bucket_fold_retain)
qed


section \<open>Every operation keeps the invariant\<close>

lemma wf_empty_graph: "wf_graph empty_graph"
  by (simp add: wf_defs empty_graph_def index_exact_Nil facts_live_def)

lemma add_node_nodes:
  assumes "nodes_wf g"
  shows "g_nodes (fst (add_node n g)) =
           g_nodes g @ [(g_next_node_id g, n\<lparr>n_id := g_next_node_id g\<rparr>)]"
proof -
  have "\<forall>k' \<in> fst ` set (g_nodes g). k' < g_next_node_id g"
    using assms by (auto simp: nodes_wf_def)
  then show ?thesis by (simp add: add_node_def Let_def bt_insert_greatest)
qed

lemma add_node_id [simp]: "snd (add_node n g) = g_next_node_id g"
  by (simp add: add_node_def Let_def)

lemma add_node_next [simp]: "g_next_node_id (fst (add_node n g)) = Suc (g_next_node_id g)"
  by (simp add: add_node_def Let_def)

lemma add_node_facts [simp]:
  "g_reverse_deps (fst (add_node n g)) = g_reverse_deps g"
  "g_topic_producers (fst (add_node n g)) = g_topic_producers g"
  "g_topic_consumers (fst (add_node n g)) = g_topic_consumers g"
  "g_rpc_calls (fst (add_node n g)) = g_rpc_calls g"
  "g_heuristic_topic_nodes (fst (add_node n g)) = g_heuristic_topic_nodes g"
  "g_edges (fst (add_node n g)) = g_edges g"
  "g_handler_rpc_names (fst (add_node n g)) = g_handler_rpc_names g"
  by (simp_all add: add_node_def Let_def)

lemma add_node_indices:
  fixes n g
  defines "i \<equiv> g_next_node_id g"
  defines "n' \<equiv> n\<lparr>n_id := i\<rparr>"
  shows "g_name_to_nodes (fst (add_node n g)) = fold (\<lambda>k. hm_push k i) (name_keys n') (g_name_to_nodes g)"
    and "g_package_to_nodes (fst (add_node n g)) = fold (\<lambda>k. hm_push k i) (package_keys n') (g_package_to_nodes g)"
    and "g_file_to_nodes (fst (add_node n g)) = fold (\<lambda>k. hm_push k i) (file_keys n') (g_file_to_nodes g)"
    and "g_fqcn_to_node (fst (add_node n g)) = fold (\<lambda>k. hm_push k i) (fqcn_keys n') (g_fqcn_to_node g)"
  by (simp_all add: add_node_def Let_def i_def n'_def name_keys_def package_keys_def file_keys_def
      fqcn_keys_def fqcn_indexed_def fqcn_of_def)

lemma facts_live_mono: "facts_live ids m \<Longrightarrow> ids \<subseteq> ids' \<Longrightarrow> facts_live ids' m"
  by (auto simp: facts_live_def)

lemma facts_live_push: "facts_live ids m \<Longrightarrow> i \<in> ids \<Longrightarrow> facts_live ids (hm_push k i m)"
  by (auto simp: facts_live_def bucket_simps hm_wf_hm_push)

lemma facts_live_retain:
  "facts_live ids m \<Longrightarrow> facts_live {i \<in> ids. keep i} (hm_retain keep m)"
  by (auto simp: facts_live_def bucket_simps hm_wf_hm_retain)

lemma node_ids_add_node: "nodes_wf g \<Longrightarrow> node_ids (fst (add_node n g)) = insert (g_next_node_id g) (node_ids g)"
  by (auto simp: node_ids_def add_node_nodes)

lemma wf_add_node: assumes "wf_graph g" shows "wf_graph (fst (add_node n g))"
proof -
  let ?g = "fst (add_node n g)" and ?i = "g_next_node_id g"
  have nw: "nodes_wf g" and iw: "indices_wf g" and fw: "facts_wf g"
    using assms by (auto simp: wf_graph_def)
  have "nodes_wf ?g"
    using nw by (auto simp: nodes_wf_def add_node_nodes[OF nw] sorted_wrt_append)
  moreover have "indices_wf ?g"
    using iw by (auto simp: indices_wf_def add_node_nodes[OF nw] add_node_indices
        intro!: index_exact_push_all)
  moreover have "facts_wf ?g"
    using fw node_ids_add_node[OF nw]
    by (auto simp: facts_wf_def intro: facts_live_mono)
  ultimately show ?thesis by (simp add: wf_graph_def)
qed

lemma node_ids_update [simp]:
  "node_ids (g\<lparr>g_edges := es\<rparr>) = node_ids g"
  "node_ids (g\<lparr>g_reverse_deps := m\<rparr>) = node_ids g"
  "node_ids (g\<lparr>g_topic_producers := m\<rparr>) = node_ids g"
  "node_ids (g\<lparr>g_topic_consumers := m\<rparr>) = node_ids g"
  "node_ids (g\<lparr>g_rpc_calls := cs\<rparr>) = node_ids g"
  "node_ids (g\<lparr>g_heuristic_topic_nodes := S\<rparr>) = node_ids g"
  by (simp_all add: node_ids_def)

lemma wf_add_dependency: "wf_graph g \<Longrightarrow> i \<in> node_ids g \<Longrightarrow> wf_graph (add_dependency i t g)"
  by (simp add: wf_defs add_dependency_def facts_live_push)

lemma wf_add_producer: "wf_graph g \<Longrightarrow> i \<in> node_ids g \<Longrightarrow> wf_graph (add_producer i t g)"
  by (simp add: wf_defs add_producer_def facts_live_push)

lemma wf_add_consumer: "wf_graph g \<Longrightarrow> i \<in> node_ids g \<Longrightarrow> wf_graph (add_consumer i t g)"
  by (simp add: wf_defs add_consumer_def facts_live_push)

lemma wf_mark_heuristic: "wf_graph g \<Longrightarrow> i \<in> node_ids g \<Longrightarrow> wf_graph (mark_heuristic_topic_node i g)"
  by (simp add: wf_defs mark_heuristic_topic_node_def)

lemma wf_add_rpc_call: "wf_graph g \<Longrightarrow> i \<in> node_ids g \<Longrightarrow> wf_graph (add_rpc_call i t g)"
  by (simp add: wf_defs add_rpc_call_def)

lemma wf_add_edge: "wf_graph g \<Longrightarrow> e_from e \<in> node_ids g \<Longrightarrow> wf_graph (add_edge e g)"
  by (cases "e_kind e"; cases "get_node g (e_to e)")
    (simp_all add: wf_defs add_edge_def Let_def facts_live_push)

subsection \<open>Removing nodes\<close>

lemma removed_complete:
  assumes "nodes_wf g"
  shows "\<forall>(i, n) \<in> set (g_nodes g). i \<in> set stale \<longrightarrow> n \<in> set (List.map_filter (get_node g) (remdups stale))"
  using assms by (auto simp: List.map_filter_def get_node_Some_iff image_iff) (metis get_node_Some_iff option.sel)

lemma live_nodes_map:
  "\<forall>(i, n) \<in> set ns. n_id n = i \<Longrightarrow>
   map snd (filter (\<lambda>(i, n). i \<notin> S) ns) = filter (\<lambda>n. n_id n \<notin> S) (map snd ns)"
  by (induction ns) auto

lemma index_exact_prune:
  assumes ids: "\<forall>(i, n) \<in> set ns. n_id n = i"
    and ex: "index_exact keys ns m"
    and rem: "\<forall>(i, n) \<in> set ns. i \<in> set stale \<longrightarrow> n \<in> set removed"
  shows "index_exact keys (filter (\<lambda>(i, n). i \<notin> set stale) ns) (prune_index keys stale removed m)"
proof -
  note live_nodes_map[OF ids, of "set stale"]
  moreover have "bucket (prune_index keys stale removed m) k = filter (\<lambda>x. x \<notin> set stale) (bucket m k)" for k
    using ex by (intro bucket_prune_index[OF ids _ rem]) (simp add: index_exact_def)
  moreover have "hm_wf (prune_index keys stale removed m)"
    using ex by (simp add: index_exact_def prune_index_def hm_wf_fold_retain)
  ultimately show ?thesis
    using ex index_of_filter[of keys "\<lambda>i. i \<notin> set stale"] by (simp add: index_exact_def)
qed

lemma nodes_wf_ids: "nodes_wf g \<Longrightarrow> \<forall>(i, n) \<in> set (g_nodes g). n_id n = i"
  by (auto simp: nodes_wf_def)

lemma remove_nodes_nodes [simp]:
  "g_nodes (remove_nodes stale g) = filter (\<lambda>(i, n). i \<notin> set stale) (g_nodes g)"
  by (simp add: remove_nodes_def Let_def)

lemma remove_nodes_frame [simp]:
  "g_reverse_deps (remove_nodes stale g) = g_reverse_deps g"
  "g_topic_producers (remove_nodes stale g) = g_topic_producers g"
  "g_topic_consumers (remove_nodes stale g) = g_topic_consumers g"
  "g_rpc_calls (remove_nodes stale g) = g_rpc_calls g"
  "g_heuristic_topic_nodes (remove_nodes stale g) = g_heuristic_topic_nodes g"
  "g_edges (remove_nodes stale g) = g_edges g"
  "g_next_node_id (remove_nodes stale g) = g_next_node_id g"
  "g_handler_rpc_names (remove_nodes stale g) = g_handler_rpc_names g"
  by (simp_all add: remove_nodes_def Let_def)

lemma nodes_wf_remove_nodes: "nodes_wf g \<Longrightarrow> nodes_wf (remove_nodes stale g)"
  by (auto simp: nodes_wf_def sorted_wrt_map intro: sorted_wrt_filter)

lemma indices_wf_remove_nodes:
  assumes "nodes_wf g" and "indices_wf g"
  shows "indices_wf (remove_nodes stale g)"
  using assms(2)
  by (simp add: indices_wf_def remove_nodes_def Let_def
      index_exact_prune[OF nodes_wf_ids[OF assms(1)] _ removed_complete[OF assms(1)]])

lemma node_ids_remove_nodes: "node_ids (remove_nodes stale g) = node_ids g - set stale"
  by (force simp: node_ids_def)

lemma wf_remove_nodes:
  assumes "wf_graph g" and "facts_wf (remove_nodes stale g)"
  shows "wf_graph (remove_nodes stale g)"
  using assms nodes_wf_remove_nodes indices_wf_remove_nodes by (auto simp: wf_graph_def)

subsection \<open>Purging files\<close>

lemma take_files_result:
  assumes "take_files ps m st = (m', st')" and "hm_wf m"
  shows "(\<forall>k. bucket m' k = (if k \<in> set ps then [] else bucket m k))
       \<and> set st' = set st \<union> (\<Union>p \<in> set ps. set (bucket m p)) \<and> hm_wf m'"
  using assms
proof (induction ps m st arbitrary: m' st' rule: take_files.induct)
  case (2 p ps m st)
  show ?case
  proof (cases "map_of m p")
    case None
    then have "bucket m p = []" by (simp add: bucket_def)
    with 2 None show ?thesis by auto
  next
    case (Some ids)
    then have b: "bucket m p = ids" by (simp add: bucket_def)
    from 2(2)[OF Some] 2(3,4) Some
    have IH: "(\<forall>k. bucket m' k = (if k \<in> set ps then [] else bucket (hm_remove p m) k))
       \<and> set st' = set (st @ ids) \<union> (\<Union>q \<in> set ps. set (bucket (hm_remove p m) q)) \<and> hm_wf m'"
      by (simp add: hm_wf_hm_remove)
    then show ?thesis using b by (auto simp: bucket_simps split: if_splits)
  qed
qed auto

text \<open>The ids of the nodes declared in one of the files.\<close>

definition ids_in_files :: "path list \<Rightarrow> contract_graph \<Rightarrow> node_id set" where
  "ids_in_files ps g = {i. \<exists>n. (i, n) \<in> set (g_nodes g) \<and> n_file n \<in> set ps}"

lemma take_files_stale:
  assumes "wf_graph g" and "take_files ps (g_file_to_nodes g) [] = (files, stale)"
  shows "set stale = ids_in_files ps g"
proof -
  have wf: "hm_wf (g_file_to_nodes g)" and ex: "index_exact file_keys (g_nodes g) (g_file_to_nodes g)"
    using assms(1) by (auto simp: wf_graph_def indices_wf_def index_exact_def)
  have "set stale = (\<Union>p \<in> set ps. set (bucket (g_file_to_nodes g) p))"
    using take_files_result[OF assms(2) wf] by simp
  also have "\<dots> = ids_in_files ps g"
    using assms(1) unfolding index_exact_bucket[OF ex] ids_in_files_def
    by (force simp: file_keys_def wf_graph_def nodes_wf_def)
  finally show ?thesis .
qed

lemma patch_files_nodes:
  assumes "wf_graph g"
  shows "g_nodes (patch_files ps g) = filter (\<lambda>(i, n). n_file n \<notin> set ps) (g_nodes g)"
proof -
  obtain files stale where t: "take_files ps (g_file_to_nodes g) [] = (files, stale)" by force
  have st: "set stale = ids_in_files ps g" by (rule take_files_stale[OF assms t])
  have nw: "nodes_wf g" using assms by (simp add: wf_graph_def)
  have key: "i \<in> set stale \<longleftrightarrow> n_file n \<in> set ps" if "(i, n) \<in> set (g_nodes g)" for i n
    using that st nodes_wf_distinct[OF nw] by (auto simp: ids_in_files_def dest: eq_key_imp_eq_value)
  have "filter (\<lambda>(i, n). i \<notin> set stale) (g_nodes g) = filter (\<lambda>(i, n). n_file n \<notin> set ps) (g_nodes g)"
    using key by (auto intro!: filter_cong)
  then show ?thesis
    using t by (auto simp: patch_files_def Let_def split: if_splits)
qed

lemma take_files_empty:
  assumes "take_files ps m st = (m', [])" and "hm_wf m"
  shows "m' = m"
  using assms
proof (induction ps m st arbitrary: m' rule: take_files.induct)
  case (2 p ps m st)
  show ?case
  proof (cases "map_of m p")
    case None
    with 2 show ?thesis by auto
  next
    case (Some ids)
    then have "ids \<noteq> []" using 2(4) by (auto simp: hm_wf_def image_iff dest: map_of_SomeD)
    then have False
      using 2(3) Some take_files_result[of ps "hm_remove p m" "st @ ids" m' "[]"] 2(4)
      by (simp add: hm_wf_hm_remove)
    then show ?thesis ..
  qed
qed auto

text \<open>The file index has lost the entries of the purged files before the nodes are removed.\<close>

lemma index_exact_file_prune:
  assumes wf: "wf_graph g" and t: "take_files ps (g_file_to_nodes g) [] = (files, stale)"
  shows "index_exact file_keys (filter (\<lambda>(i, n). i \<notin> set stale) (g_nodes g))
           (prune_index file_keys stale (List.map_filter (get_node g) (remdups stale)) files)"
proof -
  let ?rem = "List.map_filter (get_node g) (remdups stale)"
  have nw: "nodes_wf g" and hw: "hm_wf (g_file_to_nodes g)"
    and ex: "index_exact file_keys (g_nodes g) (g_file_to_nodes g)"
    using wf by (auto simp: wf_graph_def indices_wf_def index_exact_def)
  note res = take_files_result[OF t hw]
  have sub: "\<forall>k. set (bucket files k) \<subseteq> set (index_of file_keys (map snd (g_nodes g)) k)"
    using res ex by (simp add: index_exact_def)
  have "bucket (prune_index file_keys stale ?rem files) k
      = filter (\<lambda>x. x \<notin> set stale) (bucket (g_file_to_nodes g) k)" for k
  proof -
    have "bucket (prune_index file_keys stale ?rem files) k = filter (\<lambda>x. x \<notin> set stale) (bucket files k)"
      by (rule bucket_prune_index[OF nodes_wf_ids[OF nw] sub removed_complete[OF nw]])
    moreover have "filter (\<lambda>x. x \<notin> set stale) (bucket (g_file_to_nodes g) k) = []" if "k \<in> set ps"
      using that res by (auto simp: filter_empty_conv)
    ultimately show ?thesis using res by simp
  qed
  moreover have "hm_wf files" using res by blast
  ultimately show ?thesis
    using ex index_of_filter[of file_keys "\<lambda>i. i \<notin> set stale"]
    by (simp add: index_exact_def prune_index_def hm_wf_fold_retain live_nodes_map[OF nodes_wf_ids[OF nw]])
qed

lemma patch_files_unfold:
  assumes "wf_graph g" and "take_files ps (g_file_to_nodes g) [] = (files, stale)"
  shows "patch_files ps g =
    (if stale = [] then g
     else (remove_nodes stale (g\<lparr>g_file_to_nodes := files\<rparr>))
       \<lparr>g_reverse_deps := hm_retain (\<lambda>i. i \<notin> set stale) (g_reverse_deps g),
        g_topic_producers := hm_retain (\<lambda>i. i \<notin> set stale) (g_topic_producers g),
        g_topic_consumers := hm_retain (\<lambda>i. i \<notin> set stale) (g_topic_consumers g),
        g_rpc_calls := filter (\<lambda>(i, _). i \<notin> set stale) (g_rpc_calls g),
        g_heuristic_topic_nodes := {i \<in> g_heuristic_topic_nodes g. i \<notin> set stale},
        g_edges := filter (\<lambda>e. e_from e \<notin> set stale \<and> e_to e \<notin> set stale) (g_edges g)\<rparr>)"
  using assms take_files_empty[of ps "g_file_to_nodes g" "[]" files]
  by (auto simp: patch_files_def Let_def wf_graph_def indices_wf_def index_exact_def)

lemma wf_patch_files: assumes wf: "wf_graph g" shows "wf_graph (patch_files ps g)"
proof -
  obtain files stale where t: "take_files ps (g_file_to_nodes g) [] = (files, stale)" by force
  have nw: "nodes_wf g" and iw: "indices_wf g" and fw: "facts_wf g"
    using wf by (auto simp: wf_graph_def)
  note g' = patch_files_unfold[OF wf t]
  show ?thesis
  proof (cases "stale = []")
    case True
    with g' wf show ?thesis by simp
  next
    case False
    let ?g' = "patch_files ps g"
    have gn: "get_node (g\<lparr>g_file_to_nodes := files\<rparr>) = get_node g"
      by (rule ext) (simp add: get_node_def)
    have ids': "node_ids ?g' = {i \<in> node_ids g. i \<notin> set stale}"
      using False unfolding g' by (force simp: node_ids_def)
    have "nodes_wf ?g'"
      using nodes_wf_remove_nodes[OF nw, of stale] False unfolding g' by (auto simp: nodes_wf_def)
    moreover have "indices_wf ?g'"
      using iw False index_exact_file_prune[OF wf t] unfolding g'
      by (simp add: indices_wf_def remove_nodes_def Let_def gn
          index_exact_prune[OF nodes_wf_ids[OF nw] _ removed_complete[OF nw]])
    moreover have "facts_wf ?g'"
      using fw False unfolding facts_wf_def ids' unfolding g'
      by (auto intro: facts_live_retain)
    ultimately show ?thesis by (simp add: wf_graph_def)
  qed
qed

section \<open>The graph as a machine\<close>

datatype graph_op =
    AddNode contract_node
  | AddEdge contract_edge
  | AddDependency node_id string
  | AddProducer node_id string
  | AddConsumer node_id string
  | MarkHeuristic node_id
  | AddRpcCall node_id string
  | PatchFiles "path list"

fun graph_step :: "graph_op \<Rightarrow> contract_graph \<Rightarrow> contract_graph" where
  "graph_step (AddNode n) g = fst (add_node n g)"
| "graph_step (AddEdge e) g = add_edge e g"
| "graph_step (AddDependency i t) g = add_dependency i t g"
| "graph_step (AddProducer i t) g = add_producer i t g"
| "graph_step (AddConsumer i t) g = add_consumer i t g"
| "graph_step (MarkHeuristic i) g = mark_heuristic_topic_node i g"
| "graph_step (AddRpcCall i t) g = add_rpc_call i t g"
| "graph_step (PatchFiles ps) g = patch_files ps g"

text \<open>Facts are recorded for nodes the graph holds: callers pass an id that \<^verbatim>\<open>add_node\<close> returned.\<close>

fun graph_op_ok :: "graph_op \<Rightarrow> contract_graph \<Rightarrow> bool" where
  "graph_op_ok (AddNode n) g = True"
| "graph_op_ok (AddEdge e) g = (e_from e \<in> node_ids g)"
| "graph_op_ok (AddDependency i t) g = (i \<in> node_ids g)"
| "graph_op_ok (AddProducer i t) g = (i \<in> node_ids g)"
| "graph_op_ok (AddConsumer i t) g = (i \<in> node_ids g)"
| "graph_op_ok (MarkHeuristic i) g = (i \<in> node_ids g)"
| "graph_op_ok (AddRpcCall i t) g = (i \<in> node_ids g)"
| "graph_op_ok (PatchFiles ps) g = True"

lemma wf_graph_step: "wf_graph g \<Longrightarrow> graph_op_ok op g \<Longrightarrow> wf_graph (graph_step op g)"
  by (cases op)
    (simp_all add: wf_add_node wf_add_edge wf_add_dependency wf_add_producer wf_add_consumer
      wf_mark_heuristic wf_add_rpc_call wf_patch_files)

interpretation graph_machine: invariant_machine graph_step graph_op_ok empty_graph wf_graph
  by unfold_locales (simp_all add: wf_empty_graph wf_graph_step)

text \<open>
  In every run of graph operations from the empty graph, the name, package, file and FQCN
  indices are exactly what the node table determines, ids stay unique and below the counter, and
  no recorded import, topic, call or mark refers to a node that is gone.
\<close>

lemma graph_run_wf:
  assumes "graph_machine.run_allowed ops empty_graph"
  shows "wf_graph (fold graph_step ops empty_graph)"
  using assms by (rule graph_machine.inv_run)

definition demo_node :: contract_node where
  "demo_node = \<lparr>n_id = 0, n_name = ''Orders'', n_kind = KafkaTopic, n_file = [Normal ''a.ts''],
     n_line_start = 1, n_line_end = 2, n_package = ''shop'', n_repo = 0, n_signature = None,
     n_docstring = None\<rparr>"

lemma graph_run_wf_example:
  "wf_graph (fold graph_step
     [AddNode demo_node, AddDependency 0 ''lib'', PatchFiles [[Normal ''a.ts'']]] empty_graph)"
proof (rule graph_run_wf)
  show "graph_machine.run_allowed
     [AddNode demo_node, AddDependency 0 ''lib'', PatchFiles [[Normal ''a.ts'']]] empty_graph"
    by (simp add: node_ids_def add_node_def empty_graph_def Let_def)
qed

lemma patch_files_facts:
  fixes ps
  assumes "wf_graph g"
  defines "g' \<equiv> patch_files ps g" and "gone \<equiv> ids_in_files ps g"
  shows "g_nodes g' = filter (\<lambda>(i, n). n_file n \<notin> set ps) (g_nodes g)"
    and "\<forall>k. bucket (g_reverse_deps g') k = filter (\<lambda>i. i \<notin> gone) (bucket (g_reverse_deps g) k)
           \<and> bucket (g_topic_producers g') k = filter (\<lambda>i. i \<notin> gone) (bucket (g_topic_producers g) k)
           \<and> bucket (g_topic_consumers g') k = filter (\<lambda>i. i \<notin> gone) (bucket (g_topic_consumers g) k)"
    and "g_rpc_calls g' = filter (\<lambda>(i, _). i \<notin> gone) (g_rpc_calls g)"
    and "g_edges g' = filter (\<lambda>e. e_from e \<notin> gone \<and> e_to e \<notin> gone) (g_edges g)"
    and "\<forall>p \<in> set ps. get_nodes_for_file g' p = []"
proof -
  obtain files stale where t: "take_files ps (g_file_to_nodes g) [] = (files, stale)" by force
  have st: "set stale = gone" unfolding gone_def by (rule take_files_stale[OF assms(1) t])
  note u = patch_files_unfold[OF assms(1) t, folded g'_def]
  have fw: "hm_wf (g_reverse_deps g)" "hm_wf (g_topic_producers g)" "hm_wf (g_topic_consumers g)"
    using assms(1) by (auto simp: wf_graph_def facts_wf_def facts_live_def)
  have emp: "gone = {}" if "stale = []" using that st by simp
  show "g_nodes g' = filter (\<lambda>(i, n). n_file n \<notin> set ps) (g_nodes g)"
    unfolding g'_def by (rule patch_files_nodes[OF assms(1)])
  show "\<forall>k. bucket (g_reverse_deps g') k = filter (\<lambda>i. i \<notin> gone) (bucket (g_reverse_deps g) k)
           \<and> bucket (g_topic_producers g') k = filter (\<lambda>i. i \<notin> gone) (bucket (g_topic_producers g) k)
           \<and> bucket (g_topic_consumers g') k = filter (\<lambda>i. i \<notin> gone) (bucket (g_topic_consumers g) k)"
    using fw emp by (simp add: u bucket_simps flip: st)
  show "g_rpc_calls g' = filter (\<lambda>(i, _). i \<notin> gone) (g_rpc_calls g)"
    using emp by (simp add: u flip: st)
  show "g_edges g' = filter (\<lambda>e. e_from e \<notin> gone \<and> e_to e \<notin> gone) (g_edges g)"
    using emp by (simp add: u flip: st)
  have ex': "index_exact file_keys (g_nodes g') (g_file_to_nodes g')"
    using wf_patch_files[OF assms(1), of ps] by (simp add: g'_def wf_graph_def indices_wf_def)
  have "set (get_nodes_for_file g' p) = {}" if "p \<in> set ps" for p
    using that unfolding get_nodes_for_file_def index_exact_bucket[OF ex']
    by (auto simp: g'_def patch_files_nodes[OF assms(1)] file_keys_def)
  then show "\<forall>p \<in> set ps. get_nodes_for_file g' p = []" by simp
qed

text \<open>
  C14: Purging files leaves no trace of them and touches nothing else: the surviving nodes are
  exactly those declared elsewhere, in order; every import, topic and call table keeps exactly the
  surviving entries; and no edge, call or mark is left at a purged node.
\<close>

theorem patch_files_exact:
  assumes "wf_graph g"
  shows "g_nodes (patch_files ps g) = filter (\<lambda>(i, n). n_file n \<notin> set ps) (g_nodes g)
    \<and> (\<forall>k. bucket (g_reverse_deps (patch_files ps g)) k
             = filter (\<lambda>i. i \<notin> ids_in_files ps g) (bucket (g_reverse_deps g) k)
           \<and> bucket (g_topic_producers (patch_files ps g)) k
             = filter (\<lambda>i. i \<notin> ids_in_files ps g) (bucket (g_topic_producers g) k)
           \<and> bucket (g_topic_consumers (patch_files ps g)) k
             = filter (\<lambda>i. i \<notin> ids_in_files ps g) (bucket (g_topic_consumers g) k))
    \<and> g_rpc_calls (patch_files ps g) = filter (\<lambda>(i, _). i \<notin> ids_in_files ps g) (g_rpc_calls g)
    \<and> g_edges (patch_files ps g)
        = filter (\<lambda>e. e_from e \<notin> ids_in_files ps g \<and> e_to e \<notin> ids_in_files ps g) (g_edges g)
    \<and> (\<forall>p \<in> set ps. get_nodes_for_file (patch_files ps g) p = [])"
  using patch_files_facts[OF assms, of ps] by blast

theorem patch_files_exact_witness:
  "wf_graph (fst (add_node demo_node empty_graph))
   \<and> g_nodes (patch_files [[Normal ''a.ts'']] (fst (add_node demo_node empty_graph)))
     = filter (\<lambda>(i, n). n_file n \<notin> set [[Normal ''a.ts'']]) (g_nodes (fst (add_node demo_node empty_graph)))"
proof -
  have wf: "wf_graph (fst (add_node demo_node empty_graph))"
    by (rule wf_add_node[OF wf_empty_graph])
  show ?thesis using wf patch_files_exact[OF wf] by blast
qed

end
