(* ===== verification/Graph_Imports.thy ===== *)
theory Graph_Imports
  imports Contract_Graph
begin

text \<open>
  Resolution of import facts (\<^verbatim>\<open>resolve_import_targets\<close> of \<^verbatim>\<open>crates/mesh-core/src/contracts.rs\<close> and
  the functions it calls). The code shares scans between targets through an \<^verbatim>\<open>ImportMemo\<close>; the memo
  is a state threaded through the model, and the main lemma says that a memo every entry of which
  was computed from the same graph never changes an answer. \<^verbatim>\<open>path_clean::clean\<close>, a function of
  another crate, is the parameter \<open>clean\<close>.
\<close>

section \<open>Memo tables\<close>

text \<open>\<^verbatim>\<open>entry(k).or_insert_with(|| v)\<close>: the value read and the table afterwards.\<close>

definition memo_entry :: "'k \<Rightarrow> 'v \<Rightarrow> ('k, 'v) hmap \<Rightarrow> 'v \<times> ('k, 'v) hmap" where
  "memo_entry k v m = (case map_of m k of Some x \<Rightarrow> (x, m) | None \<Rightarrow> (v, hm_insert k v m))"

definition memo_ok :: "('k \<Rightarrow> 'v) \<Rightarrow> ('k, 'v) hmap \<Rightarrow> bool" where
  "memo_ok f m \<longleftrightarrow> (\<forall>k x. map_of m k = Some x \<longrightarrow> x = f k)"

lemma memo_ok_Nil [simp]: "memo_ok f []"
  by (simp add: memo_ok_def)

lemma memo_entry_correct: "memo_ok f m \<Longrightarrow> memo_entry k (f k) m = (y, m') \<Longrightarrow> y = f k \<and> memo_ok f m'"
  by (auto simp: memo_entry_def memo_ok_def map_of_hm_insert split: option.splits if_splits)

section \<open>Names and module paths\<close>

definition split_fully_qualified :: "string \<Rightarrow> (string \<times> string) option" where
  "split_fully_qualified target =
     (let dotted = (case rsplit_once CHR ''.'' target of
                      Some (pkg, name) \<Rightarrow> if pkg \<noteq> [] \<and> name \<noteq> [] then Some (pkg, name) else None
                    | None \<Rightarrow> None) in
      case rfind_str ''::'' target of
        Some idx \<Rightarrow>
          (let pkg = take idx target; name = drop (idx + 2) target in
           if pkg \<noteq> [] \<and> name \<noteq> [] then Some (replace_str ''::'' ''.'' pkg, name) else dotted)
      | None \<Rightarrow> dotted)"

definition NODE_BUILTINS :: "string list" where
  "NODE_BUILTINS =
     [''assert'', ''async_hooks'', ''buffer'', ''child_process'', ''cluster'', ''console'', ''constants'',
      ''crypto'', ''dgram'', ''diagnostics_channel'', ''dns'', ''domain'', ''events'', ''fs'', ''http'',
      ''http2'', ''https'', ''inspector'', ''module'', ''net'', ''os'', ''path'', ''perf_hooks'', ''process'',
      ''punycode'', ''querystring'', ''readline'', ''repl'', ''stream'', ''string_decoder'', ''timers'',
      ''tls'', ''trace_events'', ''tty'', ''url'', ''util'', ''v8'', ''vm'', ''wasi'', ''worker_threads'',
      ''zlib'']"

definition is_node_builtin_module :: "string \<Rightarrow> bool" where
  "is_node_builtin_module specifier \<longleftrightarrow>
     starts_with specifier ''node:'' \<or> hd (split CHR ''/'' specifier) \<in> set NODE_BUILTINS"

definition MODULE_EXTENSIONS :: "string list" where
  "MODULE_EXTENSIONS =
     [''.d.ts'', ''.d.mts'', ''.d.cts'', ''.tsx'', ''.ts'', ''.mts'', ''.cts'', ''.jsx'', ''.js'', ''.mjs'',
      ''.cjs'', ''.json'', ''.vue'', ''.svelte'', ''.astro'']"

definition SCRIPT_EXTENSIONS :: "string list" where
  "SCRIPT_EXTENSIONS =
     [''ts'', ''tsx'', ''mts'', ''cts'', ''js'', ''jsx'', ''mjs'', ''cjs'', ''vue'', ''svelte'', ''astro'']"

definition is_script_path :: "path \<Rightarrow> bool" where
  "is_script_path p \<longleftrightarrow> (case extension p of Some e \<Rightarrow> e \<in> set SCRIPT_EXTENSIONS | None \<Rightarrow> False)"

definition module_stem :: "string \<Rightarrow> string \<Rightarrow> string option" where
  "module_stem text ext =
     Option.bind (strip_suffix ext text) (\<lambda>stem.
       if stem \<noteq> [] \<and> \<not> ends_with stem ''/'' then Some stem else None)"

definition module_key :: "(path \<Rightarrow> path) \<Rightarrow> path \<Rightarrow> path" where
  "module_key clean p =
     (let cleaned = clean p; text = path_str cleaned in
      case List.map_filter (module_stem text) MODULE_EXTENSIONS of
        stem # _ \<Rightarrow> path_of_str stem
      | [] \<Rightarrow> cleaned)"

definition is_component_ext :: "string \<Rightarrow> bool" where
  "is_component_ext e \<longleftrightarrow> e \<in> set [''vue'', ''svelte'', ''astro'']"

definition extension_compatible :: "path \<Rightarrow> string \<Rightarrow> bool" where
  "extension_compatible file specifier =
     (case extension (path_of_str specifier) of
        Some e \<Rightarrow>
          if is_component_ext e then extension file = Some e
          else if e \<in> set [''js'', ''jsx'', ''ts'', ''tsx'', ''mjs'', ''cjs'', ''mts'', ''cts'', ''json'']
          then \<not> (case extension file of Some fe \<Rightarrow> is_component_ext fe | None \<Rightarrow> False)
          else True
      | None \<Rightarrow> True)"

definition module_key_matches :: "path \<Rightarrow> path \<Rightarrow> bool" where
  "module_key_matches file target \<longleftrightarrow>
     file = target
     \<or> file = path_join target (path_of_str ''index'')
     \<or> (case file_name target of Some name \<Rightarrow> file = path_join target [Normal name] | None \<Rightarrow> False)"

section \<open>Candidates\<close>

definition in_repo :: "contract_graph \<Rightarrow> repo_id option \<Rightarrow> node_id \<Rightarrow> bool" where
  "in_repo g repo i \<longleftrightarrow> map_option n_repo (get_node g i) = repo"

definition pick_or_ambiguous ::
  "contract_graph \<Rightarrow> node_id list \<Rightarrow> repo_id option \<Rightarrow> edge_confidence \<Rightarrow> (node_id \<times> edge_confidence) list" where
  "pick_or_ambiguous g ids importer_repo confidence_if_unique =
     (case ids of
        [only] \<Rightarrow> [(only, confidence_if_unique)]
      | _ \<Rightarrow>
         (case filter (in_repo g importer_repo) ids of
            [only] \<Rightarrow> [(only, confidence_if_unique)]
          | [] \<Rightarrow> map (\<lambda>i. (i, Ambiguous)) ids
          | same_repo \<Rightarrow> map (\<lambda>i. (i, Ambiguous)) same_repo))"

definition first_by_package :: "contract_graph \<Rightarrow> node_id list \<Rightarrow> (string, node_id) hmap" where
  "first_by_package g ids =
     fold (\<lambda>i first. case get_node g i of
                       Some n \<Rightarrow> snd (memo_entry (n_package n) i first)
                     | None \<Rightarrow> first) ids []"

record import_memo =
  im_first_by_package :: "(string, (string, node_id) hmap) hmap"
  im_same_repo_by_stem :: "(string \<times> repo_id option, node_id list) hmap"
  im_node_keys :: "(node_id, path) hmap"

definition empty_memo :: import_memo where
  "empty_memo = \<lparr>im_first_by_package = [], im_same_repo_by_stem = [], im_node_keys = []\<rparr>"

text \<open>Strategy 1, a fully qualified name.\<close>

definition resolve_qualified ::
  "contract_graph \<Rightarrow> repo_id option \<Rightarrow> string \<Rightarrow> import_memo
   \<Rightarrow> (node_id \<times> edge_confidence) list option \<times> import_memo" where
  "resolve_qualified g repo target memo =
     (case split_fully_qualified target of
        None \<Rightarrow> (None, memo)
      | Some (pkg, name) \<Rightarrow>
          (let (hit, memo') =
             (case map_of (g_name_to_nodes g) name of
                None \<Rightarrow> (None, memo)
              | Some ids \<Rightarrow>
                  (let (by_package, table) = memo_entry name (first_by_package g ids) (im_first_by_package memo) in
                   (map_of by_package pkg, memo\<lparr>im_first_by_package := table\<rparr>))) in
           case hit of
             Some i \<Rightarrow> (Some [(i, Exact)], memo')
           | None \<Rightarrow>
               (map_option (\<lambda>ids. pick_or_ambiguous g ids repo Exact)
                  (map_of (g_fqcn_to_node g) (pkg @ ''/'' @ name)), memo')))"

text \<open>The candidates of a relative import from a script that live in the file it names.\<close>

fun in_target_file ::
  "(path \<Rightarrow> path) \<Rightarrow> contract_graph \<Rightarrow> path \<Rightarrow> string \<Rightarrow> node_id list \<Rightarrow> (node_id, path) hmap
   \<Rightarrow> node_id list \<times> (node_id, path) hmap" where
  "in_target_file clean g target spec [] keys = ([], keys)"
| "in_target_file clean g target spec (i # ids) keys =
     (case get_node g i of
        None \<Rightarrow> in_target_file clean g target spec ids keys
      | Some node \<Rightarrow>
          (let (key, keys') = memo_entry i (module_key clean (n_file node)) keys;
               (rest, keys'') = in_target_file clean g target spec ids keys' in
           (if module_key_matches key target \<and> extension_compatible (n_file node) spec
            then i # rest else rest, keys'')))"

text \<open>Strategy 3, a relative import: the candidates in the importer's own repository.\<close>

definition resolve_relative ::
  "(path \<Rightarrow> path) \<Rightarrow> contract_graph \<Rightarrow> repo_id option \<Rightarrow> path option \<Rightarrow> string \<Rightarrow> import_memo
   \<Rightarrow> node_id list \<times> import_memo" where
  "resolve_relative clean g repo dir target memo =
     (let stem = (case file_stem (path_of_str target) of Some s \<Rightarrow> s | None \<Rightarrow> target) in
      case map_of (g_name_to_nodes g) stem of
        None \<Rightarrow> ([], memo)
      | Some ids \<Rightarrow>
          (let (same_repo, table) =
                 memo_entry (stem, repo) (filter (in_repo g repo) ids) (im_same_repo_by_stem memo);
               memo' = memo\<lparr>im_same_repo_by_stem := table\<rparr> in
           case dir of
             None \<Rightarrow> (same_repo, memo')
           | Some d \<Rightarrow>
               (let (found, keys) =
                  in_target_file clean g (module_key clean (path_join d (path_of_str target))) target
                    same_repo (im_node_keys memo') in
                (found, memo'\<lparr>im_node_keys := keys\<rparr>))))"

definition is_path_target :: "string \<Rightarrow> bool" where
  "is_path_target target \<longleftrightarrow> starts_with target ''.'' \<or> starts_with target ''/''"

text \<open>Strategies 2 to 4, after the fully qualified lookup.\<close>

definition resolve_unqualified ::
  "(path \<Rightarrow> path) \<Rightarrow> contract_graph \<Rightarrow> repo_id option \<Rightarrow> path option \<Rightarrow> string \<Rightarrow> import_memo
   \<Rightarrow> (node_id \<times> edge_confidence) list \<times> import_memo" where
  "resolve_unqualified clean g repo dir target memo =
     (if is_node_builtin_module target then
        (case map_of (g_name_to_nodes g) target of
           None \<Rightarrow> ([], memo)
         | Some ids \<Rightarrow>
             (let same_repo = filter (in_repo g repo) ids in
              (if same_repo = [] then [] else pick_or_ambiguous g same_repo repo Heuristic, memo)))
      else case map_of (g_name_to_nodes g) target of
        Some ids \<Rightarrow> (pick_or_ambiguous g ids repo Heuristic, memo)
      | None \<Rightarrow>
          if is_path_target target then
            (let (candidates, memo') = resolve_relative clean g repo dir target memo in
             (if candidates \<noteq> [] then pick_or_ambiguous g candidates repo Heuristic else [], memo'))
          else if CHR ''/'' \<in> set target \<or> CHR ''.'' \<in> set target then
            (case map_of (g_package_to_nodes g) target of
               Some ids \<Rightarrow> (pick_or_ambiguous g ids repo Heuristic, memo)
             | None \<Rightarrow> ([], memo))
          else ([], memo))"

definition resolve_import_targets ::
  "(path \<Rightarrow> path) \<Rightarrow> contract_graph \<Rightarrow> repo_id option \<Rightarrow> path option \<Rightarrow> string \<Rightarrow> import_memo
   \<Rightarrow> (node_id \<times> edge_confidence) list \<times> import_memo" where
  "resolve_import_targets clean g repo dir target memo =
     (if is_path_target target then resolve_unqualified clean g repo dir target memo
      else case resolve_qualified g repo target memo of
        (Some found, memo') \<Rightarrow> (found, memo')
      | (None, memo') \<Rightarrow> resolve_unqualified clean g repo dir target memo')"

section \<open>The memo-free reference\<close>

text \<open>What each strategy means with no table in sight: a scan of one bucket of the name index.\<close>

definition qualified_ref ::
  "contract_graph \<Rightarrow> repo_id option \<Rightarrow> string \<Rightarrow> (node_id \<times> edge_confidence) list option" where
  "qualified_ref g repo target =
     Option.bind (split_fully_qualified target) (\<lambda>(pkg, name).
       or_else (map_option (\<lambda>i. [(i, Exact)])
                 (find (\<lambda>i. map_option n_package (get_node g i) = Some pkg) (bucket (g_name_to_nodes g) name)))
               (map_option (\<lambda>ids. pick_or_ambiguous g ids repo Exact)
                  (map_of (g_fqcn_to_node g) (pkg @ ''/'' @ name))))"

definition relative_ref ::
  "(path \<Rightarrow> path) \<Rightarrow> contract_graph \<Rightarrow> repo_id option \<Rightarrow> path option \<Rightarrow> string \<Rightarrow> node_id list" where
  "relative_ref clean g repo dir target =
     (let stem = (case file_stem (path_of_str target) of Some s \<Rightarrow> s | None \<Rightarrow> target) in
      filter (\<lambda>i. in_repo g repo i \<and>
        (case dir of None \<Rightarrow> True
         | Some d \<Rightarrow> (case get_node g i of None \<Rightarrow> False
             | Some n \<Rightarrow> module_key_matches (module_key clean (n_file n))
                           (module_key clean (path_join d (path_of_str target)))
                         \<and> extension_compatible (n_file n) target)))
        (bucket (g_name_to_nodes g) stem))"

definition unqualified_candidates ::
  "(path \<Rightarrow> path) \<Rightarrow> contract_graph \<Rightarrow> repo_id option \<Rightarrow> path option \<Rightarrow> string \<Rightarrow> node_id list" where
  "unqualified_candidates clean g repo dir target =
     (if is_node_builtin_module target
      then filter (in_repo g repo) (bucket (g_name_to_nodes g) target)
      else if bucket (g_name_to_nodes g) target \<noteq> [] then bucket (g_name_to_nodes g) target
      else if is_path_target target then relative_ref clean g repo dir target
      else if CHR ''/'' \<in> set target \<or> CHR ''.'' \<in> set target
      then bucket (g_package_to_nodes g) target
      else [])"

definition unqualified_ref ::
  "(path \<Rightarrow> path) \<Rightarrow> contract_graph \<Rightarrow> repo_id option \<Rightarrow> path option \<Rightarrow> string
   \<Rightarrow> (node_id \<times> edge_confidence) list" where
  "unqualified_ref clean g repo dir target =
     pick_or_ambiguous g (unqualified_candidates clean g repo dir target) repo Heuristic"

definition resolve_import_ref ::
  "(path \<Rightarrow> path) \<Rightarrow> contract_graph \<Rightarrow> repo_id option \<Rightarrow> path option \<Rightarrow> string
   \<Rightarrow> (node_id \<times> edge_confidence) list" where
  "resolve_import_ref clean g repo dir target =
     (case (if is_path_target target then None else qualified_ref g repo target) of
        Some found \<Rightarrow> found
      | None \<Rightarrow> unqualified_ref clean g repo dir target)"

text \<open>A memo whose entries were all computed from \<open>g\<close>.\<close>

definition import_memo_ok :: "(path \<Rightarrow> path) \<Rightarrow> contract_graph \<Rightarrow> import_memo \<Rightarrow> bool" where
  "import_memo_ok clean g memo \<longleftrightarrow>
     memo_ok (\<lambda>name. first_by_package g (bucket (g_name_to_nodes g) name)) (im_first_by_package memo)
     \<and> memo_ok (\<lambda>(stem, repo). filter (in_repo g repo) (bucket (g_name_to_nodes g) stem)) (im_same_repo_by_stem memo)
     \<and> memo_ok (\<lambda>i. case get_node g i of Some n \<Rightarrow> module_key clean (n_file n) | None \<Rightarrow> []) (im_node_keys memo)"

section \<open>Lemmas\<close>

lemma pick_Nil [simp]: "pick_or_ambiguous g [] repo c = []"
  by (simp add: pick_or_ambiguous_def)

lemma bucket_map_of: "bucket m k = (case map_of m k of Some ids \<Rightarrow> ids | None \<Rightarrow> [])"
  by (simp add: bucket_def)

lemma map_of_memo_fold:
  "map_of (fold (\<lambda>i first. case get_node g i of Some n \<Rightarrow> snd (memo_entry (n_package n) i first)
                           | None \<Rightarrow> first) ids m) pkg =
     or_else (map_of m pkg) (find (\<lambda>i. map_option n_package (get_node g i) = Some pkg) ids)"
proof (induction ids arbitrary: m)
  case Nil
  then show ?case by (simp add: or_else_def split: option.splits)
next
  case (Cons i ids)
  then show ?case
    by (auto simp: or_else_def memo_entry_def map_of_hm_insert split: option.splits)
qed

lemma map_of_first_by_package:
  "map_of (first_by_package g ids) pkg = find (\<lambda>i. map_option n_package (get_node g i) = Some pkg) ids"
  by (simp add: first_by_package_def map_of_memo_fold or_else_def)

lemma in_target_file_correct:
  assumes "memo_ok (\<lambda>i. case get_node g i of Some n \<Rightarrow> module_key clean (n_file n) | None \<Rightarrow> []) keys"
    and "in_target_file clean g target spec ids keys = (found, keys')"
  shows "found = filter (\<lambda>i. case get_node g i of None \<Rightarrow> False
             | Some n \<Rightarrow> module_key_matches (module_key clean (n_file n)) target
                         \<and> extension_compatible (n_file n) spec) ids
         \<and> memo_ok (\<lambda>i. case get_node g i of Some n \<Rightarrow> module_key clean (n_file n) | None \<Rightarrow> []) keys'"
  using assms
proof (induction ids arbitrary: keys found keys')
  case Nil
  then show ?case by simp
next
  case (Cons i ids)
  show ?case
  proof (cases "get_node g i")
    case None
    with Cons show ?thesis by simp
  next
    case (Some n)
    obtain key keys1 where e: "memo_entry i (module_key clean (n_file n)) keys = (key, keys1)"
      by (meson surj_pair)
    obtain rest keys2 where r: "in_target_file clean g target spec ids keys1 = (rest, keys2)"
      by (meson surj_pair)
    have "key = module_key clean (n_file n)"
      and ok: "memo_ok (\<lambda>i. case get_node g i of Some n \<Rightarrow> module_key clean (n_file n) | None \<Rightarrow> []) keys1"
      using memo_entry_correct[OF Cons.prems(1), of i key keys1] e Some by auto
    with Cons.IH[OF ok r] Cons.prems(2) Some e r show ?thesis by auto
  qed
qed

lemma resolve_qualified_correct:
  assumes ok: "import_memo_ok clean g memo"
    and res: "resolve_qualified g repo target memo = (found, memo')"
  shows "found = qualified_ref g repo target \<and> import_memo_ok clean g memo'"
proof (cases "split_fully_qualified target")
  case None
  with assms show ?thesis by (simp add: resolve_qualified_def qualified_ref_def)
next
  case (Some pn)
  obtain pkg name where pn: "pn = (pkg, name)" by (cases pn)
  show ?thesis
  proof (cases "map_of (g_name_to_nodes g) name")
    case None
    with Some pn assms show ?thesis
      by (simp add: resolve_qualified_def qualified_ref_def bucket_map_of or_else_def)
  next
    case (Some ids)
    obtain by_package table
      where e: "memo_entry name (first_by_package g ids) (im_first_by_package memo) = (by_package, table)"
      by (meson surj_pair)
    have "by_package = first_by_package g ids \<and>
          memo_ok (\<lambda>name. first_by_package g (bucket (g_name_to_nodes g) name)) table"
      using memo_entry_correct[of "\<lambda>name. first_by_package g (bucket (g_name_to_nodes g) name)"
          "im_first_by_package memo" name by_package table] ok e Some
      by (simp add: import_memo_ok_def bucket_map_of)
    with Some \<open>split_fully_qualified target = Some pn\<close> pn e res ok show ?thesis
      by (auto simp: resolve_qualified_def qualified_ref_def bucket_map_of or_else_def
            map_of_first_by_package import_memo_ok_def split: option.splits)
  qed
qed

lemma resolve_relative_correct:
  assumes ok: "import_memo_ok clean g memo"
    and res: "resolve_relative clean g repo dir target memo = (found, memo')"
  shows "found = relative_ref clean g repo dir target \<and> import_memo_ok clean g memo'"
proof -
  define stem where "stem = (case file_stem (path_of_str target) of Some s \<Rightarrow> s | None \<Rightarrow> target)"
  show ?thesis
  proof (cases "map_of (g_name_to_nodes g) stem")
    case None
    with assms show ?thesis
      by (simp add: resolve_relative_def relative_ref_def bucket_map_of Let_def flip: stem_def)
  next
    case (Some ids)
    obtain same_repo table where
      e: "memo_entry (stem, repo) (filter (in_repo g repo) ids) (im_same_repo_by_stem memo) = (same_repo, table)"
      by (meson surj_pair)
    have sr: "same_repo = filter (in_repo g repo) ids \<and>
          memo_ok (\<lambda>(stem, repo). filter (in_repo g repo) (bucket (g_name_to_nodes g) stem)) table"
      using memo_entry_correct[of "\<lambda>(stem, repo). filter (in_repo g repo) (bucket (g_name_to_nodes g) stem)"
          "im_same_repo_by_stem memo" "(stem, repo)" same_repo table] ok e Some
      by (simp add: import_memo_ok_def bucket_map_of)
    show ?thesis
    proof (cases dir)
      case None
      with sr e res ok Some show ?thesis
        by (auto simp: resolve_relative_def relative_ref_def bucket_map_of Let_def import_memo_ok_def
            simp flip: stem_def)
    next
      case (Some d)
      obtain hits keys where
        h: "in_target_file clean g (module_key clean (path_join d (path_of_str target))) target
              same_repo (im_node_keys memo) = (hits, keys)"
        by (meson surj_pair)
      note c = in_target_file_correct[OF _ h]
      from Some c sr e h res ok \<open>map_of (g_name_to_nodes g) stem = Some ids\<close> show ?thesis
        by (auto simp: resolve_relative_def relative_ref_def bucket_map_of Let_def import_memo_ok_def
            conj_commute simp flip: stem_def intro!: filter_cong)
    qed
  qed
qed

lemma resolve_unqualified_correct:
  assumes ok: "import_memo_ok clean g memo" and wf: "hm_wf (g_name_to_nodes g)"
    and res: "resolve_unqualified clean g repo dir target memo = (found, memo')"
  shows "found = unqualified_ref clean g repo dir target \<and> import_memo_ok clean g memo'"
proof -
  obtain cands memo1 where r: "resolve_relative clean g repo dir target memo = (cands, memo1)"
    by (meson surj_pair)
  have ne: "map_of (g_name_to_nodes g) target = Some ids \<Longrightarrow> ids \<noteq> []" for ids
    using wf by (force simp: hm_wf_def dest: map_of_SomeD)
  from resolve_relative_correct[OF ok r] r ok res ne show ?thesis
    by (auto simp: resolve_unqualified_def unqualified_ref_def unqualified_candidates_def bucket_map_of Let_def
        split: option.splits if_splits)
qed

lemma resolve_import_correct:
  assumes ok: "import_memo_ok clean g memo" and wf: "hm_wf (g_name_to_nodes g)"
    and res: "resolve_import_targets clean g repo dir target memo = (found, memo')"
  shows "found = resolve_import_ref clean g repo dir target \<and> import_memo_ok clean g memo'"
proof -
  obtain q memo1 where q: "resolve_qualified g repo target memo = (q, memo1)"
    by (meson surj_pair)
  note Q = resolve_qualified_correct[OF ok q]
  show ?thesis
    using Q q res resolve_unqualified_correct[OF ok wf] resolve_unqualified_correct[OF conjunct2[OF Q] wf]
    by (auto simp: resolve_import_targets_def resolve_import_ref_def split: if_splits option.splits)
qed

lemma import_memo_ok_empty: "import_memo_ok clean g empty_memo"
  by (simp add: import_memo_ok_def empty_memo_def)

section \<open>What a resolution returns\<close>

lemma pick_or_ambiguous_cases:
  "pick_or_ambiguous g ids repo c =
     (let same = filter (in_repo g repo) ids in
      if length ids = 1 then [(hd ids, c)]
      else if length same = 1 then [(hd same, c)]
      else map (\<lambda>i. (i, Ambiguous)) (if same = [] then ids else same))"
  by (auto simp: pick_or_ambiguous_def Let_def length_Suc_conv split: list.splits)

lemma pick_ids_subset: "fst ` set (pick_or_ambiguous g ids repo c) \<subseteq> set ids"
proof -
  have "hd xs \<in> set xs" if "length xs = 1" for xs :: "nat list"
    using that by (cases xs) auto
  then show ?thesis
    by (auto simp: pick_or_ambiguous_cases Let_def dest: subsetD[OF filter_is_subset] split: if_splits)
qed

lemma pick_same_repo:
  "\<forall>i \<in> set ids. in_repo g repo i \<Longrightarrow> p \<in> set (pick_or_ambiguous g ids repo c) \<Longrightarrow> in_repo g repo (fst p)"
  using pick_ids_subset[of g ids repo c] by auto

lemma pick_unique_or_ambiguous:
  "(\<exists>i. pick_or_ambiguous g ids repo c = [(i, c)]) \<or> (\<forall>p \<in> set (pick_or_ambiguous g ids repo c). snd p = Ambiguous)"
  by (auto simp: pick_or_ambiguous_cases Let_def)

lemma pick_not_exact: "p \<in> set (pick_or_ambiguous g ids repo Heuristic) \<Longrightarrow> snd p \<noteq> Exact"
  by (auto simp: pick_or_ambiguous_cases Let_def split: if_splits)

lemma unqualified_candidates_indexed:
  "i \<in> set (unqualified_candidates clean g repo dir target) \<Longrightarrow>
     \<exists>k. i \<in> set (bucket (g_name_to_nodes g) k) \<or> i \<in> set (bucket (g_package_to_nodes g) k)"
  by (auto simp: unqualified_candidates_def relative_ref_def Let_def split: if_splits)

lemma index_exact_live:
  assumes "nodes_wf g" and "index_exact keys (g_nodes g) m" and "i \<in> set (bucket m k)"
  shows "\<exists>n. get_node g i = Some n \<and> k \<in> set (keys n)"
proof -
  from index_exact_bucket[OF assms(2), of k] assms(3)
  obtain n j where "i = n_id n" "(j, n) \<in> set (g_nodes g)" "k \<in> set (keys n)" by auto
  moreover have "j = n_id n" using assms(1) calculation(2) by (auto simp: nodes_wf_def)
  ultimately show ?thesis using get_node_Some_iff[OF assms(1)] by auto
qed

lemma qualified_exact_match:
  assumes wf: "wf_graph g" and q: "qualified_ref g repo target = Some found" and p: "(i, c) \<in> set found"
  shows "\<exists>n pkg name. get_node g i = Some n \<and> split_fully_qualified target = Some (pkg, name) \<and>
           (n_package n = pkg \<and> name \<in> set (name_keys n) \<or> fqcn_of n = pkg @ ''/'' @ name)"
proof -
  obtain pkg name where s: "split_fully_qualified target = Some (pkg, name)"
    using q by (auto simp: qualified_ref_def bind_eq_Some_conv)
  consider (name) "find (\<lambda>i. map_option n_package (get_node g i) = Some pkg)
                     (bucket (g_name_to_nodes g) name) = Some i"
    | (fqcn) ids where "map_of (g_fqcn_to_node g) (pkg @ ''/'' @ name) = Some ids"
        and "found = pick_or_ambiguous g ids repo Exact"
    using q s p by (auto simp: qualified_ref_def or_else_def split: option.splits)
  then show ?thesis
  proof cases
    case name
    then have i: "i \<in> set (bucket (g_name_to_nodes g) name)" "map_option n_package (get_node g i) = Some pkg"
      by (auto simp: find_Some_iff)
    with index_exact_live[of g name_keys "g_name_to_nodes g" i name] wf s show ?thesis
      by (auto simp: wf_graph_def indices_wf_def)
  next
    case fqcn
    with p pick_ids_subset[of g ids repo Exact] have "i \<in> set (bucket (g_fqcn_to_node g) (pkg @ ''/'' @ name))"
      by (force simp: bucket_map_of)
    with index_exact_live[of g fqcn_keys "g_fqcn_to_node g" i "pkg @ ''/'' @ name"] wf s show ?thesis
      by (auto simp: wf_graph_def indices_wf_def fqcn_keys_def split: if_splits)
  qed
qed

lemma qualified_unique_or_ambiguous:
  "qualified_ref g repo target = Some found \<Longrightarrow> (\<exists>p. found = [p]) \<or> (\<forall>p \<in> set found. snd p = Ambiguous)"
  using pick_unique_or_ambiguous
  by (fastforce simp: qualified_ref_def or_else_def bind_eq_Some_conv split: option.splits)

lemma unqualified_live:
  assumes wf: "wf_graph g" and p: "(i, c) \<in> set (unqualified_ref clean g repo dir target)"
  shows "i \<in> node_ids g \<and> c \<noteq> Exact"
proof -
  define ids where "ids = unqualified_candidates clean g repo dir target"
  have p': "(i, c) \<in> set (pick_or_ambiguous g ids repo Heuristic)"
    using p by (simp add: ids_def unqualified_ref_def)
  with pick_ids_subset[of g ids repo Heuristic] have "i \<in> set ids" by force
  then have "get_node g i \<noteq> None"
    using unqualified_candidates_indexed[of i clean g repo dir target] wf
      index_exact_live[of g name_keys "g_name_to_nodes g" i]
      index_exact_live[of g package_keys "g_package_to_nodes g" i]
    by (auto simp: wf_graph_def indices_wf_def ids_def)
  with pick_not_exact[OF p'] show ?thesis by (simp add: get_node_None_iff)
qed

lemma resolve_ref_live:
  assumes "wf_graph g" and "(i, c) \<in> set (resolve_import_ref clean g repo dir target)"
  shows "i \<in> node_ids g"
  using assms unqualified_live[OF assms(1)] qualified_exact_match[OF assms(1)] get_node_None_iff[of g i]
  by (fastforce simp: resolve_import_ref_def split: option.splits if_splits)

text \<open>
  An import resolves to live nodes only, to exactly one node or to several all tagged
  ambiguous, and a link tagged exact is to a node whose package and name (or qualified name)
  are those the import spells.
\<close>

theorem resolve_import_sound:
  assumes "wf_graph g" and "import_memo_ok clean g memo"
    and "resolve_import_targets clean g repo dir target memo = (found, memo')"
  shows "fst ` set found \<subseteq> node_ids g
    \<and> ((\<exists>p. found = [p]) \<or> (\<forall>p \<in> set found. snd p = Ambiguous))
    \<and> (\<forall>i. (i, Exact) \<in> set found \<longrightarrow>
         (\<exists>n pkg name. get_node g i = Some n \<and> split_fully_qualified target = Some (pkg, name) \<and>
            (n_package n = pkg \<and> name \<in> set (name_keys n) \<or> fqcn_of n = pkg @ ''/'' @ name)))"
proof -
  have found: "found = resolve_import_ref clean g repo dir target"
    using resolve_import_correct[OF assms(2) _ assms(3)] assms(1)
    by (simp add: wf_graph_def indices_wf_def index_exact_def)
  have "(\<exists>p. found = [p]) \<or> (\<forall>p \<in> set found. snd p = Ambiguous)"
    using qualified_unique_or_ambiguous[of g repo target]
      pick_unique_or_ambiguous[of g "unqualified_candidates clean g repo dir target" repo Heuristic]
    by (auto simp: found resolve_import_ref_def unqualified_ref_def split: option.split)
  moreover have "\<exists>n pkg name. get_node g i = Some n \<and> split_fully_qualified target = Some (pkg, name) \<and>
            (n_package n = pkg \<and> name \<in> set (name_keys n) \<or> fqcn_of n = pkg @ ''/'' @ name)"
    if "(i, Exact) \<in> set found" for i
    using that qualified_exact_match[OF assms(1), of repo target]
      unqualified_live[OF assms(1), of i Exact clean repo dir target]
    by (auto simp: found resolve_import_ref_def split: option.splits if_splits)
  ultimately show ?thesis using resolve_ref_live[OF assms(1)] found by force
qed

definition two_services :: contract_graph where
  "two_services =
     fold (\<lambda>n g. fst (add_node n g))
       [demo_node\<lparr>n_name := ''Invoice'', n_package := ''com.acme.billing'', n_repo := 0, n_kind := ServiceClass\<rparr>,
        demo_node\<lparr>n_name := ''Invoice'', n_package := ''com.acme.sales'', n_repo := 1, n_kind := ServiceClass\<rparr>,
        demo_node\<lparr>n_name := ''path'', n_package := ''util'', n_repo := 1, n_kind := ServiceClass\<rparr>] empty_graph"

lemma wf_two_services: "wf_graph two_services"
  by (simp add: two_services_def wf_add_node wf_empty_graph)

theorem resolve_import_sound_witness:
  "wf_graph two_services \<and> import_memo_ok id two_services empty_memo
   \<and> fst (resolve_import_targets id two_services (Some 0) None ''com.acme.sales.Invoice'' empty_memo) = [(1, Exact)]
   \<and> (\<exists>n pkg name. get_node two_services 1 = Some n \<and>
        split_fully_qualified ''com.acme.sales.Invoice'' = Some (pkg, name) \<and>
        (n_package n = pkg \<and> name \<in> set (name_keys n) \<or> fqcn_of n = pkg @ ''/'' @ name))"
proof -
  have r: "fst (resolve_import_targets id two_services (Some 0) None ''com.acme.sales.Invoice'' empty_memo) = [(1, Exact)]"
    by code_simp
  then obtain memo' where
    "resolve_import_targets id two_services (Some 0) None ''com.acme.sales.Invoice'' empty_memo = ([(1, Exact)], memo')"
    by (metis prod.collapse)
  from resolve_import_sound[OF wf_two_services import_memo_ok_empty this]
  have "\<exists>n pkg name. get_node two_services 1 = Some n \<and>
        split_fully_qualified ''com.acme.sales.Invoice'' = Some (pkg, name) \<and>
        (n_package n = pkg \<and> name \<in> set (name_keys n) \<or> fqcn_of n = pkg @ ''/'' @ name)"
    by (metis list.set_intros(1))
  with r show ?thesis using wf_two_services import_memo_ok_empty by (intro conjI)
qed

lemma relative_ref_in_repo: "i \<in> set (relative_ref clean g repo dir target) \<Longrightarrow> in_repo g repo i"
  by (auto simp: relative_ref_def Let_def)

lemma split_fq_None:
  assumes "CHR ''.'' \<notin> set t" and "\<not> str_contains t ''::''"
  shows "split_fully_qualified t = None"
proof -
  have "rfind_str ''::'' t = None"
    using assms(2) by (simp add: rfind_str_None)
  moreover have "rsplit_once CHR ''.'' t = None"
    using assms(1) by (cases "rsplit_once CHR ''.'' t") (auto simp: rsplit_once_Some)
  ultimately show ?thesis by (simp add: split_fully_qualified_def)
qed

text \<open>
  The import of a Node.js built-in module by its plain name, and a relative or absolute import
  that is not itself the name of a symbol, never link to another repository, and never with exact
  confidence.
\<close>

theorem local_import_stays_in_repo:
  assumes "wf_graph g" and "import_memo_ok clean g memo"
    and "resolve_import_targets clean g repo dir target memo = (found, memo')"
    and "is_node_builtin_module target \<and> CHR ''.'' \<notin> set target \<and> \<not> str_contains target ''::''
         \<or> is_path_target target \<and> bucket (g_name_to_nodes g) target = []"
  shows "\<forall>p \<in> set found. in_repo g repo (fst p) \<and> snd p \<noteq> Exact"
proof -
  have found: "found = resolve_import_ref clean g repo dir target"
    using resolve_import_correct[OF assms(2) _ assms(3)] assms(1)
    by (simp add: wf_graph_def indices_wf_def index_exact_def)
  have "found = unqualified_ref clean g repo dir target"
    using assms(4) split_fq_None[of target]
    by (auto simp: found resolve_import_ref_def qualified_ref_def split: if_splits)
  moreover have "\<forall>i \<in> set (unqualified_candidates clean g repo dir target). in_repo g repo i"
    using assms(4) relative_ref_in_repo by (auto simp: unqualified_candidates_def)
  ultimately show ?thesis
    using pick_same_repo pick_not_exact by (metis unqualified_ref_def)
qed

theorem local_import_stays_in_repo_witness:
  "is_node_builtin_module ''path'' \<and> bucket (g_name_to_nodes two_services) ''path'' = [2]
   \<and> fst (resolve_import_targets id two_services (Some 1) None ''path'' empty_memo) = [(2, Heuristic)]
   \<and> list_all (\<lambda>p. in_repo two_services (Some 0) (fst p) \<and> snd p \<noteq> Exact)
       (fst (resolve_import_targets id two_services (Some 0) None ''path'' empty_memo))"
proof -
  have b: "is_node_builtin_module ''path'' \<and> CHR ''.'' \<notin> set ''path'' \<and> \<not> str_contains ''path'' ''::''"
    by code_simp
  have e: "bucket (g_name_to_nodes two_services) ''path'' = [2]"
    "fst (resolve_import_targets id two_services (Some 1) None ''path'' empty_memo) = [(2, Heuristic)]"
    by code_simp+
  show ?thesis
    unfolding list_all_iff
    using local_import_stays_in_repo[OF wf_two_services import_memo_ok_empty prod.collapse[symmetric] disjI1[OF b],
        where repo = "Some 0" and dir = None and clean = id] e
    by (intro conjI conjunct1[OF b])
qed
end
