(* ===== verification/Graph_Rpc.thy ===== *)
theory Graph_Rpc
  imports Graph_Imports
begin

text \<open>
  Resolution of gRPC names (\<^verbatim>\<open>crates/mesh-core/src/contracts.rs\<close>): the declared methods and services a
  recorded call may mean (\<^verbatim>\<open>PackageBucket\<close>, \<^verbatim>\<open>resolve_rpc_target\<close>), the stock health service that is
  never a dependency, the handler references recorded from decorators and the RPC each of them
  serves, and calls made through a field of a base class.
\<close>

section \<open>Candidates grouped by package\<close>

record package_bucket =
  pb_ids :: "node_id list"
  pb_by_package :: "(string, node_id list) hmap"

definition bucket_pick :: "package_bucket \<Rightarrow> string \<Rightarrow> edge_confidence \<Rightarrow> (node_id \<times> edge_confidence) list" where
  "bucket_pick pb caller_package confidence_if_unique =
     (case pb_ids pb of
        [only] \<Rightarrow> [(only, confidence_if_unique)]
      | _ \<Rightarrow>
         (case bucket (pb_by_package pb) caller_package of
            [only] \<Rightarrow> [(only, confidence_if_unique)]
          | [] \<Rightarrow> map (\<lambda>i. (i, Ambiguous)) (pb_ids pb)
          | same_package \<Rightarrow> map (\<lambda>i. (i, Ambiguous)) same_package))"

definition package_entries :: "contract_graph \<Rightarrow> node_id list \<Rightarrow> (string \<times> node_id) list" where
  "package_entries g ids =
     List.map_filter (\<lambda>i. map_option (\<lambda>n. (n_package n, i)) (get_node g i)) ids"

definition package_bucket_of :: "contract_graph \<Rightarrow> node_id list \<Rightarrow> package_bucket" where
  "package_bucket_of g ids =
     \<lparr>pb_ids = ids,
      pb_by_package =
        (if length ids > 1 then fold (\<lambda>(k, i). hm_push k i) (package_entries g ids) [] else [])\<rparr>"

definition group_by_package ::
  "contract_graph \<Rightarrow> (string, node_id list) hmap \<Rightarrow> (string, package_bucket) hmap" where
  "group_by_package g buckets = map (\<lambda>(key, ids). (key, package_bucket_of g ids)) buckets"

section \<open>Call targets\<close>

definition is_proto_file :: "path \<Rightarrow> bool" where
  "is_proto_file p \<longleftrightarrow> extension p = Some ''proto''"

definition resolve_rpc_target ::
  "string \<Rightarrow> string option \<Rightarrow> (string, package_bucket) hmap \<Rightarrow> (string, package_bucket) hmap
   \<Rightarrow> (node_id \<times> edge_confidence) list" where
  "resolve_rpc_target target caller_package proto_by_fqcn proto_by_bare =
     (case map_of proto_by_fqcn (to_lowercase target) of
        Some candidates \<Rightarrow>
          (case caller_package of
             Some pkg \<Rightarrow> bucket_pick candidates pkg Exact
           | None \<Rightarrow> map (\<lambda>i. (i, Exact)) (pb_ids candidates))
      | None \<Rightarrow>
          (case map_of proto_by_bare (to_lowercase (last_segment CHR ''.'' target)) of
             Some candidates \<Rightarrow>
               (case caller_package of
                  Some pkg \<Rightarrow> bucket_pick candidates pkg Heuristic
                | None \<Rightarrow> map (\<lambda>i. (i, Ambiguous)) (pb_ids candidates))
           | None \<Rightarrow> []))"

definition HEALTH :: string where
  "HEALTH = ''grpc.health.v1.health''"

definition is_grpc_health_fqcn :: "string \<Rightarrow> bool" where
  "is_grpc_health_fqcn target \<longleftrightarrow>
     length target \<ge> length HEALTH
     \<and> eq_ignore_ascii_case (take (length HEALTH) target) HEALTH
     \<and> (length target = length HEALTH \<or> target ! length HEALTH = CHR ''.'')"

definition service_segment :: "contract_node \<Rightarrow> string option" where
  "service_segment n =
     (case n_kind n of
        GrpcService \<Rightarrow> Some (last_segment CHR ''.'' (n_name n))
      | GrpcMethod \<Rightarrow>
          (case rev (split CHR ''.'' (n_name n)) of _ # s # _ \<Rightarrow> Some s | _ \<Rightarrow> None)
      | _ \<Rightarrow> None)"

definition is_grpc_health_service :: "contract_node \<Rightarrow> bool" where
  "is_grpc_health_service n \<longleftrightarrow>
     (case service_segment n of Some s \<Rightarrow> eq_ignore_ascii_case s ''health'' | None \<Rightarrow> False)
     \<and> (n_package n = ''grpc.health.v1'' \<or> \<not> is_proto_file (n_file n))"

section \<open>Handler references\<close>

record handler_ref =
  hr_service :: string
  hr_method :: string
  hr_method_written :: bool

definition parse_handler_ref :: "string \<Rightarrow> handler_ref option" where
  "parse_handler_ref reference =
     Option.bind (split_once CHR ''|'' reference) (\<lambda>(service, rest).
       (case split CHR ''|'' rest of
          [] \<Rightarrow> None
        | method # parts \<Rightarrow>
            Some \<lparr>hr_service = service, hr_method = method,
                  hr_method_written = (case parts of p # _ \<Rightarrow> p \<noteq> [CHR 0x7E] | [] \<Rightarrow> True)\<rparr>))"

definition declared_as :: "string \<Rightarrow> string option" where
  "declared_as reference =
     Option.bind (parse_handler_ref reference) (\<lambda>r.
     Option.bind (if hr_service r = [] then (if hr_method_written r then Some (hr_method r) else None)
                  else if hr_method_written r then Some (hr_service r @ '', '' @ hr_method r)
                  else Some (hr_service r)) (\<lambda>text.
       if text = [] then None
       else if length text > 120 then Some (take 120 text @ ''...'')
       else Some text))"

text \<open>A quoted literal, or the one string the constant \<open>expr\<close> stands for.\<close>

definition is_quoted :: "string \<Rightarrow> bool" where
  "is_quoted expr \<longleftrightarrow>
     length expr \<ge> 2 \<and> (\<exists>q \<in> set [[CHR 0x27], [CHR 0x22], [CHR 0x60]]. starts_with expr q \<and> ends_with expr q)"

definition const_values :: "repo_id \<Rightarrow> (repo_id \<times> string) list \<Rightarrow> string list" where
  "const_values repo candidates =
     (let same_repo = map snd (filter (\<lambda>(r, _). r = repo) candidates) in
      remdups (if same_repo = [] then map snd candidates else same_repo))"

definition resolve_literal_expr ::
  "string \<Rightarrow> repo_id \<Rightarrow> (string, (repo_id \<times> string) list) hmap \<Rightarrow> string option" where
  "resolve_literal_expr expr0 repo consts =
     (let expr = trim expr0 in
      if is_quoted expr then
        (let l = butlast (tl expr) in if l = [] then None else Some l)
      else Option.bind (map_of consts expr) (\<lambda>candidates.
             case const_values repo candidates of [only] \<Rightarrow> Some only | _ \<Rightarrow> None))"

definition const_records :: "contract_graph \<Rightarrow> (string, (repo_id \<times> string) list) hmap" where
  "const_records g =
     fold (\<lambda>(i, recorded) consts.
             case strip_prefix [CONST_VALUE_PREFIX] recorded of
               Some c \<Rightarrow>
                 (case (get_node g i, split_once CHR ''='' c) of
                    (Some node, Some (key, val)) \<Rightarrow> hm_push key (n_repo node, val) consts
                  | _ \<Rightarrow> consts)
             | None \<Rightarrow> consts) (g_rpc_calls g) []"

definition handler_refs :: "contract_graph \<Rightarrow> (node_id \<times> string) list" where
  "handler_refs g =
     List.map_filter (\<lambda>(i, recorded).
       case strip_prefix [CONST_VALUE_PREFIX] recorded of
         Some _ \<Rightarrow> None
       | None \<Rightarrow> map_option (\<lambda>r. (i, r)) (strip_prefix [HANDLER_REF_PREFIX] recorded)) (g_rpc_calls g)"

definition qualify_service :: "string \<Rightarrow> string option \<times> string" where
  "qualify_service service =
     (case rsplit_once CHR ''.'' service of Some (q, s) \<Rightarrow> (Some q, s) | None \<Rightarrow> (None, service))"

definition declared_count ::
  "contract_graph \<Rightarrow> (string, node_id list) hmap \<Rightarrow> string option \<Rightarrow> string \<Rightarrow> nat" where
  "declared_count g by_name qualifier name =
     length (filter (\<lambda>pid. case qualifier of
                             None \<Rightarrow> True
                           | Some q \<Rightarrow> (case get_node g pid of Some p \<Rightarrow> n_package p = q | None \<Rightarrow> False))
              (bucket by_name name))"

text \<open>The proto RPC one reference names, when there is exactly one.\<close>

definition resolve_handler_ref ::
  "contract_graph \<Rightarrow> (string, (repo_id \<times> string) list) hmap \<Rightarrow> (string, node_id list) hmap
   \<Rightarrow> node_id \<Rightarrow> string \<Rightarrow> string option" where
  "resolve_handler_ref g consts by_name i recorded =
     Option.bind (get_node g i) (\<lambda>node.
     Option.bind (parse_handler_ref recorded) (\<lambda>parsed.
     Option.bind (resolve_literal_expr (hr_service parsed) (n_repo node) consts) (\<lambda>service0.
     Option.bind (resolve_literal_expr (hr_method parsed) (n_repo node) consts) (\<lambda>method.
       (let (qualifier, service) = qualify_service service0;
            name = service @ ''.'' @ method in
        if declared_count g by_name qualifier name \<noteq> 1 then None else Some name)))))"

definition resolve_handler_rpc_names ::
  "contract_graph \<Rightarrow> (node_id \<times> string) list \<Rightarrow> (node_id, string) hmap" where
  "resolve_handler_rpc_names g proto_methods =
     (let consts = const_records g; refs = handler_refs g;
          by_name = fold (\<lambda>(pid, n). hm_push n pid) proto_methods [] in
      if refs = [] then []
      else fold (\<lambda>(i, recorded) out.
                   case resolve_handler_ref g consts by_name i recorded of
                     Some name \<Rightarrow> hm_insert i name out
                   | None \<Rightarrow> out) refs [])"

definition unquote :: "string \<Rightarrow> string" where
  "unquote part = trim_matches (\<lambda>c. c \<in> set [CHR 0x27, CHR 0x22, CHR 0x60, CHR 0x3F]) part"

definition served_by_ref :: "handler_ref \<Rightarrow> string option \<times> string" where
  "served_by_ref parsed =
     ((case hr_service parsed of
         c # _ \<Rightarrow>
           if c \<in> set [CHR 0x27, CHR 0x22, CHR 0x60] \<and> unquote (hr_service parsed) \<noteq> []
           then Some (last_segment CHR ''.'' (unquote (hr_service parsed))) else None
       | [] \<Rightarrow> None),
      last_segment CHR ''.'' (unquote (hr_method parsed)))"

definition handler_served_methods :: "contract_graph \<Rightarrow> (node_id, string option \<times> string) hmap" where
  "handler_served_methods g =
     fold (\<lambda>(i, recorded) out.
             case strip_prefix [HANDLER_REF_PREFIX] recorded of
               None \<Rightarrow> out
             | Some reference \<Rightarrow>
                 (case (case map_of (g_handler_rpc_names g) i of
                          Some rpc \<Rightarrow> map_option (\<lambda>(s, m). (Some s, m)) (rsplit_once CHR ''.'' rpc)
                        | None \<Rightarrow> map_option served_by_ref (parse_handler_ref reference)) of
                    Some (service, method) \<Rightarrow> hm_insert i (service, fold_rpc_name method) out
                  | None \<Rightarrow> out)) (g_rpc_calls g) []"

section \<open>Calls through an inherited field\<close>

definition class_fields :: "contract_graph \<Rightarrow> (string \<times> string, (repo_id \<times> string) list) hmap" where
  "class_fields g =
     fold (\<lambda>(i, recorded) out.
             case strip_prefix [CLIENT_FIELD_BINDING_PREFIX] recorded of
               None \<Rightarrow> out
             | Some binding \<Rightarrow>
                 (case (get_node g i, split_once CHR ''='' binding) of
                    (Some cls, Some (field, service)) \<Rightarrow>
                      hm_push (n_name cls, field) (n_repo cls, service) out
                  | _ \<Rightarrow> out)) (g_rpc_calls g) []"

definition bound_services :: "repo_id option \<Rightarrow> (repo_id \<times> string) list \<Rightarrow> string list" where
  "bound_services caller_repo bindings =
     (let same_repo = remdups (map snd (filter (\<lambda>(repo, _). Some repo = caller_repo) bindings)) in
      if same_repo = [] then remdups (map snd bindings) else same_repo)"

definition resolve_inherited_call ::
  "string \<Rightarrow> repo_id option \<Rightarrow> (string \<times> string, (repo_id \<times> string) list) hmap \<Rightarrow> (string \<times> bool) option" where
  "resolve_inherited_call recorded caller_repo bound =
     Option.bind (split_once CHR ''#'' recorded) (\<lambda>(base, rest).
     Option.bind (split_once CHR ''.'' rest) (\<lambda>(field, method).
       let guess = map_option (\<lambda>service. (service @ ''.'' @ method, True)) (service_from_client_field_name field) in
       case map_of bound (base, field) of
         None \<Rightarrow> guess
       | Some bindings \<Rightarrow>
           (let services = bound_services caller_repo bindings;
                real = filter (\<lambda>s. s \<noteq> []) services in
            if real = [] \<and> services \<noteq> [] then None
            else case real of [service] \<Rightarrow> Some (service @ ''.'' @ method, False) | _ \<Rightarrow> guess)))"

section \<open>Grouping changes no answer\<close>

text \<open>The per-call scan the grouping replaces.\<close>

definition pick_by_package ::
  "contract_graph \<Rightarrow> node_id list \<Rightarrow> string \<Rightarrow> edge_confidence \<Rightarrow> (node_id \<times> edge_confidence) list" where
  "pick_by_package g ids pkg c =
     (let same = filter (\<lambda>i. map_option n_package (get_node g i) = Some pkg) ids in
      if length ids = 1 then [(hd ids, c)]
      else if length same = 1 then [(hd same, c)]
      else map (\<lambda>i. (i, Ambiguous)) (if same = [] then ids else same))"

lemma package_entries_filter:
  "map snd (filter (\<lambda>e. fst e = pkg) (package_entries g ids)) =
     filter (\<lambda>i. map_option n_package (get_node g i) = Some pkg) ids"
  by (induction ids) (auto simp: package_entries_def map_filter_simps split: option.splits)

lemma bucket_package_entries:
  "bucket (fold (\<lambda>(k, i). hm_push k i) (package_entries g ids) []) pkg =
     filter (\<lambda>i. map_option n_package (get_node g i) = Some pkg) ids"
  by (simp add: hm.get_push_all package_entries_filter)

lemma bucket_pick_scan: "bucket_pick (package_bucket_of g ids) pkg c = pick_by_package g ids pkg c"
  by (auto simp: bucket_pick_def package_bucket_of_def pick_by_package_def bucket_package_entries Let_def
      length_Suc_conv split: list.splits)

lemma map_of_group_by_package:
  "map_of (group_by_package g m) k = map_option (package_bucket_of g) (map_of m k)"
  by (simp add: group_by_package_def map_of_map)

text \<open>
  Resolving a call target against candidates grouped by package once gives, for every caller,
  the answer of filtering the whole candidate list by the caller's package at every call.
\<close>

theorem grouped_resolution_is_scan:
  "resolve_rpc_target target (Some pkg) (group_by_package g fq) (group_by_package g bare) =
     (case map_of fq (to_lowercase target) of
        Some ids \<Rightarrow> pick_by_package g ids pkg Exact
      | None \<Rightarrow>
          (case map_of bare (to_lowercase (last_segment CHR ''.'' target)) of
             Some ids \<Rightarrow> pick_by_package g ids pkg Heuristic
           | None \<Rightarrow> []))"
  by (simp add: resolve_rpc_target_def map_of_group_by_package bucket_pick_scan split: option.split)

lemma pick_by_package_subset: "fst ` set (pick_by_package g ids pkg c) \<subseteq> set ids"
proof -
  have "hd xs \<in> set xs" if "length xs = 1" for xs :: "nat list"
    using that by (cases xs) auto
  then show ?thesis
    by (auto simp: pick_by_package_def Let_def dest: subsetD[OF filter_is_subset] split: if_splits)
qed

lemma group_pick_subset:
  "map_of (group_by_package g m) k = Some pb \<Longrightarrow> fst ` set (bucket_pick pb pkg c) \<subseteq> set (bucket m k)"
  using pick_by_package_subset by (fastforce simp: map_of_group_by_package bucket_pick_scan bucket_map_of)

lemma group_ids: "map_of (group_by_package g m) k = Some pb \<Longrightarrow> pb_ids pb = bucket m k"
  by (auto simp: map_of_group_by_package package_bucket_of_def bucket_map_of)

section \<open>Handler references resolve to declared RPCs\<close>

lemma map_of_insert_all:
  "map_of (fold (\<lambda>(i, r) out. case f i r of Some v \<Rightarrow> hm_insert i v out | None \<Rightarrow> out) rs m) k = Some v \<Longrightarrow>
     map_of m k = Some v \<or> (\<exists>r. (k, r) \<in> set rs \<and> f k r = Some v)"
proof (induction rs arbitrary: m)
  case Nil
  then show ?case by simp
next
  case (Cons p rs)
  obtain i r where p: "p = (i, r)" by (cases p)
  from Cons.IH[of "case f i r of Some v \<Rightarrow> hm_insert i v m | None \<Rightarrow> m"] Cons.prems p
  show ?case by (auto simp: map_of_hm_insert split: option.splits if_splits)
qed

lemma handler_refs_recorded: "(i, r) \<in> set (handler_refs g) \<Longrightarrow> (i, HANDLER_REF_PREFIX # r) \<in> set (g_rpc_calls g)"
  by (auto simp: handler_refs_def List.map_filter_def strip_prefix_Some split: option.splits)

text \<open>What a reference must satisfy for a handler to take the name of an RPC.\<close>

definition ref_names_rpc ::
  "contract_graph \<Rightarrow> node_id \<Rightarrow> string \<Rightarrow> string option \<Rightarrow> string \<Rightarrow> bool" where
  "ref_names_rpc g i r qualifier name \<longleftrightarrow>
     (\<exists>node parsed service method s.
        get_node g i = Some node \<and> parse_handler_ref r = Some parsed
        \<and> resolve_literal_expr (hr_service parsed) (n_repo node) (const_records g) = Some service
        \<and> resolve_literal_expr (hr_method parsed) (n_repo node) (const_records g) = Some method
        \<and> qualify_service service = (qualifier, s) \<and> name = s @ ''.'' @ method)"

lemma resolve_handler_ref_Some:
  assumes "resolve_handler_ref g (const_records g) by_name i r = Some name"
  shows "\<exists>qualifier. ref_names_rpc g i r qualifier name \<and> declared_count g by_name qualifier name = 1"
proof -
  from assms obtain node parsed service meth where s:
    "get_node g i = Some node" "parse_handler_ref r = Some parsed"
    "resolve_literal_expr (hr_service parsed) (n_repo node) (const_records g) = Some service"
    "resolve_literal_expr (hr_method parsed) (n_repo node) (const_records g) = Some meth"
    by (auto simp: resolve_handler_ref_def bind_eq_Some_conv)
  obtain q t where "qualify_service service = (q, t)" by (meson surj_pair)
  with assms s show ?thesis
    by (auto simp: resolve_handler_ref_def ref_names_rpc_def Let_def split: if_splits)
qed

text \<open>
  A handler is given the name of a proto RPC only if a decorator recorded for it spells that
  name (its service and method arguments reduced to literals) and exactly one proto declaration
  carries it, in the package the decorator names if it names one.
\<close>

theorem handler_rpc_name_declared_once:
  assumes "map_of (resolve_handler_rpc_names g proto_methods) i = Some name"
  shows "\<exists>r qualifier pid. (i, HANDLER_REF_PREFIX # r) \<in> set (g_rpc_calls g)
    \<and> ref_names_rpc g i r qualifier name
    \<and> filter (\<lambda>(pid, n). n = name \<and> (case qualifier of None \<Rightarrow> True
           | Some q \<Rightarrow> map_option n_package (get_node g pid) = Some q)) proto_methods = [(pid, name)]"
proof -
  define by_name where "by_name = fold (\<lambda>(n, pid). hm_push n pid) (map (\<lambda>(pid, n). (n, pid)) proto_methods) []"
  have bn: "by_name = fold (\<lambda>(pid, n). hm_push n pid) proto_methods []"
    by (simp add: by_name_def fold_map o_def case_prod_unfold)
  from assms obtain r where r: "(i, r) \<in> set (handler_refs g)"
    "resolve_handler_ref g (const_records g) by_name i r = Some name"
    by (auto simp: resolve_handler_rpc_names_def Let_def bn split: if_splits dest!: map_of_insert_all)
  then obtain qualifier where names: "ref_names_rpc g i r qualifier name"
    and one: "declared_count g by_name qualifier name = 1"
    using resolve_handler_ref_Some by blast
  let ?P = "\<lambda>pid. case qualifier of None \<Rightarrow> True | Some q \<Rightarrow> map_option n_package (get_node g pid) = Some q"
  have P: "(case qualifier of None \<Rightarrow> True
       | Some q \<Rightarrow> (case get_node g pid of Some p \<Rightarrow> n_package p = q | None \<Rightarrow> False)) = ?P pid" for pid
    by (auto split: option.splits)
  have b: "bucket by_name name = map fst (filter (\<lambda>(pid, n). n = name) proto_methods)"
    unfolding by_name_def hm.get_push_all by (simp add: filter_map o_def case_prod_unfold)
  have "length (filter (\<lambda>(pid, n). n = name \<and> ?P pid) proto_methods) = 1"
    using one by (simp add: declared_count_def b P filter_map o_def case_prod_unfold conj_commute)
  then obtain pid n where q: "filter (\<lambda>(pid, n). n = name \<and> ?P pid) proto_methods = [(pid, n)]"
    by (auto simp: length_Suc_conv)
  have "(pid, n) \<in> set (filter (\<lambda>(pid, n). n = name \<and> ?P pid) proto_methods)" by (simp add: q)
  then have "n = name" by simp
  then show ?thesis using handler_refs_recorded[OF r(1)] names q by blast
qed

text \<open>A proto file declares \<^verbatim>\<open>UserService.AddBadge\<close>; a handler is declared with an enum member.\<close>

definition badge_graph :: contract_graph where
  "badge_graph =
     add_rpc_call 1 ''@USER_SERVICE|METHODS.ADD_BADGE''
       (add_rpc_call 1 ''$METHODS.ADD_BADGE=AddBadge''
         (add_rpc_call 1 ''$USER_SERVICE=UserService''
           (fold (\<lambda>n g. fst (add_node n g))
             [demo_node\<lparr>n_name := ''UserService.AddBadge'', n_kind := GrpcMethod,
                n_file := [Normal ''user.proto''], n_package := ''demo.user''\<rparr>,
              demo_node\<lparr>n_name := ''addBadge'', n_kind := GrpcMethod\<rparr>] empty_graph)))"

theorem handler_rpc_name_declared_once_witness:
  "map_of (resolve_handler_rpc_names badge_graph [(0, ''UserService.AddBadge'')]) 1 = Some ''UserService.AddBadge''
   \<and> (\<exists>r qualifier pid. (1, HANDLER_REF_PREFIX # r) \<in> set (g_rpc_calls badge_graph)
        \<and> ref_names_rpc badge_graph 1 r qualifier ''UserService.AddBadge''
        \<and> filter (\<lambda>(pid, n). n = ''UserService.AddBadge'' \<and> (case qualifier of None \<Rightarrow> True
             | Some q \<Rightarrow> map_option n_package (get_node badge_graph pid) = Some q))
            [(0, ''UserService.AddBadge'')] = [(pid, ''UserService.AddBadge'')])"
proof -
  have *: "map_of (resolve_handler_rpc_names badge_graph [(0, ''UserService.AddBadge'')]) 1
           = Some ''UserService.AddBadge''"
    by code_simp
  show ?thesis by (rule conjI[OF * handler_rpc_name_declared_once[OF *]])
qed

section \<open>Round trip of handler references\<close>

text \<open>
  A reference written as \<^verbatim>\<open>service|method\<close>, with \<^verbatim>\<open>|~\<close> appended when the method argument was not
  written, is read back as it was written.
\<close>

theorem handler_ref_roundtrip:
  assumes "CHR ''|'' \<notin> set service" and "CHR ''|'' \<notin> set meth"
  shows "parse_handler_ref (service @ ''|'' @ meth @ (if written then [] else ''|'' @ [CHR 0x7E])) =
    Some \<lparr>hr_service = service, hr_method = meth, hr_method_written = written\<rparr>"
proof -
  have s: "split_once CHR ''|'' (service @ ''|'' @ rest) = Some (service, rest)" for rest
    using assms(1) by (simp add: split_once_Some)
  have "split CHR ''|'' (meth @ ''|'' @ [CHR 0x7E]) = [meth, [CHR 0x7E]]"
    using split_pred_append_sep[of "\<lambda>c. c = CHR ''|''" "CHR ''|''" meth "[CHR 0x7E]"] assms(2) by auto
  moreover have "split CHR ''|'' meth = [meth]"
    using assms(2) by (intro split_pred_id) auto
  ultimately show ?thesis by (cases written) (simp_all only: parse_handler_ref_def s, simp_all)
qed

theorem handler_ref_roundtrip_witness:
  "CHR ''|'' \<notin> set ''USER_SERVICE'' \<and> CHR ''|'' \<notin> set ''signUp''
   \<and> parse_handler_ref (''USER_SERVICE'' @ ''|'' @ ''signUp'' @ (if False then [] else ''|'' @ [CHR 0x7E])) =
     Some \<lparr>hr_service = ''USER_SERVICE'', hr_method = ''signUp'', hr_method_written = False\<rparr>"
proof -
  have "CHR ''|'' \<notin> set ''USER_SERVICE''" "CHR ''|'' \<notin> set ''signUp''" by code_simp+
  then show ?thesis by (intro conjI handler_ref_roundtrip)
qed

end
