(* ===== verification/Graph_Reconcile.thy ===== *)
theory Graph_Reconcile
  imports Graph_Rpc
begin

text \<open>
  \<^verbatim>\<open>reconcile_edges\<close> of \<^verbatim>\<open>crates/mesh-core/src/contracts.rs\<close>: every edge of the graph is derived afresh
  from the recorded facts, in five passes (imports; topic hubs; produces, consumes and wildcard
  edges; implements; calls). The set of keys already linked and the edges pushed so far are the
  accumulator \<open>edge_acc\<close>; the passes that collect into a local vector and append it at their end
  push onto the same accumulator here, which gives the same sequence.
\<close>

section \<open>Pushing an edge once\<close>

type_synonym edge_key = "node_id \<times> node_id \<times> edge_kind"
type_synonym edge_acc = "edge_key set \<times> contract_edge list"

definition edge_key :: "contract_edge \<Rightarrow> edge_key" where
  "edge_key e = (e_from e, e_to e, e_kind e)"

fun insert_edge :: "contract_edge \<Rightarrow> edge_acc \<Rightarrow> edge_acc" where
  "insert_edge e (seen, out) =
     (if edge_key e \<in> seen then (seen, out) else (insert (edge_key e) seen, out @ [e]))"

section \<open>Pass 1: imports\<close>

definition import_facts :: "contract_graph \<Rightarrow> (node_id \<times> string) list" where
  "import_facts g = sort (concat (map (\<lambda>(target, ids). map (\<lambda>i. (i, target)) ids) (g_reverse_deps g)))"

definition importer_dir :: "contract_node \<Rightarrow> string \<Rightarrow> path option" where
  "importer_dir importer target =
     (if starts_with target ''.'' \<and> is_script_path (n_file importer) then path_parent (n_file importer) else None)"

definition import_edge :: "node_id \<Rightarrow> string \<Rightarrow> node_id \<times> edge_confidence \<Rightarrow> contract_edge" where
  "import_edge importer target t =
     \<lparr>e_from = importer, e_to = fst t, e_kind = Imports, e_metadata = Some target, e_confidence = snd t\<rparr>"

type_synonym resolved_memo = "(string \<times> repo_id \<times> path option, (node_id \<times> edge_confidence) list) hmap"

definition resolved_entry ::
  "(path \<Rightarrow> path) \<Rightarrow> contract_graph \<Rightarrow> string \<Rightarrow> repo_id \<Rightarrow> path option \<Rightarrow> resolved_memo \<Rightarrow> import_memo
   \<Rightarrow> (node_id \<times> edge_confidence) list \<times> resolved_memo \<times> import_memo" where
  "resolved_entry clean g target repo dir resolved memo =
     (case map_of resolved (target, repo, dir) of
        Some targets \<Rightarrow> (targets, resolved, memo)
      | None \<Rightarrow>
          (let (targets, memo') = resolve_import_targets clean g (Some repo) dir target memo in
           (targets, hm_insert (target, repo, dir) targets resolved, memo')))"

fun import_loop ::
  "(path \<Rightarrow> path) \<Rightarrow> contract_graph \<Rightarrow> (node_id \<times> string) list \<Rightarrow> resolved_memo \<Rightarrow> import_memo
   \<Rightarrow> edge_acc \<Rightarrow> edge_acc" where
  "import_loop clean g [] resolved memo acc = acc"
| "import_loop clean g ((importer_id, target) # facts) resolved memo acc =
     (case get_node g importer_id of
        None \<Rightarrow> import_loop clean g facts resolved memo acc
      | Some importer \<Rightarrow>
          (let (targets, resolved', memo') =
             resolved_entry clean g target (n_repo importer) (importer_dir importer target) resolved memo in
           import_loop clean g facts resolved' memo'
             (fold insert_edge (map (import_edge importer_id target) targets) acc)))"

section \<open>Passes 2 and 3: topics\<close>

definition all_topics :: "contract_graph \<Rightarrow> string list" where
  "all_topics g = remdups_adj (sort (map fst (g_topic_producers g) @ map fst (g_topic_consumers g)))"

definition is_hub :: "contract_node \<Rightarrow> bool" where
  "is_hub n \<longleftrightarrow> n_package n = ''event-bus'' \<and> stream_like (n_kind n)"

definition stale_hubs :: "contract_graph \<Rightarrow> string list \<Rightarrow> node_id list" where
  "stale_hubs g topics = map n_id (filter (\<lambda>n. is_hub n \<and> n_name n \<notin> set topics) (all_nodes g))"

definition existing_hub :: "contract_graph \<Rightarrow> string \<Rightarrow> node_id option" where
  "existing_hub g topic_key =
     find (\<lambda>i. case get_node g i of
                 Some n \<Rightarrow> n_package n = ''event-bus'' \<and> n_kind n = EventStream
               | None \<Rightarrow> False) (bucket (g_name_to_nodes g) topic_key)"

definition hub_node :: "string \<Rightarrow> contract_node" where
  "hub_node topic_key =
     \<lparr>n_id = 0, n_name = topic_key, n_kind = EventStream, n_file = [Normal ''event-bus''],
      n_line_start = 1, n_line_end = 1, n_package = ''event-bus'', n_repo = repo_max,
      n_signature = Some (''topic://'' @ topic_key), n_docstring = None\<rparr>"

definition topic_hub :: "contract_graph \<Rightarrow> string \<Rightarrow> contract_graph \<times> node_id" where
  "topic_hub g topic_key =
     (case existing_hub g topic_key of
        Some i \<Rightarrow> (g, i)
      | None \<Rightarrow> add_node (hub_node topic_key) g)"

definition produces_edge :: "contract_graph \<Rightarrow> node_id \<Rightarrow> string \<Rightarrow> node_id \<Rightarrow> contract_edge" where
  "produces_edge g topic_id topic_key p =
     \<lparr>e_from = p, e_to = topic_id, e_kind = Produces, e_metadata = Some topic_key,
      e_confidence = topic_confidence g p\<rparr>"

definition consumes_edge :: "contract_graph \<Rightarrow> node_id \<Rightarrow> string \<Rightarrow> node_id \<Rightarrow> contract_edge" where
  "consumes_edge g topic_id topic_key c =
     \<lparr>e_from = topic_id, e_to = c, e_kind = Consumes, e_metadata = Some topic_key,
      e_confidence = topic_confidence g c\<rparr>"

definition subject_consumer :: "contract_graph \<Rightarrow> node_id list \<Rightarrow> bool" where
  "subject_consumer g consumers =
     list_ex (\<lambda>i. case get_node g i of None \<Rightarrow> True | Some n \<Rightarrow> n_kind n \<noteq> KafkaTopic \<and> n_kind n \<noteq> Queue) consumers"

definition concrete_producers :: "contract_graph \<Rightarrow> (string \<times> node_id list) list" where
  "concrete_producers g = sort_key fst (filter (\<lambda>(k, _). \<not> is_subject_pattern k) (g_topic_producers g))"

text \<open>The producers of the subjects a pattern matches, subject by subject.\<close>

definition heard_producers :: "contract_graph \<Rightarrow> string \<Rightarrow> (string \<times> node_id) list" where
  "heard_producers g topic_key =
     concat (map (\<lambda>(subject, prods). if subject_matches topic_key subject
                                     then map (\<lambda>p. (subject, p)) prods else [])
       (concrete_producers g))"

definition wildcard_edge :: "node_id \<Rightarrow> string \<Rightarrow> node_id \<Rightarrow> contract_edge" where
  "wildcard_edge topic_id subject p =
     \<lparr>e_from = p, e_to = topic_id, e_kind = Produces, e_metadata = Some subject,
      e_confidence = Heuristic\<rparr>"

text \<open>The loop \<^verbatim>\<open>'subjects\<close>: stop at the cap, skip a producer that consumes the pattern itself, count
  only the edges that are new.\<close>

fun link_heard :: "node_id \<Rightarrow> node_id list \<Rightarrow> nat \<Rightarrow> (string \<times> node_id) list \<Rightarrow> edge_acc \<Rightarrow> edge_acc" where
  "link_heard topic_id consumers linked [] acc = acc"
| "link_heard topic_id consumers linked ((subject, p) # heard) (seen, out) =
     (if p \<in> set consumers then link_heard topic_id consumers linked heard (seen, out)
      else if linked \<ge> MAX_WILDCARD_PRODUCERS then (seen, out)
      else if (p, topic_id, Produces) \<in> seen then link_heard topic_id consumers linked heard (seen, out)
      else link_heard topic_id consumers (linked + 1) heard
             (insert_edge (wildcard_edge topic_id subject p) (seen, out)))"

definition topic_step :: "string \<Rightarrow> contract_graph \<times> edge_acc \<Rightarrow> contract_graph \<times> edge_acc" where
  "topic_step topic_key s =
     (let (g0, acc0) = s;
          (g, topic_id) = topic_hub g0 topic_key;
          producers = bucket (g_topic_producers g) topic_key;
          consumers = bucket (g_topic_consumers g) topic_key;
          acc1 = fold insert_edge (map (produces_edge g topic_id topic_key) producers) acc0;
          acc2 = fold insert_edge (map (consumes_edge g topic_id topic_key) consumers) acc1 in
      (g, if is_subject_pattern topic_key \<and> subject_consumer g consumers
          then link_heard topic_id consumers 0 (heard_producers g topic_key) acc2
          else acc2))"

section \<open>Pass 4: handlers of declared RPCs\<close>

definition proto_methods :: "contract_graph \<Rightarrow> (node_id \<times> string) list" where
  "proto_methods g =
     map (\<lambda>n. (n_id n, n_name n))
       (filter (\<lambda>n. n_kind n = GrpcMethod \<and> is_proto_file (n_file n)) (all_nodes g))"

definition is_handler_node :: "contract_node \<Rightarrow> bool" where
  "is_handler_node n \<longleftrightarrow>
     (n_kind n = GrpcMethod \<or> n_kind n = GrpcService)
     \<and> \<not> is_proto_file (n_file n)
     \<and> \<not> starts_with (n_name n) ''rpc:''
     \<and> \<not> starts_with (n_name n) ''produce:''
     \<and> \<not> starts_with (n_name n) ''consume:''"

definition handler_of :: "(node_id, string) hmap \<Rightarrow> contract_node \<Rightarrow> handler" where
  "handler_of resolved n =
     (let name = (case map_of resolved (n_id n) of Some r \<Rightarrow> r | None \<Rightarrow> n_name n) in
      \<lparr>h_id = n_id n, h_name = name, h_pascal = to_pascal_case name, h_sig = n_signature n\<rparr>)"

definition handlers :: "contract_graph \<Rightarrow> (node_id, string) hmap \<Rightarrow> handler list" where
  "handlers g resolved = map (handler_of resolved) (filter is_handler_node (all_nodes g))"

definition implements_edge :: "node_id \<times> string \<Rightarrow> handler \<Rightarrow> contract_edge option" where
  "implements_edge m h =
     map_option (\<lambda>c. \<lparr>e_from = h_id h, e_to = fst m, e_kind = Implements, e_metadata = Some (snd m),
                      e_confidence = c\<rparr>) (implements_confidence h (snd m))"

definition implements_pass ::
  "handler list \<Rightarrow> (node_id \<times> string) list \<Rightarrow> edge_acc \<Rightarrow> edge_acc" where
  "implements_pass hs methods acc =
     (let ix = handler_index_build hs in
      fold insert_edge
        (concat (map (\<lambda>m. List.map_filter (\<lambda>i. implements_edge m (hs ! i))
                            (handler_candidates ix (snd m) (last_segment CHR ''.'' (snd m)))) methods))
        acc)"

section \<open>Pass 5: calls\<close>

definition proto_by_fqcn :: "contract_graph \<Rightarrow> (string, node_id list) hmap" where
  "proto_by_fqcn g =
     fold (\<lambda>n. hm_push (to_lowercase (n_name n)) (n_id n)) (filter (\<lambda>n. n_kind n = GrpcService) (all_nodes g))
       (fold (\<lambda>(i, name). hm_push (to_lowercase name) i) (proto_methods g) [])"

definition proto_by_bare :: "contract_graph \<Rightarrow> (string, node_id list) hmap" where
  "proto_by_bare g =
     fold (\<lambda>(i, name). hm_push (to_lowercase (last_segment CHR ''.'' name)) i) (proto_methods g) []"

definition is_fact_record :: "string \<Rightarrow> bool" where
  "is_fact_record recorded \<longleftrightarrow>
     (case recorded of
        c # _ \<Rightarrow> c \<in> set [CLIENT_FIELD_BINDING_PREFIX, CONST_VALUE_PREFIX, HANDLER_REF_PREFIX]
      | [] \<Rightarrow> False)"

text \<open>The target of a recorded call, whether it names a method, and whether its service was
  inferred from a field name; \<open>None\<close> when the record is skipped.\<close>

definition call_target ::
  "contract_graph \<Rightarrow> (string \<times> string, (repo_id \<times> string) list) hmap \<Rightarrow> node_id \<Rightarrow> string
   \<Rightarrow> (string \<times> bool \<times> bool) option" where
  "call_target g bound caller recorded =
     (case strip_prefix [RPC_EXACT_METHOD_PREFIX] recorded of
        Some t \<Rightarrow> Some (t, True, False)
      | None \<Rightarrow>
     (case strip_prefix [RPC_INFERRED_METHOD_PREFIX] recorded of
        Some t \<Rightarrow> Some (t, True, True)
      | None \<Rightarrow>
     (case strip_prefix [RPC_INHERITED_METHOD_PREFIX] recorded of
        Some t \<Rightarrow>
          map_option (\<lambda>(r, inferred). (r, True, inferred))
            (resolve_inherited_call t (map_option n_repo (get_node g caller)) bound)
      | None \<Rightarrow> Some (recorded, False, False))))"

text \<open>A guessed call, inside the handler of the very RPC it names, is a delegation.\<close>

definition is_delegation :: "(node_id, string option \<times> string) hmap \<Rightarrow> node_id \<Rightarrow> string \<Rightarrow> bool" where
  "is_delegation served caller target =
     (let (called_service, called) =
        (case rsplit_once CHR ''.'' target of Some (s, m) \<Rightarrow> (s, m) | None \<Rightarrow> ([], target)) in
      case map_of served caller of
        None \<Rightarrow> False
      | Some (service, method) \<Rightarrow>
          method = fold_rpc_name called
          \<and> (case service of None \<Rightarrow> False
             | Some s \<Rightarrow> eq_ignore_ascii_case s (last_segment CHR ''.'' called_service)))"

record rpc_index =
  ri_fqcn :: "(string, package_bucket) hmap"
  ri_bare :: "(string, package_bucket) hmap"
  ri_fields :: "(string \<times> string, (repo_id \<times> string) list) hmap"
  ri_served :: "(node_id, string option \<times> string) hmap"

definition rpc_index_of :: "contract_graph \<Rightarrow> rpc_index" where
  "rpc_index_of g =
     \<lparr>ri_fqcn = group_by_package g (proto_by_fqcn g), ri_bare = group_by_package g (proto_by_bare g),
      ri_fields = class_fields g, ri_served = handler_served_methods g\<rparr>"

definition method_links ::
  "rpc_index \<Rightarrow> string option \<Rightarrow> string \<Rightarrow> bool \<Rightarrow> (node_id \<times> edge_confidence) list" where
  "method_links ix caller_package target inferred =
     (case map_of (ri_fqcn ix) (to_lowercase target) of
        None \<Rightarrow> []
      | Some candidates \<Rightarrow>
          (let confidence = (if inferred then Heuristic else Exact);
               picked = (case caller_package of
                           Some pkg \<Rightarrow> bucket_pick candidates pkg confidence
                         | None \<Rightarrow> map (\<lambda>i. (i, confidence)) (pb_ids candidates)) in
           map (\<lambda>(i, c). (i, if inferred \<and> c = Exact then Heuristic else c)) picked))"

definition service_links ::
  "contract_graph \<Rightarrow> rpc_index \<Rightarrow> string option \<Rightarrow> string \<Rightarrow> (node_id \<times> edge_confidence) list" where
  "service_links g ix caller_package target =
     (let direct = resolve_rpc_target target caller_package (ri_fqcn ix) (ri_bare ix);
          bare = last_segment CHR ''.'' target;
          matches =
            (if direct = [] \<and> bare \<noteq> [] \<and> \<not> ends_with (to_lowercase bare) ''service''
                \<and> \<not> eq_ignore_ascii_case bare ''health''
             then resolve_rpc_target (target @ ''Service'') caller_package (ri_fqcn ix) (ri_bare ix)
             else direct) in
      filter (\<lambda>(i, _). case get_node g i of None \<Rightarrow> True | Some n \<Rightarrow> \<not> is_grpc_health_service n) matches)"

text \<open>The edges of one recorded call.\<close>

definition call_edges :: "contract_graph \<Rightarrow> rpc_index \<Rightarrow> node_id \<times> string \<Rightarrow> contract_edge list" where
  "call_edges g ix call =
     (let (caller, recorded) = call in
      if is_fact_record recorded then []
      else case call_target g (ri_fields ix) caller recorded of
        None \<Rightarrow> []
      | Some (target, method_level, inferred) \<Rightarrow>
          if is_grpc_health_fqcn target then []
          else if inferred \<and> method_level \<and> is_delegation (ri_served ix) caller target then []
          else
            (let caller_package = map_option n_package (get_node g caller) in
             map (\<lambda>(i, c). \<lparr>e_from = caller, e_to = i, e_kind = CallsRpc, e_metadata = Some target,
                             e_confidence = c\<rparr>)
               (if method_level then method_links ix caller_package target inferred
                else service_links g ix caller_package target)))"

section \<open>The whole pass\<close>

definition topic_pass :: "contract_graph \<times> edge_acc \<Rightarrow> contract_graph \<times> edge_acc" where
  "topic_pass s =
     (let (g, acc) = s; topics = all_topics g in
      fold topic_step topics (remove_nodes (stale_hubs g topics) g, acc))"

definition reconcile_edges :: "(path \<Rightarrow> path) \<Rightarrow> contract_graph \<Rightarrow> contract_graph" where
  "reconcile_edges clean g =
     (let acc1 = import_loop clean g (import_facts g) [] empty_memo ({}, []);
          (g1, acc2) = topic_pass (g, acc1);
          methods = proto_methods g1;
          resolved = resolve_handler_rpc_names g1 methods;
          acc3 = implements_pass (handlers g1 resolved) methods acc2;
          g2 = g1\<lparr>g_handler_rpc_names := resolved\<rparr>;
          acc4 = fold insert_edge (concat (map (call_edges g2 (rpc_index_of g2)) (g_rpc_calls g2))) acc3 in
      g2\<lparr>g_edges := snd acc4\<rparr>)"

section \<open>The accumulator\<close>

definition acc_ok :: "edge_acc \<Rightarrow> bool" where
  "acc_ok acc \<longleftrightarrow> fst acc = edge_key ` set (snd acc) \<and> distinct (map edge_key (snd acc))"

abbreviation insert_edges :: "contract_edge list \<Rightarrow> edge_acc \<Rightarrow> edge_acc" where
  "insert_edges es \<equiv> fold insert_edge es"

lemma acc_ok_Nil [simp]: "acc_ok ({}, [])"
  by (simp add: acc_ok_def)

lemma acc_ok_insert: "acc_ok acc \<Longrightarrow> acc_ok (insert_edge e acc)"
  by (cases acc) (auto simp: acc_ok_def)

lemma acc_ok_inserts: "acc_ok acc \<Longrightarrow> acc_ok (insert_edges es acc)"
  by (induction es arbitrary: acc) (auto simp: acc_ok_insert)

lemma acc_ok_link_heard: "acc_ok acc \<Longrightarrow> acc_ok (link_heard t cs n heard acc)"
  by (induction t cs n heard acc rule: link_heard.induct) (auto simp del: insert_edge.simps intro: acc_ok_insert)

lemma insert_edge_prefix: "prefix (snd acc) (snd (insert_edge e acc))"
  by (cases acc) auto

lemma insert_edges_prefix: "prefix (snd acc) (snd (insert_edges es acc))"
proof (induction es arbitrary: acc)
  case (Cons e es)
  show ?case
    using prefix_order.trans[OF insert_edge_prefix[of acc e] Cons[of "insert_edge e acc"]] by simp
qed simp

lemma link_heard_prefix: "prefix (snd acc) (snd (link_heard t cs n heard acc))"
proof (induction t cs n heard acc rule: link_heard.induct)
  case (2 t cs n subject p heard seen out)
  then show ?case
    using insert_edge_prefix[of "(seen, out)" "wildcard_edge t subject p"]
    by (auto simp del: insert_edge.simps intro: prefix_order.trans)
qed simp

lemma set_insert_edges: "set (snd (insert_edges es acc)) \<subseteq> set (snd acc) \<union> set es"
proof (induction es arbitrary: acc)
  case (Cons e es)
  have "set (snd (insert_edge e acc)) \<subseteq> insert e (set (snd acc))" by (cases acc) auto
  with Cons[of "insert_edge e acc"] show ?case by auto
qed simp

lemma keys_insert_edges:
  "acc_ok acc \<Longrightarrow> edge_key ` set (snd (insert_edges es acc)) = edge_key ` set (snd acc) \<union> edge_key ` set es"
proof (induction es arbitrary: acc)
  case (Cons e es)
  have "edge_key ` set (snd (insert_edge e acc)) = insert (edge_key e) (edge_key ` set (snd acc))"
    using Cons.prems by (cases acc) (auto simp: acc_ok_def)
  with Cons.IH[OF acc_ok_insert[OF Cons.prems]] show ?case by auto
qed simp

text \<open>An edge whose key is not yet there is pushed with its own data if no earlier edge of the
  batch has the key; in particular a key occurs with the first data offered for it.\<close>

lemma insert_edges_pushes:
  assumes "acc_ok acc" and "edge_key e \<notin> fst acc" and "e \<in> set es"
    and "\<And>e'. e' \<in> set es \<Longrightarrow> edge_key e' = edge_key e \<Longrightarrow> e' = e"
  shows "e \<in> set (snd (insert_edges es acc))"
proof -
  have "edge_key e \<in> edge_key ` set (snd (insert_edges es acc))"
    using keys_insert_edges[OF assms(1)] assms(3) by blast
  then obtain e' where e': "e' \<in> set (snd (insert_edges es acc))" "edge_key e' = edge_key e" by auto
  with set_insert_edges[of es acc] have "e' \<in> set (snd acc) \<or> e' \<in> set es" by auto
  with assms(1,2,4) e' show ?thesis by (auto simp: acc_ok_def) (metis image_eqI)
qed

section \<open>The import pass without its memos\<close>

definition fact_edges :: "(path \<Rightarrow> path) \<Rightarrow> contract_graph \<Rightarrow> node_id \<times> string \<Rightarrow> contract_edge list" where
  "fact_edges clean g f =
     (case get_node g (fst f) of
        None \<Rightarrow> []
      | Some n \<Rightarrow>
          map (import_edge (fst f) (snd f))
            (resolve_import_ref clean g (Some (n_repo n)) (importer_dir n (snd f)) (snd f)))"

definition import_edges :: "(path \<Rightarrow> path) \<Rightarrow> contract_graph \<Rightarrow> contract_edge list" where
  "import_edges clean g = concat (map (fact_edges clean g) (import_facts g))"

lemma resolved_entry_correct:
  assumes "import_memo_ok clean g memo" and "hm_wf (g_name_to_nodes g)"
    and "memo_ok (\<lambda>(t, r, d). resolve_import_ref clean g (Some r) d t) resolved"
    and "resolved_entry clean g target repo dir resolved memo = (targets, resolved', memo')"
  shows "targets = resolve_import_ref clean g (Some repo) dir target
    \<and> memo_ok (\<lambda>(t, r, d). resolve_import_ref clean g (Some r) d t) resolved'
    \<and> import_memo_ok clean g memo'"
proof (cases "map_of resolved (target, repo, dir)")
  case None
  obtain ts m where r: "resolve_import_targets clean g (Some repo) dir target memo = (ts, m)"
    by (meson surj_pair)
  from resolve_import_correct[OF assms(1,2) r] None assms(3,4) r show ?thesis
    by (auto simp: resolved_entry_def memo_ok_def map_of_hm_insert split: if_splits)
next
  case (Some ts)
  with assms show ?thesis by (auto simp: resolved_entry_def memo_ok_def)
qed

lemma import_loop_edges:
  assumes "hm_wf (g_name_to_nodes g)" and "import_memo_ok clean g memo"
    and "memo_ok (\<lambda>(t, r, d). resolve_import_ref clean g (Some r) d t) resolved"
  shows "import_loop clean g facts resolved memo acc = insert_edges (concat (map (fact_edges clean g) facts)) acc"
  using assms(2,3)
proof (induction facts arbitrary: resolved memo acc)
  case Nil
  then show ?case by simp
next
  case (Cons f facts)
  obtain i t where f: "f = (i, t)" by (cases f)
  show ?case
  proof (cases "get_node g i")
    case None
    with f Cons show ?thesis by (simp add: fact_edges_def)
  next
    case (Some n)
    obtain targets resolved' memo' where
      r: "resolved_entry clean g t (n_repo n) (importer_dir n t) resolved memo = (targets, resolved', memo')"
      by (metis prod_cases3)
    from resolved_entry_correct[OF Cons.prems(1) assms(1) Cons.prems(2) r]
    show ?thesis using Cons.IH[of memo' resolved'] Some r f by (simp add: fact_edges_def)
  qed
qed

lemma import_pass_edges:
  "wf_graph g \<Longrightarrow> import_loop clean g (import_facts g) [] empty_memo acc = insert_edges (import_edges clean g) acc"
  unfolding import_edges_def
  by (rule import_loop_edges) (simp_all add: wf_graph_def indices_wf_def index_exact_def import_memo_ok_empty)

section \<open>The topic pass: first the hubs, then the links\<close>

definition hub_step :: "string \<Rightarrow> contract_graph \<Rightarrow> contract_graph" where
  "hub_step k g = fst (topic_hub g k)"

definition hubs :: "contract_graph \<Rightarrow> contract_graph" where
  "hubs g = fold hub_step (all_topics g) (remove_nodes (stale_hubs g (all_topics g)) g)"

text \<open>The links of one topic, read off a graph that has its hub.\<close>

definition topic_links :: "contract_graph \<Rightarrow> string \<Rightarrow> edge_acc \<Rightarrow> edge_acc" where
  "topic_links g k acc =
     (let topic_id = the (existing_hub g k);
          producers = bucket (g_topic_producers g) k;
          consumers = bucket (g_topic_consumers g) k;
          acc' = insert_edges (map (consumes_edge g topic_id k) consumers)
                   (insert_edges (map (produces_edge g topic_id k) producers) acc) in
      if is_subject_pattern k \<and> subject_consumer g consumers
      then link_heard topic_id consumers 0 (heard_producers g k) acc'
      else acc')"

definition same_facts :: "contract_graph \<Rightarrow> contract_graph \<Rightarrow> bool" where
  "same_facts g g' \<longleftrightarrow>
     g_reverse_deps g' = g_reverse_deps g \<and> g_topic_producers g' = g_topic_producers g
     \<and> g_topic_consumers g' = g_topic_consumers g \<and> g_rpc_calls g' = g_rpc_calls g
     \<and> g_heuristic_topic_nodes g' = g_heuristic_topic_nodes g
     \<and> g_edges g' = g_edges g \<and> g_handler_rpc_names g' = g_handler_rpc_names g"

definition grows :: "contract_graph \<Rightarrow> contract_graph \<Rightarrow> bool" where
  "grows g g' \<longleftrightarrow>
     same_facts g g'
     \<and> (\<forall>i n. get_node g i = Some n \<longrightarrow> get_node g' i = Some n)
     \<and> (\<forall>k i. existing_hub g k = Some i \<longrightarrow> existing_hub g' k = Some i)"

lemma grows_refl [simp]: "grows g g"
  by (simp add: grows_def same_facts_def)

lemma grows_trans: "grows a b \<Longrightarrow> grows b c \<Longrightarrow> grows a c"
  by (simp add: grows_def same_facts_def)

lemma same_facts_hub_step: "same_facts g (hub_step k g)"
  by (simp add: same_facts_def hub_step_def topic_hub_def split: option.split)

lemma same_facts_trans: "same_facts a b \<Longrightarrow> same_facts b c \<Longrightarrow> same_facts a c"
  by (simp add: same_facts_def)

lemma same_facts_hub_steps: "same_facts g (fold hub_step ks g)"
proof (induction ks arbitrary: g)
  case (Cons k ks)
  then show ?case using same_facts_trans[OF same_facts_hub_step[of g k] Cons[of "hub_step k g"]] by simp
qed (simp add: same_facts_def)

lemma same_facts_hubs: "same_facts g (hubs g)"
  unfolding hubs_def
  by (rule same_facts_trans[OF _ same_facts_hub_steps]) (simp add: same_facts_def)

lemma all_topics_facts: "same_facts g g' \<Longrightarrow> all_topics g' = all_topics g"
  by (simp add: same_facts_def all_topics_def)

lemma existing_hub_Some:
  "existing_hub g k = Some i \<Longrightarrow> i \<in> set (bucket (g_name_to_nodes g) k) \<and>
     (\<exists>n. get_node g i = Some n \<and> n_package n = ''event-bus'' \<and> n_kind n = EventStream)"
  by (auto simp: existing_hub_def find_Some_iff split: option.splits)

lemma get_node_add_node:
  "nodes_wf g \<Longrightarrow> get_node (fst (add_node n g)) i =
     (if i = g_next_node_id g then Some (n\<lparr>n_id := i\<rparr>) else get_node g i)"
proof -
  assume wf: "nodes_wf g"
  then have "get_node g (g_next_node_id g) = None"
    by (auto simp: get_node_None_iff node_ids_def nodes_wf_def)
  then show ?thesis
    by (auto simp: get_node_def add_node_nodes[OF wf] map_add_def split: option.split)
qed

lemma bucket_name_add_node:
  "bucket (g_name_to_nodes (fst (add_node n g))) k =
     bucket (g_name_to_nodes g) k @ map (\<lambda>_. g_next_node_id g) (filter (\<lambda>k'. k' = k) (name_keys n))"
proof -
  have "name_keys (n\<lparr>n_id := i\<rparr>) = name_keys n" for i by (simp add: name_keys_def)
  then have "g_name_to_nodes (fst (add_node n g)) =
     fold (\<lambda>(k, v). hm_push k v) (map (\<lambda>k. (k, g_next_node_id g)) (name_keys n)) (g_name_to_nodes g)"
    by (simp add: add_node_indices fold_map o_def)
  then show ?thesis by (simp add: hm.get_push_all filter_map o_def)
qed

lemma find_append_Some: "find P xs = Some x \<Longrightarrow> find P (xs @ ys) = Some x"
  by (induction xs) auto

lemma find_append_None: "find P xs = None \<Longrightarrow> find P (xs @ ys) = find P ys"
  by (induction xs) (auto split: if_splits)

lemma index_exact_ids:
  "nodes_wf g \<Longrightarrow> indices_wf g \<Longrightarrow> i \<in> set (bucket (g_name_to_nodes g) k) \<Longrightarrow> i < g_next_node_id g"
  using index_exact_live[of g name_keys "g_name_to_nodes g" i k]
  by (auto simp: indices_wf_def get_node_Some_iff nodes_wf_def)

lemma find_hub_stable:
  assumes "nodes_wf g" and "indices_wf g"
  shows "find (\<lambda>i. case get_node (fst (add_node n g)) i of
                 Some n \<Rightarrow> n_package n = ''event-bus'' \<and> n_kind n = EventStream
               | None \<Rightarrow> False) (bucket (g_name_to_nodes g) k) = existing_hub g k"
  unfolding existing_hub_def
  by (rule find_cong) (use index_exact_ids[OF assms] in \<open>auto simp: get_node_add_node[OF assms(1)]\<close>)

lemma grows_add_node: "nodes_wf g \<Longrightarrow> indices_wf g \<Longrightarrow> grows g (fst (add_node n g))"
proof -
  assume wf: "nodes_wf g" "indices_wf g"
  have "existing_hub (fst (add_node n g)) k = Some i" if "existing_hub g k = Some i" for k i
    unfolding existing_hub_def[of "fst (add_node n g)"] bucket_name_add_node
    using that by (intro find_append_Some) (simp only: find_hub_stable[OF wf])
  moreover have "i \<noteq> g_next_node_id g" if "get_node g i = Some m" for i m
    using that wf(1) by (auto simp: get_node_Some_iff nodes_wf_def)
  ultimately show ?thesis
    using wf(1) by (simp add: grows_def same_facts_def get_node_add_node)
qed

lemma hub_step_wf: "wf_graph g \<Longrightarrow> wf_graph (hub_step k g)"
  by (simp add: hub_step_def topic_hub_def wf_add_node split: option.split)

lemma grows_hub_step: "wf_graph g \<Longrightarrow> grows g (hub_step k g)"
  by (simp add: hub_step_def topic_hub_def wf_graph_def grows_add_node split: option.split)

lemma existing_hub_new:
  assumes "nodes_wf g" and "indices_wf g" and "existing_hub g k = None"
  shows "existing_hub (fst (add_node (hub_node k) g)) k = Some (g_next_node_id g)"
proof -
  note none = find_hub_stable[OF assms(1,2), of "hub_node k" k, unfolded assms(3)]
  have "name_keys (hub_node k) = [k, to_lowercase k]"
    by (simp add: name_keys_def hub_node_def stream_like_def)
  then show ?thesis
    unfolding existing_hub_def[of "fst (add_node (hub_node k) g)"] bucket_name_add_node find_append_None[OF none]
    using assms(1) by (simp add: get_node_add_node hub_node_def)
qed

lemma existing_hub_step:
  "wf_graph g \<Longrightarrow> existing_hub (hub_step k g) k = Some (snd (topic_hub g k))"
  by (auto simp: hub_step_def topic_hub_def wf_graph_def existing_hub_new split: option.split)

lemma wf_hub_steps: "wf_graph g \<Longrightarrow> wf_graph (fold hub_step ks g)"
  by (induction ks arbitrary: g) (auto simp: hub_step_wf)

lemma grows_hub_steps: "wf_graph g \<Longrightarrow> grows g (fold hub_step ks g)"
proof (induction ks arbitrary: g)
  case (Cons k ks)
  then show ?case
    using grows_trans[OF grows_hub_step[of g k] Cons.IH[of "hub_step k g"]] by (simp add: hub_step_wf)
qed simp

text \<open>The nodes that facts are recorded about. The extractors record facts about the nodes of the
  file they read; hubs stand for topics and carry none.\<close>

definition fact_ids :: "contract_graph \<Rightarrow> node_id set" where
  "fact_ids g =
     (\<Union>k. set (bucket (g_reverse_deps g) k) \<union> set (bucket (g_topic_producers g) k)
           \<union> set (bucket (g_topic_consumers g) k))
     \<union> fst ` set (g_rpc_calls g) \<union> g_heuristic_topic_nodes g"

definition facts_off_hubs :: "contract_graph \<Rightarrow> bool" where
  "facts_off_hubs g \<longleftrightarrow> (\<forall>i \<in> fact_ids g. \<forall>n. get_node g i = Some n \<longrightarrow> \<not> is_hub n)"

definition wf_mesh :: "contract_graph \<Rightarrow> bool" where
  "wf_mesh g \<longleftrightarrow> wf_graph g \<and> facts_off_hubs g"

lemma facts_wf_iff:
  "facts_wf g \<longleftrightarrow> hm_wf (g_reverse_deps g) \<and> hm_wf (g_topic_producers g) \<and> hm_wf (g_topic_consumers g)
     \<and> fact_ids g \<subseteq> node_ids g"
  by (auto simp: facts_wf_def facts_live_def fact_ids_def)

lemma fact_ids_same: "same_facts g g' \<Longrightarrow> fact_ids g' = fact_ids g"
  by (simp add: same_facts_def fact_ids_def)

lemma stale_hubs_mem:
  "nodes_wf g \<Longrightarrow> i \<in> set (stale_hubs g ts) \<longleftrightarrow>
     (\<exists>n. get_node g i = Some n \<and> is_hub n \<and> n_name n \<notin> set ts)"
  (is "_ \<Longrightarrow> ?L \<longleftrightarrow> ?R")
proof
  assume wf: "nodes_wf g" and ?L
  then show ?R by (auto simp: stale_hubs_def all_nodes_get)
next
  assume wf: "nodes_wf g" and ?R
  then obtain n where n: "get_node g i = Some n" "is_hub n" "n_name n \<notin> set ts" by auto
  then show ?L
    unfolding stale_hubs_def using get_node_in_all[OF n(1)] get_node_id[OF wf n(1)] by auto
qed

lemma get_node_remove_nodes:
  "get_node (remove_nodes stale g) i = (if i \<in> set stale then None else get_node g i)"
  using map_of_filter_key[of "\<lambda>i. i \<notin> set stale" "g_nodes g" i]
  by (auto simp: get_node_def case_prod_unfold)

lemma wf_purged: "wf_mesh g \<Longrightarrow> wf_graph (remove_nodes (stale_hubs g ts) g)"
proof (rule wf_remove_nodes)
  assume "wf_mesh g"
  then have nw: "nodes_wf g" and fw: "facts_wf g" and off: "facts_off_hubs g" and "wf_graph g"
    by (auto simp: wf_mesh_def wf_graph_def)
  then show "wf_graph g" by simp
  have "same_facts g (remove_nodes (stale_hubs g ts) g)" by (simp add: same_facts_def)
  moreover have "i \<notin> set (stale_hubs g ts)" if "i \<in> fact_ids g" for i
    using off that stale_hubs_mem[OF nw, of i ts] by (auto simp: facts_off_hubs_def)
  ultimately show "facts_wf (remove_nodes (stale_hubs g ts) g)"
    using fw by (auto simp: facts_wf_iff node_ids_remove_nodes fact_ids_same)
qed

lemma wf_hubs: "wf_mesh g \<Longrightarrow> wf_graph (hubs g)"
  by (simp add: hubs_def wf_hub_steps wf_purged)

lemma subject_consumer_grows:
  "grows g g' \<Longrightarrow> set is \<subseteq> node_ids g \<Longrightarrow> subject_consumer g' is = subject_consumer g is"
proof -
  assume g: "grows g g'" and live: "set is \<subseteq> node_ids g"
  have "get_node g' i = get_node g i" if "i \<in> set is" for i
    using g live that get_node_None_iff[of g i] by (cases "get_node g i") (auto simp: grows_def)
  then show ?thesis by (auto simp: subject_consumer_def list_ex_iff)
qed

lemma links_facts:
  assumes "same_facts g g'"
  shows "produces_edge g' = produces_edge g" "consumes_edge g' = consumes_edge g"
    "heard_producers g' = heard_producers g"
  using assms
  by (simp_all add: same_facts_def fun_eq_iff produces_edge_def consumes_edge_def topic_confidence_def
      heard_producers_def concrete_producers_def)

lemma topic_step_links:
  assumes wf: "wf_graph g" and gr: "grows (hub_step k g) G"
  shows "topic_step k (g, acc) = (hub_step k g, topic_links G k acc)"
proof -
  let ?g = "hub_step k g"
  have sf: "same_facts ?g G" using gr by (simp add: grows_def)
  have hub: "the (existing_hub G k) = snd (topic_hub g k)"
    using existing_hub_step[OF wf] gr by (simp add: grows_def)
  have "set (bucket (g_topic_consumers ?g) k) \<subseteq> node_ids ?g"
    using hub_step_wf[OF wf] by (auto simp: wf_graph_def facts_wf_def facts_live_def)
  from subject_consumer_grows[OF gr this] links_facts[OF sf] sf hub show ?thesis
    by (simp add: topic_step_def topic_links_def Let_def hub_step_def same_facts_def case_prod_unfold)
qed

lemma fold_topic_step:
  assumes "wf_graph g" and "grows (fold hub_step ks g) G"
  shows "fold topic_step ks (g, acc) = (fold hub_step ks g, fold (topic_links G) ks acc)"
  using assms
proof (induction ks arbitrary: g acc)
  case (Cons k ks)
  have "grows (hub_step k g) G"
    using grows_trans[OF grows_hub_steps[OF hub_step_wf[OF Cons.prems(1), of k], of ks]] Cons.prems(2) by simp
  with Cons show ?case by (simp add: topic_step_links hub_step_wf)
qed simp

lemma topic_pass_links:
  "wf_mesh g \<Longrightarrow> topic_pass (g, acc) = (hubs g, fold (topic_links (hubs g)) (all_topics g) acc)"
  by (simp add: topic_pass_def hubs_def Let_def fold_topic_step wf_purged)

section \<open>The hubs settle in one pass\<close>

lemma hub_step_id: "existing_hub g k \<noteq> None \<Longrightarrow> hub_step k g = g"
  by (auto simp: hub_step_def topic_hub_def)

lemma hub_steps_id: "\<forall>k \<in> set ks. existing_hub g k \<noteq> None \<Longrightarrow> fold hub_step ks g = g"
  by (induction ks) (auto simp: hub_step_id)

lemma existing_hub_steps: "wf_graph g \<Longrightarrow> k \<in> set ks \<Longrightarrow> existing_hub (fold hub_step ks g) k \<noteq> None"
proof (induction ks arbitrary: g)
  case (Cons k' ks)
  show ?case
  proof (cases "k = k'")
    case True
    with existing_hub_step[OF Cons.prems(1), of k] grows_hub_steps[OF hub_step_wf[OF Cons.prems(1), of k'], of ks]
    show ?thesis by (auto simp: grows_def)
  next
    case False
    with Cons show ?thesis by (simp add: hub_step_wf)
  qed
qed simp

lemma hubs_existing: "wf_mesh g \<Longrightarrow> k \<in> set (all_topics g) \<Longrightarrow> \<exists>i. existing_hub (hubs g) k = Some i"
  using existing_hub_steps[OF wf_purged] by (fastforce simp: hubs_def)

lemma hub_steps_nodes:
  assumes "wf_graph g" and "get_node (fold hub_step ks g) i = Some n" and "is_hub n"
  shows "get_node g i = Some n \<or> n_name n \<in> set ks"
  using assms(1,2)
proof (induction ks arbitrary: g)
  case (Cons k ks)
  from Cons.IH[OF hub_step_wf[OF Cons.prems(1)]] Cons.prems
  have "get_node (hub_step k g) i = Some n \<or> n_name n \<in> set ks" by simp
  with Cons.prems(1) show ?case
    by (auto simp: hub_step_def topic_hub_def wf_graph_def get_node_add_node hub_node_def
        split: option.splits if_splits)
qed simp

lemma hubs_not_stale: "wf_mesh g \<Longrightarrow> stale_hubs (hubs g) (all_topics g) = []"
proof -
  assume wf: "wf_mesh g"
  then have nw: "nodes_wf g" "nodes_wf (hubs g)" using wf_hubs by (auto simp: wf_mesh_def wf_graph_def)
  have False if "i \<in> set (stale_hubs (hubs g) (all_topics g))" for i
  proof -
    from that obtain n where n: "get_node (hubs g) i = Some n" "is_hub n" "n_name n \<notin> set (all_topics g)"
      using stale_hubs_mem[OF nw(2)] by auto
    then have "get_node (remove_nodes (stale_hubs g (all_topics g)) g) i = Some n"
      using hub_steps_nodes[OF wf_purged[OF wf]] unfolding hubs_def by blast
    with n stale_hubs_mem[OF nw(1)] show False by (auto simp: get_node_remove_nodes split: if_splits)
  qed
  then show ?thesis by (cases "stale_hubs (hubs g) (all_topics g)") auto
qed

lemma remove_nodes_Nil [simp]: "remove_nodes [] g = g"
  by (simp add: remove_nodes_def prune_index_def List.map_filter_def)

lemma hubs_idem: "wf_mesh g \<Longrightarrow> hubs (hubs g) = hubs g"
  using hubs_existing[of g] all_topics_facts[OF same_facts_hubs[of g]] hubs_not_stale[of g]
  by (simp add: hubs_def[of "hubs g"] hub_steps_id)

section \<open>Derived fields are never read\<close>

text \<open>The pass reads neither the edges it found nor, before it recomputes them, the handler names.\<close>

lemma get_node_frame [frame_simps]:
  "get_node (g\<lparr>g_edges := e\<rparr>) = get_node g" "get_node (g\<lparr>g_handler_rpc_names := h\<rparr>) = get_node g"
  "all_nodes (g\<lparr>g_edges := e\<rparr>) = all_nodes g" "all_nodes (g\<lparr>g_handler_rpc_names := h\<rparr>) = all_nodes g"
  by (simp_all add: fun_eq_iff get_node_def all_nodes_def)

lemma in_repo_frame [frame_simps]:
  "in_repo (g\<lparr>g_edges := e\<rparr>) = in_repo g" "in_repo (g\<lparr>g_handler_rpc_names := h\<rparr>) = in_repo g"
  by (simp_all add: fun_eq_iff in_repo_def frame_simps cong: option.case_cong)

lemma pick_frame [frame_simps]:
  "pick_or_ambiguous (g\<lparr>g_edges := e\<rparr>) = pick_or_ambiguous g" "pick_or_ambiguous (g\<lparr>g_handler_rpc_names := h\<rparr>) = pick_or_ambiguous g"
  by (simp_all add: fun_eq_iff pick_or_ambiguous_cases frame_simps cong: option.case_cong)

lemma resolve_frame [frame_simps]:
  "qualified_ref (g\<lparr>g_edges := e\<rparr>) = qualified_ref g" "qualified_ref (g\<lparr>g_handler_rpc_names := h\<rparr>) = qualified_ref g"
  "relative_ref clean (g\<lparr>g_edges := e\<rparr>) = relative_ref clean g" "relative_ref clean (g\<lparr>g_handler_rpc_names := h\<rparr>) = relative_ref clean g"
  "unqualified_candidates clean (g\<lparr>g_edges := e\<rparr>) = unqualified_candidates clean g" "unqualified_candidates clean (g\<lparr>g_handler_rpc_names := h\<rparr>) = unqualified_candidates clean g"
  "resolve_import_ref clean (g\<lparr>g_edges := e\<rparr>) = resolve_import_ref clean g" "resolve_import_ref clean (g\<lparr>g_handler_rpc_names := h\<rparr>) = resolve_import_ref clean g"
  by (simp_all add: fun_eq_iff qualified_ref_def relative_ref_def unqualified_candidates_def
      resolve_import_ref_def unqualified_ref_def frame_simps cong: option.case_cong)

lemma import_frame [frame_simps]:
  "fact_edges clean (g\<lparr>g_edges := e\<rparr>) = fact_edges clean g" "fact_edges clean (g\<lparr>g_handler_rpc_names := h\<rparr>) = fact_edges clean g"
  "import_facts (g\<lparr>g_edges := e\<rparr>) = import_facts g" "import_facts (g\<lparr>g_handler_rpc_names := h\<rparr>) = import_facts g"
  "import_edges clean (g\<lparr>g_edges := e\<rparr>) = import_edges clean g" "import_edges clean (g\<lparr>g_handler_rpc_names := h\<rparr>) = import_edges clean g"
  by (simp_all add: fun_eq_iff import_edges_def import_facts_def fact_edges_def[abs_def] frame_simps cong: option.case_cong)

lemma hub_frame [frame_simps]:
  "all_topics (g\<lparr>g_edges := e\<rparr>) = all_topics g" "all_topics (g\<lparr>g_handler_rpc_names := h\<rparr>) = all_topics g"
  "stale_hubs (g\<lparr>g_edges := e\<rparr>) = stale_hubs g" "stale_hubs (g\<lparr>g_handler_rpc_names := h\<rparr>) = stale_hubs g"
  "existing_hub (g\<lparr>g_edges := e\<rparr>) = existing_hub g" "existing_hub (g\<lparr>g_handler_rpc_names := h\<rparr>) = existing_hub g"
  by (simp_all add: fun_eq_iff all_topics_def stale_hubs_def existing_hub_def frame_simps cong: option.case_cong)

lemma hub_step_frame [frame_simps]:
  "hub_step k (g\<lparr>g_edges := e\<rparr>) = (hub_step k g)\<lparr>g_edges := e\<rparr>"
  "hub_step k (g\<lparr>g_handler_rpc_names := h\<rparr>) = (hub_step k g)\<lparr>g_handler_rpc_names := h\<rparr>"
  by (simp_all add: hub_step_def topic_hub_def add_node_def Let_def frame_simps split: option.split)

lemma remove_nodes_frame_update [frame_simps]:
  "remove_nodes s (g\<lparr>g_edges := e\<rparr>) = (remove_nodes s g)\<lparr>g_edges := e\<rparr>"
  "remove_nodes s (g\<lparr>g_handler_rpc_names := h\<rparr>) = (remove_nodes s g)\<lparr>g_handler_rpc_names := h\<rparr>"
  by (simp_all add: remove_nodes_def Let_def frame_simps cong: option.case_cong)

lemma hub_steps_frame [frame_simps]:
  "fold hub_step ks (g\<lparr>g_edges := e\<rparr>) = (fold hub_step ks g)\<lparr>g_edges := e\<rparr>"
  "fold hub_step ks (g\<lparr>g_handler_rpc_names := h\<rparr>) = (fold hub_step ks g)\<lparr>g_handler_rpc_names := h\<rparr>"
  by (induction ks arbitrary: g) (simp_all add: frame_simps cong: option.case_cong)

lemma hubs_frame [frame_simps]:
  "hubs (g\<lparr>g_edges := e\<rparr>) = (hubs g)\<lparr>g_edges := e\<rparr>"
  "hubs (g\<lparr>g_handler_rpc_names := h\<rparr>) = (hubs g)\<lparr>g_handler_rpc_names := h\<rparr>"
  by (simp_all add: hubs_def frame_simps cong: option.case_cong)

lemma link_parts_frame [frame_simps]:
  "produces_edge (g\<lparr>g_edges := e\<rparr>) = produces_edge g" "produces_edge (g\<lparr>g_handler_rpc_names := h\<rparr>) = produces_edge g"
  "consumes_edge (g\<lparr>g_edges := e\<rparr>) = consumes_edge g" "consumes_edge (g\<lparr>g_handler_rpc_names := h\<rparr>) = consumes_edge g"
  "heard_producers (g\<lparr>g_edges := e\<rparr>) = heard_producers g" "heard_producers (g\<lparr>g_handler_rpc_names := h\<rparr>) = heard_producers g"
  "subject_consumer (g\<lparr>g_edges := e\<rparr>) = subject_consumer g" "subject_consumer (g\<lparr>g_handler_rpc_names := h\<rparr>) = subject_consumer g"
  by (simp_all add: fun_eq_iff produces_edge_def consumes_edge_def topic_confidence_def heard_producers_def
      concrete_producers_def subject_consumer_def frame_simps)

lemma topic_links_frame [frame_simps]:
  "topic_links (g\<lparr>g_edges := e\<rparr>) = topic_links g" "topic_links (g\<lparr>g_handler_rpc_names := h\<rparr>) = topic_links g"
  by (simp_all add: fun_eq_iff topic_links_def frame_simps cong: if_cong)

lemma handler_frame [frame_simps]:
  "proto_methods (g\<lparr>g_edges := e\<rparr>) = proto_methods g" "proto_methods (g\<lparr>g_handler_rpc_names := h\<rparr>) = proto_methods g"
  "handlers (g\<lparr>g_edges := e\<rparr>) = handlers g" "handlers (g\<lparr>g_handler_rpc_names := h\<rparr>) = handlers g"
  "const_records (g\<lparr>g_edges := e\<rparr>) = const_records g" "const_records (g\<lparr>g_handler_rpc_names := h\<rparr>) = const_records g"
  "handler_refs (g\<lparr>g_edges := e\<rparr>) = handler_refs g" "handler_refs (g\<lparr>g_handler_rpc_names := h\<rparr>) = handler_refs g"
  "declared_count (g\<lparr>g_edges := e\<rparr>) = declared_count g" "declared_count (g\<lparr>g_handler_rpc_names := h\<rparr>) = declared_count g"
  by (simp_all add: fun_eq_iff proto_methods_def handlers_def const_records_def handler_refs_def
      declared_count_def frame_simps cong: option.case_cong)

lemma handler_ref_frame [frame_simps]:
  "resolve_handler_ref (g\<lparr>g_edges := e\<rparr>) = resolve_handler_ref g" "resolve_handler_ref (g\<lparr>g_handler_rpc_names := h\<rparr>) = resolve_handler_ref g"
  by (simp_all add: fun_eq_iff resolve_handler_ref_def frame_simps)

lemma handler_names_frame [frame_simps]:
  "resolve_handler_rpc_names (g\<lparr>g_edges := e\<rparr>) = resolve_handler_rpc_names g" "resolve_handler_rpc_names (g\<lparr>g_handler_rpc_names := h\<rparr>) = resolve_handler_rpc_names g"
  by (simp_all add: fun_eq_iff resolve_handler_rpc_names_def frame_simps cong: if_cong)

lemma package_frame [frame_simps]:
  "package_entries (g\<lparr>g_edges := e\<rparr>) = package_entries g"
  "package_entries (g\<lparr>g_handler_rpc_names := h\<rparr>) = package_entries g"
  "package_bucket_of (g\<lparr>g_edges := e\<rparr>) = package_bucket_of g"
  "package_bucket_of (g\<lparr>g_handler_rpc_names := h\<rparr>) = package_bucket_of g"
  by (simp_all add: fun_eq_iff package_bucket_of_def package_entries_def frame_simps cong: if_cong)

lemma rpc_index_frame [frame_simps]:
  "rpc_index_of (g\<lparr>g_edges := e\<rparr>) = rpc_index_of g"
  "call_target (g\<lparr>g_edges := e\<rparr>) = call_target g"
  "service_links (g\<lparr>g_edges := e\<rparr>) = service_links g"
  by (simp_all add: fun_eq_iff rpc_index_of_def group_by_package_def proto_by_fqcn_def proto_by_bare_def class_fields_def handler_served_methods_def
      call_target_def service_links_def frame_simps cong: option.case_cong)

lemma call_edges_frame [frame_simps]: "call_edges (g\<lparr>g_edges := e\<rparr>) = call_edges g"
  by (intro ext) (simp add: call_edges_def frame_simps cong: if_cong option.case_cong prod.case_cong)

section \<open>The pass as a function of imports and hubs\<close>

definition settle :: "contract_graph \<Rightarrow> contract_edge list \<Rightarrow> contract_graph" where
  "settle g ims =
     (let resolved = resolve_handler_rpc_names g (proto_methods g);
          g' = g\<lparr>g_handler_rpc_names := resolved\<rparr>;
          acc2 = fold (topic_links g) (all_topics g) (insert_edges ims ({}, []));
          acc3 = implements_pass (handlers g resolved) (proto_methods g) acc2;
          acc4 = insert_edges (concat (map (call_edges g' (rpc_index_of g')) (g_rpc_calls g))) acc3 in
      g'\<lparr>g_edges := snd acc4\<rparr>)"

lemma reconcile_settle:
  "wf_mesh g \<Longrightarrow> reconcile_edges clean g = settle (hubs g) (import_edges clean g)"
  by (simp add: reconcile_edges_def settle_def import_pass_edges wf_mesh_def topic_pass_links Let_def
      all_topics_facts[OF same_facts_hubs] frame_simps)

lemma update_swap:
  "g\<lparr>g_edges := e, g_handler_rpc_names := h\<rparr> = g\<lparr>g_handler_rpc_names := h, g_edges := e\<rparr>"
  by (cases g) simp

lemma settle_update [frame_simps]:
  "settle (g\<lparr>g_edges := e\<rparr>) ims = settle g ims"
  "settle (g\<lparr>g_handler_rpc_names := h\<rparr>) ims = settle g ims"
  by (simp_all add: settle_def Let_def update_swap frame_simps)

lemma settle_is_update: "\<exists>h e. settle g ims = g\<lparr>g_handler_rpc_names := h, g_edges := e\<rparr>"
  by (auto simp: settle_def Let_def)

lemma wf_mesh_update:
  "wf_mesh (g\<lparr>g_handler_rpc_names := h, g_edges := e\<rparr>) \<longleftrightarrow> wf_mesh g"
  by (simp add: wf_mesh_def wf_defs facts_off_hubs_def fact_ids_def node_ids_def frame_simps)

lemma wf_mesh_hubs: "wf_mesh g \<Longrightarrow> wf_mesh (hubs g)"
proof -
  assume wf: "wf_mesh g"
  then have w: "wf_graph g" "wf_graph (remove_nodes (stale_hubs g (all_topics g)) g)"
    by (auto simp: wf_mesh_def wf_purged)
  have gr: "grows (remove_nodes (stale_hubs g (all_topics g)) g) (hubs g)"
    unfolding hubs_def by (rule grows_hub_steps[OF w(2)])
  have "\<not> is_hub n" if i: "i \<in> fact_ids (hubs g)" and n: "get_node (hubs g) i = Some n" for i n
  proof -
    have f: "i \<in> fact_ids g" using i fact_ids_same[OF same_facts_hubs] by simp
    with w(1) obtain m where m: "get_node g i = Some m"
      by (auto simp: wf_graph_def facts_wf_iff) (metis get_node_None_iff not_None_eq subsetD)
    with f wf have "\<not> is_hub m" by (auto simp: wf_mesh_def facts_off_hubs_def)
    moreover from this m w(1) have "get_node (remove_nodes (stale_hubs g (all_topics g)) g) i = Some m"
      using stale_hubs_mem[of g i] by (auto simp: get_node_remove_nodes wf_graph_def)
    ultimately show ?thesis using gr n by (simp add: grows_def)
  qed
  then show ?thesis using wf_hubs[OF wf] by (simp add: wf_mesh_def facts_off_hubs_def)
qed

lemma wf_mesh_settle: "wf_mesh (settle g ims) \<longleftrightarrow> wf_mesh g"
  using settle_is_update[of g ims] wf_mesh_update by metis

lemma reconcile_again:
  assumes "wf_mesh g" and "hubs g = g"
  shows "reconcile_edges clean (settle g ims) = settle g (import_edges clean g)"
proof -
  obtain h e where u: "settle g ims = g\<lparr>g_handler_rpc_names := h, g_edges := e\<rparr>"
    using settle_is_update by blast
  have "wf_mesh (settle g ims)" using assms(1) by (simp add: wf_mesh_settle)
  then have "reconcile_edges clean (settle g ims)
    = settle (hubs (settle g ims)) (import_edges clean (settle g ims))"
    by (rule reconcile_settle)
  then show ?thesis by (simp add: u frame_simps assms(2))
qed

lemma reconcile_twice:
  "wf_mesh g \<Longrightarrow> reconcile_edges clean (reconcile_edges clean g) = settle (hubs g) (import_edges clean (hubs g))"
  by (simp add: reconcile_settle[of g] reconcile_again wf_mesh_hubs hubs_idem)

text \<open>
  C6: reconciling settles. The nodes and every index are settled after one pass, the whole graph
  after two; and one pass is already enough when no recorded import resolves differently once the
  topic hubs are in the graph.
\<close>

theorem reconcile_settles:
  assumes "wf_mesh g"
  shows "reconcile_edges clean (reconcile_edges clean (reconcile_edges clean g))
           = reconcile_edges clean (reconcile_edges clean g)
    \<and> g_nodes (reconcile_edges clean (reconcile_edges clean g)) = g_nodes (reconcile_edges clean g)
    \<and> ((\<forall>f \<in> set (import_facts g). fact_edges clean (reconcile_edges clean g) f = fact_edges clean g f) \<longrightarrow>
         reconcile_edges clean (reconcile_edges clean g) = reconcile_edges clean g)"
proof (intro conjI impI)
  note two = reconcile_twice[OF assms, of clean]
  show "reconcile_edges clean (reconcile_edges clean (reconcile_edges clean g))
           = reconcile_edges clean (reconcile_edges clean g)"
    unfolding two by (rule reconcile_again[OF wf_mesh_hubs[OF assms] hubs_idem[OF assms]])
  have n: "g_nodes (settle G i) = g_nodes G" for G i using settle_is_update[of G i] by auto
  show "g_nodes (reconcile_edges clean (reconcile_edges clean g)) = g_nodes (reconcile_edges clean g)"
    unfolding two by (simp only: reconcile_settle[OF assms] n)
  assume same: "\<forall>f \<in> set (import_facts g). fact_edges clean (reconcile_edges clean g) f = fact_edges clean g f"
  obtain h e where u: "reconcile_edges clean g = (hubs g)\<lparr>g_handler_rpc_names := h, g_edges := e\<rparr>"
    using settle_is_update[of "hubs g" "import_edges clean g"] reconcile_settle[OF assms] by metis
  have "import_facts (hubs g) = import_facts g"
    using same_facts_hubs[of g] by (simp add: import_facts_def same_facts_def)
  with same have "import_edges clean (hubs g) = import_edges clean g"
    by (simp add: u import_edges_def frame_simps cong: map_cong)
  then show "reconcile_edges clean (reconcile_edges clean g) = reconcile_edges clean g"
    unfolding two by (simp only: reconcile_settle[OF assms])
qed

lemma wf_mesh_no_hubs: "wf_graph g \<Longrightarrow> list_all (\<lambda>n. \<not> is_hub n) (all_nodes g) \<Longrightarrow> wf_mesh g"
  by (auto simp: wf_mesh_def facts_off_hubs_def list_all_iff dest: get_node_in_all)

definition service_node :: "string \<Rightarrow> string \<Rightarrow> contract_node" where
  "service_node name file =
     \<lparr>n_id = 0, n_name = name, n_kind = ServiceClass, n_file = path_of_str file, n_line_start = 1,
      n_line_end = 9, n_package = ''shop'', n_repo = 0, n_signature = None, n_docstring = None\<rparr>"

text \<open>A service that publishes to the topic \<^verbatim>\<open>orders\<close> and imports a module called \<^verbatim>\<open>orders\<close>.\<close>

definition imports_topic_graph :: contract_graph where
  "imports_topic_graph =
     add_dependency 0 ''orders'' (add_producer 0 ''orders'' (fst (add_node (service_node ''Checkout'' ''src/checkout.py'') empty_graph)))"

lemma wf_imports_topic_graph: "wf_mesh imports_topic_graph"
proof (rule wf_mesh_no_hubs)
  have "0 \<in> node_ids (fst (add_node (service_node ''Checkout'' ''src/checkout.py'') empty_graph))"
    by (subst node_ids_add_node) (simp_all add: nodes_wf_def empty_graph_def)
  then show "wf_graph imports_topic_graph"
    unfolding imports_topic_graph_def
    by (intro wf_add_dependency wf_add_producer wf_add_node wf_empty_graph) (simp_all add: add_producer_def)
  show "list_all (\<lambda>n. \<not> is_hub n) (all_nodes imports_topic_graph)" by code_simp
qed

theorem reconcile_settles_witness:
  "wf_mesh imports_topic_graph
   \<and> reconcile_edges id (reconcile_edges id (reconcile_edges id imports_topic_graph))
       = reconcile_edges id (reconcile_edges id imports_topic_graph)
   \<and> node_count (reconcile_edges id imports_topic_graph) = 2"
proof -
  have "node_count (reconcile_edges id imports_topic_graph) = 2" by code_simp
  with reconcile_settles[OF wf_imports_topic_graph, of id] wf_imports_topic_graph show ?thesis by blast
qed

text \<open>
  One pass is not always enough, against the idempotence the documentation of
  \<^verbatim>\<open>reconcile_edges\<close> states (invariant I3): imports are resolved before the topic hubs are created,
  so an import whose target is also a topic finds the hub only in the second pass.
\<close>

theorem reconcile_not_idempotent:
  "wf_mesh imports_topic_graph
   \<and> map edge_key (g_edges (reconcile_edges id imports_topic_graph)) = [(0, 1, Produces)]
   \<and> map edge_key (g_edges (reconcile_edges id (reconcile_edges id imports_topic_graph)))
       = [(0, 1, Imports), (0, 1, Produces)]"
proof -
  have "map edge_key (g_edges (reconcile_edges id imports_topic_graph)) = [(0, 1, Produces)]"
    "map edge_key (g_edges (reconcile_edges id (reconcile_edges id imports_topic_graph)))
       = [(0, 1, Imports), (0, 1, Produces)]"
    by code_simp+
  with wf_imports_topic_graph show ?thesis by blast
qed

end
