(* ===== verification/Graph_Edges.thy ===== *)
theory Graph_Edges
  imports Graph_Reconcile
begin

text \<open>
  What the edges of a reconciled graph mean: no two edges have the same ends and kind, every edge
  joins live nodes, topics are linked producer to hub to consumer, a wildcard subscription hears
  the subjects it matches up to the cap, and the \<open>Implements\<close> edges are those of a full scan of
  handlers and RPCs.
\<close>

section \<open>No edge twice\<close>

lemma acc_ok_import_loop: "acc_ok acc \<Longrightarrow> acc_ok (import_loop clean g facts resolved memo acc)"
  by (induction clean g facts resolved memo acc rule: import_loop.induct)
    (auto simp: Let_def acc_ok_inserts split: option.split prod.split)

lemma acc_ok_topic_step: "acc_ok (snd s) \<Longrightarrow> acc_ok (snd (topic_step k s))"
  by (simp add: topic_step_def Let_def case_prod_unfold acc_ok_inserts acc_ok_link_heard)

lemma acc_ok_topic_pass: "acc_ok (snd s) \<Longrightarrow> acc_ok (snd (topic_pass s))"
proof -
  have "acc_ok (snd (fold topic_step ks s))" if "acc_ok (snd s)" for ks s
    using that by (induction ks arbitrary: s) (auto simp: acc_ok_topic_step)
  then show "acc_ok (snd s) \<Longrightarrow> acc_ok (snd (topic_pass s))"
    by (simp add: topic_pass_def Let_def case_prod_unfold)
qed

lemma acc_ok_implements_pass: "acc_ok acc \<Longrightarrow> acc_ok (implements_pass hs ms acc)"
  by (simp add: implements_pass_def Let_def acc_ok_inserts)

text \<open>
  After a reconciliation no two edges have the same source, target and kind, whatever edges
  the graph held before.
\<close>

theorem reconcile_edges_unique: "distinct (map edge_key (g_edges (reconcile_edges clean g)))"
proof -
  obtain g1 acc2 where t: "topic_pass (g, import_loop clean g (import_facts g) [] empty_memo ({}, [])) = (g1, acc2)"
    by (meson surj_pair)
  have "acc_ok acc2"
    using acc_ok_topic_pass[of "(g, import_loop clean g (import_facts g) [] empty_memo ({}, []))"]
      acc_ok_import_loop[of "({}, [])"] t by simp
  then have "acc_ok (insert_edges es (implements_pass hs ms acc2))" for es hs ms
    by (simp add: acc_ok_inserts acc_ok_implements_pass)
  then show ?thesis by (simp add: reconcile_edges_def t Let_def acc_ok_def)
qed

section \<open>Where an edge comes from\<close>

definition implements_edges :: "contract_graph \<Rightarrow> contract_edge list" where
  "implements_edges g =
     (let resolved = resolve_handler_rpc_names g (proto_methods g); hs = handlers g resolved;
          ix = handler_index_build hs in
      concat (map (\<lambda>m. List.map_filter (\<lambda>i. implements_edge m (hs ! i))
                         (handler_candidates ix (snd m) (last_segment CHR ''.'' (snd m)))) (proto_methods g)))"

definition all_call_edges :: "contract_graph \<Rightarrow> contract_edge list" where
  "all_call_edges g =
     (let g' = g\<lparr>g_handler_rpc_names := resolve_handler_rpc_names g (proto_methods g)\<rparr> in
      concat (map (call_edges g' (rpc_index_of g')) (g_rpc_calls g)))"

definition topic_acc :: "(path \<Rightarrow> path) \<Rightarrow> contract_graph \<Rightarrow> edge_acc" where
  "topic_acc clean g = fold (topic_links (hubs g)) (all_topics g) (insert_edges (import_edges clean g) ({}, []))"

lemma reconcile_edge_list:
  "wf_mesh g \<Longrightarrow> g_edges (reconcile_edges clean g) =
     snd (insert_edges (all_call_edges (hubs g)) (insert_edges (implements_edges (hubs g)) (topic_acc clean g)))"
  by (simp add: reconcile_settle settle_def implements_pass_def all_call_edges_def implements_edges_def
      topic_acc_def Let_def all_topics_facts[OF same_facts_hubs])

definition wildcard_edges :: "contract_graph \<Rightarrow> string \<Rightarrow> contract_edge set" where
  "wildcard_edges g k =
     (if is_subject_pattern k \<and> subject_consumer g (bucket (g_topic_consumers g) k)
      then {wildcard_edge (the (existing_hub g k)) s p |s p.
              (s, p) \<in> set (heard_producers g k) \<and> p \<notin> set (bucket (g_topic_consumers g) k)}
      else {})"

definition direct_edges :: "contract_graph \<Rightarrow> string \<Rightarrow> contract_edge list" where
  "direct_edges g k =
     map (produces_edge g (the (existing_hub g k)) k) (bucket (g_topic_producers g) k)
     @ map (consumes_edge g (the (existing_hub g k)) k) (bucket (g_topic_consumers g) k)"

lemma topic_links_direct:
  "topic_links g k acc =
     (if is_subject_pattern k \<and> subject_consumer g (bucket (g_topic_consumers g) k)
      then link_heard (the (existing_hub g k)) (bucket (g_topic_consumers g) k) 0 (heard_producers g k)
             (insert_edges (direct_edges g k) acc)
      else insert_edges (direct_edges g k) acc)"
  by (simp add: topic_links_def direct_edges_def Let_def)

lemma set_link_heard:
  "set (snd (link_heard t cs n heard acc)) \<subseteq>
     set (snd acc) \<union> {wildcard_edge t s p |s p. (s, p) \<in> set heard \<and> p \<notin> set cs}"
proof (induction t cs n heard acc rule: link_heard.induct)
  case (2 t cs n subject p heard seen out)
  let ?acc = "insert_edge (wildcard_edge t subject p) (seen, out)"
  have step: "set (snd ?acc) \<subseteq> insert (wildcard_edge t subject p) (set out)"
    by auto
  consider "p \<in> set cs" | "p \<notin> set cs" "n \<ge> MAX_WILDCARD_PRODUCERS"
    | "p \<notin> set cs" "n < MAX_WILDCARD_PRODUCERS" "(p, t, Produces) \<in> seen"
    | "p \<notin> set cs" "n < MAX_WILDCARD_PRODUCERS" "(p, t, Produces) \<notin> seen"
    by (meson not_less)
  then show ?case
  proof cases
    case 1
    from "2.IH"(1)[OF 1] 1 show ?thesis by simp blast
  next
    case 2
    then show ?thesis by simp
  next
    case 3
    then show ?thesis using "2.IH"(2)[OF 3(1) _ 3(3)] by (simp add: not_le) blast
  next
    case 4
    then have eq: "link_heard t cs n ((subject, p) # heard) (seen, out) = link_heard t cs (n + 1) heard ?acc"
      by (simp del: insert_edge.simps)
    have "set (snd (link_heard t cs (n + 1) heard ?acc)) \<subseteq>
        set (snd ?acc) \<union> {wildcard_edge t s q |s q. (s, q) \<in> set heard \<and> q \<notin> set cs}"
      using "2.IH"(3) 4 by (simp del: insert_edge.simps add: not_le)
    with step have "set (snd (link_heard t cs (n + 1) heard ?acc)) \<subseteq>
        insert (wildcard_edge t subject p) (set out)
        \<union> {wildcard_edge t s q |s q. (s, q) \<in> set heard \<and> q \<notin> set cs}"
      by blast
    with 4(1) show ?thesis unfolding eq by (simp del: insert_edge.simps) blast
  qed
qed simp

lemma topic_links_edges:
  "set (snd (topic_links g k acc)) \<subseteq> set (snd acc) \<union> set (direct_edges g k) \<union> wildcard_edges g k"
proof -
  note set_insert_edges[of "direct_edges g k" acc]
  moreover note set_link_heard[of "the (existing_hub g k)" "bucket (g_topic_consumers g) k" 0
      "heard_producers g k" "insert_edges (direct_edges g k) acc"]
  ultimately show ?thesis unfolding topic_links_direct wildcard_edges_def by auto
qed

lemma topic_links_prefix: "prefix (snd acc) (snd (topic_links g k acc))"
  unfolding topic_links_direct
  by (simp add: insert_edges_prefix prefix_order.trans[OF insert_edges_prefix link_heard_prefix])

lemma acc_ok_topic_links: "acc_ok acc \<Longrightarrow> acc_ok (topic_links g k acc)"
  by (simp add: topic_links_direct acc_ok_inserts acc_ok_link_heard)

lemma fold_topic_links_edges:
  "set (snd (fold (topic_links g) ks acc)) \<subseteq>
     set (snd acc) \<union> (\<Union>k \<in> set ks. set (direct_edges g k) \<union> wildcard_edges g k)"
proof (induction ks arbitrary: acc)
  case (Cons k ks)
  then show ?case using topic_links_edges[of g k acc] by fastforce
qed simp

lemma fold_topic_links_prefix: "prefix (snd acc) (snd (fold (topic_links g) ks acc))"
proof (induction ks arbitrary: acc)
  case (Cons k ks)
  then show ?case using topic_links_prefix[of acc g k] prefix_order.trans by fastforce
qed simp

lemma acc_ok_fold_topic_links: "acc_ok acc \<Longrightarrow> acc_ok (fold (topic_links g) ks acc)"
  by (induction ks arbitrary: acc) (auto simp: acc_ok_topic_links)

lemma acc_ok_topic_acc: "acc_ok (topic_acc clean g)"
  by (simp add: topic_acc_def acc_ok_fold_topic_links acc_ok_inserts)

lemma reconcile_edge_origin:
  assumes "wf_mesh g" and "e \<in> set (g_edges (reconcile_edges clean g))"
  shows "e \<in> set (import_edges clean g)
    \<or> (\<exists>k \<in> set (all_topics g). e \<in> set (direct_edges (hubs g) k) \<union> wildcard_edges (hubs g) k)
    \<or> e \<in> set (implements_edges (hubs g)) \<or> e \<in> set (all_call_edges (hubs g))"
proof -
  let ?i = "insert_edges (import_edges clean g) ({}, [])"
  from assms set_insert_edges[of "all_call_edges (hubs g)" "insert_edges (implements_edges (hubs g)) (topic_acc clean g)"]
    set_insert_edges[of "implements_edges (hubs g)" "topic_acc clean g"]
  have "e \<in> set (all_call_edges (hubs g)) \<or> e \<in> set (implements_edges (hubs g)) \<or> e \<in> set (snd (topic_acc clean g))"
    by (auto simp: reconcile_edge_list)
  moreover have "set (snd (topic_acc clean g)) \<subseteq> set (snd ?i)
      \<union> (\<Union>k \<in> set (all_topics g). set (direct_edges (hubs g) k) \<union> wildcard_edges (hubs g) k)"
    unfolding topic_acc_def by (rule fold_topic_links_edges)
  moreover have "set (snd ?i) \<subseteq> set (import_edges clean g)"
    using set_insert_edges[of "import_edges clean g" "({}, [])"] by simp
  ultimately show ?thesis by blast
qed

lemma topic_acc_in_edges: "wf_mesh g \<Longrightarrow> set (snd (topic_acc clean g)) \<subseteq> set (g_edges (reconcile_edges clean g))"
  using set_mono_prefix[OF prefix_order.trans[OF insert_edges_prefix[of "topic_acc clean g" "implements_edges (hubs g)"]
        insert_edges_prefix[of _ "all_call_edges (hubs g)"]]]
  by (simp add: reconcile_edge_list)

section \<open>Edges join live nodes\<close>

lemma node_ids_get: "i \<in> node_ids g \<longleftrightarrow> (\<exists>n. get_node g i = Some n)"
  using get_node_None_iff[of g i] by auto

lemma import_edges_live:
  assumes "wf_graph g" and "e \<in> set (import_edges clean g)"
  shows "e_from e \<in> node_ids g \<and> e_to e \<in> node_ids g \<and> e_kind e = Imports"
proof -
  from assms(2) obtain f where f: "e \<in> set (fact_edges clean g f)" by (auto simp: import_edges_def)
  then obtain n where n: "get_node g (fst f) = Some n"
    by (cases "get_node g (fst f)") (auto simp: fact_edges_def)
  with f obtain c where "get_node g (fst f) = Some n" "e = import_edge (fst f) (snd f) c"
    "c \<in> set (resolve_import_ref clean g (Some (n_repo n)) (importer_dir n (snd f)) (snd f))"
    by (auto simp: fact_edges_def)
  moreover from this have "fst c \<in> node_ids g" using resolve_ref_live[OF assms(1), of "fst c" "snd c"] by simp
  ultimately show ?thesis by (auto simp: import_edge_def node_ids_get)
qed

lemma fact_ids_live: "wf_graph g \<Longrightarrow> fact_ids g \<subseteq> node_ids g"
  by (simp add: wf_graph_def facts_wf_iff)

lemma producers_live: "wf_graph g \<Longrightarrow> p \<in> set (bucket (g_topic_producers g) k) \<Longrightarrow> p \<in> node_ids g"
  using fact_ids_live[of g] by (auto simp: fact_ids_def)

lemma consumers_live: "wf_graph g \<Longrightarrow> p \<in> set (bucket (g_topic_consumers g) k) \<Longrightarrow> p \<in> node_ids g"
  using fact_ids_live[of g] by (auto simp: fact_ids_def)

lemma heard_mem:
  assumes "hm_wf (g_topic_producers g)"
  shows "(s, p) \<in> set (heard_producers g k) \<longleftrightarrow>
     p \<in> set (bucket (g_topic_producers g) s) \<and> \<not> is_subject_pattern s \<and> subject_matches k s"
proof -
  have "(s, ps) \<in> set (g_topic_producers g) \<longleftrightarrow> map_of (g_topic_producers g) s = Some ps" for ps
    using assms by (auto simp: hm_wf_def)
  then show ?thesis
    by (force simp: heard_producers_def concrete_producers_def bucket_map_of split: option.splits if_splits)
qed

lemma hub_live: "existing_hub g k = Some h \<Longrightarrow> h \<in> node_ids g"
  by (auto simp: node_ids_get dest: existing_hub_Some)

lemma topic_edges_live:
  assumes wf: "wf_graph g" and h: "existing_hub g k = Some h"
    and e: "e \<in> set (direct_edges g k) \<union> wildcard_edges g k"
  shows "e_from e \<in> node_ids g \<and> e_to e \<in> node_ids g \<and> e_kind e \<in> {Produces, Consumes}"
proof -
  have "hm_wf (g_topic_producers g)" using wf by (simp add: wf_graph_def facts_wf_iff)
  with e h show ?thesis
    using hub_live[OF h] producers_live[OF wf] consumers_live[OF wf]
    by (auto simp: direct_edges_def wildcard_edges_def produces_edge_def consumes_edge_def
        wildcard_edge_def heard_mem split: if_splits)
qed

lemma all_nodes_live: "nodes_wf g \<Longrightarrow> n \<in> set (all_nodes g) \<Longrightarrow> n_id n \<in> node_ids g"
  by (simp add: node_ids_get all_nodes_get)

lemma implements_edges_live:
  assumes wf: "nodes_wf g" and e: "e \<in> set (implements_edges g)"
  shows "e_from e \<in> node_ids g \<and> e_to e \<in> node_ids g \<and> e_kind e = Implements"
proof -
  let ?hs = "handlers g (resolve_handler_rpc_names g (proto_methods g))"
  from e obtain m i where m: "m \<in> set (proto_methods g)" "implements_edge m (?hs ! i) = Some e"
    and i: "i \<in> set (handler_candidates (handler_index_build ?hs) (snd m) (last_segment CHR ''.'' (snd m)))"
    by (auto simp: implements_edges_def Let_def List.map_filter_def)
  have "i < length ?hs" by (rule candidates_bounds[OF i])
  then have "?hs ! i \<in> set ?hs" by simp
  then have "h_id (?hs ! i) \<in> node_ids g"
    using all_nodes_live[OF wf] by (auto simp: handlers_def handler_of_def Let_def)
  moreover have "fst m \<in> node_ids g"
    using m(1) all_nodes_live[OF wf] by (auto simp: proto_methods_def)
  ultimately show ?thesis using m(2) by (auto simp: implements_edge_def)
qed

lemma bucket_push_all_mem:
  "i \<in> set (bucket (fold (\<lambda>x. hm_push (f x) (v x)) xs m) k) \<Longrightarrow> i \<in> set (bucket m k) \<or> i \<in> v ` set xs"
  by (induction xs arbitrary: m) (fastforce simp: bucket_simps split: if_splits)+

lemma proto_index_live:
  assumes "nodes_wf g"
  shows "set (bucket (proto_by_fqcn g) k) \<subseteq> node_ids g" "set (bucket (proto_by_bare g) k) \<subseteq> node_ids g"
proof -
  have m: "fst ` set (proto_methods g) \<subseteq> node_ids g"
    using all_nodes_live[OF assms] by (auto simp: proto_methods_def)
  have p: "set (bucket (fold (\<lambda>(i, name). hm_push (f name) i) (proto_methods g) []) k) \<subseteq> node_ids g" for f k
    using bucket_push_all_mem[of _ "\<lambda>x. f (snd x)" fst "proto_methods g" "[]" k] m
    by (auto simp: case_prod_unfold)
  then show "set (bucket (proto_by_bare g) k) \<subseteq> node_ids g" by (simp add: proto_by_bare_def)
  show "set (bucket (proto_by_fqcn g) k) \<subseteq> node_ids g"
    unfolding proto_by_fqcn_def
    using bucket_push_all_mem[of _ "\<lambda>n. to_lowercase (n_name n)" n_id "filter (\<lambda>n. n_kind n = GrpcService) (all_nodes g)"]
      p[of to_lowercase k] all_nodes_live[OF assms] by fastforce
qed

lemma picked_live:
  assumes "map_of (group_by_package g m) k = Some pb" and "set (bucket m k) \<subseteq> S"
  shows "fst ` set (bucket_pick pb pkg c) \<subseteq> S" "fst ` set (map (\<lambda>i. (i, c)) (pb_ids pb)) \<subseteq> S"
  using group_pick_subset[OF assms(1), of pkg c] group_ids[OF assms(1)] assms(2) by auto

lemma resolve_rpc_target_live:
  assumes "nodes_wf g"
  shows "fst ` set (resolve_rpc_target t pkg (group_by_package g (proto_by_fqcn g)) (group_by_package g (proto_by_bare g))) \<subseteq> node_ids g"
proof (cases "map_of (group_by_package g (proto_by_fqcn g)) (to_lowercase t)")
  case (Some pb)
  note picked_live[OF Some proto_index_live(1)[OF assms]]
  with Some show ?thesis by (cases pkg) (simp_all only: resolve_rpc_target_def option.case)
next
  case None
  let ?b = "map_of (group_by_package g (proto_by_bare g)) (to_lowercase (last_segment CHR ''.'' t))"
  show ?thesis
  proof (cases ?b)
    case (Some pb)
    note picked_live[OF Some proto_index_live(2)[OF assms]]
    with Some None show ?thesis by (cases pkg) (simp_all only: resolve_rpc_target_def option.case)
  qed (simp add: None resolve_rpc_target_def)
qed

lemma method_links_live:
  assumes "nodes_wf g" and "ri_fqcn ix = group_by_package g (proto_by_fqcn g)"
  shows "fst ` set (method_links ix pkg t inferred) \<subseteq> node_ids g"
proof (cases "map_of (ri_fqcn ix) (to_lowercase t)")
  case (Some pb)
  let ?c = "if inferred then Heuristic else Exact"
  have live: "fst ` set (bucket_pick pb p ?c) \<subseteq> node_ids g" "fst ` set (map (\<lambda>i. (i, ?c)) (pb_ids pb)) \<subseteq> node_ids g" for p
    using picked_live[OF Some[unfolded assms(2)] proto_index_live(1)[OF assms(1)]] by auto
  have "fst ` set (method_links ix pkg t inferred) =
      fst ` set (case pkg of Some p \<Rightarrow> bucket_pick pb p ?c | None \<Rightarrow> map (\<lambda>i. (i, ?c)) (pb_ids pb))"
    by (simp add: method_links_def Some Let_def image_image case_prod_unfold)
  with live show ?thesis by (cases pkg) (simp_all only: option.case)
qed (simp add: method_links_def)

lemma service_links_live:
  assumes "nodes_wf g" and "ri_fqcn ix = group_by_package g (proto_by_fqcn g)"
    and "ri_bare ix = group_by_package g (proto_by_bare g)"
  shows "fst ` set (service_links g' ix pkg t) \<subseteq> node_ids g"
  using resolve_rpc_target_live[OF assms(1), of t pkg] resolve_rpc_target_live[OF assms(1), of "t @ ''Service''" pkg]
  unfolding service_links_def Let_def assms(2,3) by auto

lemma call_edges_live:
  assumes "wf_graph g" and "e \<in> set (all_call_edges g)"
  shows "e_from e \<in> node_ids g \<and> e_to e \<in> node_ids g \<and> e_kind e = CallsRpc"
proof -
  have nw: "nodes_wf g" using assms(1) by (simp add: wf_graph_def)
  let ?g = "g\<lparr>g_handler_rpc_names := resolve_handler_rpc_names g (proto_methods g)\<rparr>"
  have ix: "ri_fqcn (rpc_index_of ?g) = group_by_package g (proto_by_fqcn g)"
    "ri_bare (rpc_index_of ?g) = group_by_package g (proto_by_bare g)"
    by (simp_all add: rpc_index_of_def group_by_package_def proto_by_fqcn_def proto_by_bare_def frame_simps)
  from assms(2) obtain caller r where r: "(caller, r) \<in> set (g_rpc_calls g)"
    "e \<in> set (call_edges ?g (rpc_index_of ?g) (caller, r))"
    by (auto simp: all_call_edges_def Let_def)
  have "caller \<in> node_ids g" using r(1) fact_ids_live[OF assms(1)] by (force simp: fact_ids_def)
  moreover from r(2) obtain t c where e: "e_from e = caller" "e_to e = fst c" "e_kind e = CallsRpc"
    and "(\<exists>pkg inferred. c \<in> set (method_links (rpc_index_of ?g) pkg t inferred))
       \<or> (\<exists>pkg. c \<in> set (service_links ?g (rpc_index_of ?g) pkg t))"
    by (force simp: call_edges_def Let_def split: option.splits if_splits prod.splits)
  then have "fst c \<in> node_ids g"
    using method_links_live[OF nw ix(1)] service_links_live[OF nw ix] by blast
  ultimately show ?thesis using e by simp
qed

lemma node_ids_hubs: "wf_mesh g \<Longrightarrow> stale_hubs g (all_topics g) = [] \<Longrightarrow> node_ids g \<subseteq> node_ids (hubs g)"
  using grows_hub_steps[of g "all_topics g"] by (auto simp: hubs_def wf_mesh_def grows_def node_ids_get)

lemma reconcile_node_ids: "wf_mesh g \<Longrightarrow> node_ids (reconcile_edges clean g) = node_ids (hubs g)"
  using settle_is_update[of "hubs g" "import_edges clean g"] by (auto simp: reconcile_settle node_ids_def)

lemma reconcile_ends_live:
  assumes "wf_mesh g" and "stale_hubs g (all_topics g) = []" and "e \<in> set (g_edges (reconcile_edges clean g))"
  shows "e_from e \<in> node_ids (reconcile_edges clean g) \<and> e_to e \<in> node_ids (reconcile_edges clean g)"
proof -
  from reconcile_edge_origin[OF assms(1,3)]
  consider "e \<in> set (import_edges clean g)"
    | k where "k \<in> set (all_topics g)" "e \<in> set (direct_edges (hubs g) k) \<union> wildcard_edges (hubs g) k"
    | "e \<in> set (implements_edges (hubs g))" | "e \<in> set (all_call_edges (hubs g))" by blast
  then have "e_from e \<in> node_ids (hubs g) \<and> e_to e \<in> node_ids (hubs g)"
  proof cases
    case 1
    then show ?thesis
      using import_edges_live[of g e clean] node_ids_hubs[OF assms(1,2)] assms(1) by (auto simp: wf_mesh_def)
  next
    case (2 k)
    with hubs_existing[OF assms(1)] topic_edges_live[OF wf_hubs[OF assms(1)]] show ?thesis by blast
  next
    case 3
    with implements_edges_live wf_hubs[OF assms(1)] show ?thesis by (auto simp: wf_graph_def)
  next
    case 4
    with call_edges_live[OF wf_hubs[OF assms(1)]] show ?thesis by blast
  qed
  then show ?thesis by (simp add: reconcile_node_ids assms(1))
qed

text \<open>
  When no topic hub of an earlier pass has lost its topic, every edge of the reconciled graph
  joins two nodes of the graph.
\<close>

theorem reconcile_edges_live:
  assumes "wf_mesh g" and "stale_hubs g (all_topics g) = []"
  shows "\<forall>e \<in> set (g_edges (reconcile_edges clean g)).
    e_from e \<in> node_ids (reconcile_edges clean g) \<and> e_to e \<in> node_ids (reconcile_edges clean g)"
  using reconcile_ends_live[OF assms] by blast

section \<open>Producers reach consumers through the hub\<close>

definition lower_topics :: "contract_graph \<Rightarrow> bool" where
  "lower_topics g \<longleftrightarrow> (\<forall>k \<in> set (all_topics g). to_lowercase k = k)"

lemma distinct_all_topics: "distinct (all_topics g)"
  using strict_sorted_remdups_adj[of "sort (map fst (g_topic_producers g) @ map fst (g_topic_consumers g))"]
  by (simp add: all_topics_def strict_sorted_iff)

lemma topic_mem:
  "p \<in> set (bucket (g_topic_producers g) k) \<or> p \<in> set (bucket (g_topic_consumers g) k) \<Longrightarrow> k \<in> set (all_topics g)"
  using bucket_not_key[of k "g_topic_producers g"] bucket_not_key[of k "g_topic_consumers g"]
  by (force simp: all_topics_def)

lemma hub_named:
  assumes "wf_mesh g" and "lower_topics g" and "existing_hub (hubs g) k = Some h"
  shows "\<exists>n. get_node (hubs g) h = Some n \<and> n_name n = k \<and> n_kind n = EventStream"
proof -
  have wf: "nodes_wf (hubs g)" "indices_wf (hubs g)" using wf_hubs[OF assms(1)] by (auto simp: wf_graph_def)
  from existing_hub_Some[OF assms(3)] obtain n where
    n: "get_node (hubs g) h = Some n" "n_package n = ''event-bus''" "n_kind n = EventStream"
    and b: "h \<in> set (bucket (g_name_to_nodes (hubs g)) k)" by auto
  have "k \<in> set (name_keys n)"
    using index_exact_live[OF wf(1) _ b, of name_keys] wf(2) n(1) by (auto simp: indices_wf_def)
  moreover have "n_name n \<in> set (all_topics g)"
    using stale_hubs_mem[OF wf(1), of h "all_topics g"] hubs_not_stale[OF assms(1)] n
    by (auto simp: is_hub_def stream_like_def)
  ultimately have "n_name n = k"
    using assms(2) n(3) by (auto simp: name_keys_def lower_topics_def stream_like_def)
  with n show ?thesis by blast
qed

lemma hub_inj:
  "wf_mesh g \<Longrightarrow> lower_topics g \<Longrightarrow> existing_hub (hubs g) k = Some h \<Longrightarrow> existing_hub (hubs g) k' = Some h \<Longrightarrow> k = k'"
  using hub_named by (metis option.inject)

lemma hub_end:
  assumes "e \<in> set (direct_edges g k) \<union> wildcard_edges g k" and "existing_hub g k = Some h"
  shows "e_kind e = Produces \<and> e_to e = h \<or> e_kind e = Consumes \<and> e_from e = h"
  using assms by (auto simp: direct_edges_def wildcard_edges_def produces_edge_def consumes_edge_def
      wildcard_edge_def split: if_splits)

lemma direct_edge_unique:
  "e \<in> set (direct_edges g k) \<Longrightarrow> e' \<in> set (direct_edges g k) \<Longrightarrow> edge_key e' = edge_key e \<Longrightarrow> e' = e"
  by (auto simp: direct_edges_def produces_edge_def consumes_edge_def edge_key_def)

lemma direct_edge_present:
  assumes wf: "wf_mesh g" and low: "lower_topics g" and k: "k \<in> set (all_topics g)"
    and e: "e \<in> set (direct_edges (hubs g) k)"
  shows "e \<in> set (g_edges (reconcile_edges clean g))"
proof -
  obtain ks1 ks2 where ks: "all_topics g = ks1 @ k # ks2" "k \<notin> set ks1"
    using k split_list_first by metis
  define acc where "acc = fold (topic_links (hubs g)) ks1 (insert_edges (import_edges clean g) ({}, []))"
  have ok: "acc_ok acc" by (simp add: acc_def acc_ok_fold_topic_links acc_ok_inserts)
  obtain h where h: "existing_hub (hubs g) k = Some h" using hubs_existing[OF wf k] by auto
  have "edge_key e' \<noteq> edge_key e" if "e' \<in> set (snd acc)" for e'
  proof -
    from that fold_topic_links_edges[of "hubs g" ks1] set_insert_edges[of "import_edges clean g" "({}, [])"]
    consider "e' \<in> set (import_edges clean g)"
      | k' where "k' \<in> set ks1" "e' \<in> set (direct_edges (hubs g) k') \<union> wildcard_edges (hubs g) k'"
      unfolding acc_def by fastforce
    then show ?thesis
    proof cases
      case 1
      with import_edges_live[of g e' clean] wf hub_end[OF _ h, of e] e show ?thesis
        by (auto simp: edge_key_def wf_mesh_def)
    next
      case (2 k')
      then obtain h' where h': "existing_hub (hubs g) k' = Some h'" using hubs_existing[OF wf, of k'] ks(1) by auto
      with hub_inj[OF wf low h] 2(1) ks(2) have "h' \<noteq> h" by metis
      with hub_end[OF 2(2) h'] hub_end[OF _ h, of e] e show ?thesis by (auto simp: edge_key_def)
    qed
  qed
  then have "edge_key e \<notin> fst acc" using ok by (metis acc_ok_def imageE)
  from insert_edges_pushes[OF ok this e] direct_edge_unique[OF e]
  have "e \<in> set (snd (insert_edges (direct_edges (hubs g) k) acc))" by blast
  then have "e \<in> set (snd (topic_links (hubs g) k acc))"
    using set_mono_prefix[OF link_heard_prefix[of "insert_edges (direct_edges (hubs g) k) acc"]]
    unfolding topic_links_direct by (simp add: subset_iff)
  then have "e \<in> set (snd (topic_acc clean g))"
    using set_mono_prefix[OF fold_topic_links_prefix, of "topic_links (hubs g) k acc" "hubs g" ks2]
    by (auto simp: topic_acc_def ks(1) acc_def)
  then show ?thesis using topic_acc_in_edges[OF wf] by blast
qed

text \<open>
  C5: a producer and a consumer of the same topic are joined through one hub node named after the
  topic, by a \<open>Produces\<close> and a \<open>Consumes\<close> edge with the confidence each was registered with.
\<close>

theorem topic_two_hop:
  assumes "wf_mesh g" and "lower_topics g"
    and "p \<in> set (bucket (g_topic_producers g) k)" and "c \<in> set (bucket (g_topic_consumers g) k)"
  shows "\<exists>h n. get_node (reconcile_edges clean g) h = Some n \<and> n_name n = k \<and> n_kind n = EventStream
    \<and> produces_edge g h k p \<in> set (g_edges (reconcile_edges clean g))
    \<and> consumes_edge g h k c \<in> set (g_edges (reconcile_edges clean g))"
proof -
  have k: "k \<in> set (all_topics g)" using topic_mem assms(3) by blast
  obtain h where h: "existing_hub (hubs g) k = Some h" using hubs_existing[OF assms(1) k] by auto
  have sf: "same_facts g (hubs g)" by (rule same_facts_hubs)
  then have b: "bucket (g_topic_producers (hubs g)) k = bucket (g_topic_producers g) k"
    "bucket (g_topic_consumers (hubs g)) k = bucket (g_topic_consumers g) k"
    by (simp_all add: same_facts_def)
  have "produces_edge g h k p \<in> set (direct_edges (hubs g) k)"
    "consumes_edge g h k c \<in> set (direct_edges (hubs g) k)"
    using assms(3,4) by (auto simp: direct_edges_def h b links_facts[OF sf])
  then have "produces_edge g h k p \<in> set (g_edges (reconcile_edges clean g))"
    "consumes_edge g h k c \<in> set (g_edges (reconcile_edges clean g))"
    using direct_edge_present[OF assms(1,2) k] by blast+
  moreover obtain a e where "reconcile_edges clean g = (hubs g)\<lparr>g_handler_rpc_names := a, g_edges := e\<rparr>"
    using settle_is_update reconcile_settle[OF assms(1)] by metis
  then have "get_node (reconcile_edges clean g) = get_node (hubs g)" by (simp add: frame_simps)
  ultimately show ?thesis using hub_named[OF assms(1,2) h] by auto
qed

section \<open>The mesh as a machine\<close>

text \<open>
  The operations of an indexing cycle: nodes and facts are folded in file by file, files are
  purged, the edges are reconciled. Callers record facts about nodes they have just added, which
  are never topic hubs.
\<close>

datatype mesh_op = Fold graph_op | Reconcile

fun mesh_step :: "(path \<Rightarrow> path) \<Rightarrow> mesh_op \<Rightarrow> contract_graph \<Rightarrow> contract_graph" where
  "mesh_step clean (Fold op) g = graph_step op g"
| "mesh_step clean Reconcile g = reconcile_edges clean g"

definition plain_node :: "contract_graph \<Rightarrow> node_id \<Rightarrow> bool" where
  "plain_node g i \<longleftrightarrow> (case get_node g i of Some n \<Rightarrow> \<not> is_hub n | None \<Rightarrow> False)"

fun mesh_op_ok :: "mesh_op \<Rightarrow> contract_graph \<Rightarrow> bool" where
  "mesh_op_ok (Fold (AddNode n)) g = (\<not> is_hub n)"
| "mesh_op_ok (Fold (AddEdge e)) g = plain_node g (e_from e)"
| "mesh_op_ok (Fold (AddDependency i t)) g = plain_node g i"
| "mesh_op_ok (Fold (AddProducer i t)) g = plain_node g i"
| "mesh_op_ok (Fold (AddConsumer i t)) g = plain_node g i"
| "mesh_op_ok (Fold (MarkHeuristic i)) g = plain_node g i"
| "mesh_op_ok (Fold (AddRpcCall i t)) g = plain_node g i"
| "mesh_op_ok (Fold (PatchFiles ps)) g = True"
| "mesh_op_ok Reconcile g = True"

definition mesh_inv :: "contract_graph \<Rightarrow> bool" where
  "mesh_inv g \<longleftrightarrow> wf_mesh g \<and> lower_topics g"

lemma lower_topics_iff:
  "lower_topics g \<longleftrightarrow> (\<forall>k \<in> fst ` set (g_topic_producers g) \<union> fst ` set (g_topic_consumers g). to_lowercase k = k)"
  by (auto simp: lower_topics_def all_topics_def)

lemma off_hubs_mono:
  assumes "facts_off_hubs g" and "fact_ids g' \<subseteq> fact_ids g \<union> {i}"
    and "\<And>j. get_node g' j = get_node g j" and "plain_node g i"
  shows "facts_off_hubs g'"
  using assms by (auto simp: facts_off_hubs_def plain_node_def split: option.splits)

lemma fact_ids_push:
  "fact_ids (add_dependency i t g) \<subseteq> fact_ids g \<union> {i}"
  "fact_ids (add_producer i t g) \<subseteq> fact_ids g \<union> {i}"
  "fact_ids (add_consumer i t g) \<subseteq> fact_ids g \<union> {i}"
  "fact_ids (mark_heuristic_topic_node i g) \<subseteq> fact_ids g \<union> {i}"
  "fact_ids (add_rpc_call i t g) \<subseteq> fact_ids g \<union> {i}"
  by (auto simp: fact_ids_def add_dependency_def add_producer_def add_consumer_def
      mark_heuristic_topic_node_def add_rpc_call_def bucket_simps split: if_splits)

lemma fact_ids_add_edge: "fact_ids (add_edge e g) \<subseteq> fact_ids g \<union> {e_from e}"
  by (cases "e_kind e"; cases "get_node g (e_to e)")
    (auto simp: fact_ids_def add_edge_def Let_def bucket_simps split: if_splits)

lemma get_node_facts_update:
  "get_node (add_dependency i t g) j = get_node g j" "get_node (add_producer i t g) j = get_node g j"
  "get_node (add_consumer i t g) j = get_node g j" "get_node (mark_heuristic_topic_node i g) j = get_node g j"
  "get_node (add_rpc_call i t g) j = get_node g j" "get_node (add_edge e g) j = get_node g j"
  by (cases "e_kind e"; cases "get_node g (e_to e)";
      simp add: get_node_def add_dependency_def add_producer_def add_consumer_def
      mark_heuristic_topic_node_def add_rpc_call_def add_edge_def Let_def)+

lemma plain_node_live: "plain_node g i \<Longrightarrow> i \<in> node_ids g"
  by (auto simp: plain_node_def node_ids_get split: option.splits)

lemma facts_off_hubs_add_node:
  assumes "wf_mesh g" and "\<not> is_hub n"
  shows "facts_off_hubs (fst (add_node n g))"
proof -
  have "nodes_wf g" using assms(1) by (simp add: wf_mesh_def wf_graph_def)
  moreover have "fact_ids (fst (add_node n g)) = fact_ids g" by (simp add: fact_ids_def)
  moreover have "is_hub (n\<lparr>n_id := i\<rparr>) = is_hub n" for i by (simp add: is_hub_def)
  ultimately show ?thesis
    using assms by (auto simp: facts_off_hubs_def get_node_add_node wf_mesh_def)
qed

lemma patch_files_shrinks:
  assumes wf: "wf_graph g"
  shows "fact_ids (patch_files ps g) \<subseteq> fact_ids g"
    and "get_node (patch_files ps g) i = Some n \<Longrightarrow> get_node g i = Some n"
proof -
  note facts = patch_files_facts[OF wf, of ps]
  have "g_heuristic_topic_nodes (patch_files ps g) \<subseteq> g_heuristic_topic_nodes g"
    by (auto simp: patch_files_def Let_def split: prod.splits if_splits)
  then show "fact_ids (patch_files ps g) \<subseteq> fact_ids g"
    using facts(2,3) by (auto simp: fact_ids_def)
  have "nodes_wf g" "nodes_wf (patch_files ps g)" using wf wf_patch_files[OF wf] by (simp_all add: wf_graph_def)
  then show "get_node (patch_files ps g) i = Some n \<Longrightarrow> get_node g i = Some n"
    using facts(1) by (auto simp: get_node_Some_iff)
qed

lemma lower_topics_patch:
  assumes wf: "wf_graph g" and low: "lower_topics g"
  shows "lower_topics (patch_files ps g)"
proof -
  let ?g = "patch_files ps g"
  have fw: "hm_wf (g_topic_producers ?g)" "hm_wf (g_topic_consumers ?g)"
    using wf_patch_files[OF wf, of ps] by (auto simp: wf_graph_def facts_wf_iff)
  note facts = patch_files_facts(2)[OF wf, of ps]
  have "k \<in> fst ` set (g_topic_producers g)" if "k \<in> fst ` set (g_topic_producers ?g)" for k
    using bucket_key[OF fw(1) that] bucket_not_key[of k "g_topic_producers g"] facts by fastforce
  moreover have "k \<in> fst ` set (g_topic_consumers g)" if "k \<in> fst ` set (g_topic_consumers ?g)" for k
    using bucket_key[OF fw(2) that] bucket_not_key[of k "g_topic_consumers g"] facts by fastforce
  ultimately show ?thesis using low unfolding lower_topics_iff by blast
qed

lemma lower_topics_facts: "same_facts g g' \<Longrightarrow> lower_topics g' = lower_topics g"
  by (simp add: lower_topics_def all_topics_facts)

lemma lower_topics_fold_ops:
  "lower_topics g \<Longrightarrow> lower_topics (add_dependency i t g)"
  "lower_topics g \<Longrightarrow> lower_topics (add_producer i t g)"
  "lower_topics g \<Longrightarrow> lower_topics (add_consumer i t g)"
  "lower_topics g \<Longrightarrow> lower_topics (mark_heuristic_topic_node i g)"
  "lower_topics g \<Longrightarrow> lower_topics (add_rpc_call i t g)"
  "lower_topics g \<Longrightarrow> lower_topics (fst (add_node n g))"
  by (auto simp: lower_topics_iff add_dependency_def add_producer_def add_consumer_def
      mark_heuristic_topic_node_def add_rpc_call_def keys_hm_push normalize_topic_key_lowercase)

lemma lower_topics_add_edge: "lower_topics g \<Longrightarrow> lower_topics (add_edge e g)"
  by (cases "e_kind e"; cases "get_node g (e_to e)")
    (auto simp: lower_topics_iff add_edge_def Let_def keys_hm_push)

lemma mesh_inv_reconcile: "mesh_inv g \<Longrightarrow> mesh_inv (reconcile_edges clean g)"
proof -
  assume inv: "mesh_inv g"
  then have wf: "wf_mesh g" by (simp add: mesh_inv_def)
  obtain h e where r: "reconcile_edges clean g = (hubs g)\<lparr>g_handler_rpc_names := h, g_edges := e\<rparr>"
    using settle_is_update reconcile_settle[OF wf] by metis
  have "lower_topics (hubs g)" using inv lower_topics_facts[OF same_facts_hubs] by (simp add: mesh_inv_def)
  then have "lower_topics (reconcile_edges clean g)" by (simp add: r lower_topics_def frame_simps)
  then show ?thesis using wf_mesh_hubs[OF wf] by (simp add: mesh_inv_def r wf_mesh_update)
qed

lemma mesh_inv_fold:
  assumes "mesh_inv g" and "mesh_op_ok (Fold op) g"
  shows "mesh_inv (graph_step op g)"
proof -
  have wf: "wf_mesh g" "wf_graph g" "facts_off_hubs g" and low: "lower_topics g"
    using assms(1) by (auto simp: mesh_inv_def wf_mesh_def)
  have "graph_op_ok op g" using assms(2) plain_node_live by (cases op) auto
  then have "wf_graph (graph_step op g)" by (rule wf_graph_step[OF wf(2)])
  moreover have "lower_topics (graph_step op g)"
    using low lower_topics_patch[OF wf(2)] by (cases op) (simp_all add: lower_topics_fold_ops lower_topics_add_edge)
  moreover have "facts_off_hubs (graph_step op g)"
  proof (cases op)
    case (AddNode n)
    with facts_off_hubs_add_node[OF wf(1)] assms(2) show ?thesis by simp
  next
    case (PatchFiles ps)
    with patch_files_shrinks[OF wf(2)] wf(3) show ?thesis
      by (simp add: facts_off_hubs_def) blast
  qed (use assms(2) off_hubs_mono[OF wf(3) fact_ids_add_edge get_node_facts_update(6)]
        off_hubs_mono[OF wf(3) fact_ids_push(1) get_node_facts_update(1)]
        off_hubs_mono[OF wf(3) fact_ids_push(2) get_node_facts_update(2)]
        off_hubs_mono[OF wf(3) fact_ids_push(3) get_node_facts_update(3)]
        off_hubs_mono[OF wf(3) fact_ids_push(4) get_node_facts_update(4)]
        off_hubs_mono[OF wf(3) fact_ids_push(5) get_node_facts_update(5)] in simp_all)
  ultimately show ?thesis by (simp add: mesh_inv_def wf_mesh_def)
qed

lemma mesh_inv_step: "mesh_inv g \<Longrightarrow> mesh_op_ok op g \<Longrightarrow> mesh_inv (mesh_step clean op g)"
  by (cases op) (simp_all add: mesh_inv_fold mesh_inv_reconcile)

lemma mesh_inv_empty: "mesh_inv empty_graph"
proof -
  have "fact_ids empty_graph = {}" "all_topics empty_graph = []"
    by (auto simp: fact_ids_def empty_graph_def all_topics_def)
  then show ?thesis by (simp add: mesh_inv_def wf_mesh_def wf_empty_graph facts_off_hubs_def lower_topics_def)
qed

interpretation mesh_machine: invariant_machine "mesh_step clean" mesh_op_ok empty_graph mesh_inv for clean
  by unfold_locales (simp_all add: mesh_inv_empty mesh_inv_step)

fun mesh_run_ok :: "(path \<Rightarrow> path) \<Rightarrow> mesh_op list \<Rightarrow> contract_graph \<Rightarrow> bool" where
  "mesh_run_ok clean [] g = True"
| "mesh_run_ok clean (op # ops) g = (mesh_op_ok op g \<and> mesh_run_ok clean ops (mesh_step clean op g))"

lemma mesh_run_ok_allowed: "mesh_run_ok clean ops g = mesh_machine.run_allowed clean ops g"
  by (induction ops arbitrary: g) simp_all

definition mesh_run :: "(path \<Rightarrow> path) \<Rightarrow> mesh_op list \<Rightarrow> contract_graph" where
  "mesh_run clean ops = fold (mesh_step clean) ops empty_graph"

lemma mesh_run_inv: "mesh_run_ok clean ops empty_graph \<Longrightarrow> mesh_inv (mesh_run clean ops)"
  unfolding mesh_run_def mesh_run_ok_allowed by (rule mesh_machine.inv_run)


text \<open>A shop: a checkout publishes \<^verbatim>\<open>orders.created\<close>, a mailer consumes it, an audit listens to
  \<^verbatim>\<open>orders.*\<close>.\<close>

definition shop_ops :: "mesh_op list" where
  "shop_ops =
     [Fold (AddNode (service_node ''Checkout'' ''src/checkout.ts'')),
      Fold (AddNode (service_node ''Mailer'' ''src/mailer.ts'')),
      Fold (AddNode (service_node ''Audit'' ''src/audit.ts'')),
      Fold (AddProducer 0 ''orders.created''),
      Fold (AddConsumer 1 ''orders.created''),
      Fold (AddConsumer 2 ''orders.*'')]"

definition shop :: contract_graph where
  "shop = mesh_run id shop_ops"

lemma shop_ok: "mesh_run_ok id shop_ops empty_graph"
  by code_simp

lemma shop_wf: "wf_mesh shop" "lower_topics shop"
  using mesh_run_inv[OF shop_ok] by (simp_all add: shop_def mesh_inv_def)


theorem reconcile_edges_live_witness:
  "wf_mesh shop \<and> stale_hubs shop (all_topics shop) = [] \<and> edge_count (reconcile_edges id shop) = 4
   \<and> list_all (\<lambda>e. e_from e \<in> node_ids (reconcile_edges id shop) \<and> e_to e \<in> node_ids (reconcile_edges id shop))
       (g_edges (reconcile_edges id shop))"
proof -
  have s: "stale_hubs shop (all_topics shop) = []" by code_simp
  have c: "edge_count (reconcile_edges id shop) = 4" by code_simp
  show ?thesis unfolding list_all_iff by (intro conjI shop_wf(1) s c reconcile_edges_live)
qed

theorem topic_two_hop_witness:
  "0 \<in> set (bucket (g_topic_producers shop) ''orders.created'')
   \<and> 1 \<in> set (bucket (g_topic_consumers shop) ''orders.created'')
   \<and> (\<exists>h n. get_node (reconcile_edges id shop) h = Some n \<and> n_name n = ''orders.created'' \<and> n_kind n = EventStream
        \<and> produces_edge shop h ''orders.created'' 0 \<in> set (g_edges (reconcile_edges id shop))
        \<and> consumes_edge shop h ''orders.created'' 1 \<in> set (g_edges (reconcile_edges id shop)))"
proof -
  have p: "0 \<in> set (bucket (g_topic_producers shop) ''orders.created'')" by code_simp
  have c: "1 \<in> set (bucket (g_topic_consumers shop) ''orders.created'')" by code_simp
  show ?thesis by (intro conjI p c topic_two_hop[OF shop_wf p c])
qed

section \<open>Wildcard subscriptions\<close>

lemma link_heard_mono: "fst acc \<subseteq> fst (link_heard t cs n heard acc)"
proof (induction t cs n heard acc rule: link_heard.induct)
  case (2 t cs n subject p heard seen out)
  then show ?case by (auto simp: edge_key_def wildcard_edge_def split: if_splits)
qed simp

lemma link_heard_all:
  assumes "(s, p) \<in> set heard" and "p \<notin> set cs" and "n + length heard \<le> MAX_WILDCARD_PRODUCERS"
  shows "(p, t, Produces) \<in> fst (link_heard t cs n heard acc)"
  using assms
proof (induction t cs n heard acc rule: link_heard.induct)
  case (2 t cs n subject q heard seen out)
  have key: "edge_key (wildcard_edge t subject q) = (q, t, Produces)"
    by (simp add: edge_key_def wildcard_edge_def)
  show ?case
  proof (cases "(s, p) = (subject, q)")
    case True
    with 2 key show ?thesis
      using link_heard_mono[of "(seen, out)" t cs n heard]
        link_heard_mono[of "(insert (q, t, Produces) seen, out @ [wildcard_edge t subject q])" t cs "n + 1" heard]
      by auto
  next
    case False
    with 2 key show ?thesis by (auto split: if_splits)
  qed
qed simp

lemma link_heard_bounded:
  "length (snd (link_heard t cs n heard acc)) \<le> length (snd acc) + (MAX_WILDCARD_PRODUCERS - n)"
proof (induction t cs n heard acc rule: link_heard.induct)
  case (2 t cs n subject p heard seen out)
  then show ?case by (cases "n < MAX_WILDCARD_PRODUCERS") (auto simp: not_less split: if_splits)
qed simp

lemma fact_nodes_kept:
  assumes "wf_mesh g" and "i \<in> fact_ids g"
  shows "get_node (hubs g) i = get_node g i"
proof -
  have wf: "nodes_wf g" "fact_ids g \<subseteq> node_ids g" using assms(1) by (auto simp: wf_mesh_def wf_graph_def facts_wf_iff)
  then obtain n where n: "get_node g i = Some n" using assms(2) node_ids_get[of i g] by blast
  with assms have "\<not> is_hub n" by (auto simp: wf_mesh_def facts_off_hubs_def)
  with n wf(1) have "get_node (remove_nodes (stale_hubs g (all_topics g)) g) i = Some n"
    by (auto simp: get_node_remove_nodes stale_hubs_mem)
  then show ?thesis
    using grows_hub_steps[OF wf_purged[OF assms(1)], of "all_topics g" "all_topics g"] n
    by (simp add: hubs_def grows_def)
qed

lemma topic_links_in_edges:
  assumes "wf_mesh g" and "k \<in> set (all_topics g)"
    and "\<And>acc. acc_ok acc \<Longrightarrow> key \<in> fst (topic_links (hubs g) k acc)"
  shows "\<exists>e \<in> set (g_edges (reconcile_edges clean g)). edge_key e = key"
proof -
  obtain ks1 ks2 where ks: "all_topics g = ks1 @ k # ks2" using assms(2) split_list by metis
  define acc where "acc = fold (topic_links (hubs g)) ks1 (insert_edges (import_edges clean g) ({}, []))"
  have ok: "acc_ok acc" by (simp add: acc_def acc_ok_fold_topic_links acc_ok_inserts)
  from assms(3)[OF ok] acc_ok_topic_links[OF ok]
  obtain e where e: "e \<in> set (snd (topic_links (hubs g) k acc))" "edge_key e = key" by (auto simp: acc_ok_def)
  then have "e \<in> set (snd (topic_acc clean g))"
    using set_mono_prefix[OF fold_topic_links_prefix, of "topic_links (hubs g) k acc" "hubs g" ks2]
    by (auto simp: topic_acc_def ks acc_def)
  with e(2) topic_acc_in_edges[OF assms(1)] show ?thesis by blast
qed

text \<open>
  A wildcard subscription hears every producer of every concrete subject it matches, through
  its own hub, as long as the matching producers are no more than the cap; a producer that itself
  consumes the pattern is left out.
\<close>

theorem wildcard_hears:
  assumes "wf_mesh g" and "lower_topics g"
    and "is_subject_pattern k" and "subject_consumer g (bucket (g_topic_consumers g) k)"
    and "p \<in> set (bucket (g_topic_producers g) s)" and "\<not> is_subject_pattern s" and "subject_matches k s"
    and "p \<notin> set (bucket (g_topic_consumers g) k)"
    and "length (heard_producers g k) \<le> MAX_WILDCARD_PRODUCERS"
  shows "\<exists>h n. existing_hub (hubs g) k = Some h \<and> get_node (hubs g) h = Some n \<and> n_name n = k
    \<and> (\<exists>e \<in> set (g_edges (reconcile_edges clean g)). edge_key e = (p, h, Produces))"
proof -
  have sf: "same_facts g (hubs g)" by (rule same_facts_hubs)
  have "bucket (g_topic_consumers g) k \<noteq> []" using assms(4) by (auto simp: subject_consumer_def)
  then have k: "k \<in> set (all_topics g)" using topic_mem[of _ g k] by (cases "bucket (g_topic_consumers g) k") auto
  obtain h where h: "existing_hub (hubs g) k = Some h" using hubs_existing[OF assms(1) k] by auto
  have "hm_wf (g_topic_producers g)" using assms(1) by (simp add: wf_mesh_def wf_graph_def facts_wf_iff)
  with assms(5-7) have heard: "(s, p) \<in> set (heard_producers g k)" by (simp add: heard_mem)
  have live: "set (bucket (g_topic_consumers g) k) \<subseteq> fact_ids g" by (auto simp: fact_ids_def)
  have "get_node (hubs g) i = get_node g i" if "i \<in> fact_ids g" for i
    using fact_nodes_kept[OF assms(1) that] .
  with live assms(4) have sc: "subject_consumer (hubs g) (bucket (g_topic_consumers g) k)"
    by (auto simp: subject_consumer_def list_ex_iff subset_iff)
  have "(p, h, Produces) \<in> fst (topic_links (hubs g) k acc)" for acc
    using link_heard_all[OF heard assms(8), of 0 h] assms(3,9) sc sf
    by (simp add: topic_links_direct h links_facts[OF sf] same_facts_def)
  then show ?thesis
    using topic_links_in_edges[OF assms(1) k] hub_named[OF assms(1,2) h] h by blast
qed

theorem wildcard_hears_witness:
  "is_subject_pattern ''orders.*'' \<and> subject_matches ''orders.*'' ''orders.created''
   \<and> (\<exists>h n. existing_hub (hubs shop) ''orders.*'' = Some h \<and> get_node (hubs shop) h = Some n \<and> n_name n = ''orders.*''
        \<and> (\<exists>e \<in> set (g_edges (reconcile_edges id shop)). edge_key e = (0, h, Produces)))"
proof -
  have a: "is_subject_pattern ''orders.*''" "subject_matches ''orders.*'' ''orders.created''"
    "\<not> is_subject_pattern ''orders.created''" by code_simp+
  have b: "subject_consumer shop (bucket (g_topic_consumers shop) ''orders.*'')"
    "0 \<in> set (bucket (g_topic_producers shop) ''orders.created'')"
    "0 \<notin> set (bucket (g_topic_consumers shop) ''orders.*'')" by code_simp+
  have "length (heard_producers shop ''orders.*'') = 1" by code_simp
  then have l: "length (heard_producers shop ''orders.*'') \<le> MAX_WILDCARD_PRODUCERS"
    by (simp add: MAX_WILDCARD_PRODUCERS_def)
  show ?thesis
    by (intro conjI a(1,2) wildcard_hears[OF shop_wf a(1) b(1,2) a(3,2) b(3) l])
qed

text \<open>
  One wildcard subscription adds at most 256 edges, however many producers match it.
\<close>

theorem wildcard_capped:
  "length (snd (link_heard topic_id consumers 0 heard acc)) \<le> length (snd acc) + 256"
  using link_heard_bounded[of topic_id consumers 0 heard acc] by (simp add: MAX_WILDCARD_PRODUCERS_def)

section \<open>Implements edges\<close>

lemma implements_edge_None: "implements_edge m h = None \<longleftrightarrow> implements_confidence h (snd m) = None"
  by (simp add: implements_edge_def)

lemma map_filter_filter: "List.map_filter f xs = List.map_filter f (filter (\<lambda>x. f x \<noteq> None) xs)"
  by (induction xs) (auto simp: map_filter_simps)

lemma set_map_filter: "set (List.map_filter f xs) = {y. \<exists>x \<in> set xs. f x = Some y}"
  by (induction xs) (auto simp: map_filter_simps split: option.splits)

lemma map_filter_nth: "List.map_filter (\<lambda>i. f (xs ! i)) [0..<length xs] = List.map_filter f xs"
proof -
  have "List.map_filter f (map ((!) xs) [0..<length xs]) = List.map_filter (\<lambda>i. f (xs ! i)) [0..<length xs]"
    by (simp add: List.map_filter_def filter_map o_def)
  then show ?thesis by (simp add: map_nth)
qed

text \<open>The pairs the index offers are those of the scan over all pairs, in the same order.\<close>

lemma implements_edges_scan:
  "implements_edges g =
     concat (map (\<lambda>m. List.map_filter (implements_edge m) (handlers g (resolve_handler_rpc_names g (proto_methods g))))
       (proto_methods g))"
proof -
  have "List.map_filter (\<lambda>i. implements_edge m (hs ! i))
          (handler_candidates (handler_index_build hs) (snd m) (last_segment CHR ''.'' (snd m)))
        = List.map_filter (implements_edge m) hs" (is "List.map_filter ?f ?c = _") for m hs
  proof -
    have "List.map_filter ?f ?c = List.map_filter ?f (filter (\<lambda>i. ?f i \<noteq> None) ?c)"
      by (rule map_filter_filter)
    also have "filter (\<lambda>i. ?f i \<noteq> None) ?c = filter (\<lambda>i. ?f i \<noteq> None) [0..<length hs]"
      unfolding implements_edge_None by (rule handler_index_exact)
    also have "List.map_filter ?f (filter (\<lambda>i. ?f i \<noteq> None) [0..<length hs]) = List.map_filter ?f [0..<length hs]"
      by (rule map_filter_filter[symmetric])
    also have "\<dots> = List.map_filter (implements_edge m) hs" by (rule map_filter_nth)
    finally show ?thesis .
  qed
  then show ?thesis by (simp add: implements_edges_def Let_def)
qed

lemma implements_edge_key_inj:
  assumes wf: "nodes_wf g"
    and m: "m \<in> set (proto_methods g)" "h \<in> set (handlers g r)" "implements_edge m h = Some e"
    and m': "m' \<in> set (proto_methods g)" "h' \<in> set (handlers g r)" "implements_edge m' h' = Some e'"
    and key: "edge_key e' = edge_key e"
  shows "e' = e"
proof -
  have ids: "h_id h' = h_id h" "fst m' = fst m"
    using m(3) m'(3) key by (auto simp: implements_edge_def edge_key_def)
  have inj: "n = n'" if "n \<in> set (all_nodes g)" "n' \<in> set (all_nodes g)" "n_id n = n_id n'" for n n'
    using that all_nodes_get[OF wf] by (metis option.inject)
  have "m' = m" using m(1) m'(1) ids(2) by (auto simp: proto_methods_def dest: inj)
  moreover have "h' = h" using m(2) m'(2) ids(1) by (auto simp: handlers_def handler_of_def Let_def dest: inj)
  ultimately show ?thesis using m(3) m'(3) by simp
qed

lemma scan_edges_mem:
  "e \<in> set (implements_edges g) \<longleftrightarrow>
     (\<exists>m \<in> set (proto_methods g). \<exists>h \<in> set (handlers g (resolve_handler_rpc_names g (proto_methods g))).
        implements_edge m h = Some e)"
  by (auto simp: implements_edges_scan set_map_filter)

lemma other_edge_kinds:
  assumes "wf_mesh g"
    and "e \<in> set (import_edges clean g)
      \<or> (\<exists>k \<in> set (all_topics g). e \<in> set (direct_edges (hubs g) k) \<union> wildcard_edges (hubs g) k)
      \<or> e \<in> set (all_call_edges (hubs g))"
  shows "e_kind e \<noteq> Implements"
  using assms import_edges_live[of g e clean] call_edges_live[OF wf_hubs[OF assms(1)], of e]
    hubs_existing[OF assms(1)] topic_edges_live[OF wf_hubs[OF assms(1)], of _ _ e]
  by (fastforce simp: wf_mesh_def)

lemma implements_edge_pushed:
  assumes wf: "wf_mesh g" and e: "e \<in> set (implements_edges (hubs g))"
  shows "e \<in> set (g_edges (reconcile_edges clean g))"
proof -
  have nw: "nodes_wf (hubs g)" using wf_hubs[OF wf] by (simp add: wf_graph_def)
  have "e \<in> set (snd (insert_edges (implements_edges (hubs g)) (topic_acc clean g)))"
  proof (rule insert_edges_pushes[OF acc_ok_topic_acc _ e])
    have "e_kind e = Implements" using implements_edges_live[OF nw e] by simp
    moreover have "e_kind e' \<noteq> Implements" if "e' \<in> set (snd (topic_acc clean g))" for e'
      using that other_edge_kinds[OF wf, of e' clean] fold_topic_links_edges[of "hubs g" "all_topics g"]
        set_insert_edges[of "import_edges clean g" "({}, [])"]
      unfolding topic_acc_def by fastforce
    ultimately show "edge_key e \<notin> fst (topic_acc clean g)"
      using acc_ok_topic_acc[of clean g] by (auto simp: acc_ok_def edge_key_def) metis
  qed (use implements_edge_key_inj[OF nw] e in \<open>auto simp: scan_edges_mem\<close>)
  then show ?thesis
    using set_mono_prefix[OF insert_edges_prefix] unfolding reconcile_edge_list[OF wf] by blast
qed

text \<open>
  C2: the \<open>Implements\<close> edges of a reconciled graph are exactly those of the scan of every handler
  against every RPC declared in a proto file, each with the confidence of the match predicate.
\<close>

theorem implements_edges_exact:
  assumes "wf_mesh g"
  shows "e \<in> set (g_edges (reconcile_edges clean g)) \<and> e_kind e = Implements \<longleftrightarrow>
    (\<exists>m \<in> set (proto_methods (reconcile_edges clean g)).
       \<exists>h \<in> set (handlers (reconcile_edges clean g) (g_handler_rpc_names (reconcile_edges clean g))).
         implements_edge m h = Some e)"
proof -
  let ?G = "hubs g"
  have wf: "nodes_wf ?G" using wf_hubs[OF assms] by (simp add: wf_graph_def)
  obtain es where r: "reconcile_edges clean g = ?G\<lparr>g_handler_rpc_names :=
      resolve_handler_rpc_names ?G (proto_methods ?G), g_edges := es\<rparr>"
    using reconcile_settle[OF assms, of clean] by (simp add: settle_def Let_def)
  have "e \<in> set (g_edges (reconcile_edges clean g)) \<and> e_kind e = Implements \<longleftrightarrow> e \<in> set (implements_edges ?G)"
  proof
    assume "e \<in> set (g_edges (reconcile_edges clean g)) \<and> e_kind e = Implements"
    with reconcile_edge_origin[OF assms, of e clean] other_edge_kinds[OF assms, of e clean]
    show "e \<in> set (implements_edges ?G)" by blast
  next
    assume e: "e \<in> set (implements_edges ?G)"
    with implements_edge_pushed[OF assms e] implements_edges_live[OF wf e]
    show "e \<in> set (g_edges (reconcile_edges clean g)) \<and> e_kind e = Implements" by blast
  qed
  then show ?thesis by (simp add: r scan_edges_mem frame_simps)
qed

text \<open>A proto file declares \<^verbatim>\<open>UserService.AddBadge\<close>; the handler names it through constants.\<close>

definition badge_ops :: "mesh_op list" where
  "badge_ops =
     [Fold (AddNode ((service_node ''UserService.AddBadge'' ''user.proto'')\<lparr>n_kind := GrpcMethod\<rparr>)),
      Fold (AddNode ((service_node ''addBadge'' ''src/user.ts'')\<lparr>n_kind := GrpcMethod\<rparr>)),
      Fold (AddRpcCall 1 ''$USER_SERVICE=UserService''),
      Fold (AddRpcCall 1 ''$METHODS.ADD_BADGE=AddBadge''),
      Fold (AddRpcCall 1 ''@USER_SERVICE|METHODS.ADD_BADGE'')]"

definition badge_edge :: contract_edge where
  "badge_edge =
     \<lparr>e_from = 1, e_to = 0, e_kind = Implements, e_metadata = Some ''UserService.AddBadge'', e_confidence = Exact\<rparr>"

theorem implements_edges_exact_witness:
  "wf_mesh (mesh_run id badge_ops)
   \<and> g_edges (reconcile_edges id (mesh_run id badge_ops)) = [badge_edge]
   \<and> (\<exists>m \<in> set (proto_methods (reconcile_edges id (mesh_run id badge_ops))).
       \<exists>h \<in> set (handlers (reconcile_edges id (mesh_run id badge_ops))
                  (g_handler_rpc_names (reconcile_edges id (mesh_run id badge_ops)))).
         implements_edge m h = Some badge_edge)"
proof -
  have ok: "mesh_run_ok id badge_ops empty_graph" by code_simp
  have wf: "wf_mesh (mesh_run id badge_ops)" using mesh_run_inv[OF ok] by (simp add: mesh_inv_def)
  have e: "g_edges (reconcile_edges id (mesh_run id badge_ops)) = [badge_edge]" by code_simp
  have "badge_edge \<in> set (g_edges (reconcile_edges id (mesh_run id badge_ops))) \<and> e_kind badge_edge = Implements"
    unfolding e by (simp add: badge_edge_def)
  with implements_edges_exact[OF wf, of badge_edge id] wf e show ?thesis by blast
qed

section \<open>Where the pass departs from its documentation\<close>

definition stale_topic_ops :: "mesh_op list" where
  "stale_topic_ops =
     [Fold (AddNode (service_node ''Checkout'' ''src/checkout.ts'')),
      Fold (AddNode (service_node ''Report'' ''src/report.py'')),
      Fold (AddProducer 0 ''orders''), Reconcile,
      Fold (AddDependency 1 ''orders''), Fold (PatchFiles [path_of_str ''src/checkout.ts'']), Reconcile]"

text \<open>
  A hub that lost its topic is removed after the imports were resolved; an import whose target
  was the name of the topic is then left with an edge to a node that is gone.
\<close>

theorem stale_hub_leaves_dangling_import:
  "mesh_run_ok id stale_topic_ops empty_graph
   \<and> map edge_key (g_edges (mesh_run id stale_topic_ops)) = [(1, 2, Imports)]
   \<and> get_node (mesh_run id stale_topic_ops) 2 = None"
  by code_simp

definition event_bus_service :: contract_graph where
  "event_bus_service =
     add_consumer 0 ''orders''
       (fst (add_node ((service_node ''onOrder'' ''src/Listener.kt'')\<lparr>n_kind := KafkaTopic, n_package := ''event-bus''\<rparr>)
          empty_graph))"

text \<open>
  Any stream node of a package called \<^verbatim>\<open>event-bus\<close> is taken for a hub: the listener of a
  service with that name disappears from the graph, and the edge to it dangles.
\<close>

theorem event_bus_listener_purged:
  "get_node event_bus_service 0 \<noteq> None
   \<and> get_node (reconcile_edges id event_bus_service) 0 = None
   \<and> map edge_key (g_edges (reconcile_edges id event_bus_service)) = [(1, 0, Consumes)]"
  by code_simp

text \<open>
  A call to the stock health service is dropped when it names the service, but kept when it names
  the method.
\<close>

definition health_graph :: "string \<Rightarrow> contract_graph" where
  "health_graph recorded =
     add_rpc_call 1 recorded
       (fold (\<lambda>n g. fst (add_node n g))
          [(service_node ''Health.Check'' ''health.proto'')\<lparr>n_kind := GrpcMethod, n_package := ''grpc.health.v1''\<rparr>,
           service_node ''Probe'' ''src/probe.ts''] empty_graph)"

theorem health_method_call_kept:
  "map_option is_grpc_health_service (get_node (health_graph ''=Health.Check'') 0) = Some True
   \<and> map edge_key (g_edges (reconcile_edges id (health_graph ''Check''))) = []
   \<and> map edge_key (g_edges (reconcile_edges id (health_graph ''=Health.Check''))) = [(1, 0, CallsRpc)]"
  by code_simp

text \<open>
  \<^verbatim>\<open>add_node\<close> files a stream node with a lower-case name twice under that name, so its only
  candidate is reported as a tie.
\<close>

theorem lone_stream_node_ambiguous:
  "fst (resolve_import_targets id
          (fst (add_node ((service_node ''orders'' ''src/orders.ts'')\<lparr>n_kind := EventStream\<rparr>) empty_graph))
          (Some 1) None ''orders'' empty_memo) = [(0, Ambiguous), (0, Ambiguous)]"
  by code_simp

end
