(* ===== verification/Graph_Lookup.thy ===== *)
theory Graph_Lookup
  imports Graph_Edges
begin

text \<open>
  Two queries of \<^verbatim>\<open>crates/mesh-core/src/contracts.rs\<close>: \<^verbatim>\<open>find_dependents_matched\<close>, which answers who
  depends on a name and says how it was matched, and \<^verbatim>\<open>search_symbols\<close>. Hash maps are iterated in
  the order of their association list; where the code sorts the keys or the matches afterwards so
  that this order cannot be seen, so does the model.
\<close>

section \<open>Dependents\<close>

datatype dependents_match = ImportMatch | DeclaringPackage | GraphEdge | SubstringMatch | NoMatch

definition nodes_of :: "contract_graph \<Rightarrow> node_id list \<Rightarrow> contract_node list" where
  "nodes_of g ids = List.map_filter (get_node g) ids"

definition import_dependents :: "contract_graph \<Rightarrow> string \<Rightarrow> contract_node list" where
  "import_dependents g target =
     nodes_of g (bucket (g_reverse_deps g) target)
     @ (if target \<noteq> [] \<and> \<not> ends_with target ''/'' then
          concat (map (\<lambda>key. nodes_of g (bucket (g_reverse_deps g) key))
            (sort (filter (\<lambda>k. starts_with k (target @ ''/'')) (map fst (g_reverse_deps g)))))
        else [])"

definition declaring_ids :: "contract_graph \<Rightarrow> string \<Rightarrow> node_id list" where
  "declaring_ids g target = bucket (g_name_to_nodes g) target @ bucket (g_fqcn_to_node g) target"

text \<open>Each declaring package once, in the order of the declarations.\<close>

definition declaring_packages :: "contract_graph \<Rightarrow> string \<Rightarrow> string list" where
  "declaring_packages g target =
     dedup_on id [] (filter (\<lambda>p. p \<noteq> []) (map n_package (nodes_of g (declaring_ids g target))))"

definition package_dependents :: "contract_graph \<Rightarrow> string \<Rightarrow> contract_node list" where
  "package_dependents g target =
     concat (map (\<lambda>p. nodes_of g (bucket (g_reverse_deps g) p)) (declaring_packages g target))"

definition edge_targets :: "contract_graph \<Rightarrow> string \<Rightarrow> node_id set" where
  "edge_targets g target =
     set (concat (map (\<lambda>i. i # (case get_node g i of
                                   Some n \<Rightarrow> if n_package n \<noteq> [] then bucket (g_package_to_nodes g) (n_package n) else []
                                 | None \<Rightarrow> []))
            (declaring_ids g target)))"

definition edge_dependents :: "contract_graph \<Rightarrow> string \<Rightarrow> contract_node list" where
  "edge_dependents g target =
     dedup_on n_id [] (nodes_of g (map e_from
       (filter (\<lambda>e. (e_kind e = CallsRpc \<or> e_kind e = Implements) \<and> e_to e \<in> edge_targets g target) (g_edges g))))"

definition SUBSTRING_FALLBACK_MIN_CHARS :: nat where
  "SUBSTRING_FALLBACK_MIN_CHARS = 3"

definition substring_dependents :: "contract_graph \<Rightarrow> string \<Rightarrow> contract_node list" where
  "substring_dependents g target =
     (if length target \<ge> SUBSTRING_FALLBACK_MIN_CHARS then
        concat (map (\<lambda>key. nodes_of g (bucket (g_reverse_deps g) key))
          (sort (filter (\<lambda>k. str_contains k target) (map fst (g_reverse_deps g)))))
      else [])"

definition find_dependents_raw :: "contract_graph \<Rightarrow> string \<Rightarrow> contract_node list \<times> dependents_match" where
  "find_dependents_raw g target =
     (if import_dependents g target \<noteq> [] then (import_dependents g target, ImportMatch)
      else if package_dependents g target \<noteq> [] then (package_dependents g target, DeclaringPackage)
      else if edge_dependents g target \<noteq> [] then (edge_dependents g target, GraphEdge)
      else (let result = substring_dependents g target in
            (result, if result = [] then NoMatch else SubstringMatch)))"

definition find_dependents_matched :: "contract_graph \<Rightarrow> string \<Rightarrow> contract_node list \<times> dependents_match" where
  "find_dependents_matched g target =
     (let (nodes, how) = find_dependents_raw g target in (dedup_on n_id [] nodes, how))"

definition find_dependents :: "contract_graph \<Rightarrow> string \<Rightarrow> contract_node list" where
  "find_dependents g target = fst (find_dependents_matched g target)"

section \<open>Symbol search\<close>

definition in_scope :: "path option \<Rightarrow> path \<Rightarrow> bool" where
  "in_scope scope p \<longleftrightarrow> (case scope of None \<Rightarrow> True | Some s \<Rightarrow> path_starts_with p s)"

definition exact_hits :: "contract_graph \<Rightarrow> string \<Rightarrow> path option \<Rightarrow> contract_node list" where
  "exact_hits g query scope =
     dedup_on n_id [] (filter (\<lambda>n. n_kind n \<noteq> Module \<and> in_scope scope (n_file n))
       (nodes_of g (bucket (g_name_to_nodes g) query)))"

definition node_location :: "contract_node \<Rightarrow> path \<times> nat \<times> string \<times> node_id" where
  "node_location n = (n_file n, n_line_start n, n_name n, n_id n)"

definition substring_hits :: "contract_graph \<Rightarrow> string \<Rightarrow> path option \<Rightarrow> node_id list \<Rightarrow> contract_node list" where
  "substring_hits g query scope seen =
     dedup_on n_id seen (filter (\<lambda>n. n_kind n \<noteq> Module \<and>
         (contains_ignore_ascii_case (n_name n) query \<or> bare_names_match (n_name n) query))
       (nodes_of g (concat (map snd (filter (\<lambda>(p, _). in_scope scope p) (g_file_to_nodes g))))))"

definition search_symbols :: "contract_graph \<Rightarrow> string \<Rightarrow> path option \<Rightarrow> contract_node list" where
  "search_symbols g query scope =
     (let exact = exact_hits g query scope in
      exact @ sort_key node_location (substring_hits g query scope (map n_id exact)))"

section \<open>Lemmas\<close>

lemma set_nodes_of: "set (nodes_of g ids) = {n. \<exists>i \<in> set ids. get_node g i = Some n}"
  by (simp add: nodes_of_def set_map_filter)

lemma nodes_of_ids:
  "nodes_wf g \<Longrightarrow> set ids \<subseteq> node_ids g \<Longrightarrow> n_id ` set (nodes_of g ids) = set ids"
proof -
  assume wf: "nodes_wf g" and live: "set ids \<subseteq> node_ids g"
  have "n_id n \<in> set ids" if "n \<in> set (nodes_of g ids)" for n
    using that get_node_id[OF wf] by (auto simp: set_nodes_of)
  moreover have "i \<in> n_id ` set (nodes_of g ids)" if i: "i \<in> set ids" for i
  proof -
    obtain n where "get_node g i = Some n" using i live node_ids_get[of i g] by blast
    with i get_node_id[OF wf this] show ?thesis by (force simp: set_nodes_of)
  qed
  ultimately show ?thesis by blast
qed

lemma reverse_deps_live: "wf_graph g \<Longrightarrow> set (bucket (g_reverse_deps g) k) \<subseteq> node_ids g"
  by (auto simp: wf_graph_def facts_wf_def facts_live_def)

lemma keyed_nodes:
  assumes "wf_graph g" and "\<And>k. k \<in> set ks \<Longrightarrow> P k"
    and "\<And>k. P k \<Longrightarrow> bucket (g_reverse_deps g) k \<noteq> [] \<Longrightarrow> k \<in> set ks"
  shows "n_id ` set (concat (map (\<lambda>k. nodes_of g (bucket (g_reverse_deps g) k)) ks))
         = {i. \<exists>k. P k \<and> i \<in> set (bucket (g_reverse_deps g) k)}"
proof -
  have "n_id ` set (nodes_of g (bucket (g_reverse_deps g) k)) = set (bucket (g_reverse_deps g) k)" for k
    using assms(1) by (intro nodes_of_ids reverse_deps_live) (simp_all add: wf_graph_def)
  then have "n_id ` set (concat (map (\<lambda>k. nodes_of g (bucket (g_reverse_deps g) k)) ks))
      = (\<Union>k \<in> set ks. set (bucket (g_reverse_deps g) k))"
    by (simp add: image_UN)
  also have "\<dots> = {i. \<exists>k. P k \<and> i \<in> set (bucket (g_reverse_deps g) k)}"
    using assms(2,3) by fastforce
  finally show ?thesis .
qed

lemma bucket_in_keys: "bucket m k \<noteq> [] \<Longrightarrow> k \<in> set (map fst m)"
  using bucket_not_key[of k m] by auto

text \<open>Importing a name, or a path below it.\<close>

definition imports_below :: "string \<Rightarrow> string \<Rightarrow> bool" where
  "imports_below target k \<longleftrightarrow>
     k = target \<or> target \<noteq> [] \<and> \<not> ends_with target ''/'' \<and> starts_with k (target @ ''/'')"

lemma import_dependents_ids:
  assumes wf: "wf_graph g"
  shows "n_id ` set (import_dependents g target)
         = {i. \<exists>k. imports_below target k \<and> i \<in> set (bucket (g_reverse_deps g) k)}"
proof -
  have own: "n_id ` set (nodes_of g (bucket (g_reverse_deps g) target)) = set (bucket (g_reverse_deps g) target)"
    using wf by (intro nodes_of_ids reverse_deps_live) (simp_all add: wf_graph_def)
  let ?below = "concat (map (\<lambda>key. nodes_of g (bucket (g_reverse_deps g) key))
      (sort (filter (\<lambda>k. starts_with k (target @ ''/'')) (map fst (g_reverse_deps g)))))"
  have below: "n_id ` set ?below = {i. \<exists>k. starts_with k (target @ ''/'') \<and> i \<in> set (bucket (g_reverse_deps g) k)}"
    using bucket_in_keys[of "g_reverse_deps g"] by (intro keyed_nodes[OF wf]) auto
  have "n_id ` set (import_dependents g target) = set (bucket (g_reverse_deps g) target)
      \<union> (if target \<noteq> [] \<and> \<not> ends_with target ''/'' then n_id ` set ?below else {})"
    unfolding import_dependents_def own[symmetric] by (simp only: set_append image_Un if_distrib[of set] list.set image_empty if_distrib[of "(`) n_id"])
  then show ?thesis unfolding below by (auto simp: imports_below_def)
qed

lemma substring_dependents_ids:
  assumes wf: "wf_graph g" and "length target \<ge> 3"
  shows "n_id ` set (substring_dependents g target)
         = {i. \<exists>k. str_contains k target \<and> i \<in> set (bucket (g_reverse_deps g) k)}"
  using keyed_nodes[OF wf, of "sort (filter (\<lambda>k. str_contains k target) (map fst (g_reverse_deps g)))"
      "\<lambda>k. str_contains k target"] bucket_in_keys[of "g_reverse_deps g"] assms(2)
  by (simp add: substring_dependents_def SUBSTRING_FALLBACK_MIN_CHARS_def)

lemma dedup_on_ids: "n_id ` set (dedup_on n_id [] ns) = n_id ` set ns"
  by (simp add: keys_dedup_on)

lemma find_dependents_raw_cases:
  assumes "find_dependents_raw g target = (raw, how)"
  obtains "import_dependents g target \<noteq> []" "raw = import_dependents g target" "how = ImportMatch"
  | "import_dependents g target = []" "raw \<noteq> []" "how \<in> {DeclaringPackage, GraphEdge}"
  | "import_dependents g target = []" "raw = []" "how = NoMatch"
  | "import_dependents g target = []" "raw \<noteq> []" "raw = substring_dependents g target" "how = SubstringMatch"
    "length target \<ge> 3"
  using assms
  by (auto simp: find_dependents_raw_def Let_def substring_dependents_def SUBSTRING_FALLBACK_MIN_CHARS_def
      split: if_splits)

lemma find_dependents_raw_live:
  assumes "nodes_wf g" and "find_dependents_raw g target = (raw, how)"
  shows "n_id ` set raw \<subseteq> node_ids g"
proof -
  have "\<exists>i. get_node g i = Some n" if "n \<in> set raw" for n
    using that assms(2)
    by (auto simp: find_dependents_raw_def import_dependents_def package_dependents_def edge_dependents_def
        substring_dependents_def set_nodes_of Let_def split: if_splits dest!: subsetD[OF set_dedup_on])
  then show ?thesis using get_node_id[OF assms(1)] by (auto simp: node_ids_get) metis
qed

lemma import_dependents_nonempty:
  assumes "wf_graph g"
  shows "import_dependents g target \<noteq> [] \<longleftrightarrow> (\<exists>k. imports_below target k \<and> bucket (g_reverse_deps g) k \<noteq> [])"
proof -
  have "import_dependents g target \<noteq> [] \<longleftrightarrow> n_id ` set (import_dependents g target) \<noteq> {}" by simp
  also have "\<dots> \<longleftrightarrow> (\<exists>k. imports_below target k \<and> set (bucket (g_reverse_deps g) k) \<noteq> {})"
    unfolding import_dependents_ids[OF assms] ex_in_conv[symmetric] mem_Collect_eq by blast
  finally show ?thesis by simp
qed

text \<open>
  \<^verbatim>\<open>find_dependents_matched\<close> lists each node once. An import match is the set of all nodes that
  import the target or a path below it; a substring match happens only for targets of three
  characters or more that no import, declaring package or edge answers, and is then the set of all
  nodes that import something containing the target; and nothing is answered exactly when it says
  so.
\<close>

theorem find_dependents_spec:
  assumes "wf_graph g" and "find_dependents_matched g target = (nodes, how)"
  shows "distinct (map n_id nodes) \<and> n_id ` set nodes \<subseteq> node_ids g
    \<and> (how = NoMatch \<longleftrightarrow> nodes = [])
    \<and> (how = ImportMatch \<longleftrightarrow> (\<exists>k. imports_below target k \<and> bucket (g_reverse_deps g) k \<noteq> []))
    \<and> (how = ImportMatch \<longrightarrow>
         n_id ` set nodes = {i. \<exists>k. imports_below target k \<and> i \<in> set (bucket (g_reverse_deps g) k)})
    \<and> (how = SubstringMatch \<longrightarrow> length target \<ge> 3 \<and>
         n_id ` set nodes = {i. \<exists>k. str_contains k target \<and> i \<in> set (bucket (g_reverse_deps g) k)})"
proof -
  obtain raw where raw: "find_dependents_raw g target = (raw, how)" "nodes = dedup_on n_id [] raw"
    using assms(2) by (auto simp: find_dependents_matched_def split: prod.splits)
  have ids: "n_id ` set nodes = n_id ` set raw" by (simp add: raw(2) dedup_on_ids)
  have nodes: "nodes = [] \<longleftrightarrow> raw = []" using ids by (metis image_is_empty set_empty)
  have live: "n_id ` set raw \<subseteq> node_ids g"
    using find_dependents_raw_live[OF _ raw(1)] assms(1) by (simp add: wf_graph_def)
  have dist: "distinct (map n_id nodes)" by (simp add: raw(2) distinct_dedup_on)
  note imp = import_dependents_nonempty[OF assms(1), of target, symmetric]
  from raw(1) show ?thesis
  proof (cases rule: find_dependents_raw_cases)
    case 1
    with live dist nodes import_dependents_ids[OF assms(1), of target] show ?thesis
      unfolding ids imp by simp
  next
    case 4
    with live dist nodes substring_dependents_ids[OF assms(1), of target] show ?thesis
      unfolding ids imp by simp
  qed (use live dist nodes in \<open>auto simp: ids imp\<close>)
qed

definition importers :: contract_graph where
  "importers = mesh_run id
     [Fold (AddNode (service_node ''Cart'' ''src/cart.ts'')), Fold (AddNode (service_node ''Tax'' ''src/tax.ts'')),
      Fold (AddDependency 0 ''@acme/money''), Fold (AddDependency 1 ''@acme/money/testing''),
      Fold (AddDependency 1 ''@acme/moneybox'')]"

theorem find_dependents_spec_witness:
  "map n_id (find_dependents importers ''@acme/money'') = [0, 1]
   \<and> n_id ` set (find_dependents importers ''@acme/money'')
       = {i. \<exists>k. imports_below ''@acme/money'' k \<and> i \<in> set (bucket (g_reverse_deps importers) k)}"
proof -
  have ok: "mesh_run_ok id [Fold (AddNode (service_node ''Cart'' ''src/cart.ts'')),
      Fold (AddNode (service_node ''Tax'' ''src/tax.ts'')),
      Fold (AddDependency 0 ''@acme/money''), Fold (AddDependency 1 ''@acme/money/testing''),
      Fold (AddDependency 1 ''@acme/moneybox'')] empty_graph"
    by code_simp
  have wf: "wf_graph importers" using mesh_run_inv[OF ok] by (simp add: importers_def mesh_inv_def wf_mesh_def)
  have ids: "map n_id (find_dependents importers ''@acme/money'') = [0, 1]" by code_simp
  have how: "snd (find_dependents_matched importers ''@acme/money'') = ImportMatch" by code_simp
  from find_dependents_spec[OF wf prod.collapse[symmetric], of "''@acme/money''"] how ids
  show ?thesis unfolding find_dependents_def by (intro conjI) blast+
qed

lemma all_nodes_inj:
  "nodes_wf g \<Longrightarrow> n \<in> set (all_nodes g) \<Longrightarrow> n' \<in> set (all_nodes g) \<Longrightarrow> n_id n = n_id n' \<Longrightarrow> n = n'"
  using all_nodes_get[of g] by (metis option.inject)

lemma dedup_on_nodes:
  assumes "nodes_wf g" and "set ns \<subseteq> set (all_nodes g)"
  shows "set (dedup_on n_id seen ns) = {n \<in> set ns. n_id n \<notin> set seen}"
proof -
  have "n \<in> set (dedup_on n_id seen ns)" if "n \<in> set ns" "n_id n \<notin> set seen" for n
  proof -
    have "n_id n \<in> n_id ` set (dedup_on n_id seen ns)" using that by (simp add: keys_dedup_on)
    then obtain m where m: "m \<in> set (dedup_on n_id seen ns)" "n_id m = n_id n" by auto
    then have "m = n" using set_dedup_on[of n_id seen ns] that assms all_nodes_inj by blast
    with m show ?thesis by simp
  qed
  moreover have "n \<in> set ns \<and> n_id n \<notin> set seen" if "n \<in> set (dedup_on n_id seen ns)" for n
    using that set_dedup_on[of n_id seen ns] keys_dedup_on[of n_id seen ns] by blast
  ultimately show ?thesis by blast
qed

lemma contains_same: "eq_ignore_ascii_case h n \<Longrightarrow> contains_ignore_ascii_case h n"
proof -
  assume eq: "eq_ignore_ascii_case h n"
  then have "length h = length n" unfolding eq_ignore_ascii_case_def by (metis length_to_lowercase)
  with eq show ?thesis by (simp add: contains_ignore_ascii_case_def)
qed

lemma name_key_contains: "q \<in> set (name_keys n) \<Longrightarrow> contains_ignore_ascii_case (n_name n) q"
  by (rule contains_same)
    (auto simp: name_keys_def eq_ignore_ascii_case_def to_lowercase_def o_def split: if_splits)

lemma scope_ids:
  assumes "nodes_wf g" and "index_exact file_keys (g_nodes g) (g_file_to_nodes g)"
  shows "set (nodes_of g (concat (map snd (filter (\<lambda>(p, _). in_scope scope p) (g_file_to_nodes g)))))
         = {n \<in> set (all_nodes g). in_scope scope (n_file n)}"
proof -
  have d: "distinct (map fst (g_file_to_nodes g))" using assms(2) by (simp add: index_exact_def hm_wf_def)
  have "n \<in> set (nodes_of g (concat (map snd (filter (\<lambda>(p, _). in_scope scope p) (g_file_to_nodes g))))) \<longleftrightarrow>
      (\<exists>p. in_scope scope p \<and> (\<exists>i \<in> set (bucket (g_file_to_nodes g) p). get_node g i = Some n))" for n
    using d by (force simp: set_nodes_of bucket_map_of split: option.splits dest: map_of_SomeD)
  moreover have "(\<exists>i \<in> set (bucket (g_file_to_nodes g) p). get_node g i = Some n) \<longleftrightarrow> n \<in> set (all_nodes g) \<and> n_file n = p" for n p
  proof
    assume "\<exists>i \<in> set (bucket (g_file_to_nodes g) p). get_node g i = Some n"
    then obtain i where i: "i \<in> set (bucket (g_file_to_nodes g) p)" "get_node g i = Some n" by blast
    from index_exact_live[OF assms i(1)] i(2) get_node_in_all[OF i(2)]
    show "n \<in> set (all_nodes g) \<and> n_file n = p" by (simp add: file_keys_def)
  next
    assume n: "n \<in> set (all_nodes g) \<and> n_file n = p"
    then have "n_id n \<in> set (bucket (g_file_to_nodes g) p)"
      unfolding index_exact_bucket[OF assms(2)] by (auto simp: file_keys_def all_nodes_def)
    then show "\<exists>i \<in> set (bucket (g_file_to_nodes g) p). get_node g i = Some n"
      using n all_nodes_get[OF assms(1)] by blast
  qed
  ultimately show ?thesis by (simp add: set_eq_iff) metis
qed

lemma exact_hits_mem:
  assumes "nodes_wf g" and "index_exact name_keys (g_nodes g) (g_name_to_nodes g)"
  shows "set (exact_hits g q scope) =
    {n \<in> set (all_nodes g). n_kind n \<noteq> Module \<and> in_scope scope (n_file n) \<and> q \<in> set (name_keys n)}"
proof -
  have hits: "n \<in> set (nodes_of g (bucket (g_name_to_nodes g) q)) \<longleftrightarrow> n \<in> set (all_nodes g) \<and> q \<in> set (name_keys n)" for n
  proof
    assume "n \<in> set (nodes_of g (bucket (g_name_to_nodes g) q))"
    then obtain i where i: "i \<in> set (bucket (g_name_to_nodes g) q)" "get_node g i = Some n" by (auto simp: set_nodes_of)
    from index_exact_live[OF assms i(1)] i(2) get_node_in_all[OF i(2)]
    show "n \<in> set (all_nodes g) \<and> q \<in> set (name_keys n)" by simp
  next
    assume n: "n \<in> set (all_nodes g) \<and> q \<in> set (name_keys n)"
    then have "n_id n \<in> set (bucket (g_name_to_nodes g) q)"
      unfolding index_exact_bucket[OF assms(2)] by (auto simp: all_nodes_def)
    with n all_nodes_get[OF assms(1)] show "n \<in> set (nodes_of g (bucket (g_name_to_nodes g) q))"
      by (auto simp: set_nodes_of)
  qed
  have same: "set (dedup_on n_id [] ns) = set ns" if "set ns \<subseteq> set (all_nodes g)" for ns
    using dedup_on_nodes[OF assms(1) that, of "[]"] by simp
  show ?thesis unfolding exact_hits_def by (subst same) (auto simp: hits)
qed

text \<open>
  A symbol search returns each match once: all declarations in scope, modules excepted, whose
  name contains the query up to case or equals it up to case and underscores. Those filed under
  the query itself come first, the others follow in the order of their location.
\<close>

theorem search_symbols_spec:
  assumes "wf_graph g"
  shows "distinct (map n_id (search_symbols g q scope))
    \<and> set (search_symbols g q scope) =
        {n \<in> set (all_nodes g). n_kind n \<noteq> Module \<and> in_scope scope (n_file n)
           \<and> (contains_ignore_ascii_case (n_name n) q \<or> bare_names_match (n_name n) q)}
    \<and> (\<exists>exact rest. search_symbols g q scope = exact @ rest \<and> sorted (map node_location rest)
         \<and> list_all (\<lambda>n. q \<in> set (name_keys n)) exact \<and> list_all (\<lambda>n. q \<notin> set (name_keys n)) rest)"
proof -
  let ?ex = "exact_hits g q scope" and ?sub = "substring_hits g q scope (map n_id (exact_hits g q scope))"
  have wf: "nodes_wf g" "index_exact name_keys (g_nodes g) (g_name_to_nodes g)"
    "index_exact file_keys (g_nodes g) (g_file_to_nodes g)"
    using assms by (auto simp: wf_graph_def indices_wf_def)
  note ex = exact_hits_mem[OF wf(1,2), of q scope]
  have sub: "set ?sub = {n \<in> set (all_nodes g). n_kind n \<noteq> Module \<and> in_scope scope (n_file n)
      \<and> (contains_ignore_ascii_case (n_name n) q \<or> bare_names_match (n_name n) q) \<and> q \<notin> set (name_keys n)}"
    unfolding substring_hits_def
    by (subst dedup_on_nodes[OF wf(1)]) (auto simp: scope_ids[OF wf(1,3)] ex dest: all_nodes_inj[OF wf(1)])
  have "distinct (map n_id ?ex)" "distinct (map n_id ?sub)"
    by (simp_all add: exact_hits_def substring_hits_def distinct_dedup_on)
  moreover have "n_id ` set ?ex \<inter> n_id ` set ?sub = {}"
    unfolding substring_hits_def by (auto simp: keys_dedup_on)
  ultimately have "distinct (map n_id (search_symbols g q scope))"
    by (simp add: search_symbols_def Let_def distinct_map)
  moreover have "set (search_symbols g q scope) =
        {n \<in> set (all_nodes g). n_kind n \<noteq> Module \<and> in_scope scope (n_file n)
           \<and> (contains_ignore_ascii_case (n_name n) q \<or> bare_names_match (n_name n) q)}"
    using name_key_contains by (auto simp: search_symbols_def Let_def ex sub)
  moreover have "list_all (\<lambda>n. q \<in> set (name_keys n)) ?ex" "list_all (\<lambda>n. q \<notin> set (name_keys n)) (sort_key node_location ?sub)"
    by (simp_all add: list_all_iff ex sub)
  ultimately show ?thesis
    by (intro conjI exI[of _ ?ex] exI[of _ "sort_key node_location ?sub"]) (simp_all add: search_symbols_def Let_def)
qed

theorem search_symbols_spec_witness:
  "map n_name (search_symbols shop ''mail'' (Some (path_of_str ''src''))) = [''Mailer'']
   \<and> set (search_symbols shop ''mail'' (Some (path_of_str ''src''))) =
        {n \<in> set (all_nodes shop). n_kind n \<noteq> Module \<and> in_scope (Some (path_of_str ''src'')) (n_file n)
           \<and> (contains_ignore_ascii_case (n_name n) ''mail'' \<or> bare_names_match (n_name n) ''mail'')}"
proof -
  have wf: "wf_graph shop" using shop_wf by (simp add: wf_mesh_def)
  have "map n_name (search_symbols shop ''mail'' (Some (path_of_str ''src''))) = [''Mailer'']" by code_simp
  with search_symbols_spec[OF wf, of "''mail''" "Some (path_of_str ''src'')"] show ?thesis by blast
qed

end
