(* ===== verification/Graph_Impact.thy ===== *)
theory Graph_Impact
  imports Graph_Lookup
begin

text \<open>
  The causal impact walk of \<^verbatim>\<open>crates/mesh-core/src/contracts.rs\<close>: \<^verbatim>\<open>analyze_impact\<close> finds the producers,
  topics, consumers and sagas of an event; \<^verbatim>\<open>analyze_impact_with_depth\<close> follows what those consumers
  publish in turn, hop by hop. A \<^verbatim>\<open>HashSet\<close> that is only tested is a set; the frontier, which is also
  walked, is a list in the order of discovery (every list it ends up in is sorted afterwards).
\<close>

section \<open>The direct answer\<close>

record impact_flow =
  if_target :: string
  if_key :: string
  if_upstream :: "contract_node list"
  if_topics :: "contract_node list"
  if_consumers :: "contract_node list"
  if_sagas :: "contract_node list"
  if_downstream_producers :: "contract_node list"
  if_unexpanded :: "contract_node list"
  if_chain_end :: "contract_node list"
  if_files_scanned :: nat

definition topic_keys :: "contract_graph \<Rightarrow> string list" where
  "topic_keys g = map fst (g_topic_producers g) @ map fst (g_topic_consumers g)"

definition impact_key :: "contract_graph \<Rightarrow> string \<Rightarrow> string" where
  "impact_key g target =
     (let norm = normalize_topic_key target;
          any_key = (\<lambda>key. list_ex (\<lambda>k. str_contains k key) (topic_keys g)) in
      if any_key norm then norm
      else (let alt = replace_chars {CHR ''.'', CHR '':'', CHR ''-'', CHR ''/''} CHR ''_'' norm in
            if alt \<noteq> norm \<and> any_key alt then alt else norm))"

definition registered_nodes :: "contract_graph \<Rightarrow> (string, node_id list) hmap \<Rightarrow> (string \<Rightarrow> bool) \<Rightarrow> contract_node list" where
  "registered_nodes g m matches =
     concat (map (\<lambda>k. nodes_of g (bucket m k)) (filter matches (sort (map fst m))))"

definition pattern_topic :: "string \<Rightarrow> string option" where
  "pattern_topic name = or_else (strip_prefix ''produce:'' name) (strip_prefix ''consume:'' name)"

definition flow_node_matches :: "bool \<Rightarrow> string \<Rightarrow> contract_node \<Rightarrow> bool" where
  "flow_node_matches exact key n \<longleftrightarrow>
     (stream_like (n_kind n) \<or> n_kind n = Saga \<or> n_kind n = PostProcessor)
     \<and> (if exact \<and> (pattern_topic (n_name n) \<noteq> None \<or> stream_like (n_kind n))
        then normalize_topic_key (case pattern_topic (n_name n) of Some t \<Rightarrow> t | None \<Rightarrow> n_name n) = key
        else contains_ignore_ascii_case (n_name n) key)"

definition analyze_impact :: "contract_graph \<Rightarrow> string \<Rightarrow> impact_flow" where
  "analyze_impact g target =
     (let key = impact_key g target;
          exact = (key \<in> set (topic_keys g));
          matches = (\<lambda>k. if exact then k = key else str_contains k key);
          hits = filter (flow_node_matches exact key) (all_nodes g) in
      \<lparr>if_target = target, if_key = key,
       if_upstream = registered_nodes g (g_topic_producers g) matches,
       if_topics = filter (\<lambda>n. stream_like (n_kind n)) hits,
       if_consumers = registered_nodes g (g_topic_consumers g) matches
                      @ filter (\<lambda>n. \<not> stream_like (n_kind n) \<and> n_kind n \<noteq> Saga) hits,
       if_sagas = filter (\<lambda>n. n_kind n = Saga) hits,
       if_downstream_producers = [], if_unexpanded = [], if_chain_end = [],
       if_files_scanned = file_count g\<rparr>)"

section \<open>Further hops\<close>

definition MAX_IMPACT_DEPTH :: nat where
  "MAX_IMPACT_DEPTH = 5"

definition clamp_depth :: "nat \<Rightarrow> nat" where
  "clamp_depth depth = max 1 (min depth MAX_IMPACT_DEPTH)"

text \<open>\<^verbatim>\<open>Vec::dedup_by_key\<close>: of neighbours with the same key the first stays.\<close>

fun dedup_by_key :: "('a \<Rightarrow> 'b) \<Rightarrow> 'a list \<Rightarrow> 'a list" where
  "dedup_by_key f (x # y # zs) =
     (if f x = f y then dedup_by_key f (x # zs) else x # dedup_by_key f (y # zs))"
| "dedup_by_key f xs = xs"

definition by_location :: "contract_node list \<Rightarrow> contract_node list" where
  "by_location ns = dedup_by_key n_id (sort_key node_location ns)"

text \<open>State of the scan over \<open>Produces\<close> edges: producers listed, producers and topics visited, new
  topics.\<close>

record produce_scan =
  ps_listed :: "node_id list"
  ps_producers :: "node_id set"
  ps_topics :: "node_id set"
  ps_new :: "node_id list"

definition scan_produces :: "contract_graph \<Rightarrow> node_id set \<Rightarrow> path set \<Rightarrow> contract_edge \<Rightarrow> produce_scan \<Rightarrow> produce_scan" where
  "scan_produces g frontier files e s =
     (if e_kind e \<noteq> Produces then s
      else
        (let own = (e_from e \<in> frontier);
             same_file = (\<not> own \<and> (case get_node g (e_from e) of Some p \<Rightarrow> n_file p \<in> files | None \<Rightarrow> False)) in
         if \<not> (own \<or> same_file) then s
         else
           (let s1 = (if same_file \<and> e_from e \<notin> ps_producers s
                      then s\<lparr>ps_listed := ps_listed s @ [e_from e], ps_producers := insert (e_from e) (ps_producers s)\<rparr>
                      else s) in
            if e_to e \<in> ps_topics s1 then s1
            else s1\<lparr>ps_topics := insert (e_to e) (ps_topics s1), ps_new := ps_new s1 @ [e_to e]\<rparr>)))"

text \<open>State of the scan over \<open>Consumes\<close> edges: nodes visited, nodes newly reached.\<close>

record consume_scan =
  cs_nodes :: "node_id set"
  cs_next :: "node_id list"

definition scan_consumes :: "contract_graph \<Rightarrow> node_id set \<Rightarrow> contract_edge \<Rightarrow> consume_scan \<Rightarrow> consume_scan" where
  "scan_consumes g new_topics e s =
     (if e_kind e \<noteq> Consumes then s
      else case (if e_from e \<in> new_topics then Some (e_to e)
                 else if e_to e \<in> new_topics then Some (e_from e) else None) of
        None \<Rightarrow> s
      | Some c \<Rightarrow>
          if c \<in> cs_nodes s then s
          else (let s' = s\<lparr>cs_nodes := insert c (cs_nodes s)\<rparr> in
                case get_node g c of None \<Rightarrow> s' | Some _ \<Rightarrow> s'\<lparr>cs_next := cs_next s' @ [c]\<rparr>))"

record walk =
  w_flow :: impact_flow
  w_topics :: "node_id set"
  w_nodes :: "node_id set"
  w_producers :: "node_id set"
  w_frontier :: "node_id list"
  w_expanded :: "node_id list"

definition walk_start :: "impact_flow \<Rightarrow> walk" where
  "walk_start flow =
     (let ids = remdups (map n_id (if_consumers flow @ if_sagas flow)) in
      \<lparr>w_flow = flow, w_topics = n_id ` set (if_topics flow), w_nodes = set ids,
       w_producers = n_id ` set (if_upstream flow), w_frontier = ids, w_expanded = []\<rparr>)"

definition hop :: "contract_graph \<Rightarrow> walk \<Rightarrow> walk" where
  "hop g w =
     (if w_frontier w = [] then w
      else
        (let files = n_file ` set (nodes_of g (w_frontier w));
             ps = fold (scan_produces g (set (w_frontier w)) files) (g_edges g)
                    \<lparr>ps_listed = [], ps_producers = w_producers w, ps_topics = w_topics w, ps_new = []\<rparr>;
             cs = fold (scan_consumes g (set (ps_new ps))) (g_edges g)
                    \<lparr>cs_nodes = w_nodes w, cs_next = []\<rparr>;
             reached = nodes_of g (cs_next cs);
             flow = w_flow w in
         \<lparr>w_flow = flow\<lparr>if_downstream_producers := if_downstream_producers flow @ nodes_of g (ps_listed ps),
                        if_topics := if_topics flow @ nodes_of g (ps_new ps),
                        if_sagas := if_sagas flow @ filter (\<lambda>n. n_kind n = Saga) reached,
                        if_consumers := if_consumers flow @ filter (\<lambda>n. n_kind n \<noteq> Saga) reached\<rparr>,
          w_topics = ps_topics ps, w_nodes = cs_nodes cs, w_producers = ps_producers ps,
          w_frontier = cs_next cs, w_expanded = w_expanded w @ w_frontier w\<rparr>))"

definition chain_end :: "contract_graph \<Rightarrow> node_id list \<Rightarrow> contract_node list" where
  "chain_end g expanded =
     (let produces = filter (\<lambda>e. e_kind e = Produces) (g_edges g);
          producing_nodes = e_from ` set produces;
          producing_files = n_file ` set (nodes_of g (map e_from produces)) in
      by_location (filter (\<lambda>n. n_id n \<notin> producing_nodes \<and> n_file n \<notin> producing_files) (nodes_of g expanded)))"

definition analyze_impact_with_depth :: "contract_graph \<Rightarrow> string \<Rightarrow> nat \<Rightarrow> impact_flow" where
  "analyze_impact_with_depth g target depth =
     (let flow = analyze_impact g target; d = clamp_depth depth in
      if d \<le> 1 then flow\<lparr>if_unexpanded := by_location (if_consumers flow @ if_sagas flow)\<rparr>
      else
        (let w = (hop g ^^ (d - 1)) (walk_start flow) in
         (w_flow w)\<lparr>if_unexpanded := by_location (nodes_of g (w_frontier w)),
                    if_chain_end := (if w_expanded w \<noteq> [] then chain_end g (w_expanded w) else if_chain_end (w_flow w))\<rparr>))"

section \<open>What the walk reaches\<close>

text \<open>A node publishes to a topic if it, or a node of its file, has a \<open>Produces\<close> edge to it.\<close>

definition publishes :: "contract_graph \<Rightarrow> node_id \<Rightarrow> node_id \<Rightarrow> bool" where
  "publishes g a t \<longleftrightarrow>
     (\<exists>e \<in> set (g_edges g). e_kind e = Produces \<and> e_to e = t \<and>
        (e_from e = a \<or> (\<exists>p n. get_node g (e_from e) = Some p \<and> get_node g a = Some n \<and> n_file p = n_file n)))"

definition hears :: "contract_graph \<Rightarrow> node_id \<Rightarrow> node_id \<Rightarrow> bool" where
  "hears g t b \<longleftrightarrow> (\<exists>e \<in> set (g_edges g). e_kind e = Consumes \<and> e_from e = t \<and> e_to e = b)"

text \<open>One causal step, through a topic that the direct answer did not already list.\<close>

definition causes :: "contract_graph \<Rightarrow> node_id set \<Rightarrow> node_id \<Rightarrow> node_id \<Rightarrow> bool" where
  "causes g listed a b \<longleftrightarrow> (\<exists>t. t \<notin> listed \<and> publishes g a t \<and> hears g t b)"

definition reached_within :: "contract_graph \<Rightarrow> node_id set \<Rightarrow> node_id set \<Rightarrow> nat \<Rightarrow> node_id set" where
  "reached_within g listed start h = {m. \<exists>k \<le> h. \<exists>s \<in> start. (causes g listed ^^ k) s m}"

lemma reached_within_0: "reached_within g listed start 0 = start"
  by (simp add: reached_within_def)

lemma reached_within_Suc:
  "reached_within g listed start (Suc h) =
     reached_within g listed start h \<union> {b. \<exists>a \<in> reached_within g listed start h. causes g listed a b}"
proof -
  have "(\<exists>k \<le> Suc h. \<exists>s \<in> start. (causes g listed ^^ k) s m) \<longleftrightarrow>
      (\<exists>k \<le> h. \<exists>s \<in> start. (causes g listed ^^ k) s m)
      \<or> (\<exists>a. (\<exists>k \<le> h. \<exists>s \<in> start. (causes g listed ^^ k) s a) \<and> causes g listed a m)" (is "?L \<longleftrightarrow> ?R") for m
  proof
    assume ?L
    then obtain k s where k: "k \<le> Suc h" "s \<in> start" "(causes g listed ^^ k) s m" by blast
    show ?R
    proof (cases k)
      case 0
      with k show ?thesis by blast
    next
      case (Suc j)
      with k(3) obtain a where "(causes g listed ^^ j) s a" "causes g listed a m" by auto
      moreover have "j \<le> h" using k(1) Suc by simp
      ultimately show ?thesis using k(2) by blast
    qed
  next
    assume ?R
    then show ?L
    proof
      assume "\<exists>a. (\<exists>k \<le> h. \<exists>s \<in> start. (causes g listed ^^ k) s a) \<and> causes g listed a m"
      then obtain a k s where "k \<le> h" "s \<in> start" "(causes g listed ^^ k) s a" "causes g listed a m" by blast
      then have "(causes g listed ^^ Suc k) s m" by auto
      with \<open>k \<le> h\<close> \<open>s \<in> start\<close> show ?thesis by (meson Suc_le_mono)
    qed (meson le_SucI)
  qed
  then show ?thesis by (auto simp: reached_within_def)
qed

definition triggers :: "contract_graph \<Rightarrow> node_id set \<Rightarrow> path set \<Rightarrow> contract_edge \<Rightarrow> bool" where
  "triggers g frontier files e \<longleftrightarrow>
     e_kind e = Produces \<and> (e_from e \<in> frontier
       \<or> (case get_node g (e_from e) of Some p \<Rightarrow> n_file p \<in> files | None \<Rightarrow> False))"

lemma scan_produces_topics:
  "ps_topics (scan_produces g F files e s) = ps_topics s \<union> (if triggers g F files e then {e_to e} else {})"
  "set (ps_new (scan_produces g F files e s)) =
     set (ps_new s) \<union> ((if triggers g F files e then {e_to e} else {}) - ps_topics s)"
  by (auto simp: scan_produces_def triggers_def Let_def split: option.splits)

lemma fold_scan_produces:
  "ps_topics (fold (scan_produces g F files) es s) = ps_topics s \<union> e_to ` {e \<in> set es. triggers g F files e}"
  "set (ps_new (fold (scan_produces g F files) es s)) =
     set (ps_new s) \<union> (e_to ` {e \<in> set es. triggers g F files e} - ps_topics s)"
  by (induction es arbitrary: s) (auto simp: scan_produces_topics)

lemma triggers_publishes:
  assumes "nodes_wf g" and "set F \<subseteq> node_ids g"
  shows "e_to ` {e \<in> set (g_edges g). triggers g (set F) (n_file ` set (nodes_of g F)) e} = {t. \<exists>a \<in> set F. publishes g a t}"
proof -
  have "triggers g (set F) (n_file ` set (nodes_of g F)) e \<longleftrightarrow> e_kind e = Produces \<and>
      (\<exists>a \<in> set F. e_from e = a \<or> (\<exists>p n. get_node g (e_from e) = Some p \<and> get_node g a = Some n \<and> n_file p = n_file n))" for e
    by (auto simp: triggers_def set_nodes_of split: option.splits)
  then show ?thesis by (auto simp: publishes_def)
qed

text \<open>Consumers are never topics: the second orientation of a \<open>Consumes\<close> edge, which \<^verbatim>\<open>add_edge\<close> would
  index, does not occur in a reconciled graph.\<close>

definition walkable :: "contract_graph \<Rightarrow> bool" where
  "walkable g \<longleftrightarrow>
     (\<forall>e \<in> set (g_edges g). e_from e \<in> node_ids g \<and> e_to e \<in> node_ids g)
     \<and> (\<forall>e \<in> set (g_edges g). \<forall>e' \<in> set (g_edges g).
          e_kind e = Consumes \<and> e_kind e' = Produces \<longrightarrow> e_to e \<noteq> e_to e')"


lemma scan_consumes_nodes:
  assumes "walkable g" and "e \<in> set (g_edges g)" and "\<forall>t \<in> T. \<exists>a. publishes g a t"
  defines "c \<equiv> (if e_kind e = Consumes \<and> e_from e \<in> T then {e_to e} else {})"
  shows "cs_nodes (scan_consumes g T e s) = cs_nodes s \<union> c"
    and "set (cs_next (scan_consumes g T e s)) = set (cs_next s) \<union> (c - cs_nodes s)"
    and "distinct (cs_next s) \<Longrightarrow> set (cs_next s) \<subseteq> cs_nodes s \<Longrightarrow>
         distinct (cs_next (scan_consumes g T e s)) \<and> set (cs_next (scan_consumes g T e s)) \<subseteq> cs_nodes (scan_consumes g T e s)"
proof -
  have "e_to e \<notin> T" if "e_kind e = Consumes"
    using assms(1-3) that unfolding walkable_def publishes_def by metis
  moreover have "get_node g (e_to e) \<noteq> None"
    using assms(1,2) by (auto simp: walkable_def get_node_None_iff)
  ultimately have "scan_consumes g T e s =
      (if e_kind e = Consumes \<and> e_from e \<in> T \<and> e_to e \<notin> cs_nodes s
       then s\<lparr>cs_nodes := insert (e_to e) (cs_nodes s), cs_next := cs_next s @ [e_to e]\<rparr> else s)"
    by (auto simp: scan_consumes_def Let_def split: option.split)
  then show "cs_nodes (scan_consumes g T e s) = cs_nodes s \<union> c"
    and "set (cs_next (scan_consumes g T e s)) = set (cs_next s) \<union> (c - cs_nodes s)"
    and "distinct (cs_next s) \<Longrightarrow> set (cs_next s) \<subseteq> cs_nodes s \<Longrightarrow>
         distinct (cs_next (scan_consumes g T e s)) \<and> set (cs_next (scan_consumes g T e s)) \<subseteq> cs_nodes (scan_consumes g T e s)"
    by (auto simp: c_def)
qed

lemma fold_scan_consumes:
  assumes w: "walkable g" and T: "\<forall>t \<in> T. \<exists>a. publishes g a t" and "set es \<subseteq> set (g_edges g)"
    and "distinct (cs_next s)" and "set (cs_next s) \<subseteq> cs_nodes s"
  defines "C \<equiv> e_to ` {e \<in> set es. e_kind e = Consumes \<and> e_from e \<in> T}"
  shows "cs_nodes (fold (scan_consumes g T) es s) = cs_nodes s \<union> C
    \<and> set (cs_next (fold (scan_consumes g T) es s)) = set (cs_next s) \<union> (C - cs_nodes s)
    \<and> distinct (cs_next (fold (scan_consumes g T) es s))"
  unfolding C_def using assms(3-5)
proof (induction es arbitrary: s)
  case (Cons e es)
  then have e: "e \<in> set (g_edges g)" by simp
  let ?s = "scan_consumes g T e s" and ?c = "if e_kind e = Consumes \<and> e_from e \<in> T then {e_to e} else {}"
  let ?C = "e_to ` {e \<in> set es. e_kind e = Consumes \<and> e_from e \<in> T}"
  note step = scan_consumes_nodes[OF w e T, of s]
  have C: "e_to ` {e' \<in> set (e # es). e_kind e' = Consumes \<and> e_from e' \<in> T} = ?c \<union> ?C" by auto
  have IH: "cs_nodes (fold (scan_consumes g T) es ?s) = cs_nodes ?s \<union> ?C"
    "set (cs_next (fold (scan_consumes g T) es ?s)) = set (cs_next ?s) \<union> (?C - cs_nodes ?s)"
    "distinct (cs_next (fold (scan_consumes g T) es ?s))"
    using Cons.IH[of ?s] Cons.prems step(3) by simp_all
  show ?case unfolding C fold_simps IH step(1,2) using IH(3) by blast
qed simp

text \<open>The walk after \<open>h\<close> hops from \<open>flow\<close>.\<close>

definition walk_inv :: "contract_graph \<Rightarrow> impact_flow \<Rightarrow> nat \<Rightarrow> walk \<Rightarrow> bool" where
  "walk_inv g flow h w \<longleftrightarrow>
     (let T0 = n_id ` set (if_topics flow); start = n_id ` set (if_consumers flow @ if_sagas flow) in
      w_nodes w = reached_within g T0 start h
      \<and> w_nodes w \<subseteq> node_ids g
      \<and> set (w_frontier w) \<subseteq> w_nodes w
      \<and> w_topics w = T0 \<union> {t. \<exists>a \<in> w_nodes w - set (w_frontier w). publishes g a t}
      \<and> (\<forall>t \<in> w_topics w - T0. \<forall>b. hears g t b \<longrightarrow> b \<in> w_nodes w)
      \<and> n_id ` set (if_consumers (w_flow w) @ if_sagas (w_flow w)) = w_nodes w)"

lemma walk_invD:
  fixes flow
  defines "T0 \<equiv> n_id ` set (if_topics flow)" and "start \<equiv> n_id ` set (if_consumers flow @ if_sagas flow)"
  assumes inv: "walk_inv g flow h w"
  shows "w_nodes w = reached_within g T0 start h" and "w_nodes w \<subseteq> node_ids g"
    and "set (w_frontier w) \<subseteq> w_nodes w"
    and "w_topics w = T0 \<union> {t. \<exists>a \<in> w_nodes w - set (w_frontier w). publishes g a t}"
    and "\<forall>t \<in> w_topics w - T0. \<forall>b. hears g t b \<longrightarrow> b \<in> w_nodes w"
    and "n_id ` set (if_consumers (w_flow w) @ if_sagas (w_flow w)) = w_nodes w"
proof -
  note I = inv[unfolded walk_inv_def Let_def, folded T0_def start_def]
  show "w_nodes w = reached_within g T0 start h" by (rule I[THEN conjunct1])
  note I = I[THEN conjunct2]
  show "w_nodes w \<subseteq> node_ids g" by (rule I[THEN conjunct1])
  note I = I[THEN conjunct2]
  show "set (w_frontier w) \<subseteq> w_nodes w" by (rule I[THEN conjunct1])
  note I = I[THEN conjunct2]
  show "w_topics w = T0 \<union> {t. \<exists>a \<in> w_nodes w - set (w_frontier w). publishes g a t}" by (rule I[THEN conjunct1])
  note I = I[THEN conjunct2]
  show "\<forall>t \<in> w_topics w - T0. \<forall>b. hears g t b \<longrightarrow> b \<in> w_nodes w" by (rule I[THEN conjunct1])
  show "n_id ` set (if_consumers (w_flow w) @ if_sagas (w_flow w)) = w_nodes w" by (rule I[THEN conjunct2])
qed

lemma walk_inv_start:
  "n_id ` set (if_consumers flow @ if_sagas flow) \<subseteq> node_ids g \<Longrightarrow> walk_inv g flow 0 (walk_start flow)"
  by (auto simp: walk_inv_def walk_start_def reached_within_0 Let_def)

lemma walk_inv_closed:
  assumes "walk_inv g flow h w" and "w_frontier w = []"
  shows "walk_inv g flow (Suc h) w"
proof -
  let ?T0 = "n_id ` set (if_topics flow)"
  have "b \<in> w_nodes w" if "a \<in> w_nodes w" "causes g ?T0 a b" for a b
  proof -
    from that(2) obtain t where t: "t \<notin> ?T0" "publishes g a t" "hears g t b" by (auto simp: causes_def)
    have VT: "w_topics w = ?T0 \<union> {t. \<exists>a \<in> w_nodes w - set (w_frontier w). publishes g a t}"
      and cl: "\<forall>t \<in> w_topics w - ?T0. \<forall>b. hears g t b \<longrightarrow> b \<in> w_nodes w"
      by (fact walk_invD[OF assms(1)])+
    have "t \<in> w_topics w" unfolding VT using t(2) that(1) assms(2) by auto
    with cl t show ?thesis by simp
  qed
  then have closed: "{b. \<exists>a \<in> w_nodes w. causes g ?T0 a b} \<subseteq> w_nodes w" by blast
  have V: "w_nodes w = reached_within g ?T0 (n_id ` set (if_consumers flow @ if_sagas flow)) h"
    by (rule walk_invD(1)[OF assms(1)])
  have eq: "reached_within g ?T0 (n_id ` set (if_consumers flow @ if_sagas flow)) (Suc h)
      = reached_within g ?T0 (n_id ` set (if_consumers flow @ if_sagas flow)) h"
    unfolding reached_within_Suc V[symmetric] using closed by blast
  show ?thesis using assms(1) unfolding walk_inv_def Let_def eq .
qed

lemma walk_inv_hop:
  assumes wf: "nodes_wf g" and wk: "walkable g" and inv: "walk_inv g flow h w"
  shows "walk_inv g flow (Suc h) (hop g w)"
proof (cases "w_frontier w = []")
  case True
  with walk_inv_closed[OF inv] show ?thesis by (simp add: hop_def)
next
  case False
  let ?T0 = "n_id ` set (if_topics flow)" and ?F = "set (w_frontier w)" and ?V = "w_nodes w" and ?VT = "w_topics w"
  have live: "?V \<subseteq> node_ids g" and FV: "?F \<subseteq> ?V"
    and VT: "?VT = ?T0 \<union> {t. \<exists>a \<in> ?V - ?F. publishes g a t}"
    and closed: "\<forall>t \<in> ?VT - ?T0. \<forall>b. hears g t b \<longrightarrow> b \<in> ?V"
    and flow: "n_id ` set (if_consumers (w_flow w) @ if_sagas (w_flow w)) = ?V"
    and V: "?V = reached_within g ?T0 (n_id ` set (if_consumers flow @ if_sagas flow)) h"
    by (fact walk_invD[OF inv])+
  define P where "P = {t. \<exists>a \<in> ?F. publishes g a t}"
  define ps where "ps = fold (scan_produces g ?F (n_file ` set (nodes_of g (w_frontier w)))) (g_edges g)
      \<lparr>ps_listed = [], ps_producers = w_producers w, ps_topics = ?VT, ps_new = []\<rparr>"
  define cs where "cs = fold (scan_consumes g (set (ps_new ps))) (g_edges g) \<lparr>cs_nodes = ?V, cs_next = []\<rparr>"
  have P: "e_to ` {e \<in> set (g_edges g). triggers g ?F (n_file ` set (nodes_of g (w_frontier w))) e} = P"
    unfolding P_def using triggers_publishes[OF wf] FV live by blast
  have ps: "ps_topics ps = ?VT \<union> P" "set (ps_new ps) = P - ?VT"
    by (simp_all add: ps_def fold_scan_produces P)
  define C where "C = {b. \<exists>t \<in> P - ?VT. hears g t b}"
  have "e_to ` {e \<in> set (g_edges g). e_kind e = Consumes \<and> e_from e \<in> set (ps_new ps)} = C"
    by (auto simp: C_def ps(2) hears_def)
  moreover have "\<forall>t \<in> set (ps_new ps). \<exists>a. publishes g a t" by (auto simp: ps(2) P_def)
  ultimately have cs: "cs_nodes cs = ?V \<union> C" "set (cs_next cs) = C - ?V"
    using fold_scan_consumes[OF wk, of "set (ps_new ps)" "g_edges g" "\<lparr>cs_nodes = ?V, cs_next = []\<rparr>"]
    by (simp_all add: cs_def)
  have hop: "w_nodes (hop g w) = ?V \<union> C" "set (w_frontier (hop g w)) = C - ?V" "w_topics (hop g w) = ?VT \<union> P"
    "set (if_consumers (w_flow (hop g w)) @ if_sagas (w_flow (hop g w)))
       = set (if_consumers (w_flow w) @ if_sagas (w_flow w)) \<union> set (nodes_of g (cs_next cs))"
    using False cs ps by (auto simp: hop_def Let_def ps_def cs_def)
  have Clive: "C \<subseteq> node_ids g" using wk by (auto simp: C_def hears_def walkable_def)
  then have ids: "n_id ` set (nodes_of g (cs_next cs)) = C - ?V"
    using nodes_of_ids[OF wf, of "cs_next cs"] cs(2) by auto
  have step: "?V \<union> C = ?V \<union> {b. \<exists>a \<in> ?V. causes g ?T0 a b}"
    using FV VT closed unfolding C_def P_def causes_def by blast
  show ?thesis
    unfolding walk_inv_def Let_def hop
  proof (intro conjI)
    show "?V \<union> C = reached_within g ?T0 (n_id ` set (if_consumers flow @ if_sagas flow)) (Suc h)"
      unfolding reached_within_Suc V[symmetric] by (rule step)
    show "?VT \<union> P = ?T0 \<union> {t. \<exists>a \<in> ?V \<union> C - (C - ?V). publishes g a t}"
      using VT FV unfolding P_def by blast
    show "\<forall>t \<in> ?VT \<union> P - ?T0. \<forall>b. hears g t b \<longrightarrow> b \<in> ?V \<union> C"
      using closed unfolding C_def by blast
    show "n_id ` (set (if_consumers (w_flow w) @ if_sagas (w_flow w)) \<union> set (nodes_of g (cs_next cs))) = ?V \<union> C"
      unfolding image_Un flow ids by blast
  qed (use live Clive FV in blast)+
qed

lemma walk_inv_hops:
  "nodes_wf g \<Longrightarrow> walkable g \<Longrightarrow> walk_inv g flow 0 w \<Longrightarrow> walk_inv g flow h ((hop g ^^ h) w)"
  by (induction h) (simp_all add: walk_inv_hop)


lemma reconcile_update: "wf_mesh g \<Longrightarrow> \<exists>h e. reconcile_edges clean g = (hubs g)\<lparr>g_handler_rpc_names := h, g_edges := e\<rparr>"
  using settle_is_update[of "hubs g" "import_edges clean g"] by (simp add: reconcile_settle)

lemma consumes_into_plain:
  assumes "wf_mesh g" and "e \<in> set (g_edges (reconcile_edges clean g))" and "e_kind e = Consumes"
  shows "\<exists>n. get_node (hubs g) (e_to e) = Some n \<and> \<not> is_hub n"
proof -
  from reconcile_edge_origin[OF assms(1,2)] assms(3)
  obtain k where k: "e \<in> set (direct_edges (hubs g) k) \<union> wildcard_edges (hubs g) k"
    using import_edges_live[of g e clean] call_edges_live[OF wf_hubs[OF assms(1)], of e]
      implements_edges_live[of "hubs g" e] assms(1) wf_hubs[OF assms(1)]
    by (auto simp: wf_mesh_def wf_graph_def)
  then have "e_to e \<in> set (bucket (g_topic_consumers (hubs g)) k)"
    using assms(3) by (auto simp: direct_edges_def wildcard_edges_def produces_edge_def consumes_edge_def
        wildcard_edge_def split: if_splits)
  then have "e_to e \<in> fact_ids (hubs g)" by (auto simp: fact_ids_def)
  with wf_mesh_hubs[OF assms(1)] show ?thesis
    unfolding wf_mesh_def facts_off_hubs_def
    using fact_ids_live[of "hubs g"] node_ids_get[of "e_to e" "hubs g"] by blast
qed

lemma produces_into_hub:
  assumes "wf_mesh g" and "e \<in> set (g_edges (reconcile_edges clean g))" and "e_kind e = Produces"
  shows "\<exists>n. get_node (hubs g) (e_to e) = Some n \<and> is_hub n"
proof -
  from reconcile_edge_origin[OF assms(1,2)] assms(3)
  obtain k where k: "k \<in> set (all_topics g)" "e \<in> set (direct_edges (hubs g) k) \<union> wildcard_edges (hubs g) k"
    using import_edges_live[of g e clean] call_edges_live[OF wf_hubs[OF assms(1)], of e]
      implements_edges_live[of "hubs g" e] assms(1) wf_hubs[OF assms(1)]
    by (auto simp: wf_mesh_def wf_graph_def)
  obtain h where h: "existing_hub (hubs g) k = Some h" using hubs_existing[OF assms(1) k(1)] by blast
  with hub_end[OF k(2) h] assms(3) existing_hub_Some[OF h] show ?thesis
    by (auto simp: is_hub_def stream_like_def)
qed

lemma walkable_reconciled:
  assumes "wf_mesh g" and "stale_hubs g (all_topics g) = []"
  shows "walkable (reconcile_edges clean g)"
  unfolding walkable_def
  using reconcile_ends_live[OF assms] consumes_into_plain[OF assms(1)] produces_into_hub[OF assms(1)]
  by (metis option.inject)

lemma analyze_impact_live:
  assumes "nodes_wf g"
  shows "n_id ` set (if_consumers (analyze_impact g target) @ if_sagas (analyze_impact g target)) \<subseteq> node_ids g"
proof -
  have "n_id n \<in> node_ids g" if "n \<in> set (nodes_of g ids)" for n ids
    using that get_node_id[OF assms] by (auto simp: set_nodes_of node_ids_get)
  then show ?thesis
    using all_nodes_live[OF assms] by (auto simp: analyze_impact_def registered_nodes_def Let_def)
qed

text \<open>
  C11: following an event to depth \<open>d\<close> in a reconciled graph finds exactly the consumers and sagas
  at a causal distance below \<open>d\<close> (clamped to the range 1 to 5) from the direct answer, where one
  causal step is a publication by a node, or by a node of its file, to a topic not already
  listed, heard by another node. In particular cycles neither trap the walk nor hide a node.
\<close>

theorem impact_walk_reaches:
  assumes "wf_mesh g" and "stale_hubs g (all_topics g) = []"
    and "G = reconcile_edges clean g" and "direct = analyze_impact G target"
    and "flow = analyze_impact_with_depth G target depth"
  shows "n_id ` set (if_consumers flow @ if_sagas flow) =
    {m. \<exists>k < clamp_depth depth. \<exists>s \<in> n_id ` set (if_consumers direct @ if_sagas direct).
       (causes G (n_id ` set (if_topics direct)) ^^ k) s m}"
proof -
  let ?d = "clamp_depth depth" and ?T0 = "n_id ` set (if_topics direct)"
    and ?start = "n_id ` set (if_consumers direct @ if_sagas direct)"
  obtain h e where "G = (hubs g)\<lparr>g_handler_rpc_names := h, g_edges := e\<rparr>"
    using reconcile_update[OF assms(1)] assms(3) by blast
  then have wf: "nodes_wf G" using wf_hubs[OF assms(1)] by (simp add: wf_graph_def nodes_wf_def)
  have wk: "walkable G" unfolding assms(3) by (rule walkable_reconciled[OF assms(1,2)])
  have inv: "walk_inv G direct n ((hop G ^^ n) (walk_start direct))" for n
    using analyze_impact_live[OF wf] by (intro walk_inv_hops[OF wf wk] walk_inv_start) (simp add: assms(4))
  have d: "?d = Suc (?d - 1)" by (simp add: clamp_depth_def)
  have "n_id ` set (if_consumers flow @ if_sagas flow) = reached_within G ?T0 ?start (?d - 1)"
  proof (cases "?d \<le> 1")
    case True
    then show ?thesis by (simp add: assms(4,5) analyze_impact_with_depth_def Let_def reached_within_0)
  next
    case False
    then have "n_id ` set (if_consumers flow @ if_sagas flow) = w_nodes ((hop G ^^ (?d - 1)) (walk_start direct))"
      using walk_invD(6)[OF inv] by (simp add: assms(4,5) analyze_impact_with_depth_def Let_def)
    then show ?thesis using walk_invD(1)[OF inv] by simp
  qed
  moreover have "k \<le> ?d - 1 \<longleftrightarrow> k < ?d" for k using d by linarith
  ultimately show ?thesis by (simp add: reached_within_def)
qed


text \<open>A checkout publishes \<^verbatim>\<open>orders\<close>; a relay turns each into a \<^verbatim>\<open>shipments\<close> event a mailer consumes,
  and the mailer publishes \<^verbatim>\<open>orders\<close> again.\<close>

definition relay_ops :: "mesh_op list" where
  "relay_ops =
     [Fold (AddNode (service_node ''Checkout'' ''src/checkout.ts'')),
      Fold (AddNode (service_node ''Relay'' ''src/relay.ts'')),
      Fold (AddNode (service_node ''Mailer'' ''src/mailer.ts'')),
      Fold (AddProducer 0 ''orders''), Fold (AddConsumer 1 ''orders''),
      Fold (AddProducer 1 ''shipments''), Fold (AddConsumer 2 ''shipments''),
      Fold (AddProducer 2 ''orders'')]"

definition relay :: contract_graph where
  "relay = mesh_run id relay_ops"

theorem impact_walk_reaches_witness:
  "map n_id (if_consumers (analyze_impact_with_depth (reconcile_edges id relay) ''orders'' 2)) = [1, 2]
   \<and> n_id ` set (if_consumers (analyze_impact_with_depth (reconcile_edges id relay) ''orders'' 2)
                 @ if_sagas (analyze_impact_with_depth (reconcile_edges id relay) ''orders'' 2)) =
     {m. \<exists>k < clamp_depth 2. \<exists>s \<in> n_id ` set (if_consumers (analyze_impact (reconcile_edges id relay) ''orders'')
                                             @ if_sagas (analyze_impact (reconcile_edges id relay) ''orders'')).
       (causes (reconcile_edges id relay)
          (n_id ` set (if_topics (analyze_impact (reconcile_edges id relay) ''orders''))) ^^ k) s m}"
proof -
  have ok: "mesh_run_ok id relay_ops empty_graph" by code_simp
  have wf: "wf_mesh relay" using mesh_run_inv[OF ok] by (simp add: relay_def mesh_inv_def)
  have st: "stale_hubs relay (all_topics relay) = []" by code_simp
  have two: "map n_id (if_consumers (analyze_impact_with_depth (reconcile_edges id relay) ''orders'' 2)) = [1, 2]"
    by code_simp
  show ?thesis by (intro conjI two impact_walk_reaches[OF wf st refl refl refl])
qed

end
