(* ===== verification/Graph_Matrix.thy ===== *)
theory Graph_Matrix
  imports Graph_Impact
begin

text \<open>
  The gRPC trace (\<^verbatim>\<open>analyze_grpc\<close>) and the impact matrix (\<^verbatim>\<open>impact_matrix_visible\<close>) of
  \<^verbatim>\<open>crates/mesh-core/src/contracts.rs\<close>. A span \<^verbatim>\<open>line_end - line_start\<close> is a difference of natural
  numbers: the parsers never record a node that ends before it starts.
\<close>

section \<open>Anchors\<close>

definition grpc_target_match :: "contract_node \<Rightarrow> string \<Rightarrow> (edge_confidence \<times> bool) option" where
  "grpc_target_match n target =
     (if n_kind n \<noteq> GrpcService \<and> n_kind n \<noteq> GrpcMethod then None
      else
        (let exact_name = (n_name n = target \<or> fqcn_equals (n_package n) (n_name n) target);
             matches_name = (exact_name \<or> eq_ignore_ascii_case (n_name n) target \<or> bare_names_match (n_name n) target);
             matches_fqcn = (str_contains (n_package n) target \<or> fqcn_contains (n_package n) (n_name n) target) in
         if \<not> (matches_name \<or> matches_fqcn) then None
         else Some (if exact_name then Exact else Heuristic, matches_name)))"

record anchor_match =
  am_node :: contract_node
  am_conf :: edge_confidence
  am_symbol :: bool

definition target_matches :: "contract_graph \<Rightarrow> string \<Rightarrow> anchor_match list" where
  "target_matches g target =
     List.map_filter (\<lambda>n. map_option (\<lambda>(c, symbol). \<lparr>am_node = n, am_conf = c, am_symbol = symbol\<rparr>)
                            (grpc_target_match n target)) (all_nodes g)"

definition method_of_service :: "contract_node \<Rightarrow> contract_node \<Rightarrow> bool" where
  "method_of_service s n \<longleftrightarrow>
     n_kind n = GrpcMethod \<and> n_file s = n_file n
     \<and> (case strip_prefix (n_name s) (n_name n) of Some rest \<Rightarrow> starts_with rest ''.'' | None \<Rightarrow> False)"

definition grpc_anchor_matches :: "contract_graph \<Rightarrow> string \<Rightarrow> anchor_match list \<times> contract_node list" where
  "grpc_anchor_matches g target =
     (let matches = target_matches g target in
      if \<not> list_ex am_symbol matches then (matches, [])
      else
        (let services = map am_node (filter (\<lambda>m. am_symbol m \<and> n_kind (am_node m) = GrpcService) matches);
             keep = (\<lambda>m. am_symbol m \<or> list_ex (\<lambda>s. method_of_service s (am_node m)) services) in
         (filter keep matches,
          filter (\<lambda>n. is_proto_file (n_file n)) (map am_node (filter (\<lambda>m. \<not> keep m) matches)))))"

definition enclosing_grpc_service :: "contract_graph \<Rightarrow> contract_node \<Rightarrow> node_id option" where
  "enclosing_grpc_service g m =
     map_option n_id (min_by_key (\<lambda>n. (n_line_end n - n_line_start n, n_id n))
       (filter (\<lambda>n. n_kind n = GrpcService \<and> n_file n = n_file m
                  \<and> n_line_start n \<le> n_line_start m \<and> n_line_end n \<ge> n_line_end m) (all_nodes g)))"

section \<open>The trace\<close>

record grpc_trace =
  gt_target :: string
  gt_proto :: "contract_node option"
  gt_clients :: "(contract_node \<times> edge_confidence) list"
  gt_handlers :: "(contract_node \<times> edge_confidence) list"
  gt_rpc_names :: "(node_id, string) hmap"
  gt_declared_as :: "(node_id, string) hmap"
  gt_service_clients :: "(contract_node \<times> edge_confidence) list"
  gt_related :: "contract_node list"
  gt_files :: nat

definition is_call_site :: "contract_node \<Rightarrow> bool" where
  "is_call_site n \<longleftrightarrow> starts_with (n_name n) ''rpc:''"

text \<open>A match is an anchor when it is declared in a proto file or matched as a symbol.\<close>

definition anchor_nodes :: "anchor_match list \<Rightarrow> contract_node list" where
  "anchor_nodes ms = map am_node (filter (\<lambda>m. is_proto_file (n_file (am_node m)) \<or> am_symbol m) ms)"

definition proto_definition :: "anchor_match list \<Rightarrow> contract_node option" where
  "proto_definition ms =
     fold (\<lambda>m acc. if is_proto_file (n_file (am_node m)) \<and> (am_conf m = Exact \<or> acc = None)
                    then Some (am_node m) else acc) ms None"

definition named_sites :: "bool \<Rightarrow> anchor_match list \<Rightarrow> (contract_node \<times> edge_confidence) list" where
  "named_sites client ms =
     map (\<lambda>m. (am_node m, am_conf m))
       (filter (\<lambda>m. \<not> is_proto_file (n_file (am_node m)) \<and> am_symbol m \<and> is_call_site (am_node m) = client) ms)"

definition add_handler ::
  "contract_node \<Rightarrow> edge_confidence \<Rightarrow> (contract_node \<times> edge_confidence) list \<Rightarrow> (contract_node \<times> edge_confidence) list" where
  "add_handler n c hs =
     (if list_ex (\<lambda>(h, _). n_id h = n_id n) hs
      then (if c = Exact then map (\<lambda>(h, d). (h, if n_id h = n_id n then Exact else d)) hs else hs)
      else hs @ [(n, c)])"

definition add_client ::
  "contract_node \<Rightarrow> edge_confidence \<Rightarrow> (contract_node \<times> edge_confidence) list \<Rightarrow> (contract_node \<times> edge_confidence) list" where
  "add_client n c cs = (if list_ex (\<lambda>(h, _). n_id h = n_id n) cs then cs else cs @ [(n, c)])"

definition trace_edge ::
  "contract_graph \<Rightarrow> contract_edge
   \<Rightarrow> (contract_node \<times> edge_confidence) list \<times> (contract_node \<times> edge_confidence) list
   \<Rightarrow> (contract_node \<times> edge_confidence) list \<times> (contract_node \<times> edge_confidence) list" where
  "trace_edge g e s =
     (case (e_kind e, get_node g (e_from e)) of
        (Implements, Some n) \<Rightarrow> (fst s, add_handler n (e_confidence e) (snd s))
      | (CallsRpc, Some n) \<Rightarrow> (add_client n (e_confidence e) (fst s), snd s)
      | _ \<Rightarrow> s)"

definition recorded_service :: "string \<Rightarrow> string option" where
  "recorded_service recorded =
     (case strip_prefix [RPC_EXACT_METHOD_PREFIX] recorded of
        Some t \<Rightarrow> map_option fst (rsplit_once CHR ''.'' t)
      | None \<Rightarrow>
          (case strip_prefix [CLIENT_FIELD_BINDING_PREFIX] recorded of
             Some b \<Rightarrow> map_option snd (split_once CHR ''='' b)
           | None \<Rightarrow> None))"

definition service_level_clients ::
  "contract_graph \<Rightarrow> contract_node list \<Rightarrow> (contract_node \<times> edge_confidence) list \<Rightarrow> (contract_node \<times> edge_confidence) list" where
  "service_level_clients g anchors clients =
     (let services = remdups (List.map_filter (enclosing_grpc_service g) (filter (\<lambda>m. n_kind m = GrpcMethod) anchors));
          service_names = map n_name (nodes_of g services);
          bound = filter (\<lambda>(_, recorded). case recorded_service recorded of
                            Some s \<Rightarrow> list_ex (\<lambda>n. eq_ignore_ascii_case n s) service_names | None \<Rightarrow> False) (g_rpc_calls g);
          resolved_files = n_file ` (set (map fst clients) \<union> set (nodes_of g (map fst bound)));
          edges = sort_key e_from (filter (\<lambda>e. e_kind e = CallsRpc \<and> e_to e \<in> set services) (g_edges g)) in
      fold (\<lambda>e cs. case get_node g (e_from e) of
                      Some n \<Rightarrow> if n_file n \<in> resolved_files then cs else add_client n (e_confidence e) cs
                    | None \<Rightarrow> cs) edges [])"

definition analyze_grpc :: "contract_graph \<Rightarrow> string \<Rightarrow> grpc_trace" where
  "analyze_grpc g target0 =
     (let target = trim target0;
          (matches, related) = grpc_anchor_matches g target;
          anchors = anchor_nodes matches;
          (clients, hs) =
            fold (\<lambda>a s. fold (\<lambda>e. if e_to e = n_id a then trace_edge g e else id) (g_edges g) s) anchors
              (named_sites True matches, named_sites False matches) in
      \<lparr>gt_target = target, gt_proto = proto_definition matches, gt_clients = clients, gt_handlers = hs,
       gt_rpc_names = List.map_filter (\<lambda>(h, _). map_option (\<lambda>r. (n_id h, r)) (map_of (g_handler_rpc_names g) (n_id h))) hs,
       gt_declared_as =
         fold (\<lambda>(i, recorded) out.
                 case strip_prefix [HANDLER_REF_PREFIX] recorded of
                   None \<Rightarrow> out
                 | Some r \<Rightarrow> (case declared_as r of Some text \<Rightarrow> hm_insert i text out | None \<Rightarrow> out))
           (filter (\<lambda>(i, _). map_of (g_handler_rpc_names g) i \<noteq> None \<and> list_ex (\<lambda>(h, _). n_id h = i) hs) (g_rpc_calls g)) [],
       gt_service_clients = service_level_clients g anchors clients,
       gt_related = related, gt_files = file_count g\<rparr>)"

section \<open>The matrix\<close>

datatype impact_scope = External | Internal

datatype impact_role = Handler | Client | Producer | Topic | Consumer | SagaRole

fun scope_rank :: "impact_scope \<Rightarrow> nat" where
  "scope_rank External = 0"
| "scope_rank Internal = 1"

fun role_rank :: "impact_role \<Rightarrow> nat" where
  "role_rank Handler = 0"
| "role_rank Client = 1"
| "role_rank Producer = 2"
| "role_rank Topic = 3"
| "role_rank Consumer = 4"
| "role_rank SagaRole = 5"

fun confidence_rank :: "edge_confidence \<Rightarrow> nat" where
  "confidence_rank Exact = 0"
| "confidence_rank Heuristic = 1"
| "confidence_rank Ambiguous = 2"

definition weakest :: "edge_confidence \<Rightarrow> edge_confidence \<Rightarrow> edge_confidence" where
  "weakest a b = (if confidence_rank a \<ge> confidence_rank b then a else b)"

definition scope_of :: "contract_node \<Rightarrow> repo_id list \<Rightarrow> impact_scope" where
  "scope_of n owners = (if n_repo n \<noteq> repo_max \<and> n_repo n \<in> set owners then Internal else External)"

definition async_match_confidence :: "contract_graph \<Rightarrow> contract_node \<Rightarrow> string \<Rightarrow> edge_confidence" where
  "async_match_confidence g n target =
     (let registered = (\<lambda>m. n_id n \<in> set (bucket m target));
          bare = (case pattern_topic (n_name n) of Some t \<Rightarrow> t | None \<Rightarrow> n_name n) in
      if registered (g_topic_producers g) \<or> registered (g_topic_consumers g) \<or> eq_ignore_ascii_case bare target
      then topic_confidence g (n_id n) else Heuristic)"

record impact_row =
  r_node :: contract_node
  r_role :: impact_role
  r_scope :: impact_scope
  r_confidence :: edge_confidence
  r_via :: "contract_node option"

text \<open>A hit of the gRPC part before owners are known: the row and the anchor it is classified
  against.\<close>

record grpc_hit =
  gh_node :: contract_node
  gh_role :: impact_role
  gh_conf :: edge_confidence
  gh_via :: "contract_node option"
  gh_anchor :: "node_id option"

definition named_hits :: "anchor_match list \<Rightarrow> grpc_hit list" where
  "named_hits ms =
     map (\<lambda>m. \<lparr>gh_node = am_node m, gh_role = (if is_call_site (am_node m) then Client else Handler),
               gh_conf = am_conf m, gh_via = None, gh_anchor = None\<rparr>)
       (filter (\<lambda>m. \<not> is_proto_file (n_file (am_node m)) \<and> am_symbol m) ms)"

definition services_of_method :: "contract_graph \<Rightarrow> contract_node \<Rightarrow> node_id list" where
  "services_of_method g anchor =
     (if n_kind anchor = GrpcMethod \<and> is_proto_file (n_file anchor) then
        (case rsplit_once CHR ''.'' (n_name anchor) of
           None \<Rightarrow> []
         | Some (service_name, _) \<Rightarrow>
             map n_id (filter (\<lambda>s. n_kind s = GrpcService
                                   \<and> (\<not> is_proto_file (n_file s) \<or> n_file s = n_file anchor))
                         (nodes_of g (bucket (g_name_to_nodes g) service_name))))
      else [])"

definition matrix_edge_targets :: "contract_graph \<Rightarrow> contract_node list \<Rightarrow> (node_id, (node_id \<times> bool) list) hmap" where
  "matrix_edge_targets g anchors =
     fold (\<lambda>(k, v). hm_push k v)
       (concat (map (\<lambda>a. (n_id a, (n_id a, False)) # map (\<lambda>s. (s, (n_id a, True))) (services_of_method g a)) anchors)) []"

definition edge_role :: "edge_kind \<Rightarrow> impact_role option" where
  "edge_role k = (case k of Implements \<Rightarrow> Some Handler | CallsRpc \<Rightarrow> Some Client | _ \<Rightarrow> None)"

definition edge_hits ::
  "contract_graph \<Rightarrow> (node_id, (node_id \<times> bool) list) hmap \<Rightarrow> contract_edge \<Rightarrow> grpc_hit list" where
  "edge_hits g targets e =
     (case (edge_role (e_kind e), get_node g (e_from e), get_node g (e_to e)) of
        (Some role, Some from, Some via) \<Rightarrow>
          map (\<lambda>(a, service_level).
                 \<lparr>gh_node = from, gh_role = role,
                  gh_conf = (if service_level then weakest (e_confidence e) Heuristic else e_confidence e),
                  gh_via = Some via, gh_anchor = Some a\<rparr>)
            (filter (\<lambda>(_, service_level). \<not> (service_level \<and> role \<noteq> Client)) (bucket targets (e_to e)))
      | _ \<Rightarrow> [])"

definition grpc_hits :: "contract_graph \<Rightarrow> anchor_match list \<Rightarrow> grpc_hit list" where
  "grpc_hits g ms =
     named_hits ms @ concat (map (edge_hits g (matrix_edge_targets g (anchor_nodes ms))) (g_edges g))"

definition owners_of :: "grpc_hit list \<Rightarrow> contract_node list \<Rightarrow> (node_id, repo_id list) hmap" where
  "owners_of hits anchors =
     (let by_handler = fold (\<lambda>h m. case gh_anchor h of
                          Some a \<Rightarrow> if gh_role h = Handler \<and> n_repo (gh_node h) \<noteq> repo_max
                                     then hm_push a (n_repo (gh_node h)) m else m
                        | None \<Rightarrow> m) hits [] in
      map (\<lambda>anchor.
             (let owners = bucket by_handler (n_id anchor) in
              (n_id anchor,
               remdups_adj (sort (if owners = [] \<and> n_repo anchor \<noteq> repo_max \<and> \<not> is_call_site anchor
                                  then [n_repo anchor] else owners)))))
        anchors)"

definition grpc_owners :: "grpc_hit list \<Rightarrow> (node_id, repo_id list) hmap \<Rightarrow> repo_id list" where
  "grpc_owners hits owners =
     remdups_adj (sort (concat (map snd owners)
       @ map (\<lambda>h. n_repo (gh_node h))
           (filter (\<lambda>h. gh_anchor h = None \<and> gh_role h = Handler \<and> n_repo (gh_node h) \<noteq> repo_max) hits)))"

definition grpc_rows :: "grpc_hit list \<Rightarrow> (node_id, repo_id list) hmap \<Rightarrow> repo_id list \<Rightarrow> impact_row list" where
  "grpc_rows hits owners all_owners =
     (let linked = (\<lambda>h. (n_id (gh_node h), gh_role h)) ` set (filter (\<lambda>h. gh_via h \<noteq> None) hits) in
      map (\<lambda>h. \<lparr>r_node = gh_node h, r_role = gh_role h,
                r_scope = scope_of (gh_node h) (case gh_anchor h of Some a \<Rightarrow> bucket owners a | None \<Rightarrow> all_owners),
                r_confidence = gh_conf h, r_via = gh_via h\<rparr>)
        (filter (\<lambda>h. \<not> (gh_via h = None \<and> (n_id (gh_node h), gh_role h) \<in> linked)) hits))"

definition async_owners :: "impact_flow \<Rightarrow> repo_id list" where
  "async_owners flow =
     (let of_nodes = (\<lambda>ns. filter (\<lambda>r. r \<noteq> repo_max) (map n_repo ns));
          producers = of_nodes (if_upstream flow) in
      remdups_adj (sort (if producers = [] then of_nodes (if_topics flow) else producers)))"

definition async_role :: "contract_node \<Rightarrow> impact_role \<Rightarrow> impact_role" where
  "async_role n role =
     (if starts_with (n_name n) ''produce:'' then Producer
      else if starts_with (n_name n) ''consume:'' then Consumer else role)"

definition async_rows :: "contract_graph \<Rightarrow> impact_flow \<Rightarrow> impact_row list" where
  "async_rows g flow =
     concat (map (\<lambda>(ns, role).
         map (\<lambda>n. \<lparr>r_node = n, r_role = async_role n role, r_scope = scope_of n (async_owners flow),
                   r_confidence = async_match_confidence g n (to_lowercase (if_key flow)), r_via = None\<rparr>) ns)
       [(if_upstream flow, Producer), (if_topics flow, Topic), (if_consumers flow, Consumer),
        (if_sagas flow, SagaRole), (if_downstream_producers flow, Producer)])"

text \<open>\<^verbatim>\<open>Option\<close> compares \<^verbatim>\<open>None\<close> below every \<^verbatim>\<open>Some\<close>, as the empty list is below every other.\<close>

definition opt_key :: "'a option \<Rightarrow> 'a list" where
  "opt_key x = (case x of None \<Rightarrow> [] | Some y \<Rightarrow> [y])"

definition row_identity :: "impact_row \<Rightarrow> node_id \<times> impact_role \<times> node_id option" where
  "row_identity r = (n_id (r_node r), r_role r, map_option n_id (r_via r))"

definition dedup_key :: "impact_row \<Rightarrow> node_id \<times> nat \<times> node_id list \<times> nat \<times> nat" where
  "dedup_key r =
     (n_id (r_node r), role_rank (r_role r), opt_key (map_option n_id (r_via r)),
      confidence_rank (r_confidence r), scope_rank (r_scope r))"

definition row_key ::
  "impact_row \<Rightarrow> nat \<times> nat \<times> path \<times> nat \<times> string \<times> (path \<times> nat \<times> string) list \<times> node_id \<times> node_id list" where
  "row_key r =
     (scope_rank (r_scope r), role_rank (r_role r), n_file (r_node r), n_line_start (r_node r), n_name (r_node r),
      opt_key (map_option (\<lambda>v. (n_file v, n_line_start v, n_name v)) (r_via r)),
      n_id (r_node r), opt_key (map_option n_id (r_via r)))"

definition dedup_rows :: "impact_row list \<Rightarrow> impact_row list" where
  "dedup_rows rows = sort_key row_key (dedup_by_key row_identity (sort_key dedup_key rows))"

record matrix_report =
  im_target :: string
  im_contracts :: "contract_node list"
  im_owner_roots :: "repo_id list"
  im_rows :: "impact_row list"
  im_no_producer :: bool
  im_no_consumer :: bool
  im_file_linked_hops :: bool
  im_depth :: nat
  im_unexpanded :: "contract_node list"
  im_chain_end :: "contract_node list"
  im_only_in_tests :: bool
  im_hidden_rows :: nat

text \<open>Every row of the matrix before duplicates are merged and hidden rows left out.\<close>

definition matrix_candidates :: "contract_graph \<Rightarrow> string \<Rightarrow> nat \<Rightarrow> impact_row list" where
  "matrix_candidates g target depth =
     (let ms = fst (grpc_anchor_matches g target); hits = grpc_hits g ms;
          owners = owners_of hits (anchor_nodes ms) in
      grpc_rows hits owners (grpc_owners hits owners)
      @ async_rows g (analyze_impact_with_depth g target depth))"

definition impact_matrix_visible ::
  "contract_graph \<Rightarrow> string \<Rightarrow> nat \<Rightarrow> (contract_node \<Rightarrow> bool) \<Rightarrow> matrix_report" where
  "impact_matrix_visible g target0 depth hide =
     (let target = trim target0;
          ms = fst (grpc_anchor_matches g target);
          hits = grpc_hits g ms;
          flow = analyze_impact_with_depth g target depth;
          rows = dedup_rows (matrix_candidates g target depth);
          shown_rows = filter (\<lambda>r. \<not> hide (r_node r)) rows;
          event_matched = (if_topics flow \<noteq> [] \<or> if_upstream flow \<noteq> [] \<or> if_consumers flow \<noteq> []);
          shown = list_ex (\<lambda>n. \<not> hide n);
          shown_in_a_root = list_ex (\<lambda>n. n_repo n \<noteq> repo_max \<and> \<not> hide n) in
      \<lparr>im_target = target,
       im_contracts = sort_key (\<lambda>n. (n_file n, n_line_start n, n_name n))
                        (filter (\<lambda>n. is_proto_file (n_file n)) (anchor_nodes ms)),
       im_owner_roots = remdups_adj (sort (grpc_owners hits (owners_of hits (anchor_nodes ms)) @ async_owners flow)),
       im_rows = shown_rows,
       im_no_producer = (event_matched \<and> \<not> shown (if_upstream flow)
          \<and> \<not> list_ex (\<lambda>n. starts_with (n_name n) ''produce:'' \<and> \<not> hide n) (if_topics flow)),
       im_no_consumer = (event_matched
          \<and> \<not> shown (if_consumers flow @ filter (\<lambda>n. starts_with (n_name n) ''consume:'') (if_topics flow))),
       im_file_linked_hops = (if_downstream_producers flow \<noteq> []),
       im_depth = clamp_depth depth,
       im_unexpanded = filter (\<lambda>n. \<not> hide n) (if_unexpanded flow),
       im_chain_end = filter (\<lambda>n. \<not> hide n) (if_chain_end flow),
       im_only_in_tests = (event_matched \<and> \<not> shown_in_a_root (if_topics flow)
          \<and> \<not> shown_in_a_root (if_upstream flow) \<and> \<not> shown_in_a_root (if_consumers flow)),
       im_hidden_rows = length rows - length shown_rows\<rparr>)"

definition impact_matrix :: "contract_graph \<Rightarrow> string \<Rightarrow> nat \<Rightarrow> matrix_report" where
  "impact_matrix g target depth = impact_matrix_visible g target depth (\<lambda>_. False)"

section \<open>Merging duplicate rows\<close>

lemma set_dedup_by_key: "set (dedup_by_key k xs) \<subseteq> set xs"
  by (induction k xs rule: dedup_by_key.induct) auto

lemma keys_dedup_by_key: "k ` set (dedup_by_key k xs) = k ` set xs"
  by (induction k xs rule: dedup_by_key.induct) auto

lemma dedup_by_key_distinct:
  fixes k :: "'a \<Rightarrow> 'b::linorder"
  shows "sorted (map k xs) \<Longrightarrow> distinct (map k (dedup_by_key k xs))"
proof (induction k xs rule: dedup_by_key.induct)
  case (1 k x y zs)
  show ?case
  proof (cases "k x = k y")
    case True
    with 1 show ?thesis by auto
  next
    case False
    with 1(3) have "k x < k y" "\<forall>z \<in> set (y # zs). k y \<le> k z" by auto
    then have "k x \<notin> k ` set (dedup_by_key k (y # zs))" unfolding keys_dedup_by_key by fastforce
    with False 1 show ?thesis by simp
  qed
qed auto

lemma dedup_by_key_first:
  assumes "sorted (map g xs)" and "\<forall>a b. g a \<le> g b \<longrightarrow> k a \<le> (k b :: 'b::linorder)"
    and "x \<in> set (dedup_by_key k xs)" and "y \<in> set xs" and "k y = k x"
  shows "g x \<le> (g y :: 'c::linorder)"
  using assms
proof (induction k xs arbitrary: y rule: dedup_by_key.induct)
  case (1 k a b zs)
  have ab: "g a \<le> g b" "\<forall>z \<in> set (b # zs). g a \<le> g z" "sorted (map g (a # zs))" "sorted (map g (b # zs))"
    using 1(3) by auto
  show ?case
  proof (cases "k a = k b")
    case True
    have x: "x \<in> set (dedup_by_key k (a # zs))" using 1(5) True by simp
    note IH = 1(1)[OF True ab(3) 1(4) x]
    show ?thesis
    proof (cases "y = b")
      case True
      with IH[OF list.set_intros(1)] \<open>k a = k b\<close> 1(7) ab(1) show ?thesis by simp
    next
      case False
      with 1(6) have "y \<in> set (a # zs)" by auto
      from IH[OF this 1(7)] show ?thesis .
    qed
  next
    case False
    consider "x = a" | "x \<in> set (dedup_by_key k (b # zs))" using 1(5) False by auto
    then show ?thesis
    proof cases
      case 1
      with ab(2) \<open>y \<in> set (a # b # zs)\<close> show ?thesis by auto
    next
      case 2
      have "k a < k b" using False ab(1) 1(4) by (simp add: order.not_eq_order_implies_strict)
      moreover have "\<forall>z \<in> set (b # zs). k b \<le> k z" using ab(4) 1(4) by auto
      moreover have "x \<in> set (b # zs)" using 2 set_dedup_by_key by fast
      ultimately have "y \<noteq> a" using 1(7) by fastforce
      with 1(2)[OF False ab(4) 1(4) 2] 1(6,7) show ?thesis by simp
    qed
  qed
qed auto

lemma dedup_by_key_cong:
  "(\<And>x y. k x = k y \<longleftrightarrow> h x = h y) \<Longrightarrow> dedup_by_key k xs = dedup_by_key h xs"
  by (induction k xs rule: dedup_by_key.induct) auto

text \<open>The identity of a row as a key of a linear order.\<close>

definition identity_key :: "impact_row \<Rightarrow> node_id \<times> nat \<times> node_id list" where
  "identity_key r = (n_id (r_node r), role_rank (r_role r), opt_key (map_option n_id (r_via r)))"

lemma role_rank_inj: "role_rank a = role_rank b \<longleftrightarrow> a = b"
  by (cases a; cases b) auto

lemma opt_key_inj: "opt_key a = opt_key b \<longleftrightarrow> a = b"
  by (auto simp: opt_key_def split: option.splits)

lemma identity_key_iff: "row_identity a = row_identity b \<longleftrightarrow> identity_key a = identity_key b"
  by (auto simp: row_identity_def identity_key_def role_rank_inj opt_key_inj)

lemma dedup_key_mono: "dedup_key a \<le> dedup_key b \<Longrightarrow> identity_key a \<le> identity_key b"
  by (auto simp: dedup_key_def identity_key_def less_eq_prod_def)

lemma dedup_rows_mem: "set (dedup_rows rows) = set (dedup_by_key identity_key (sort_key dedup_key rows))"
  using dedup_by_key_cong[of row_identity identity_key, OF identity_key_iff] by (simp add: dedup_rows_def)

lemma sorted_identity: "sorted (map identity_key (sort_key dedup_key rows))"
proof -
  have "sorted_wrt (\<lambda>a b. dedup_key a \<le> dedup_key b) (sort_key dedup_key rows)"
    using sorted_sort_key[of dedup_key rows] by (simp add: sorted_map)
  then show ?thesis unfolding sorted_map by (rule sorted_wrt_mono_rel[rotated]) (rule dedup_key_mono)
qed

lemma dedup_rows_distinct: "distinct (map row_identity (dedup_rows rows))"
proof -
  let ?d = "dedup_by_key row_identity (sort_key dedup_key rows)"
  have "distinct (map identity_key ?d)"
    unfolding dedup_by_key_cong[of row_identity identity_key, OF identity_key_iff] by (rule dedup_by_key_distinct[OF sorted_identity])
  then have "distinct ?d" "inj_on identity_key (set ?d)" by (simp_all add: distinct_map)
  moreover from this(2) have "inj_on row_identity (set ?d)" by (simp add: inj_on_def identity_key_iff)
  ultimately show ?thesis by (simp add: dedup_rows_def distinct_map)
qed

lemma dedup_rows_cover:
  assumes "c \<in> set rows"
  shows "\<exists>r \<in> set (dedup_rows rows). row_identity r = row_identity c \<and>
           confidence_rank (r_confidence r) \<le> confidence_rank (r_confidence c)"
proof -
  let ?s = "sort_key dedup_key rows"
  have "identity_key c \<in> identity_key ` set (dedup_by_key identity_key ?s)"
    using assms by (simp add: keys_dedup_by_key)
  then obtain r where r: "r \<in> set (dedup_by_key identity_key ?s)" "identity_key r = identity_key c" by force
  have "dedup_key r \<le> dedup_key c"
    using dedup_by_key_first[where g = dedup_key and k = identity_key, OF _ _ r(1), of c] assms r(2) dedup_key_mono
    by simp
  then have "confidence_rank (r_confidence r) \<le> confidence_rank (r_confidence c)"
    using r(2) by (auto simp: dedup_key_def identity_key_def less_eq_prod_def less_prod_def)
  with r show ?thesis by (auto simp: dedup_rows_mem identity_key_iff)
qed


section \<open>The rows of the matrix\<close>

lemma bucket_in_values: "i \<in> set (bucket m k) \<Longrightarrow> i \<in> set (concat (map snd m))"
proof (cases "map_of m k")
  case (Some ids)
  then show "i \<in> set (bucket m k) \<Longrightarrow> ?thesis" using map_of_SomeD[OF Some] by (force simp: bucket_map_of)
qed (simp add: bucket_map_of)

lemma scope_Internal: "scope_of n owners = Internal \<longleftrightarrow> n_repo n \<noteq> repo_max \<and> n_repo n \<in> set owners"
  by (simp add: scope_of_def)

lemma grpc_rows_scope:
  assumes "r \<in> set (grpc_rows hits owners (grpc_owners hits owners))" and "r_scope r = Internal"
  shows "n_repo (r_node r) \<noteq> repo_max \<and> n_repo (r_node r) \<in> set (grpc_owners hits owners)"
  using assms bucket_in_values[of "n_repo (r_node r)" owners]
  by (auto simp: grpc_rows_def Let_def scope_Internal grpc_owners_def split: option.splits)

lemma async_rows_scope:
  "r \<in> set (async_rows g flow) \<Longrightarrow> r_scope r = Internal \<Longrightarrow>
     n_repo (r_node r) \<noteq> repo_max \<and> n_repo (r_node r) \<in> set (async_owners flow)"
  by (auto simp: async_rows_def scope_Internal)

lemma dedup_rows_subset: "set (dedup_rows rows) \<subseteq> set rows"
  using set_dedup_by_key[of row_identity "sort_key dedup_key rows"] by (auto simp: dedup_rows_def)

lemma distinct_map_filter: "distinct (map f xs) \<Longrightarrow> distinct (map f (filter P xs))"
  by (induction xs) auto

text \<open>
  The rows of an impact matrix are unique per node, role and contract, ordered by scope, role
  and location, show no hidden node, and a row is internal only if the root of its node is one of
  the owners the matrix lists; the synthetic hubs, which have no root, never are. The hidden rows
  are counted.
\<close>

theorem impact_matrix_rows:
  "distinct (map row_identity (im_rows (impact_matrix_visible g target depth hide)))
   \<and> sorted (map row_key (im_rows (impact_matrix_visible g target depth hide)))
   \<and> list_all (\<lambda>r. \<not> hide (r_node r)) (im_rows (impact_matrix_visible g target depth hide))
   \<and> list_all (\<lambda>r. r_scope r = External \<or> n_repo (r_node r) \<noteq> repo_max
        \<and> n_repo (r_node r) \<in> set (im_owner_roots (impact_matrix_visible g target depth hide)))
       (im_rows (impact_matrix_visible g target depth hide))
   \<and> length (im_rows (impact_matrix_visible g target depth hide))
       + im_hidden_rows (impact_matrix_visible g target depth hide)
       = length (im_rows (impact_matrix g target depth))"
proof -
  let ?t = "trim target"
  define rows where "rows = dedup_rows (matrix_candidates g ?t depth)"
  have shown: "im_rows (impact_matrix_visible g target depth hide) = filter (\<lambda>r. \<not> hide (r_node r)) rows"
    "im_hidden_rows (impact_matrix_visible g target depth hide)
       = length rows - length (filter (\<lambda>r. \<not> hide (r_node r)) rows)"
    "im_rows (impact_matrix g target depth) = rows"
    by (simp_all add: impact_matrix_visible_def impact_matrix_def Let_def rows_def)
  have dist: "distinct (map row_identity rows)" by (simp add: rows_def dedup_rows_distinct)
  have sort: "sorted (map row_key (filter (\<lambda>r. \<not> hide (r_node r)) rows))"
    by (simp add: rows_def dedup_rows_def sorted_filter)
  have scope: "r_scope r = External \<or> n_repo (r_node r) \<noteq> repo_max
      \<and> n_repo (r_node r) \<in> set (im_owner_roots (impact_matrix_visible g target depth hide))" if "r \<in> set rows" for r
  proof (cases "r_scope r")
    case Internal
    from that dedup_rows_subset have "r \<in> set (matrix_candidates g ?t depth)" by (auto simp: rows_def)
    with Internal grpc_rows_scope async_rows_scope show ?thesis
      by (fastforce simp: matrix_candidates_def impact_matrix_visible_def Let_def)
  qed simp
  show ?thesis
    unfolding shown using sort scope length_filter_le[of "\<lambda>r. \<not> hide (r_node r)" rows]
    by (auto simp: list_all_iff intro: distinct_map_filter[OF dist])
qed

text \<open>Every node a matrix speaks of is a node of the graph.\<close>

definition flow_in :: "contract_graph \<Rightarrow> impact_flow \<Rightarrow> bool" where
  "flow_in g flow \<longleftrightarrow>
     set (if_upstream flow) \<union> set (if_topics flow) \<union> set (if_consumers flow) \<union> set (if_sagas flow)
     \<union> set (if_downstream_producers flow) \<subseteq> set (all_nodes g)"

lemma nodes_of_in: "set (nodes_of g ids) \<subseteq> set (all_nodes g)"
  by (auto simp: set_nodes_of dest: get_node_in_all)

lemma flow_in_direct: "flow_in g (analyze_impact g target)"
  using nodes_of_in by (fastforce simp: flow_in_def analyze_impact_def registered_nodes_def Let_def)

lemma flow_in_extend:
  "flow_in g flow \<Longrightarrow> flow_in g (flow\<lparr>if_downstream_producers := if_downstream_producers flow @ nodes_of g a,
     if_topics := if_topics flow @ nodes_of g b, if_sagas := if_sagas flow @ filter P (nodes_of g c),
     if_consumers := if_consumers flow @ filter Q (nodes_of g c)\<rparr>)"
  by (auto simp: flow_in_def dest: subsetD[OF nodes_of_in])

lemma flow_in_hop: "flow_in g (w_flow w) \<Longrightarrow> flow_in g (w_flow (hop g w))"
  unfolding hop_def Let_def by (simp add: flow_in_extend)

lemma flow_in_hops: "flow_in g (w_flow w) \<Longrightarrow> flow_in g (w_flow ((hop g ^^ n) w))"
  by (induction n) (simp_all add: flow_in_hop)

lemma flow_in_depth: "flow_in g (analyze_impact_with_depth g target depth)"
  using flow_in_direct[of g target] flow_in_hops[of g "walk_start (analyze_impact g target)"]
  by (auto simp: analyze_impact_with_depth_def Let_def flow_in_def walk_start_def)

lemma target_matches_in: "m \<in> set (target_matches g t) \<Longrightarrow> am_node m \<in> set (all_nodes g)"
  by (auto simp: target_matches_def set_map_filter)

lemma anchor_matches_in: "m \<in> set (fst (grpc_anchor_matches g t)) \<Longrightarrow> am_node m \<in> set (all_nodes g)"
  using target_matches_in by (auto simp: grpc_anchor_matches_def Let_def split: if_splits)

lemma grpc_hits_in:
  "h \<in> set (grpc_hits g (fst (grpc_anchor_matches g t))) \<Longrightarrow> gh_node h \<in> set (all_nodes g)"
  using anchor_matches_in
  by (auto simp: grpc_hits_def named_hits_def edge_hits_def split: option.splits dest: get_node_in_all[OF sym])

lemma matrix_candidates_in: "r \<in> set (matrix_candidates g t depth) \<Longrightarrow> r_node r \<in> set (all_nodes g)"
  using grpc_hits_in[of _ g t] flow_in_depth[of g t depth]
  by (auto simp: matrix_candidates_def Let_def grpc_rows_def async_rows_def flow_in_def)



end
