(* ===== verification/Http_Routes.thy ===== *)
theory Http_Routes
  imports Contract_Graph
begin

text \<open>
  HTTP route matching, \<^verbatim>\<open>crates/mesh-core/src/routes.rs\<close>: reading route segments in every spelling of
  a parameter, the per-root prefixes, parsing a route query, ranking a route against a query, and
  searching the graph. The glob library is a parameter: \<^term>\<open>glob key\<close> is \<^verbatim>\<open>None\<close> when the pattern
  does not compile and the matcher otherwise. A verb is the string of \<^verbatim>\<open>HTTP_VERBS\<close>.
\<close>

section \<open>Segments\<close>

definition HTTP_VERBS :: "string list" where
  "HTTP_VERBS = [''GET'', ''POST'', ''PUT'', ''PATCH'', ''DELETE'', ''HEAD'', ''OPTIONS'']"

datatype seg = Param | Lit string

datatype route_rank = ExactRoute | ValueRoute | LeadingRoute | FragmentRoute

fun rank_key :: "route_rank \<Rightarrow> nat" where
  "rank_key ExactRoute = 0"
| "rank_key ValueRoute = 1"
| "rank_key LeadingRoute = 2"
| "rank_key FragmentRoute = 3"

record node_route =
  nr_verb :: string
  nr_segs :: "seg list"

record route_query =
  rq_verb :: "string option"
  rq_segs :: "seg list"
  rq_root_only :: bool
  rq_verb_and_slash :: bool

text \<open>The delimiter scan of \<^verbatim>\<open>wrapped\<close>. It starts on an opening delimiter, so the depth is positive
  at every closing one.\<close>

fun wrap_loop :: "char \<Rightarrow> char \<Rightarrow> nat \<Rightarrow> string \<Rightarrow> bool" where
  "wrap_loop opn cls depth [] = False"
| "wrap_loop opn cls depth (c # cs) =
     (if c = opn then wrap_loop opn cls (depth + 1) cs
      else if c = cls then (if depth - 1 = 0 then cs = [] else wrap_loop opn cls (depth - 1) cs)
      else wrap_loop opn cls depth cs)"

definition wrapped :: "string \<Rightarrow> char \<Rightarrow> char \<Rightarrow> bool" where
  "wrapped s opn cls \<longleftrightarrow>
     starts_with s [opn] \<and> ends_with s [cls] \<and> length s \<ge> 3 \<and> wrap_loop opn cls 0 s"

definition is_name_char :: "char \<Rightarrow> bool" where
  "is_name_char c \<longleftrightarrow> is_ascii_alphanumeric c \<or> c = CHR ''_''"

definition is_param_name :: "string \<Rightarrow> bool" where
  "is_param_name s \<longleftrightarrow> s \<noteq> [] \<and> list_all is_name_char s"

text \<open>What follows the group that a leading \<^verbatim>\<open>(\<close> opens.\<close>

fun after_group :: "nat \<Rightarrow> string \<Rightarrow> string option" where
  "after_group depth [] = None"
| "after_group depth (c # cs) =
     (if c = CHR ''('' then after_group (depth + 1) cs
      else if c = CHR '')'' then (if depth - 1 = 0 then Some cs else after_group (depth - 1) cs)
      else after_group depth cs)"

definition is_express_param :: "string \<Rightarrow> bool" where
  "is_express_param rest =
     (let name = takeWhile is_name_char rest; tail = dropWhile is_name_char rest in
      if name = [] then False
      else
        (case (if starts_with tail ''('' then after_group 0 tail else Some tail) of
           None \<Rightarrow> False
         | Some t \<Rightarrow> t \<in> set ['''', ''?'', ''*'', ''+'']))"

definition is_param :: "string \<Rightarrow> bool" where
  "is_param s =
     (if s = ''*'' then True
      else case strip_prefix ''*'' s of Some rest \<Rightarrow> is_param_name rest
      | None \<Rightarrow>
          (case strip_prefix '':'' s of Some rest \<Rightarrow> is_express_param rest
           | None \<Rightarrow>
               (case strip_prefix ''$'' s of
                  Some rest \<Rightarrow> is_param_name rest \<or> wrapped rest CHR ''{'' CHR ''}''
                | None \<Rightarrow> wrapped s CHR ''{'' CHR ''}'' \<or> wrapped s CHR ''<'' CHR ''>''
                           \<or> wrapped s CHR ''['' CHR '']'')))"

definition seg_of :: "string \<Rightarrow> seg" where
  "seg_of s = (if is_param s then Param else Lit (to_lowercase s))"

definition is_query_start :: "char \<Rightarrow> bool" where
  "is_query_start c \<longleftrightarrow> c = CHR ''?'' \<or> c = CHR ''#''"

definition path_segments :: "string \<Rightarrow> seg list" where
  "path_segments p =
     map seg_of (filter (\<lambda>s. s \<noteq> []) (map trim (split CHR ''/'' (hd (split_pred is_query_start p)))))"

definition prefix_segments :: "string option \<Rightarrow> seg list" where
  "prefix_segments p = (case p of Some t \<Rightarrow> path_segments t | None \<Rightarrow> [])"

section \<open>Prefixes\<close>

record http_prefix =
  px_text :: string
  px_segs :: "seg list"

definition prefix_new :: "string \<Rightarrow> http_prefix" where
  "prefix_new text = (let t = trim text in \<lparr>px_text = t, px_segs = path_segments t\<rparr>)"

definition prefix_non_empty :: "string \<Rightarrow> http_prefix option" where
  "prefix_non_empty text = (let p = prefix_new text in if px_text p \<noteq> [] then Some p else None)"

record http_prefixes =
  hp_workspace :: "http_prefix option"
  hp_per_root :: "http_prefix option list"

text \<open>The fields of \<^verbatim>\<open>WorkspaceConfig\<close> the prefixes are resolved from.\<close>

record http_config =
  hc_prefix :: "string option"
  hc_prefixes :: "(string, string) hmap"
  hc_workspace_root :: "path option"

fun trim_dot_slash :: "string \<Rightarrow> string" where
  "trim_dot_slash (a # b # cs) = (if a = CHR ''.'' \<and> b = CHR ''/'' then trim_dot_slash cs else a # b # cs)"
| "trim_dot_slash s = s"

definition trim_end_char :: "char \<Rightarrow> string \<Rightarrow> string" where
  "trim_end_char c s = rev (dropWhile (\<lambda>x. x = c) (rev s))"

type_synonym glob = "string \<Rightarrow> (string \<Rightarrow> bool) option"

definition key_specificity :: "glob \<Rightarrow> string \<Rightarrow> path \<Rightarrow> string \<Rightarrow> (nat \<times> nat) option" where
  "key_specificity glob key0 root rel =
     (let key = trim_end_char CHR ''/'' (trim_dot_slash (trim key0));
          name = (case file_name root of Some n \<Rightarrow> n | None \<Rightarrow> []);
          abs = replace_chars {CHR 0x5C} CHR ''/'' (path_str root) in
      if key = [] then None
      else if key = name \<or> key = rel \<or> key = abs then Some (2, length key)
      else case glob key of
        None \<Rightarrow> None
      | Some is_match \<Rightarrow> if is_match rel \<or> is_match name \<or> is_match abs then Some (1, length key) else None)"

definition relative_to_workspace :: "path \<Rightarrow> path option \<Rightarrow> string" where
  "relative_to_workspace root workspace_root =
     (let rel = (case Option.bind workspace_root (\<lambda>w. path_strip_prefix w root) of Some r \<Rightarrow> r | None \<Rightarrow> root);
          joined = join_with ''/'' (map component_str rel) in
      if joined = [] then ''.'' else joined)"

definition uniform :: "string option \<Rightarrow> http_prefixes" where
  "uniform p = \<lparr>hp_workspace = Option.bind p prefix_non_empty, hp_per_root = []\<rparr>"

text \<open>\<^verbatim>\<open>max_by\<close> with the comparator of \<^verbatim>\<open>resolve\<close>: the higher specificity wins, then the smaller key.\<close>

definition key_beats ::
  "(nat \<times> nat) \<times> string \<times> string \<Rightarrow> (nat \<times> nat) \<times> string \<times> string \<Rightarrow> bool" where
  "key_beats a b \<longleftrightarrow> fst a > fst b \<or> fst a = fst b \<and> fst (snd b) > fst (snd a)"

fun best_key ::
  "((nat \<times> nat) \<times> string \<times> string) list \<Rightarrow> ((nat \<times> nat) \<times> string \<times> string) option" where
  "best_key [] = None"
| "best_key (x # xs) = Some (fold (\<lambda>y best. if key_beats best y then best else y) xs x)"

definition named_keys :: "glob \<Rightarrow> http_config \<Rightarrow> path \<Rightarrow> ((nat \<times> nat) \<times> string \<times> string) list" where
  "named_keys glob ws root =
     List.map_filter (\<lambda>(k, v). map_option (\<lambda>s. (s, k, v))
         (key_specificity glob k root (relative_to_workspace root (hc_workspace_root ws))))
       (sort (hc_prefixes ws))"

definition resolve_prefixes :: "glob \<Rightarrow> http_config \<Rightarrow> path list \<Rightarrow> http_prefixes" where
  "resolve_prefixes glob ws roots =
     \<lparr>hp_workspace = Option.bind (hc_prefix ws) prefix_non_empty,
      hp_per_root = map (\<lambda>root. map_option (\<lambda>(_, _, v). prefix_new v) (best_key (named_keys glob ws root))) roots\<rparr>"

definition unmatched_keys :: "glob \<Rightarrow> http_config \<Rightarrow> path list \<Rightarrow> string list" where
  "unmatched_keys glob ws roots =
     sort (filter (\<lambda>k. \<not> list_ex (\<lambda>root.
         key_specificity glob k root (relative_to_workspace root (hc_workspace_root ws)) \<noteq> None) roots)
       (map fst (hc_prefixes ws)))"

definition for_repo :: "http_prefixes \<Rightarrow> repo_id \<Rightarrow> http_prefix option" where
  "for_repo ps repo =
     (if unat repo < length (hp_per_root ps)
      then (case hp_per_root ps ! unat repo of Some own \<Rightarrow> Some own | None \<Rightarrow> hp_workspace ps)
      else hp_workspace ps)"

definition prefix_text :: "http_prefixes \<Rightarrow> repo_id \<Rightarrow> string option" where
  "prefix_text ps repo =
     (case for_repo ps repo of Some p \<Rightarrow> (if px_text p \<noteq> [] then Some (px_text p) else None) | None \<Rightarrow> None)"

definition prefix_segs :: "http_prefixes \<Rightarrow> repo_id \<Rightarrow> seg list" where
  "prefix_segs ps repo = (case for_repo ps repo of Some p \<Rightarrow> px_segs p | None \<Rightarrow> [])"

section \<open>Routes and queries\<close>

definition split_verb :: "string \<Rightarrow> (string \<times> string) option" where
  "split_verb s0 =
     (let s = trim_start s0 in
      if \<not> list_ex is_whitespace s then None
      else
        (let head = takeWhile (\<lambda>c. \<not> is_whitespace c) s;
             rest = tl (dropWhile (\<lambda>c. \<not> is_whitespace c) s) in
         map_option (\<lambda>v. (v, trim rest)) (find (\<lambda>v. eq_ignore_ascii_case v head) HTTP_VERBS)))"

definition route_text :: "contract_node \<Rightarrow> string" where
  "route_text n =
     (case n_signature n of
        Some s \<Rightarrow> if split_verb s \<noteq> None then s else n_name n
      | None \<Rightarrow> n_name n)"

definition route_of :: "contract_node \<Rightarrow> node_route option" where
  "route_of n =
     (if n_kind n \<noteq> HttpEndpoint then None
      else map_option (\<lambda>(verb, rest). \<lparr>nr_verb = verb, nr_segs = path_segments rest\<rparr>) (split_verb (route_text n)))"

definition parse_query :: "string \<Rightarrow> route_query option" where
  "parse_query query0 =
     (let query = trim query0;
          (verb, p) = (case split_verb query of
                         Some (verb, rest) \<Rightarrow> if rest \<noteq> [] then (Some verb, rest) else (None, query)
                       | None \<Rightarrow> (None, query)) in
      if \<not> starts_with p ''/'' then None
      else if list_ex is_whitespace p then None
      else
        (let segs = path_segments p in
         Some \<lparr>rq_verb = verb, rq_segs = segs, rq_root_only = (segs = []),
               rq_verb_and_slash = (verb \<noteq> None \<and> starts_with p ''/'')\<rparr>))"

definition parse_target :: "string \<Rightarrow> route_query option" where
  "parse_target target =
     (case parse_query target of Some q \<Rightarrow> if rq_verb_and_slash q then Some q else None | None \<Rightarrow> None)"

fun seg_fits :: "seg \<Rightarrow> seg \<Rightarrow> bool \<Rightarrow> bool" where
  "seg_fits Param Param loose = True"
| "seg_fits Param (Lit _) loose = loose"
| "seg_fits (Lit a) (Lit b) loose = (a = b)"
| "seg_fits (Lit _) Param loose = False"

definition seg_matches :: "seg \<Rightarrow> seg \<Rightarrow> bool" where
  "seg_matches r q = seg_fits r q True"

definition eq_segs :: "seg list \<Rightarrow> seg list \<Rightarrow> bool \<Rightarrow> bool" where
  "eq_segs route query loose \<longleftrightarrow>
     length route = length query \<and> list_all (\<lambda>(r, q). seg_fits r q loose) (zip route query)"

definition starts_segs :: "seg list \<Rightarrow> seg list \<Rightarrow> bool" where
  "starts_segs route query \<longleftrightarrow>
     length query \<le> length route \<and> list_all (\<lambda>(r, q). seg_fits r q False) (zip route query)"

definition contains_segs :: "seg list \<Rightarrow> seg list \<Rightarrow> bool" where
  "contains_segs route query \<longleftrightarrow>
     length query \<le> length route
     \<and> list_ex (\<lambda>i. starts_segs (drop i route) query) [0..<Suc (length route - length query)]"

definition variants :: "node_route \<Rightarrow> seg list \<Rightarrow> seg list list" where
  "variants route pre =
     nr_segs route
     # (if pre = [] then []
        else (pre @ nr_segs route)
             # (if starts_segs (nr_segs route) pre then [drop (length pre) (nr_segs route)] else []))"

definition match_route :: "route_query \<Rightarrow> node_route \<Rightarrow> seg list \<Rightarrow> route_rank option" where
  "match_route query route pre =
     (if (case rq_verb query of Some v \<Rightarrow> v \<noteq> nr_verb route | None \<Rightarrow> False) then None
      else
        (let vs = variants route pre in
         if list_ex (\<lambda>v. eq_segs v (rq_segs query) False) vs then Some ExactRoute
         else if list_ex (\<lambda>v. eq_segs v (rq_segs query) True) vs then Some ValueRoute
         else if rq_root_only query then None
         else if list_ex (\<lambda>v. starts_segs v (rq_segs query)) vs then Some LeadingRoute
         else if list_ex (\<lambda>v. contains_segs v (rq_segs query)) vs then Some FragmentRoute
         else None))"

section \<open>Display\<close>

definition route_label :: "contract_node \<Rightarrow> string option" where
  "route_label n = (case route_of n of None \<Rightarrow> None | Some _ \<Rightarrow> Some (route_text n))"

definition display_label :: "string \<Rightarrow> string option \<Rightarrow> string option" where
  "display_label label prefix0 =
     (case split_verb label of
        None \<Rightarrow> None
      | Some (verb, path0) \<Rightarrow>
          (let p = trim path0;
               pre_text = (case prefix0 of Some t \<Rightarrow> trim_end_char CHR ''/'' (trim t) | None \<Rightarrow> []);
               pre = prefix_segments (Some pre_text);
               own = path_segments p;
               already = (pre \<noteq> [] \<and> length own \<ge> length pre \<and> list_all (\<lambda>(a, b). a = b) (zip own pre)) in
           if pre_text = [] \<or> already then Some (verb @ '' '' @ p)
           else Some (verb @ '' '' @ (if starts_with pre_text ''/'' then [] else ''/'') @ pre_text
                      @ (if starts_with p ''/'' then [] else ''/'') @ p)))"

definition display_route :: "contract_node \<Rightarrow> string option \<Rightarrow> string option" where
  "display_route n pre = Option.bind (route_label n) (\<lambda>label. display_label label pre)"

section \<open>Searching the graph\<close>

record route_hit =
  rh_node :: contract_node
  rh_route :: node_route
  rh_rank :: route_rank

definition route_candidate ::
  "route_query \<Rightarrow> http_prefixes \<Rightarrow> path option \<Rightarrow> route_rank \<Rightarrow> contract_node \<Rightarrow> route_hit option" where
  "route_candidate query px scope worst n =
     (if (case scope of Some s \<Rightarrow> \<not> path_starts_with (n_file n) s | None \<Rightarrow> False) then None
      else case route_of n of
        None \<Rightarrow> None
      | Some route \<Rightarrow>
          (case match_route query route (prefix_segs px (n_repo n)) of
             None \<Rightarrow> None
           | Some rank \<Rightarrow> if rank_key rank \<le> rank_key worst
                           then Some \<lparr>rh_node = n, rh_route = route, rh_rank = rank\<rparr> else None))"

definition hit_key :: "route_hit \<Rightarrow> nat \<times> path \<times> nat \<times> node_id" where
  "hit_key h = (rank_key (rh_rank h), n_file (rh_node h), n_line_start (rh_node h), n_id (rh_node h))"

definition find_routes ::
  "contract_graph \<Rightarrow> route_query \<Rightarrow> http_prefixes \<Rightarrow> path option \<Rightarrow> bool \<Rightarrow> path list \<Rightarrow> route_rank
   \<Rightarrow> route_hit list \<times> nat" where
  "find_routes g query px scope include_tests roots worst =
     (let (hits, hidden) =
        fold (\<lambda>n (hits, hidden).
                case route_candidate query px scope worst n of
                  None \<Rightarrow> (hits, hidden)
                | Some h \<Rightarrow> if \<not> include_tests \<and> is_test_node n roots then (hits, hidden + 1)
                             else (hits @ [h], hidden))
          (all_nodes g) ([], 0) in
      (sort_key hit_key hits, hidden))"

definition shared_segs :: "seg list \<Rightarrow> seg list \<Rightarrow> nat" where
  "shared_segs segs query = length (takeWhile (\<lambda>(r, q). seg_matches r q) (zip segs query))"

definition score_route ::
  "route_query \<Rightarrow> http_prefixes \<Rightarrow> bool \<Rightarrow> path list \<Rightarrow> contract_node \<Rightarrow> (nat \<times> bool \<times> contract_node) option" where
  "score_route query px include_tests roots n =
     (case route_of n of
        None \<Rightarrow> None
      | Some route \<Rightarrow>
          if \<not> include_tests \<and> is_test_node n roots then None
          else
            (let same_verb = (case rq_verb query of None \<Rightarrow> True | Some v \<Rightarrow> v = nr_verb route);
                 shared = max (shared_segs (nr_segs route) (rq_segs query))
                              (shared_segs (prefix_segs px (n_repo n) @ nr_segs route) (rq_segs query)) in
             if shared > 0 \<or> same_verb then Some (shared, same_verb, n) else None))"

definition nearest_routes ::
  "contract_graph \<Rightarrow> route_query \<Rightarrow> http_prefixes \<Rightarrow> bool \<Rightarrow> path list \<Rightarrow> nat \<Rightarrow> contract_node list" where
  "nearest_routes g query px include_tests roots limit =
     map (\<lambda>(_, _, n). n)
       (take limit (sort_key (\<lambda>(shared, same_verb, n). (- int shared, \<not> same_verb, n_file n, n_line_start n))
         (List.map_filter (score_route query px include_tests roots) (all_nodes g))))"

section \<open>Reading segments\<close>

lemma hd_split_pred: "hd (split_pred P s) = takeWhile (\<lambda>c. \<not> P c) s"
  by (induction s) (auto split: list.splits)

lemma split_slash: "split c (a @ c # b) = split c a @ split c b"
  by (induction a) (auto split: list.splits)

text \<open>A slash separates segments, as long as no query string has started.\<close>

lemma path_segments_slash:
  "list_all (\<lambda>c. \<not> is_query_start c) a \<Longrightarrow> path_segments (a @ CHR ''/'' # b) = path_segments a @ path_segments b"
  by (simp add: path_segments_def hd_split_pred split_slash takeWhile_append2 list_all_iff is_query_start_def
      takeWhile_eq_all_conv[THEN iffD2])

lemma path_segments_Nil [simp]: "path_segments [] = []"
  by (simp add: path_segments_def trim_def trim_matches_def)

lemma path_segments_lead: "path_segments (CHR ''/'' # s) = path_segments s"
  using path_segments_slash[of "[]" s] by simp

lemma dropWhile_none: "list_all (\<lambda>c. \<not> P c) s \<Longrightarrow> dropWhile P s = s"
  by (cases s) auto

lemma trim_id: "list_all (\<lambda>c. \<not> is_whitespace c) s \<Longrightarrow> trim s = s"
  using dropWhile_none[of is_whitespace s] dropWhile_none[of is_whitespace "rev s"]
  by (simp add: trim_def trim_matches_def)

lemma path_segments_one:
  assumes "s \<noteq> []" and "list_all (\<lambda>c. \<not> is_whitespace c \<and> \<not> is_query_start c \<and> c \<noteq> CHR ''/'') s"
  shows "path_segments s = [seg_of s]"
proof -
  have tw: "takeWhile (\<lambda>c. \<not> is_query_start c) s = s" using assms(2) by (simp add: list_all_iff takeWhile_eq_all_conv)
  have sp: "split CHR ''/'' s = [s]" using assms(2) by (intro split_pred_id) (simp add: list_all_iff)
  have tr: "trim s = s" using assms(2) by (intro trim_id) (simp add: list_all_iff)
  show ?thesis unfolding path_segments_def hd_split_pred tw sp by (simp add: tr assms(1))
qed

lemma name_char_specials:
  "list_all (\<lambda>c. \<not> is_name_char c)
     ([CHR '' '', CHR 0x09, CHR 0x0A, CHR 0x0B, CHR 0x0C, CHR 0x0D] @ ''?#/(:*${}<>[]'')"
  by code_simp

lemma is_name_char_plain:
  "is_name_char c \<Longrightarrow> \<not> is_whitespace c \<and> \<not> is_query_start c
     \<and> c \<notin> {CHR ''/'', CHR ''('', CHR '':'', CHR ''*'', CHR ''$'', CHR ''{'', CHR ''}'', CHR ''<'', CHR ''>'', CHR ''['', CHR '']''}"
  using name_char_specials by (auto simp: is_whitespace_def is_query_start_def)

lemma wrap_loop_name:
  assumes "list_all is_name_char s" and "\<not> is_name_char opn" and "\<not> is_name_char cls" and "opn \<noteq> cls"
  shows "wrap_loop opn cls 1 (s @ [cls])"
  using assms by (induction s) auto

lemma wrapped_name:
  assumes "is_param_name s" and "\<not> is_name_char opn" and "\<not> is_name_char cls" and "opn \<noteq> cls"
  shows "wrapped (opn # s @ [cls]) opn cls"
  using assms wrap_loop_name[of s opn cls]
  by (auto simp: wrapped_def is_param_name_def starts_with_def ends_with_def Suc_le_eq)

text \<open>The spellings of a parameter called \<^term>\<open>name\<close> in the frameworks the index reads.\<close>

definition param_spellings :: "string \<Rightarrow> string list" where
  "param_spellings name =
     ['':'' @ name, ''*'' @ name, ''$'' @ name, ''{'' @ name @ ''}'', ''<'' @ name @ ''>'', ''['' @ name @ '']'',
      ''${'' @ name @ ''}'']"

lemma takeWhile_ident: "list_all P s \<Longrightarrow> takeWhile P s = s \<and> dropWhile P s = []"
  by (auto simp: list_all_iff takeWhile_eq_all_conv dropWhile_eq_Nil_conv)

lemma spelling_is_param: "is_param_name name \<Longrightarrow> s \<in> set (param_spellings name) \<Longrightarrow> is_param s"
proof -
  assume n: "is_param_name name" and s: "s \<in> set (param_spellings name)"
  have w: "wrapped (CHR ''{'' # name @ ''}'') CHR ''{'' CHR ''}''" "wrapped (CHR ''<'' # name @ ''>'') CHR ''<'' CHR ''>''"
    "wrapped (CHR ''['' # name @ '']'') CHR ''['' CHR '']''"
    by (rule wrapped_name[OF n]; use is_name_char_plain in fastforce)+
  have tw: "takeWhile is_name_char name = name" "dropWhile is_name_char name = []" "name \<noteq> []"
    using n takeWhile_ident[of is_name_char name] by (simp_all add: is_param_name_def)
  have e: "is_express_param name"
    unfolding is_express_param_def Let_def tw by (simp add: starts_with_def tw(3))
  show "is_param s"
    using s n w e by (auto simp: param_spellings_def is_param_def strip_prefix_def starts_with_def)
qed

lemma spelling_plain:
  assumes "is_param_name name" and "s \<in> set (param_spellings name)"
  shows "s \<noteq> [] \<and> list_all (\<lambda>c. \<not> is_whitespace c \<and> \<not> is_query_start c \<and> c \<noteq> CHR ''/'') s"
  using assms is_name_char_plain
  by (fastforce simp: param_spellings_def is_param_name_def list_all_iff is_whitespace_def is_query_start_def)

lemma spelling_segment:
  "is_param_name name \<Longrightarrow> s \<in> set (param_spellings name) \<Longrightarrow> path_segments s = [Param]"
  using spelling_is_param spelling_plain path_segments_one[of s] by (simp add: seg_of_def)

text \<open>
  A path parameter is the same segment in every spelling a framework has for it and whatever its
  name, anywhere in a path: \<^verbatim>\<open>:id\<close>, \<^verbatim>\<open>*id\<close>, \<^verbatim>\<open>$id\<close>, \<^verbatim>\<open>{id}\<close>, \<^verbatim>\<open><id>\<close>, \<^verbatim>\<open>[id]\<close>, \<^verbatim>\<open>${id}\<close>.
\<close>

theorem param_spelling_irrelevant:
  assumes "is_param_name name" and "s \<in> set (param_spellings name)"
    and "list_all (\<lambda>c. \<not> is_query_start c) base"
  shows "path_segments (base @ ''/'' @ s @ ''/'' @ rest) = path_segments base @ Param # path_segments rest"
proof -
  have "list_all (\<lambda>c. \<not> is_query_start c) s"
    using spelling_plain[OF assms(1,2)] by (auto simp: list_all_iff)
  then show ?thesis
    using path_segments_slash[OF assms(3)] path_segments_slash[of s rest] spelling_segment[OF assms(1,2)] by simp
qed

theorem param_spelling_irrelevant_witness:
  "is_param_name ''eventId'' \<and> ''{eventId}'' \<in> set (param_spellings ''eventId'')
   \<and> path_segments (''/events'' @ ''/'' @ ''{eventId}'' @ ''/'' @ ''State'') = [Lit ''events'', Param, Lit ''state'']"
proof -
  have a: "is_param_name ''eventId''" by code_simp
  have b: "''{eventId}'' \<in> set (param_spellings ''eventId'')" by code_simp
  have c: "list_all (\<lambda>c. \<not> is_query_start c) ''/events''" by code_simp
  have d: "path_segments ''/events'' = [Lit ''events'']" "path_segments ''State'' = [Lit ''state'']" by code_simp+
  show ?thesis by (intro conjI a b) (unfold param_spelling_irrelevant[OF a b c] d, simp)
qed

text \<open>
  \<^verbatim>\<open>?\<close> starts the query string before segments are read, although the segment reader knows the
  optional parameter \<^verbatim>\<open>:id?\<close>: whatever follows an optional parameter is lost, and the route
  \<^verbatim>\<open>/users/:id?/posts\<close> is an exact hit for \<^verbatim>\<open>/users/:id\<close>.
\<close>

theorem optional_param_cuts_route:
  "path_segments (p @ ''?'' @ q) = path_segments p
   \<and> is_param '':id?''
   \<and> (case (parse_query ''GET /users/:id'', parse_query ''GET /users/:id/posts'') of
        (Some short, Some long) \<Rightarrow>
          match_route short \<lparr>nr_verb = ''GET'', nr_segs = path_segments ''/users/:id?/posts''\<rparr> [] = Some ExactRoute
          \<and> match_route long \<lparr>nr_verb = ''GET'', nr_segs = path_segments ''/users/:id?/posts''\<rparr> [] = None
      | _ \<Rightarrow> False)"
proof -
  have "takeWhile (\<lambda>c. \<not> is_query_start c) (p @ ''?'' @ q) = takeWhile (\<lambda>c. \<not> is_query_start c) p"
    by (induction p) (auto simp: is_query_start_def)
  then have a: "path_segments (p @ ''?'' @ q) = path_segments p" by (simp add: path_segments_def hd_split_pred)
  show ?thesis by (rule conjI[OF a]) code_simp
qed

section \<open>The displayed route\<close>

lemma HTTP_VERBS_plain:
  "list_all (\<lambda>v. list_all (\<lambda>c. \<not> is_whitespace c) v \<and> v \<noteq> []
               \<and> find (\<lambda>u. eq_ignore_ascii_case u v) HTTP_VERBS = Some v) HTTP_VERBS"
  by code_simp

lemma split_verb_join:
  assumes "verb \<in> set HTTP_VERBS" and "list_all (\<lambda>c. \<not> is_whitespace c) body"
  shows "split_verb (verb @ '' '' @ body) = Some (verb, body)"
proof -
  have v: "list_all (\<lambda>c. \<not> is_whitespace c) verb" "verb \<noteq> []" "find (\<lambda>v. eq_ignore_ascii_case v verb) HTTP_VERBS = Some verb"
    using assms(1) HTTP_VERBS_plain unfolding list_all_iff[of _ HTTP_VERBS] by blast+
  have st: "trim_start (verb @ '' '' @ body) = verb @ '' '' @ body"
    using v(1,2) by (cases verb) (auto simp: trim_start_def)
  have sp: "is_whitespace CHR '' ''" by (simp add: is_whitespace_def)
  have tw: "takeWhile (\<lambda>c. \<not> is_whitespace c) (verb @ '' '' @ body) = verb"
    "dropWhile (\<lambda>c. \<not> is_whitespace c) (verb @ '' '' @ body) = '' '' @ body"
    using v(1) sp by (auto simp: list_all_iff takeWhile_append2 dropWhile_append2)
  have ws: "list_ex is_whitespace (verb @ '' '' @ body)" using sp by simp
  show ?thesis unfolding split_verb_def st Let_def tw by (simp add: v(3) trim_id[OF assms(2)] sp)
qed

lemma trim_ends: "s \<noteq> [] \<Longrightarrow> \<not> is_whitespace (hd s) \<Longrightarrow> \<not> is_whitespace (last s) \<Longrightarrow> trim s = s"
  unfolding trim_def by (rule trim_matches_id) simp

lemma parse_query_join:
  assumes "verb \<in> set HTTP_VERBS" and "list_all (\<lambda>c. \<not> is_whitespace c) body" and "starts_with body ''/''"
  shows "parse_target (verb @ '' '' @ body)
    = Some \<lparr>rq_verb = Some verb, rq_segs = path_segments body, rq_root_only = (path_segments body = []), rq_verb_and_slash = True\<rparr>"
proof -
  have b: "body \<noteq> []" using assms(3) by (auto simp: starts_with_def)
  have v: "verb \<noteq> []" "list_all (\<lambda>c. \<not> is_whitespace c) verb"
    using assms(1) HTTP_VERBS_plain unfolding list_all_iff[of _ HTTP_VERBS] by blast+
  then have "\<not> is_whitespace (hd verb)" by (cases verb) auto
  have "\<not> is_whitespace (last body)" using assms(2) b by (simp add: list_all_iff)
  moreover note \<open>\<not> is_whitespace (hd verb)\<close>
  ultimately have tr: "trim (verb @ '' '' @ body) = verb @ '' '' @ body" using b v(1) by (intro trim_ends) auto
  have nw: "\<not> list_ex is_whitespace body" using assms(2) by (simp add: list_all_iff list_ex_iff)
  show ?thesis
    unfolding parse_target_def parse_query_def Let_def tr split_verb_join[OF assms(1,2)] using b nw assms(3) by simp
qed

lemma split_verb_SomeD:
  assumes "split_verb s = Some (verb, p)" shows "verb \<in> set HTTP_VERBS"
  using assms by (auto simp: split_verb_def Let_def find_Some_iff split: if_splits)

lemma trim_end_char_replicate: "\<exists>n. s = trim_end_char c s @ replicate n c"
proof -
  have "rev s = takeWhile (\<lambda>x. x = c) (rev s) @ dropWhile (\<lambda>x. x = c) (rev s)" by simp
  then have "s = trim_end_char c s @ rev (takeWhile (\<lambda>x. x = c) (rev s))"
    unfolding trim_end_char_def by (metis rev_append rev_rev_ident)
  moreover have "takeWhile (\<lambda>x. x = c) (rev s) = replicate (length (takeWhile (\<lambda>x. x = c) (rev s))) c"
    by (rule replicate_length_same[symmetric]) (auto dest: set_takeWhileD)
  ultimately show ?thesis by (metis rev_replicate)
qed

lemma path_segments_trailing:
  "list_all (\<lambda>c. \<not> is_query_start c) s \<Longrightarrow> path_segments (s @ replicate n CHR ''/'') = path_segments s"
proof (induction n)
  case (Suc n)
  have "path_segments (replicate n CHR ''/'') = []" for n
    by (induction n) (simp_all add: path_segments_lead)
  then show ?case using path_segments_slash[OF Suc.prems, of "replicate n CHR ''/''"] by simp
qed simp

lemma path_segments_trim_end:
  assumes "list_all (\<lambda>c. \<not> is_query_start c) t"
  shows "path_segments (trim_end_char CHR ''/'' t) = path_segments t"
    and "list_all (\<lambda>c. \<not> is_query_start c) (trim_end_char CHR ''/'' t)"
proof -
  obtain n where n: "t = trim_end_char CHR ''/'' t @ replicate n CHR ''/''" using trim_end_char_replicate by blast
  with assms show q: "list_all (\<lambda>c. \<not> is_query_start c) (trim_end_char CHR ''/'' t)" by (metis list_all_append)
  show "path_segments (trim_end_char CHR ''/'' t) = path_segments t"
    by (subst (2) n) (simp add: path_segments_trailing[OF q])
qed

lemma eq_segs_refl [simp]: "eq_segs v v loose"
proof -
  have "seg_fits x x loose" for x by (cases x) auto
  then show ?thesis by (auto simp: eq_segs_def list_all_iff set_zip)
qed

lemma match_route_self:
  assumes "rq_verb q = Some (nr_verb r)" and "rq_segs q = nr_segs r \<or> rq_segs q = pre @ nr_segs r"
  shows "match_route q r pre = Some ExactRoute"
  using assms by (auto simp: match_route_def variants_def Let_def)

text \<open>
  The text a route is displayed with, prefix included, is a route query that finds the same route
  as an exact hit under that prefix, whether or not the declared path already carries the prefix.
\<close>

theorem displayed_route_found:
  assumes "route_of n = Some r" and "split_verb (route_text n) = Some (verb, p)" and "starts_with p ''/''"
    and "list_all (\<lambda>c. \<not> is_whitespace c) p" and "list_all (\<lambda>c. \<not> is_whitespace c \<and> \<not> is_query_start c) t"
  shows "\<exists>text q. display_route n (Some t) = Some text \<and> parse_target text = Some q
           \<and> match_route q r (prefix_segments (Some t)) = Some ExactRoute"
proof -
  define pt where "pt = trim_end_char CHR ''/'' t"
  have t: "list_all (\<lambda>c. \<not> is_whitespace c) t" "list_all (\<lambda>c. \<not> is_query_start c) t"
    using assms(5) by (auto simp: list_all_iff)
  have pt: "path_segments pt = path_segments t" "list_all (\<lambda>c. \<not> is_query_start c) pt"
    using path_segments_trim_end[OF t(2)] by (simp_all add: pt_def)
  have pw: "list_all (\<lambda>c. \<not> is_whitespace c) pt"
    using trim_end_char_replicate[of t "CHR ''/''"] t(1) unfolding pt_def by (metis list_all_append)
  have r: "nr_verb r = verb" "nr_segs r = path_segments p"
    using assms(1,2) by (auto simp: route_of_def split: if_splits)
  have verb: "verb \<in> set HTTP_VERBS" using split_verb_SomeD[OF assms(2)] .
  have label: "route_label n = Some (route_text n)" using assms(1) by (simp add: route_label_def)
  have found: "\<exists>q. parse_target (verb @ '' '' @ body) = Some q \<and> match_route q r (prefix_segments (Some t)) = Some ExactRoute"
    if b: "list_all (\<lambda>c. \<not> is_whitespace c) body" "starts_with body ''/''"
      and s: "path_segments body = path_segments p \<or> path_segments body = path_segments t @ path_segments p" for body
    using parse_query_join[OF verb b] s r by (auto intro!: match_route_self simp: prefix_segments_def)
  have p0: "trim p = p" "trim t = t" using trim_id assms(4) t(1) by auto
  obtain p' where p': "p = CHR ''/'' # p'" using assms(3) by (cases p) (auto simp: starts_with_def)
  define body where "body = (if starts_with pt ''/'' then [] else ''/'') @ pt @ p"
  have "path_segments ((if starts_with pt ''/'' then [] else ''/'') @ pt) = path_segments pt" by (simp add: path_segments_lead)
  moreover have "list_all (\<lambda>c. \<not> is_query_start c) ((if starts_with pt ''/'' then [] else ''/'') @ pt)"
    using pt(2) by (simp add: is_query_start_def)
  ultimately have segs: "path_segments body = path_segments t @ path_segments p"
    using path_segments_slash[of "(if starts_with pt ''/'' then [] else ''/'') @ pt" p'] pt(1)
    by (simp add: body_def p' path_segments_lead)
  have bw: "list_all (\<lambda>c. \<not> is_whitespace c) body" using pw assms(4) by (simp add: body_def is_whitespace_def)
  have bs: "starts_with body ''/''"
    by (cases pt) (auto simp: body_def starts_with_def)
  have "display_route n (Some t) \<in> {Some (verb @ '' '' @ p), Some (verb @ '' '' @ body)}"
    unfolding display_route_def label display_label_def
    by (simp add: assms(2,3) p0 body_def Let_def flip: pt_def)
  then show ?thesis using found[OF assms(4,3)] found[OF bw bs] segs by auto
qed

theorem displayed_route_found_witness:
  "\<exists>text q. display_route (demo_node\<lparr>n_kind := HttpEndpoint, n_signature := Some ''patch /events/:id/state''\<rparr>) (Some ''api/'')
             = Some text
     \<and> parse_target text = Some q
     \<and> match_route q \<lparr>nr_verb = ''PATCH'', nr_segs = [Lit ''events'', Param, Lit ''state'']\<rparr> (prefix_segments (Some ''api/''))
         = Some ExactRoute"
proof -
  let ?n = "demo_node\<lparr>n_kind := HttpEndpoint, n_signature := Some ''patch /events/:id/state''\<rparr>"
  have a: "route_of ?n = Some \<lparr>nr_verb = ''PATCH'', nr_segs = [Lit ''events'', Param, Lit ''state'']\<rparr>" by code_simp
  have b: "split_verb (route_text ?n) = Some (''PATCH'', ''/events/:id/state'')" by code_simp
  have c: "starts_with ''/events/:id/state'' ''/''" "list_all (\<lambda>c. \<not> is_whitespace c) ''/events/:id/state''"
    "list_all (\<lambda>c. \<not> is_whitespace c \<and> \<not> is_query_start c) ''api/''" by code_simp+
  show ?thesis by (rule displayed_route_found[OF a b c])
qed

section \<open>The search\<close>

lemma find_routes_fold:
  "fold (\<lambda>n (hits, hidden).
           case f n of
             None \<Rightarrow> (hits, hidden)
           | Some h \<Rightarrow> if hide n then (hits, hidden + 1) else (hits @ [h], hidden)) ns (hits, hidden :: nat)
   = (hits @ List.map_filter f (filter (\<lambda>n. \<not> hide n) ns),
      hidden + length (List.map_filter f (filter hide ns)))"
  by (induction ns arbitrary: hits hidden) (auto simp: map_filter_simps split: option.splits)

lemma find_routes_eq:
  "find_routes g query px scope include_tests roots worst =
     (sort_key hit_key (List.map_filter (route_candidate query px scope worst)
        (filter (\<lambda>n. include_tests \<or> \<not> is_test_node n roots) (all_nodes g))),
      length (List.map_filter (route_candidate query px scope worst)
        (filter (\<lambda>n. \<not> include_tests \<and> is_test_node n roots) (all_nodes g))))"
  unfolding find_routes_def find_routes_fold by simp

lemma map_filter_partition:
  "length (List.map_filter f (filter P xs)) + length (List.map_filter f (filter (\<lambda>x. \<not> P x) xs))
   = length (List.map_filter f xs)"
  by (induction xs) (auto simp: map_filter_simps split: option.splits)

lemma set_map_filter_Some: "set (List.map_filter f xs) = {y. \<exists>x \<in> set xs. f x = Some y}"
  by (force simp: map_filter_def image_iff)

text \<open>
  A route search returns exactly the routes in scope whose path matches the query well enough and
  that are not hidden test code, best rank first and by location within a rank, and hides no route
  without counting it.
\<close>

theorem find_routes_spec:
  "set (fst (find_routes g query px scope include_tests roots worst)) =
     {h. rh_node h \<in> set (all_nodes g) \<and> route_of (rh_node h) = Some (rh_route h)
         \<and> (scope = None \<or> path_starts_with (n_file (rh_node h)) (the scope))
         \<and> match_route query (rh_route h) (prefix_segs px (n_repo (rh_node h))) = Some (rh_rank h)
         \<and> rank_key (rh_rank h) \<le> rank_key worst
         \<and> \<not> (is_test_node (rh_node h) roots \<and> \<not> include_tests)}
   \<and> sorted (map hit_key (fst (find_routes g query px scope include_tests roots worst)))
   \<and> length (fst (find_routes g query px scope include_tests roots worst))
       + snd (find_routes g query px scope include_tests roots worst)
     = length (fst (find_routes g query px scope True roots worst))"
proof -
  let ?c = "route_candidate query px scope worst"
  let ?shown = "filter (\<lambda>n. include_tests \<or> \<not> is_test_node n roots) (all_nodes g)"
  have cand: "?c n = Some h \<longleftrightarrow> rh_node h = n \<and> route_of n = Some (rh_route h)
      \<and> (scope = None \<or> path_starts_with (n_file n) (the scope))
      \<and> match_route query (rh_route h) (prefix_segs px (n_repo n)) = Some (rh_rank h)
      \<and> rank_key (rh_rank h) \<le> rank_key worst" for n h
    by (cases scope; cases h) (auto simp: route_candidate_def split: option.splits)
  have set: "set (List.map_filter ?c ?shown) = {h. rh_node h \<in> set ?shown \<and> ?c (rh_node h) = Some h}"
    unfolding set_map_filter_Some by (rule Collect_cong) (use cand in metis)
  have len: "length (List.map_filter ?c ?shown)
      + length (List.map_filter ?c (filter (\<lambda>n. \<not> include_tests \<and> is_test_node n roots) (all_nodes g)))
      = length (List.map_filter ?c (all_nodes g))"
    using map_filter_partition[of ?c "\<lambda>n. include_tests \<or> \<not> is_test_node n roots" "all_nodes g"] by simp
  show ?thesis
    unfolding find_routes_eq fst_conv snd_conv set_sort set cand length_sort using len by auto
qed

section \<open>The prefix of a root\<close>

lemma key_beats_trans: "key_beats a b \<Longrightarrow> key_beats b c \<Longrightarrow> key_beats a c"
  by (auto simp: key_beats_def)

lemma key_beats_split: "key_beats a c \<Longrightarrow> key_beats a b \<or> key_beats b c"
  by (auto simp: key_beats_def)

lemma fold_best_key:
  "fold (\<lambda>y best. if key_beats best y then best else y) xs x = b
   \<Longrightarrow> b \<in> set (x # xs) \<and> (\<forall>y \<in> set (x # xs). \<not> key_beats y b)"
proof (induction xs arbitrary: x)
  case Nil
  then show ?case by (simp add: key_beats_def)
next
  case (Cons y xs)
  let ?x = "if key_beats x y then x else y"
  have "fold (\<lambda>y best. if key_beats best y then best else y) xs ?x = b" using Cons.prems by simp
  then have b: "b \<in> set (?x # xs)" "\<forall>z \<in> set (?x # xs). \<not> key_beats z b" using Cons.IH[of ?x] by blast+
  moreover have "\<not> key_beats x b" "\<not> key_beats y b"
    using b(2) key_beats_trans[of x y b] key_beats_split[of x b y] by (auto split: if_splits)
  ultimately show ?case by (auto split: if_splits)
qed

lemma best_key_Some:
  "best_key xs = Some b \<Longrightarrow> b \<in> set xs \<and> (\<forall>y \<in> set xs. \<not> key_beats y b)"
  by (cases xs) (use fold_best_key in \<open>simp_all, blast\<close>)

lemma best_key_None [simp]: "best_key xs = None \<longleftrightarrow> xs = []"
  by (cases xs) auto

lemma named_keys_mem:
  "(s, k, v) \<in> set (named_keys glob ws root) \<longleftrightarrow> (k, v) \<in> set (hc_prefixes ws)
     \<and> key_specificity glob k root (relative_to_workspace root (hc_workspace_root ws)) = Some s"
proof
  assume "(k, v) \<in> set (hc_prefixes ws)
     \<and> key_specificity glob k root (relative_to_workspace root (hc_workspace_root ws)) = Some s"
  then show "(s, k, v) \<in> set (named_keys glob ws root)"
    by (auto simp: named_keys_def set_map_filter_Some intro!: bexI[of _ "(k, v)"])
qed (auto simp: named_keys_def set_map_filter_Some)

text \<open>
  The prefix of a root is the value of a configured key that names it, an exact name or path
  before any glob, the longer key before the shorter, the smaller key on a tie; a root no key names has
  none of its own, and the order the configuration lists the keys in plays no part.
\<close>

theorem http_prefix_choice:
  assumes "i < length roots" and "mset ks = mset (hc_prefixes ws)"
  shows "resolve_prefixes glob (ws\<lparr>hc_prefixes := ks\<rparr>) roots = resolve_prefixes glob ws roots
    \<and> (case hp_per_root (resolve_prefixes glob ws roots) ! i of
         None \<Rightarrow> list_all (\<lambda>(k, v). key_specificity glob k (roots ! i)
                    (relative_to_workspace (roots ! i) (hc_workspace_root ws)) = None) (hc_prefixes ws)
       | Some p \<Rightarrow> \<exists>k v s. (k, v) \<in> set (hc_prefixes ws) \<and> p = prefix_new v
           \<and> key_specificity glob k (roots ! i) (relative_to_workspace (roots ! i) (hc_workspace_root ws)) = Some s
           \<and> list_all (\<lambda>(k', v'). case key_specificity glob k' (roots ! i)
                               (relative_to_workspace (roots ! i) (hc_workspace_root ws)) of
                         None \<Rightarrow> True | Some s' \<Rightarrow> s' < s \<or> s' = s \<and> k \<le> k') (hc_prefixes ws))"
proof -
  let ?root = "roots ! i"
  let ?keys = "named_keys glob ws ?root"
  have "sort ks = sort (hc_prefixes ws)" using assms(2) by (metis properties_for_sort mset_sort sorted_sort)
  then have perm: "resolve_prefixes glob (ws\<lparr>hc_prefixes := ks\<rparr>) roots = resolve_prefixes glob ws roots"
    by (simp add: resolve_prefixes_def named_keys_def)
  have own: "hp_per_root (resolve_prefixes glob ws roots) ! i = map_option (\<lambda>(_, _, v). prefix_new v) (best_key ?keys)"
    using assms(1) by (simp add: resolve_prefixes_def)
  show ?thesis
  proof (cases "best_key ?keys")
    case None
    then have "?keys = []" by simp
    then have "key_specificity glob k ?root (relative_to_workspace ?root (hc_workspace_root ws)) = None"
      if "(k, v) \<in> set (hc_prefixes ws)" for k v
      using that named_keys_mem[of _ k v glob ws ?root] by (metis list.set(1) empty_iff option.exhaust)
    then show ?thesis unfolding own None using perm by (auto simp: list_all_iff)
  next
    case (Some b)
    obtain s k v where b: "b = (s, k, v)" by (cases b) auto
    have top: "(s, k, v) \<in> set ?keys" "\<forall>y \<in> set ?keys. \<not> key_beats y (s, k, v)"
      using best_key_Some[OF Some] b by auto
    have le: "s' < s \<or> s' = s \<and> k \<le> k'"
      if "(k', v') \<in> set (hc_prefixes ws)"
        and "key_specificity glob k' ?root (relative_to_workspace ?root (hc_workspace_root ws)) = Some s'" for k' v' s'
    proof -
      have "(s', k', v') \<in> set ?keys" using that by (simp add: named_keys_mem)
      with top(2) have "\<not> key_beats (s', k', v') (s, k, v)" by blast
      then show ?thesis unfolding key_beats_def fst_conv snd_conv by (metis linorder_less_linear not_le)
    qed
    have "list_all (\<lambda>(k', v'). case key_specificity glob k' ?root (relative_to_workspace ?root (hc_workspace_root ws)) of
        None \<Rightarrow> True | Some s' \<Rightarrow> s' < s \<or> s' = s \<and> k \<le> k') (hc_prefixes ws)"
      unfolding list_all_iff using le by (auto split: option.split)
    moreover note top(1)[unfolded named_keys_mem]
    ultimately show ?thesis unfolding own Some b option.map prod.case option.case using perm by blast
  qed
qed

text \<open>A workspace of two services whose configuration names one exactly and both by a glob.\<close>

definition demo_prefixes :: http_config where
  "demo_prefixes =
     \<lparr>hc_prefix = Some ''/api'', hc_prefixes = [(''services/*'', ''/svc''), (''./services/billing/'', ''/billing'')],
      hc_workspace_root = Some (path_of_str ''/work'')\<rparr>"

definition demo_glob :: glob where
  "demo_glob key = (if key = ''services/*'' then Some (\<lambda>s. starts_with s ''services/'') else None)"

theorem http_prefix_choice_witness:
  "hp_per_root (resolve_prefixes demo_glob demo_prefixes (map path_of_str [''/work/services/billing'', ''/work/services/users'', ''/opt/tool'']))
     = [Some (prefix_new ''/billing''), Some (prefix_new ''/svc''), None]
   \<and> resolve_prefixes demo_glob (demo_prefixes\<lparr>hc_prefixes := rev (hc_prefixes demo_prefixes)\<rparr>)
         (map path_of_str [''/work/services/billing'', ''/work/services/users'', ''/opt/tool''])
     = resolve_prefixes demo_glob demo_prefixes (map path_of_str [''/work/services/billing'', ''/work/services/users'', ''/opt/tool''])"
proof -
  let ?roots = "map path_of_str [''/work/services/billing'', ''/work/services/users'', ''/opt/tool'']"
  have a: "hp_per_root (resolve_prefixes demo_glob demo_prefixes ?roots) = [Some (prefix_new ''/billing''), Some (prefix_new ''/svc''), None]"
    by code_simp
  have i: "0 < length ?roots" by simp
  have m: "mset (rev (hc_prefixes demo_prefixes)) = mset (hc_prefixes demo_prefixes)" by simp
  show ?thesis by (rule conjI[OF a conjunct1[OF http_prefix_choice[OF i m]]])
qed

end
