(* ===== verification/Property_Registry.thy ===== *)
theory Property_Registry
  imports Mesh_Types
begin

text \<open>
  The property registry, \<^verbatim>\<open>crates/mesh-core/src/properties.rs\<close>: ingesting Spring property files,
  masking secrets, resolving placeholders, and flattening a YAML document under a byte budget. Glob
  matching and the text of a YAML number come from libraries and are parameters. A YAML document is
  the tree the streaming deserializer visits; byte counts are \<^typ>\<open>int\<close>, saturating at
  \<^verbatim>\<open>usize::MAX\<close> as the source does.
\<close>

section \<open>Source patterns\<close>

definition anchor_pattern :: "string \<Rightarrow> string option" where
  "anchor_pattern raw =
     (let pat = trim raw in
      if pat = [] then None
      else if starts_with pat ''**/'' \<or> starts_with pat ''/'' then Some pat else Some (''**/'' @ pat))"

definition compile_sources :: "(string \<Rightarrow> bool) \<Rightarrow> (string list \<Rightarrow> (path \<Rightarrow> bool) option) \<Rightarrow> string list \<Rightarrow> path \<Rightarrow> bool" where
  "compile_sources valid build patterns =
     (case build (filter valid (List.map_filter anchor_pattern patterns)) of Some m \<Rightarrow> m | None \<Rightarrow> (\<lambda>_. False))"

section \<open>Sensitive keys\<close>

definition SECRET_PATTERNS :: "string list" where
  "SECRET_PATTERNS =
     [''password'', ''secret'', ''token'', ''credential'', ''passphrase'', ''private'', ''jwt'', ''cert'', ''apikey'',
      ''api_key'', ''api-key'', ''secret_key'', ''access_key'', ''signing_key'', ''auth_token'']"

definition REDACTED_PLACEHOLDER :: string where
  "REDACTED_PLACEHOLDER = ''[REDACTED_SECRET: USE_ENV_OR_LOCAL_FALLBACK]''"

definition AUTH_WORDS :: "string list" where
  "AUTH_WORDS = [''auth'', ''authorization'', ''authn'']"

text \<open>The loop of \<^verbatim>\<open>split_words\<close>: the words so far, the current word and whether the last character
  was lower case.\<close>

definition split_step :: "char \<Rightarrow> string list \<times> string \<times> bool \<Rightarrow> string list \<times> string \<times> bool" where
  "split_step c s =
     (case s of (ws, current, prev_lower) \<Rightarrow>
        let flushed = (if current = [] then ws else ws @ [to_lowercase current]) in
        if c = CHR ''.'' \<or> c = CHR ''_'' \<or> c = CHR ''-'' then (flushed, [], False)
        else if is_ascii_upper c \<and> prev_lower \<and> current \<noteq> [] then (flushed, [c], is_ascii_lower c)
        else (ws, current @ [c], is_ascii_lower c))"

definition split_words :: "string \<Rightarrow> string list" where
  "split_words s =
     (case fold split_step s ([], [], False) of
        (ws, current, _) \<Rightarrow> if current = [] then ws else ws @ [to_lowercase current])"

definition sensitive_name :: "string \<Rightarrow> bool" where
  "sensitive_name key \<longleftrightarrow>
     (let lower = to_lowercase key in
      list_ex (str_contains lower) SECRET_PATTERNS
      \<or> ((ends_with lower ''.key'' \<or> ends_with lower ''_key'' \<or> ends_with lower ''-key'' \<or> lower = ''key'')
          \<and> list_ex (str_contains lower) [''secret'', ''priv'', ''sign'', ''encrypt'', ''access'', ''token'', ''api'', ''cert''])
      \<or> list_ex (\<lambda>w. w \<in> set AUTH_WORDS) (split_words key))"

section \<open>The registry\<close>

record registry =
  raw_values :: "(string, string) hmap"
  flat_properties :: "(string, string) hmap"
  sources :: "(string, path) hmap"
  redact_secrets :: bool

definition with_redaction :: "bool \<Rightarrow> registry" where
  "with_redaction redact = \<lparr>raw_values = [], flat_properties = [], sources = [], redact_secrets = redact\<rparr>"

definition registry_new :: registry where
  "registry_new = with_redaction True"

definition is_sensitive_key :: "registry \<Rightarrow> string \<Rightarrow> bool" where
  "is_sensitive_key r key \<longleftrightarrow> redact_secrets r \<and> sensitive_name key"

definition insert_sanitized :: "string \<Rightarrow> string \<Rightarrow> registry \<Rightarrow> registry" where
  "insert_sanitized key raw_val r =
     r\<lparr>raw_values := hm_insert key raw_val (raw_values r),
       flat_properties := hm_insert key (if is_sensitive_key r key then REDACTED_PLACEHOLDER else raw_val) (flat_properties r)\<rparr>"

text \<open>\<^verbatim>\<open>HashMap::extend\<close>.\<close>

definition hm_extend :: "('k, 'v) hmap \<Rightarrow> ('k, 'v) hmap \<Rightarrow> ('k, 'v) hmap" where
  "hm_extend m kvs = fold (\<lambda>(k, v). hm_insert k v) kvs m"

definition merge :: "registry \<Rightarrow> path \<Rightarrow> registry \<Rightarrow> registry" where
  "merge other source r =
     r\<lparr>sources := fold (\<lambda>k. hm_insert k source) (map fst (flat_properties other)) (sources r),
       raw_values := hm_extend (raw_values r) (raw_values other),
       flat_properties := hm_extend (flat_properties r) (flat_properties other)\<rparr>"

definition drop_key :: "string \<Rightarrow> registry \<Rightarrow> registry" where
  "drop_key key r =
     r\<lparr>flat_properties := hm_remove key (flat_properties r), raw_values := hm_remove key (raw_values r),
       sources := hm_remove key (sources r)\<rparr>"

definition remove_files :: "path list \<Rightarrow> registry \<Rightarrow> registry" where
  "remove_files paths r =
     (if paths = [] then r
      else fold drop_key (map fst (filter (\<lambda>(_, p). p \<in> set paths) (sources r))) r)"

definition remove_file :: "path \<Rightarrow> registry \<Rightarrow> registry" where
  "remove_file p = remove_files [p]"

section \<open>Placeholders\<close>

definition is_placeholder :: "string \<Rightarrow> bool" where
  "is_placeholder raw \<longleftrightarrow> starts_with raw ''${'' \<and> ends_with raw ''}''"

definition placeholder_parts :: "string \<Rightarrow> string \<times> string option" where
  "placeholder_parts raw =
     (let inner = take (length raw - 1 - 2) (drop 2 raw) in
      case split_once CHR '':'' inner of
        Some (k, def) \<Rightarrow> (trim k, Some (trim def))
      | None \<Rightarrow> (trim inner, None))"

definition resolve_placeholder :: "registry \<Rightarrow> string \<Rightarrow> string" where
  "resolve_placeholder r raw =
     (if \<not> is_placeholder raw then raw
      else
        (let (key, default_val) = placeholder_parts raw in
         case map_of (flat_properties r) key of
           Some v \<Rightarrow> v
         | None \<Rightarrow>
             (case default_val of
                Some def \<Rightarrow> if is_sensitive_key r key then REDACTED_PLACEHOLDER else def
              | None \<Rightarrow> raw)))"

definition resolve_key :: "string \<Rightarrow> registry \<Rightarrow> registry" where
  "resolve_key key r =
     (if map_of (flat_properties r) key = Some REDACTED_PLACEHOLDER then r
      else case map_of (raw_values r) key of
        None \<Rightarrow> r
      | Some raw \<Rightarrow> r\<lparr>flat_properties := hm_insert key (resolve_placeholder r raw) (flat_properties r)\<rparr>)"

text \<open>The loop visits the keys in the order of the hash map, which the model keeps as the order of the
  association list; \<^term>\<open>fold resolve_key ks\<close> is the loop over any other order.\<close>

definition resolve_all_placeholders :: "registry \<Rightarrow> registry" where
  "resolve_all_placeholders r = fold resolve_key (map fst (raw_values r)) r"

definition redacted_count :: "registry \<Rightarrow> nat" where
  "redacted_count r = length (filter (\<lambda>(_, v). v = REDACTED_PLACEHOLDER) (flat_properties r))"

definition reg_get :: "registry \<Rightarrow> string \<Rightarrow> string option" where
  "reg_get r key = map_of (flat_properties r) key"

section \<open>Ingesting files\<close>

definition ingest_line :: "string \<Rightarrow> registry \<Rightarrow> registry" where
  "ingest_line line r =
     (let trimmed = trim line in
      if trimmed = [] \<or> starts_with trimmed ''#'' \<or> starts_with trimmed ''!'' then r
      else
        (case (case split_once CHR ''='' trimmed of
                 Some kv \<Rightarrow> Some kv | None \<Rightarrow> split_once CHR '':'' trimmed) of
           None \<Rightarrow> r
         | Some (k, v) \<Rightarrow> if trim k = [] then r else insert_sanitized (trim k) (trim v) r))"

definition ingest_properties_str :: "string \<Rightarrow> registry \<Rightarrow> registry" where
  "ingest_properties_str content r = fold ingest_line (str_lines content) r"

definition USIZE_MAX :: int where
  "USIZE_MAX = 18446744073709551615"

definition YAML_OUTPUT_BYTES_PER_INPUT_BYTE :: int where
  "YAML_OUTPUT_BYTES_PER_INPUT_BYTE = 8"

definition MIN_YAML_OUTPUT_BUDGET :: int where
  "MIN_YAML_OUTPUT_BUDGET = 65536"

definition yaml_output_budget :: "int \<Rightarrow> int" where
  "yaml_output_budget len = max (min (len * YAML_OUTPUT_BYTES_PER_INPUT_BYTE) USIZE_MAX) MIN_YAML_OUTPUT_BUDGET"

datatype yaml =
    YStr string
  | YBool bool
  | YInt int
  | YFloat "64 word"
  | YNull
  | YSeq "yaml list"
  | YMap "(yaml \<times> yaml) list"
  | YTagged string yaml

datatype key_id =
    KStr string
  | KBool bool
  | KInt int
  | KFloat "64 word"
  | KNull
  | KTagged string key_id

datatype yaml_error = BudgetExceeded int | DuplicateEntry | ParseError string

text \<open>\<^verbatim>\<open>StrKey\<close>: the name of a string key, also under a tag, and the identity of a scalar key.\<close>

fun key_name :: "yaml \<Rightarrow> string option" where
  "key_name (YStr s) = Some s"
| "key_name (YTagged _ y) = key_name y"
| "key_name _ = None"

fun key_identity :: "yaml \<Rightarrow> key_id option" where
  "key_identity (YStr s) = Some (KStr s)"
| "key_identity (YBool b) = Some (KBool b)"
| "key_identity (YInt i) = Some (KInt i)"
| "key_identity (YFloat w) = Some (KFloat w)"
| "key_identity YNull = Some KNull"
| "key_identity (YSeq _) = None"
| "key_identity (YMap _) = None"
| "key_identity (YTagged t y) = map_option (KTagged t) (key_identity y)"

record flat_output =
  fo_pairs :: "(string \<times> string) list"
  fo_bytes :: int
  fo_budget :: int

definition with_budget :: "int \<Rightarrow> flat_output" where
  "with_budget budget = \<lparr>fo_pairs = [], fo_bytes = 0, fo_budget = budget\<rparr>"

definition emit_scalar :: "string \<Rightarrow> string \<Rightarrow> flat_output \<Rightarrow> yaml_error + flat_output" where
  "emit_scalar pre v out =
     (let bytes = min (fo_bytes out + int (length pre + length v)) USIZE_MAX in
      if bytes > fo_budget out then Inl (BudgetExceeded (fo_budget out))
      else Inr (out\<lparr>fo_bytes := bytes, fo_pairs := fo_pairs out @ [(pre, v)]\<rparr>))"

definition dotted :: "string \<Rightarrow> string \<Rightarrow> string" where
  "dotted pre k = (if pre = [] then k else pre @ ''.'' @ k)"

fun bool_str :: "bool \<Rightarrow> string" where
  "bool_str True = ''true''"
| "bool_str False = ''false''"

text \<open>\<^verbatim>\<open>FlattenSeed\<close> as a visitor. \<^term>\<open>num\<close> is the text \<^verbatim>\<open>serde_yaml::Number\<close> gives a number.\<close>

fun flatten :: "(yaml \<Rightarrow> string) \<Rightarrow> string \<Rightarrow> yaml \<Rightarrow> flat_output \<Rightarrow> yaml_error + flat_output"
  and flatten_entries ::
    "(yaml \<Rightarrow> string) \<Rightarrow> string \<Rightarrow> (yaml \<times> yaml) list \<Rightarrow> key_id list \<Rightarrow> flat_output \<Rightarrow> yaml_error + flat_output" where
  "flatten num pre (YStr s) out = emit_scalar pre s out"
| "flatten num pre (YBool b) out = emit_scalar pre (bool_str b) out"
| "flatten num pre (YInt i) out = emit_scalar pre (num (YInt i)) out"
| "flatten num pre (YFloat w) out = emit_scalar pre (num (YFloat w)) out"
| "flatten num pre YNull out = Inr out"
| "flatten num pre (YSeq _) out = Inr out"
| "flatten num pre (YTagged _ _) out = Inr out"
| "flatten num pre (YMap es) out = flatten_entries num pre es [] out"
| "flatten_entries num pre [] seen out = Inr out"
| "flatten_entries num pre ((k, v) # es) seen out =
     (if (case key_identity k of Some i \<Rightarrow> i \<in> set seen | None \<Rightarrow> False) then Inl DuplicateEntry
      else
        (let seen' = (case key_identity k of Some i \<Rightarrow> i # seen | None \<Rightarrow> seen) in
         case key_name k of
           None \<Rightarrow> flatten_entries num pre es seen' out
         | Some name \<Rightarrow>
             (case flatten num (dotted pre name) v out of
                Inl e \<Rightarrow> Inl e
              | Inr out' \<Rightarrow> flatten_entries num pre es seen' out')))"

text \<open>\<^term>\<open>doc\<close> is the first document of the file, or the error the stream reports on it.\<close>

definition ingest_yaml_str ::
  "(yaml \<Rightarrow> string) \<Rightarrow> (string \<Rightarrow> yaml_error + yaml) \<Rightarrow> string \<Rightarrow> registry \<Rightarrow> yaml_error option \<times> registry" where
  "ingest_yaml_str num first_document content r =
     (case first_document content of
        Inl e \<Rightarrow> (Some e, r)
      | Inr doc \<Rightarrow>
          (case flatten num [] doc (with_budget (yaml_output_budget (int (length content)))) of
             Inl e \<Rightarrow> (Some e, r)
           | Inr out \<Rightarrow> (None, fold (\<lambda>(k, v). insert_sanitized k v) (fo_pairs out) r)))"

section \<open>Maps with the same keys\<close>

lemma map_fst_hm_insert: "map fst m = map fst m' \<Longrightarrow> map fst (hm_insert k v m) = map fst (hm_insert k v' m')"
proof (induction k v m arbitrary: m' rule: hm_insert.induct)
  case (2 k v k1 v1 m)
  then show ?case by (cases m') auto
qed simp

lemma map_fst_hm_insert_old: "k \<in> fst ` set m \<Longrightarrow> map fst (hm_insert k v m) = map fst m"
  by (induction k v m rule: hm_insert.induct) auto

lemma map_fst_hm_remove: "map fst m = map fst m' \<Longrightarrow> map fst (hm_remove k m) = map fst (hm_remove k m')"
proof (induction m arbitrary: m')
  case (Cons x m)
  then show ?case by (cases m') (auto simp: hm_remove_def)
qed (simp add: hm_remove_def)

lemma map_of_hm_remove: "map_of (hm_remove k m) k' = (if k' = k then None else map_of m k')"
  by (induction m) (auto simp: hm_remove_def)

lemma distinct_hm_remove: "distinct (map fst m) \<Longrightarrow> distinct (map fst (hm_remove k m))"
  by (induction m) (auto simp: hm_remove_def)

lemma map_fst_hm_extend:
  "map fst m = map fst m' \<Longrightarrow> map fst kvs = map fst kvs' \<Longrightarrow> map fst (hm_extend m kvs) = map fst (hm_extend m' kvs')"
proof (induction kvs arbitrary: m m' kvs')
  case (Cons x kvs)
  obtain k v where x: "x = (k, v)" by (cases x)
  with Cons.prems obtain v' kvs'' where kvs': "kvs' = (k, v') # kvs''" by (cases kvs') auto
  with Cons.prems Cons.IH[OF map_fst_hm_insert[OF Cons.prems(1), of k v v'], of kvs''] x show ?case
    by (simp add: hm_extend_def)
qed (simp add: hm_extend_def)

lemma map_of_hm_extend: "distinct (map fst kvs) \<Longrightarrow> map_of (hm_extend m kvs) k = (case map_of kvs k of Some v \<Rightarrow> Some v | None \<Rightarrow> map_of m k)"
  by (induction kvs arbitrary: m)
    (auto simp: hm_extend_def map_of_hm_insert map_of_eq_None_iff image_iff split: option.splits)

lemma distinct_hm_extend: "distinct (map fst m) \<Longrightarrow> distinct (map fst (hm_extend m kvs))"
  by (induction kvs arbitrary: m) (auto simp: hm_extend_def distinct_hm_insert)

section \<open>The invariant\<close>

text \<open>Redaction is on, both maps have the same keys, a sensitive key shows the placeholder of
  redaction, and any other key whose value is not a placeholder shows that value.\<close>

definition reg_wf :: "registry \<Rightarrow> bool" where
  "reg_wf r \<longleftrightarrow>
     redact_secrets r \<and> map fst (flat_properties r) = map fst (raw_values r) \<and> distinct (map fst (raw_values r))
     \<and> list_all (\<lambda>(k, v).
          if sensitive_name k then map_of (flat_properties r) k = Some REDACTED_PLACEHOLDER
          else is_placeholder v \<or> map_of (flat_properties r) k = Some v) (raw_values r)"

lemma reg_wfI:
  assumes "redact_secrets r" and "map fst (flat_properties r) = map fst (raw_values r)"
    and "distinct (map fst (raw_values r))"
    and "\<And>k v. map_of (raw_values r) k = Some v \<Longrightarrow> sensitive_name k \<Longrightarrow> map_of (flat_properties r) k = Some REDACTED_PLACEHOLDER"
    and "\<And>k v. map_of (raw_values r) k = Some v \<Longrightarrow> \<not> sensitive_name k \<Longrightarrow> \<not> is_placeholder v \<Longrightarrow> map_of (flat_properties r) k = Some v"
  shows "reg_wf r"
  unfolding reg_wf_def using assms by (auto simp: list_all_iff)

lemma reg_wfD:
  assumes "reg_wf r"
  shows "redact_secrets r" and "map fst (flat_properties r) = map fst (raw_values r)"
    and "distinct (map fst (raw_values r))"
    and "map_of (raw_values r) k = Some v \<Longrightarrow> sensitive_name k \<Longrightarrow> map_of (flat_properties r) k = Some REDACTED_PLACEHOLDER"
    and "map_of (raw_values r) k = Some v \<Longrightarrow> \<not> sensitive_name k \<Longrightarrow> \<not> is_placeholder v \<Longrightarrow> map_of (flat_properties r) k = Some v"
  using assms unfolding reg_wf_def list_all_iff by (auto dest!: map_of_SomeD)

lemma reg_wf_keys: "reg_wf r \<Longrightarrow> map_of (flat_properties r) k = None \<longleftrightarrow> map_of (raw_values r) k = None"
  using reg_wfD(2)[of r] by (metis map_of_eq_None_iff list.set_map)

lemma reg_wf_new: "reg_wf registry_new"
  by (simp add: reg_wf_def registry_new_def with_redaction_def)

lemma reg_wf_insert: "reg_wf r \<Longrightarrow> reg_wf (insert_sanitized k v r)"
  by (rule reg_wfI)
    (auto simp: insert_sanitized_def is_sensitive_key_def map_of_hm_insert distinct_hm_insert reg_wfD
      simp del: map_of_eq_Some_iff intro: map_fst_hm_insert split: if_splits)

lemma reg_wf_drop: "reg_wf r \<Longrightarrow> reg_wf (drop_key k r)"
  by (rule reg_wfI)
    (auto simp: drop_key_def map_of_hm_remove distinct_hm_remove reg_wfD simp del: map_of_eq_Some_iff
      intro: map_fst_hm_remove split: if_splits)

lemma reg_wf_drops: "reg_wf r \<Longrightarrow> reg_wf (fold drop_key ks r)"
  by (induction ks arbitrary: r) (simp_all add: reg_wf_drop)

lemma reg_wf_remove: "reg_wf r \<Longrightarrow> reg_wf (remove_files ps r)"
  by (simp add: remove_files_def reg_wf_drops)

lemma reg_wf_merge:
  assumes "reg_wf r" and "reg_wf other"
  shows "reg_wf (merge other f r)"
proof (rule reg_wfI)
  note o = reg_wfD[OF assms(2)] and r = reg_wfD[OF assms(1)]
  have d: "distinct (map fst (flat_properties other))" using o(2,3) by simp
  show "redact_secrets (merge other f r)" using r(1) by (simp add: merge_def)
  show "map fst (flat_properties (merge other f r)) = map fst (raw_values (merge other f r))"
    using map_fst_hm_extend[OF r(2) o(2)] by (simp add: merge_def)
  show "distinct (map fst (raw_values (merge other f r)))" using r(3) by (simp add: merge_def distinct_hm_extend)
  show "map_of (flat_properties (merge other f r)) k = Some REDACTED_PLACEHOLDER"
    if "map_of (raw_values (merge other f r)) k = Some v" and "sensitive_name k" for k v
    using that o(4) r(4) reg_wf_keys[OF assms(2), of k] d o(3)
    by (auto simp: merge_def map_of_hm_extend simp del: map_of_eq_Some_iff split: option.splits)
  show "map_of (flat_properties (merge other f r)) k = Some v"
    if "map_of (raw_values (merge other f r)) k = Some v" and "\<not> sensitive_name k" and "\<not> is_placeholder v" for k v
    using that o(5) r(5) reg_wf_keys[OF assms(2), of k] d o(3)
    by (auto simp: merge_def map_of_hm_extend simp del: map_of_eq_Some_iff split: option.splits)
qed

lemma resolve_placeholder_id: "\<not> is_placeholder v \<Longrightarrow> resolve_placeholder r v = v"
  by (simp add: resolve_placeholder_def)

lemma reg_wf_resolve_key:
  assumes "reg_wf r"
  shows "reg_wf (resolve_key k r)"
proof (cases "map_of (flat_properties r) k = Some REDACTED_PLACEHOLDER \<or> map_of (raw_values r) k = None")
  case True
  with assms show ?thesis by (auto simp: resolve_key_def)
next
  case False
  then obtain v where v: "map_of (raw_values r) k = Some v" and n: "map_of (flat_properties r) k \<noteq> Some REDACTED_PLACEHOLDER"
    by blast
  note r = reg_wfD[OF assms]
  have "\<not> sensitive_name k" using r(4)[OF v] n by blast
  have "k \<in> fst ` set (flat_properties r)"
    using v reg_wf_keys[OF assms, of k] by (metis map_of_eq_None_iff option.distinct(1))
  then have f: "map fst (hm_insert k w (flat_properties r)) = map fst (raw_values r)" for w
    using r(2) by (simp add: map_fst_hm_insert_old)
  show ?thesis
    by (rule reg_wfI)
      (use v n r f \<open>\<not> sensitive_name k\<close> in
        \<open>auto simp: resolve_key_def map_of_hm_insert resolve_placeholder_id simp del: map_of_eq_Some_iff\<close>)
qed

lemma reg_wf_resolve: "reg_wf r \<Longrightarrow> reg_wf (fold resolve_key ks r)"
  by (induction ks arbitrary: r) (simp_all add: reg_wf_resolve_key)

section \<open>Runs of the registry\<close>

datatype reg_op = InsertOp string string | MergeOp registry path | RemoveOp "path list" | ResolveOp

fun reg_step :: "reg_op \<Rightarrow> registry \<Rightarrow> registry" where
  "reg_step (InsertOp k v) r = insert_sanitized k v r"
| "reg_step (MergeOp other f) r = merge other f r"
| "reg_step (RemoveOp ps) r = remove_files ps r"
| "reg_step ResolveOp r = resolve_all_placeholders r"

fun reg_op_ok :: "reg_op \<Rightarrow> registry \<Rightarrow> bool" where
  "reg_op_ok (MergeOp other f) r = reg_wf other"
| "reg_op_ok _ r = True"

lemma reg_wf_step: "reg_wf r \<Longrightarrow> reg_op_ok op r \<Longrightarrow> reg_wf (reg_step op r)"
  by (cases op) (simp_all add: reg_wf_insert reg_wf_merge reg_wf_remove resolve_all_placeholders_def reg_wf_resolve)

interpretation registry_machine: invariant_machine reg_step reg_op_ok registry_new reg_wf
  by unfold_locales (simp_all add: reg_wf_new reg_wf_step)

section \<open>Secrets\<close>

text \<open>Two registries, or two operations, that differ in the values of sensitive keys only.\<close>

definition same_but_secrets :: "(string, string) hmap \<Rightarrow> (string, string) hmap \<Rightarrow> bool" where
  "same_but_secrets m m' \<longleftrightarrow> list_all2 (\<lambda>(k, v) (k', v'). k = k' \<and> (sensitive_name k \<or> v = v')) m m'"

definition low_eq :: "registry \<Rightarrow> registry \<Rightarrow> bool" where
  "low_eq r r' \<longleftrightarrow>
     flat_properties r = flat_properties r' \<and> sources r = sources r' \<and> redact_secrets r = redact_secrets r'
     \<and> same_but_secrets (raw_values r) (raw_values r')"

fun low_op :: "reg_op \<Rightarrow> reg_op \<Rightarrow> bool" where
  "low_op (InsertOp k v) (InsertOp k' v') \<longleftrightarrow> k = k' \<and> (sensitive_name k \<or> v = v')"
| "low_op (MergeOp r f) (MergeOp r' f') \<longleftrightarrow> low_eq r r' \<and> f = f'"
| "low_op (RemoveOp ps) (RemoveOp ps') \<longleftrightarrow> ps = ps'"
| "low_op ResolveOp ResolveOp \<longleftrightarrow> True"
| "low_op _ _ \<longleftrightarrow> False"

lemma same_keys: "same_but_secrets m m' \<Longrightarrow> map fst m = map fst m'"
  unfolding same_but_secrets_def by (induction rule: list_all2_induct) auto

lemma same_map_of: "same_but_secrets m m' \<Longrightarrow> \<not> sensitive_name k \<Longrightarrow> map_of m k = map_of m' k"
  unfolding same_but_secrets_def by (induction rule: list_all2_induct) auto

lemma same_insert:
  "same_but_secrets m m' \<Longrightarrow> sensitive_name k \<or> v = v' \<Longrightarrow> same_but_secrets (hm_insert k v m) (hm_insert k v' m')"
  unfolding same_but_secrets_def by (induction rule: list_all2_induct) auto

lemma same_remove: "same_but_secrets m m' \<Longrightarrow> same_but_secrets (hm_remove k m) (hm_remove k m')"
  unfolding same_but_secrets_def by (induction rule: list_all2_induct) (auto simp: hm_remove_def)

lemma same_extend:
  assumes "same_but_secrets kvs kvs'" and "same_but_secrets m m'"
  shows "same_but_secrets (hm_extend m kvs) (hm_extend m' kvs')"
  using assms(1)[unfolded same_but_secrets_def] assms(2)
proof (induction arbitrary: m m' rule: list_all2_induct)
  case (Cons x kvs y kvs')
  then show ?case using same_insert[of m m'] by (cases x; cases y) (auto simp: hm_extend_def)
qed (simp add: hm_extend_def)

lemma low_resolve_key:
  assumes "low_eq r r'" and "reg_wf r"
  shows "low_eq (resolve_key k r) (resolve_key k r')"
proof (cases "map_of (flat_properties r) k = Some REDACTED_PLACEHOLDER")
  case True
  with assms show ?thesis by (simp add: resolve_key_def low_eq_def)
next
  case False
  have same: "map_of (raw_values r) k = map_of (raw_values r') k"
  proof (cases "sensitive_name k")
    case True
    with False reg_wfD(4)[OF assms(2)] have "map_of (raw_values r) k = None" by (metis option.exhaust)
    moreover have "map fst (raw_values r) = map fst (raw_values r')" using assms(1) same_keys by (auto simp: low_eq_def)
    ultimately show ?thesis by (metis map_of_eq_None_iff list.set_map)
  next
    case False
    with assms(1) same_map_of show ?thesis by (auto simp: low_eq_def)
  qed
  have "resolve_placeholder r v = resolve_placeholder r' v" for v
    using assms(1) by (auto simp: resolve_placeholder_def is_sensitive_key_def low_eq_def split: prod.split option.split)
  then show ?thesis using assms(1) same by (auto simp: resolve_key_def low_eq_def split: option.split)
qed

lemma low_resolve: "low_eq r r' \<Longrightarrow> reg_wf r \<Longrightarrow> low_eq (fold resolve_key ks r) (fold resolve_key ks r')"
  by (induction ks arbitrary: r r') (simp_all add: low_resolve_key reg_wf_resolve_key)

lemma low_drops: "low_eq r r' \<Longrightarrow> low_eq (fold drop_key ks r) (fold drop_key ks r')"
  by (induction ks arbitrary: r r') (simp_all add: drop_key_def low_eq_def same_remove)

lemma low_step:
  assumes "low_op op op'" and "low_eq r r'" and "reg_wf r"
  shows "low_eq (reg_step op r) (reg_step op' r')"
proof (cases op)
  case (InsertOp k v)
  with assms(1) obtain v' where op': "op' = InsertOp k v'" "sensitive_name k \<or> v = v'" by (cases op') auto
  with assms(2) reg_wfD(1)[OF assms(3)] InsertOp show ?thesis
    by (auto simp: insert_sanitized_def low_eq_def is_sensitive_key_def intro: same_insert)
next
  case (MergeOp other f)
  with assms(1) obtain other' where "op' = MergeOp other' f" "low_eq other other'" by (cases op') auto
  with assms(2) MergeOp show ?thesis by (auto simp: merge_def low_eq_def same_extend)
next
  case (RemoveOp ps)
  with assms(1) have "op' = RemoveOp ps" by (cases op') auto
  with assms(2) RemoveOp low_drops[OF assms(2)] show ?thesis by (simp add: remove_files_def low_eq_def)
next
  case ResolveOp
  with assms(1) have "op' = ResolveOp" by (cases op') auto
  moreover have "map fst (raw_values r) = map fst (raw_values r')" using assms(2) same_keys by (auto simp: low_eq_def)
  ultimately show ?thesis
    using ResolveOp low_resolve[OF assms(2,3)] by (simp add: resolve_all_placeholders_def)
qed

lemma low_run:
  assumes "list_all2 low_op ops ops'" and "low_eq r r'" and "reg_wf r" and "registry_machine.run_allowed ops r"
  shows "low_eq (fold reg_step ops r) (fold reg_step ops' r')"
  using assms
proof (induction arbitrary: r r' rule: list_all2_induct)
  case (Cons op ops op' ops')
  then show ?case using low_step[of op op' r r'] reg_wf_step[of r op] by simp
qed simp

text \<open>
  C10: secrets do not leak. Two histories of inserting, merging, removing and resolving that differ in
  the values of sensitive keys only serve the same properties, whatever placeholders refer to those
  keys, and a sensitive key itself is served as redacted or not at all.
\<close>

theorem secrets_never_served:
  assumes "list_all2 low_op ops ops'" and "registry_machine.run_allowed ops registry_new"
  shows "reg_get (fold reg_step ops registry_new) k = reg_get (fold reg_step ops' registry_new) k
    \<and> (reg_get (fold reg_step ops registry_new) k \<in> {None, Some REDACTED_PLACEHOLDER} \<or> \<not> sensitive_name k)"
proof -
  have "low_eq registry_new registry_new"
    by (simp add: low_eq_def same_but_secrets_def registry_new_def with_redaction_def)
  then have "low_eq (fold reg_step ops registry_new) (fold reg_step ops' registry_new)"
    using low_run[OF assms(1) _ reg_wf_new assms(2)] by blast
  moreover have wf: "reg_wf (fold reg_step ops registry_new)" by (rule registry_machine.inv_run[OF assms(2)])
  have "reg_get (fold reg_step ops registry_new) k \<in> {None, Some REDACTED_PLACEHOLDER} \<or> \<not> sensitive_name k"
    using reg_wfD(4)[OF wf, of k] reg_wf_keys[OF wf, of k] by (auto simp: reg_get_def simp del: map_of_eq_Some_iff)
  ultimately show ?thesis by (simp add: low_eq_def reg_get_def)
qed

text \<open>A service configuration whose data source URL refers to a password.\<close>

definition config_ops :: "string \<Rightarrow> reg_op list" where
  "config_ops secret =
     [InsertOp ''db.password'' secret, InsertOp ''db.url'' ''${db.password}'', InsertOp ''db.host'' ''${HOST:localhost}'',
      ResolveOp]"

theorem secrets_never_served_witness:
  "reg_get (fold reg_step (config_ops ''hunter2'') registry_new) ''db.host'' = Some ''localhost''
   \<and> reg_get (fold reg_step (config_ops ''hunter2'') registry_new) ''db.url''
       = reg_get (fold reg_step (config_ops ''swordfish'') registry_new) ''db.url''
   \<and> reg_get (fold reg_step (config_ops ''hunter2'') registry_new) ''db.password'' = Some REDACTED_PLACEHOLDER"
proof -
  have a: "list_all2 low_op (config_ops ''hunter2'') (config_ops ''swordfish'')" by code_simp
  have b: "registry_machine.run_allowed (config_ops ''hunter2'') registry_new"
    by (simp add: config_ops_def registry_machine.run_allowed.simps)
  have c: "reg_get (fold reg_step (config_ops ''hunter2'') registry_new) ''db.host'' = Some ''localhost''" by code_simp
  have d: "sensitive_name ''db.password''" "reg_get (fold reg_step (config_ops ''hunter2'') registry_new) ''db.password'' \<noteq> None"
    by code_simp+
  show ?thesis using c d secrets_never_served[OF a b, of "''db.url''"] secrets_never_served[OF a b, of "''db.password''"] by auto
qed

section \<open>What placeholders resolve to\<close>

text \<open>A registry no key of which was resolved yet, and one in which no placeholder refers to a key
  whose own value is a placeholder.\<close>

definition fresh :: "registry \<Rightarrow> bool" where
  "fresh r \<longleftrightarrow>
     list_all (\<lambda>(k, v). map_of (flat_properties r) k = Some (if sensitive_name k then REDACTED_PLACEHOLDER else v)) (raw_values r)"

definition no_chains :: "registry \<Rightarrow> bool" where
  "no_chains r \<longleftrightarrow>
     list_all (\<lambda>(k, v). is_placeholder v \<longrightarrow>
        (let j = fst (placeholder_parts v) in
         sensitive_name j \<or> (case map_of (raw_values r) j of Some w \<Rightarrow> \<not> is_placeholder w | None \<Rightarrow> True))) (raw_values r)"

text \<open>The value a placeholder stands for, read from the raw values alone.\<close>

definition expansion :: "registry \<Rightarrow> string \<Rightarrow> string" where
  "expansion r v =
     (if \<not> is_placeholder v then v
      else
        (let (key, default_val) = placeholder_parts v in
         case map_of (raw_values r) key of
           Some w \<Rightarrow> if sensitive_name key then REDACTED_PLACEHOLDER else w
         | None \<Rightarrow>
             (case default_val of
                Some def \<Rightarrow> if sensitive_name key then REDACTED_PLACEHOLDER else def
              | None \<Rightarrow> v)))"

definition shown_value :: "registry \<Rightarrow> string \<Rightarrow> string option" where
  "shown_value r k =
     map_option (\<lambda>v. if sensitive_name k then REDACTED_PLACEHOLDER else expansion r v) (map_of (raw_values r) k)"

lemma resolve_is_expansion:
  assumes "reg_wf r" and "no_chains r" and "map_of (raw_values r) k = Some v"
  shows "resolve_placeholder r v = expansion r v"
proof (cases "is_placeholder v")
  case True
  obtain j d where p: "placeholder_parts v = (j, d)" by (cases "placeholder_parts v")
  have chain: "sensitive_name j \<or> (case map_of (raw_values r) j of Some w \<Rightarrow> \<not> is_placeholder w | None \<Rightarrow> True)"
    using assms(2) map_of_SomeD[OF assms(3)] True p by (auto simp: no_chains_def list_all_iff Let_def)
  show ?thesis
  proof (cases "map_of (raw_values r) j")
    case None
    then show ?thesis
      using True p reg_wf_keys[OF assms(1), of j] reg_wfD(1)[OF assms(1)]
      by (simp add: resolve_placeholder_def expansion_def is_sensitive_key_def split: option.split)
  next
    case (Some w)
    have "map_of (flat_properties r) j = Some (if sensitive_name j then REDACTED_PLACEHOLDER else w)"
      using reg_wfD(4,5)[OF assms(1) Some] chain Some by auto
    then show ?thesis using True p Some by (simp add: resolve_placeholder_def expansion_def)
  qed
qed (simp add: resolve_placeholder_def expansion_def)

text \<open>Resolving one key of a registry sets what it shows and nothing else.\<close>

lemma resolve_key_get:
  assumes "reg_wf r" and "no_chains r" and "reg_get r k = shown_value r k \<or> reg_get r k \<noteq> Some REDACTED_PLACEHOLDER"
  shows "reg_get (resolve_key k r) j = (if j = k then shown_value r k else reg_get r j)"
    and "raw_values (resolve_key k r) = raw_values r"
proof -
  note wf = reg_wfD[OF assms(1)]
  show "raw_values (resolve_key k r) = raw_values r" by (simp add: resolve_key_def split: option.split)
  show "reg_get (resolve_key k r) j = (if j = k then shown_value r k else reg_get r j)"
  proof (cases "map_of (raw_values r) k")
    case None
    with reg_wf_keys[OF assms(1), of k] show ?thesis by (simp add: resolve_key_def reg_get_def shown_value_def)
  next
    case (Some v)
    show ?thesis
    proof (cases "reg_get r k = Some REDACTED_PLACEHOLDER")
      case True
      with assms(3) show ?thesis by (auto simp: resolve_key_def reg_get_def)
    next
      case False
      with wf(4)[OF Some] have "\<not> sensitive_name k" by (auto simp: reg_get_def)
      with False Some resolve_is_expansion[OF assms(1,2) Some] show ?thesis
        by (simp add: resolve_key_def reg_get_def shown_value_def map_of_hm_insert)
    qed
  qed
qed

lemma shown_value_cong:
  assumes "raw_values r = raw_values r'"
  shows "shown_value r = shown_value r'"
  unfolding shown_value_def expansion_def assms ..

lemma no_chains_cong: "raw_values r = raw_values r' \<Longrightarrow> no_chains r = no_chains r'"
  by (simp add: no_chains_def)

lemma resolve_loop_get:
  assumes "reg_wf r" and "no_chains r"
    and "\<forall>k. reg_get r k = shown_value r k \<or> reg_get r k \<noteq> Some REDACTED_PLACEHOLDER"
  shows "reg_get (fold resolve_key ks r) j = (if j \<in> set ks then shown_value r j else reg_get r j)
         \<and> raw_values (fold resolve_key ks r) = raw_values r"
  using assms
proof (induction ks arbitrary: r)
  case (Cons k ks)
  let ?r = "resolve_key k r"
  note step = resolve_key_get[OF Cons.prems(1,2) spec[OF Cons.prems(3), of k]]
  have sv: "shown_value ?r = shown_value r" using step(2) by (rule shown_value_cong)
  have "\<forall>k. reg_get ?r k = shown_value ?r k \<or> reg_get ?r k \<noteq> Some REDACTED_PLACEHOLDER"
    using Cons.prems(3) step(1) sv by auto
  with Cons.IH[OF reg_wf_resolve_key[OF Cons.prems(1)]] Cons.prems(2) no_chains_cong[OF step(2)]
  have "reg_get (fold resolve_key ks ?r) j = (if j \<in> set ks then shown_value ?r j else reg_get ?r j)
      \<and> raw_values (fold resolve_key ks ?r) = raw_values ?r" by blast
  then show ?case using step sv by auto
qed simp

lemma fresh_shown:
  assumes "reg_wf r" and "fresh r"
  shows "reg_get r k = shown_value r k \<or> reg_get r k \<noteq> Some REDACTED_PLACEHOLDER"
proof (cases "map_of (raw_values r) k")
  case None
  with reg_wf_keys[OF assms(1), of k] show ?thesis by (simp add: reg_get_def)
next
  case (Some v)
  then have f: "reg_get r k = Some (if sensitive_name k then REDACTED_PLACEHOLDER else v)"
    using assms(2) map_of_SomeD[OF Some] by (auto simp: fresh_def list_all_iff reg_get_def)
  have "\<not> is_placeholder REDACTED_PLACEHOLDER" by code_simp
  with f Some show ?thesis by (auto simp: shown_value_def expansion_def)
qed

text \<open>
  On a registry just loaded, in which no placeholder refers to a key whose value is a placeholder
  again, resolving shows under every key the value its raw text stands for: itself, the value of the
  key it refers to, its default, or the redaction mark. The order in which the keys are visited and
  resolving again change nothing.
\<close>

theorem resolve_placeholders_spec:
  assumes "reg_wf r" and "fresh r" and "no_chains r" and "set order = set (map fst (raw_values r))"
  shows "reg_get (resolve_all_placeholders r) = shown_value r
    \<and> reg_get (fold resolve_key order r) = shown_value r
    \<and> reg_get (resolve_all_placeholders (resolve_all_placeholders r)) = shown_value r"
proof -
  have loop: "reg_get (fold resolve_key ks r') = shown_value r"
    if "set ks = set (map fst (raw_values r))" and "reg_wf r'" and "raw_values r' = raw_values r"
      and "\<forall>k. reg_get r' k = shown_value r' k \<or> reg_get r' k \<noteq> Some REDACTED_PLACEHOLDER" for ks r'
  proof (rule ext)
    fix j
    have sv: "shown_value r' = shown_value r" using that(3) by (rule shown_value_cong)
    have "reg_get r' j = shown_value r' j" if "j \<notin> set ks"
    proof -
      have "map_of (raw_values r') j = None"
        using that \<open>raw_values r' = raw_values r\<close> \<open>set ks = _\<close> by (metis map_of_eq_None_iff list.set_map)
      with reg_wf_keys[OF \<open>reg_wf r'\<close>, of j] show ?thesis by (simp add: reg_get_def shown_value_def)
    qed
    with resolve_loop_get[OF that(2) _ that(4), of ks j] assms(3) no_chains_cong[OF that(3)] sv
    show "reg_get (fold resolve_key ks r') j = shown_value r j" by auto
  qed
  note start = fresh_shown[OF assms(1,2)]
  have one: "reg_get (fold resolve_key ks r) = shown_value r" if "set ks = set (map fst (raw_values r))" for ks
    using loop[OF that assms(1) refl] start by blast
  let ?r = "resolve_all_placeholders r"
  have a: "reg_get ?r = shown_value r" unfolding resolve_all_placeholders_def by (rule one) simp
  have raw: "raw_values ?r = raw_values r"
    using resolve_loop_get[OF assms(1,3)] start unfolding resolve_all_placeholders_def by blast
  have wf: "reg_wf ?r" unfolding resolve_all_placeholders_def by (rule reg_wf_resolve[OF assms(1)])
  have "reg_get (resolve_all_placeholders ?r) = shown_value r"
    unfolding resolve_all_placeholders_def[of ?r]
    by (rule loop[OF _ wf raw]) (simp_all add: raw a shown_value_cong[OF raw])
  with a one[OF assms(4)] show ?thesis by blast
qed

definition loaded_config :: registry where
  "loaded_config = fold reg_step (butlast (config_ops ''hunter2'')) registry_new"

theorem resolve_placeholders_spec_witness:
  "reg_wf loaded_config \<and> fresh loaded_config \<and> no_chains loaded_config
   \<and> reg_get (fold resolve_key [''db.host'', ''db.url'', ''db.password''] loaded_config) = shown_value loaded_config
   \<and> shown_value loaded_config ''db.url'' = Some REDACTED_PLACEHOLDER"
proof -
  have a: "reg_wf loaded_config" "fresh loaded_config" "no_chains loaded_config" by code_simp+
  have b: "set [''db.host'', ''db.url'', ''db.password''] = set (map fst (raw_values loaded_config))" by code_simp
  have c: "shown_value loaded_config ''db.url'' = Some REDACTED_PLACEHOLDER" by code_simp
  show ?thesis using a c resolve_placeholders_spec[OF a b] by blast
qed

text \<open>
  With a chain of placeholders the loop resolves against values it has already rewritten, so what
  a key shows depends on the order of the hash map, and a value resolved to the redaction mark stays
  redacted when the key it referred to is gone: the result is not derived from the raw values alone.
\<close>

theorem placeholder_chain_depends_on_order:
  "(let r = fold reg_step [InsertOp ''a'' ''${b}'', InsertOp ''b'' ''${c}'', InsertOp ''c'' ''1''] registry_new in
     reg_get (fold resolve_key [''a'', ''b'', ''c''] r) ''a'' = Some ''${c}''
     \<and> reg_get (fold resolve_key [''b'', ''a'', ''c''] r) ''a'' = Some ''1'')
   \<and> (let other = insert_sanitized ''db.password'' ''hunter2'' registry_new;
       reload = fold reg_step [InsertOp ''url'' ''${db.password}'', MergeOp other [Normal ''f''], ResolveOp,
                               RemoveOp [[Normal ''f'']], ResolveOp] registry_new;
       rebuild = fold reg_step [InsertOp ''url'' ''${db.password}'', ResolveOp] registry_new in
     raw_values reload = raw_values rebuild
     \<and> reg_get reload ''url'' = Some REDACTED_PLACEHOLDER \<and> reg_get rebuild ''url'' = Some ''${db.password}'')"
  by (rule conjI) code_simp+

section \<open>Flattening a document\<close>

text \<open>The reference: the pairs of a document by structure, and mappings without repeated keys, in the
  part of the document the flattening visits.\<close>

fun flat_pairs :: "(yaml \<Rightarrow> string) \<Rightarrow> string \<Rightarrow> yaml \<Rightarrow> (string \<times> string) list"
  and entry_pairs :: "(yaml \<Rightarrow> string) \<Rightarrow> string \<Rightarrow> (yaml \<times> yaml) list \<Rightarrow> (string \<times> string) list" where
  "flat_pairs num pre (YStr s) = [(pre, s)]"
| "flat_pairs num pre (YBool b) = [(pre, bool_str b)]"
| "flat_pairs num pre (YInt i) = [(pre, num (YInt i))]"
| "flat_pairs num pre (YFloat w) = [(pre, num (YFloat w))]"
| "flat_pairs num pre YNull = []"
| "flat_pairs num pre (YSeq _) = []"
| "flat_pairs num pre (YTagged _ _) = []"
| "flat_pairs num pre (YMap es) = entry_pairs num pre es"
| "entry_pairs num pre [] = []"
| "entry_pairs num pre ((k, v) # es) =
     (case key_name k of Some name \<Rightarrow> flat_pairs num (dotted pre name) v | None \<Rightarrow> []) @ entry_pairs num pre es"

definition entry_ids :: "(yaml \<times> yaml) list \<Rightarrow> key_id list" where
  "entry_ids es = List.map_filter (\<lambda>(k, _). key_identity k) es"

fun unique_keys :: "yaml \<Rightarrow> bool" and unique_entries :: "(yaml \<times> yaml) list \<Rightarrow> bool" where
  "unique_keys (YMap es) = (distinct (entry_ids es) \<and> unique_entries es)"
| "unique_keys _ = True"
| "unique_entries [] = True"
| "unique_entries ((k, v) # es) = ((key_name k = None \<or> unique_keys v) \<and> unique_entries es)"

definition pair_bytes :: "(string \<times> string) list \<Rightarrow> int" where
  "pair_bytes ps = sum_list (map (\<lambda>(k, v). int (length k + length v)) ps)"

lemma pair_bytes_simps [simp]:
  "pair_bytes [] = 0" "pair_bytes (p # ps) = int (length (fst p) + length (snd p)) + pair_bytes ps"
  "pair_bytes (ps @ qs) = pair_bytes ps + pair_bytes qs"
  by (auto simp: pair_bytes_def split: prod.split)

lemma pair_bytes_nonneg: "0 \<le> pair_bytes ps"
  by (induction ps) auto

lemma entry_ids_simps [simp]:
  "entry_ids [] = []"
  "entry_ids ((k, v) # es) = (case key_identity k of Some i \<Rightarrow> i # entry_ids es | None \<Rightarrow> entry_ids es)"
  by (auto simp: entry_ids_def map_filter_simps split: option.split)

definition emitted :: "(string \<times> string) list \<Rightarrow> flat_output \<Rightarrow> flat_output" where
  "emitted ps out = out\<lparr>fo_pairs := fo_pairs out @ ps, fo_bytes := fo_bytes out + pair_bytes ps\<rparr>"

lemma emitted_simps [simp]:
  "emitted [] out = out" "emitted ps (emitted qs out) = emitted (qs @ ps) out"
  "fo_budget (emitted ps out) = fo_budget out" "fo_bytes (emitted ps out) = fo_bytes out + pair_bytes ps"
  "fo_pairs (emitted ps out) = fo_pairs out @ ps"
  by (simp_all add: emitted_def)

definition emits :: "bool \<Rightarrow> (string \<times> string) list \<Rightarrow> flat_output \<Rightarrow> yaml_error + flat_output \<Rightarrow> bool" where
  "emits valid ps out res \<longleftrightarrow>
     (case res of
        Inr out' \<Rightarrow> valid \<and> fo_bytes out + pair_bytes ps \<le> fo_budget out \<and> out' = emitted ps out
      | Inl _ \<Rightarrow> \<not> valid \<or> fo_bytes out + pair_bytes ps > fo_budget out)"

lemma emits_scalar:
  "fo_budget out < USIZE_MAX \<Longrightarrow> emits True [(pre, v)] out (emit_scalar pre v out)"
  by (auto simp: emits_def emit_scalar_def emitted_def Let_def min_def)

lemma emits_nothing: "fo_bytes out \<le> fo_budget out \<Longrightarrow> emits True [] out (Inr out)"
  by (simp add: emits_def)

lemma flatten_emits:
  "fo_budget out < USIZE_MAX \<Longrightarrow> fo_bytes out \<le> fo_budget out
   \<Longrightarrow> emits (unique_keys y) (flat_pairs num pre y) out (flatten num pre y out)"
  "fo_budget out < USIZE_MAX \<Longrightarrow> fo_bytes out \<le> fo_budget out
   \<Longrightarrow> emits (distinct (entry_ids es) \<and> set (entry_ids es) \<inter> set seen = {} \<and> unique_entries es)
         (entry_pairs num pre es) out (flatten_entries num pre es seen out)"
proof (induction num pre y out and num pre es seen out rule: flatten_flatten_entries.induct)
  case (10 num pre k v es seen out)
  define seen' where "seen' = (case key_identity k of Some i \<Rightarrow> i # seen | None \<Rightarrow> seen)"
  show ?case
  proof (cases "case key_identity k of Some i \<Rightarrow> i \<in> set seen | None \<Rightarrow> False")
    case True
    then show ?thesis by (auto simp: emits_def split: option.splits)
  next
    case False
    have ids: "(distinct (entry_ids ((k, v) # es)) \<and> set (entry_ids ((k, v) # es)) \<inter> set seen = {} \<and> u)
        = (distinct (entry_ids es) \<and> set (entry_ids es) \<inter> set seen' = {} \<and> u)" for u
      using False by (auto simp: seen'_def split: option.splits)
    show ?thesis
    proof (cases "key_name k")
      case None
      show ?thesis
        unfolding ids using 10(1)[OF False seen'_def None 10(4,5)] False None by (simp add: seen'_def Let_def)
    next
      case (Some name)
      note head = 10(2)[OF False seen'_def Some 10(4,5)]
      show ?thesis
      proof (cases "flatten num (dotted pre name) v out")
        case (Inl e)
        with head Some False pair_bytes_nonneg[of "entry_pairs num pre es"] show ?thesis
          by (auto simp: emits_def Let_def)
      next
        case (Inr out')
        with head have o: "out' = emitted (flat_pairs num (dotted pre name) v) out" "unique_keys v"
          "fo_bytes out + pair_bytes (flat_pairs num (dotted pre name) v) \<le> fo_budget out"
          by (auto simp: emits_def)
        have "emits (distinct (entry_ids es) \<and> set (entry_ids es) \<inter> set seen' = {} \<and> unique_entries es)
            (entry_pairs num pre es) out' (flatten_entries num pre es seen' out')"
          using 10(3)[OF False seen'_def Some Inr] 10(4) o by simp
        with o Some False Inr show ?thesis
          unfolding ids by (auto simp: emits_def seen'_def[symmetric] Let_def add.assoc split: sum.splits)
      qed
    qed
  qed
qed (simp_all add: emits_scalar emits_nothing)



section \<open>Removing files\<close>

lemma drops_get:
  "reg_get (fold drop_key ks r) k = (if k \<in> set ks then None else reg_get r k)"
  by (induction ks arbitrary: r) (auto simp: drop_key_def reg_get_def map_of_hm_remove)

text \<open>
  Removing files from the registry removes exactly the keys last set from them, so removing a file
  just merged leaves no key of it and every other key as it was.
\<close>

theorem remove_files_exact:
  assumes "distinct (map fst (sources r))"
  shows "reg_get (remove_files ps r) k =
      (if (case map_of (sources r) k of Some f \<Rightarrow> f \<in> set ps | None \<Rightarrow> False) then None else reg_get r k)
    \<and> reg_get (remove_file f (merge other f r)) k =
      (if k \<in> set (map fst (flat_properties other)) \<or> map_of (sources r) k = Some f then None else reg_get r k)"
proof -
  have owned: "k \<in> set (map fst (filter (\<lambda>(_, p). p \<in> set ps) (sources r)))
      \<longleftrightarrow> (case map_of (sources r) k of Some f \<Rightarrow> f \<in> set ps | None \<Rightarrow> False)"
    if "distinct (map fst (sources r))" for r ps
  proof -
    have "k \<in> set (map fst (filter (\<lambda>(_, p). p \<in> set ps) (sources r))) \<longleftrightarrow> (\<exists>f. (k, f) \<in> set (sources r) \<and> f \<in> set ps)"
      by force
    also have "\<dots> \<longleftrightarrow> (\<exists>f. map_of (sources r) k = Some f \<and> f \<in> set ps)" using map_of_eq_Some_iff[OF that] by blast
    finally show ?thesis by (cases "map_of (sources r) k") auto
  qed
  have rm: "reg_get (remove_files ps r) k =
      (if (case map_of (sources r) k of Some f \<Rightarrow> f \<in> set ps | None \<Rightarrow> False) then None else reg_get r k)"
    if "distinct (map fst (sources r))" for r ps
    using owned[OF that, of ps] by (auto simp: remove_files_def drops_get split: option.splits)
  let ?ks = "map fst (flat_properties other)"
  have src: "map_of (fold (\<lambda>k. hm_insert k f) ks m) k = (if k \<in> set ks then Some f else map_of m k)" for ks m
    by (induction ks arbitrary: m) (auto simp: map_of_hm_insert)
  have dist: "distinct (map fst (fold (\<lambda>k. hm_insert k f) ks m))" if "distinct (map fst m)" for ks m
    using that by (induction ks arbitrary: m) (simp_all add: distinct_hm_insert)
  have get: "reg_get (merge other f r) k = reg_get r k" if "k \<notin> set ?ks"
  proof -
    have "map_of (hm_extend m kvs) k = map_of m k" if "k \<notin> set (map fst kvs)" for m :: "(string, string) hmap" and kvs
      using that by (induction kvs arbitrary: m) (auto simp: hm_extend_def map_of_hm_insert)
    with that show ?thesis by (simp add: merge_def reg_get_def)
  qed
  have s: "sources (merge other f r) = fold (\<lambda>k. hm_insert k f) ?ks (sources r)" by (simp add: merge_def)
  have "reg_get (remove_file f (merge other f r)) k =
      (if k \<in> set ?ks \<or> map_of (sources r) k = Some f then None else reg_get r k)"
    unfolding remove_file_def using rm[of "merge other f r" "[f]"] get dist[OF assms]
    by (auto simp: s src split: option.splits)
  with rm[OF assms] show ?thesis by blast
qed

theorem remove_files_exact_witness:
  "reg_get (remove_file [Normal ''b''] (merge (insert_sanitized ''port'' ''9090'' registry_new) [Normal ''b'']
       (merge (insert_sanitized ''host'' ''h'' registry_new) [Normal ''a''] registry_new))) ''host'' = Some ''h''"
proof -
  let ?r = "merge (insert_sanitized ''host'' ''h'' registry_new) [Normal ''a''] registry_new"
  have d: "distinct (map fst (sources ?r))" by code_simp
  have h: "reg_get ?r ''host'' = Some ''h''" "map_of (sources ?r) ''host'' \<noteq> Some [Normal ''b'']"
    "''host'' \<notin> set (map fst (flat_properties (insert_sanitized ''port'' ''9090'' registry_new)))" by code_simp+
  show ?thesis
    using remove_files_exact[OF d, where f = "[Normal ''b'']" and other = "insert_sanitized ''port'' ''9090'' registry_new" and k = "''host''"] h
    by simp
qed

end
