(* ===== verification/Snapshot_Cache.thy ===== *)
theory Snapshot_Cache
  imports Mesh_Types
begin

text \<open>
  The published snapshot and what is cached against it: the result cache of
  \<^verbatim>\<open>crates/mesh-core/src/search_cache.rs\<close>, the generations of \<^verbatim>\<open>AppState::install_snapshot\<close> in
  \<^verbatim>\<open>crates/mesh-core/src/state.rs\<close>, their interleaving with requests as in
  \<^verbatim>\<open>crates/mesh-server/src/tools/smart_search.rs\<close>, and the file signatures of
  \<^verbatim>\<open>crates/mesh-core/src/vfs.rs\<close>. Locks are atomic steps and never poisoned; generations are
  natural numbers, as no process installs \<^verbatim>\<open>2^64\<close> snapshots. File metadata and SHA-256 come from
  outside: the metadata is an argument, the digest a parameter.
\<close>

section \<open>The result cache\<close>

record search_cache_key =
  ck_query :: string
  ck_scope :: path
  ck_raw_scope :: string
  ck_include_body :: bool
  ck_fuzzy :: bool
  ck_include_tests :: bool
  ck_limit :: nat
  ck_offset :: nat

type_synonym file_stamp = "path \<times> nat option \<times> nat"

record cached_search =
  cs_text :: string
  cs_files_accessed :: "string list"
  cs_file_stamps :: "file_stamp list"

text \<open>\<^term>\<open>stat p\<close> is the modification time and length of a file, \<^verbatim>\<open>None\<close> when it cannot be read.\<close>

definition file_stamp_of :: "(path \<Rightarrow> (nat option \<times> nat) option) \<Rightarrow> path \<Rightarrow> file_stamp" where
  "file_stamp_of stat p = (case stat p of Some (mtime, len) \<Rightarrow> (p, mtime, len) | None \<Rightarrow> (p, None, 0))"

definition is_fresh :: "(path \<Rightarrow> (nat option \<times> nat) option) \<Rightarrow> cached_search \<Rightarrow> bool" where
  "is_fresh stat c = list_all (\<lambda>stamp. file_stamp_of stat (fst stamp) = stamp) (cs_file_stamps c)"

record search_cache =
  sc_generation :: nat
  sc_entries :: "(search_cache_key, cached_search) hmap"

definition search_cache_default :: search_cache where
  "search_cache_default = \<lparr>sc_generation = 0, sc_entries = []\<rparr>"

definition MAX_ENTRIES :: nat where
  "MAX_ENTRIES = 256"

definition cache_get :: "nat \<Rightarrow> search_cache_key \<Rightarrow> search_cache \<Rightarrow> cached_search option \<times> search_cache" where
  "cache_get generation key c =
     (if sc_generation c \<noteq> generation
      then (None, if generation > sc_generation c then \<lparr>sc_generation = generation, sc_entries = []\<rparr> else c)
      else (map_of (sc_entries c) key, c))"

definition cache_insert :: "nat \<Rightarrow> search_cache_key \<Rightarrow> cached_search \<Rightarrow> search_cache \<Rightarrow> search_cache" where
  "cache_insert generation key v c =
     (if generation < sc_generation c then c
      else
        (let c1 = (if generation > sc_generation c then \<lparr>sc_generation = generation, sc_entries = []\<rparr> else c);
             es = (if length (sc_entries c1) \<ge> MAX_ENTRIES \<and> map_of (sc_entries c1) key = None then [] else sc_entries c1) in
         c1\<lparr>sc_entries := hm_insert key v es\<rparr>))"

section \<open>Requests and reloads\<close>

text \<open>The published snapshot, its generation and the cache, with the requests in flight (the snapshot
  a request pinned, its generation and its key), and, for the statement of correctness, every
  snapshot installed and every page served. A snapshot is anything requests are answered from.\<close>

record 's mesh_server =
  ms_generation :: nat
  ms_snapshot :: 's
  ms_cache :: search_cache
  ms_requests :: "(nat \<times> 's \<times> search_cache_key) list"
  ms_installed :: "(nat \<times> 's) list"
  ms_served :: "('s \<times> search_cache_key \<times> cached_search) list"

definition mesh_server_start :: "'s \<Rightarrow> 's mesh_server" where
  "mesh_server_start s =
     \<lparr>ms_generation = 0, ms_snapshot = s, ms_cache = search_cache_default, ms_requests = [], ms_installed = [(0, s)],
      ms_served = []\<rparr>"

definition install_snapshot :: "'s \<Rightarrow> 's mesh_server \<Rightarrow> 's mesh_server" where
  "install_snapshot s m =
     m\<lparr>ms_generation := ms_generation m + 1, ms_snapshot := s, ms_installed := (ms_generation m + 1, s) # ms_installed m\<rparr>"

definition pin_snapshot :: "search_cache_key \<Rightarrow> 's mesh_server \<Rightarrow> 's mesh_server" where
  "pin_snapshot key m = m\<lparr>ms_requests := (ms_generation m, ms_snapshot m, key) # ms_requests m\<rparr>"

text \<open>\<^term>\<open>renders s key page\<close>: rendering \<^term>\<open>key\<close> from snapshot \<^term>\<open>s\<close> can give \<^term>\<open>page\<close>. A lookup and
  a store of the same request are separate steps, so reloads and other requests come in between.\<close>

inductive server_step ::
  "('s \<Rightarrow> search_cache_key \<Rightarrow> cached_search \<Rightarrow> bool) \<Rightarrow> 's mesh_server \<Rightarrow> 's mesh_server \<Rightarrow> bool"
  for renders where
  install: "server_step renders m (install_snapshot s m)"
| begin_request: "server_step renders m (pin_snapshot key m)"
| hit: "(g, s, key) \<in> set (ms_requests m) \<Longrightarrow> cache_get g key (ms_cache m) = (Some page, c) \<Longrightarrow> is_fresh stat page
    \<Longrightarrow> server_step renders m (m\<lparr>ms_cache := c, ms_served := (s, key, page) # ms_served m\<rparr>)"
| miss: "(g, s, key) \<in> set (ms_requests m) \<Longrightarrow> server_step renders m (m\<lparr>ms_cache := snd (cache_get g key (ms_cache m))\<rparr>)"
| store: "(g, s, key) \<in> set (ms_requests m) \<Longrightarrow> renders s key page
    \<Longrightarrow> server_step renders m (m\<lparr>ms_cache := cache_insert g key page (ms_cache m), ms_served := (s, key, page) # ms_served m\<rparr>)"

inductive server_reach ::
  "('s \<Rightarrow> search_cache_key \<Rightarrow> cached_search \<Rightarrow> bool) \<Rightarrow> 's \<Rightarrow> 's mesh_server \<Rightarrow> bool"
  for renders s0 where
  reach_start: "server_reach renders s0 (mesh_server_start s0)"
| reach_step: "server_reach renders s0 m \<Longrightarrow> server_step renders m m' \<Longrightarrow> server_reach renders s0 m'"

inductive_cases server_stepE: "server_step renders m m'"

section \<open>File signatures\<close>

record file_metadata =
  md_modified :: "nat option"
  md_len :: nat

record file_signature =
  fs_mtime :: nat
  fs_size :: nat
  fs_hash :: string

record differential_vfs =
  vfs_signatures :: "(path, file_signature) hmap"
  vfs_rejected :: "(path, nat \<times> nat) hmap"

definition vfs_new :: differential_vfs where
  "vfs_new = \<lparr>vfs_signatures = [], vfs_rejected = []\<rparr>"

definition stat_parts :: "file_metadata \<Rightarrow> nat \<times> nat" where
  "stat_parts md = ((case md_modified md of Some t \<Rightarrow> t | None \<Rightarrow> 0), md_len md)"

definition compute_signature :: "(string \<Rightarrow> string) \<Rightarrow> file_metadata \<Rightarrow> string \<Rightarrow> file_signature" where
  "compute_signature sha256 md content =
     \<lparr>fs_mtime = fst (stat_parts md), fs_size = snd (stat_parts md), fs_hash = sha256 content\<rparr>"

definition is_unchanged_fast :: "path \<Rightarrow> file_metadata \<Rightarrow> differential_vfs \<Rightarrow> bool" where
  "is_unchanged_fast p md v =
     (case map_of (vfs_signatures v) p of
        Some s \<Rightarrow> fs_mtime s = fst (stat_parts md) \<and> fs_size s = snd (stat_parts md)
      | None \<Rightarrow> False)"

definition note_rejected :: "path \<Rightarrow> nat \<times> nat \<Rightarrow> differential_vfs \<Rightarrow> differential_vfs" where
  "note_rejected p st v = v\<lparr>vfs_rejected := hm_insert p st (vfs_rejected v)\<rparr>"

definition retain_rejected :: "(path \<Rightarrow> bool) \<Rightarrow> differential_vfs \<Rightarrow> differential_vfs" where
  "retain_rejected keep v = v\<lparr>vfs_rejected := filter (\<lambda>(p, _). keep p) (vfs_rejected v)\<rparr>"

definition is_rejection_unchanged :: "path \<Rightarrow> file_metadata \<Rightarrow> differential_vfs \<Rightarrow> bool" where
  "is_rejection_unchanged p md v = (map_of (vfs_rejected v) p = Some (stat_parts md))"

definition upsert :: "path \<Rightarrow> file_signature \<Rightarrow> differential_vfs \<Rightarrow> bool \<times> differential_vfs" where
  "upsert p sig v =
     ((case map_of (vfs_signatures v) p of None \<Rightarrow> True | Some s \<Rightarrow> fs_hash s \<noteq> fs_hash sig),
      \<lparr>vfs_signatures = hm_insert p sig (vfs_signatures v), vfs_rejected = hm_remove p (vfs_rejected v)\<rparr>)"

definition check_and_update ::
  "(string \<Rightarrow> string) \<Rightarrow> path \<Rightarrow> file_metadata option \<Rightarrow> string \<Rightarrow> differential_vfs \<Rightarrow> bool \<times> differential_vfs" where
  "check_and_update sha256 p metadata content v =
     (case metadata of
        None \<Rightarrow> (True, v)
      | Some md \<Rightarrow>
          if is_unchanged_fast p md v then (False, v) else upsert p (compute_signature sha256 md content) v)"

definition tracked_paths :: "differential_vfs \<Rightarrow> path list" where
  "tracked_paths v = map fst (vfs_signatures v)"

definition vfs_remove :: "path \<Rightarrow> differential_vfs \<Rightarrow> bool \<times> differential_vfs" where
  "vfs_remove p v =
     (map_of (vfs_signatures v) p \<noteq> None,
      \<lparr>vfs_signatures = hm_remove p (vfs_signatures v), vfs_rejected = hm_remove p (vfs_rejected v)\<rparr>)"

definition vfs_clear :: "differential_vfs \<Rightarrow> differential_vfs" where
  "vfs_clear v = vfs_new"

section \<open>Every page is of the snapshot its request pinned\<close>

definition cache_ok :: "('s \<Rightarrow> search_cache_key \<Rightarrow> cached_search \<Rightarrow> bool) \<Rightarrow> (nat \<times> 's) list \<Rightarrow> search_cache \<Rightarrow> bool" where
  "cache_ok renders installed c \<longleftrightarrow>
     (\<forall>key page. map_of (sc_entries c) key = Some page
        \<longrightarrow> (\<exists>s. map_of installed (sc_generation c) = Some s \<and> renders s key page))
     \<and> length (sc_entries c) \<le> MAX_ENTRIES"

definition server_ok :: "('s \<Rightarrow> search_cache_key \<Rightarrow> cached_search \<Rightarrow> bool) \<Rightarrow> 's mesh_server \<Rightarrow> bool" where
  "server_ok renders m \<longleftrightarrow>
     map_of (ms_installed m) (ms_generation m) = Some (ms_snapshot m)
     \<and> (\<forall>(g, s) \<in> set (ms_installed m). g \<le> ms_generation m)
     \<and> (\<forall>(g, s, key) \<in> set (ms_requests m). map_of (ms_installed m) g = Some s)
     \<and> cache_ok renders (ms_installed m) (ms_cache m)
     \<and> sc_generation (ms_cache m) \<le> ms_generation m
     \<and> (\<forall>(s, key, page) \<in> set (ms_served m). renders s key page)"

lemma length_hm_insert: "length (hm_insert k v m) = (if map_of m k = None then Suc (length m) else length m)"
  by (induction k v m rule: hm_insert.induct) auto

lemma cache_ok_Nil: "cache_ok renders installed \<lparr>sc_generation = g, sc_entries = []\<rparr>"
  by (simp add: cache_ok_def)

lemma cache_ok_get: "cache_ok renders installed c \<Longrightarrow> cache_ok renders installed (snd (cache_get g key c))"
  by (simp add: cache_get_def cache_ok_Nil)

lemma cache_get_hit:
  "cache_ok renders installed c \<Longrightarrow> fst (cache_get g key c) = Some page
   \<Longrightarrow> \<exists>s. map_of installed g = Some s \<and> renders s key page"
  by (auto simp: cache_get_def cache_ok_def split: if_splits)

lemma cache_ok_insert_same:
  assumes "cache_ok renders installed c" and "map_of installed (sc_generation c) = Some s" and "renders s key page"
  shows "cache_ok renders installed
    (c\<lparr>sc_entries := hm_insert key page (if length (sc_entries c) \<ge> MAX_ENTRIES \<and> map_of (sc_entries c) key = None then [] else sc_entries c)\<rparr>)"
  using assms by (auto simp: cache_ok_def map_of_hm_insert length_hm_insert MAX_ENTRIES_def)

lemma cache_ok_insert:
  assumes "cache_ok renders installed c" and "map_of installed g = Some s" and "renders s key page"
  shows "cache_ok renders installed (cache_insert g key page c)"
proof -
  let ?c = "if g > sc_generation c then \<lparr>sc_generation = g, sc_entries = []\<rparr> else c"
  have "cache_ok renders installed ?c" using assms(1) by (simp add: cache_ok_Nil)
  moreover have "map_of installed (sc_generation ?c) = Some s" if "\<not> g < sc_generation c"
    using that assms(2) by auto
  ultimately show ?thesis
    using cache_ok_insert_same[of renders installed ?c s key page] assms(1,3)
    unfolding cache_insert_def Let_def by presburger
qed

lemma cache_generation_mono:
  "g \<le> n \<Longrightarrow> sc_generation c \<le> n \<Longrightarrow>
     sc_generation (snd (cache_get g key c)) \<le> n \<and> sc_generation (cache_insert g key page c) \<le> n"
  by (simp add: cache_get_def cache_insert_def Let_def)

lemma server_ok_start: "server_ok renders (mesh_server_start s)"
  by (simp add: server_ok_def mesh_server_start_def search_cache_default_def cache_ok_def)

lemma map_of_installed_fresh:
  "\<forall>(g, s) \<in> set ms. g \<le> n \<Longrightarrow> map_of ms g = Some s \<Longrightarrow> map_of ((Suc n, t) # ms) g = Some s"
  by (fastforce dest: map_of_SomeD)

lemma server_ok_install: "server_ok renders m \<Longrightarrow> server_ok renders (install_snapshot s m)"
proof -
  assume ok: "server_ok renders m"
  then have le: "\<forall>(g, s) \<in> set (ms_installed m). g \<le> ms_generation m" by (simp add: server_ok_def)
  note keep = map_of_installed_fresh[OF le]
  have "cache_ok renders ((Suc (ms_generation m), s) # ms_installed m) (ms_cache m)"
    using ok keep unfolding server_ok_def cache_ok_def by blast
  then show "server_ok renders (install_snapshot s m)"
    using ok keep unfolding server_ok_def install_snapshot_def by fastforce
qed

lemma server_ok_step: "server_step renders m m' \<Longrightarrow> server_ok renders m \<Longrightarrow> server_ok renders m'"
proof (induction rule: server_step.induct)
  case (install m s)
  then show ?case by (rule server_ok_install)
next
  case (begin_request m key)
  then show ?case by (simp add: server_ok_def pin_snapshot_def)
next
  case (hit g s key m page c stat)
  then have req: "map_of (ms_installed m) g = Some s" by (auto simp: server_ok_def)
  have "cache_ok renders (ms_installed m) (ms_cache m)" using hit(4) by (simp add: server_ok_def)
  then have "renders s key page" "cache_ok renders (ms_installed m) c"
    using cache_get_hit[of renders "ms_installed m" "ms_cache m" g key page] cache_ok_get[of renders "ms_installed m" "ms_cache m" g key]
      hit(2) req by auto
  moreover have "sc_generation c \<le> ms_generation m"
    using hit(2,4) by (auto simp: cache_get_def server_ok_def split: if_splits)
  ultimately show ?case using hit(4) by (simp add: server_ok_def)
next
  case (miss g s key m)
  then have "g \<le> ms_generation m" by (fastforce simp: server_ok_def dest: map_of_SomeD)
  with miss(2) cache_generation_mono[of g "ms_generation m" "ms_cache m" key] show ?case
    by (simp add: server_ok_def cache_ok_get)
next
  case (store g s key m page)
  then have req: "map_of (ms_installed m) g = Some s" by (auto simp: server_ok_def)
  then have "g \<le> ms_generation m" using store(3) by (fastforce simp: server_ok_def dest: map_of_SomeD)
  with store(2,3) cache_generation_mono[of g "ms_generation m" "ms_cache m"] 
      cache_ok_insert[where renders = renders and key = key and page = page, OF _ req store(2)] show ?case
    by (simp add: server_ok_def)
qed

lemma server_ok_reach: "server_reach renders s0 m \<Longrightarrow> server_ok renders m"
  by (induction rule: server_reach.induct) (simp_all add: server_ok_start server_ok_step)

text \<open>
  C30: whatever reloads and requests interleave, a page served, from the cache or computed, is a
  rendering of the very snapshot its request pinned: a page computed from an older snapshot is never
  served to a newer request nor kept after a newer generation was seen. The cache holds at most
  \<^const>\<open>MAX_ENTRIES\<close> pages and never runs ahead of the published generation.
\<close>

theorem served_from_pinned_snapshot:
  assumes "server_reach renders s0 m"
  shows "list_all (\<lambda>(s, key, page). renders s key page) (ms_served m)
    \<and> length (sc_entries (ms_cache m)) \<le> MAX_ENTRIES \<and> sc_generation (ms_cache m) \<le> ms_generation m"
  using server_ok_reach[OF assms] by (auto simp: server_ok_def cache_ok_def list_all_iff)

text \<open>A request pins snapshot 0, a reload installs snapshot 1 and a second request stores its page;
  the first request then stores a page of the old snapshot, which is served but not kept, and a third
  request hits the page of snapshot 1.\<close>

definition demo_key :: search_cache_key where
  "demo_key = \<lparr>ck_query = ''User'', ck_scope = [], ck_raw_scope = ''.'', ck_include_body = False, ck_fuzzy = False,
     ck_include_tests = False, ck_limit = 5, ck_offset = 0\<rparr>"

definition demo_page :: "nat \<Rightarrow> cached_search" where
  "demo_page s = \<lparr>cs_text = (if s = 0 then ''old'' else ''new''), cs_files_accessed = [], cs_file_stamps = []\<rparr>"

definition demo_pinned :: "nat mesh_server" where
  "demo_pinned = pin_snapshot demo_key (install_snapshot 1 (pin_snapshot demo_key (mesh_server_start 0)))"

definition demo_stored :: "nat mesh_server" where
  "demo_stored = demo_pinned\<lparr>ms_cache := cache_insert 1 demo_key (demo_page 1) (ms_cache demo_pinned),
     ms_served := (1, demo_key, demo_page 1) # ms_served demo_pinned\<rparr>"

definition demo_raced :: "nat mesh_server" where
  "demo_raced = demo_stored\<lparr>ms_cache := cache_insert 0 demo_key (demo_page 0) (ms_cache demo_stored),
     ms_served := (0, demo_key, demo_page 0) # ms_served demo_stored\<rparr>"

definition demo_hit :: "nat mesh_server" where
  "demo_hit = demo_raced\<lparr>ms_cache := snd (cache_get 1 demo_key (ms_cache demo_raced)),
     ms_served := (1, demo_key, demo_page 1) # ms_served demo_raced\<rparr>"

theorem served_from_pinned_snapshot_witness:
  "map (\<lambda>(s, _, page). (s, cs_text page)) (ms_served demo_hit) = [(1, ''new''), (0, ''old''), (1, ''new'')]
   \<and> list_all (\<lambda>(s, key, page). page = demo_page s) (ms_served demo_hit)"
proof -
  let ?R = "\<lambda>s (_ :: search_cache_key) page. page = demo_page s"
  have r0: "server_reach ?R 0 demo_pinned"
    unfolding demo_pinned_def by (intro reach_step[OF _ begin_request] reach_step[OF _ install] reach_start)
  have r1: "server_reach ?R 0 demo_stored"
    unfolding demo_stored_def by (rule reach_step[OF r0 store[where s = 1]]) (code_simp, simp)
  have r2: "server_reach ?R 0 demo_raced"
    unfolding demo_raced_def by (rule reach_step[OF r1 store[where s = 0]]) (code_simp, simp)
  have r3: "server_reach ?R 0 demo_hit"
    unfolding demo_hit_def
    by (rule reach_step[OF r2 hit[where g = 1 and s = 1 and stat = "\<lambda>_. None"]]) (code_simp, code_simp, code_simp)
  have t: "map (\<lambda>(s, _, page). (s, cs_text page)) (ms_served demo_hit) = [(1, ''new''), (0, ''old''), (1, ''new'')]" by code_simp
  show ?thesis using t served_from_pinned_snapshot[OF r3] by simp
qed

section \<open>What a differential reload reads again\<close>

text \<open>
  Once a file is recorded, a reload reports it changed exactly when its digest differs and its
  modification time or size moved; a touch that leaves the content alone reports nothing but is
  remembered, and checking again with the same stat reports nothing.
\<close>

theorem vfs_reports_changes:
  assumes "snd (check_and_update sha256 p (Some md) old v) = w" and "\<not> is_unchanged_fast p md v"
  shows "(fst (check_and_update sha256 p (Some md') new w) \<longleftrightarrow> sha256 new \<noteq> sha256 old \<and> stat_parts md' \<noteq> stat_parts md)
    \<and> is_unchanged_fast p md' (snd (check_and_update sha256 p (Some md') new w))
    \<and> \<not> fst (check_and_update sha256 p (Some md') newer (snd (check_and_update sha256 p (Some md') new w)))
    \<and> \<not> is_rejection_unchanged p md' w"
proof -
  have w: "map_of (vfs_signatures w) p = Some (compute_signature sha256 md old)" "map_of (vfs_rejected w) p = None"
    using assms by (auto simp: check_and_update_def upsert_def map_of_hm_insert hm_remove_def map_of_eq_None_iff)
  have "fst (check_and_update sha256 p (Some md') new w) \<longleftrightarrow> sha256 new \<noteq> sha256 old \<and> stat_parts md' \<noteq> stat_parts md"
    using w by (auto simp: check_and_update_def upsert_def is_unchanged_fast_def compute_signature_def prod_eq_iff)
  moreover have seen: "is_unchanged_fast p md' (snd (check_and_update sha256 p (Some md') new w))"
    using w by (auto simp: check_and_update_def upsert_def is_unchanged_fast_def compute_signature_def map_of_hm_insert)
  moreover from seen have "\<not> fst (check_and_update sha256 p (Some md') newer (snd (check_and_update sha256 p (Some md') new w)))"
    by (simp add: check_and_update_def)
  moreover have "\<not> is_rejection_unchanged p md' w" using w(2) by (simp add: is_rejection_unchanged_def)
  ultimately show ?thesis by blast
qed

theorem vfs_reports_changes_witness:
  "fst (check_and_update id [Normal ''a.ts''] (Some \<lparr>md_modified = Some 9, md_len = 2\<rparr>) ''v2''
     (snd (check_and_update id [Normal ''a.ts''] (Some \<lparr>md_modified = Some 7, md_len = 2\<rparr>) ''v1'' vfs_new)))
   \<and> \<not> fst (check_and_update id [Normal ''a.ts''] (Some \<lparr>md_modified = Some 9, md_len = 2\<rparr>) ''v1''
     (snd (check_and_update id [Normal ''a.ts''] (Some \<lparr>md_modified = Some 7, md_len = 2\<rparr>) ''v1'' vfs_new)))"
proof -
  have n: "\<not> is_unchanged_fast [Normal ''a.ts''] \<lparr>md_modified = Some 7, md_len = 2\<rparr> vfs_new"
    by (simp add: is_unchanged_fast_def vfs_new_def)
  show ?thesis
    using vfs_reports_changes[of id "[Normal ''a.ts'']" "\<lparr>md_modified = Some 7, md_len = 2\<rparr>" "''v1''" vfs_new _
        "\<lparr>md_modified = Some 9, md_len = 2\<rparr>", OF refl n]
    by (simp add: stat_parts_def)
qed

end
