(* ===== verification/Idle_Watchdog.thy ===== *)
theory Idle_Watchdog
  imports Mesh_Prelude "HOL-Library.Word"
begin

text \<open>
  The idle watchdog of the daemon, \<^verbatim>\<open>crates/mesh-daemon/src/idle.rs\<close>: a shared counter of connected
  clients and a task that polls it and cancels the daemon. Instants and durations are natural numbers
  of one clock; an elapsed time is a difference that is zero before its start, as
  \<^verbatim>\<open>Instant::elapsed\<close> saturates. The counter is a 64-bit word, as \<^verbatim>\<open>AtomicUsize\<close> wraps.
\<close>

section \<open>The counter and the watchdog\<close>

type_synonym client_counter = "64 word"

definition counter_new :: client_counter where
  "counter_new = 0"

definition counter_increment :: "client_counter \<Rightarrow> client_counter" where
  "counter_increment c = c + 1"

definition counter_decrement :: "client_counter \<Rightarrow> client_counter" where
  "counter_decrement c = c - 1"

record watchdog_config =
  wc_idle_timeout :: nat
  wc_startup_grace :: nat

record watchdog =
  wd_started_at :: nat
  wd_ever_had_client :: bool
  wd_idle_since :: "nat option"
  wd_cancelled :: bool

definition watchdog_start :: "nat \<Rightarrow> watchdog" where
  "watchdog_start now = \<lparr>wd_started_at = now, wd_ever_had_client = False, wd_idle_since = None, wd_cancelled = False\<rparr>"

text \<open>One pass of the loop, after its sleep. A cancelled watchdog has left the loop.\<close>

definition watchdog_poll :: "watchdog_config \<Rightarrow> nat \<Rightarrow> client_counter \<Rightarrow> watchdog \<Rightarrow> watchdog" where
  "watchdog_poll cfg now active w =
     (if wd_cancelled w then w
      else if active > 0 then w\<lparr>wd_ever_had_client := True, wd_idle_since := None\<rparr>
      else if wd_ever_had_client w then
        (let since = (case wd_idle_since w of Some t \<Rightarrow> t | None \<Rightarrow> now) in
         w\<lparr>wd_idle_since := Some since, wd_cancelled := (now - since \<ge> wc_idle_timeout cfg)\<rparr>)
      else w\<lparr>wd_cancelled := (now - wd_started_at w \<ge> wc_startup_grace cfg)\<rparr>)"

section \<open>The daemon\<close>

datatype daemon_event = Connect | Disconnect | Poll nat

record daemon =
  d_clients :: client_counter
  d_watchdog :: watchdog

definition daemon_start :: "nat \<Rightarrow> daemon" where
  "daemon_start now = \<lparr>d_clients = counter_new, d_watchdog = watchdog_start now\<rparr>"

fun daemon_step :: "watchdog_config \<Rightarrow> daemon_event \<Rightarrow> daemon \<Rightarrow> daemon" where
  "daemon_step cfg Connect d = d\<lparr>d_clients := counter_increment (d_clients d)\<rparr>"
| "daemon_step cfg Disconnect d = d\<lparr>d_clients := counter_decrement (d_clients d)\<rparr>"
| "daemon_step cfg (Poll now) d = d\<lparr>d_watchdog := watchdog_poll cfg now (d_clients d) (d_watchdog d)\<rparr>"

section \<open>What a sequence of polls leads to\<close>

text \<open>The polls as the watchdog sees them: the time and the count read.\<close>

type_synonym polls = "(nat \<times> client_counter) list"

definition run_polls :: "watchdog_config \<Rightarrow> polls \<Rightarrow> watchdog \<Rightarrow> watchdog" where
  "run_polls cfg ps w = fold (\<lambda>(now, active). watchdog_poll cfg now active) ps w"

definition saw_client :: "polls \<Rightarrow> bool" where
  "saw_client ps \<longleftrightarrow> list_ex (\<lambda>(_, n). n > 0) ps"

text \<open>The time of the first of the polls at the end that found no client.\<close>

definition idle_start :: "polls \<Rightarrow> nat option" where
  "idle_start ps = (case takeWhile (\<lambda>(_, n). n = 0) (rev ps) of [] \<Rightarrow> None | zs \<Rightarrow> Some (fst (last zs)))"

definition due :: "watchdog_config \<Rightarrow> nat \<Rightarrow> polls \<Rightarrow> bool" where
  "due cfg started ps \<longleftrightarrow>
     (case idle_start ps of
        None \<Rightarrow> False
      | Some since \<Rightarrow>
          if saw_client ps then fst (last ps) - since \<ge> wc_idle_timeout cfg
          else fst (last ps) - started \<ge> wc_startup_grace cfg)"

lemma idle_start_snoc:
  "idle_start (ps @ [(t, n)]) = (if n = 0 then Some (case idle_start ps of Some s \<Rightarrow> s | None \<Rightarrow> t) else None)"
  by (auto simp: idle_start_def split: list.splits)

lemma saw_client_snoc [simp]: "saw_client (ps @ [(t, n)]) \<longleftrightarrow> saw_client ps \<or> n > 0"
  by (simp add: saw_client_def)

lemma run_polls_snoc: "run_polls cfg (ps @ [(t, n)]) w = watchdog_poll cfg t n (run_polls cfg ps w)"
  by (simp add: run_polls_def)

text \<open>Until it is due, the watchdog remembers exactly whether a client was seen and since when there
  is none.\<close>

lemma watchdog_state:
  assumes "\<not> wd_cancelled (run_polls cfg ps (watchdog_start s))"
  shows "run_polls cfg ps (watchdog_start s) =
    \<lparr>wd_started_at = s, wd_ever_had_client = saw_client ps,
     wd_idle_since = (if saw_client ps then idle_start ps else None), wd_cancelled = False\<rparr>"
  using assms
proof (induction ps rule: rev_induct)
  case Nil
  then show ?case by (simp add: run_polls_def watchdog_start_def saw_client_def)
next
  case (snoc p ps)
  obtain t n where p: "p = (t, n)" by (cases p)
  let ?w = "run_polls cfg ps (watchdog_start s)"
  have "\<not> wd_cancelled ?w" using snoc.prems by (auto simp: p run_polls_snoc watchdog_poll_def)
  with snoc.IH have w: "?w = \<lparr>wd_started_at = s, wd_ever_had_client = saw_client ps,
     wd_idle_since = (if saw_client ps then idle_start ps else None), wd_cancelled = False\<rparr>" by blast
  show ?case using snoc.prems unfolding p run_polls_snoc w
    by (auto simp: watchdog_poll_def idle_start_snoc Let_def word_greater_zero_iff split: option.splits if_splits)
qed

lemma cancelled_snoc:
  "wd_cancelled (run_polls cfg (ps @ [(t, n)]) (watchdog_start s)) \<longleftrightarrow>
     wd_cancelled (run_polls cfg ps (watchdog_start s)) \<or> due cfg s (ps @ [(t, n)])"
proof (cases "wd_cancelled (run_polls cfg ps (watchdog_start s))")
  case True
  then show ?thesis by (simp add: run_polls_snoc watchdog_poll_def)
next
  case False
  have "wd_cancelled (watchdog_poll cfg t n \<lparr>wd_started_at = s, wd_ever_had_client = saw_client ps,
     wd_idle_since = (if saw_client ps then idle_start ps else None), wd_cancelled = False\<rparr>) \<longleftrightarrow> due cfg s (ps @ [(t, n)])"
    by (auto simp: watchdog_poll_def due_def idle_start_snoc Let_def word_greater_zero_iff split: option.splits if_splits)
  with False show ?thesis by (simp add: run_polls_snoc watchdog_state[OF False])
qed

lemma cancelled_iff:
  "wd_cancelled (run_polls cfg ps (watchdog_start s)) \<longleftrightarrow> (\<exists>qs. prefix qs ps \<and> due cfg s qs)"
proof (induction ps rule: rev_induct)
  case Nil
  then show ?case by (simp add: run_polls_def watchdog_start_def due_def idle_start_def)
next
  case (snoc p ps)
  obtain t n where p: "p = (t, n)" by (cases p)
  show ?case unfolding p cancelled_snoc snoc by auto
qed

text \<open>
  The watchdog cancels the daemon exactly at the first poll that finds no client and is due: when
  some earlier poll saw a client, the polls have found none for the idle timeout; when none ever did,
  the startup grace has passed. A poll that finds a client never cancels.
\<close>

theorem watchdog_cancels_iff:
  "(wd_cancelled (run_polls cfg ps (watchdog_start s)) \<longleftrightarrow> (\<exists>qs. prefix qs ps \<and> due cfg s qs))
   \<and> (n > 0 \<and> wd_cancelled (run_polls cfg (ps @ [(t, n)]) (watchdog_start s))
      \<longleftrightarrow> n > 0 \<and> wd_cancelled (run_polls cfg ps (watchdog_start s)))"
proof -
  have "\<not> due cfg s (ps @ [(t, n)])" if "n > 0" using that by (cases "n = 0") (auto simp: due_def idle_start_snoc)
  then show ?thesis using cancelled_iff[of cfg ps s] cancelled_snoc[of cfg ps t n s] by blast
qed

text \<open>
  C39: a daemon without clients stops. If from some moment every poll finds no client, the daemon is
  cancelled no later than the first poll by which the idle timeout has passed since that moment and the
  startup grace since the start.
\<close>

theorem idle_daemon_stops:
  assumes "sorted (map fst (before @ (t0, 0) # zeros @ [(t, 0)]))" and "list_all (\<lambda>(_, n). n = 0) zeros"
    and "t0 + wc_idle_timeout cfg \<le> t" and "s + wc_startup_grace cfg \<le> t"
  shows "wd_cancelled (run_polls cfg (before @ (t0, 0) # zeros @ [(t, 0)]) (watchdog_start s))"
proof -
  let ?ps = "before @ (t0, 0) # zeros @ [(t, 0)]"
  let ?zs = "takeWhile (\<lambda>(_, n). n = 0) (rev before)"
  have rev: "rev ?ps = ((t, 0) # rev zeros @ [(t0, 0)]) @ rev before" by simp
  have tw: "takeWhile (\<lambda>(_, n). n = 0) (rev ?ps) = ((t, 0) # rev zeros @ [(t0, 0)]) @ ?zs"
    unfolding rev by (rule takeWhile_append2) (use assms(2) in \<open>auto simp: list_all_iff\<close>)
  define since where "since = fst (last (((t, 0) # rev zeros @ [(t0, 0 :: client_counter)]) @ ?zs))"
  have "idle_start ?ps = Some since" unfolding idle_start_def tw since_def by simp
  moreover have "since \<le> t0"
  proof (cases "?zs = []")
    case True
    then show ?thesis by (simp add: since_def)
  next
    case False
    then have "last ?zs \<in> set before" using set_takeWhileD[of "last ?zs" _ "rev before"] last_in_set by fastforce
    with False assms(1) show ?thesis by (auto simp: since_def sorted_append)
  qed
  ultimately have "due cfg s ?ps" using assms(3,4) by (auto simp: due_def)
  then show ?thesis unfolding cancelled_iff by blast
qed

theorem idle_daemon_stops_witness:
  "wd_cancelled (run_polls \<lparr>wc_idle_timeout = 4, wc_startup_grace = 3\<rparr> ([(1, 2)] @ (2, 0) # [(4, 0)] @ [(6, 0)]) (watchdog_start 0))"
proof -
  have a: "sorted (map fst ([(1, 2 :: client_counter)] @ (2, 0) # [(4, 0)] @ [(6, 0)]) :: nat list)" by simp
  have b: "list_all (\<lambda>(_, n). n = 0) [(4 :: nat, 0 :: client_counter)]" by simp
  have c: "2 + wc_idle_timeout \<lparr>wc_idle_timeout = 4, wc_startup_grace = 3\<rparr> \<le> 6"
    "0 + wc_startup_grace \<lparr>wc_idle_timeout = 4, wc_startup_grace = 3\<rparr> \<le> 6" by simp_all
  show ?thesis by (rule idle_daemon_stops[OF a b c])
qed

section \<open>Sessions between two polls\<close>

text \<open>
  The watchdog samples the counter, so a session that starts and ends between two polls is never
  seen, even at the wrap-around of the counter: the daemon behaves as if it had not been. A daemon that
  served such sessions only is taken for an orphan and cancelled when the startup grace ends.
\<close>

theorem session_between_polls_unseen:
  "fold (daemon_step cfg) (es @ [Connect, Disconnect] @ fs) d = fold (daemon_step cfg) (es @ fs) d
   \<and> wd_cancelled (d_watchdog (fold (daemon_step \<lparr>wc_idle_timeout = 100, wc_startup_grace = 30\<rparr>)
       [Poll 10, Connect, Disconnect, Poll 20, Connect, Disconnect, Poll 30] (daemon_start 0)))"
proof
  show "fold (daemon_step cfg) (es @ [Connect, Disconnect] @ fs) d = fold (daemon_step cfg) (es @ fs) d"
    by (simp add: counter_increment_def counter_decrement_def)
  show "wd_cancelled (d_watchdog (fold (daemon_step \<lparr>wc_idle_timeout = 100, wc_startup_grace = 30\<rparr>)
       [Poll 10, Connect, Disconnect, Poll 20, Connect, Disconnect, Poll 30] (daemon_start 0)))"
    by (simp add: counter_increment_def counter_decrement_def daemon_start_def counter_new_def watchdog_start_def watchdog_poll_def)
qed

end
