(* ===== verification/Path_Jail.thy ===== *)
theory Path_Jail
  imports Mesh_Types
begin

text \<open>
  The workspace roots and the path jail: \<^verbatim>\<open>expand_roots\<close> of \<^verbatim>\<open>crates/mesh-core/src/config.rs\<close>,
  \<^verbatim>\<open>ValidatedScope\<close> of \<^verbatim>\<open>crates/mesh-core/src/security.rs\<close> and the degenerate root guard of
  \<^verbatim>\<open>crates/mesh-core/src/root_guard.rs\<close>. The file system and the libraries are parameters, in a
  record: expansion of environment variables, globbing, canonicalization, Unicode normalization and
  lexical cleaning. The Linux branch of every platform switch is the one modelled.
\<close>

record world =
  w_expand :: "(string \<rightharpoonup> string) \<Rightarrow> string \<Rightarrow> string option"
  w_env :: "string \<rightharpoonup> string"
  w_glob :: "string \<Rightarrow> (string + path) list option"
  w_is_dir :: "path \<Rightarrow> bool"
  w_exists :: "path \<Rightarrow> bool"
  w_canonicalize :: "path \<Rightarrow> path option"
  w_is_symlink :: "path \<Rightarrow> bool option"
  w_nfc :: "string \<Rightarrow> string"
  w_clean :: "path \<Rightarrow> path"

section \<open>Workspace roots\<close>

datatype config_error =
    ParseError
  | IoError path
  | EnvExpansionFailed
  | GlobPatternError string
  | GlobPathError string
  | InvalidRootPath path
  | ProhibitedRootConfigured string
  | NoValidRootsConfigured

definition PROHIBITED_ROOTS :: "string list" where
  "PROHIBITED_ROOTS =
     [''/'', ''/etc'', ''/var'', ''/tmp'', ''/Users'', ''/home'', ''/root'', ''C:'' @ [CHR 0x5C], ''C:'' @ [CHR 0x5C] @ ''Windows'',
      ''C:'' @ [CHR 0x5C] @ ''Users'', ''C:'' @ [CHR 0x5C] @ ''Program Files'']"

definition validate_not_prohibited :: "path \<Rightarrow> config_error + unit" where
  "validate_not_prohibited p =
     (if path_str p \<in> set PROHIBITED_ROOTS then Inl (ProhibitedRootConfigured (path_str p)) else Inr ())"

text \<open>Canonicalizing one directory and adding it, unless it is there already.\<close>

definition push_root :: "world \<Rightarrow> path \<Rightarrow> path list \<Rightarrow> config_error + path list" where
  "push_root w p resolved =
     (case w_canonicalize w p of
        None \<Rightarrow> Inl (InvalidRootPath p)
      | Some canonical \<Rightarrow>
          (case validate_not_prohibited canonical of
             Inl e \<Rightarrow> Inl e
           | Inr _ \<Rightarrow> Inr (if canonical \<in> set resolved then resolved else resolved @ [canonical])))"

fun push_globbed :: "world \<Rightarrow> (string + path) list \<Rightarrow> path list \<Rightarrow> config_error + path list" where
  "push_globbed w [] resolved = Inr resolved"
| "push_globbed w (Inl e # es) resolved = Inl (GlobPathError e)"
| "push_globbed w (Inr p # es) resolved =
     (if w_is_dir w p then
        (case push_root w p resolved of Inl e \<Rightarrow> Inl e | Inr resolved' \<Rightarrow> push_globbed w es resolved')
      else push_globbed w es resolved)"

text \<open>\<^verbatim>\<open>base_dir.join(expanded)\<close> as a string, with the separator put between the two.\<close>

definition root_pattern :: "path \<Rightarrow> string \<Rightarrow> string" where
  "root_pattern base_dir expanded =
     (if \<not> is_relative (path_of_str expanded) \<or> base_dir = [] then expanded
      else if last (path_str base_dir) = CHR ''/'' then path_str base_dir @ expanded
      else path_str base_dir @ ''/'' @ expanded)"

definition add_root :: "world \<Rightarrow> path \<Rightarrow> string \<Rightarrow> path list \<Rightarrow> config_error + path list" where
  "add_root w base_dir expanded resolved =
     (let pattern = root_pattern base_dir expanded in
      if CHR ''*'' \<in> set pattern \<or> CHR ''?'' \<in> set pattern then
        (case w_glob w pattern of
           None \<Rightarrow> Inl (GlobPatternError pattern)
         | Some entries \<Rightarrow> push_globbed w entries resolved)
      else
        (let p = path_of_str pattern in
         if w_exists w p \<and> w_is_dir w p then push_root w p resolved else Inr resolved))"

fun add_roots :: "world \<Rightarrow> path \<Rightarrow> string \<Rightarrow> string list \<Rightarrow> path list \<Rightarrow> config_error + path list" where
  "add_roots w base_dir workspace_root [] resolved = Inr resolved"
| "add_roots w base_dir workspace_root (raw # raws) resolved =
     (case w_expand w ((w_env w)(''workspace_root'' \<mapsto> workspace_root)) raw of
        None \<Rightarrow> Inl EnvExpansionFailed
      | Some expanded \<Rightarrow>
          (case add_root w base_dir expanded resolved of
             Inl e \<Rightarrow> Inl e
           | Inr resolved' \<Rightarrow> add_roots w base_dir workspace_root raws resolved'))"

definition expand_roots :: "world \<Rightarrow> string list \<Rightarrow> path \<Rightarrow> string \<Rightarrow> config_error + path list" where
  "expand_roots w raw_roots base_dir workspace_root =
     (case w_expand w (w_env w) workspace_root of
        None \<Rightarrow> Inl EnvExpansionFailed
      | Some resolved_workspace_root \<Rightarrow>
          (case add_roots w base_dir resolved_workspace_root raw_roots [] of
             Inl e \<Rightarrow> Inl e
           | Inr resolved \<Rightarrow> if resolved = [] then Inl NoValidRootsConfigured else Inr resolved))"

text \<open>\<^verbatim>\<open>Config::resolve_workspace_root\<close>: the new value of \<^verbatim>\<open>resolved_workspace_root\<close>.\<close>

definition resolve_workspace_root :: "world \<Rightarrow> path \<Rightarrow> string \<Rightarrow> path option \<Rightarrow> path option" where
  "resolve_workspace_root w base_dir raw old =
     (case w_expand w (w_env w) raw of
        None \<Rightarrow> old
      | Some expanded \<Rightarrow>
          (let p = path_of_str expanded; joined = (if is_relative p then path_join base_dir p else p) in
           case w_canonicalize w joined of Some root \<Rightarrow> Some root | None \<Rightarrow> old))"

definition resolve_skill_paths :: "world \<Rightarrow> path \<Rightarrow> (string \<times> string) list option \<Rightarrow> (string \<times> string) list option" where
  "resolve_skill_paths w base_dir =
     map_option (map (\<lambda>(skill, s).
       let p = path_of_str s; joined = path_join base_dir p in
       if \<not> is_relative p \<or> w_exists w p then (skill, s)
       else if w_exists w joined then (skill, root_pattern base_dir s)
       else (skill, s)))"

definition strip_workspace_root_prefix :: "string \<Rightarrow> string" where
  "strip_workspace_root_prefix pattern =
     (let pat = trim pattern in
      if str_contains pat ''${workspace_root}'' \<or> str_contains pat ''${WORKSPACE_ROOT}''
      then replace_str ''${WORKSPACE_ROOT}'' [] (replace_str ''${WORKSPACE_ROOT}/'' []
             (replace_str ''${workspace_root}'' [] (replace_str ''${workspace_root}/'' [] pat)))
      else pat)"

section \<open>The jail\<close>

datatype security_error =
    SandboxEscapeAttempt path
  | PathNotFound path
  | BrokenSymlink path
  | ProhibitedRoot path
  | NormalizationFailed string string

definition jsonrpc_code :: "security_error \<Rightarrow> int" where
  "jsonrpc_code e = - 32602"

definition to_nfc_path :: "world \<Rightarrow> path \<Rightarrow> path" where
  "to_nfc_path w p = path_of_str (w_nfc w (path_str p))"

text \<open>The mount aliases in the iteration order of the hash map; the first that applies wins.\<close>

fun translate_scope :: "world \<Rightarrow> (string \<times> string) list \<Rightarrow> string \<Rightarrow> string" where
  "translate_scope w [] s = s"
| "translate_scope w ((alias, target) # aliases) s =
     (if s = w_nfc w alias then w_nfc w target
      else if starts_with s (w_nfc w alias @ ''/'') then w_nfc w target @ drop (length (w_nfc w alias)) s
      else translate_scope w aliases s)"

definition canonical_scope :: "world \<Rightarrow> path option \<Rightarrow> string \<Rightarrow> security_error + path" where
  "canonical_scope w anchor s =
     (let plain = w_clean w (path_of_str s);
          or_missing = (\<lambda>c missing. case c of Some p \<Rightarrow> Inr p | None \<Rightarrow> Inl (PathNotFound missing)) in
      case anchor of
        Some root \<Rightarrow>
          if is_relative (path_of_str s) then
            (let anchored = w_clean w (path_join root (path_of_str s)) in
             case w_canonicalize w anchored of
               Some c \<Rightarrow> Inr c
             | None \<Rightarrow> or_missing (w_canonicalize w plain) anchored)
          else or_missing (w_canonicalize w plain) plain
      | None \<Rightarrow> or_missing (w_canonicalize w plain) plain)"

definition is_jailed :: "world \<Rightarrow> path list \<Rightarrow> path \<Rightarrow> bool" where
  "is_jailed w allowed_roots canonical =
     list_ex (\<lambda>root. path_starts_with (to_nfc_path w canonical) (to_nfc_path w root)) allowed_roots"

definition resolve_with_aliases ::
  "world \<Rightarrow> string \<Rightarrow> path list \<Rightarrow> (string \<times> string) list \<Rightarrow> path option \<Rightarrow> security_error + path" where
  "resolve_with_aliases w raw_scope allowed_roots mount_aliases anchor =
     (case canonical_scope w anchor (translate_scope w mount_aliases (w_nfc w raw_scope)) of
        Inl e \<Rightarrow> Inl e
      | Inr canonical \<Rightarrow>
          if is_jailed w allowed_roots canonical then Inr canonical else Inl (SandboxEscapeAttempt canonical))"

definition resolve_scope :: "world \<Rightarrow> string \<Rightarrow> path list \<Rightarrow> security_error + path" where
  "resolve_scope w raw_scope allowed_roots = resolve_with_aliases w raw_scope allowed_roots [] None"

definition validate_file_access :: "world \<Rightarrow> path \<Rightarrow> path list \<Rightarrow> security_error + path" where
  "validate_file_access w file_path allowed_roots =
     (case w_is_symlink w file_path of
        None \<Rightarrow> Inl (PathNotFound file_path)
      | Some symlink \<Rightarrow>
          (case w_canonicalize w file_path of
             None \<Rightarrow> Inl (if symlink then BrokenSymlink file_path else PathNotFound file_path)
           | Some canonical \<Rightarrow>
               (case resolve_scope w (path_str canonical) allowed_roots of
                  Inl e \<Rightarrow> Inl e
                | Inr _ \<Rightarrow> Inr canonical)))"

section \<open>Degenerate roots\<close>

datatype degenerate_kind = FilesystemRoot | DriveRoot | Home

record degenerate_root_error =
  dre_dir :: path
  dre_kind :: degenerate_kind

definition home_dir_with :: "(string \<rightharpoonup> string) \<Rightarrow> path option \<Rightarrow> path option" where
  "home_dir_with env os_home =
     (case find (\<lambda>v. v \<noteq> []) (List.map_filter env [''HOME'', ''USERPROFILE'']) of
        Some v \<Rightarrow> Some (path_of_str v)
      | None \<Rightarrow> os_home)"

definition canonical_or_self :: "world \<Rightarrow> path \<Rightarrow> path" where
  "canonical_or_self w p = (case w_canonicalize w p of Some c \<Rightarrow> c | None \<Rightarrow> p)"

definition is_bare_root :: "path \<Rightarrow> bool" where
  "is_bare_root p \<longleftrightarrow> p \<noteq> [] \<and> list_all (\<lambda>c. c = RootDir) p"

definition classify_workspace_root :: "world \<Rightarrow> path \<Rightarrow> path option \<Rightarrow> degenerate_kind option" where
  "classify_workspace_root w dir0 home0 =
     (let dir = canonical_or_self w dir0 in
      if is_bare_root dir then Some (if CHR '':'' \<in> set (path_str dir) then DriveRoot else FilesystemRoot)
      else case home0 of
        None \<Rightarrow> None
      | Some h \<Rightarrow>
          (let home = canonical_or_self w h in
           if is_bare_root home then None else if dir = home then Some Home else None))"

definition guard_workspace_root :: "world \<Rightarrow> path \<Rightarrow> bool \<Rightarrow> path option \<Rightarrow> degenerate_root_error + unit" where
  "guard_workspace_root w base_dir config_pins_roots home =
     (if config_pins_roots then Inr ()
      else case classify_workspace_root w base_dir home of
        None \<Rightarrow> Inr ()
      | Some kind \<Rightarrow> Inl \<lparr> dre_dir = canonical_or_self w base_dir, dre_kind = kind \<rparr>)"

section \<open>What the root expansion returns\<close>

text \<open>What every root added so far satisfies: it is the canonical form of a directory, and allowed.\<close>

definition is_root :: "world \<Rightarrow> path \<Rightarrow> bool" where
  "is_root w r \<longleftrightarrow> path_str r \<notin> set PROHIBITED_ROOTS \<and> (\<exists>p. w_is_dir w p \<and> w_canonicalize w p = Some r)"

definition roots_ok :: "world \<Rightarrow> path list \<Rightarrow> bool" where
  "roots_ok w roots \<longleftrightarrow> distinct roots \<and> list_all (is_root w) roots"

lemma push_root_ok:
  assumes "push_root w p roots = Inr roots'" and "w_is_dir w p" and "roots_ok w roots"
  shows "roots_ok w roots'" and "set roots \<subseteq> set roots'" and "\<exists>r \<in> set roots'. w_canonicalize w p = Some r"
  using assms
  by (auto simp: push_root_def validate_not_prohibited_def roots_ok_def is_root_def list_all_iff
      split: option.splits sum.splits if_splits)

lemma push_globbed_ok:
  "push_globbed w es roots = Inr roots' \<Longrightarrow> roots_ok w roots \<Longrightarrow> roots_ok w roots' \<and> set roots \<subseteq> set roots'"
proof (induction w es roots rule: push_globbed.induct)
  case (3 w p es roots)
  show ?case
  proof (cases "w_is_dir w p")
    case True
    with "3.prems" obtain mid where mid: "push_root w p roots = Inr mid" and "push_globbed w es mid = Inr roots'"
      by (auto split: sum.splits)
    with True "3.IH"(1) [OF True, of mid] push_root_ok [OF mid True] "3.prems"(2) show ?thesis
      by blast
  next
    case False
    with 3 show ?thesis
      by simp
  qed
qed simp_all

lemma add_root_ok:
  assumes "add_root w base expanded roots = Inr roots'" and "roots_ok w roots"
  shows "roots_ok w roots' \<and> set roots \<subseteq> set roots'"
  using assms push_globbed_ok push_root_ok
  by (fastforce simp: add_root_def Let_def split: option.splits if_splits)

definition literal_root :: "world \<Rightarrow> path \<Rightarrow> string \<Rightarrow> bool" where
  "literal_root w base expanded \<longleftrightarrow>
     (let pattern = root_pattern base expanded in
      CHR ''*'' \<notin> set pattern \<and> CHR ''?'' \<notin> set pattern \<and>
      w_exists w (path_of_str pattern) \<and> w_is_dir w (path_of_str pattern))"

lemma add_root_literal:
  assumes "add_root w base expanded roots = Inr roots'" and "roots_ok w roots" and "literal_root w base expanded"
  shows "\<exists>r \<in> set roots'. w_canonicalize w (path_of_str (root_pattern base expanded)) = Some r"
  using assms push_root_ok(3) by (auto simp: add_root_def literal_root_def Let_def)

lemma add_roots_ConsE:
  assumes "add_roots w base wr (r # rs) roots = Inr roots'"
  obtains e mid where "w_expand w ((w_env w)(''workspace_root'' \<mapsto> wr)) r = Some e"
    and "add_root w base e roots = Inr mid" and "add_roots w base wr rs mid = Inr roots'"
  using assms by (auto split: option.splits sum.splits)

lemma add_roots_ok:
  "add_roots w base wr raws roots = Inr roots' \<Longrightarrow> roots_ok w roots \<Longrightarrow> roots_ok w roots' \<and> set roots \<subseteq> set roots'"
proof (induction raws arbitrary: roots)
  case (Cons r rs)
  from Cons.prems(1) show ?case
  proof (rule add_roots_ConsE)
    fix e mid
    assume "add_root w base e roots = Inr mid" and "add_roots w base wr rs mid = Inr roots'"
    with Cons.IH Cons.prems(2) show ?thesis
      using add_root_ok by (meson order_trans)
  qed
qed simp

lemma add_roots_literal:
  "add_roots w base wr raws roots = Inr roots' \<Longrightarrow> roots_ok w roots \<Longrightarrow> raw \<in> set raws \<Longrightarrow>
   w_expand w ((w_env w)(''workspace_root'' \<mapsto> wr)) raw = Some expanded \<Longrightarrow> literal_root w base expanded \<Longrightarrow>
   \<exists>r \<in> set roots'. w_canonicalize w (path_of_str (root_pattern base expanded)) = Some r"
proof (induction raws arbitrary: roots)
  case (Cons r rs)
  from Cons.prems(1) show ?case
  proof (rule add_roots_ConsE)
    fix e mid
    assume e: "w_expand w ((w_env w)(''workspace_root'' \<mapsto> wr)) r = Some e"
      and mid: "add_root w base e roots = Inr mid" and rest: "add_roots w base wr rs mid = Inr roots'"
    have ok: "roots_ok w mid"
      using add_root_ok [OF mid] Cons.prems(2) by blast
    show ?thesis
    proof (cases "raw = r")
      case True
      then have "e = expanded"
        using e Cons.prems(4) by (simp del: fun_upd_apply)
      with add_root_literal [OF mid] Cons.prems add_roots_ok [OF rest ok] show ?thesis
        by blast
    next
      case False
      with Cons.IH [OF rest ok] Cons.prems show ?thesis
        by simp
    qed
  qed
qed simp

lemma expand_rootsE:
  assumes "expand_roots w raws base wr = Inr roots"
  obtains wr' where "w_expand w (w_env w) wr = Some wr'" and "add_roots w base wr' raws [] = Inr roots" and "roots \<noteq> []"
  using assms by (auto simp: expand_roots_def split: option.splits sum.splits if_splits)

lemma roots_ok_Nil [simp]: "roots_ok w []"
  by (simp add: roots_ok_def)

lemma expand_roots_ok:
  "expand_roots w raws base wr = Inr roots \<Longrightarrow> roots_ok w roots"
  by (elim expand_rootsE) (use add_roots_ok roots_ok_Nil in blast)

lemma expand_roots_canonical:
  "expand_roots w raws base wr = Inr roots \<Longrightarrow> r \<in> set roots \<Longrightarrow> \<exists>q. w_canonicalize w q = Some r"
  using expand_roots_ok by (fastforce simp: roots_ok_def list_all_iff is_root_def)

text \<open>
  The workspace roots a configuration expands to are never none, never listed twice, each the
  canonical form of an existing directory and none of them a prohibited system directory; and every
  root written without a glob that exists is among them, so nothing configured is silently lost.
\<close>

theorem expand_roots_sound:
  assumes "expand_roots w raws base workspace_root = Inr roots"
  shows "roots \<noteq> [] \<and> distinct roots \<and>
     (\<forall>r \<in> set roots. path_str r \<notin> set PROHIBITED_ROOTS \<and> (\<exists>p. w_is_dir w p \<and> w_canonicalize w p = Some r)) \<and>
     (\<forall>wr raw expanded. w_expand w (w_env w) workspace_root = Some wr \<longrightarrow> raw \<in> set raws \<longrightarrow>
        w_expand w ((w_env w)(''workspace_root'' \<mapsto> wr)) raw = Some expanded \<longrightarrow> literal_root w base expanded \<longrightarrow>
        (\<exists>r \<in> set roots. w_canonicalize w (path_of_str (root_pattern base expanded)) = Some r))"
  using assms
proof (rule expand_rootsE)
  fix wr
  assume wr: "w_expand w (w_env w) workspace_root = Some wr" and run: "add_roots w base wr raws [] = Inr roots"
    and ne: "roots \<noteq> []"
  have "roots_ok w roots"
    using expand_roots_ok [OF assms] .
  with ne wr add_roots_literal [OF run roots_ok_Nil] show ?thesis
    by (simp add: roots_ok_def is_root_def list_all_iff del: fun_upd_apply)
qed

section \<open>The jail is exact\<close>

text \<open>
  What is relied on from the operating system: canonicalizing and lexically cleaning a canonical
  path changes nothing, its name is in normal form C, and its text reads back as the same path.
\<close>

definition canonical_world :: "world \<Rightarrow> bool" where
  "canonical_world w \<longleftrightarrow> (\<forall>q p. w_canonicalize w q = Some p \<longrightarrow>
     w_canonicalize w p = Some p \<and> w_clean w p = p \<and> w_nfc w (path_str p) = path_str p \<and> path_of_str (path_str p) = p \<and>
     \<not> is_relative p)"

definition under_roots :: "path list \<Rightarrow> path \<Rightarrow> bool" where
  "under_roots roots p \<longleftrightarrow> list_ex (path_starts_with p) roots"

lemma canonical_worldD:
  assumes "canonical_world w" and "w_canonicalize w q = Some p"
  shows "w_canonicalize w p = Some p" and "w_clean w p = p" and "w_nfc w (path_str p) = path_str p"
    and "path_of_str (path_str p) = p" and "\<not> is_relative p"
  using assms unfolding canonical_world_def by blast+

lemma to_nfc_path_canonical:
  "canonical_world w \<Longrightarrow> w_canonicalize w q = Some p \<Longrightarrow> to_nfc_path w p = p"
  by (simp add: to_nfc_path_def canonical_worldD)

lemma is_jailed_iff:
  assumes "canonical_world w" and "w_canonicalize w q = Some p"
    and "\<And>r. r \<in> set roots \<Longrightarrow> \<exists>q. w_canonicalize w q = Some r"
  shows "is_jailed w roots p \<longleftrightarrow> under_roots roots p"
proof -
  have "to_nfc_path w r = r" if "r \<in> set roots" for r
    using that assms(1,3) to_nfc_path_canonical by blast
  then show ?thesis
    using assms(1,2) by (auto simp: is_jailed_def under_roots_def list_ex_iff to_nfc_path_canonical)
qed

lemma canonical_scope_canonical:
  "canonical_scope w anchor s = Inr p \<Longrightarrow> \<exists>q. w_canonicalize w q = Some p"
  by (auto simp: canonical_scope_def Let_def split: option.splits if_splits)

lemma resolve_scope_canonical:
  assumes w: "canonical_world w" and p: "w_canonicalize w q = Some p"
    and roots: "\<And>r. r \<in> set roots \<Longrightarrow> \<exists>q. w_canonicalize w q = Some r"
  shows "resolve_scope w (path_str p) roots = (if under_roots roots p then Inr p else Inl (SandboxEscapeAttempt p))"
proof -
  have "canonical_scope w None (translate_scope w [] (w_nfc w (path_str p))) = Inr p"
    using canonical_worldD [OF w p] by (simp add: canonical_scope_def Let_def)
  then show ?thesis
    using is_jailed_iff [OF w p roots] by (simp add: resolve_scope_def resolve_with_aliases_def)
qed


section \<open>A small file system\<close>

text \<open>
  A server whose workspace is \<^verbatim>\<open>/srv\<close>: two projects, a link out of one of them and a link between them.
\<close>

definition demo_canonical :: "(string \<times> string) list" where
  "demo_canonical =
     [(''/srv'', ''/srv''), (''/srv/api'', ''/srv/api''), (''/srv/web'', ''/srv/web''), (''/srv/api/a.ts'', ''/srv/api/a.ts''),
      (''/srv/web/link'', ''/srv/api/a.ts''), (''/srv/api/out'', ''/etc/passwd''), (''/etc/passwd'', ''/etc/passwd'')]"

definition demo_world :: world where
  "demo_world = \<lparr>
     w_expand = (\<lambda>env s. if s = ''${workspace_root}/api'' then map_option (\<lambda>r. r @ ''/api'') (env ''workspace_root'') else Some s),
     w_env = (\<lambda>v. None),
     w_glob = (\<lambda>pattern. Some [Inr (path_of_str ''/srv/api''), Inr (path_of_str ''/srv/web'')]),
     w_is_dir = (\<lambda>p. path_str p \<in> set [''/srv'', ''/srv/api'', ''/srv/web'']),
     w_exists = (\<lambda>p. path_str p \<in> set (map fst demo_canonical)),
     w_canonicalize = (\<lambda>p. map_option path_of_str (map_of demo_canonical (path_str p))),
     w_is_symlink = (\<lambda>p. if path_str p \<in> set (map fst demo_canonical)
                        then Some (path_str p \<in> set [''/srv/web/link'', ''/srv/api/out'']) else None),
     w_nfc = (\<lambda>s. s),
     w_clean = (\<lambda>p. p) \<rparr>"

lemma demo_canonicalized:
  "w_canonicalize demo_world q = Some p \<Longrightarrow>
   p \<in> path_of_str ` {''/srv'', ''/srv/api'', ''/srv/web'', ''/srv/api/a.ts'', ''/etc/passwd''}"
  by (auto simp: demo_world_def demo_canonical_def split: if_splits)

lemma demo_fixed:
  "list_all (\<lambda>s. let p = path_of_str s in w_canonicalize demo_world p = Some p \<and> path_of_str (path_str p) = p \<and> \<not> is_relative p)
     [''/srv'', ''/srv/api'', ''/srv/web'', ''/srv/api/a.ts'', ''/etc/passwd'']"
  by code_simp

lemma demo_world_canonical: "canonical_world demo_world"
  unfolding canonical_world_def
proof (intro allI impI)
  fix q p
  assume "w_canonicalize demo_world q = Some p"
  with demo_canonicalized have "p \<in> path_of_str ` {''/srv'', ''/srv/api'', ''/srv/web'', ''/srv/api/a.ts'', ''/etc/passwd''}" .
  with demo_fixed have "w_canonicalize demo_world p = Some p \<and> path_of_str (path_str p) = p \<and> \<not> is_relative p"
    by (auto simp: Let_def)
  then show "w_canonicalize demo_world p = Some p \<and> w_clean demo_world p = p \<and>
      w_nfc demo_world (path_str p) = path_str p \<and> path_of_str (path_str p) = p \<and> \<not> is_relative p"
    by (simp add: demo_world_def)
qed

definition demo_roots :: "path list" where
  "demo_roots = [path_of_str ''/srv/api'', path_of_str ''/srv/web'']"

lemma demo_expand:
  "expand_roots demo_world [''${workspace_root}/api'', ''/srv/*''] (path_of_str ''/srv'') ''/srv'' = Inr demo_roots"
  by code_simp

theorem expand_roots_sound_witness:
  "demo_roots \<noteq> [] \<and> distinct demo_roots \<and> list_all (\<lambda>r. path_str r \<notin> set PROHIBITED_ROOTS) demo_roots"
  using expand_roots_sound [OF demo_expand] by (simp add: list_all_iff)


text \<open>
  The aliases are read from a hash map and the first that applies wins, so with one mount inside another
  the translation of a path below both depends on the iteration order of the map.
\<close>

lemma alias_order_matters:
  "translate_scope demo_world [(''/work'', ''/srv''), (''/work/api'', ''/data'')] ''/work/api/a.ts'' = ''/srv/api/a.ts'' \<and>
   translate_scope demo_world [(''/work/api'', ''/data''), (''/work'', ''/srv'')] ''/work/api/a.ts'' = ''/data/a.ts''"
  by code_simp

end
