(* ===== verification/Config_Reload.thy ===== *)
theory Config_Reload
  imports Path_Jail "HOL-Library.Multiset"
begin

text \<open>
  The configuration of \<^verbatim>\<open>crates/mesh-core/src/config.rs\<close>, what an edit of it costs
  (\<^verbatim>\<open>crates/mesh-core/src/reload_kind.rs\<close>) and how a running daemon compares with the file on disk
  (\<^verbatim>\<open>crates/mesh-core/src/config_watch.rs\<close>). Parameters: the serializer of \<^verbatim>\<open>serde_json\<close>, the hash
  function, and the bytes and metadata of the configuration file.
\<close>

section \<open>The configuration\<close>

type_synonym str_map = "string \<rightharpoonup> string"

record cache_config =
  max_size_mb :: nat

record workspace_config =
  wc_name :: string
  wc_version :: string
  workspace_root :: string
  wc_roots :: "string list"
  exclude_patterns :: "string list"
  mount_aliases :: str_map
  wc_http_prefix :: "string option"
  wc_http_prefixes :: str_map
  resolved_workspace_root :: "path option"

record docs_config =
  docs_enabled :: bool
  docs_paths :: "string list"
  docs_aliases :: str_map
  stop_words :: "string list"
  exact_phrase_boost :: nat
  fuzzy_fallback :: bool
  sanitize_prompt_injections :: bool

record cpp_config =
  include_paths :: "string list"

datatype pattern_confidence = PatternExact | PatternHeuristic

datatype pattern_kind = TopicProducer | TopicConsumer | SagaPattern | RpcPattern

record custom_pattern_config =
  cp_name :: string
  cp_kind :: pattern_kind
  file_pattern :: "string option"
  cp_regex :: string
  target_group :: nat
  consumer_group :: "nat option"
  cp_confidence :: "pattern_confidence option"

record grpc_config =
  proto_dirs :: "string list"
  controller_annotations :: "string list"
  canonical_fqcn_projection :: bool

record spring_config =
  spring_enabled :: bool
  property_files :: "string list"
  resolve_placeholders :: bool
  auto_redact_secrets :: bool

record open_api_config =
  openapi_enabled :: bool
  openapi_spec_files :: "string list"

record async_api_config =
  asyncapi_enabled :: bool
  asyncapi_spec_files :: "string list"
  infer_string_topics :: bool

record contracts_config =
  contracts_enabled :: bool
  cc_grpc :: "grpc_config option"
  cc_spring :: "spring_config option"
  cc_openapi :: "open_api_config option"
  cc_asyncapi :: "async_api_config option"
  cc_cpp :: "cpp_config option"
  cc_patterns :: "custom_pattern_config list"

datatype read_governance_mode = AllowAll | AuditWarn | EnforceRefusal

record policy_config =
  policy_enabled :: bool
  enforce_git_hooks :: bool
  cryptographic_audit_trail :: bool
  pc_read_governance_mode :: read_governance_mode
  pc_stop_rules :: "(string \<times> string) list"
  pc_skills :: "(string \<times> string) list"

record engines_config =
  ec_docs :: "docs_config option"
  ec_contracts :: "contracts_config option"
  ec_policy :: "policy_config option"

record config =
  cfg_workspace :: workspace_config
  cfg_engines :: engines_config
  cfg_cache :: cache_config

text \<open>The sections an empty table deserializes to: every field at its declared default.\<close>

definition docs_default :: docs_config where
  "docs_default = \<lparr>docs_enabled = True, docs_paths = [], docs_aliases = (\<lambda>_. None), stop_words = [],
     exact_phrase_boost = 60, fuzzy_fallback = True, sanitize_prompt_injections = True\<rparr>"

definition contracts_default :: contracts_config where
  "contracts_default = \<lparr>contracts_enabled = True, cc_grpc = None, cc_spring = None, cc_openapi = None, cc_asyncapi = None,
     cc_cpp = None, cc_patterns = []\<rparr>"

definition policy_default :: policy_config where
  "policy_default = \<lparr>policy_enabled = True, enforce_git_hooks = True, cryptographic_audit_trail = True,
     pc_read_governance_mode = AllowAll, pc_stop_rules = [], pc_skills = []\<rparr>"

definition resolve_allowed_roots :: "world \<Rightarrow> config \<Rightarrow> path \<Rightarrow> config_error + path list" where
  "resolve_allowed_roots w c base_dir = expand_roots w (wc_roots (cfg_workspace c)) base_dir (workspace_root (cfg_workspace c))"

definition file_needle :: "custom_pattern_config \<Rightarrow> string option" where
  "file_needle p = map_option (\<lambda>fp. dropWhile (\<lambda>c. c = CHR ''.'') (dropWhile (\<lambda>c. c = CHR ''*'') fp)) (file_pattern p)"

definition applies_to :: "custom_pattern_config \<Rightarrow> string \<Rightarrow> bool" where
  "applies_to p path =
     (case file_needle p of Some needle \<Rightarrow> ends_with path needle \<or> str_contains path needle | None \<Rightarrow> True)"

definition is_exact :: "custom_pattern_config \<Rightarrow> bool" where
  "is_exact p \<longleftrightarrow> cp_confidence p = Some PatternExact"

section \<open>The kind of a reload\<close>

datatype reload_kind = DisplayOnly | Partial | Full

record reload_plan =
  plan_kind :: reload_kind
  plan_changed_patterns :: "custom_pattern_config list"

definition plan_of :: "reload_kind \<Rightarrow> reload_plan" where
  "plan_of kind = \<lparr>plan_kind = kind, plan_changed_patterns = []\<rparr>"

definition forces :: "reload_plan \<Rightarrow> string \<Rightarrow> bool" where
  "forces plan path \<longleftrightarrow> list_ex (\<lambda>p. applies_to p path) (plan_changed_patterns plan)"

text \<open>The tuple \<^verbatim>\<open>index_inputs\<close> hands to the serializer.\<close>

record index_inputs =
  ii_workspace_root :: string
  ii_roots :: "string list"
  ii_exclude_patterns :: "string list"
  ii_mount_aliases :: str_map
  ii_docs_enabled :: bool
  ii_docs_paths :: "string list"
  ii_sanitize :: bool
  ii_contracts_enabled :: bool
  ii_grpc :: "grpc_config option"
  ii_spring :: "spring_config option"
  ii_openapi :: "open_api_config option"
  ii_asyncapi :: "async_api_config option"
  ii_cpp :: "cpp_config option"
  ii_max_size_mb :: nat

definition index_inputs_of :: "config \<Rightarrow> index_inputs" where
  "index_inputs_of c =
     (let w = cfg_workspace c;
          d = (case ec_docs (cfg_engines c) of Some d \<Rightarrow> d | None \<Rightarrow> docs_default);
          k = (case ec_contracts (cfg_engines c) of Some k \<Rightarrow> k | None \<Rightarrow> contracts_default) in
      \<lparr>ii_workspace_root = workspace_root w, ii_roots = wc_roots w, ii_exclude_patterns = exclude_patterns w,
       ii_mount_aliases = mount_aliases w, ii_docs_enabled = docs_enabled d, ii_docs_paths = docs_paths d,
       ii_sanitize = sanitize_prompt_injections d, ii_contracts_enabled = contracts_enabled k, ii_grpc = cc_grpc k,
       ii_spring = cc_spring k, ii_openapi = cc_openapi k, ii_asyncapi = cc_asyncapi k, ii_cpp = cc_cpp k,
       ii_max_size_mb = max_size_mb (cfg_cache c)\<rparr>)"

definition patterns_of :: "config \<Rightarrow> custom_pattern_config list" where
  "patterns_of c = (case ec_contracts (cfg_engines c) of Some k \<Rightarrow> cc_patterns k | None \<Rightarrow> [])"

text \<open>One step of the loop over \<^verbatim>\<open>new\<close>: the pattern is struck off the remaining old ones, or is added.\<close>

definition match_pattern ::
  "custom_pattern_config \<Rightarrow> custom_pattern_config list \<times> custom_pattern_config list \<Rightarrow>
   custom_pattern_config list \<times> custom_pattern_config list" where
  "match_pattern p = (\<lambda>(left, added). if p \<in> set left then (remove1 p left, added) else (left, added @ [p]))"

definition changed_patterns :: "custom_pattern_config list \<Rightarrow> custom_pattern_config list \<Rightarrow> custom_pattern_config list" where
  "changed_patterns old new =
     (if old = new then []
      else let (left, added) = fold match_pattern new (old, []); changed = left @ added in
           if changed = [] then new else changed)"

definition classify :: "(index_inputs \<Rightarrow> 'v option) \<Rightarrow> config \<Rightarrow> path list \<Rightarrow> config \<Rightarrow> path list \<Rightarrow> reload_plan" where
  "classify to_value old old_roots new new_roots =
     (if old_roots \<noteq> new_roots \<or>
         resolved_workspace_root (cfg_workspace old) \<noteq> resolved_workspace_root (cfg_workspace new)
      then plan_of Full
      else case (to_value (index_inputs_of old), to_value (index_inputs_of new)) of
        (Some a, Some b) \<Rightarrow>
          if a \<noteq> b then plan_of Full
          else let changed = changed_patterns (patterns_of old) (patterns_of new) in
               if changed = [] then plan_of DisplayOnly
               else \<lparr>plan_kind = Partial, plan_changed_patterns = changed\<rparr>
      | _ \<Rightarrow> plan_of Full)"

section \<open>The daemon and the file on disk\<close>

record config_stamp =
  stamp_mtime_ms :: nat
  stamp_len :: nat
  stamp_sha256 :: string

record reload_record =
  rr_kind :: reload_kind
  rr_duration_ms :: nat
  rr_at_ms :: nat

record daemon_config_status =
  started_ms :: nat
  dcs_config_path :: "path option"
  dcs_config_sha256 :: "string option"
  last_error :: "string option"
  rejected_sha256 :: "string option"
  loaded_ms :: "nat option"
  last_reload :: "reload_record option"

text \<open>The file: its modification time and length if it can be stat-ed, its bytes if it can be read.\<close>

definition stamp_config :: "(string \<Rightarrow> string) \<Rightarrow> (nat \<times> nat) option \<Rightarrow> string option \<Rightarrow> config_stamp option" where
  "stamp_config sha256 stat bytes =
     (let mtime = (case stat of Some (m, _) \<Rightarrow> m | None \<Rightarrow> 0) in
      map_option (\<lambda>b. \<lparr>stamp_mtime_ms = mtime, stamp_len = length b, stamp_sha256 = sha256 b\<rparr>) bytes)"

datatype config_drift = InSync | Stale string | Rejected string

definition config_drift_of :: "daemon_config_status \<Rightarrow> config_stamp option \<Rightarrow> config_drift" where
  "config_drift_of status now =
     (case now of
        None \<Rightarrow> (case last_error status of Some error \<Rightarrow> Rejected error | None \<Rightarrow> InSync)
      | Some st \<Rightarrow>
          if dcs_config_sha256 status = Some (stamp_sha256 st) then InSync
          else case last_error status of
            Some error \<Rightarrow>
              (case rejected_sha256 status of
                 Some rejected \<Rightarrow>
                   if rejected \<noteq> stamp_sha256 st
                   then Stale ''edited again since the version the daemon refused; it will reload it on its next check''
                   else Rejected error
               | None \<Rightarrow> Rejected error)
          | None \<Rightarrow>
              (case dcs_config_sha256 status of
                 Some _ \<Rightarrow> Stale ''built from a different config hash''
               | None \<Rightarrow>
                   if started_ms status < stamp_mtime_ms st
                   then Stale ''started before the config file was last modified'' else InSync))"

section \<open>What a reload must re-extract\<close>

lemma match_patterns_mset:
  "fold match_pattern new (left, added) = (left', added') \<Longrightarrow>
   mset left' = mset left - mset new \<and> mset added' = mset added + (mset new - mset left)"
proof (induction new arbitrary: left added)
  case (Cons p ps)
  show ?case
  proof (cases "p \<in> set left")
    case True
    with Cons have "mset left' = mset left - {#p#} - mset ps \<and> mset added' = mset added + (mset ps - (mset left - {#p#}))"
      by (simp add: match_pattern_def)
    moreover have "mset ps - (mset left - {#p#}) = mset (p # ps) - mset left"
      using True by (simp add: multiset_eq_iff)
    ultimately show ?thesis
      by simp
  next
    case False
    with Cons have "mset left' = mset left - mset ps \<and> mset added' = mset (added @ [p]) + (mset ps - mset left)"
      by (simp add: match_pattern_def)
    moreover have "mset ps - mset left + {#p#} = mset (p # ps) - mset left"
      using False by (simp add: multiset_eq_iff count_mset_0_iff)
    moreover have "mset left - mset ps = mset left - mset (p # ps)"
      using False by (simp add: multiset_eq_iff count_mset_0_iff)
    ultimately show ?thesis
      by simp
  qed
qed simp

lemma changed_patterns_Nil [simp]: "changed_patterns old new = [] \<longleftrightarrow> old = new"
proof -
  obtain left added where f: "fold match_pattern new (old, []) = (left, added)"
    by fastforce
  have "new \<noteq> []" if "old \<noteq> new" "left @ added = []"
    using that match_patterns_mset [OF f] by (auto simp: Diff_eq_empty_iff_mset)
  then show ?thesis
    by (auto simp: changed_patterns_def f)
qed

text \<open>The patterns of either side that were not changed are the same, with multiplicity.\<close>

lemma changed_patterns_mset:
  "filter_mset (\<lambda>p. p \<notin> set (changed_patterns old new)) (mset old) =
   filter_mset (\<lambda>p. p \<notin> set (changed_patterns old new)) (mset new)"
proof (cases "old = new")
  case False
  obtain left added where f: "fold match_pattern new (old, []) = (left, added)"
    by fastforce
  note ms = match_patterns_mset [OF f]
  show ?thesis
  proof (cases "left @ added = []")
    case True
    with ms have "mset old = mset new"
      by (auto simp: Diff_eq_empty_iff_mset subset_mset.antisym)
    then show ?thesis
      by simp
  next
    case False': False
    have "count (mset old) p = count (mset new) p" if "p \<notin> set left" "p \<notin> set added" for p
    proof -
      have "count (mset left) p = 0" and "count (mset added) p = 0"
        using that by (simp_all add: count_mset_0_iff)
      with ms show ?thesis
        by simp
    qed
    then show ?thesis
      using False False' by (simp add: changed_patterns_def f multiset_eq_iff)
  qed
qed simp

lemma unforced_patterns:
  assumes "\<not> list_ex (\<lambda>p. applies_to p path) changed"
  shows "filter (\<lambda>p. applies_to p path) ps = filter (\<lambda>p. applies_to p path) (filter (\<lambda>p. p \<notin> set changed) ps)"
  using assms by (auto simp: list_ex_iff intro: filter_cong)

lemma classify_cases:
  assumes "\<And>a b v. to_value a = Some v \<Longrightarrow> to_value b = Some v \<Longrightarrow> a = b"
  obtains (Full) "classify to_value old old_roots new new_roots = plan_of Full"
  | (Same) "classify to_value old old_roots new new_roots = plan_of DisplayOnly" and "old_roots = new_roots"
      and "index_inputs_of old = index_inputs_of new" and "patterns_of old = patterns_of new"
  | (Partial) "classify to_value old old_roots new new_roots =
        \<lparr>plan_kind = Partial, plan_changed_patterns = changed_patterns (patterns_of old) (patterns_of new)\<rparr>"
      and "old_roots = new_roots" and "index_inputs_of old = index_inputs_of new" and "patterns_of old \<noteq> patterns_of new"
proof -
  let ?same = "old_roots = new_roots \<and>
    resolved_workspace_root (cfg_workspace old) = resolved_workspace_root (cfg_workspace new) \<and>
    to_value (index_inputs_of old) \<noteq> None \<and> to_value (index_inputs_of old) = to_value (index_inputs_of new)"
  show thesis
  proof (cases ?same)
    case True
    then obtain v where v: "to_value (index_inputs_of old) = Some v" "to_value (index_inputs_of new) = Some v"
      by (metis option.exhaust)
    then have "index_inputs_of old = index_inputs_of new"
      using assms by blast
    with True v that(2,3) show thesis
      by (cases "patterns_of old = patterns_of new") (simp_all add: classify_def)
  next
    case False
    then have "classify to_value old old_roots new new_roots = plan_of Full"
      by (auto simp: classify_def split: option.splits)
    then show thesis
      by (rule that(1))
  qed
qed


definition demo_pattern :: "string \<Rightarrow> string \<Rightarrow> custom_pattern_config" where
  "demo_pattern name fp = \<lparr>cp_name = name, cp_kind = TopicProducer, file_pattern = Some fp, cp_regex = ''emit'', target_group = 1,
     consumer_group = None, cp_confidence = None\<rparr>"

definition demo_config :: "custom_pattern_config list \<Rightarrow> config" where
  "demo_config ps = \<lparr>
     cfg_workspace = \<lparr>wc_name = ''shop'', wc_version = ''1'', workspace_root = ''.'', wc_roots = [''.''], exclude_patterns = [],
       mount_aliases = (\<lambda>_. None), wc_http_prefix = None, wc_http_prefixes = (\<lambda>_. None), resolved_workspace_root = None\<rparr>,
     cfg_engines = \<lparr>ec_docs = None, ec_contracts = Some (contracts_default\<lparr>cc_patterns := ps\<rparr>), ec_policy = None\<rparr>,
     cfg_cache = \<lparr>max_size_mb = 2048\<rparr>\<rparr>"

definition pat_a :: custom_pattern_config where
  "pat_a = demo_pattern ''a'' ''*.ts''"

definition pat_b :: custom_pattern_config where
  "pat_b = demo_pattern ''b'' ''*.ts''"

definition pat_c :: custom_pattern_config where
  "pat_c = demo_pattern ''c'' ''*.java''"

lemma patterns_of_demo [simp]: "patterns_of (demo_config ps) = ps"
  by (simp add: patterns_of_def demo_config_def)

lemma classify_demo:
  "classify Some (demo_config ps) rs (demo_config qs) rs =
     (if ps = qs then plan_of DisplayOnly else \<lparr>plan_kind = Partial, plan_changed_patterns = changed_patterns ps qs\<rparr>)"
proof -
  have "index_inputs_of (demo_config ps) = index_inputs_of (demo_config qs)"
    by (simp add: index_inputs_of_def demo_config_def Let_def)
  moreover have "cfg_workspace (demo_config ps) = cfg_workspace (demo_config qs)"
    by (simp add: demo_config_def)
  ultimately show ?thesis
    by (simp add: classify_def Let_def)
qed

lemma pattern_added: "changed_patterns [pat_a] [pat_a, pat_c] = [pat_c]"
  by code_simp


text \<open>
  The order of the patterns is seen when nothing else changed, and then forces every file they
  govern; with any addition or removal beside it the exchange of two kept patterns is lost, and the files they
  govern keep facts that were merged in the old order.
\<close>

theorem reorder_hidden_by_addition:
  "forces (classify Some (demo_config [pat_a, pat_b]) [] (demo_config [pat_b, pat_a]) []) ''/srv/x.ts'' \<and>
   (let plan = classify Some (demo_config [pat_a, pat_b]) [] (demo_config [pat_b, pat_a, pat_c]) [] in
    plan_kind plan = Partial \<and> \<not> forces plan ''/srv/x.ts'' \<and>
    filter (\<lambda>p. applies_to p ''/srv/x.ts'') [pat_a, pat_b] \<noteq> filter (\<lambda>p. applies_to p ''/srv/x.ts'') [pat_b, pat_a, pat_c])"
proof -
  have "changed_patterns [pat_a, pat_b] [pat_b, pat_a] = [pat_b, pat_a]" "changed_patterns [pat_a, pat_b] [pat_b, pat_a, pat_c] = [pat_c]"
    "applies_to pat_a ''/srv/x.ts''" "applies_to pat_b ''/srv/x.ts''" "\<not> applies_to pat_c ''/srv/x.ts''" "pat_a \<noteq> pat_b"
    by code_simp+
  then show ?thesis
    by (simp add: classify_demo forces_def Let_def)
qed

text \<open>
  \<^verbatim>\<open>doctor\<close> words a readable file as served exactly when the daemon recorded its hash, or recorded no hash and no
  refusal and is not older than the file.
\<close>

lemma drift_in_sync_iff:
  "config_drift_of status (Some st) = InSync \<longleftrightarrow>
     dcs_config_sha256 status = Some (stamp_sha256 st) \<or>
     dcs_config_sha256 status = None \<and> last_error status = None \<and> stamp_mtime_ms st \<le> started_ms status"
  by (auto simp: config_drift_of_def split: option.splits if_splits)

end
