(* ===== verification/Index_Health.thy ===== *)
theory Index_Health
  imports Mesh_Types
begin

text \<open>
  The record of what the indexer could not index, \<^verbatim>\<open>crates/mesh-core/src/health.rs\<close>: the counters, the
  bounded list of rejected files kept exact across incremental reloads, and the note a search tool
  shows about its scope. Strings are byte strings; the ellipsis is its three UTF-8 bytes. The text of a
  size (a floating point number with one decimal) is a parameter.
\<close>

definition MAX_REJECTED_FILES :: nat where
  "MAX_REJECTED_FILES = 10000"

definition NOTE_MAX_FILES :: nat where
  "NOTE_MAX_FILES = 20"

definition NOTE_MAX_BYTES :: nat where
  "NOTE_MAX_BYTES = 2048"

datatype reject_reason = Oversized | Binary | LongLine | DeepNesting | ReadError | ParseFailed

fun reason_label :: "reject_reason \<Rightarrow> string" where
  "reason_label Oversized = ''oversized''"
| "reason_label Binary = ''binary''"
| "reason_label LongLine = ''long line''"
| "reason_label DeepNesting = ''deep nesting''"
| "reason_label ReadError = ''unreadable''"
| "reason_label ParseFailed = ''parse failed''"

definition all_reasons :: "reject_reason list" where
  "all_reasons = [Oversized, Binary, LongLine, DeepNesting, ReadError, ParseFailed]"

record rejected_file =
  rf_path :: path
  rf_reason :: reject_reason
  rf_size :: nat
  rf_detail :: "nat option"

text \<open>The decimal text of a number.\<close>

function nat_str :: "nat \<Rightarrow> string" where
  "nat_str n = (if n < 10 then [char_of (48 + n)] else nat_str (n div 10) @ [char_of (48 + n mod 10)])"
  by pat_completeness auto
termination by (relation "measure id") auto

declare nat_str.simps [simp del]

definition describe :: "(nat \<Rightarrow> string) \<Rightarrow> rejected_file \<Rightarrow> string" where
  "describe human r =
     (case (rf_reason r, rf_detail r) of
        (Oversized, _) \<Rightarrow> ''oversized, '' @ human (rf_size r)
      | (Binary, _) \<Rightarrow> ''binary (null byte)''
      | (LongLine, Some len) \<Rightarrow> ''long line (longest '' @ human len @ '')''
      | (DeepNesting, Some depth) \<Rightarrow> ''deep nesting (depth '' @ nat_str depth @ '')''
      | (reason, _) \<Rightarrow> reason_label reason @ '', '' @ human (rf_size r))"

record index_health =
  files_scanned :: nat
  files_indexed :: nat
  files_rejected_oversized :: nat
  files_rejected_guard :: nat
  files_read_error :: nat
  files_parse_failed :: nat
  rejected :: "rejected_file list"
  rejected_overflow :: nat
  files_skipped_non_source :: nat

definition health_default :: index_health where
  "health_default =
     \<lparr>files_scanned = 0, files_indexed = 0, files_rejected_oversized = 0, files_rejected_guard = 0,
      files_read_error = 0, files_parse_failed = 0, rejected = [], rejected_overflow = 0,
      files_skipped_non_source = 0\<rparr>"

definition LOCKFILES :: "string list" where
  "LOCKFILES =
     [''yarn.lock'', ''package-lock.json'', ''pnpm-lock.yaml'', ''npm-shrinkwrap.json'', ''bun.lockb'', ''Cargo.lock'',
      ''poetry.lock'', ''Pipfile.lock'', ''uv.lock'', ''Gemfile.lock'', ''composer.lock'', ''go.sum'', ''gradle.lockfile'',
      ''Podfile.lock'']"

definition NON_SOURCE_EXTENSIONS :: "string list" where
  "NON_SOURCE_EXTENSIONS =
     [''png'', ''jpg'', ''jpeg'', ''gif'', ''webp'', ''ico'', ''bmp'', ''tif'', ''tiff'', ''icns'', ''heic'',
      ''ttf'', ''otf'', ''woff'', ''woff2'', ''eot'',
      ''zip'', ''gz'', ''tgz'', ''bz2'', ''xz'', ''7z'', ''tar'', ''jar'', ''war'', ''aar'', ''apk'', ''ipa'',
      ''mp3'', ''mp4'', ''mov'', ''wav'', ''ogg'', ''webm'', ''pdf'',
      ''doc'', ''docx'', ''docm'', ''xls'', ''xlsx'', ''xlsm'', ''ppt'', ''pptx'', ''pptm'', ''odt'', ''ods'', ''odp'',
      ''epub'', ''pages'', ''numbers'', ''rar'', ''dmg'', ''iso'',
      ''so'', ''dylib'', ''dll'', ''exe'', ''wasm'', ''class'', ''pyc'', ''o'', ''a'', ''lockb'', ''map'']"

definition is_non_source :: "path \<Rightarrow> bool" where
  "is_non_source p =
     (case file_name p of
        None \<Rightarrow> False
      | Some name \<Rightarrow>
          name \<in> set LOCKFILES \<or> ends_with name ''.min.js'' \<or> ends_with name ''.min.css''
          \<or> (case extension p of Some ext \<Rightarrow> list_ex (\<lambda>x. eq_ignore_ascii_case x ext) NON_SOURCE_EXTENSIONS | None \<Rightarrow> False))"

section \<open>Recording\<close>

definition record_scanned :: "nat \<Rightarrow> index_health \<Rightarrow> index_health" where
  "record_scanned n h = h\<lparr>files_scanned := files_scanned h + n\<rparr>"

definition record_indexed :: "index_health \<Rightarrow> index_health" where
  "record_indexed h = h\<lparr>files_indexed := files_indexed h + 1\<rparr>"

definition record_oversized :: "index_health \<Rightarrow> index_health" where
  "record_oversized h = h\<lparr>files_rejected_oversized := files_rejected_oversized h + 1\<rparr>"

definition record_guard_rejected :: "index_health \<Rightarrow> index_health" where
  "record_guard_rejected h = h\<lparr>files_rejected_guard := files_rejected_guard h + 1\<rparr>"

definition record_read_error :: "index_health \<Rightarrow> index_health" where
  "record_read_error h = h\<lparr>files_read_error := files_read_error h + 1\<rparr>"

definition record_parse_failed :: "index_health \<Rightarrow> index_health" where
  "record_parse_failed h = h\<lparr>files_parse_failed := files_parse_failed h + 1\<rparr>"

definition record_skipped_non_source :: "index_health \<Rightarrow> index_health" where
  "record_skipped_non_source h = h\<lparr>files_skipped_non_source := files_skipped_non_source h + 1\<rparr>"

definition record_rejected_file_detail :: "path \<Rightarrow> reject_reason \<Rightarrow> nat \<Rightarrow> nat option \<Rightarrow> index_health \<Rightarrow> index_health" where
  "record_rejected_file_detail p reason size_bytes detail h =
     h\<lparr>rejected := rejected h @ [\<lparr>rf_path = p, rf_reason = reason, rf_size = size_bytes, rf_detail = detail\<rparr>]\<rparr>"

definition record_rejected_file :: "path \<Rightarrow> reject_reason \<Rightarrow> nat \<Rightarrow> index_health \<Rightarrow> index_health" where
  "record_rejected_file p reason size_bytes = record_rejected_file_detail p reason size_bytes None"

definition push_last_wins :: "rejected_file \<Rightarrow> rejected_file list \<Rightarrow> rejected_file list" where
  "push_last_wins r out = (if out \<noteq> [] \<and> rf_path (last out) = rf_path r then butlast out @ [r] else out @ [r])"

definition normalize_rejected :: "index_health \<Rightarrow> index_health" where
  "normalize_rejected h =
     (let out = fold push_last_wins (sort_key rf_path (rejected h)) [] in
      h\<lparr>rejected_overflow := max (rejected_overflow h) (length out - MAX_REJECTED_FILES),
        rejected := take MAX_REJECTED_FILES out\<rparr>)"

definition replace_rejected :: "path set \<Rightarrow> rejected_file list \<Rightarrow> index_health \<Rightarrow> bool \<times> index_health" where
  "replace_rejected touched fresh h =
     (let h' = normalize_rejected (h\<lparr>rejected := filter (\<lambda>r. rf_path r \<notin> touched) (rejected h) @ fresh\<rparr>) in
      (rejected h' \<noteq> rejected h, h'))"

definition health_merge :: "index_health \<Rightarrow> index_health \<Rightarrow> index_health" where
  "health_merge other h =
     h\<lparr>files_scanned := files_scanned h + files_scanned other, files_indexed := files_indexed h + files_indexed other,
       files_rejected_oversized := files_rejected_oversized h + files_rejected_oversized other,
       files_rejected_guard := files_rejected_guard h + files_rejected_guard other,
       files_read_error := files_read_error h + files_read_error other,
       files_parse_failed := files_parse_failed h + files_parse_failed other,
       files_skipped_non_source := files_skipped_non_source h + files_skipped_non_source other\<rparr>"

definition total_rejected :: "index_health \<Rightarrow> nat" where
  "total_rejected h = files_rejected_oversized h + files_rejected_guard h + files_read_error h"

definition is_healthy :: "index_health \<Rightarrow> bool" where
  "is_healthy h \<longleftrightarrow> files_parse_failed h = 0 \<and> files_read_error h = 0"

section \<open>The note\<close>

definition NEWLINE :: string where
  "NEWLINE = [CHR 0x0A]"

definition ELLIPSIS :: string where
  "ELLIPSIS = [CHR 0xE2, CHR 0x80, CHR 0xA6]"

definition sanitize_path :: "path \<Rightarrow> string" where
  "sanitize_path p = replace_chars {CHR 0x60} CHR 0x27 (replace_chars {CHR 0x0A, CHR 0x0D} CHR '' '' (path_str p))"

definition rejected_matching :: "(path \<Rightarrow> bool) \<Rightarrow> index_health \<Rightarrow> rejected_file list" where
  "rejected_matching keep h = filter (\<lambda>r. keep (rf_path r)) (rejected h)"

definition TAIL_RESERVE :: nat where
  "TAIL_RESERVE = 160"

definition note_header :: "nat \<Rightarrow> string" where
  "note_header n =
     NEWLINE @ ''> [!WARNING]'' @ NEWLINE @ ''> **'' @ nat_str n @
     '' file(s) in this scope are not indexed**, so the results above cannot include them. '' @
     ''If what you are looking for may live there, read the file directly instead of searching again.'' @ NEWLINE"

definition note_line :: "(nat \<Rightarrow> string) \<Rightarrow> rejected_file \<Rightarrow> string" where
  "note_line human r = ''> - '' @ [CHR 0x60] @ sanitize_path (rf_path r) @ [CHR 0x60] @ '': '' @ describe human r @ NEWLINE"

text \<open>The loop over the files: the note so far and the number shown; it breaks at the first line that
  does not fit.\<close>

fun note_lines :: "(nat \<Rightarrow> string) \<Rightarrow> rejected_file list \<Rightarrow> string \<Rightarrow> nat \<Rightarrow> string \<times> nat" where
  "note_lines human [] note shown = (note, shown)"
| "note_lines human (r # rs) note shown =
     (if length note + length (note_line human r) + TAIL_RESERVE > NOTE_MAX_BYTES then (note, shown)
      else note_lines human rs (note @ note_line human r) (shown + 1))"

definition more_line :: "nat \<Rightarrow> string" where
  "more_line rest = ''> - '' @ ELLIPSIS @ ''and '' @ nat_str rest @ '' more'' @ NEWLINE"

definition cap_line :: string where
  "cap_line = ''> (The rejected-file list is capped at '' @ nat_str MAX_REJECTED_FILES @ ''; more may exist.)'' @ NEWLINE"

definition scope_note :: "(nat \<Rightarrow> string) \<Rightarrow> (path \<Rightarrow> bool) \<Rightarrow> index_health \<Rightarrow> string option" where
  "scope_note human keep h =
     (let hits = rejected_matching keep h in
      if hits = [] then None
      else
        (let (note, shown) = note_lines human (take NOTE_MAX_FILES hits) (note_header (length hits)) 0;
             rest = length hits - shown in
         Some (note @ (if rest > 0 then more_line rest else []) @ (if rejected_overflow h > 0 then cap_line else []))))"

section \<open>The summary\<close>

definition render_summary :: "(nat \<Rightarrow> string) \<Rightarrow> nat \<Rightarrow> index_health \<Rightarrow> string" where
  "render_summary human max_paths h =
     nat_str (files_scanned h) @ '' file(s) scanned, '' @ nat_str (files_indexed h) @ '' indexed, ''
     @ nat_str (length (rejected h) + rejected_overflow h) @ '' not indexed'' @ NEWLINE
     @ (if files_skipped_non_source h > 0
        then ''    ('' @ nat_str (files_skipped_non_source h)
             @ '' non-source file(s) skipped silently: images, fonts, archives, office documents, PDFs, lockfiles, bundles)'' @ NEWLINE
        else [])
     @ concat (map (\<lambda>reason.
         let n = length (filter (\<lambda>r. rf_reason r = reason) (rejected h)) in
         if n > 0 then ''    '' @ reason_label reason @ '': '' @ nat_str n @ NEWLINE else []) all_reasons)
     @ (if rejected_overflow h > 0
        then ''    (+'' @ nat_str (rejected_overflow h) @ '' more not indexed, beyond the '' @ nat_str MAX_REJECTED_FILES
             @ ''-entry list and not broken down by reason above)'' @ NEWLINE
        else [])
     @ concat (map (\<lambda>r. ''    - '' @ path_str (rf_path r) @ '' ('' @ describe human r @ '')'' @ NEWLINE) (take max_paths (rejected h)))
     @ (if length (rejected h) > max_paths
        then ''    - '' @ ELLIPSIS @ ''and '' @ nat_str (length (rejected h) - max_paths) @ '' more'' @ NEWLINE
        else [])"

section \<open>The rejected list\<close>

text \<open>The last entry recorded for a path.\<close>

definition last_entry :: "rejected_file list \<Rightarrow> path \<Rightarrow> rejected_file option" where
  "last_entry rs p = find (\<lambda>r. rf_path r = p) (rev rs)"

lemma last_entry_snoc [simp]: "last_entry (rs @ [r]) p = (if rf_path r = p then Some r else last_entry rs p)"
  by (simp add: last_entry_def)

lemma last_entry_Nil [simp]: "last_entry [] p = None"
  by (simp add: last_entry_def)

lemma last_entry_append: "last_entry (rs @ qs) p = (case last_entry qs p of Some r \<Rightarrow> Some r | None \<Rightarrow> last_entry rs p)"
  by (induction qs rule: rev_induct) (simp_all flip: append_assoc)

lemma last_entry_None: "last_entry rs p = None \<longleftrightarrow> p \<notin> rf_path ` set rs"
  by (induction rs rule: rev_induct) auto

lemma last_entry_filter: "last_entry (filter (\<lambda>r. rf_path r \<notin> T) rs) p = (if p \<in> T then None else last_entry rs p)"
  by (induction rs rule: rev_induct) auto

lemma last_entry_cong_filter:
  "last_entry rs p = (let qs = filter (\<lambda>r. rf_path r = p) rs in if qs = [] then None else Some (last qs))"
  by (induction rs rule: rev_induct) (auto simp: Let_def)

lemma last_entry_sort: "last_entry (sort_key rf_path rs) p = last_entry rs p"
  by (simp add: last_entry_cong_filter sort_key_stable)

lemma strict_sorted_last: "sorted_wrt (<) (map f xs) \<Longrightarrow> x \<in> set xs \<Longrightarrow> f x \<le> (f (last xs) :: 'a::order)"
  by (induction xs) (auto simp: less_imp_le)

lemma push_last_wins_step:
  assumes "sorted_wrt (<) (map rf_path out)" and "\<forall>x \<in> set out. rf_path x \<le> rf_path r"
  shows "sorted_wrt (<) (map rf_path (push_last_wins r out))"
    and "rf_path ` set (push_last_wins r out) = insert (rf_path r) (rf_path ` set out)"
    and "last_entry (push_last_wins r out) p = (if rf_path r = p then Some r else last_entry out p)"
proof -
  consider qs q where "out = qs @ [q]" "rf_path q = rf_path r" | "out = [] \<or> rf_path (last out) \<noteq> rf_path r"
    by (cases out rule: rev_cases) auto
  then have "sorted_wrt (<) (map rf_path (push_last_wins r out))
      \<and> rf_path ` set (push_last_wins r out) = insert (rf_path r) (rf_path ` set out)
      \<and> last_entry (push_last_wins r out) p = (if rf_path r = p then Some r else last_entry out p)"
  proof cases
    case 1
    with assms(1) show ?thesis by (auto simp: push_last_wins_def)
  next
    case 2
    have "\<forall>x \<in> set out. rf_path x < rf_path r"
    proof
      fix x assume x: "x \<in> set out"
      with 2 assms(2) have "rf_path (last out) < rf_path r" 
        by (metis empty_iff empty_set last_in_set order.not_eq_order_implies_strict)
      with strict_sorted_last[OF assms(1) x] show "rf_path x < rf_path r" by simp
    qed
    with 2 assms(1) show ?thesis by (auto simp: push_last_wins_def sorted_wrt_append)
  qed
  then show "sorted_wrt (<) (map rf_path (push_last_wins r out))"
    "rf_path ` set (push_last_wins r out) = insert (rf_path r) (rf_path ` set out)"
    "last_entry (push_last_wins r out) p = (if rf_path r = p then Some r else last_entry out p)" by blast+
qed

lemma push_last_wins_fold:
  assumes "sorted (map rf_path rs)"
  shows "sorted_wrt (<) (map rf_path (fold push_last_wins rs []))
    \<and> rf_path ` set (fold push_last_wins rs []) = rf_path ` set rs
    \<and> last_entry (fold push_last_wins rs []) p = last_entry rs p"
  using assms
proof (induction rs arbitrary: p rule: rev_induct)
  case (snoc r rs)
  let ?out = "fold push_last_wins rs []"
  have IH: "sorted_wrt (<) (map rf_path ?out)" "rf_path ` set ?out = rf_path ` set rs" "last_entry ?out p = last_entry rs p"
    using snoc by (simp_all add: sorted_append)
  have "\<forall>q \<in> rf_path ` set ?out. q \<le> rf_path r"
    unfolding IH(2) using snoc.prems by (simp add: sorted_append)
  then have "\<forall>x \<in> set ?out. rf_path x \<le> rf_path r" by blast
  note step = push_last_wins_step[OF IH(1) this]
  show ?case using step IH(2,3) by simp
qed simp

text \<open>
  After an incremental reload the rejected list is sorted by path, has one entry per path and at
  most the cap, and is exact: each path has the reload's own outcome, or, when the reload did not touch
  it, the entry it had. Only a full list leaves a path out, and then the greatest ones.
\<close>

theorem replace_rejected_exact:
  "sorted_wrt (<) (map rf_path (rejected (snd (replace_rejected touched fresh h))))
   \<and> length (rejected (snd (replace_rejected touched fresh h))) \<le> MAX_REJECTED_FILES
   \<and> (last_entry (rejected (snd (replace_rejected touched fresh h))) p =
        (case last_entry fresh p of Some r \<Rightarrow> Some r
         | None \<Rightarrow> if p \<in> touched then None else last_entry (rejected h) p)
      \<or> length (rejected (snd (replace_rejected touched fresh h))) = MAX_REJECTED_FILES
        \<and> last_entry (rejected (snd (replace_rejected touched fresh h))) p = None
        \<and> list_all (\<lambda>r. rf_path r < p) (rejected (snd (replace_rejected touched fresh h))))"
proof -
  let ?rs = "sort_key rf_path (filter (\<lambda>r. rf_path r \<notin> touched) (rejected h) @ fresh)"
  define full where "full = fold push_last_wins ?rs []"
  have out: "rejected (snd (replace_rejected touched fresh h)) = take MAX_REJECTED_FILES full"
    by (simp add: replace_rejected_def normalize_rejected_def full_def Let_def)
  have sorted: "sorted_wrt (<) (map rf_path full)" and
    entry: "last_entry full p = (case last_entry fresh p of Some r \<Rightarrow> Some r
         | None \<Rightarrow> if p \<in> touched then None else last_entry (rejected h) p)"
    using push_last_wins_fold[of ?rs p] 
    by (simp_all add: full_def last_entry_sort last_entry_append last_entry_filter split: option.split)
  have dropped: "last_entry (take MAX_REJECTED_FILES full) p = last_entry full p
    \<or> length (take MAX_REJECTED_FILES full) = MAX_REJECTED_FILES \<and> last_entry (take MAX_REJECTED_FILES full) p = None
      \<and> list_all (\<lambda>r. rf_path r < p) (take MAX_REJECTED_FILES full)"
  proof (cases "last_entry (drop MAX_REJECTED_FILES full) p")
    case None
    have "last_entry full p = last_entry (take MAX_REJECTED_FILES full @ drop MAX_REJECTED_FILES full) p" by simp
    also have "\<dots> = last_entry (take MAX_REJECTED_FILES full) p" unfolding last_entry_append None by simp
    finally show ?thesis by simp
  next
    case (Some r)
    then have p: "p \<in> rf_path ` set (drop MAX_REJECTED_FILES full)" using last_entry_None by (metis option.distinct(1))
    have "sorted_wrt (<) (map rf_path (take MAX_REJECTED_FILES full @ drop MAX_REJECTED_FILES full))" using sorted by simp
    then have "\<forall>x \<in> set (take MAX_REJECTED_FILES full). \<forall>y \<in> set (drop MAX_REJECTED_FILES full). rf_path x < rf_path y"
      unfolding map_append sorted_wrt_append by auto
    with p have lt: "\<forall>x \<in> set (take MAX_REJECTED_FILES full). rf_path x < p" by blast
    moreover from lt have "last_entry (take MAX_REJECTED_FILES full) p = None" unfolding last_entry_None by blast
    moreover have "length (take MAX_REJECTED_FILES full) = MAX_REJECTED_FILES"
      using p by (cases "length full \<le> MAX_REJECTED_FILES") auto
    ultimately show ?thesis by (simp add: list_all_iff)
  qed
  have "sorted_wrt (<) (map rf_path (take MAX_REJECTED_FILES full))"
    using sorted by (metis sorted_wrt_take take_map)
  with dropped entry show ?thesis unfolding out by simp
qed

section \<open>The size of the note\<close>

lemma length_nat_str: "n < 10 ^ k \<Longrightarrow> 0 < k \<Longrightarrow> length (nat_str n) \<le> k"
proof (induction n arbitrary: k rule: nat_str.induct)
  case (1 n)
  show ?case
  proof (cases "n < 10")
    case True
    with 1(3) show ?thesis by (subst nat_str.simps) simp
  next
    case False
    then have "k \<noteq> 1" using 1(2) by auto
    with 1(3) obtain j where j: "k = Suc j" "0 < j" by (cases k) auto
    with 1(2) have "n div 10 < 10 ^ j" by (simp add: less_mult_imp_div_less mult.commute)
    with 1(1)[OF False _ j(2)] False j show ?thesis by (subst nat_str.simps) simp
  qed
qed

lemma note_lines_size:
  "length acc + TAIL_RESERVE \<le> NOTE_MAX_BYTES \<Longrightarrow>
     length (fst (note_lines human rs acc shown)) + TAIL_RESERVE \<le> NOTE_MAX_BYTES"
  by (induction human rs acc shown rule: note_lines.induct) simp_all

lemma length_note_header: "length (note_header n) \<le> 250 + length (nat_str n)"
  by (simp add: note_header_def NEWLINE_def)

text \<open>
  The note about files missing from a scope never exceeds its byte ceiling, however many files
  there are and however long their paths: the lines kept in reserve always suffice for the tail.
\<close>

theorem scope_note_bounded:
  assumes "length (rejected_matching keep h) < 10 ^ 20" and "scope_note human keep h = Some note"
  shows "length note \<le> NOTE_MAX_BYTES"
proof -
  let ?hits = "rejected_matching keep h"
  obtain body shown where t: "note_lines human (take NOTE_MAX_FILES ?hits) (note_header (length ?hits)) 0 = (body, shown)"
    by (cases "note_lines human (take NOTE_MAX_FILES ?hits) (note_header (length ?hits)) 0")
  have "length (note_header (length ?hits)) \<le> 270"
    using length_nat_str[OF assms(1)] length_note_header[of "length ?hits"] by simp
  then have fits: "length body + 160 \<le> NOTE_MAX_BYTES"
    using note_lines_size[of "note_header (length ?hits)" human "take NOTE_MAX_FILES ?hits" 0] t
    by (simp add: TAIL_RESERVE_def NOTE_MAX_BYTES_def)
  have "length (nat_str (length ?hits - shown)) \<le> 20" using assms(1) by (intro length_nat_str) simp_all
  then have more: "length (more_line (length ?hits - shown)) \<le> 40" by (simp add: more_line_def ELLIPSIS_def NEWLINE_def)
  have "length (nat_str MAX_REJECTED_FILES) \<le> 5" by (rule length_nat_str) (simp_all add: MAX_REJECTED_FILES_def)
  then have cap: "length cap_line \<le> 120" by (simp add: cap_line_def NEWLINE_def)
  have "length note \<le> length body + length (more_line (length ?hits - shown)) + length cap_line"
    using assms(2) t by (auto simp: scope_note_def Let_def split: if_splits)
  with fits more cap show ?thesis by linarith
qed

theorem scope_note_bounded_witness:
  "length (the (scope_note (\<lambda>_. ''2.0 MB'') (\<lambda>_. True)
     (health_default\<lparr>rejected := [\<lparr>rf_path = [Normal ''big.ts''], rf_reason = Oversized, rf_size = 2, rf_detail = None\<rparr>]\<rparr>)))
   \<le> NOTE_MAX_BYTES"
proof -
  let ?h = "health_default\<lparr>rejected := [\<lparr>rf_path = [Normal ''big.ts''], rf_reason = Oversized, rf_size = 2, rf_detail = None\<rparr>]\<rparr>"
  have a: "length (rejected_matching (\<lambda>_. True) ?h) < 10 ^ 20" by (simp add: rejected_matching_def)
  have b: "scope_note (\<lambda>_. ''2.0 MB'') (\<lambda>_. True) ?h = Some (the (scope_note (\<lambda>_. ''2.0 MB'') (\<lambda>_. True) ?h))"
    by (simp add: scope_note_def rejected_matching_def Let_def split: prod.split)
  show ?thesis by (rule scope_note_bounded[OF a b])
qed

end
