(* ===== verification/Audit_Chain.thy ===== *)
theory Audit_Chain
  imports Index_Health
begin

text \<open>
  The audit trail of \<^verbatim>\<open>crates/mesh-core/src/audit.rs\<close>: the table of hash-chained rows, the transaction that
  appends one, and its verification. SQLite runs every append as one immediate transaction, so the
  processes sharing a database interleave whole appends. Parameters: SHA-256 in hexadecimal, the JSON
  text of a list of files and of an error, and the clock.
\<close>

section \<open>Rows\<close>

datatype audit_error = AuditIo | AuditSerialization | AuditDatabase | BrokenChain nat string string

record error_detail =
  ed_class :: string
  ed_code :: int
  ed_message :: string

text \<open>A row as stored: \<^verbatim>\<open>files_accessed\<close> is the JSON text, which is what is hashed.\<close>

record audit_row =
  entry_seq :: nat
  prev_hash :: string
  timestamp :: string
  session_id :: string
  trace_id :: "string option"
  row_tool :: string
  args_digest :: string
  row_status :: string
  files_json :: string
  secrets_redacted_count :: nat
  entry_hash :: string
  chain_version :: int
  row_error_detail :: "string option"
  row_error_detail_sig :: "string option"

record audit_env =
  compute_sha256 :: "string \<Rightarrow> string"
  files_to_json :: "string list \<Rightarrow> string option"
  to_stored :: "error_detail \<Rightarrow> string"

definition GENESIS_HASH :: string where
  "GENESIS_HASH = replicate 64 (CHR ''0'')"

definition CHAIN_VERSION :: int where
  "CHAIN_VERSION = 2"

definition error_detail_sig :: "audit_env \<Rightarrow> string \<Rightarrow> string \<Rightarrow> string" where
  "error_detail_sig env hash detail = compute_sha256 env (hash @ detail)"

text \<open>The text a row is hashed from, under the formula of its version.\<close>

definition hash_input_v1 :: "audit_row \<Rightarrow> string" where
  "hash_input_v1 r = prev_hash r @ timestamp r @ session_id r @ row_tool r @ args_digest r"

definition hash_input_v2 :: "audit_row \<Rightarrow> string" where
  "hash_input_v2 r = hash_input_v1 r @ row_status r @ files_json r @ nat_str (secrets_redacted_count r)"

definition hash_input :: "audit_row \<Rightarrow> string" where
  "hash_input r = (if chain_version r = 1 then hash_input_v1 r else hash_input_v2 r)"

section \<open>Appending and verifying\<close>

text \<open>The table in the order of its primary key, \<^verbatim>\<open>entry_seq\<close>; the tail is the last row.\<close>

type_synonym audit_table = "audit_row list"

record audit_call =
  ac_now :: string
  ac_session :: string
  ac_trace :: "string option"
  ac_tool :: string
  ac_args_json :: string
  ac_status :: string
  ac_files :: "string list"
  ac_redacted :: nat
  ac_error :: "error_detail option"

definition tail_of :: "audit_table \<Rightarrow> nat \<times> string" where
  "tail_of t = (if t = [] then (0, GENESIS_HASH) else (entry_seq (last t) + 1, entry_hash (last t)))"

definition new_row :: "audit_env \<Rightarrow> audit_call \<Rightarrow> string \<Rightarrow> audit_table \<Rightarrow> audit_row" where
  "new_row env c files t =
     (let (seq, prev) = tail_of t;
          digest = compute_sha256 env (ac_args_json c);
          detail = map_option (to_stored env) (ac_error c);
          hash = compute_sha256 env (prev @ ac_now c @ ac_session c @ ac_tool c @ digest @ ac_status c @ files @
                   nat_str (ac_redacted c)) in
      \<lparr>entry_seq = seq, prev_hash = prev, timestamp = ac_now c, session_id = ac_session c, trace_id = ac_trace c,
       row_tool = ac_tool c, args_digest = digest, row_status = ac_status c, files_json = files,
       secrets_redacted_count = ac_redacted c, entry_hash = hash, chain_version = CHAIN_VERSION,
       row_error_detail = detail, row_error_detail_sig = map_option (error_detail_sig env hash) detail\<rparr>)"

definition record_entry_with_error ::
  "audit_env \<Rightarrow> audit_call \<Rightarrow> audit_table \<Rightarrow> audit_error + (audit_row \<times> audit_table)" where
  "record_entry_with_error env c t =
     (case files_to_json env (ac_files c) of
        None \<Rightarrow> Inl AuditSerialization
      | Some files \<Rightarrow> let r = new_row env c files t in Inr (r, t @ [r]))"

definition record_entry :: "audit_env \<Rightarrow> audit_call \<Rightarrow> audit_table \<Rightarrow> audit_error + (audit_row \<times> audit_table)" where
  "record_entry env c = record_entry_with_error env (c\<lparr>ac_error := None\<rparr>)"

definition verify_detail :: "audit_env \<Rightarrow> audit_row \<Rightarrow> audit_error + unit" where
  "verify_detail env r =
     (case (row_error_detail r, row_error_detail_sig r) of
        (None, None) \<Rightarrow> Inr ()
      | (Some detail, Some sig) \<Rightarrow>
          (let expected = error_detail_sig env (entry_hash r) detail in
           if expected \<noteq> sig
           then Inl (BrokenChain (entry_seq r) (''error_detail_sig '' @ expected) (''error_detail_sig '' @ sig))
           else Inr ())
      | (Some _, None) \<Rightarrow> Inl (BrokenChain (entry_seq r) ''signed error_detail'' ''unsigned error_detail'')
      | (None, Some _) \<Rightarrow> Inl (BrokenChain (entry_seq r) ''no error_detail_sig'' ''error_detail_sig without error_detail''))"

definition verify_row :: "audit_env \<Rightarrow> nat \<Rightarrow> string \<Rightarrow> audit_row \<Rightarrow> audit_error + unit" where
  "verify_row env idx expected_prev r =
     (if entry_seq r \<noteq> idx
      then Inl (BrokenChain (entry_seq r) (''seq '' @ nat_str idx) (''seq '' @ nat_str (entry_seq r)))
      else if prev_hash r \<noteq> expected_prev then Inl (BrokenChain (entry_seq r) expected_prev (prev_hash r))
      else let calculated = compute_sha256 env (hash_input r) in
        if calculated \<noteq> entry_hash r then Inl (BrokenChain (entry_seq r) calculated (entry_hash r))
        else verify_detail env r)"

fun verify_rows :: "audit_env \<Rightarrow> nat \<Rightarrow> string \<Rightarrow> audit_table \<Rightarrow> audit_error + bool" where
  "verify_rows env idx expected_prev [] = Inr True"
| "verify_rows env idx expected_prev (r # rs) =
     (case verify_row env idx expected_prev r of
        Inl e \<Rightarrow> Inl e
      | Inr _ \<Rightarrow> verify_rows env (Suc idx) (entry_hash r) rs)"

text \<open>\<^verbatim>\<open>None\<close> is a database that does not exist.\<close>

definition verify_db :: "audit_env \<Rightarrow> audit_table option \<Rightarrow> audit_error + bool" where
  "verify_db env db = (case db of None \<Rightarrow> Inr True | Some t \<Rightarrow> verify_rows env 0 GENESIS_HASH t)"

section \<open>Every append verifies\<close>

definition row_ok :: "audit_env \<Rightarrow> nat \<Rightarrow> string \<Rightarrow> audit_row \<Rightarrow> bool" where
  "row_ok env idx prev r \<longleftrightarrow>
     entry_seq r = idx \<and> prev_hash r = prev \<and> entry_hash r = compute_sha256 env (hash_input r) \<and>
     row_error_detail_sig r = map_option (error_detail_sig env (entry_hash r)) (row_error_detail r)"

lemma verify_row_iff: "verify_row env idx prev r = Inr u \<longleftrightarrow> row_ok env idx prev r"
  by (auto simp: verify_row_def row_ok_def verify_detail_def Let_def split: option.splits)

fun chain_ok :: "audit_env \<Rightarrow> nat \<Rightarrow> string \<Rightarrow> audit_table \<Rightarrow> bool" where
  "chain_ok env idx prev [] = True"
| "chain_ok env idx prev (r # rs) \<longleftrightarrow> row_ok env idx prev r \<and> chain_ok env (Suc idx) (entry_hash r) rs"

lemma verify_rows_iff: "verify_rows env idx prev t = Inr b \<longleftrightarrow> b \<and> chain_ok env idx prev t"
proof (induction t arbitrary: idx prev)
  case (Cons r rs)
  show ?case
  proof (cases "verify_row env idx prev r")
    case (Inl e)
    then have "\<not> row_ok env idx prev r"
      using verify_row_iff [of env idx prev r "()"] by auto
    with Inl show ?thesis
      by simp
  next
    case (Inr u)
    then have "row_ok env idx prev r"
      by (simp add: verify_row_iff)
    with Inr Cons.IH show ?thesis
      by simp
  qed
qed auto

lemma chain_ok_append:
  "chain_ok env idx prev (xs @ ys) \<longleftrightarrow>
     chain_ok env idx prev xs \<and> chain_ok env (idx + length xs) (if xs = [] then prev else entry_hash (last xs)) ys"
  by (induction xs arbitrary: idx prev) auto

lemma chain_ok_last_seq: "chain_ok env idx prev t \<Longrightarrow> t \<noteq> [] \<Longrightarrow> entry_seq (last t) = idx + length t - 1"
  by (induction t arbitrary: idx prev) (auto simp: row_ok_def)

lemma tail_of_chain:
  "chain_ok env 0 GENESIS_HASH t \<Longrightarrow> tail_of t = (length t, if t = [] then GENESIS_HASH else entry_hash (last t))"
  using chain_ok_last_seq [of env 0 GENESIS_HASH t] by (cases "t = []") (simp_all add: tail_of_def)

lemma new_row_ok:
  assumes "chain_ok env 0 GENESIS_HASH t"
  shows "row_ok env (length t) (if t = [] then GENESIS_HASH else entry_hash (last t)) (new_row env c files t)"
  using tail_of_chain [OF assms]
  by (auto simp: new_row_def row_ok_def hash_input_def hash_input_v1_def hash_input_v2_def CHAIN_VERSION_def Let_def option.map_comp)

lemma chain_ok_record:
  assumes "chain_ok env 0 GENESIS_HASH t" and "record_entry_with_error env c t = Inr (r, t')"
  shows "chain_ok env 0 GENESIS_HASH t'"
  using assms new_row_ok [OF assms(1)]
  by (auto simp: record_entry_with_error_def chain_ok_append Let_def split: option.splits)

text \<open>The table as a machine: a failed append leaves it as it was.\<close>

definition audit_step :: "audit_env \<Rightarrow> audit_call \<Rightarrow> audit_table \<Rightarrow> audit_table" where
  "audit_step env c t = (case record_entry_with_error env c t of Inl _ \<Rightarrow> t | Inr (r, t') \<Rightarrow> t')"

interpretation audit_machine: invariant_machine "audit_step env" "\<lambda>_ _. True" "[]" "chain_ok env 0 GENESIS_HASH" for env
  by unfold_locales (auto simp: audit_step_def split: sum.splits dest: chain_ok_record)

lemma audit_run_allowed [simp]: "audit_machine.run_allowed env cs t"
  by (induction cs arbitrary: t) auto

lemma verify_db_iff: "verify_db env (Some t) = Inr True \<longleftrightarrow> chain_ok env 0 GENESIS_HASH t"
  by (simp add: verify_db_def verify_rows_iff)

lemma chain_ok_seqs: "chain_ok env idx prev t \<Longrightarrow> map entry_seq t = [idx ..< idx + length t]"
proof (induction t arbitrary: idx prev)
  case (Cons r rs)
  then have "entry_seq r = idx" and "chain_ok env (Suc idx) (entry_hash r) rs"
    by (auto simp: row_ok_def)
  with Cons.IH have "entry_seq r = idx" and "map entry_seq rs = [Suc idx ..< Suc idx + length rs]"
    by blast+
  then show ?case
    by (simp add: upt_rec [of idx] del: upt_Suc)
qed simp

lemma audit_step_row:
  "audit_step env c t = (case files_to_json env (ac_files c) of None \<Rightarrow> t | Some files \<Rightarrow> t @ [new_row env c files t])"
  by (auto simp: audit_step_def record_entry_with_error_def Let_def split: option.splits)

text \<open>What a row says of its call.\<close>

definition row_of_call :: "audit_env \<Rightarrow> audit_call \<Rightarrow> audit_row \<Rightarrow> bool" where
  "row_of_call env c r \<longleftrightarrow>
     timestamp r = ac_now c \<and> session_id r = ac_session c \<and> trace_id r = ac_trace c \<and> row_tool r = ac_tool c \<and>
     args_digest r = compute_sha256 env (ac_args_json c) \<and> row_status r = ac_status c \<and>
     Some (files_json r) = files_to_json env (ac_files c) \<and> secrets_redacted_count r = ac_redacted c \<and>
     row_error_detail r = map_option (to_stored env) (ac_error c)"

lemma row_of_new_row: "files_to_json env (ac_files c) = Some files \<Longrightarrow> row_of_call env c (new_row env c files t)"
  by (simp add: row_of_call_def new_row_def Let_def split_beta)

lemma audit_run_rows:
  assumes "\<And>c. c \<in> set cs \<Longrightarrow> files_to_json env (ac_files c) \<noteq> None"
  shows "\<exists>rs. fold (audit_step env) cs t = t @ rs \<and> list_all2 (row_of_call env) cs rs"
  using assms
proof (induction cs arbitrary: t)
  case (Cons c cs)
  then obtain files where files: "files_to_json env (ac_files c) = Some files"
    by fastforce
  let ?r = "new_row env c files t"
  obtain rs where "fold (audit_step env) cs (t @ [?r]) = (t @ [?r]) @ rs" "list_all2 (row_of_call env) cs rs"
    using Cons by fastforce
  then have "fold (audit_step env) (c # cs) t = t @ ?r # rs \<and> list_all2 (row_of_call env) (c # cs) (?r # rs)"
    by (simp add: audit_step_row files row_of_new_row)
  then show ?case
    by blast
qed simp

text \<open>
  The audit trail is complete and verifies. Whatever calls many processes append to a
  database that verifies, in whatever order, the result verifies again, its sequence numbers are consecutive,
  the rows that were there are untouched, and it has one more row per call, which records that call.
\<close>

theorem audit_trail_complete:
  assumes "verify_db env (Some t) = Inr True" and "\<And>c. c \<in> set cs \<Longrightarrow> files_to_json env (ac_files c) \<noteq> None"
    and "t' = fold (audit_step env) cs t"
  shows "verify_db env (Some t') = Inr True \<and> map entry_seq t' = [0 ..< length t'] \<and>
     (\<exists>rs. t' = t @ rs \<and> list_all2 (row_of_call env) cs rs)"
proof -
  have ok: "chain_ok env 0 GENESIS_HASH t'"
    using assms(1,3) audit_machine.inv_run_from [of env t cs] by (simp add: verify_db_iff)
  then show ?thesis
    using chain_ok_seqs [OF ok] audit_run_rows [OF assms(2)] assms(3) by (simp add: verify_db_iff)
qed

section \<open>What the tail commits to\<close>

lemma chain_tail_cases:
  assumes "chain_ok env 0 GENESIS_HASH (xs @ [a])"
  shows "chain_ok env 0 GENESIS_HASH xs" and "entry_hash a = compute_sha256 env (hash_input a)"
    and "prev_hash a = (if xs = [] then GENESIS_HASH else entry_hash (last xs))"
  using assms by (simp_all add: chain_ok_append row_ok_def)

lemma hash_input_prev: "\<exists>rest. hash_input r = prev_hash r @ rest"
  by (simp add: hash_input_def hash_input_v1_def hash_input_v2_def)

text \<open>No two of the hashed texts collide, none hashes to the genesis value, and every hash has 64 characters.\<close>

definition no_collision :: "audit_env \<Rightarrow> string set \<Rightarrow> bool" where
  "no_collision env texts \<longleftrightarrow>
     inj_on (compute_sha256 env) texts \<and> GENESIS_HASH \<notin> compute_sha256 env ` texts \<and>
     (\<forall>s. length (compute_sha256 env s) = 64)"

lemma chain_prev_length:
  assumes "chain_ok env 0 GENESIS_HASH (xs @ [a])" and "\<forall>s. length (compute_sha256 env s) = 64"
  shows "length (prev_hash a) = 64"
proof (cases xs rule: rev_cases)
  case Nil
  with chain_tail_cases(3) [OF assms(1)] show ?thesis
    by (simp add: GENESIS_HASH_def)
next
  case (snoc ys b)
  with chain_tail_cases [OF assms(1)] have "prev_hash a = compute_sha256 env (hash_input b)"
    using chain_tail_cases(2) by simp
  with assms(2) show ?thesis
    by simp
qed

lemma tail_commits:
  assumes "chain_ok env 0 GENESIS_HASH t" and "chain_ok env 0 GENESIS_HASH u"
    and "no_collision env (hash_input ` (set t \<union> set u))" and "snd (tail_of t) = snd (tail_of u)"
  shows "map hash_input t = map hash_input u \<and> map entry_hash t = map entry_hash u \<and> map prev_hash t = map prev_hash u"
  using assms
proof (induction t arbitrary: u rule: rev_induct)
  case Nil
  then show ?case
    by (cases u rule: rev_cases) (auto simp: tail_of_def no_collision_def chain_ok_append row_ok_def split: if_splits)
next
  case (snoc a xs)
  note len = snoc.prems(3) [unfolded no_collision_def]
  have "u \<noteq> []"
  proof
    assume "u = []"
    with snoc.prems(4) chain_tail_cases(2) [OF snoc.prems(1)] have "compute_sha256 env (hash_input a) = GENESIS_HASH"
      by (simp add: tail_of_def)
    with len show False
      by (metis UnI1 image_eqI in_set_conv_decomp)
  qed
  then obtain ys b where u: "u = ys @ [b]"
    by (cases u rule: rev_cases) auto
  note a = chain_tail_cases [OF snoc.prems(1)] and b = chain_tail_cases [OF snoc.prems(2) [unfolded u]]
  have "compute_sha256 env (hash_input a) = compute_sha256 env (hash_input b)"
    using snoc.prems(4) a(2) b(2) by (simp add: tail_of_def u)
  moreover have "inj_on (compute_sha256 env) (hash_input ` (set (xs @ [a]) \<union> set u))"
    using len by blast
  ultimately have inp: "hash_input a = hash_input b"
    using inj_onD by (metis UnI1 UnI2 imageI in_set_conv_decomp u)
  obtain p q where "prev_hash a @ p = prev_hash b @ q"
    using inp hash_input_prev [of a] hash_input_prev [of b] by metis
  moreover have "length (prev_hash a) = length (prev_hash b)"
    using chain_prev_length [OF snoc.prems(1)] chain_prev_length [OF snoc.prems(2) [unfolded u]] len by simp
  ultimately have "prev_hash a = prev_hash b"
    by simp
  moreover from this have "snd (tail_of xs) = snd (tail_of ys)"
    using a(3) b(3) by (auto simp: tail_of_def split: if_splits)
  moreover have "no_collision env (hash_input ` (set xs \<union> set ys))"
    using len by (auto simp: no_collision_def u intro: inj_on_subset)
  ultimately show ?case
    using snoc.IH [OF a(1) b(1)] inp a(2) b(2) by (simp add: u)
qed


section \<open>What verification does not see\<close>

lemma chain_ok_replace:
  assumes "chain_ok env idx prev (xs @ r # ys)" and "\<And>i p. row_ok env i p r \<Longrightarrow> row_ok env i p r'"
    and "entry_hash r' = entry_hash r"
  shows "chain_ok env idx prev (xs @ r' # ys)"
  using assms by (auto simp: chain_ok_append)

text \<open>
  C40: what the chain does not protect. In a database that verifies, a row's trace id can be changed, its error
  can be erased or replaced by any other text (the binding hash needs no key), characters can move from the tool name to the
  session id next to it, and any number of the last rows can be cut off: verification still succeeds.
\<close>

theorem audit_chain_blind_spots:
  assumes "verify_db env (Some (xs @ r # ys)) = Inr True" and "row_tool r = a @ b"
  shows "verify_db env (Some (xs @ r\<lparr>trace_id := x\<rparr> # ys)) = Inr True \<and>
     verify_db env (Some (xs @ r\<lparr>row_error_detail := None, row_error_detail_sig := None\<rparr> # ys)) = Inr True \<and>
     verify_db env (Some (xs @ r\<lparr>row_error_detail := Some d,
         row_error_detail_sig := Some (error_detail_sig env (entry_hash r) d)\<rparr> # ys)) = Inr True \<and>
     verify_db env (Some (xs @ r\<lparr>session_id := session_id r @ a, row_tool := b\<rparr> # ys)) = Inr True \<and>
     verify_db env (Some xs) = Inr True"
proof -
  have ok: "chain_ok env 0 GENESIS_HASH (xs @ r # ys)"
    using assms(1) by (simp add: verify_db_iff)
  note inputs = row_ok_def hash_input_def hash_input_v1_def hash_input_v2_def
  have "chain_ok env 0 GENESIS_HASH xs"
    using ok by (simp add: chain_ok_append)
  moreover have "chain_ok env 0 GENESIS_HASH (xs @ r' # ys)"
    if "r' \<in> {r\<lparr>trace_id := x\<rparr>, r\<lparr>row_error_detail := None, row_error_detail_sig := None\<rparr>,
      r\<lparr>row_error_detail := Some d, row_error_detail_sig := Some (error_detail_sig env (entry_hash r) d)\<rparr>,
      r\<lparr>session_id := session_id r @ a, row_tool := b\<rparr>}" for r'
    using that assms(2) by (intro chain_ok_replace [OF ok]) (auto simp: inputs)
  ultimately show ?thesis
    by (simp add: verify_db_iff)
qed

section \<open>An example\<close>

text \<open>A stand-in for the hash: 64 characters, the last ones of a marked and padded text.\<close>

definition demo_sha :: "string \<Rightarrow> string" where
  "demo_sha s = take 64 (CHR ''h'' # rev s @ replicate 64 (CHR ''.''))"

definition demo_env :: audit_env where
  "demo_env = \<lparr>compute_sha256 = demo_sha, files_to_json = (\<lambda>fs. Some (concat fs)), to_stored = (\<lambda>e. ed_class e @ ed_message e)\<rparr>"

definition demo_call :: "string \<Rightarrow> error_detail option \<Rightarrow> audit_call" where
  "demo_call now err = \<lparr>ac_now = now, ac_session = ''s1'', ac_trace = Some ''t1'', ac_tool = ''smart_search'', ac_args_json = ''{}'',
     ac_status = (if err = None then ''SUCCESS'' else ''ERROR''), ac_files = [''a.ts''], ac_redacted = 0, ac_error = err\<rparr>"

definition demo_calls :: "audit_call list" where
  "demo_calls = [demo_call ''1'' None, demo_call ''2'' (Some \<lparr>ed_class = ''tool_error'', ed_code = - 32000, ed_message = ''no scope''\<rparr>)]"

definition demo_table :: audit_table where
  "demo_table = fold (audit_step demo_env) demo_calls []"

lemma demo_sha_length [simp]: "length (demo_sha s) = 64"
  by (simp add: demo_sha_def)

lemma demo_sha_hd: "hd (demo_sha s) = CHR ''h''"
  by (simp add: demo_sha_def)

lemma demo_sha_genesis [simp]: "demo_sha s \<noteq> GENESIS_HASH"
  using demo_sha_hd [of s] by (auto simp: GENESIS_HASH_def)

theorem audit_trail_complete_witness:
  "verify_db demo_env (Some demo_table) = Inr True \<and> map entry_seq demo_table = [0 ..< length demo_table]"
proof -
  have "verify_db demo_env (Some []) = Inr True"
    by (simp add: verify_db_def)
  moreover have "files_to_json demo_env fs \<noteq> None" for fs
    by (simp add: demo_env_def)
  ultimately show ?thesis
    using audit_trail_complete [of demo_env "[]" demo_calls demo_table] by (simp add: demo_table_def)
qed

text \<open>The same history with the trace id of the first row edited: it verifies and has the same tail.\<close>

definition demo_edited :: audit_table where
  "demo_edited = (case demo_table of r # rs \<Rightarrow> r\<lparr>trace_id := None\<rparr> # rs | [] \<Rightarrow> [])"

lemma demo_texts: "distinct (map (\<lambda>r. demo_sha (hash_input r)) demo_table) \<and> map hash_input demo_edited = map hash_input demo_table"
  by code_simp

lemma demo_verified: "verify_db demo_env (Some demo_table) = Inr True" "verify_db demo_env (Some demo_edited) = Inr True"
  "snd (tail_of demo_table) = snd (tail_of demo_edited)"
  by code_simp+

lemma demo_no_collision: "no_collision demo_env (hash_input ` (set demo_table \<union> set demo_edited))"
proof -
  have "hash_input ` (set demo_table \<union> set demo_edited) = set (map hash_input demo_table)"
    using demo_texts by (metis image_Un list.set_map sup.idem)
  moreover have "inj_on demo_sha (set (map hash_input demo_table))"
    using demo_texts distinct_map [of demo_sha "map hash_input demo_table"] by (simp add: comp_def)
  ultimately show ?thesis
    using demo_sha_genesis by (auto simp: no_collision_def demo_env_def dest!: sym [of GENESIS_HASH])
qed


definition demo_first :: audit_row where
  "demo_first = hd demo_table"

lemma demo_split: "demo_table = [] @ demo_first # tl demo_table" "row_tool demo_first = ''smart'' @ ''_search''"
  by code_simp+

theorem audit_chain_blind_spots_witness:
  "verify_db demo_env (Some ([] @ demo_first\<lparr>session_id := session_id demo_first @ ''smart'', row_tool := ''_search''\<rparr> # tl demo_table)) = Inr True"
  using audit_chain_blind_spots [of demo_env "[]" demo_first "tl demo_table"] demo_split demo_verified(1) by metis

end
