(* ===== verification/Error_Sanitizer.thy ===== *)
theory Error_Sanitizer
  imports Audit_Chain
begin

text \<open>
  What is kept of an error message in the audit trail: \<^verbatim>\<open>sanitize_error_message\<close> and its helpers of
  \<^verbatim>\<open>crates/mesh-core/src/audit.rs\<close>. Positions are byte offsets, texts are ASCII.
\<close>

section \<open>Finding secrets\<close>

definition MAX_ERROR_MESSAGE_CHARS :: nat where
  "MAX_ERROR_MESSAGE_CHARS = 200"

definition REDACTED :: string where
  "REDACTED = ''[REDACTED_SECRET: USE_ENV_OR_LOCAL_FALLBACK]''"

definition SECRET_KEYS :: "string list" where
  "SECRET_KEYS = [''password'', ''passwd'', ''secret'', ''token'', ''credential'', ''passphrase'', ''private'', ''jwt'', ''cert'',
     ''apikey'', ''api_key'', ''api-key'', ''access_key'', ''signing_key'', ''authorization'']"

definition SECRET_PREFIXES :: "string list" where
  "SECRET_PREFIXES = [''sk-'', ''ghp_'', ''gho_'', ''ghs_'', ''xoxb-'', ''xoxp-'', ''AKIA'']"

definition DQUOTE :: char where
  "DQUOTE = CHR 0x22"

definition SQUOTE :: char where
  "SQUOTE = CHR 0x27"

definition BACKQUOTE :: char where
  "BACKQUOTE = CHR 0x60"

definition BACKSLASH :: char where
  "BACKSLASH = CHR 0x5C"

definition is_token_char :: "char \<Rightarrow> bool" where
  "is_token_char c \<longleftrightarrow> is_ascii_alphanumeric c \<or> c = CHR ''_'' \<or> c = CHR ''-''"

definition is_blob_char :: "char \<Rightarrow> bool" where
  "is_blob_char c \<longleftrightarrow> is_token_char c \<or> c \<in> set ''.+=''"

definition looks_like_secret_blob :: "string \<Rightarrow> bool" where
  "looks_like_secret_blob run \<longleftrightarrow>
     length run \<ge> 32 \<and>
     (let digit = list_ex is_ascii_digit run; upper = list_ex is_ascii_upper run; lower = list_ex is_ascii_lower run in
      if list_all is_ascii_alphanumeric run then digit \<and> (upper \<or> lower) else digit \<and> upper \<and> lower)"

type_synonym range = "nat \<times> nat"

text \<open>The offset after the longest run from \<^term>\<open>i\<close> on of characters that satisfy \<^term>\<open>P\<close>.\<close>

definition skip_while :: "(char \<Rightarrow> bool) \<Rightarrow> string \<Rightarrow> nat \<Rightarrow> nat" where
  "skip_while P s i = i + length (takeWhile P (drop i s))"

definition ends_value :: "char \<Rightarrow> bool" where
  "ends_value c \<longleftrightarrow> is_whitespace c \<or> c \<in> set (DQUOTE # SQUOTE # '',;&})>'')"

definition value_end :: "string \<Rightarrow> nat \<Rightarrow> nat" where
  "value_end s start = skip_while (\<lambda>c. \<not> ends_value c) s start"

text \<open>\<^verbatim>\<open>while let Some(pos) = s[from..].find(p)\<close>: the offsets after the occurrences, without overlap.\<close>

function ends_of :: "string \<Rightarrow> string \<Rightarrow> nat \<Rightarrow> nat list" where
  "ends_of p s beg =
     (case find_str p (drop beg s) of
        None \<Rightarrow> []
      | Some pos \<Rightarrow>
          let stop = beg + pos + length p in
          if p = [] then [] else stop # ends_of p s stop)"
  by pat_completeness auto
termination
proof (relation "measure (\<lambda>(p, s, beg). length s - beg)")
  fix p s beg pos stop
  assume "find_str p (drop beg s) = Some pos" and "stop = beg + pos + length p" and "p \<noteq> []"
  then show "((p, s, stop), p, s, beg) \<in> measure (\<lambda>(p, s, beg). length s - beg)"
    using find_str_shorter [of p "drop beg s" pos] by (cases p) auto
qed simp

declare ends_of.simps [simp del]

definition key_value :: "string \<Rightarrow> nat \<Rightarrow> range list" where
  "key_value s after_key =
     (let i = skip_while (\<lambda>c. c \<in> set (DQUOTE # SQUOTE # '' '')) s (skip_while is_token_char s after_key) in
      if i < length s \<and> s ! i \<in> set ''=:'' then
        (let j = skip_while (\<lambda>c. c \<in> set (DQUOTE # SQUOTE # '' '')) s (i + 1); e = value_end s j in
         if e > j then [(j, e)] else [])
      else [])"

definition slice :: "string \<Rightarrow> nat \<Rightarrow> nat \<Rightarrow> string" where
  "slice s a b = take (b - a) (drop a s)"

definition credential_shaped :: "nat \<Rightarrow> string \<Rightarrow> bool" where
  "credential_shaped min_len word \<longleftrightarrow>
     length word \<ge> min_len \<and> list_all (\<lambda>c. is_blob_char c \<or> c = CHR ''/'') word \<and>
     (list_ex is_ascii_digit word \<or> list_ex is_ascii_upper word \<and> list_ex is_ascii_lower word)"

definition scheme_value :: "nat \<Rightarrow> string \<Rightarrow> nat \<Rightarrow> range list" where
  "scheme_value min_len s start =
     (let e = value_end s start in if credential_shaped min_len (slice s start e) then [(start, e)] else [])"

definition ends_authority :: "char \<Rightarrow> bool" where
  "ends_authority c \<longleftrightarrow> c \<in> set (DQUOTE # SQUOTE # ''/?#)'') \<or> is_whitespace c"

definition userinfo :: "string \<Rightarrow> nat \<Rightarrow> range list" where
  "userinfo s start =
     (case rfind_str ''@'' (slice s start (skip_while (\<lambda>c. \<not> ends_authority c) s start)) of
        Some at \<Rightarrow> if at > 0 then [(start, start + at)] else []
      | None \<Rightarrow> [])"

definition starts_token :: "char \<Rightarrow> bool" where
  "starts_token c \<longleftrightarrow> is_whitespace c \<or> c \<in> set (DQUOTE # SQUOTE # ''/(<'')"

definition bare_userinfo :: "string \<Rightarrow> nat \<Rightarrow> range list" where
  "bare_userinfo s at =
     (let start = at - length (takeWhile (\<lambda>c. \<not> starts_token c) (rev (take at s))) in
      if CHR '':'' \<in> set (slice s start at) then [(start, at)] else [])"

definition is_jwt :: "string \<Rightarrow> bool" where
  "is_jwt blob \<longleftrightarrow>
     (let segments = split CHR ''.'' blob in
      length segments = 3 \<and> length blob \<ge> 20 \<and> list_all (\<lambda>t. t \<noteq> [] \<and> list_all is_token_char t) segments \<and>
      (starts_with (hd segments) ''eyJ'' \<or> list_all (\<lambda>t. length t \<ge> 10) segments))"

fun secret_parts :: "nat \<Rightarrow> string list \<Rightarrow> range list" where
  "secret_parts off [] = []"
| "secret_parts off (part # parts) =
     (if looks_like_secret_blob part then [(off, off + length part)] else []) @ secret_parts (off + length part + 1) parts"

definition blob_ranges :: "nat \<Rightarrow> string \<Rightarrow> range list" where
  "blob_ranges idx blob =
     (if is_jwt blob \<or> length blob \<ge> 16 \<and> list_ex (starts_with blob) SECRET_PREFIXES then [(idx, idx + length blob)]
      else secret_parts idx (split CHR ''.'' blob))"

function blobs :: "string \<Rightarrow> nat \<Rightarrow> range list" where
  "blobs s idx =
     (if length s \<le> idx then []
      else if \<not> is_blob_char (s ! idx) then blobs s (idx + 1)
      else let stop = skip_while is_blob_char s idx in blob_ranges idx (slice s idx stop) @ blobs s stop)"
  by pat_completeness auto
termination
proof (relation "measure (\<lambda>(s, idx). length s - idx)")
  fix s :: string and idx stop
  assume less: "\<not> length s \<le> idx" and blob: "\<not> \<not> is_blob_char (s ! idx)" and stop: "stop = skip_while is_blob_char s idx"
  have "drop idx s = s ! idx # drop (Suc idx) s"
    using less by (simp add: Cons_nth_drop_Suc)
  with blob stop have "stop > idx"
    by (simp add: skip_while_def)
  with less show "((s, stop), s, idx) \<in> measure (\<lambda>(s, idx). length s - idx)"
    by auto
qed auto

declare blobs.simps [simp del]

definition raw_ranges :: "string \<Rightarrow> range list" where
  "raw_ranges s =
     (let lower = to_lowercase s in
      concat (map (\<lambda>key. concat (map (key_value s) (ends_of key lower 0))) SECRET_KEYS) @
      concat (map (\<lambda>(scheme, min_len). concat (map (scheme_value min_len s) (ends_of scheme lower 0)))
        [(''bearer '', 16), (''basic '', 8)]) @
      concat (map (userinfo s) (ends_of ''://'' s 0)) @
      concat (map (bare_userinfo s) (filter (\<lambda>i. s ! i = CHR ''@'') [0 ..< length s])) @
      blobs s 0)"

definition merge_range :: "range \<Rightarrow> range list \<Rightarrow> range list" where
  "merge_range r merged =
     (if merged \<noteq> [] \<and> fst r \<le> snd (last merged)
      then butlast merged @ [(fst (last merged), max (snd (last merged)) (snd r))]
      else merged @ [r])"

definition secret_ranges :: "string \<Rightarrow> range list" where
  "secret_ranges s = fold merge_range (sort (raw_ranges s)) []"

fun redact_from :: "nat \<Rightarrow> range list \<Rightarrow> string \<Rightarrow> string" where
  "redact_from cursor [] text = drop cursor text"
| "redact_from cursor ((a, b) # rs) text = slice text cursor a @ REDACTED @ redact_from b rs text"

section \<open>Echoed values and home directories\<close>

definition MARKERS :: "string list" where
  "MARKERS = [''invalid type: '', ''invalid value: '', ''unknown variant '', ''unknown field '']"

text \<open>The marker that occurs first, and the first of them in the list on a tie.\<close>

fun first_marker :: "string list \<Rightarrow> string \<Rightarrow> (nat \<times> string) option" where
  "first_marker [] rest = None"
| "first_marker (m # ms) rest =
     (case (find_str m rest, first_marker ms rest) of
        (Some i, Some (j, m')) \<Rightarrow> if i \<le> j then Some (i, m) else Some (j, m')
      | (Some i, None) \<Rightarrow> Some (i, m)
      | (None, r) \<Rightarrow> r)"

definition find_char :: "(char \<Rightarrow> bool) \<Rightarrow> string \<Rightarrow> nat option" where
  "find_char P s = (if list_ex P s then Some (length (takeWhile (\<lambda>c. \<not> P c) s)) else None)"

fun close_quote :: "char \<Rightarrow> bool \<Rightarrow> nat \<Rightarrow> string \<Rightarrow> nat option" where
  "close_quote open esc off [] = None"
| "close_quote open esc off (c # cs) =
     (if open = DQUOTE \<and> esc then close_quote open False (Suc off) cs
      else if open = DQUOTE \<and> c = BACKSLASH then close_quote open True (Suc off) cs
      else if c = open then Some off
      else close_quote open esc (Suc off) cs)"

lemma first_marker_Some: "first_marker ms rest = Some (i, m) \<Longrightarrow> m \<in> set ms \<and> find_str m rest = Some i"
  by (induction ms arbitrary: i m) (auto split: option.splits if_splits)

function strip_from :: "string \<Rightarrow> string" where
  "strip_from rest =
     (case first_marker MARKERS rest of
        None \<Rightarrow> rest
      | Some (pos, marker) \<Rightarrow>
          let tail = drop (pos + length marker) rest;
              first_quote = find_char (\<lambda>c. c = DQUOTE \<or> c = BACKQUOTE) tail;
              expected_at = find_str '', expected'' tail;
              kept = take (pos + length marker) rest;
              quote = (case (first_quote, expected_at) of
                         (Some q, Some e) \<Rightarrow> if e < q then None else first_quote
                       | _ \<Rightarrow> first_quote) in
          case quote of
            None \<Rightarrow>
              (if expected_at = None \<and> first_quote = None then kept @ tail
               else let keep = (case expected_at of Some e \<Rightarrow> e | None \<Rightarrow> length tail) in
                    kept @ take keep tail @ strip_from (drop keep tail))
          | Some q \<Rightarrow>
              kept @ take q tail @ ''<value>'' @
              (case close_quote (tail ! q) False 0 (drop (Suc q) tail) of
                 Some c \<Rightarrow> strip_from (drop (Suc c) (drop (Suc q) tail))
               | None \<Rightarrow> []))"
  by pat_completeness auto
termination
proof -
  have shorter: "length rest > length (drop (pos + length marker) rest)"
    if "first_marker MARKERS rest = Some (pos, marker)" for pos marker rest
  proof -
    have "find_str marker rest = Some pos" "marker \<noteq> []"
      using first_marker_Some [OF that] by (auto simp: MARKERS_def)
    then show ?thesis
      using find_str_shorter [of marker rest pos] by (cases marker) auto
  qed
  show ?thesis
    by (relation "measure length") (auto dest!: shorter)
qed

declare strip_from.simps [simp del]

definition strip_serde_values :: "string \<Rightarrow> string" where
  "strip_serde_values raw = strip_from raw"

definition ends_home :: "char \<Rightarrow> bool" where
  "ends_home c \<longleftrightarrow> c \<in> set [CHR ''/'', BACKSLASH, DQUOTE, SQUOTE] \<or> is_whitespace c"

function collapse_marker :: "string \<Rightarrow> string \<Rightarrow> string" where
  "collapse_marker marker rest =
     (case find_str marker rest of
        None \<Rightarrow> rest
      | Some pos \<Rightarrow>
          if marker = [] then rest else
          let before = take pos rest;
              after = drop (pos + length marker) rest;
              at_token_start = (before = [] \<or> is_whitespace (last before) \<or>
                last before \<in> set (DQUOTE # SQUOTE # BACKQUOTE # ''(=:''));
              drive = (hd marker = BACKSLASH \<and> length before \<ge> 2 \<and> last before = CHR '':'' \<and>
                is_ascii_alphabetic (before ! (length before - 2))) in
          if \<not> (at_token_start \<or> drive) then take (pos + length marker) rest @ collapse_marker marker after
          else (if drive then take (length before - 2) before else before) @ ''~'' @
               collapse_marker marker (dropWhile (\<lambda>c. \<not> ends_home c) after))"
  by pat_completeness auto
termination
proof -
  have shorter: "length (drop (pos + length marker) rest) < length rest"
    if "find_str marker rest = Some pos" "marker \<noteq> []" for marker rest :: string and pos
    using find_str_shorter [OF that(2,1)] that(2) by (cases marker) auto
  have shorter': "length (dropWhile P (drop (pos + length marker) rest)) < length rest"
    if "find_str marker rest = Some pos" "marker \<noteq> []" for marker rest :: string and pos P
    using le_less_trans [OF length_dropWhile_le shorter [OF that]] .
  show ?thesis
    by (relation "measure (\<lambda>(m, r). length r)") (auto simp del: length_drop intro: shorter shorter')
qed

declare collapse_marker.simps [simp del]

definition collapse_home :: "string \<Rightarrow> string option \<Rightarrow> string" where
  "collapse_home s home =
     (let out = (case home of Some h \<Rightarrow> if length h > 1 then replace_str h ''~'' s else s | None \<Rightarrow> s) in
      fold collapse_marker [''/Users/'', ''/home/'', BACKSLASH # ''Users'' @ [BACKSLASH]] out)"

definition is_control :: "char \<Rightarrow> bool" where
  "is_control c \<longleftrightarrow> c < CHR '' '' \<or> c = CHR 0x7F"

definition split_whitespace :: "string \<Rightarrow> string list" where
  "split_whitespace s = filter (\<lambda>w. w \<noteq> []) (split_pred is_whitespace s)"

definition flatten_text :: "string \<Rightarrow> string" where
  "flatten_text s = join_with '' '' (split_whitespace (map (\<lambda>c. if is_control c then CHR '' '' else c) s))"

definition sanitize_error_message :: "string \<Rightarrow> string option \<Rightarrow> string" where
  "sanitize_error_message raw home =
     (let text = strip_serde_values raw;
          redacted = redact_from 0 (secret_ranges text) text;
          flat = flatten_text (collapse_home redacted home) in
      if length flat > MAX_ERROR_MESSAGE_CHARS then take (MAX_ERROR_MESSAGE_CHARS - 3) flat @ ''...'' else flat)"

definition sanitized_with_home :: "string \<Rightarrow> int \<Rightarrow> string \<Rightarrow> string option \<Rightarrow> error_detail" where
  "sanitized_with_home class code raw home =
     \<lparr>ed_class = take 40 class, ed_code = code, ed_message = sanitize_error_message raw home\<rparr>"

section \<open>The ranges are in order and in the text\<close>

definition covered :: "range list \<Rightarrow> nat set" where
  "covered rs = (\<Union>(a, b) \<in> set rs. {a ..< b})"

lemma covered_simps [simp]:
  "covered [] = {}" "covered (r # rs) = {fst r ..< snd r} \<union> covered rs" "covered (xs @ ys) = covered xs \<union> covered ys"
  by (auto simp: covered_def split_beta)

definition ranges_in :: "nat \<Rightarrow> range list \<Rightarrow> bool" where
  "ranges_in n rs \<longleftrightarrow> list_all (\<lambda>(a, b). a < b \<and> b \<le> n) rs"

definition apart :: "range list \<Rightarrow> bool" where
  "apart rs \<longleftrightarrow> sorted_wrt (\<lambda>r r'. snd r < fst r') rs"

lemma ranges_in_simps [simp]:
  "ranges_in n []" "ranges_in n (r # rs) \<longleftrightarrow> fst r < snd r \<and> snd r \<le> n \<and> ranges_in n rs"
  "ranges_in n (xs @ ys) \<longleftrightarrow> ranges_in n xs \<and> ranges_in n ys"
  by (auto simp: ranges_in_def split_beta)

lemma ranges_in_concat: "ranges_in n (concat rss) \<longleftrightarrow> list_all (ranges_in n) rss"
  by (induction rss) auto

lemma skip_while_le: "i \<le> length s \<Longrightarrow> skip_while P s i \<le> length s"
  using length_takeWhile_le [of P "drop i s"] by (auto simp: skip_while_def)

lemma skip_while_ge: "i \<le> skip_while P s i"
  by (simp add: skip_while_def)

lemma length_slice [simp]: "b \<le> length s \<Longrightarrow> length (slice s a b) = b - a"
  by (simp add: slice_def)

lemma ends_of_bounds: "e \<in> set (ends_of p s beg) \<Longrightarrow> e \<le> length s"
proof (induction p s beg rule: ends_of.induct)
  case (1 p s beg)
  show ?case
  proof (cases "find_str p (drop beg s)")
    case (Some pos)
    have "take (length p) (drop (beg + pos) s) = p"
      using find_str_Some [OF Some] by (simp add: starts_with_def add.commute)
    then have "length p \<le> length s - (beg + pos)"
      by (metis length_drop length_take min.cobounded1 min.commute)
    moreover have "pos \<le> length (drop beg s)"
      using find_str_Some [OF Some] by simp
    ultimately show ?thesis
      using 1 Some by (cases p) (auto simp: ends_of.simps [of _ s beg] Let_def)
  qed (use 1 in \<open>simp add: ends_of.simps [of p s beg]\<close>)
qed

lemma rfind_str_bound: "rfind_str p s = Some i \<Longrightarrow> i \<le> length s"
  by (induction s arbitrary: i) (auto split: option.splits if_splits)

lemma key_value_in: "i \<le> length s \<Longrightarrow> ranges_in (length s) (key_value s i)"
  by (auto simp: key_value_def value_end_def Let_def intro!: skip_while_le)

lemma scheme_value_in: "i \<le> length s \<Longrightarrow> 0 < n \<Longrightarrow> ranges_in (length s) (scheme_value n s i)"
  by (auto simp: scheme_value_def value_end_def credential_shaped_def Let_def skip_while_le)

lemma userinfo_in: "i \<le> length s \<Longrightarrow> ranges_in (length s) (userinfo s i)"
proof -
  assume i: "i \<le> length s"
  let ?e = "skip_while (\<lambda>c. \<not> ends_authority c) s i"
  have "i + at \<le> length s" if "rfind_str ''@'' (slice s i ?e) = Some at" for at
    using rfind_str_bound [OF that] skip_while_le [OF i, of "\<lambda>c. \<not> ends_authority c"]
      skip_while_ge [of i "\<lambda>c. \<not> ends_authority c" s] by simp
  then show ?thesis
    by (auto simp: userinfo_def split: option.splits)
qed

lemma bare_userinfo_in: "i \<le> length s \<Longrightarrow> ranges_in (length s) (bare_userinfo s i)"
  by (auto simp: bare_userinfo_def Let_def slice_def intro: ccontr)

lemma secret_parts_in:
  "off + length (join_with [c] parts) \<le> n \<Longrightarrow> ranges_in n (secret_parts off parts)"
proof (induction off parts rule: secret_parts.induct)
  case (2 off part parts)
  then have "parts \<noteq> [] \<Longrightarrow> off + length part + 1 + length (join_with [c] parts) \<le> n" and "off + length part \<le> n"
    by (cases parts; simp)+
  with 2 show ?case
    by (cases parts) (auto simp: looks_like_secret_blob_def)
qed simp

lemma blob_ranges_in: "idx + length blob \<le> n \<Longrightarrow> ranges_in n (blob_ranges idx blob)"
  using secret_parts_in [of idx "CHR ''.''" "split CHR ''.'' blob" n]
  by (auto simp: blob_ranges_def is_jwt_def Let_def join_split)

lemma blobs_in: "ranges_in (length s) (blobs s idx)"
proof (induction s idx rule: blobs.induct)
  case (1 s idx)
  then show ?case
    using skip_while_le [of idx s is_blob_char] skip_while_ge [of idx is_blob_char s]
    by (auto simp: blobs.simps [of s idx] Let_def intro!: blob_ranges_in)
qed

lemma raw_ranges_in: "ranges_in (length s) (raw_ranges s)"
proof -
  have "e \<le> length s" if "e \<in> set (ends_of p (to_lowercase s) 0)" for e p
    using ends_of_bounds [OF that] by simp
  then show ?thesis
    by (auto simp: raw_ranges_def Let_def ranges_in_concat list_all_iff blobs_in
        intro!: key_value_in scheme_value_in userinfo_in bare_userinfo_in dest: ends_of_bounds)
qed

text \<open>Merging sorted ranges keeps what they cover and separates them.\<close>

lemma merge_range_step:
  assumes "apart merged" and "ranges_in n merged" and "fst r < snd r" and "snd r \<le> n"
    and "merged \<noteq> [] \<Longrightarrow> fst (last merged) \<le> fst r"
  shows "apart (merge_range r merged)" and "ranges_in n (merge_range r merged)"
    and "covered (merge_range r merged) = covered merged \<union> {fst r ..< snd r}"
    and "fst (last (merge_range r merged)) \<le> fst r" and "merge_range r merged \<noteq> []"
proof -
  show "merge_range r merged \<noteq> []"
    by (simp add: merge_range_def)
  show "apart (merge_range r merged)" and "ranges_in n (merge_range r merged)"
    and "covered (merge_range r merged) = covered merged \<union> {fst r ..< snd r}" and "fst (last (merge_range r merged)) \<le> fst r"
  proof (atomize (full), cases merged rule: rev_cases)
    case Nil
    with assms show "(apart (merge_range r merged) \<and> ranges_in n (merge_range r merged)) \<and>
        covered (merge_range r merged) = covered merged \<union> {fst r ..< snd r} \<and> fst (last (merge_range r merged)) \<le> fst r"
      by (simp add: merge_range_def apart_def)
  next
    case (snoc ys l)
    then have ys: "\<And>r'. r' \<in> set ys \<Longrightarrow> snd r' < fst l" and "apart ys" and le: "fst l \<le> fst r" "fst l < snd l"
      using assms by (auto simp: apart_def sorted_wrt_append)
    have eq: "{fst l ..< max (snd l) (snd r)} = {fst l ..< snd l} \<union> {fst r ..< snd r}" if "fst r \<le> snd l"
      using that le by (auto simp: max_def)
    show "(apart (merge_range r merged) \<and> ranges_in n (merge_range r merged)) \<and>
        covered (merge_range r merged) = covered merged \<union> {fst r ..< snd r} \<and> fst (last (merge_range r merged)) \<le> fst r"
      using snoc assms ys \<open>apart ys\<close> le eq
      by (cases "fst r \<le> snd l") (fastforce simp: merge_range_def apart_def sorted_wrt_append)+
  qed
qed

lemma merge_ranges:
  assumes "sorted rs" and "ranges_in n rs" and "apart merged" and "ranges_in n merged"
    and "\<And>r. merged \<noteq> [] \<Longrightarrow> r \<in> set rs \<Longrightarrow> fst (last merged) \<le> fst r"
  shows "apart (fold merge_range rs merged) \<and> ranges_in n (fold merge_range rs merged) \<and>
     covered (fold merge_range rs merged) = covered merged \<union> covered rs"
  using assms
proof (induction rs arbitrary: merged)
  case (Cons r rs)
  have first: "fst r \<le> fst r'" if "r' \<in> set rs" for r'
    using Cons.prems(1) that by (auto simp: less_eq_prod_def)
  note step = merge_range_step [of merged n r]
  have "fst (last (merge_range r merged)) \<le> fst r'" if "r' \<in> set rs" for r'
    using step(4) first [OF that] Cons.prems by fastforce
  then show ?case
    using Cons.IH [of "merge_range r merged"] step Cons.prems by (auto simp: Un_ac)
qed simp

lemma secret_ranges_spec:
  "apart (secret_ranges s) \<and> ranges_in (length s) (secret_ranges s) \<and> covered (secret_ranges s) = covered (raw_ranges s)"
proof -
  have "ranges_in (length s) (sort (raw_ranges s))" and "covered (sort (raw_ranges s)) = covered (raw_ranges s)"
    using raw_ranges_in [of s] by (simp_all add: ranges_in_def list_all_iff covered_def)
  with merge_ranges [of "sort (raw_ranges s)" "length s" "[]"] show ?thesis
    by (simp add: secret_ranges_def apart_def)
qed

section \<open>What is left of a text\<close>

text \<open>Each position of the text on its own: a mark where a range begins, nothing inside one, else the character.\<close>

definition chunk :: "range list \<Rightarrow> string \<Rightarrow> nat \<Rightarrow> string" where
  "chunk rs s i = (if i \<in> fst ` set rs then REDACTED else if i \<in> covered rs then [] else [s ! i])"

definition masked :: "range list \<Rightarrow> string \<Rightarrow> nat \<Rightarrow> nat \<Rightarrow> string" where
  "masked rs s a b = concat (map (chunk rs s) [a ..< b])"

lemma masked_append: "a \<le> b \<Longrightarrow> b \<le> c \<Longrightarrow> masked rs s a c = masked rs s a b @ masked rs s b c"
  by (metis concat_append le_Suc_ex map_append masked_def upt_add_eq_append)

lemma masked_cong:
  "(\<And>i. a \<le> i \<Longrightarrow> i < b \<Longrightarrow> chunk rs s i = chunk rs' s i) \<Longrightarrow> masked rs s a b = masked rs' s a b"
  unfolding masked_def by (intro arg_cong [where f = concat] map_cong) auto

lemma masked_plain:
  assumes "\<And>i. a \<le> i \<Longrightarrow> i < b \<Longrightarrow> i \<notin> covered rs \<and> i \<notin> fst ` set rs" and "b \<le> length s"
  shows "masked rs s a b = slice s a b"
proof -
  have "masked rs s a b = concat (map (\<lambda>i. [s ! i]) [a ..< b])"
    unfolding masked_def using assms(1) by (intro arg_cong [where f = concat] map_cong) (auto simp: chunk_def)
  also have "\<dots> = slice s a b"
    using assms(2) by (intro nth_equalityI) (auto simp: slice_def)
  finally show ?thesis .
qed

lemma masked_range:
  assumes "a < b" and "fst ` set rs \<inter> {a <..< b} = {}"
  shows "masked ((a, b) # rs) s a b = REDACTED"
proof -
  have "[a ..< b] = a # [Suc a ..< b]"
    using assms(1) by (simp add: upt_rec)
  moreover have "concat (map (chunk ((a, b) # rs) s) [Suc a ..< b]) = []"
    using assms(2) by (auto simp: chunk_def)
  ultimately show ?thesis
    by (simp add: masked_def chunk_def)
qed

lemma apart_Cons: "apart (r # rs) \<longleftrightarrow> apart rs \<and> (\<forall>r' \<in> set rs. snd r < fst r')"
  by (auto simp: apart_def)

lemma covered_ge: "(\<And>r. r \<in> set rs \<Longrightarrow> n \<le> fst r) \<Longrightarrow> i \<in> covered rs \<Longrightarrow> n \<le> i"
  by (fastforce simp: covered_def)

lemma redact_from_masked:
  assumes "apart rs" and "ranges_in (length s) rs" and "cursor \<le> length s" and "\<And>r. r \<in> set rs \<Longrightarrow> cursor \<le> fst r"
  shows "redact_from cursor rs s = masked rs s cursor (length s)"
  using assms
proof (induction rs arbitrary: cursor)
  case Nil
  then show ?case
    by (simp add: masked_plain slice_def)
next
  case (Cons r rs)
  obtain a b where r: "r = (a, b)"
    by fastforce
  have ab: "cursor \<le> a" "a < b" "b \<le> length s" and later: "\<And>r'. r' \<in> set rs \<Longrightarrow> b < fst r'"
    using Cons.prems(1,2) Cons.prems(4) [of r] by (auto simp: r apart_Cons)
  have beyond: "i \<notin> covered rs" "i \<notin> fst ` set rs" if "i \<le> b" for i
    using that later covered_ge [of rs "Suc b" i] by fastforce+
  have "masked (r # rs) s cursor (length s) = masked (r # rs) s cursor a @ masked (r # rs) s a b @ masked (r # rs) s b (length s)"
    using ab masked_append [of cursor a "length s"] masked_append [of a b "length s"] by simp
  moreover have "masked (r # rs) s cursor a = slice s cursor a"
    using ab beyond by (intro masked_plain) (auto simp: r)
  moreover have "masked (r # rs) s a b = REDACTED"
    unfolding r using beyond(2)
    by (intro masked_range [OF ab(2)]) (metis disjoint_iff greaterThanLessThan_iff less_imp_le)
  moreover have "masked (r # rs) s b (length s) = masked rs s b (length s)"
    using ab by (intro masked_cong) (auto simp: chunk_def r)
  moreover have "redact_from b rs s = masked rs s b (length s)"
    using Cons.IH [of b] Cons.prems ab later by (fastforce simp: apart_Cons)
  ultimately show ?case
    by (simp add: r)
qed

lemma redact_masked:
  "redact_from 0 (secret_ranges s) s = masked (secret_ranges s) s 0 (length s)"
  using secret_ranges_spec [of s] by (intro redact_from_masked) auto

section \<open>Every value of a secret key is masked\<close>

text \<open>A pattern that cannot overlap itself is found wherever it occurs.\<close>

definition unbordered :: "string \<Rightarrow> bool" where
  "unbordered p \<longleftrightarrow> list_all (\<lambda>k. drop k p \<noteq> take (length p - k) p) [1 ..< length p]"

lemma secret_keys_unbordered: "list_all (\<lambda>p. p \<noteq> [] \<and> unbordered p) SECRET_KEYS"
  by code_simp

lemma overlap_border:
  assumes "take (length p) (drop i s) = p" and "take (length p) (drop (i + k) s) = p" and "k < length p"
  shows "drop k p = take (length p - k) p"
proof -
  have "drop k p = take (length p - k) (drop (i + k) s)"
    using assms(1) by (metis drop_drop drop_take add.commute)
  also have "\<dots> = take (length p - k) (take (length p) (drop (i + k) s))"
    by (simp add: min_def)
  finally show ?thesis
    using assms(2) by simp
qed

lemma find_str_least: "find_str p s = Some i \<Longrightarrow> starts_with (drop j s) p \<Longrightarrow> j \<le> length s \<Longrightarrow> i \<le> j"
proof (induction s arbitrary: i j)
  case (Cons c cs)
  then show ?case
    by (cases j) (auto split: if_splits)
qed (auto split: if_splits)

lemma ends_of_complete:
  assumes "unbordered p" and "p \<noteq> []" and "starts_with (drop i s) p" and "beg \<le> i"
  shows "i + length p \<in> set (ends_of p s beg)"
  using assms
proof (induction p s beg rule: ends_of.induct)
  case (1 p s beg)
  have i: "i < length s"
    using 1(3,4) by (cases "i < length s") (auto simp: starts_with_def)
  then have at: "starts_with (drop (i - beg) (drop beg s)) p" "i - beg \<le> length (drop beg s)"
    using 1 by simp_all
  obtain pos where pos: "find_str p (drop beg s) = Some pos"
    using at find_str_None by (cases "find_str p (drop beg s)") blast+
  have le: "pos \<le> i - beg"
    using find_str_least [OF pos at] .
  have "i + length p \<in> set (ends_of p s (beg + pos + length p))" if ne: "i \<noteq> beg + pos"
  proof -
    define k where "k = i - (beg + pos)"
    have k: "i = beg + pos + k" "k > 0"
      using le ne 1(5) by (auto simp: k_def)
    have "\<not> k < length p"
    proof
      assume less: "k < length p"
      have "take (length p) (drop (beg + pos) s) = p" "take (length p) (drop (beg + pos + k) s) = p"
        using find_str_Some [OF pos] 1(4) k by (simp_all add: starts_with_def add.commute)
      from overlap_border [OF this less] have "drop k p = take (length p - k) p" .
      with 1(2) less k(2) show False
        by (auto simp: unbordered_def list_all_iff)
    qed
    then show ?thesis
      using "1.IH" [OF pos refl] 1(2-4) k by auto
  qed
  then show ?case
    using pos 1(3) by (auto simp: ends_of.simps [of p s beg] Let_def)
qed

lemma skip_while_run:
  assumes "s = pre @ run @ post" and "\<And>c. c \<in> set run \<Longrightarrow> P c" and "post \<noteq> [] \<Longrightarrow> \<not> P (hd post)"
  shows "skip_while P s (length pre) = length pre + length run"
proof -
  have "takeWhile P (run @ post) = run"
    using assms(2,3) by (cases post) (simp_all add: takeWhile_append)
  then show ?thesis
    by (simp add: skip_while_def assms(1))
qed

lemma separators_not_token: "list_all (\<lambda>c. \<not> is_token_char c) (DQUOTE # SQUOTE # '' =:'')"
  by code_simp

lemma key_value_masked:
  assumes s: "s = pre @ key @ sfx @ gap @ [sep] @ gap' @ v @ post"
    and sfx: "\<And>c. c \<in> set sfx \<Longrightarrow> is_token_char c"
    and gap: "\<And>c. c \<in> set gap \<union> set gap' \<Longrightarrow> c \<in> set (DQUOTE # SQUOTE # '' '')"
    and sep: "sep = CHR ''='' \<or> sep = CHR '':''"
    and v: "v \<noteq> []" "\<And>c. c \<in> set v \<Longrightarrow> \<not> ends_value c"
  shows "\<exists>e. key_value s (length (pre @ key)) = [(length (pre @ key @ sfx @ gap @ [sep] @ gap'), e)] \<and>
     length (pre @ key @ sfx @ gap @ [sep] @ gap') + length v \<le> e"
proof -
  let ?gap = "\<lambda>c. c \<in> set (DQUOTE # SQUOTE # '' '')"
  let ?i = "length (pre @ key @ sfx @ gap)"
  let ?j = "length (pre @ key @ sfx @ gap @ [sep] @ gap')"
  have not_token: "\<not> is_token_char (hd (gap @ sep # r))" for r
    using separators_not_token sep gap [of "hd gap"] by (cases gap) auto
  have a: "skip_while is_token_char s (length (pre @ key)) = length (pre @ key @ sfx)"
    using skip_while_run [of s "pre @ key" sfx "gap @ [sep] @ gap' @ v @ post" is_token_char] s sfx not_token by simp
  have b: "skip_while ?gap s (length (pre @ key @ sfx)) = ?i"
    using skip_while_run [of s "pre @ key @ sfx" gap "[sep] @ gap' @ v @ post" ?gap] s gap sep
    by (auto simp: DQUOTE_def SQUOTE_def)
  have "\<not> ?gap (hd v)"
    using v by (cases v) (auto simp: ends_value_def is_whitespace_def)
  then have c: "skip_while ?gap s (length (pre @ key @ sfx @ gap @ [sep])) = ?j"
    using skip_while_run [of s "pre @ key @ sfx @ gap @ [sep]" gap' "v @ post" ?gap] s gap v(1) by auto
  have at: "?i < length s" "s ! ?i = sep"
    by (simp_all add: s nth_append)
  have "takeWhile (\<lambda>c. \<not> ends_value c) (v @ post) = v @ takeWhile (\<lambda>c. \<not> ends_value c) post"
    using v(2) by simp
  then have e: "value_end s ?j = ?j + length v + length (takeWhile (\<lambda>c. \<not> ends_value c) post)"
    by (simp add: value_end_def skip_while_def s)
  show ?thesis
    unfolding key_value_def a b Let_def
    using at sep c e v(1) by (auto simp: s)
qed

lemma ends_of_lower:
  assumes "s = pre @ key @ rest" and "to_lowercase key \<in> set SECRET_KEYS"
  shows "length (pre @ key) \<in> set (ends_of (to_lowercase key) (to_lowercase s) 0)"
proof -
  have "unbordered (to_lowercase key)" "to_lowercase key \<noteq> []"
    using secret_keys_unbordered assms(2) by (auto simp: list_all_iff)
  moreover have "starts_with (drop (length pre) (to_lowercase s)) (to_lowercase key)"
    by (simp add: assms(1) starts_with_def to_lowercase_def)
  ultimately show ?thesis
    using ends_of_complete [of "to_lowercase key" "length pre" "to_lowercase s" 0] by simp
qed


definition demo_text :: string where
  "demo_text = ''bad DB_PASSWORD = hunter2, retry''"


section \<open>The stored message\<close>

lemma join_with_chars:
  "c \<in> set (join_with sep ws) \<Longrightarrow> c \<in> set sep \<or> (\<exists>w \<in> set ws. c \<in> set w)"
  by (induction sep ws rule: join_with.induct) auto

lemma split_pred_chars: "w \<in> set (split_pred P s) \<Longrightarrow> c \<in> set w \<Longrightarrow> c \<in> set s"
proof (induction s arbitrary: w)
  case IH: (Cons a s)
  show ?case
  proof (cases "split_pred P s")
    case (Cons t ts)
    then show ?thesis
      using IH(1) [of t] IH(1) [of w] IH(2,3) by (auto split: if_splits)
  qed simp
qed simp

lemma flatten_text_printable:
  assumes "c \<in> set (flatten_text s)"
  shows "\<not> is_control c"
proof -
  have space: "\<not> is_control (CHR '' '')"
    by code_simp
  let ?flat = "map (\<lambda>c. if is_control c then CHR '' '' else c) s"
  have "c = CHR '' '' \<or> (\<exists>w \<in> set (split_pred is_whitespace ?flat). c \<in> set w)"
    using join_with_chars [OF assms [unfolded flatten_text_def split_whitespace_def]] by auto
  then consider "c = CHR '' ''" | "c \<in> set ?flat"
    using split_pred_chars by fast
  then show ?thesis
    by cases (auto simp: space)
qed

text \<open>
  Whatever a tool reports, the stored error message has at most 200 characters and is one line without
  control characters, and its class has at most 40.
\<close>

theorem sanitized_bounded:
  "length (ed_message (sanitized_with_home class code raw home)) \<le> MAX_ERROR_MESSAGE_CHARS \<and>
   list_all (\<lambda>c. \<not> is_control c) (ed_message (sanitized_with_home class code raw home)) \<and>
   length (ed_class (sanitized_with_home class code raw home)) \<le> 40"
proof -
  have dot: "\<not> is_control (CHR ''.'')"
    by code_simp
  show ?thesis
    using flatten_text_printable dot
    by (auto simp: sanitized_with_home_def sanitize_error_message_def Let_def list_all_iff MAX_ERROR_MESSAGE_CHARS_def
        dest!: in_set_takeD)
qed

text \<open>
  A value in quotes is masked up to its first blank only: the rest of a quoted secret of several words
  is stored in the clear.
\<close>

theorem quoted_secret_leaks:
  "sanitize_error_message (''login failed: password='' @ [DQUOTE] @ ''correct horse battery'' @ [DQUOTE]) None =
     ''login failed: password='' @ [DQUOTE] @ REDACTED @ '' horse battery'' @ [DQUOTE]"
  by code_simp

end
