(* ===== verification/Output_Cap.thy ===== *)
theory Output_Cap
  imports Index_Health
begin

text \<open>
  The cap on tool output of \<^verbatim>\<open>crates/mesh-server/src/tools/mod.rs\<close>: a payload over 48 KB is cut on a line boundary,
  an open Markdown fence is closed, and a note says so. Texts are byte strings in UTF-8.
\<close>

section \<open>Cutting\<close>

definition MAX_TOOL_OUTPUT_BYTES :: nat where
  "MAX_TOOL_OUTPUT_BYTES = 48 * 1024"

definition MAX_TRUNCATION_HINT_BYTES :: nat where
  "MAX_TRUNCATION_HINT_BYTES = 512"

definition is_char_boundary :: "string \<Rightarrow> nat \<Rightarrow> bool" where
  "is_char_boundary s i \<longleftrightarrow> i = 0 \<or> i = length s \<or> i < length s \<and> \<not> (CHR 0x80 \<le> s ! i \<and> s ! i < CHR 0xC0)"

text \<open>\<^verbatim>\<open>while !s.is_char_boundary(cut) { cut -= 1; }\<close>\<close>

fun floor_boundary :: "string \<Rightarrow> nat \<Rightarrow> nat" where
  "floor_boundary s 0 = 0"
| "floor_boundary s (Suc n) = (if is_char_boundary s (Suc n) then Suc n else floor_boundary s n)"

definition truncation_note :: "string \<Rightarrow> string" where
  "truncation_note hint0 =
     (let hint = replace_chars {CHR 0x0A, CHR 0x0D} (CHR '' '') hint0;
          hint' = (if length hint > MAX_TRUNCATION_HINT_BYTES
                   then take (floor_boundary hint MAX_TRUNCATION_HINT_BYTES) hint @ ELLIPSIS else hint) in
      NEWLINE @ NEWLINE @ ''> [!NOTE]'' @ NEWLINE @
      ''> Output payload truncated to fit within maximum MCP output payload cap (48 KB). '' @ hint' @ NEWLINE)"

text \<open>The fence a line may be: its character, the length of its run and what follows the run.\<close>

definition fence_line :: "string \<Rightarrow> (char \<times> nat \<times> string) option" where
  "fence_line line =
     (let rest = dropWhile (\<lambda>c. c = CHR '' '') line in
      if length line - length rest > 3 then None
      else case rest of
        [] \<Rightarrow> None
      | c # _ \<Rightarrow>
          if c \<noteq> CHR 0x60 \<and> c \<noteq> CHR ''~'' then None
          else let run = length (takeWhile (\<lambda>x. x = c) rest) in
               if run < 3 then None else Some (c, run, drop run rest))"

definition fence_step :: "string \<Rightarrow> (char \<times> nat) option \<Rightarrow> (char \<times> nat) option" where
  "fence_step line opened =
     (case fence_line line of
        None \<Rightarrow> opened
      | Some (c, run, after) \<Rightarrow>
          (case opened of
             None \<Rightarrow> if c = CHR 0x60 \<and> CHR 0x60 \<in> set after then None else Some (c, run)
           | Some (oc, on) \<Rightarrow> if c = oc \<and> run \<ge> on \<and> trim after = [] then None else opened))"

definition fence_state :: "string \<Rightarrow> (char \<times> nat) option" where
  "fence_state body = fold fence_step (str_lines body) None"

definition open_fence :: "string \<Rightarrow> string option" where
  "open_fence body = map_option (\<lambda>(c, n). replicate n c) (fence_state body)"

definition line_cut :: "string \<Rightarrow> nat \<Rightarrow> nat" where
  "line_cut body budget =
     (let cut = floor_boundary body (min budget (length body)) in
      case rfind_str NEWLINE (take cut body) of
        Some nl \<Rightarrow> if nl \<ge> cut div 2 then nl else cut
      | None \<Rightarrow> cut)"

text \<open>The loop over the room kept for the closing fence; it ends because the room only grows.\<close>

function truncate_loop :: "string \<Rightarrow> nat \<Rightarrow> nat \<Rightarrow> string" where
  "truncate_loop body budget reserve =
     (let cut = line_cut body (budget - reserve);
          fence = open_fence (take cut body);
          need = (case fence of Some f \<Rightarrow> length f + 1 | None \<Rightarrow> 0) in
      if cut + need \<le> budget \<or> need \<le> reserve \<or> reserve \<ge> budget
      then take cut body @ (case fence of Some f \<Rightarrow> NEWLINE @ f | None \<Rightarrow> [])
      else truncate_loop body budget need)"
  by pat_completeness auto
termination by (relation "measure (\<lambda>(body, budget, reserve). budget - reserve)") auto

declare truncate_loop.simps [simp del]

definition truncate_markdown :: "string \<Rightarrow> nat \<Rightarrow> string" where
  "truncate_markdown body budget = (if length body \<le> budget then body else truncate_loop body budget 0)"

definition cap_output :: "string \<Rightarrow> string \<Rightarrow> string" where
  "cap_output hint body =
     (if length body > MAX_TOOL_OUTPUT_BYTES
      then let note = truncation_note hint in truncate_markdown body (MAX_TOOL_OUTPUT_BYTES - length note) @ note
      else body)"

section \<open>Lengths\<close>

lemma floor_boundary_le: "floor_boundary s n \<le> n"
  by (induction n) (auto intro: le_SucI)

lemma rfind_str_le: "rfind_str p s = Some i \<Longrightarrow> i \<le> length s"
  by (induction s arbitrary: i) (auto split: option.splits if_splits)

lemma line_cut_le: "line_cut body budget \<le> budget" "line_cut body budget \<le> length body"
proof -
  let ?cut = "floor_boundary body (min budget (length body))"
  have cut: "?cut \<le> budget" "?cut \<le> length body"
    using floor_boundary_le [of body "min budget (length body)"] by auto
  have "nl \<le> ?cut" if "rfind_str NEWLINE (take ?cut body) = Some nl" for nl
    using rfind_str_le [OF that] by simp
  with cut show "line_cut body budget \<le> budget" "line_cut body budget \<le> length body"
    by (fastforce simp: line_cut_def Let_def split: option.splits)+
qed

lemma open_fence_Nil [simp]: "open_fence [] = None"
  by (simp add: open_fence_def fence_state_def str_lines_def)

lemma truncate_loop_length: "length (truncate_loop body budget reserve) \<le> budget"
proof (induction body budget reserve rule: truncate_loop.induct)
  case (1 body budget reserve)
  let ?cut = "line_cut body (budget - reserve)"
  let ?need = "case open_fence (take ?cut body) of Some f \<Rightarrow> length f + 1 | None \<Rightarrow> 0"
  have len: "length (take ?cut body @ (case open_fence (take ?cut body) of Some f \<Rightarrow> NEWLINE @ f | None \<Rightarrow> [])) = ?cut + ?need"
    using line_cut_le(2) [of body "budget - reserve"] by (auto simp: NEWLINE_def split: option.splits)
  have le: "?cut \<le> budget - reserve"
    by (rule line_cut_le)
  show ?case
  proof (cases "?cut + ?need \<le> budget \<or> ?need \<le> reserve \<or> reserve \<ge> budget")
    case True
    have "?cut + ?need \<le> budget"
    proof (cases "reserve \<ge> budget")
      case True
      with le have "?cut = 0"
        by simp
      then show ?thesis
        by simp
    qed (use True le in auto)
    with True len show ?thesis
      by (simp add: truncate_loop.simps [of body budget reserve] Let_def)
  next
    case False
    with 1 show ?thesis
      by (simp add: truncate_loop.simps [of body budget reserve] Let_def)
  qed
qed

lemma truncate_markdown_length: "length (truncate_markdown body budget) \<le> budget"
  by (simp add: truncate_markdown_def truncate_loop_length)

lemma truncation_note_length: "length (truncation_note hint) \<le> 700"
  using floor_boundary_le [of "replace_chars {CHR 0x0A, CHR 0x0D} (CHR '' '') hint" MAX_TRUNCATION_HINT_BYTES]
  by (simp add: truncation_note_def Let_def NEWLINE_def ELLIPSIS_def MAX_TRUNCATION_HINT_BYTES_def)

section \<open>Fences\<close>

text \<open>A carriage return at the end of a line and empty lines do not matter to a fence.\<close>

lemma fence_line_cr:
  "fence_line (l @ [CHR 0x0D]) = map_option (\<lambda>(c, n, after). (c, n, after @ [CHR 0x0D])) (fence_line l)"
proof (cases "list_all (\<lambda>c. c = CHR '' '') l")
  case True
  then have "dropWhile (\<lambda>c. c = CHR '' '') l = []"
    by (simp add: list_all_iff)
  moreover have "dropWhile (\<lambda>c. c = CHR '' '') (l @ [CHR 0x0D]) = [CHR 0x0D]"
    using True by (simp add: list_all_iff dropWhile_append2)
  ultimately show ?thesis
    unfolding fence_line_def Let_def by (simp only:) simp
next
  case False
  define rest where "rest = dropWhile (\<lambda>c. c = CHR '' '') l"
  have "rest \<noteq> []"
    using False by (simp add: rest_def list_all_iff)
  then obtain c cs where rest: "rest = c # cs"
    by (cases rest) auto
  have drop: "dropWhile (\<lambda>c. c = CHR '' '') (l @ [CHR 0x0D]) = rest @ [CHR 0x0D]"
    using False by (auto simp: rest_def list_all_iff dropWhile_append1)
  have indent: "length (l @ [CHR 0x0D]) - length (rest @ [CHR 0x0D]) = length l - length rest"
    by simp
  have run: "takeWhile (\<lambda>x. x = c) (rest @ [CHR 0x0D]) = takeWhile (\<lambda>x. x = c) rest" if "c = CHR 0x60 \<or> c = CHR ''~''"
    using that by (intro takeWhile_tail) auto
  have le: "length (takeWhile (\<lambda>x. x = c) rest) \<le> length rest"
    by (rule length_takeWhile_le)
  show ?thesis
  proof (cases "c = CHR 0x60 \<or> c = CHR ''~''")
    case True
    with run le show ?thesis
      unfolding fence_line_def drop indent Let_def rest_def [symmetric] by (auto simp: rest)
  next
    case other: False
    then show ?thesis
      unfolding fence_line_def drop indent Let_def rest_def [symmetric] by (simp add: rest)
  qed
qed

lemma trim_cr: "trim (a @ [CHR 0x0D]) = [] \<longleftrightarrow> trim a = []"
proof -
  have "is_whitespace (CHR 0x0D)"
    by (simp add: is_whitespace_def)
  then have "dropWhile is_whitespace (a @ [CHR 0x0D]) = [] \<longleftrightarrow> dropWhile is_whitespace a = []"
    by simp
  moreover have "trim s = [] \<longleftrightarrow> dropWhile is_whitespace s = []" for s
  proof -
    have "trim s = [] \<longleftrightarrow> (\<forall>c \<in> set (dropWhile is_whitespace s). is_whitespace c)"
      by (simp add: trim_def trim_matches_def)
    then show ?thesis
      by (metis dropWhile_eq_Nil_conv hd_dropWhile list.set_sel(1) list.set(1) empty_iff)
  qed
  ultimately show ?thesis
    by simp
qed

lemma fence_step_cr [simp]: "fence_step (strip_cr l) st = fence_step l st"
proof (cases "ends_with l [CHR 0x0D]")
  case True
  then obtain l' where l: "l = l' @ [CHR 0x0D]"
    by (metis ends_with_def rev_rev_ident rev_append rev_singleton_conv starts_with_prefix prefix_def append_Cons append_Nil rev.simps(2))
  then have "strip_cr l = l'"
    by (simp add: strip_cr_def strip_suffix_def ends_with_def starts_with_def)
  then show ?thesis
    by (auto simp: l fence_step_def fence_line_cr trim_cr split: option.splits)
qed (simp add: strip_cr_def strip_suffix_def)

lemma fence_step_Nil [simp]: "fence_step [] st = st"
  by (simp add: fence_step_def fence_line_def)

lemma fence_step_quote [simp]: "fence_step (CHR ''>'' # l) st = st"
  by (simp add: fence_step_def fence_line_def)

lemma split_append_sep: "split c (x @ c # y) = split c x @ split c y"
proof (induction x)
  case (Cons a x)
  then show ?case
    by (cases "split c x") (auto split: list.splits)
qed simp

definition fences :: "string \<Rightarrow> (char \<times> nat) option \<Rightarrow> (char \<times> nat) option" where
  "fences s st = fold fence_step (split CHR 0x0A s) st"

lemma fold_fence_cr [simp]: "fold fence_step (map strip_cr ls) st = fold fence_step ls st"
  by (induction ls arbitrary: st) auto

lemma fold_str_lines: "fold fence_step (str_lines s) st = fences s st"
proof -
  let ?ls = "split CHR 0x0A s"
  have "?ls = butlast ?ls @ [last ?ls]"
    by simp
  then have "fold fence_step ?ls st = fence_step (last ?ls) (fold fence_step (butlast ?ls) st)"
    by (metis fold_append fold_simps comp_apply)
  then show ?thesis
    by (simp add: str_lines_def Let_def fences_def)
qed

lemma fences_append: "fences (x @ CHR 0x0A # y) st = fences y (fences x st)"
  by (simp add: fences_def split_append_sep)

lemma fences_line: "CHR 0x0A \<notin> set l \<Longrightarrow> fences l st = fence_step l st"
  by (subst fences_def, subst split_pred_id) auto

lemma open_fence_fences: "open_fence s = map_option (\<lambda>(c, n). replicate n c) (fences s None)"
  by (simp add: open_fence_def fence_state_def fold_str_lines)

text \<open>An open fence has at least three of its characters, and as many of them on a line close it.\<close>

definition fence_ok :: "(char \<times> nat) option \<Rightarrow> bool" where
  "fence_ok st \<longleftrightarrow> (case st of None \<Rightarrow> True | Some (c, n) \<Rightarrow> 3 \<le> n \<and> (c = CHR 0x60 \<or> c = CHR ''~''))"

lemma fence_ok_step: "fence_ok st \<Longrightarrow> fence_ok (fence_step l st)"
  by (auto simp: fence_ok_def fence_step_def fence_line_def Let_def split: option.splits if_splits list.splits)

lemma fence_ok_fences: "fence_ok (fences s None)"
proof -
  have "fence_ok st \<Longrightarrow> fence_ok (fold fence_step ls st)" for ls st
    by (induction ls arbitrary: st) (auto simp: fence_ok_step)
  then show ?thesis
    by (simp add: fences_def fence_ok_def)
qed

lemma fence_closes:
  assumes "3 \<le> n" and "c = CHR 0x60 \<or> c = CHR ''~''"
  shows "fences (replicate n c) (Some (c, n)) = None"
proof -
  obtain m where n: "n = Suc m"
    using assms(1) by (cases n) auto
  have rest: "dropWhile (\<lambda>x. x = CHR '' '') (replicate n c) = replicate n c"
    using assms(2) by (auto simp: n)
  have "fence_line (replicate n c) = Some (c, n, [])"
    unfolding fence_line_def rest Let_def using assms by (auto simp: n)
  then have "fence_step (replicate n c) (Some (c, n)) = None"
    by (simp add: fence_step_def trim_def trim_matches_def)
  moreover have "CHR 0x0A \<notin> set (replicate n c)"
    using assms(2) by auto
  ultimately show ?thesis
    by (simp add: fences_line)
qed

lemma truncate_loop_closed: "open_fence (truncate_loop body budget reserve) = None"
proof (induction body budget reserve rule: truncate_loop.induct)
  case (1 body budget reserve)
  let ?cut = "take (line_cut body (budget - reserve)) body"
  have "open_fence (?cut @ (case open_fence ?cut of Some f \<Rightarrow> NEWLINE @ f | None \<Rightarrow> [])) = None"
  proof (cases "fences ?cut None")
    case None
    then show ?thesis
      by (simp add: open_fence_fences)
  next
    case (Some cn)
    obtain c n where cn: "cn = (c, n)"
      by fastforce
    have "3 \<le> n" "c = CHR 0x60 \<or> c = CHR ''~''"
      using fence_ok_fences [of ?cut] by (auto simp: Some cn fence_ok_def)
    then show ?thesis
      using fence_closes [of n c] by (simp add: open_fence_fences Some cn NEWLINE_def fences_append)
  qed
  with 1 show ?case
    by (auto simp: truncate_loop.simps [of body budget reserve] Let_def)
qed

lemma truncation_note_fences: "fences (x @ truncation_note hint) st = fences x st"
proof -
  have lines: "fences (CHR ''>'' # l @ [CHR 0x0A]) st = st" if "CHR 0x0A \<notin> set l" for l st
    using that fences_append [of "CHR ''>'' # l" "[]" st] by (simp add: fences_line)
  have flat: "CHR 0x0A \<notin> set (replace_chars {CHR 0x0A, CHR 0x0D} (CHR '' '') h)" for h
    by (auto simp: replace_chars_def)
  define rest where "rest = ''> Output payload truncated to fit within maximum MCP output payload cap (48 KB). ''"
  have "\<exists>h. truncation_note hint = CHR 0x0A # CHR 0x0A # ''> [!NOTE]'' @ CHR 0x0A # rest @ h @ [CHR 0x0A] \<and> CHR 0x0A \<notin> set h"
    using flat [of hint] by (fastforce simp: truncation_note_def Let_def NEWLINE_def ELLIPSIS_def rest_def dest: in_set_takeD)
  then obtain h where note': "truncation_note hint = CHR 0x0A # ([] @ CHR 0x0A # (''> [!NOTE]'' @ CHR 0x0A # rest @ h @ [CHR 0x0A]))"
    and h: "CHR 0x0A \<notin> set h"
    by auto
  have "fences (rest @ h @ [CHR 0x0A]) st' = st'" for st'
    using lines [of "tl rest @ h" st'] h by (simp add: rest_def)
  moreover have "fences ''> [!NOTE]'' st' = st'" "fences [] st' = st'" for st'
    by (subst fences_line; simp)+
  ultimately show ?thesis
    unfolding note' fences_append by simp
qed

text \<open>
  C35: whatever a tool returns and whatever it echoes in its hint, what is sent is at most 48 KB, and a payload that
  was cut never ends inside a code fence, so the note after it is read as prose.
\<close>

theorem output_capped:
  "length (cap_output hint body) \<le> MAX_TOOL_OUTPUT_BYTES \<and>
   (length body > MAX_TOOL_OUTPUT_BYTES \<longrightarrow> open_fence (cap_output hint body) = None) \<and>
   (length body \<le> MAX_TOOL_OUTPUT_BYTES \<longrightarrow> cap_output hint body = body)"
proof -
  let ?b = "MAX_TOOL_OUTPUT_BYTES - length (truncation_note hint)"
  have "length (truncation_note hint) \<le> MAX_TOOL_OUTPUT_BYTES"
    using truncation_note_length [of hint] by (simp add: MAX_TOOL_OUTPUT_BYTES_def)
  moreover have "open_fence (truncate_markdown body ?b) = None" if "length body > MAX_TOOL_OUTPUT_BYTES"
  proof -
    have "\<not> length body \<le> ?b"
      using that by simp
    then show ?thesis
      by (simp add: truncate_markdown_def truncate_loop_closed)
  qed
  ultimately show ?thesis
    using truncate_markdown_length [of body ?b]
    by (auto simp: cap_output_def Let_def open_fence_fences truncation_note_fences)
qed

theorem output_capped_witness:
  "length (cap_output ''narrow the scope'' (replicate 50000 (CHR ''x''))) \<le> MAX_TOOL_OUTPUT_BYTES \<and>
   open_fence (cap_output ''narrow the scope'' (replicate 50000 (CHR ''x''))) = None"
proof -
  have "length (replicate 50000 (CHR ''x'')) > MAX_TOOL_OUTPUT_BYTES"
    by (simp add: MAX_TOOL_OUTPUT_BYTES_def)
  then show ?thesis
    using output_capped by blast
qed

end
