(* ===== verification/Tool_Dispatch.thy ===== *)
theory Tool_Dispatch
  imports Config_Reload Error_Sanitizer Output_Cap
begin

text \<open>
  The dispatch of a tool call: the governance engine of \<^verbatim>\<open>crates/mesh-core/src/governance.rs\<close>, \<^verbatim>\<open>ToolRegistry::invoke\<close>
  of \<^verbatim>\<open>crates/mesh-server/src/tools/mod.rs\<close> and the JSON-RPC layer of \<^verbatim>\<open>crates/mesh-server/src/protocol.rs\<close> and
  \<^verbatim>\<open>crates/mesh-server/src/lib.rs\<close>. A tool is the record of the methods of the trait \<^verbatim>\<open>McpTool\<close>. Parameters: JSON
  (parsing, serializing), the files of the skills, the clock, and the note of the Git watcher.
\<close>

section \<open>Governance\<close>

record rsah_workflow =
  step_1 :: string
  step_2 :: string
  step_3 :: string
  step_4 :: string

record rsah_response =
  rsah_status :: string
  rsah_policy :: string
  violation :: string
  required_workflow :: rsah_workflow
  agent_next_action :: string
  message_to_user :: string

text \<open>Rules and skills in the iteration order of their hash maps.\<close>

record governance_engine =
  ge_stop_rules :: "(string \<times> string) list"
  ge_skills :: "(string \<times> string) list"
  ge_mode :: read_governance_mode

definition quoted :: "string \<Rightarrow> string" where
  "quoted s = SQUOTE # s @ [SQUOTE]"

definition get_skill_path :: "governance_engine \<Rightarrow> string \<Rightarrow> string option" where
  "get_skill_path g key = map_of (ge_skills g) key"

text \<open>\<^verbatim>\<open>max_by_key\<close>: the last of the longest keys.\<close>

definition longer_key :: "string \<times> string \<Rightarrow> (string \<times> string) option \<Rightarrow> (string \<times> string) option" where
  "longer_key kv best =
     (case best of None \<Rightarrow> Some kv | Some b \<Rightarrow> if length (fst b) \<le> length (fst kv) then Some kv else best)"

definition recommend_skill :: "governance_engine \<Rightarrow> string \<Rightarrow> string option \<Rightarrow> string option" where
  "recommend_skill g tool subject =
     (case get_skill_path g tool of
        Some path \<Rightarrow> Some path
      | None \<Rightarrow> Option.bind subject (\<lambda>sub.
          map_option snd (fold longer_key
            (filter (\<lambda>(key, _). str_contains (to_lowercase sub) (to_lowercase key)) (ge_skills g)) None)))"

definition is_separator :: "char \<Rightarrow> bool" where
  "is_separator c \<longleftrightarrow> c = CHR ''/'' \<or> c = BACKSLASH"

definition has_path_segment :: "string \<Rightarrow> string \<Rightarrow> bool" where
  "has_path_segment haystack seg \<longleftrightarrow> seg \<noteq> [] \<and> seg \<in> set (split_pred is_separator haystack)"

definition build_rsah_response :: "string \<Rightarrow> string \<Rightarrow> rsah_response" where
  "build_rsah_response key rule =
     (let lower_key = to_lowercase key in
      if str_contains lower_key ''proto'' then
        \<lparr>rsah_status = ''GOVERNANCE_BLOCKED'', rsah_policy = ''CONTRACT_FIRST_CASCADE_CI'',
         violation = ''Guarded contract boundary '' @ quoted key @ '' accessed. '' @ rule,
         required_workflow =
           \<lparr>step_1 = ''Validate schema syntax and breaking changes in '' @ quoted key,
            step_2 = ''Commit changes exclusively inside '' @ quoted key,
            step_3 = ''Submit contract review and verify CI schema generation for '' @ quoted key,
            step_4 = ''Do not modify downstream services until the generated contract packages are published.''\<rparr>,
         agent_next_action = ''STOP_AND_REPORT_TO_USER'',
         message_to_user = ''Detected mutation targeting contract in '' @ quoted key @
           ''. Per active architecture governance: submit contract changes and await CI verification before adapting downstream consumers. '' @
           rule\<rparr>
      else if str_contains lower_key ''k8s'' \<or> str_contains lower_key ''infra'' \<or> str_contains lower_key ''deploy'' then
        \<lparr>rsah_status = ''GOVERNANCE_BLOCKED'', rsah_policy = ''INFRASTRUCTURE_AS_CODE_REVIEW'',
         violation = ''Guarded infrastructure boundary '' @ quoted key @ '' accessed. '' @ rule,
         required_workflow =
           \<lparr>step_1 = ''Review infrastructure resource specifications in '' @ quoted key,
            step_2 = ''Run manifest linter and policy compliance checks'',
            step_3 = ''Submit changes to infrastructure review board'',
            step_4 = ''Await infrastructure deployment synchronization''\<rparr>,
         agent_next_action = ''STOP_AND_REPORT_TO_USER'',
         message_to_user = ''Modifying infrastructure in '' @ quoted key @ '' requires mandatory operational review. '' @ rule\<rparr>
      else
        \<lparr>rsah_status = ''GOVERNANCE_BLOCKED'', rsah_policy = ''ACTIVE_GOVERNANCE_POLICY'',
         violation = ''Action blocked by active rule for '' @ quoted key @ '': '' @ rule,
         required_workflow =
           \<lparr>step_1 = ''Verify policy for '' @ quoted key, step_2 = ''Obtain human confirmation'',
            step_3 = ''Apply isolated modifications'', step_4 = ''Verify downstream dependencies''\<rparr>,
         agent_next_action = ''STOP_AND_REPORT_TO_USER'',
         message_to_user = ''This action requires human validation per the active rule: '' @ rule\<rparr>)"

definition evaluate_guard :: "governance_engine \<Rightarrow> string \<Rightarrow> rsah_response option" where
  "evaluate_guard g target =
     map_option (\<lambda>(key, rule). build_rsah_response key rule)
       (find (\<lambda>(key, rule). has_path_segment (to_lowercase target) (to_lowercase key)) (ge_stop_rules g))"

text \<open>The part of \<^verbatim>\<open>AppState::new\<close> that builds the engine, and \<^verbatim>\<open>AppState::audit_enabled\<close>.\<close>

definition engine_of :: "config \<Rightarrow> governance_engine" where
  "engine_of c =
     (case ec_policy (cfg_engines c) of
        Some p \<Rightarrow>
          if policy_enabled p
          then \<lparr>ge_stop_rules = pc_stop_rules p, ge_skills = pc_skills p, ge_mode = pc_read_governance_mode p\<rparr>
          else \<lparr>ge_stop_rules = [], ge_skills = [], ge_mode = AllowAll\<rparr>
      | None \<Rightarrow> \<lparr>ge_stop_rules = [], ge_skills = [], ge_mode = AllowAll\<rparr>)"

definition audit_enabled :: "config \<Rightarrow> bool" where
  "audit_enabled c = (case ec_policy (cfg_engines c) of Some p \<Rightarrow> cryptographic_audit_trail p | None \<Rightarrow> True)"

section \<open>One tool call\<close>

type_synonym tool_error = "int \<times> string"

definition GOVERNANCE_BLOCKED_CODE :: int where
  "GOVERNANCE_BLOCKED_CODE = - 32001"

record tool_output =
  out_text :: string
  out_files :: "string list"
  out_redacted :: nat

record ('j, 'a, 's) mcp_tool =
  t_name :: string
  t_parse :: "'j \<Rightarrow> string + 'a"
  t_trace_id :: "'a \<Rightarrow> string option"
  t_run :: "'a \<Rightarrow> 's \<Rightarrow> tool_error + tool_output"
  t_truncation_hint :: "'a \<Rightarrow> 's \<Rightarrow> string option"
  t_subject :: "'a \<Rightarrow> string option"
  t_mutates :: "'a \<Rightarrow> bool"
  t_returns_document :: "'a \<Rightarrow> bool"
  t_args_json :: "'a \<Rightarrow> string"

record 's app =
  app_config :: config
  app_snapshot :: 's
  app_audit :: audit_table
  app_latencies :: "(nat \<times> nat) list"

text \<open>What one call reads of the world: the clock, the elapsed time, the files, the Git state and the serializers.\<close>

record 'j call_env =
  ce_audit :: audit_env
  ce_now :: string
  ce_micros :: nat
  ce_read :: "string \<Rightarrow> string option"
  ce_git_note :: "string option"
  ce_home :: "string option"
  ce_raw_json :: "'j \<Rightarrow> string"
  ce_rsah_json :: "rsah_response \<Rightarrow> string option"

fun error_class :: "int \<Rightarrow> string" where
  "error_class code =
     (if code = - 32602 then ''invalid_params'' else if code = - 32603 then ''internal_error''
      else if code = - 32601 then ''method_not_found'' else if code = - 32600 then ''invalid_request''
      else if code = GOVERNANCE_BLOCKED_CODE then ''governance_refusal'' else ''tool_error'')"

definition SKILL_TITLE_MAX_BYTES :: nat where
  "SKILL_TITLE_MAX_BYTES = 200"

definition clamp_title :: "string \<Rightarrow> string" where
  "clamp_title title =
     (if length title \<le> SKILL_TITLE_MAX_BYTES then title
      else take (floor_boundary title SKILL_TITLE_MAX_BYTES) title @ ELLIPSIS)"

fun skill_title_in :: "string list \<Rightarrow> string option" where
  "skill_title_in [] = None"
| "skill_title_in (l # ls) =
     (let line = trim l;
          described = (case strip_prefix ''description:'' line of
            None \<Rightarrow> []
          | Some rest \<Rightarrow> trim (trim_matches (\<lambda>c. c \<in> set (DQUOTE # SQUOTE # ''>|'')) (trim rest))) in
      if described \<noteq> [] then Some (clamp_title described)
      else case strip_prefix ''# '' line of
        Some rest \<Rightarrow> Some (clamp_title (trim rest))
      | None \<Rightarrow> skill_title_in ls)"

definition skill_title :: "string \<Rightarrow> string option" where
  "skill_title content = skill_title_in (take 20 (str_lines content))"

definition EM_DASH :: string where
  "EM_DASH = [CHR 0xE2, CHR 0x80, CHR 0x94]"

definition render_skill_hint :: "(string \<Rightarrow> string option) \<Rightarrow> string \<Rightarrow> string" where
  "render_skill_hint read skill_path =
     NEWLINE @ ''---'' @ NEWLINE @ ''**Project skill for this area**: '' @ [BACKQUOTE] @ skill_path @ [BACKQUOTE] @
     (case Option.bind (read skill_path) skill_title of Some t \<Rightarrow> '' '' @ EM_DASH @ '' '' @ t | None \<Rightarrow> []) @
     NEWLINE @ ''Read it before proposing changes here.'' @ NEWLINE"

text \<open>The audit write of a call and of its latency; a failed write leaves the result alone.\<close>

definition audit_call_of ::
  "'j call_env \<Rightarrow> string \<Rightarrow> string option \<Rightarrow> string \<Rightarrow> string \<Rightarrow> string \<Rightarrow> string list \<Rightarrow> nat \<Rightarrow> error_detail option \<Rightarrow> audit_call" where
  "audit_call_of env session trace tool args_json status files redacted err =
     \<lparr>ac_now = ce_now env, ac_session = session, ac_trace = trace, ac_tool = tool, ac_args_json = args_json,
      ac_status = status, ac_files = files, ac_redacted = redacted, ac_error = err\<rparr>"

definition write_audit :: "'j call_env \<Rightarrow> audit_call \<Rightarrow> 's app \<Rightarrow> 's app" where
  "write_audit env c app =
     (if \<not> audit_enabled (app_config app) then app
      else case record_entry_with_error (ce_audit env) c (app_audit app) of
        Inl _ \<Rightarrow> app
      | Inr (r, t) \<Rightarrow> app\<lparr>app_audit := t, app_latencies := hm_insert (entry_seq r) (ce_micros env) (app_latencies app)\<rparr>)"

definition sanitized :: "'j call_env \<Rightarrow> int \<Rightarrow> string \<Rightarrow> error_detail" where
  "sanitized env code message = sanitized_with_home (error_class code) code message (ce_home env)"

definition record_refusal ::
  "'j call_env \<Rightarrow> string \<Rightarrow> string \<Rightarrow> string option \<Rightarrow> string \<Rightarrow> error_detail \<Rightarrow> 's app \<Rightarrow> 's app" where
  "record_refusal env session tool trace args_json err app =
     write_audit env (audit_call_of env session trace tool args_json ''ERROR'' [] 0 (Some err)) app"

text \<open>The rule a call is refused by, if any.\<close>

definition refusal :: "('j, 'a, 's) mcp_tool \<Rightarrow> 'a \<Rightarrow> governance_engine \<Rightarrow> rsah_response option" where
  "refusal tool args g =
     (if (t_mutates tool args \<or> ge_mode g \<noteq> AllowAll) \<and> (t_mutates tool args \<or> ge_mode g = EnforceRefusal)
      then Option.bind (t_subject tool args) (evaluate_guard g) else None)"

definition decorate ::
  "'j call_env \<Rightarrow> ('j, 'a, 's) mcp_tool \<Rightarrow> 'a \<Rightarrow> 's app \<Rightarrow> tool_output \<Rightarrow> tool_output" where
  "decorate env tool args app out =
     (let skill = (if t_returns_document tool args then None
                   else recommend_skill (engine_of (app_config app)) (t_name tool) (t_subject tool args));
          hinted = (case skill of Some p \<Rightarrow> render_skill_hint (ce_read env) p | None \<Rightarrow> []) @ out_text out;
          noted = (case ce_git_note env of Some n \<Rightarrow> n | None \<Rightarrow> []) @ hinted;
          hint = (case t_truncation_hint tool args (app_snapshot app) of Some h \<Rightarrow> h
                  | None \<Rightarrow> ''Refine scope or pass specific search targets to narrow output.'') in
      out\<lparr>out_text := cap_output hint noted\<rparr>)"

definition run_tool ::
  "'j call_env \<Rightarrow> ('j, 'a, 's) mcp_tool \<Rightarrow> string \<Rightarrow> 'a \<Rightarrow> 's app \<Rightarrow> (tool_error + string) \<times> 's app" where
  "run_tool env tool session args app =
     (case t_run tool args (app_snapshot app) of
        Inr out0 \<Rightarrow>
          (let out = decorate env tool args app out0 in
           (Inr (out_text out),
            write_audit env (audit_call_of env session (t_trace_id tool args) (t_name tool) (t_args_json tool args) ''SUCCESS''
              (out_files out) (out_redacted out) None) app))
      | Inl (code, msg) \<Rightarrow>
          (Inl (code, msg),
           write_audit env (audit_call_of env session (t_trace_id tool args) (t_name tool) (t_args_json tool args) ''ERROR''
             [] 0 (Some (sanitized env code msg))) app))"

definition invoke ::
  "'j call_env \<Rightarrow> ('j, 'a, 's) mcp_tool \<Rightarrow> string \<Rightarrow> 'j \<Rightarrow> 's app \<Rightarrow> (tool_error + string) \<times> 's app" where
  "invoke env tool session arguments app =
     (case t_parse tool arguments of
        Inl e \<Rightarrow>
          (Inl (- 32602, ''Invalid arguments for '' @ t_name tool @ '': '' @ e),
           record_refusal env session (t_name tool) None (ce_raw_json env arguments)
             (sanitized env (- 32602) (''Invalid arguments: '' @ e)) app)
      | Inr args \<Rightarrow>
          (case refusal tool args (engine_of (app_config app)) of
             Some rsah \<Rightarrow>
               (let payload = (case ce_rsah_json env rsah of Some p \<Rightarrow> p
                               | None \<Rightarrow> ''RSAH governance refusal (payload serialization failed)'') in
                (Inl (GOVERNANCE_BLOCKED_CODE, payload),
                 record_refusal env session (t_name tool) (t_trace_id tool args) (t_args_json tool args)
                   (sanitized env GOVERNANCE_BLOCKED_CODE payload) app))
           | None \<Rightarrow> run_tool env tool session args app))"

section \<open>JSON-RPC\<close>

record 'j request =
  req_jsonrpc :: "string option"
  req_id :: "'j option"
  req_method :: string
  req_params :: "'j option"

record 'j response =
  resp_id :: "'j option"
  resp_result :: "'j option"
  resp_error :: "(int \<times> string) option"

datatype 'j incoming = Request "'j request" | Notification "'j request" | Reject "'j response"

text \<open>JSON values and the documents the server answers with.\<close>

record 'j json =
  j_null :: 'j
  j_object :: 'j
  j_get :: "'j \<Rightarrow> string \<Rightarrow> 'j option"
  j_str :: "'j \<Rightarrow> string option"
  j_parse :: "string \<Rightarrow> string + 'j"
  j_request :: "'j \<Rightarrow> string + 'j request"
  j_tool_result :: "string \<Rightarrow> bool \<Rightarrow> 'j"
  j_initialize :: "string \<Rightarrow> 'j"
  j_tools_list :: 'j

definition rpc_success :: "'j option \<Rightarrow> 'j \<Rightarrow> 'j response" where
  "rpc_success i r = \<lparr>resp_id = i, resp_result = Some r, resp_error = None\<rparr>"

definition rpc_error :: "'j option \<Rightarrow> int \<Rightarrow> string \<Rightarrow> 'j response" where
  "rpc_error i code msg = \<lparr>resp_id = i, resp_result = None, resp_error = Some (code, msg)\<rparr>"

definition extract_trace_id :: "string option \<Rightarrow> string option" where
  "extract_trace_id traceparent =
     Option.bind traceparent (\<lambda>tp.
       let parts = split CHR ''-'' tp in
       if length parts \<ge> 4 \<and> length (parts ! 1) = 32 then Some (parts ! 1) else None)"

definition classify_line :: "'j json \<Rightarrow> string \<Rightarrow> 'j incoming" where
  "classify_line J line =
     (case j_parse J line of
        Inl e \<Rightarrow> Reject (rpc_error (Some (j_null J)) (- 32700) (''Parse error: '' @ e))
      | Inr v \<Rightarrow>
          (let echoed = (case j_get J v ''id'' of Some i \<Rightarrow> Some i | None \<Rightarrow> Some (j_null J)) in
           case j_request J v of
             Inl e \<Rightarrow> Reject (rpc_error echoed (- 32600) (''Invalid Request: '' @ e))
           | Inr req \<Rightarrow>
               if req_jsonrpc req \<noteq> Some ''2.0''
               then Reject (rpc_error echoed (- 32600)
                      (''Invalid Request: '' @ [DQUOTE] @ ''jsonrpc'' @ [DQUOTE] @ '' must be '' @ [DQUOTE] @ ''2.0'' @ [DQUOTE]))
               else if req_id req = None then Notification req else Request req))"

definition TOOL_NAMES :: "string list" where
  "TOOL_NAMES = [''smart_search'', ''find_dependents'', ''analyze_grpc'', ''analyze_impact'', ''search_docs'', ''visualize_mesh'']"

definition is_known_tool :: "string \<Rightarrow> bool" where
  "is_known_tool name \<longleftrightarrow> name \<in> set TOOL_NAMES"

text \<open>The tools as their \<^verbatim>\<open>invoke\<close> functions, one per name.\<close>

type_synonym ('j, 's) tools = "string \<Rightarrow> (string \<Rightarrow> 'j \<Rightarrow> 's app \<Rightarrow> (tool_error + string) \<times> 's app) option"

definition call_tool_in_session ::
  "'j json \<Rightarrow> ('j, 's) tools \<Rightarrow> string \<Rightarrow> 'j \<Rightarrow> 's app \<Rightarrow> string \<Rightarrow> (tool_error + 'j) \<times> 's app" where
  "call_tool_in_session J tools name arguments app session =
     (case tools name of
        None \<Rightarrow> (Inl (- 32602, ''Unknown tool: '' @ name), app)
      | Some call \<Rightarrow>
          (case call session arguments app of
             (Inr answer, app') \<Rightarrow> (Inr (j_tool_result J answer False), app')
           | (Inl (code, message), app') \<Rightarrow> (Inr (j_tool_result J message True), app')))"

definition respond ::
  "'j json \<Rightarrow> string \<Rightarrow> ('j, 's) tools \<Rightarrow> 'j request \<Rightarrow> 's app \<Rightarrow> bool \<Rightarrow> string \<Rightarrow> 'j response \<times> 's app" where
  "respond J instructions tools req app still_indexing session =
     (let i = req_id req in
      if req_method req = ''initialize'' then (rpc_success i (j_initialize J instructions), app)
      else if req_method req = ''ping'' then (rpc_success i (j_object J), app)
      else if req_method req = ''tools/list'' then (rpc_success i (j_tools_list J), app)
      else if req_method req = ''tools/call'' then
        (case req_params req of
           None \<Rightarrow> (rpc_error i (- 32602) ''Missing params for tools/call'', app)
         | Some params \<Rightarrow>
             (let name = (case Option.bind (j_get J params ''name'') (j_str J) of Some n \<Rightarrow> n | None \<Rightarrow> []) in
              if \<not> is_known_tool name then (rpc_error i (- 32602) (''Unknown tool: '' @ name), app)
              else if still_indexing
              then (rpc_success i (j_tool_result J ''meshd is still indexing this workspace; retry shortly'' True), app)
              else let arguments = (case j_get J params ''arguments'' of Some a \<Rightarrow> a | None \<Rightarrow> j_object J) in
                case call_tool_in_session J tools name arguments app session of
                  (Inr result, app') \<Rightarrow> (rpc_success i result, app')
                | (Inl (code, msg), app') \<Rightarrow> (rpc_error i code msg, app')))
      else (rpc_error i (- 32601) (''Method not found: '' @ req_method req), app))"

definition respond_refused :: "'j json \<Rightarrow> string \<Rightarrow> 'j request \<Rightarrow> 'j response" where
  "respond_refused J message req =
     (let i = req_id req in
      if req_method req = ''initialize'' then rpc_success i (j_initialize J message)
      else if req_method req = ''ping'' then rpc_success i (j_object J)
      else if req_method req = ''tools/list'' then rpc_success i (j_tools_list J)
      else if req_method req = ''tools/call''
      then rpc_success i (j_tool_result J (''MeshMCP is not indexing: '' @ message) True)
      else rpc_error i (- 32601) (''Method not found: '' @ req_method req))"

text \<open>One turn of the loop of \<^verbatim>\<open>run_server\<close>: the response to write, if any.\<close>

definition serve_line ::
  "'j json \<Rightarrow> string \<Rightarrow> ('j, 's) tools \<Rightarrow> string \<Rightarrow> string \<Rightarrow> 's app \<Rightarrow> 'j response option \<times> 's app" where
  "serve_line J instructions tools session line app =
     (case classify_line J line of
        Request req \<Rightarrow> (case respond J instructions tools req app False session of (r, app') \<Rightarrow> (Some r, app'))
      | Notification _ \<Rightarrow> (None, app)
      | Reject err \<Rightarrow> (Some err, app))"

section \<open>Which paths a rule guards\<close>

lemma split_pred_append: "P c \<Longrightarrow> split_pred P (x @ c # y) = split_pred P x @ split_pred P y"
proof (induction x)
  case (Cons a x)
  then show ?case
    by (cases "split_pred P x") auto
qed simp

text \<open>The parts of a split, by their borders in the text.\<close>

definition bordered_by :: "(char \<Rightarrow> bool) \<Rightarrow> string \<Rightarrow> string \<Rightarrow> bool" where
  "bordered_by P s t \<longleftrightarrow> (\<exists>a b. s = a @ t @ b \<and> (a = [] \<or> P (last a)) \<and> (b = [] \<or> P (hd b)))"

lemma split_pred_bordered: "t \<in> set (split_pred P s) \<Longrightarrow> bordered_by P s t"
proof (induction s rule: length_induct)
  case (1 s)
  show ?case
  proof (cases "\<exists>c \<in> set s. P c")
    case False
    with 1(2) have "t = s"
      by (simp add: split_pred_id)
    then show ?thesis
      unfolding bordered_by_def by (intro exI [of _ "[]"]) simp
  next
    case True
    then obtain x c y where s: "s = x @ c # y" "P c" "\<forall>d \<in> set x. \<not> P d"
      by (metis split_list_first_prop)
    with 1(2) have "t = x \<or> t \<in> set (split_pred P y)"
      by (simp add: split_pred_append_sep)
    then show ?thesis
    proof
      assume "t = x"
      with s show ?thesis
        unfolding bordered_by_def by (intro exI [of _ "[]"] exI [of _ "c # y"]) simp
    next
      assume "t \<in> set (split_pred P y)"
      moreover have "length y < length s"
        by (simp add: s(1))
      ultimately obtain a b where "y = a @ t @ b" "a = [] \<or> P (last a)" "b = [] \<or> P (hd b)"
        using 1(1) unfolding bordered_by_def by blast
      with s show ?thesis
        unfolding bordered_by_def by (intro exI [of _ "x @ c # a"] exI [of _ b]) auto
    qed
  qed
qed

lemma bordered_split_pred:
  assumes "bordered_by P s t" and "\<forall>c \<in> set t. \<not> P c"
  shows "t \<in> set (split_pred P s)"
proof -
  obtain a b where s: "s = a @ t @ b" "a = [] \<or> P (last a)" "b = [] \<or> P (hd b)"
    using assms(1) by (auto simp: bordered_by_def)
  have "t \<in> set (split_pred P (t @ b))"
    using s(3) assms(2) by (cases b) (simp_all add: split_pred_id split_pred_append_sep)
  then show ?thesis
    using s(1,2) by (cases a rule: rev_cases) (simp_all add: split_pred_append)
qed

lemma is_separator_lower [simp]: "is_separator (ascii_lower c) \<longleftrightarrow> is_separator c"
proof -
  have "\<forall>c. is_separator (ascii_lower c) \<longleftrightarrow> is_separator c"
    by code_simp
  then show ?thesis ..
qed

lemma has_path_segment_iff:
  "has_path_segment (to_lowercase target) (to_lowercase key) \<longleftrightarrow>
     key \<noteq> [] \<and> list_all (\<lambda>c. \<not> is_separator c) key \<and> bordered_by is_separator (to_lowercase target) (to_lowercase key)"
proof -
  have sep: "(\<forall>c \<in> set (to_lowercase key). \<not> is_separator c) \<longleftrightarrow> list_all (\<lambda>c. \<not> is_separator c) key"
    by (auto simp: to_lowercase_def list_all_iff)
  show ?thesis
    using split_pred_bordered bordered_split_pred split_pred_no_sep
    unfolding has_path_segment_def sep [symmetric] to_lowercase_Nil_iff by metis
qed

text \<open>
  A stop rule guards a path exactly when its key is a whole component of the path, compared without case: the
  key stands in the path between separators (or the ends), and contains none itself - so a key written
  with a slash guards nothing.
\<close>

theorem guard_exact:
  "evaluate_guard g target \<noteq> None \<longleftrightarrow>
     list_ex (\<lambda>(key, rule). key \<noteq> [] \<and> list_all (\<lambda>c. \<not> is_separator c) key \<and>
       bordered_by is_separator (to_lowercase target) (to_lowercase key)) (ge_stop_rules g)"
  unfolding evaluate_guard_def by (auto simp: find_None_iff list_ex_iff has_path_segment_iff)

text \<open>
  The documentation of \<^verbatim>\<open>has_path_segment\<close> gives \<^verbatim>\<open>proto\<close> as a segment of \<^verbatim>\<open>proto-registry/x.proto\<close>; it is not one.
\<close>

lemma proto_registry_not_guarded:
  "\<not> has_path_segment ''proto-registry/x.proto'' ''proto'' \<and> has_path_segment ''src/proto/x'' ''proto'' \<and>
   \<not> has_path_segment ''services/proto/x'' ''services/proto''"
  by code_simp

section \<open>What a call does\<close>

text \<open>
  C13: governance decides before the tool runs. A call is blocked exactly when its subject is guarded and it mutates or
  the mode enforces refusals; then the answer is the refusal and nothing the tool does can matter (any other body
  gives the same answer and state); otherwise, in particular in the default mode, the tool runs as if there were no rules.
\<close>

theorem governance_exact:
  assumes "t_parse tool arguments = Inr args"
    and "blocked \<longleftrightarrow> (t_mutates tool args \<or> ge_mode (engine_of (app_config app)) = EnforceRefusal) \<and>
      (case t_subject tool args of Some sub \<Rightarrow> evaluate_guard (engine_of (app_config app)) sub \<noteq> None | None \<Rightarrow> False)"
  shows "(blocked \<longrightarrow> (\<exists>payload. fst (invoke env tool session arguments app) = Inl (GOVERNANCE_BLOCKED_CODE, payload)) \<and>
      invoke env (tool\<lparr>t_run := body\<rparr>) session arguments app = invoke env tool session arguments app) \<and>
    (\<not> blocked \<longrightarrow> invoke env tool session arguments app = run_tool env tool session args app)"
proof -
  have "refusal tool args (engine_of (app_config app)) \<noteq> None \<longleftrightarrow> blocked"
    by (auto simp: assms(2) refusal_def split: option.splits bind_splits)
  moreover have "refusal (tool\<lparr>t_run := body\<rparr>) args g = refusal tool args g" for g
    by (simp add: refusal_def)
  ultimately show ?thesis
    using assms(1) by (auto simp: invoke_def Let_def split: option.splits)
qed

text \<open>The row a call leaves, and what a disabled trail leaves.\<close>

lemma write_audit_row:
  assumes "audit_enabled (app_config app)" and "files_to_json (ce_audit env) (ac_files c) = Some files"
  shows "app_audit (write_audit env c app) = app_audit app @ [new_row (ce_audit env) c files (app_audit app)]"
  using assms by (simp add: write_audit_def record_entry_with_error_def Let_def)

lemma write_audit_off: "\<not> audit_enabled (app_config app) \<Longrightarrow> write_audit env c app = app"
  by (simp add: write_audit_def)

text \<open>Every way through \<^term>\<open>invoke\<close> ends in one audit write.\<close>

definition audited :: "'j call_env \<Rightarrow> ('j, 'a, 's) mcp_tool \<Rightarrow> string \<Rightarrow> 's app \<Rightarrow> (tool_error + string) \<times> 's app \<Rightarrow> bool" where
  "audited env tool session app r \<longleftrightarrow>
     (\<exists>c. snd r = write_audit env c app \<and> ac_session c = session \<and> ac_tool c = t_name tool \<and>
       ac_status c = (if isl (fst r) then ''ERROR'' else ''SUCCESS'') \<and> (ac_error c \<noteq> None \<longleftrightarrow> isl (fst r)))"

lemma audited_error:
  "audited env tool session app
     (Inl e, write_audit env (audit_call_of env session trace (t_name tool) json ''ERROR'' files n (Some d)) app)"
  unfolding audited_def
  by (rule exI [of _ "audit_call_of env session trace (t_name tool) json ''ERROR'' files n (Some d)"]) (simp add: audit_call_of_def)

lemma audited_success:
  "audited env tool session app
     (Inr answer, write_audit env (audit_call_of env session trace (t_name tool) json ''SUCCESS'' files n None) app)"
  unfolding audited_def
  by (rule exI [of _ "audit_call_of env session trace (t_name tool) json ''SUCCESS'' files n None"]) (simp add: audit_call_of_def)

lemma invoke_audited: "audited env tool session app (invoke env tool session arguments app)"
  unfolding invoke_def run_tool_def record_refusal_def Let_def
  by (auto simp only: audited_error audited_success split: sum.split option.split prod.split)


section \<open>One answer per request\<close>

lemma rpc_success_simps [simp]: "resp_id (rpc_success i r) = i" "resp_result (rpc_success i r) = Some r" "resp_error (rpc_success i r) = None"
  by (simp_all add: rpc_success_def)

lemma rpc_error_simps [simp]: "resp_id (rpc_error i c m) = i" "resp_result (rpc_error i c m) = None" "resp_error (rpc_error i c m) = Some (c, m)"
  by (simp_all add: rpc_error_def)

lemma respond_shape:
  "resp_id (fst (respond J ins tools req app indexing session)) = req_id req \<and>
   (resp_result (fst (respond J ins tools req app indexing session)) = None \<longleftrightarrow>
    resp_error (fst (respond J ins tools req app indexing session)) \<noteq> None)"
  by (auto simp: respond_def Let_def split: option.splits prod.splits sum.splits)

text \<open>
  One line of input, one answer or none. A notification is never answered and changes nothing; a line that is no request is
  answered by an error with an id and changes nothing; a request is answered by exactly one response that carries its id and either a
  result or an error, not both.
\<close>

theorem one_answer_per_request:
  "case classify_line J line of
     Notification req \<Rightarrow> serve_line J ins tools session line app = (None, app)
   | Reject e \<Rightarrow> serve_line J ins tools session line app = (Some e, app) \<and>
       resp_id e \<noteq> None \<and> resp_result e = None \<and> resp_error e \<noteq> None
   | Request req \<Rightarrow> req_id req \<noteq> None \<and>
       (\<exists>r app'. serve_line J ins tools session line app = (Some r, app') \<and> resp_id r = req_id req \<and>
         (resp_result r = None \<longleftrightarrow> resp_error r \<noteq> None))"
proof (cases "classify_line J line")
  case (Request req)
  have "req_id req \<noteq> None"
    using Request by (auto simp: classify_line_def Let_def split: sum.splits if_splits)
  then show ?thesis
    using respond_shape [of J ins tools req app False session]
    by (auto simp: Request serve_line_def split: prod.splits)
next
  case (Notification req)
  then show ?thesis
    by (simp add: serve_line_def)
next
  case (Reject e)
  then have "resp_id e \<noteq> None \<and> resp_result e = None \<and> resp_error e \<noteq> None"
    by (auto simp: classify_line_def Let_def split: sum.splits if_splits option.splits)
  with Reject show ?thesis
    by (simp add: serve_line_def)
qed

section \<open>An example\<close>

definition demo_policy :: "read_governance_mode \<Rightarrow> config" where
  "demo_policy mode = (demo_config [])\<lparr>cfg_engines := \<lparr>ec_docs = None, ec_contracts = None,
     ec_policy = Some (policy_default\<lparr>pc_read_governance_mode := mode, pc_stop_rules := [(''k8s'', ''ask first'')]\<rparr>)\<rparr>\<rparr>"

definition demo_app :: "read_governance_mode \<Rightarrow> unit app" where
  "demo_app mode = \<lparr>app_config = demo_policy mode, app_snapshot = (), app_audit = [], app_latencies = []\<rparr>"

definition demo_tool :: "(string, string, unit) mcp_tool" where
  "demo_tool = \<lparr>t_name = ''smart_search'', t_parse = Inr, t_trace_id = (\<lambda>_. None),
     t_run = (\<lambda>a _. Inr \<lparr>out_text = ''found in '' @ a, out_files = [a], out_redacted = 0\<rparr>), t_truncation_hint = (\<lambda>_ _. None),
     t_subject = Some, t_mutates = (\<lambda>_. False), t_returns_document = (\<lambda>_. False), t_args_json = id\<rparr>"

definition demo_call_env :: "string call_env" where
  "demo_call_env = \<lparr>ce_audit = demo_env, ce_now = ''9'', ce_micros = 5, ce_read = (\<lambda>_. None), ce_git_note = None, ce_home = None,
     ce_raw_json = id, ce_rsah_json = (\<lambda>r. Some (violation r))\<rparr>"

lemma demo_guarded: "evaluate_guard (engine_of (demo_policy EnforceRefusal)) ''ops/K8S/prod.yaml'' \<noteq> None"
  by code_simp

theorem governance_exact_witness:
  "fst (invoke demo_call_env demo_tool ''s'' ''ops/K8S/prod.yaml'' (demo_app EnforceRefusal)) \<in> range (\<lambda>p. Inl (GOVERNANCE_BLOCKED_CODE, p)) \<and>
   invoke demo_call_env demo_tool ''s'' ''ops/K8S/prod.yaml'' (demo_app AllowAll) =
     run_tool demo_call_env demo_tool ''s'' ''ops/K8S/prod.yaml'' (demo_app AllowAll)"
proof
  have args: "t_parse demo_tool ''ops/K8S/prod.yaml'' = Inr ''ops/K8S/prod.yaml''" "t_subject demo_tool ''ops/K8S/prod.yaml'' = Some ''ops/K8S/prod.yaml''"
    "\<not> t_mutates demo_tool ''ops/K8S/prod.yaml''"
    by (simp_all add: demo_tool_def)
  have mode: "ge_mode (engine_of (app_config (demo_app m))) = m" for m
    by (simp add: demo_app_def demo_policy_def engine_of_def policy_default_def)
  have "evaluate_guard (engine_of (app_config (demo_app EnforceRefusal))) ''ops/K8S/prod.yaml'' \<noteq> None"
    using demo_guarded by (simp add: demo_app_def)
  then show "fst (invoke demo_call_env demo_tool ''s'' ''ops/K8S/prod.yaml'' (demo_app EnforceRefusal)) \<in> range (\<lambda>p. Inl (GOVERNANCE_BLOCKED_CODE, p))"
    using governance_exact [OF args(1) refl, of "demo_app EnforceRefusal" demo_call_env "''s''" "t_run demo_tool"] args(2) mode
    by auto
  show "invoke demo_call_env demo_tool ''s'' ''ops/K8S/prod.yaml'' (demo_app AllowAll) =
     run_tool demo_call_env demo_tool ''s'' ''ops/K8S/prod.yaml'' (demo_app AllowAll)"
    using governance_exact [OF args(1) refl, of "demo_app AllowAll" demo_call_env "''s''" "t_run demo_tool"] args(3) mode by simp
qed


end
