(* ===== verification/Ast_Guard.thy ===== *)
theory Ast_Guard
  imports Index_Health
begin

text \<open>
  The pre-parse guard of \<^verbatim>\<open>crates/mesh-parsers/src/guard.rs\<close> and the language table of \<^verbatim>\<open>decapitate.rs\<close>. Before a file
  reaches the C parser its size, its first bytes, its longest line and its bracket depth are checked. The depth is measured by
  a scanner that walks the bytes with an index; its specification is a grammar of the text outside comments and literals.
  Parsers are cached per thread, one slot per grammar; the tree-sitter library is a record of functions.
\<close>

section \<open>Languages\<close>

datatype language_kind =
  Java | Go | Python | TypeScript | Tsx | JavaScript | Rust | Cpp | Kotlin | CSharp | Ruby | Php | Swift | Scala
| Protobuf | Yaml | Unknown

definition TREE_SITTER_COUNT :: nat where
  "TREE_SITTER_COUNT = 15"

fun as_str :: "language_kind \<Rightarrow> string" where
  "as_str Java = ''java''"
| "as_str Go = ''go''"
| "as_str Python = ''python''"
| "as_str TypeScript = ''typescript''"
| "as_str Tsx = ''tsx''"
| "as_str JavaScript = ''javascript''"
| "as_str Rust = ''rust''"
| "as_str Cpp = ''cpp''"
| "as_str Kotlin = ''kotlin''"
| "as_str CSharp = ''csharp''"
| "as_str Ruby = ''ruby''"
| "as_str Php = ''php''"
| "as_str Swift = ''swift''"
| "as_str Scala = ''scala''"
| "as_str Protobuf = ''protobuf''"
| "as_str Yaml = ''yaml''"
| "as_str Unknown = ''unknown''"

fun tree_sitter_slot :: "language_kind \<Rightarrow> nat option" where
  "tree_sitter_slot Java = Some 0"
| "tree_sitter_slot Go = Some 1"
| "tree_sitter_slot Python = Some 2"
| "tree_sitter_slot TypeScript = Some 3"
| "tree_sitter_slot Rust = Some 4"
| "tree_sitter_slot Cpp = Some 5"
| "tree_sitter_slot Kotlin = Some 6"
| "tree_sitter_slot CSharp = Some 7"
| "tree_sitter_slot Ruby = Some 8"
| "tree_sitter_slot Php = Some 9"
| "tree_sitter_slot Swift = Some 10"
| "tree_sitter_slot Scala = Some 11"
| "tree_sitter_slot Protobuf = Some 12"
| "tree_sitter_slot Tsx = Some 13"
| "tree_sitter_slot JavaScript = Some 14"
| "tree_sitter_slot Yaml = None"
| "tree_sitter_slot Unknown = None"

text \<open>The grammar of a language, named by the crate constant that holds it.\<close>

fun lang_grammar :: "language_kind \<Rightarrow> string option" where
  "lang_grammar Java = Some ''tree_sitter_java::LANGUAGE''"
| "lang_grammar Go = Some ''tree_sitter_go::LANGUAGE''"
| "lang_grammar Python = Some ''tree_sitter_python::LANGUAGE''"
| "lang_grammar TypeScript = Some ''tree_sitter_typescript::LANGUAGE_TYPESCRIPT''"
| "lang_grammar Tsx = Some ''tree_sitter_typescript::LANGUAGE_TSX''"
| "lang_grammar JavaScript = Some ''tree_sitter_javascript::LANGUAGE''"
| "lang_grammar Rust = Some ''tree_sitter_rust::LANGUAGE''"
| "lang_grammar Cpp = Some ''tree_sitter_cpp::LANGUAGE''"
| "lang_grammar Kotlin = Some ''tree_sitter_kotlin_ng::LANGUAGE''"
| "lang_grammar CSharp = Some ''tree_sitter_c_sharp::language''"
| "lang_grammar Ruby = Some ''tree_sitter_ruby::LANGUAGE''"
| "lang_grammar Php = Some ''tree_sitter_php::LANGUAGE_PHP''"
| "lang_grammar Swift = Some ''tree_sitter_swift::LANGUAGE''"
| "lang_grammar Scala = Some ''tree_sitter_scala::LANGUAGE''"
| "lang_grammar Protobuf = Some ''tree_sitter_proto::LANGUAGE''"
| "lang_grammar Yaml = None"
| "lang_grammar Unknown = None"

definition lang_from_path :: "string \<Rightarrow> language_kind" where
  "lang_from_path p =
     (let has = (\<lambda>ext. ends_with p ext) in
      if has ''.proto'' then Protobuf
      else if has ''.java'' then Java
      else if has ''.go'' then Go
      else if has ''.py'' then Python
      else if has ''.ts'' \<or> has ''.mts'' \<or> has ''.cts'' then TypeScript
      else if has ''.tsx'' then Tsx
      else if has ''.js'' \<or> has ''.jsx'' \<or> has ''.mjs'' \<or> has ''.cjs'' then JavaScript
      else if has ''.rs'' then Rust
      else if has ''.kt'' \<or> has ''.kts'' then Kotlin
      else if has ''.cs'' then CSharp
      else if has ''.rb'' \<or> has ''.rake'' then Ruby
      else if has ''.php'' \<or> has ''.phtml'' then Php
      else if has ''.swift'' then Swift
      else if has ''.scala'' \<or> has ''.sc'' then Scala
      else if has ''.cpp'' \<or> has ''.cc'' \<or> has ''.cxx'' \<or> has ''.hpp'' \<or> has ''.hh'' \<or> has ''.hxx'' \<or> has ''.h'' then Cpp
      else if has ''.yaml'' \<or> has ''.yml'' then Yaml
      else Unknown)"

section \<open>The lexical checks\<close>

datatype guard_rejection =
  Oversized (rejected_size: nat) (rejected_budget: nat)
| Binary
| LongLine nat
| DeepNesting nat

definition MAX_FILE_SIZE_BYTES :: nat where
  "MAX_FILE_SIZE_BYTES = 384 * 1024"

definition MAX_SCHEMA_FILE_SIZE_BYTES :: nat where
  "MAX_SCHEMA_FILE_SIZE_BYTES = 1536 * 1024"

definition BINARY_SNIFF_LEN :: nat where
  "BINARY_SNIFF_LEN = 4096"

definition MAX_LINE_LEN_BYTES :: nat where
  "MAX_LINE_LEN_BYTES = 1024"

definition MAX_NESTING_DEPTH :: nat where
  "MAX_NESTING_DEPTH = 64"

definition is_contract_or_schema :: "path \<Rightarrow> bool" where
  "is_contract_or_schema p =
     (case file_name p of
        None \<Rightarrow> False
      | Some f \<Rightarrow>
          let filename = to_lowercase f in
          ends_with filename ''.proto'' \<or> ends_with filename ''.pb.go'' \<or> ends_with filename ''outerclass.java''
          \<or> ends_with filename ''.pb.ts'' \<or> ends_with filename ''_pb2.py'' \<or> ends_with filename ''.pb.rs''
          \<or> filename = ''openapi.yaml'' \<or> filename = ''openapi.json''
          \<or> filename = ''asyncapi.yaml'' \<or> filename = ''asyncapi.json'')"

definition size_budget :: "path \<Rightarrow> nat" where
  "size_budget p = (if is_contract_or_schema p then MAX_SCHEMA_FILE_SIZE_BYTES else MAX_FILE_SIZE_BYTES)"

definition within_size_budget :: "path \<Rightarrow> nat \<Rightarrow> bool" where
  "within_size_budget p file_len \<longleftrightarrow> file_len \<le> size_budget p"

definition looks_binary :: "string \<Rightarrow> bool" where
  "looks_binary content = (CHR 0x00 \<in> set (take (min (length content) BINARY_SNIFF_LEN) content))"

abbreviation LF :: char where
  "LF \<equiv> CHR 0x0A"

definition longest_line :: "string \<Rightarrow> nat" where
  "longest_line content = fold max (map length (split LF content)) 0"

subsection \<open>The depth scanner\<close>

text \<open>The inner loops move the index \<^verbatim>\<open>i\<close> over a comment or a literal.\<close>

function skip_line :: "string \<Rightarrow> nat \<Rightarrow> nat" where
  "skip_line s i = (if i < length s \<and> s ! i \<noteq> LF then skip_line s (i + 1) else i)"
  by pat_completeness auto
termination by (relation "measure (\<lambda>(s, i). length s - i)") auto

function skip_block :: "string \<Rightarrow> nat \<Rightarrow> nat" where
  "skip_block s i =
     (if i + 1 < length s \<and> \<not> (s ! i = CHR ''*'' \<and> s ! (i + 1) = CHR ''/'') then skip_block s (i + 1) else i)"
  by pat_completeness auto
termination by (relation "measure (\<lambda>(s, i). length s - i)") auto

function skip_quoted :: "char \<Rightarrow> string \<Rightarrow> nat \<Rightarrow> nat" where
  "skip_quoted q s i =
     (if i < length s
      then if s ! i = CHR 0x5C then skip_quoted q s (min (i + 2) (length s))
           else if s ! i = q then i + 1
           else skip_quoted q s (i + 1)
      else i)"
  by pat_completeness auto
termination by (relation "measure (\<lambda>(q, s, i). length s - i)") auto

declare skip_line.simps [simp del] skip_block.simps [simp del] skip_quoted.simps [simp del]

lemma skip_line_ge: "i \<le> skip_line s i"
  by (induction s i rule: skip_line.induct) (subst skip_line.simps, auto)

lemma skip_block_ge: "i \<le> skip_block s i"
  by (induction s i rule: skip_block.induct) (subst skip_block.simps, auto)

lemma skip_quoted_ge: "i \<le> skip_quoted q s i"
  by (induction q s i rule: skip_quoted.induct) (subst skip_quoted.simps, auto)

abbreviation quotes :: "char list" where
  "quotes \<equiv> [CHR 0x22, CHR 0x27, CHR 0x60]"

definition is_open :: "char \<Rightarrow> bool" where
  "is_open b \<longleftrightarrow> b \<in> set ''{(['' "

definition is_close :: "char \<Rightarrow> bool" where
  "is_close b \<longleftrightarrow> b \<in> set ''})]''"

function depth_scan :: "string \<Rightarrow> nat \<Rightarrow> nat \<Rightarrow> nat \<Rightarrow> nat" where
  "depth_scan s i depth max_depth =
     (if i < length s
      then let b = s ! i in
        if b = CHR ''/'' \<and> i + 1 < length s \<and> s ! (i + 1) = CHR ''/''
        then depth_scan s (skip_line s (i + 2)) depth max_depth
        else if b = CHR ''/'' \<and> i + 1 < length s \<and> s ! (i + 1) = CHR ''*''
        then depth_scan s (min (skip_block s (i + 2) + 2) (length s)) depth max_depth
        else if b = CHR ''#'' then depth_scan s (skip_line s (i + 1)) depth max_depth
        else if b \<in> set quotes then depth_scan s (skip_quoted b s (i + 1)) depth max_depth
        else if is_open b
        then depth_scan s (i + 1) (depth + 1) (if depth + 1 > max_depth then depth + 1 else max_depth)
        else if is_close b then depth_scan s (i + 1) (depth - 1) max_depth
        else depth_scan s (i + 1) depth max_depth
      else max_depth)"
  by pat_completeness auto
termination
proof (relation "measure (\<lambda>(s, i, d, m). length s - i)", goal_cases)
  case (2 s i d m x)
  with skip_line_ge [of "i + 2" s] show ?case by auto
next
  case (3 s i d m x)
  with skip_block_ge [of "i + 2" s] show ?case by auto
next
  case (4 s i d m x)
  with skip_line_ge [of "i + 1" s] show ?case by auto
next
  case (5 s i d m x)
  with skip_quoted_ge [of "i + 1" x s] show ?case by auto
qed auto

declare depth_scan.simps [simp del]

definition max_nesting_depth :: "string \<Rightarrow> nat" where
  "max_nesting_depth content = depth_scan content 0 0 0"

subsection \<open>The verdict\<close>

definition check_with_budget :: "nat \<Rightarrow> string \<Rightarrow> nat \<Rightarrow> guard_rejection + unit" where
  "check_with_budget file_len content max_bytes =
     (if file_len > max_bytes then Inl (Oversized file_len max_bytes)
      else if looks_binary content then Inl Binary
      else let longest = longest_line content in
        if longest > MAX_LINE_LEN_BYTES then Inl (LongLine longest)
        else let depth = max_nesting_depth content in
          if depth > MAX_NESTING_DEPTH then Inl (DeepNesting depth)
          else Inr ())"

definition check_path :: "path \<Rightarrow> nat \<Rightarrow> string \<Rightarrow> guard_rejection + unit" where
  "check_path p file_len content = check_with_budget file_len content (size_budget p)"

definition should_parse_with_budget :: "nat \<Rightarrow> string \<Rightarrow> nat \<Rightarrow> bool" where
  "should_parse_with_budget file_len content max_bytes =
     (case check_with_budget file_len content max_bytes of Inl _ \<Rightarrow> False | Inr _ \<Rightarrow> True)"

definition should_parse_path :: "path \<Rightarrow> nat \<Rightarrow> string \<Rightarrow> bool" where
  "should_parse_path p file_len content = should_parse_with_budget file_len content (size_budget p)"

definition should_parse :: "nat \<Rightarrow> string \<Rightarrow> bool" where
  "should_parse file_len content = should_parse_with_budget file_len content MAX_FILE_SIZE_BYTES"

section \<open>What the scanner measures\<close>

text \<open>The text of a literal up to its closing quote: a backslash takes the next byte with it.\<close>

inductive quoted_body :: "char \<Rightarrow> string \<Rightarrow> bool" for q :: char where
  quoted_Nil: "quoted_body q []"
| quoted_escape: "quoted_body q b \<Longrightarrow> quoted_body q (CHR 0x5C # c # b)"
| quoted_char: "quoted_body q b \<Longrightarrow> c \<noteq> CHR 0x5C \<Longrightarrow> c \<noteq> q \<Longrightarrow> quoted_body q (c # b)"

definition comment_start :: "string \<Rightarrow> bool" where
  "comment_start s \<longleftrightarrow> starts_with s ''//'' \<or> starts_with s ''/*''"

text \<open>\<^verbatim>\<open>lexed s code\<close>: \<^verbatim>\<open>code\<close> is \<^verbatim>\<open>s\<close> without its comments and literals; one left open reaches to the end.\<close>

inductive lexed :: "string \<Rightarrow> string \<Rightarrow> bool" where
  lexed_Nil: "lexed [] []"
| lexed_line: "lexed rest code \<Longrightarrow> LF \<notin> set body \<Longrightarrow> rest = [] \<or> hd rest = LF \<Longrightarrow> lexed (''//'' @ body @ rest) code"
| lexed_hash: "lexed rest code \<Longrightarrow> LF \<notin> set body \<Longrightarrow> rest = [] \<or> hd rest = LF \<Longrightarrow> lexed (CHR ''#'' # body @ rest) code"
| lexed_block: "lexed rest code \<Longrightarrow> \<not> sublist ''*/'' (body @ ''*'') \<Longrightarrow> lexed (''/*'' @ body @ ''*/'' @ rest) code"
| lexed_block_open: "\<not> sublist ''*/'' body \<Longrightarrow> lexed (''/*'' @ body) []"
| lexed_quoted: "lexed rest code \<Longrightarrow> q \<in> set quotes \<Longrightarrow> quoted_body q body \<Longrightarrow> lexed (q # body @ q # rest) code"
| lexed_quoted_open: "q \<in> set quotes \<Longrightarrow> quoted_body q body \<Longrightarrow> tail \<in> {[], [CHR 0x5C]} \<Longrightarrow> lexed (q # body @ tail) []"
| lexed_code: "lexed s code \<Longrightarrow> c \<noteq> CHR ''#'' \<Longrightarrow> c \<notin> set quotes \<Longrightarrow> \<not> comment_start (c # s) \<Longrightarrow>
               lexed (c # s) (c # code)"

text \<open>How many brackets a text leaves open.\<close>

definition bracket_weight :: "char \<Rightarrow> int" where
  "bracket_weight c = (if is_open c then 1 else if is_close c then - 1 else 0)"

definition net_open :: "string \<Rightarrow> int" where
  "net_open s = sum_list (map bracket_weight s)"

text \<open>The depth counters alone, over text that is already lexed.\<close>

fun nest_scan :: "string \<Rightarrow> nat \<Rightarrow> nat \<Rightarrow> nat" where
  "nest_scan [] d m = m"
| "nest_scan (c # cs) d m =
     (if is_open c then nest_scan cs (d + 1) (max m (d + 1))
      else if is_close c then nest_scan cs (d - 1) m
      else nest_scan cs d m)"

subsection \<open>The inner loops\<close>

lemma skip_line_body:
  "LF \<notin> set body \<Longrightarrow> rest = [] \<or> hd rest = LF \<Longrightarrow>
   skip_line (pre @ body @ rest) (length pre) = length pre + length body"
proof (induction body arbitrary: pre)
  case Nil
  then show ?case by (subst skip_line.simps) (auto simp: nth_append hd_conv_nth)
next
  case (Cons c body)
  from Cons.IH [of "pre @ [c]"] Cons.prems show ?case
    by (subst skip_line.simps) (auto simp: nth_append)
qed

lemma skip_block_body:
  "\<not> sublist ''*/'' (body @ ''*'') \<Longrightarrow>
   skip_block (pre @ body @ ''*/'' @ rest) (length pre) = length pre + length body"
proof (induction body arbitrary: pre)
  case Nil
  then show ?case by (subst skip_block.simps) (auto simp: nth_append)
next
  case (Cons c body)
  have tl: "\<not> sublist ''*/'' (body @ ''*'')"
    using Cons.prems by (auto simp: sublist_Cons_right)
  have hd: "\<not> (c = CHR ''*'' \<and> (body @ ''*/'' @ rest) ! 0 = CHR ''/'')"
    using Cons.prems by (cases body) (auto simp: sublist_Cons_right)
  from Cons.IH [of "pre @ [c]"] tl hd show ?case
    by (subst skip_block.simps) (auto simp: nth_append)
qed

lemma skip_block_open:
  "\<not> sublist ''*/'' body \<Longrightarrow> length (pre @ body) \<le> skip_block (pre @ body) (length pre) + 1"
proof (induction body arbitrary: pre)
  case Nil
  then show ?case using skip_block_ge [of "length pre" pre] by simp
next
  case (Cons c body)
  have tl: "\<not> sublist ''*/'' body"
    using Cons.prems by (auto simp: sublist_Cons_right)
  have hd: "\<not> (c = CHR ''*'' \<and> body ! 0 = CHR ''/'')" if "body \<noteq> []"
    using Cons.prems that by (cases body) (auto simp: sublist_Cons_right)
  from Cons.IH [of "pre @ [c]"] tl hd show ?case
    by (subst skip_block.simps) (auto simp: nth_append)
qed

lemma skip_quoted_closed:
  assumes "quoted_body q body" and "q \<noteq> CHR 0x5C"
  shows "skip_quoted q (pre @ body @ q # rest) (length pre) = length pre + length body + 1"
  using assms(1)
proof (induction arbitrary: pre)
  case quoted_Nil
  then show ?case using assms(2) by (subst skip_quoted.simps) simp
next
  case (quoted_escape b c)
  from quoted_escape.IH [of "pre @ [CHR 0x5C, c]"] show ?case
    by (subst skip_quoted.simps) (simp add: nth_append)
next
  case (quoted_char b c)
  from quoted_char.IH [of "pre @ [c]"] quoted_char.hyps show ?case
    by (subst skip_quoted.simps) (simp add: nth_append)
qed

lemma skip_quoted_end: "skip_quoted q s (length s) = length s"
  by (subst skip_quoted.simps) simp

lemma skip_quoted_open:
  assumes "quoted_body q body" and "tail \<in> {[], [CHR 0x5C]}"
  shows "skip_quoted q (pre @ body @ tail) (length pre) = length (pre @ body @ tail)"
  using assms(1)
proof (induction arbitrary: pre)
  case quoted_Nil
  then show ?case using assms(2)
    using skip_quoted_end [of q "pre @ [CHR 0x5C]"] skip_quoted_end [of q pre]
    by (subst skip_quoted.simps) (auto simp: nth_append)
next
  case (quoted_escape b c)
  from quoted_escape.IH [of "pre @ [CHR 0x5C, c]"] show ?case
    by (subst skip_quoted.simps) (simp add: nth_append)
next
  case (quoted_char b c)
  from quoted_char.IH [of "pre @ [c]"] quoted_char.hyps show ?case
    by (subst skip_quoted.simps) (simp add: nth_append)
qed

subsection \<open>The scanner and its grammar\<close>

lemma depth_scan_end [simp]: "depth_scan s (length s) d m = m"
  by (subst depth_scan.simps) simp

lemma quotes_not_special: "q \<in> set quotes \<Longrightarrow> q \<noteq> CHR ''/'' \<and> q \<noteq> CHR ''#'' \<and> q \<noteq> CHR 0x5C"
  by auto

lemma depth_scan_code:
  assumes "c \<noteq> CHR ''#''" and "c \<notin> set quotes" and "\<not> comment_start (c # s)"
  shows "depth_scan (pre @ c # s) (length pre) d m =
         (if is_open c then depth_scan (pre @ c # s) (length pre + 1) (d + 1) (max m (d + 1))
          else if is_close c then depth_scan (pre @ c # s) (length pre + 1) (d - 1) m
          else depth_scan (pre @ c # s) (length pre + 1) d m)"
  using assms
  by (subst depth_scan.simps) (cases s; auto simp: nth_append comment_start_def starts_with_def max_def)

lemma depth_scan_lexed: "lexed s code \<Longrightarrow> depth_scan (pre @ s) (length pre) d m = nest_scan code d m"
proof (induction arbitrary: pre d m rule: lexed.induct)
  case lexed_Nil
  then show ?case by (subst depth_scan.simps) simp
next
  case (lexed_line rest code body)
  from skip_line_body [OF lexed_line.hyps(2,3), of "pre @ ''//''"] lexed_line.IH [of "pre @ ''//'' @ body"] show ?case
    by (subst depth_scan.simps) (simp add: nth_append)
next
  case (lexed_hash rest code body)
  from skip_line_body [OF lexed_hash.hyps(2,3), of "pre @ ''#''"] lexed_hash.IH [of "pre @ ''#'' @ body"] show ?case
    by (subst depth_scan.simps) (simp add: nth_append)
next
  case (lexed_block rest code body)
  from skip_block_body [OF lexed_block.hyps(2), of "pre @ ''/*'' " rest] lexed_block.IH [of "pre @ ''/*'' @ body @ ''*/''"]
  show ?case
    by (subst depth_scan.simps) (simp add: nth_append)
next
  case (lexed_block_open body)
  have "min (skip_block (pre @ ''/*'' @ body) (length pre + 2) + 2) (length (pre @ ''/*'' @ body)) = length (pre @ ''/*'' @ body)"
    using skip_block_open [OF lexed_block_open, of "pre @ ''/*''"] by simp
  with depth_scan_end [of "pre @ ''/*'' @ body"] show ?case
    by (subst depth_scan.simps) (simp add: nth_append)
next
  case (lexed_quoted rest code q body)
  note q = quotes_not_special [OF lexed_quoted.hyps(2)]
  from skip_quoted_closed [OF lexed_quoted.hyps(3), of "pre @ [q]" rest] q lexed_quoted.IH [of "pre @ q # body @ [q]"]
    lexed_quoted.hyps(2)
  show ?case
    by (subst depth_scan.simps) (simp add: nth_append)
next
  case (lexed_quoted_open q body tail)
  note q = quotes_not_special [OF lexed_quoted_open(1)]
  from skip_quoted_open [OF lexed_quoted_open(2,3), of "pre @ [q]"] q lexed_quoted_open(1)
    depth_scan_end [of "pre @ q # body @ tail"]
  show ?case
    by (subst depth_scan.simps) (simp add: nth_append)
next
  case (lexed_code s code c)
  from lexed_code.IH [of "pre @ [c]"] show ?case
    by (simp add: depth_scan_code [OF lexed_code.hyps(2-4)])
qed

text \<open>Every text has a reading.\<close>

lemma quoted_body_split:
  "(\<exists>body rest. quoted_body q body \<and> s = body @ q # rest) \<or>
   (\<exists>body tail. quoted_body q body \<and> tail \<in> {[], [CHR 0x5C]} \<and> s = body @ tail)"
proof (induction s rule: length_induct)
  case (1 s)
  consider "s = []" | "s = [CHR 0x5C]" | c t where "s = CHR 0x5C # c # t" | t where "s = q # t" "q \<noteq> CHR 0x5C"
    | c t where "s = c # t" "c \<noteq> CHR 0x5C" "c \<noteq> q"
    by (metis neq_Nil_conv)
  then show ?case
  proof cases
    case (3 c t)
    with 1 have "(\<exists>body rest. quoted_body q body \<and> t = body @ q # rest) \<or>
      (\<exists>body tail. quoted_body q body \<and> tail \<in> {[], [CHR 0x5C]} \<and> t = body @ tail)" by simp
    with 3 show ?thesis by (metis quoted_escape append_Cons)
  next
    case (5 c t)
    with 1 have "(\<exists>body rest. quoted_body q body \<and> t = body @ q # rest) \<or>
      (\<exists>body tail. quoted_body q body \<and> tail \<in> {[], [CHR 0x5C]} \<and> t = body @ tail)" by simp
    with 5 show ?thesis by (metis quoted_char append_Cons)
  qed (use quoted_Nil in fastforce)+
qed

lemma line_split: "\<exists>body rest. s = body @ rest \<and> LF \<notin> set body \<and> (rest = [] \<or> hd rest = LF)"
proof (intro exI conjI)
  show "s = takeWhile (\<lambda>c. c \<noteq> LF) s @ dropWhile (\<lambda>c. c \<noteq> LF) s" by simp
  show "LF \<notin> set (takeWhile (\<lambda>c. c \<noteq> LF) s)" by (auto dest: set_takeWhileD)
  show "dropWhile (\<lambda>c. c \<noteq> LF) s = [] \<or> hd (dropWhile (\<lambda>c. c \<noteq> LF) s) = LF"
    using hd_dropWhile [of "\<lambda>c. c \<noteq> LF" s] by blast
qed

lemma block_split: "sublist ''*/'' s \<Longrightarrow> \<exists>body rest. s = body @ ''*/'' @ rest \<and> \<not> sublist ''*/'' (body @ ''*'')"
proof (induction s)
  case (Cons c s)
  show ?case
  proof (cases "prefix ''*/'' (c # s)")
    case True
    then obtain rest where "c # s = ''*/'' @ rest" by (auto simp: prefix_def)
    then show ?thesis by (intro exI [of _ "[]"] exI [of _ rest]) (auto simp: sublist_Cons_right)
  next
    case False
    with Cons.prems have "sublist ''*/'' s" by (auto simp: sublist_Cons_right)
    then obtain body rest where *: "s = body @ ''*/'' @ rest" "\<not> sublist ''*/'' (body @ ''*'')"
      using Cons.IH by blast
    have "\<not> prefix ''*/'' ((c # body) @ ''*'')" using False *(1) by (cases body) auto
    with * show ?thesis
      by (intro exI [of _ "c # body"] exI [of _ rest]) (auto simp: sublist_Cons_right)
  qed
qed simp

lemma lexed_total: "\<exists>code. lexed s code"
proof (induction s rule: length_induct)
  case (1 s)
  consider "s = []" | t where "s = ''//'' @ t" | t where "s = ''/*'' @ t" "sublist ''*/'' t"
    | t where "s = ''/*'' @ t" "\<not> sublist ''*/'' t" | t where "s = CHR ''#'' # t"
    | q t where "s = q # t" "q \<in> set quotes"
    | c t where "s = c # t" "c \<noteq> CHR ''#''" "c \<notin> set quotes" "\<not> comment_start (c # t)"
    by (cases s) (auto simp: comment_start_def starts_with_prefix prefix_def)
  then show ?case
  proof cases
    case (2 t)
    obtain body rest where t: "t = body @ rest" "LF \<notin> set body" "rest = [] \<or> hd rest = LF"
      using line_split by blast
    with 1 2 obtain code where "lexed rest code" by fastforce
    with 2 t show ?thesis using lexed_line by blast
  next
    case (3 t)
    obtain body rest where t: "t = body @ ''*/'' @ rest" "\<not> sublist ''*/'' (body @ ''*'')"
      using block_split [OF 3(2)] by blast
    with 1 3 obtain code where "lexed rest code" by fastforce
    with 3 t show ?thesis using lexed_block by blast
  next
    case (4 t)
    then show ?thesis using lexed_block_open by blast
  next
    case (5 t)
    obtain body rest where t: "t = body @ rest" "LF \<notin> set body" "rest = [] \<or> hd rest = LF"
      using line_split by blast
    with 1 5 obtain code where "lexed rest code" by fastforce
    with 5 t show ?thesis using lexed_hash by blast
  next
    case (6 q t)
    consider body rest where "quoted_body q body" "t = body @ q # rest"
      | body tail where "quoted_body q body" "tail \<in> {[], [CHR 0x5C]}" "t = body @ tail"
      using quoted_body_split [of q t] by blast
    then show ?thesis
    proof cases
      case (1 body rest)
      with 6 \<open>\<forall>t. length t < length s \<longrightarrow> (\<exists>code. lexed t code)\<close> obtain code where "lexed rest code" by fastforce
      with 6 1 show ?thesis using lexed_quoted by blast
    next
      case (2 body tail)
      with 6 show ?thesis using lexed_quoted_open by blast
    qed
  next
    case (7 c t)
    with 1 obtain code where "lexed t code" by fastforce
    with 7 show ?thesis using lexed_code by blast
  qed (use lexed_Nil in blast)
qed

subsection \<open>Depth as the largest surplus of opening brackets\<close>

lemma net_open_simps [simp]:
  "net_open [] = 0"
  "net_open (c # cs) = bracket_weight c + net_open cs"
  by (simp_all add: net_open_def)

text \<open>The saturating counter never loses a segment: the scan stays below \<^verbatim>\<open>k\<close> exactly when every segment does.\<close>

lemma all_prefix_Cons: "(\<forall>p. prefix p (c # cs) \<longrightarrow> Q p) \<longleftrightarrow> Q [] \<and> (\<forall>p. prefix p cs \<longrightarrow> Q (c # p))"
  by (auto simp: prefix_Cons)

lemma prefix_le_Cons:
  "(\<forall>p. prefix p (c # code) \<longrightarrow> d + net_open p \<le> k) \<longleftrightarrow>
   d \<le> k \<and> (\<forall>p. prefix p code \<longrightarrow> d + bracket_weight c + net_open p \<le> k)"
  unfolding all_prefix_Cons by (simp add: add.assoc)

lemma sublist_le_Cons:
  "(\<forall>seg. sublist seg (c # code) \<longrightarrow> net_open seg \<le> k) \<longleftrightarrow>
   (\<forall>p. prefix p (c # code) \<longrightarrow> net_open p \<le> k) \<and> (\<forall>seg. sublist seg code \<longrightarrow> net_open seg \<le> k)"
  by (metis sublist_Cons_right)

lemma saturated_prefixes:
  assumes "\<forall>seg. sublist seg code \<longrightarrow> net_open seg \<le> k" and "x = y \<or> x = 0 \<and> y \<le> 0"
  shows "(\<forall>p. prefix p code \<longrightarrow> x + net_open p \<le> k) \<longleftrightarrow> (\<forall>p. prefix p code \<longrightarrow> y + net_open p \<le> k)"
proof -
  have "net_open p \<le> k" if "prefix p code" for p
    using assms(1) that by (meson prefix_imp_sublist)
  with assms(2) show ?thesis by fastforce
qed

lemma nest_scan_le_iff:
  "d \<le> m \<Longrightarrow> int (nest_scan code d m) \<le> k \<longleftrightarrow>
     int m \<le> k \<and> (\<forall>p. prefix p code \<longrightarrow> int d + net_open p \<le> k) \<and> (\<forall>seg. sublist seg code \<longrightarrow> net_open seg \<le> k)"
proof (induction code arbitrary: d m)
  case (Cons c code)
  define e where "e = (if is_open c then d + 1 else if is_close c then d - 1 else d)"
  define n where "n = (if is_open c then max m (d + 1) else m)"
  have en: "e \<le> n" "nest_scan (c # code) d m = nest_scan code e n"
    using Cons.prems by (auto simp: e_def n_def)
  have sat: "int e = int d + bracket_weight c \<or> int e = 0 \<and> int d + bracket_weight c \<le> 0"
    by (auto simp: e_def bracket_weight_def)
  have m: "int n \<le> k \<longleftrightarrow> int m \<le> k \<and> int d \<le> k \<and> int e \<le> k"
    using Cons.prems by (auto simp: e_def n_def)
  have top: "int e \<le> k" if "\<forall>p. prefix p code \<longrightarrow> int e + net_open p \<le> k"
    using that [rule_format, of "[]"] by simp
  have low: "\<forall>p. prefix p (c # code) \<longrightarrow> net_open p \<le> k"
    if "\<forall>p. prefix p (c # code) \<longrightarrow> int d + net_open p \<le> k"
    using that by (smt (verit) of_nat_0_le_iff)
  show ?case
    unfolding en(2) Cons.IH [OF en(1)] sublist_le_Cons [of c code k] m
    using saturated_prefixes [OF _ sat, of code k] prefix_le_Cons [of c code "int d" k] low top
    by blast
qed auto

lemma nest_scan_segments: "int (nest_scan code 0 0) \<le> k \<longleftrightarrow> (\<forall>seg. sublist seg code \<longrightarrow> net_open seg \<le> k)"
proof -
  have "0 \<le> k" if "\<forall>seg. sublist seg code \<longrightarrow> net_open seg \<le> k"
    using that [rule_format, of "[]"] by simp
  moreover have "net_open p \<le> k" if "\<forall>seg. sublist seg code \<longrightarrow> net_open seg \<le> k" "prefix p code" for p
    using that by (meson prefix_imp_sublist)
  ultimately show ?thesis
    unfolding nest_scan_le_iff [of 0 0 code k, OF order_refl] by auto
qed

lemma nest_scan_Max: "int (nest_scan code 0 0) = Max (net_open ` {seg. sublist seg code})"
proof -
  have "finite {seg. sublist seg code}"
    using finite_set [of "sublists code"] by (simp add: set_sublists_eq)
  moreover have "{seg. sublist seg code} \<noteq> {}" by (auto intro: exI [of _ "[]"])
  ultimately have "int (nest_scan code 0 0) \<le> k \<longleftrightarrow> Max (net_open ` {seg. sublist seg code}) \<le> k" for k
    unfolding nest_scan_segments by (simp add: Max_le_iff)
  then show ?thesis by (meson order_antisym order_refl)
qed

lemma max_nesting_depth_lexed: "lexed content code \<Longrightarrow> max_nesting_depth content = nest_scan code 0 0"
  using depth_scan_lexed [of content code "[]"] by (simp add: max_nesting_depth_def)

lemma max_nesting_depth_le:
  "lexed content code \<Longrightarrow>
   max_nesting_depth content \<le> k \<longleftrightarrow> (\<forall>seg. sublist seg code \<longrightarrow> net_open seg \<le> int k)"
  using nest_scan_segments [of code "int k"] by (simp add: max_nesting_depth_lexed)

section \<open>Lines\<close>

lemma fold_max_le: "fold max xs a \<le> k \<longleftrightarrow> a \<le> k \<and> (\<forall>x \<in> set xs. x \<le> (k :: nat))"
  by (induction xs arbitrary: a) auto

lemma split_Cons_sublist: "split LF s = t # ts \<Longrightarrow> prefix t s \<and> (\<forall>u \<in> set ts. sublist u s)"
proof (induction s arbitrary: t ts)
  case (Cons c s)
  obtain u us where s: "split LF s = u # us" by (meson neq_Nil_conv split_pred_nonempty)
  from Cons.IH [OF s] have "prefix u s" "\<forall>v \<in> set us. sublist v s" by auto
  moreover from this have "\<forall>v \<in> set (u # us). sublist v (c # s)"
    by (auto simp: sublist_Cons_right dest: prefix_imp_sublist)
  moreover have "t # ts = (if c = LF then [] # u # us else (c # u) # us)"
    using Cons.prems s by (simp split: if_splits)
  ultimately show ?case by (auto split: if_splits)
qed simp

lemma split_sublist: "t \<in> set (split LF s) \<Longrightarrow> sublist t s"
  using split_Cons_sublist [of s] by (cases "split LF s") (auto dest: prefix_imp_sublist)

lemma split_prefix: "prefix seg s \<Longrightarrow> LF \<notin> set seg \<Longrightarrow> prefix seg (hd (split LF s))"
  by (induction s arbitrary: seg) (auto simp: prefix_Cons split: list.splits)

lemma line_in_split: "sublist seg s \<Longrightarrow> LF \<notin> set seg \<Longrightarrow> \<exists>t \<in> set (split LF s). sublist seg t"
proof (induction s)
  case (Cons c s)
  obtain u us where s: "split LF s = u # us" by (meson neq_Nil_conv split_pred_nonempty)
  show ?case
  proof (cases "prefix seg (c # s)")
    case True
    with split_prefix Cons.prems(2) have "prefix seg (hd (split LF (c # s)))" by blast
    then show ?thesis by (metis hd_in_set prefix_imp_sublist split_pred_nonempty)
  next
    case False
    with Cons have "\<exists>t \<in> set (u # us). sublist seg t" using s by (auto simp: sublist_Cons_right)
    with s show ?thesis by (auto simp: sublist_Cons_right)
  qed
qed simp

lemma longest_line_le:
  "longest_line s \<le> k \<longleftrightarrow> (\<forall>seg. sublist seg s \<longrightarrow> LF \<notin> set seg \<longrightarrow> length seg \<le> k)"
proof -
  have "longest_line s \<le> k \<longleftrightarrow> (\<forall>t \<in> set (split LF s). length t \<le> k)"
    by (simp add: longest_line_def fold_max_le)
  also have "\<dots> \<longleftrightarrow> (\<forall>seg. sublist seg s \<longrightarrow> LF \<notin> set seg \<longrightarrow> length seg \<le> k)"
  proof (intro iffI allI impI ballI)
    fix seg assume lines: "\<forall>t \<in> set (split LF s). length t \<le> k" and seg: "sublist seg s" "LF \<notin> set seg"
    obtain t where "t \<in> set (split LF s)" "sublist seg t" using line_in_split [OF seg] by blast
    with lines show "length seg \<le> k" by (meson order_trans sublist_length_le)
  next
    fix t assume segs: "\<forall>seg. sublist seg s \<longrightarrow> LF \<notin> set seg \<longrightarrow> length seg \<le> k" and t: "t \<in> set (split LF s)"
    from split_sublist [OF t] split_pred_no_sep [OF t, of LF] segs show "length t \<le> k" by blast
  qed
  finally show ?thesis .
qed

section \<open>The guard\<close>

text \<open>C25: The depth the scanner reports is the largest number of brackets that any stretch of the text outside comments
  and literals opens without closing; every file has such a reading.\<close>

theorem nesting_depth_exact:
  "(\<exists>code. lexed content code) \<and>
   (\<forall>code. lexed content code \<longrightarrow> int (max_nesting_depth content) = Max (net_open ` {seg. sublist seg code}))"
  by (simp add: lexed_total max_nesting_depth_lexed nest_scan_Max)

theorem nesting_depth_exact_witness:
  "int (max_nesting_depth ''}f([1])#{'') = Max (net_open ` {seg. sublist seg ''}f([1])''})"
  using nesting_depth_exact [of "''}f([1])#{''"]
    lexed_hash [where rest = "[]" and body = "''{''", OF lexed_Nil]
  by (auto simp: comment_start_def starts_with_def intro!: lexed_code elim!: allE [of _ "''}f([1])''"])

text \<open>A file reaches the parser exactly when it fits its size budget, has no null byte in its first 4096 bytes, no
  stretch of more than 1024 bytes without a newline, and opens at most 64 brackets at once in its code.\<close>

theorem guard_admits_exact:
  assumes "lexed content code"
  shows "check_path p file_len content = Inr () \<longleftrightarrow>
    file_len \<le> size_budget p \<and> CHR 0x00 \<notin> set (take 4096 content)
    \<and> (\<forall>seg. sublist seg content \<longrightarrow> LF \<notin> set seg \<longrightarrow> length seg \<le> 1024)
    \<and> (\<forall>seg. sublist seg code \<longrightarrow> net_open seg \<le> 64)"
proof -
  have "take (min (length content) 4096) content = take 4096 content" by (simp add: min_def)
  then show ?thesis
    using longest_line_le [of content 1024] max_nesting_depth_le [OF assms, of 64]
    by (auto simp: check_path_def check_with_budget_def looks_binary_def BINARY_SNIFF_LEN_def MAX_LINE_LEN_BYTES_def
        MAX_NESTING_DEPTH_def Let_def not_less)
qed

theorem guard_admits_exact_witness:
  "list_all (\<lambda>s. net_open s \<le> 64) [''{'', ''}'']
   \<and> (check_path [Normal ''a.rs''] 2 ''{}'' = Inr () \<longleftrightarrow>
      2 \<le> size_budget [Normal ''a.rs''] \<and> CHR 0x00 \<notin> set (take 4096 ''{}'')
      \<and> longest_line ''{}'' \<le> 1024 \<and> max_nesting_depth ''{}'' \<le> 64)"
proof -
  have l: "lexed ''{}'' ''{}''"
    by (intro lexed_code lexed_Nil) (auto simp: comment_start_def starts_with_def)
  show ?thesis
    using guard_admits_exact [OF l, of "[Normal ''a.rs'']" 2] longest_line_le [of "''{}''" 1024] max_nesting_depth_le [OF l, of 64]
    by (simp add: bracket_weight_def is_open_def is_close_def)
qed

text \<open>A refusal names the first check that fails, with what it measured.\<close>

lemma check_path_rejects:
  "check_path p n content = Inl (Oversized s b) \<longleftrightarrow> s = n \<and> b = size_budget p \<and> n > b"
  "check_path p n content = Inl Binary \<longleftrightarrow> n \<le> size_budget p \<and> looks_binary content"
  "check_path p n content = Inl (LongLine l) \<longleftrightarrow>
     n \<le> size_budget p \<and> \<not> looks_binary content \<and> l = longest_line content \<and> l > 1024"
  "check_path p n content = Inl (DeepNesting d) \<longleftrightarrow>
     n \<le> size_budget p \<and> \<not> looks_binary content \<and> longest_line content \<le> 1024 \<and> d = max_nesting_depth content \<and> d > 64"
  by (auto simp: check_path_def check_with_budget_def Let_def MAX_LINE_LEN_BYTES_def MAX_NESTING_DEPTH_def)

lemma should_parse_path_iff: "should_parse_path p n content \<longleftrightarrow> check_path p n content = Inr ()"
  by (simp add: should_parse_path_def should_parse_with_budget_def check_path_def split: sum.splits)

text \<open>One apostrophe that is not a literal, such as the lifetime of \<^verbatim>\<open>fn f<'a>\<close>, opens one for the scanner: whatever brackets
  follow up to the next apostrophe or the end of the file are not counted.\<close>

lemma quoted_body_plain: "q \<notin> set s \<Longrightarrow> CHR 0x5C \<notin> set s \<Longrightarrow> quoted_body q s"
  by (induction s) (auto intro: quoted_Nil quoted_char)

lemma lifetime_hides_nesting:
  assumes "CHR 0x27 \<notin> set s" and "CHR 0x5C \<notin> set s"
  shows "max_nesting_depth (''fn f<'' @ CHR 0x27 # s) = 0"
proof -
  have "lexed (CHR 0x27 # s) []"
    using lexed_quoted_open [of "CHR 0x27" s "[]"] quoted_body_plain [OF assms] by simp
  then have "lexed (''fn f<'' @ CHR 0x27 # s) ''fn f<''"
    by (auto intro!: lexed_code simp: comment_start_def starts_with_def)
  from max_nesting_depth_lexed [OF this] show ?thesis by (simp add: is_open_def is_close_def)
qed

section \<open>Cached parsers\<close>

text \<open>What the code uses of the tree-sitter library: a parser for a grammar, its timeout, a parse (which may time out and
  leaves the parser in some state) and a reset.\<close>

record ('p, 't) tree_sitter =
  ts_new :: "string \<Rightarrow> string + 'p"
  ts_timeout :: "nat \<Rightarrow> 'p \<Rightarrow> 'p"
  ts_parse :: "'p \<Rightarrow> string \<Rightarrow> 't option \<times> 'p"
  ts_reset :: "'p \<Rightarrow> 'p"

datatype parser_error = LanguageError string | GuardRejected string | QueryError string

datatype 'r parse_outcome = NoGrammar | ParseFailed | Parsed 'r

fun into_option :: "'r parse_outcome \<Rightarrow> 'r option" where
  "into_option (Parsed r) = Some r"
| "into_option NoGrammar = None"
| "into_option ParseFailed = None"

definition is_parse_failed :: "'r parse_outcome \<Rightarrow> bool" where
  "is_parse_failed out = (case out of ParseFailed \<Rightarrow> True | _ \<Rightarrow> False)"

definition INDEX_PARSE_TIMEOUT_MICROS :: nat where
  "INDEX_PARSE_TIMEOUT_MICROS = 2000000"

definition QUERY_PARSE_TIMEOUT_MICROS :: nat where
  "QUERY_PARSE_TIMEOUT_MICROS = 500000"

definition MAX_QUERY_STEPS :: nat where
  "MAX_QUERY_STEPS = 10000"

type_synonym 'p parser_cache = "'p option list"

definition no_parsers :: "'p parser_cache" where
  "no_parsers = replicate TREE_SITTER_COUNT None"

definition create_bounded_parser :: "('p, 't) tree_sitter \<Rightarrow> string \<Rightarrow> parser_error + 'p" where
  "create_bounded_parser ts grammar =
     (case ts_new ts grammar of
        Inl e \<Rightarrow> Inl (LanguageError e)
      | Inr p \<Rightarrow> Inr (ts_timeout ts QUERY_PARSE_TIMEOUT_MICROS p))"

definition cached_parser :: "('p, 't) tree_sitter \<Rightarrow> 'p parser_cache \<Rightarrow> nat \<Rightarrow> string \<Rightarrow> parser_error + 'p" where
  "cached_parser ts cache slot grammar =
     (case cache ! slot of Some p \<Rightarrow> Inr p | None \<Rightarrow> create_bounded_parser ts grammar)"

text \<open>\<^verbatim>\<open>with_parser\<close>: the callback may use the parser, which is reset before it goes back to its slot.\<close>

definition with_parser ::
  "('p, 't) tree_sitter \<Rightarrow> 'p parser_cache \<Rightarrow> language_kind \<Rightarrow> ('p \<Rightarrow> 'r \<times> 'p) \<Rightarrow> 'r option \<times> 'p parser_cache" where
  "with_parser ts cache lang f =
     (case tree_sitter_slot lang of
        None \<Rightarrow> (None, cache)
      | Some slot \<Rightarrow>
          (case lang_grammar lang of
             None \<Rightarrow> (None, cache)
           | Some grammar \<Rightarrow>
               (case cached_parser ts cache slot grammar of
                  Inl _ \<Rightarrow> (None, cache)
                | Inr p \<Rightarrow> let (out, p') = f p in (Some out, cache[slot := Some (ts_reset ts p')]))))"

definition parse_with ::
  "('p, 't) tree_sitter \<Rightarrow> 'p parser_cache \<Rightarrow> language_kind \<Rightarrow> string \<Rightarrow> nat \<Rightarrow> ('t \<Rightarrow> 'r) \<Rightarrow>
   'r parse_outcome \<times> 'p parser_cache" where
  "parse_with ts cache lang content timeout f =
     (case tree_sitter_slot lang of
        None \<Rightarrow> (NoGrammar, cache)
      | Some slot \<Rightarrow>
          (case lang_grammar lang of
             None \<Rightarrow> (NoGrammar, cache)
           | Some grammar \<Rightarrow>
               (case cached_parser ts cache slot grammar of
                  Inl _ \<Rightarrow> (ParseFailed, cache)
                | Inr p \<Rightarrow>
                    let (tree, p') = ts_parse ts (ts_timeout ts timeout p) content in
                    (case tree of Some t \<Rightarrow> Parsed (f t) | None \<Rightarrow> ParseFailed,
                     cache[slot := Some (ts_reset ts p')]))))"

text \<open>The matches of a query, cut at the step limit; the iterator of the library is the list of what it yields.\<close>

fun bounded_matches :: "nat \<Rightarrow> 'm list \<Rightarrow> 'm list" where
  "bounded_matches step_count [] = []"
| "bounded_matches step_count (m # ms) =
     m # (if step_count + 1 \<ge> MAX_QUERY_STEPS then [] else bounded_matches (step_count + 1) ms)"

definition execute_bounded_query :: "'m list \<Rightarrow> 'm list" where
  "execute_bounded_query ms = bounded_matches 0 ms"

lemma bounded_matches_take: "n < MAX_QUERY_STEPS \<Longrightarrow> bounded_matches n ms = take (MAX_QUERY_STEPS - n) ms"
proof (induction n ms rule: bounded_matches.induct)
  case (2 n m ms)
  then obtain k where "MAX_QUERY_STEPS - n = Suc k" "MAX_QUERY_STEPS - Suc n = k"
    by (metis Suc_diff_Suc)
  with 2 show ?case by auto
qed simp

lemma execute_bounded_query_take: "execute_bounded_query ms = take 10000 ms"
  by (simp add: execute_bounded_query_def bounded_matches_take MAX_QUERY_STEPS_def)

subsection \<open>The cache is not observable\<close>

lemma slot_bound: "tree_sitter_slot lang = Some slot \<Longrightarrow> slot < TREE_SITTER_COUNT"
  by (cases lang) (auto simp: TREE_SITTER_COUNT_def)

lemma slot_inj: "tree_sitter_slot a = Some slot \<Longrightarrow> tree_sitter_slot b = Some slot \<Longrightarrow> a = b"
  by (cases a; cases b) auto

lemma slot_grammar: "tree_sitter_slot lang \<noteq> None \<longleftrightarrow> lang_grammar lang \<noteq> None"
  by (cases lang) auto

text \<open>Two parsers that no parse can tell apart, whatever the timeout.\<close>

definition same_parser :: "('p, 't) tree_sitter \<Rightarrow> 'p \<Rightarrow> 'p \<Rightarrow> bool" where
  "same_parser ts p q \<longleftrightarrow>
     (\<forall>t content. fst (ts_parse ts (ts_timeout ts t p) content) = fst (ts_parse ts (ts_timeout ts t q) content))"

text \<open>The documented behaviour of the library: a timeout replaces the one before it, and a parser reset after
  a parse is like a new one of its grammar.\<close>

definition resettable :: "('p, 't) tree_sitter \<Rightarrow> bool" where
  "resettable ts \<longleftrightarrow>
     (\<forall>p t. same_parser ts (ts_timeout ts t p) p) \<and>
     (\<forall>grammar p q t content. ts_new ts grammar = Inr q \<longrightarrow> same_parser ts p q \<longrightarrow>
        same_parser ts (ts_reset ts (snd (ts_parse ts (ts_timeout ts t p) content))) q)"

definition fresh_outcome ::
  "('p, 't) tree_sitter \<Rightarrow> language_kind \<Rightarrow> string \<Rightarrow> nat \<Rightarrow> ('t \<Rightarrow> 'r) \<Rightarrow> 'r parse_outcome" where
  "fresh_outcome ts lang content timeout f =
     (case lang_grammar lang of
        None \<Rightarrow> NoGrammar
      | Some grammar \<Rightarrow>
          (case ts_new ts grammar of
             Inl _ \<Rightarrow> ParseFailed
           | Inr p \<Rightarrow> (case fst (ts_parse ts (ts_timeout ts timeout p) content) of
                        Some t \<Rightarrow> Parsed (f t)
                      | None \<Rightarrow> ParseFailed)))"

definition cache_ok :: "('p, 't) tree_sitter \<Rightarrow> 'p parser_cache \<Rightarrow> bool" where
  "cache_ok ts cache \<longleftrightarrow> length cache = TREE_SITTER_COUNT \<and>
     (\<forall>lang slot p. tree_sitter_slot lang = Some slot \<longrightarrow> cache ! slot = Some p \<longrightarrow>
        (\<exists>grammar q. lang_grammar lang = Some grammar \<and> ts_new ts grammar = Inr q \<and> same_parser ts p q))"

text \<open>A thread parses one file after another; only the cache is left of the earlier ones.\<close>

definition parse_step ::
  "('p, 't) tree_sitter \<Rightarrow> language_kind \<times> string \<times> nat \<Rightarrow> 'p parser_cache \<Rightarrow> 'p parser_cache" where
  "parse_step ts call cache = (case call of (lang, content, timeout) \<Rightarrow> snd (parse_with ts cache lang content timeout id))"

lemma cache_ok_start: "cache_ok ts no_parsers"
  using slot_bound by (auto simp: cache_ok_def no_parsers_def)

lemma cached_parser_ok:
  assumes "resettable ts" "cache_ok ts cache" "tree_sitter_slot lang = Some slot" "lang_grammar lang = Some grammar"
  shows "case cached_parser ts cache slot grammar of
           Inl _ \<Rightarrow> \<exists>e. ts_new ts grammar = Inl e
         | Inr p \<Rightarrow> \<exists>q. ts_new ts grammar = Inr q \<and> same_parser ts p q"
proof (cases "cache ! slot")
  case None
  with assms(1) show ?thesis
    by (auto simp: cached_parser_def create_bounded_parser_def resettable_def split: sum.splits)
next
  case (Some p)
  with assms show ?thesis by (fastforce simp: cached_parser_def cache_ok_def)
qed

lemma cache_ok_update:
  assumes "cache_ok ts cache" "tree_sitter_slot lang = Some slot" "lang_grammar lang = Some grammar"
    "ts_new ts grammar = Inr q" "same_parser ts p q"
  shows "cache_ok ts (cache[slot := Some p])"
  unfolding cache_ok_def
proof (intro conjI allI impI)
  show "length (cache[slot := Some p]) = TREE_SITTER_COUNT" using assms(1) by (simp add: cache_ok_def)
  fix l s r assume l: "tree_sitter_slot l = Some s" and r: "cache[slot := Some p] ! s = Some r"
  have bound: "slot < length cache" using slot_bound [OF assms(2)] assms(1) by (simp add: cache_ok_def)
  show "\<exists>g q. lang_grammar l = Some g \<and> ts_new ts g = Inr q \<and> same_parser ts r q"
  proof (cases "s = slot")
    case True
    with l r bound assms slot_inj [of l s lang] show ?thesis by auto
  next
    case False
    with l r assms(1) show ?thesis by (auto simp: cache_ok_def)
  qed
qed

lemma parse_with_ok:
  assumes "resettable ts" "cache_ok ts cache"
  shows "fst (parse_with ts cache lang content timeout f) = fresh_outcome ts lang content timeout f
       \<and> cache_ok ts (snd (parse_with ts cache lang content timeout f))"
proof (cases "lang_grammar lang")
  case None
  with slot_grammar [of lang] assms(2) show ?thesis by (simp add: parse_with_def fresh_outcome_def)
next
  case (Some grammar)
  with slot_grammar [of lang] obtain slot where slot: "tree_sitter_slot lang = Some slot" by auto
  note parser = cached_parser_ok [OF assms slot Some]
  show ?thesis
  proof (cases "cached_parser ts cache slot grammar")
    case (Inl e)
    with parser slot Some assms(2) show ?thesis by (auto simp: parse_with_def fresh_outcome_def)
  next
    case (Inr p)
    with parser obtain q where q: "ts_new ts grammar = Inr q" "same_parser ts p q" by auto
    obtain tree p' where run: "ts_parse ts (ts_timeout ts timeout p) content = (tree, p')" by fastforce
    have "same_parser ts (ts_reset ts p') q" using assms(1) run q by (metis resettable_def snd_conv)
    from cache_ok_update [OF assms(2) slot Some q(1) this]
    have "cache_ok ts (cache[slot := Some (ts_reset ts p')])" .
    moreover have "fst (ts_parse ts (ts_timeout ts timeout q) content) = tree"
      using q(2) run by (metis same_parser_def fst_conv)
    ultimately show ?thesis
      using slot Some Inr run q(1) by (simp add: parse_with_def fresh_outcome_def)
  qed
qed

lemma cache_ok_run: "resettable ts \<Longrightarrow> cache_ok ts cache \<Longrightarrow> cache_ok ts (fold (parse_step ts) calls cache)"
  by (induction calls arbitrary: cache) (auto simp: parse_step_def parse_with_ok)

text \<open>C26: Caching parsers per thread cannot be observed: after any sequence of parses, timed out or not, the outcome
  for a file is the one a new parser of its language gives, and it is never a missing grammar for a language that has one.\<close>

theorem parser_cache_transparent:
  assumes "resettable ts"
  shows "fst (parse_with ts (fold (parse_step ts) calls no_parsers) lang content timeout f)
         = fresh_outcome ts lang content timeout f"
  using parse_with_ok [OF assms cache_ok_run [OF assms cache_ok_start]] by blast

text \<open>A library whose parse times out on long input and then stays halfway until it is reset.\<close>

definition toy_parser :: "(nat \<times> bool, string) tree_sitter" where
  "toy_parser =
     \<lparr>ts_new = (\<lambda>g. Inr (0, False)), ts_timeout = (\<lambda>t (_, half). (t, half)),
      ts_parse = (\<lambda>(t, half) s. if half \<or> length s > t then (None, (t, True)) else (Some s, (t, False))),
      ts_reset = (\<lambda>(t, _). (t, False))\<rparr>"

theorem parser_cache_transparent_witness:
  "resettable toy_parser
   \<and> fst (parse_with toy_parser (fold (parse_step toy_parser) [(Rust, ''long'', 2)] no_parsers) Rust ''ab'' 2 length) = Parsed 2"
proof -
  have ts: "resettable toy_parser"
    by (auto simp: resettable_def same_parser_def toy_parser_def)
  from parser_cache_transparent [OF ts, of "[(Rust, ''long'', 2)]" Rust "''ab''" 2 length] ts show ?thesis
    by (simp add: fresh_outcome_def toy_parser_def)
qed

end
