(* ===== verification/Decapitation.thy ===== *)
theory Decapitation
  imports Ast_Guard Output_Cap
begin

text \<open>
  The decapitator of \<^verbatim>\<open>crates/mesh-parsers/src/decapitate.rs\<close>: the bodies of functions are replaced by a stub before a file is
  shown to an agent, and every line of the result is mapped back to the lines it came from. A syntax tree is the value the
  tree-sitter library returns; the walk over it and the splice of the text are the code's own. Text is a byte string; line numbers
  and byte offsets are natural numbers (files are bounded by the guard, far below 2^32); the letters of a key are those of ASCII.
\<close>

section \<open>Syntax trees\<close>

datatype ts_node = TsNode
  (nd_kind: string) (nd_named: bool) (nd_field: "string option") (nd_start: nat) (nd_end: nat)
  (nd_start_pos: "nat \<times> nat") (nd_end_pos: "nat \<times> nat") (nd_error: bool) (nd_children: "ts_node list")

definition child_by_field_name :: "ts_node \<Rightarrow> string \<Rightarrow> ts_node option" where
  "child_by_field_name n f = find (\<lambda>c. nd_field c = Some f) (nd_children n)"

definition named_children :: "ts_node \<Rightarrow> ts_node list" where
  "named_children n = filter nd_named (nd_children n)"

definition byte_range :: "nat \<Rightarrow> nat \<Rightarrow> 'a list \<Rightarrow> 'a list" where
  "byte_range s e xs = take (e - s) (drop s xs)"

section \<open>What is replaced\<close>

type_synonym replacement = "nat \<times> nat \<times> string"

definition STRIPPED :: string where
  "STRIPPED = ''{ /* stripped */ }''"

function has_interpolation :: "ts_node \<Rightarrow> nat \<Rightarrow> bool" where
  "has_interpolation node depth =
     (if nd_kind node = ''interpolation'' then True
      else if depth \<ge> 2 then False
      else list_ex (\<lambda>c. has_interpolation c (depth + 1)) (named_children node))"
  by pat_completeness auto
termination by (relation "measure (\<lambda>(n, d). 2 - d)") auto

definition python_docstring :: "ts_node \<Rightarrow> ts_node option" where
  "python_docstring body =
     (case find (\<lambda>c. nd_kind c \<noteq> ''comment'') (named_children body) of
        None \<Rightarrow> None
      | Some fst_stmt \<Rightarrow>
          (case named_children fst_stmt of
             [expr] \<Rightarrow>
               if nd_kind fst_stmt = ''expression_statement''
                  \<and> (nd_kind expr = ''string'' \<or> nd_kind expr = ''concatenated_string'') \<and> \<not> has_interpolation expr 0
               then Some fst_stmt else None
           | _ \<Rightarrow> None))"

definition python_body_is_inline :: "ts_node \<Rightarrow> ts_node \<Rightarrow> bool" where
  "python_body_is_inline node body =
     (fold (\<lambda>c colon_row. if nd_kind c = '':'' \<and> nd_end c \<le> nd_start body then Some (fst (nd_end_pos c)) else colon_row)
        (nd_children node) None
      = Some (fst (nd_start_pos body)))"

definition is_key_text :: "string \<Rightarrow> bool" where
  "is_key_text t \<longleftrightarrow> t \<noteq> [] \<and> list_all (\<lambda>c. is_ascii_alphanumeric c \<or> c = CHR ''_'' \<or> c = CHR ''$'') t"

definition key_at :: "string \<Rightarrow> ts_node \<Rightarrow> string list" where
  "key_at source n =
     (if nd_start n < length source \<and> nd_end n \<le> length source
      then let key_text = trim (byte_range (nd_start n) (nd_end n) source) in if is_key_text key_text then [key_text] else []
      else [])"

definition object_keys :: "string \<Rightarrow> ts_node \<Rightarrow> string list" where
  "object_keys source child =
     (if nd_kind child = ''pair''
      then case child_by_field_name child ''key'' of Some key \<Rightarrow> key_at source key | None \<Rightarrow> []
      else if nd_kind child = ''shorthand_property_identifier'' \<or> nd_kind child = ''shorthand_property_identifier_pattern''
      then key_at source child
      else [])"

function collect_keys_recursive :: "string \<Rightarrow> ts_node \<Rightarrow> nat \<Rightarrow> string list" where
  "collect_keys_recursive source node depth =
     (if depth > 8 then []
      else if nd_kind node = ''object'' then concat (map (object_keys source) (nd_children node))
      else if nd_kind node = ''parenthesized_expression'' \<or> nd_kind node = ''as_expression''
      then concat (map (\<lambda>child. collect_keys_recursive source child (depth + 1)) (named_children node))
      else if nd_kind node = ''statement_block''
      then concat (map (\<lambda>child. if nd_kind child = ''return_statement''
                               then case named_children child of
                                      val # _ \<Rightarrow> collect_keys_recursive source val (depth + 1)
                                    | [] \<Rightarrow> []
                               else [])
                      (nd_children node))
      else [])"
  by pat_completeness auto
termination by (relation "measure (\<lambda>(s, n, d). 9 - d)") auto

definition extract_returned_object_keys :: "string \<Rightarrow> ts_node \<Rightarrow> string list" where
  "extract_returned_object_keys source node = remdups_adj (sort (collect_keys_recursive source node 0))"

definition synthetic_type :: "string list \<Rightarrow> string" where
  "synthetic_type keys = '': { '' @ join_with '', '' (map (\<lambda>k. k @ '': any'') keys) @ '' }''"

definition TS_FUNCTIONS :: "string list" where
  "TS_FUNCTIONS =
     [''method_definition'', ''function_declaration'', ''function_item'', ''function_expression'', ''class_static_block'',
      ''generator_function'', ''generator_function_declaration'', ''arrow_function'']"

definition inferred_type :: "string \<Rightarrow> ts_node \<Rightarrow> ts_node \<Rightarrow> replacement list" where
  "inferred_type source node body =
     (case child_by_field_name node ''return_type'' of
        Some _ \<Rightarrow> []
      | None \<Rightarrow>
          let keys = extract_returned_object_keys source body in
          if keys = [] then []
          else case (case child_by_field_name node ''parameters'' of
                       Some p \<Rightarrow> Some p
                     | None \<Rightarrow> child_by_field_name node ''parameter'') of
                 Some p \<Rightarrow> [(nd_end p, nd_end p, synthetic_type keys)]
               | None \<Rightarrow> [])"

text \<open>What one node pushes, and whether the walk returns there instead of going on to its children.\<close>

definition whole_body :: "ts_node \<Rightarrow> string \<Rightarrow> replacement list \<times> bool" where
  "whole_body node txt =
     (case child_by_field_name node ''body'' of
        Some body \<Rightarrow> ([(nd_start body, nd_end body, txt)], True)
      | None \<Rightarrow> ([], False))"

definition ts_replacements :: "string \<Rightarrow> ts_node \<Rightarrow> replacement list \<times> bool" where
  "ts_replacements source node =
     (case child_by_field_name node ''body'' of
        None \<Rightarrow> ([], False)
      | Some body \<Rightarrow>
          let ins = inferred_type source node body in
          if nd_kind body = ''statement_block'' then (ins @ [(nd_start body, nd_end body, STRIPPED)], True)
          else if nd_kind node = ''arrow_function'' then (ins @ [(nd_start body, nd_end body, ''/* stripped */'')], True)
          else (ins, False))"

definition python_replacements :: "ts_node \<Rightarrow> replacement list \<times> bool" where
  "python_replacements node =
     (case child_by_field_name node ''body'' of
        None \<Rightarrow> ([], False)
      | Some body \<Rightarrow>
          (case python_docstring body of
             Some doc \<Rightarrow>
               if nd_end doc < nd_end body
               then let tail = (if python_body_is_inline node body then ''; ...''
                                else [LF] @ replicate (snd (nd_start_pos doc)) CHR '' '' @ ''...'') in
                    ([(nd_end doc, nd_end body, tail)], True)
               else ([], True)
           | None \<Rightarrow> ([(nd_start body, nd_end body, '' ...'')], True)))"

definition kotlin_replacements :: "string \<Rightarrow> ts_node \<Rightarrow> replacement list \<times> bool" where
  "kotlin_replacements source node =
     (case find (\<lambda>c. nd_kind c = ''function_body'') (nd_children node) of
        None \<Rightarrow> ([], False)
      | Some body \<Rightarrow>
          let is_block = (nd_start body < length source \<and> source ! nd_start body = CHR ''{'') in
          ([(nd_start body, nd_end body, if is_block then STRIPPED else ''= /* stripped */'')], True))"

definition scala_replacements :: "ts_node \<Rightarrow> replacement list \<times> bool" where
  "scala_replacements node =
     (case child_by_field_name node ''body'' of
        None \<Rightarrow> ([], False)
      | Some body \<Rightarrow>
          ([(nd_start body, nd_end body, if nd_kind body = ''block'' then STRIPPED else ''/* stripped */'')], True))"

definition node_replacements :: "string \<Rightarrow> language_kind \<Rightarrow> ts_node \<Rightarrow> replacement list \<times> bool" where
  "node_replacements source lang node =
     (let kind = nd_kind node; skip = ([], False) in
      case lang of
        Java \<Rightarrow> if kind \<in> set [''method_declaration'', ''constructor_declaration''] then whole_body node STRIPPED else skip
      | Go \<Rightarrow> if kind \<in> set [''function_declaration'', ''method_declaration''] then whole_body node STRIPPED else skip
      | TypeScript \<Rightarrow> if kind \<in> set TS_FUNCTIONS then ts_replacements source node else skip
      | Tsx \<Rightarrow> if kind \<in> set TS_FUNCTIONS then ts_replacements source node else skip
      | JavaScript \<Rightarrow> if kind \<in> set TS_FUNCTIONS then ts_replacements source node else skip
      | Rust \<Rightarrow> if kind = ''function_item'' then whole_body node STRIPPED else skip
      | Cpp \<Rightarrow> if kind = ''function_definition'' then whole_body node STRIPPED else skip
      | Python \<Rightarrow> if kind = ''function_definition'' then python_replacements node else skip
      | CSharp \<Rightarrow> if kind \<in> set [''method_declaration'', ''constructor_declaration''] then whole_body node STRIPPED else skip
      | Kotlin \<Rightarrow> if kind = ''function_declaration'' then kotlin_replacements source node else skip
      | Ruby \<Rightarrow> if kind \<in> set [''method'', ''singleton_method'']
               then whole_body node ([LF] @ ''  # stripped'' @ [LF]) else skip
      | Php \<Rightarrow> if kind \<in> set [''method_declaration'', ''function_definition''] then whole_body node STRIPPED else skip
      | Swift \<Rightarrow> if kind = ''function_declaration'' then whole_body node STRIPPED else skip
      | Scala \<Rightarrow> if kind = ''function_definition'' then scala_replacements node else skip
      | _ \<Rightarrow> skip)"

function collect_body_replacements :: "string \<Rightarrow> language_kind \<Rightarrow> ts_node \<Rightarrow> nat \<Rightarrow> replacement list" where
  "collect_body_replacements source lang node depth =
     (if depth > MAX_NESTING_DEPTH then []
      else let (pushed, returned) = node_replacements source lang node in
        if returned then pushed
        else pushed @ concat (map (\<lambda>child. collect_body_replacements source lang child (depth + 1)) (nd_children node)))"
  by pat_completeness auto
termination by (relation "measure (\<lambda>(s, l, n, d). MAX_NESTING_DEPTH + 1 - d)") auto

declare has_interpolation.simps [simp del] collect_keys_recursive.simps [simp del] collect_body_replacements.simps [simp del]

section \<open>The splice\<close>

definition identity_line_map :: "string \<Rightarrow> (nat \<times> nat) list" where
  "identity_line_map content = map (\<lambda>l. (l, l)) [1 ..< length (str_lines content) + 1]"

definition count_newlines :: "string \<Rightarrow> nat" where
  "count_newlines s = length (filter (\<lambda>b. b = LF) s)"

text \<open>The span of the output line being built, and the spans of the lines before it.\<close>

type_synonym tracker = "(nat \<times> nat) option \<times> (nat \<times> nat) list"

fun push_span :: "char \<Rightarrow> nat \<Rightarrow> nat \<Rightarrow> tracker \<Rightarrow> tracker" where
  "push_span byte fst_line lst_line (current, m) =
     (let span = (case current of Some (a, _) \<Rightarrow> (a, lst_line) | None \<Rightarrow> (min fst_line lst_line, lst_line)) in
      if byte = LF then (None, m @ [span]) else (Some span, m))"

definition push_byte :: "char \<Rightarrow> nat \<Rightarrow> tracker \<Rightarrow> tracker" where
  "push_byte byte orig_line = push_span byte orig_line orig_line"

fun finish_tracker :: "tracker \<Rightarrow> (nat \<times> nat) list" where
  "finish_tracker (current, m) = (case current of Some span \<Rightarrow> m @ [span] | None \<Rightarrow> m)"

definition push_kept :: "string \<Rightarrow> nat \<times> tracker \<Rightarrow> nat \<times> tracker" where
  "push_kept kept =
     fold (\<lambda>b (orig_line, tr). (if b = LF then orig_line + 1 else orig_line, push_byte b orig_line tr)) kept"

definition push_replacement :: "string \<Rightarrow> nat \<Rightarrow> nat \<Rightarrow> nat \<Rightarrow> tracker \<Rightarrow> tracker" where
  "push_replacement replacement start_line body_line orig_line tr =
     (case replacement of
        [] \<Rightarrow> tr
      | b # bs \<Rightarrow> fold (\<lambda>c. push_span c body_line orig_line) bs (push_byte b start_line tr))"

text \<open>The loop over the sorted replacements: cursor, current line, output and tracker. The flag says whether a map is wanted.\<close>

fun splice_loop ::
  "bool \<Rightarrow> string \<Rightarrow> nat \<Rightarrow> nat \<Rightarrow> string \<Rightarrow> tracker \<Rightarrow> replacement list \<Rightarrow> string \<times> (nat \<times> nat) list" where
  "splice_loop mapped content cursor orig_line out tr [] =
     (let rest = drop cursor content in
      (out @ rest, if mapped then finish_tracker (snd (push_kept rest (orig_line, tr))) else []))"
| "splice_loop mapped content cursor orig_line out tr ((start, fin, replacement) # reps) =
     (if start < cursor \<or> fin > length content \<or> start > fin
         \<or> \<not> is_char_boundary content start \<or> \<not> is_char_boundary content fin
      then splice_loop mapped content cursor orig_line out tr reps
      else
        let kept = byte_range cursor start content;
            (start_line, tr1) = (if mapped then push_kept kept (orig_line, tr) else (orig_line + count_newlines kept, tr));
            region = byte_range start fin content;
            end_line = start_line + count_newlines region;
            lead = length region - length (trim_start region);
            body_line = start_line + count_newlines (take lead region);
            tr2 = (if mapped then push_replacement replacement start_line body_line end_line tr1 else tr1) in
        splice_loop mapped content fin end_line (out @ kept @ replacement) tr2 reps)"

definition sort_replacements :: "replacement list \<Rightarrow> replacement list" where
  "sort_replacements reps = sort_key (\<lambda>(s, e, _). (s, e)) reps"

definition apply_replacements :: "bool \<Rightarrow> string \<Rightarrow> replacement list \<Rightarrow> string \<times> (nat \<times> nat) list" where
  "apply_replacements mapped content reps =
     (if reps = [] then (content, if mapped then identity_line_map content else [])
      else splice_loop mapped content 0 1 [] (None, []) (sort_replacements reps))"

section \<open>The entry points\<close>

record decapitated_source =
  ds_text :: string
  line_map :: "(nat \<times> nat) list"
  bounded :: bool

definition BOUNDED_ERROR_STUB :: string where
  "BOUNDED_ERROR_STUB =
     ''// [MeshMCP Warning: AST decapitation bounded or parser timeout (>15ms). Body stripped to protect context window.]'' @ [LF]"

definition decapitate_checked ::
  "('p, ts_node) tree_sitter \<Rightarrow> string \<Rightarrow> language_kind \<Rightarrow> 'p \<Rightarrow> (string \<times> bool) option \<times> 'p" where
  "decapitate_checked ts content lang p =
     (case ts_parse ts p content of
        (None, p') \<Rightarrow> (None, p')
      | (Some tree, p') \<Rightarrow>
          (Some (fst (apply_replacements False content (collect_body_replacements content lang tree 0)), nd_error tree), p'))"

definition decapitate_mapped ::
  "('p, ts_node) tree_sitter \<Rightarrow> string \<Rightarrow> language_kind \<Rightarrow> 'p \<Rightarrow> (decapitated_source \<times> bool) option \<times> 'p" where
  "decapitate_mapped ts content lang p =
     (case ts_parse ts p content of
        (None, p') \<Rightarrow> (None, p')
      | (Some tree, p') \<Rightarrow>
          (let (txt, m) = apply_replacements True content (collect_body_replacements content lang tree 0) in
           (Some (\<lparr>ds_text = txt, line_map = m, bounded = False\<rparr>, nd_error tree), p')))"

text \<open>\<^verbatim>\<open>AstGuard::with_parser(kind, ...).flatten()\<close>\<close>

definition under_parser ::
  "('p, ts_node) tree_sitter \<Rightarrow> (language_kind \<Rightarrow> 'p \<Rightarrow> 'r option \<times> 'p) \<Rightarrow> language_kind \<Rightarrow> 'p parser_cache \<Rightarrow>
   'r option \<times> 'p parser_cache" where
  "under_parser ts f kind cache =
     (case with_parser ts cache kind (f kind) of (Some r, cache') \<Rightarrow> (r, cache') | (None, cache') \<Rightarrow> (None, cache'))"

definition with_dialect ::
  "language_kind \<Rightarrow> (language_kind \<Rightarrow> 'c \<Rightarrow> ('r \<times> bool) option \<times> 'c) \<Rightarrow> 'c \<Rightarrow> 'r option \<times> 'c" where
  "with_dialect lang decapitate_under cache =
     (case decapitate_under lang cache of
        (None, cache1) \<Rightarrow> (None, cache1)
      | (Some (result, has_error), cache1) \<Rightarrow>
          if lang = JavaScript \<and> has_error
          then case decapitate_under Tsx cache1 of
                 (Some (tsx, False), cache2) \<Rightarrow> (Some tsx, cache2)
               | (_, cache2) \<Rightarrow> (Some result, cache2)
          else (Some result, cache1))"

definition decapitate_auto ::
  "('p, ts_node) tree_sitter \<Rightarrow> string \<Rightarrow> language_kind \<Rightarrow> bool \<Rightarrow> 'p parser_cache \<Rightarrow> string \<times> 'p parser_cache" where
  "decapitate_auto ts content lang include_body cache =
     (if include_body \<or> lang = Protobuf \<or> lang = Yaml then (content, cache)
      else if lang = Unknown then (if length content > 1024 then BOUNDED_ERROR_STUB else content, cache)
      else case with_dialect lang (under_parser ts (decapitate_checked ts content)) cache of
             (Some txt, cache') \<Rightarrow> (txt, cache')
           | (None, cache') \<Rightarrow> (BOUNDED_ERROR_STUB, cache'))"

definition decapitate ::
  "('p, ts_node) tree_sitter \<Rightarrow> string \<Rightarrow> language_kind \<Rightarrow> bool \<Rightarrow> 'p \<Rightarrow> string \<times> 'p" where
  "decapitate ts content lang include_body p =
     (if include_body then (content, p)
      else case decapitate_checked ts content lang p of
             (Some (txt, _), p') \<Rightarrow> (txt, p')
           | (None, p') \<Rightarrow> (BOUNDED_ERROR_STUB, p'))"

definition identity_source :: "string \<Rightarrow> decapitated_source" where
  "identity_source content = \<lparr>ds_text = content, line_map = identity_line_map content, bounded = False\<rparr>"

definition stub_source :: "string \<Rightarrow> decapitated_source" where
  "stub_source content =
     \<lparr>ds_text = BOUNDED_ERROR_STUB, line_map = [(1, max (length (str_lines content)) 1)], bounded = True\<rparr>"

definition decapitate_auto_mapped ::
  "('p, ts_node) tree_sitter \<Rightarrow> string \<Rightarrow> language_kind \<Rightarrow> bool \<Rightarrow> 'p parser_cache \<Rightarrow>
   decapitated_source \<times> 'p parser_cache" where
  "decapitate_auto_mapped ts content lang include_body cache =
     (if include_body \<or> lang = Protobuf \<or> lang = Yaml then (identity_source content, cache)
      else if lang = Unknown
      then (if length content > 1024 then stub_source content else identity_source content, cache)
      else case with_dialect lang (under_parser ts (decapitate_mapped ts content)) cache of
             (Some d, cache') \<Rightarrow> (d, cache')
           | (None, cache') \<Rightarrow> (stub_source content, cache'))"

section \<open>The line map\<close>

text \<open>What the splice hands to the tracker: each output byte with the lines it is attributed to.\<close>

type_synonym event = "char \<times> nat \<times> nat"

abbreviation ev_line :: "event \<Rightarrow> nat" where
  "ev_line e \<equiv> snd (snd e)"

definition push_event :: "event \<Rightarrow> tracker \<Rightarrow> tracker" where
  "push_event = (\<lambda>(b, f, l). push_span b f l)"

fun kept_events :: "nat \<Rightarrow> string \<Rightarrow> event list" where
  "kept_events l [] = []"
| "kept_events l (b # bs) = (b, l, l) # kept_events (if b = LF then l + 1 else l) bs"

fun replacement_events :: "string \<Rightarrow> nat \<Rightarrow> nat \<Rightarrow> nat \<Rightarrow> event list" where
  "replacement_events [] s body e = []"
| "replacement_events (b # bs) s body e = (b, s, s) # map (\<lambda>c. (c, body, e)) bs"

text \<open>The replacements the loop does not skip.\<close>

fun accepted :: "string \<Rightarrow> nat \<Rightarrow> replacement list \<Rightarrow> replacement list" where
  "accepted content cursor [] = []"
| "accepted content cursor ((s, e, t) # reps) =
     (if s < cursor \<or> e > length content \<or> s > e \<or> \<not> is_char_boundary content s \<or> \<not> is_char_boundary content e
      then accepted content cursor reps
      else (s, e, t) # accepted content e reps)"

text \<open>The line of a byte offset.\<close>

definition line_of :: "string \<Rightarrow> nat \<Rightarrow> nat" where
  "line_of content i = 1 + count_newlines (take i content)"

definition body_line_of :: "string \<Rightarrow> nat \<Rightarrow> nat \<Rightarrow> nat" where
  "body_line_of content s e =
     (let region = byte_range s e content in
      line_of content s + count_newlines (take (length region - length (trim_start region)) region))"

fun splice_events :: "string \<Rightarrow> nat \<Rightarrow> replacement list \<Rightarrow> event list" where
  "splice_events content cursor [] = kept_events (line_of content cursor) (drop cursor content)"
| "splice_events content cursor ((s, e, t) # reps) =
     kept_events (line_of content cursor) (byte_range cursor s content)
     @ replacement_events t (line_of content s) (body_line_of content s e) (line_of content e)
     @ splice_events content e reps"

text \<open>Splicing on any list, without the bookkeeping.\<close>

fun splice_at :: "'a list \<Rightarrow> nat \<Rightarrow> (nat \<times> nat \<times> 'a list) list \<Rightarrow> 'a list" where
  "splice_at xs cursor [] = drop cursor xs"
| "splice_at xs cursor ((s, e, t) # reps) = byte_range cursor s xs @ t @ splice_at xs e reps"

text \<open>For each output byte the offset it was copied from, if it was copied.\<close>

definition origins :: "nat \<Rightarrow> nat \<Rightarrow> replacement list \<Rightarrow> nat option list" where
  "origins len cursor reps = splice_at (map Some [0 ..< len]) cursor (map (\<lambda>(s, e, t). (s, e, map (\<lambda>_. None) t)) reps)"

subsection \<open>The loop as a list of events\<close>

lemma count_newlines_simps [simp]:
  "count_newlines [] = 0"
  "count_newlines (b # bs) = (if b = LF then 1 else 0) + count_newlines bs"
  "count_newlines (xs @ ys) = count_newlines xs + count_newlines ys"
  by (simp_all add: count_newlines_def)

lemma take_byte_range: "s \<le> e \<Longrightarrow> take e xs = take s xs @ byte_range s e xs"
  by (metis byte_range_def le_add_diff_inverse take_add)

lemma line_of_advance: "s \<le> e \<Longrightarrow> line_of content s + count_newlines (byte_range s e content) = line_of content e"
  by (simp add: line_of_def take_byte_range [of s e content])

lemma line_of_mono: "s \<le> e \<Longrightarrow> line_of content s \<le> line_of content e"
  using line_of_advance by (metis le_add1)

lemma push_kept_events:
  "push_kept kept (l, tr) = (l + count_newlines kept, fold push_event (kept_events l kept) tr)"
  by (induction kept arbitrary: l tr) (auto simp: push_kept_def push_event_def push_byte_def)

lemma push_replacement_events:
  "push_replacement t s body e tr = fold push_event (replacement_events t s body e) tr"
  by (cases t) (simp_all add: push_replacement_def push_event_def push_byte_def fold_map comp_def)

lemma splice_loop_events:
  "splice_loop True content cursor (line_of content cursor) out tr reps =
   (out @ splice_at content cursor (accepted content cursor reps),
    finish_tracker (fold push_event (splice_events content cursor (accepted content cursor reps)) tr))"
proof (induction reps arbitrary: cursor out tr)
  case Nil
  then show ?case by (simp add: push_kept_events Let_def)
next
  case (Cons r reps)
  obtain s e t where r: "r = (s, e, t)" by (cases r) auto
  show ?case
  proof (cases "s < cursor \<or> e > length content \<or> s > e \<or> \<not> is_char_boundary content s \<or> \<not> is_char_boundary content e")
    case True
    with r Cons show ?thesis by auto
  next
    case False
    then have le: "cursor \<le> s" "s \<le> e" by auto
    have line: "line_of content cursor + count_newlines (byte_range cursor s content) = line_of content s"
      "line_of content s + count_newlines (byte_range s e content) = line_of content e"
      using le by (simp_all add: line_of_advance)
    have "splice_loop True content cursor (line_of content cursor) out tr (r # reps)
      = splice_loop True content e (line_of content e) (out @ byte_range cursor s content @ t)
          (fold push_event (replacement_events t (line_of content s) (body_line_of content s e) (line_of content e))
            (fold push_event (kept_events (line_of content cursor) (byte_range cursor s content)) tr)) reps"
      unfolding r splice_loop.simps using False line
      by (simp add: push_kept_events push_replacement_events Let_def body_line_of_def)
    with False r show ?thesis by (simp add: Cons.IH)
  qed
qed

lemma splice_loop_text:
  "fst (splice_loop mapped content cursor l out tr reps) = out @ splice_at content cursor (accepted content cursor reps)"
proof (induction reps arbitrary: cursor l out tr)
  case (Cons r reps)
  then show ?case by (cases r) (simp add: Let_def split_beta)
qed (simp add: Let_def)

lemma splice_at_Nil [simp]: "splice_at content 0 [] = content"
  by simp

lemma apply_replacements_text:
  "fst (apply_replacements mapped content reps) = splice_at content 0 (accepted content 0 (sort_replacements reps))"
  by (simp add: apply_replacements_def splice_loop_text sort_replacements_def)

subsection \<open>The tracker on any list of events\<close>

fun line_spans :: "event list \<Rightarrow> (nat \<times> nat) option \<Rightarrow> (nat \<times> nat) list" where
  "line_spans [] current = (case current of Some span \<Rightarrow> [span] | None \<Rightarrow> [])"
| "line_spans ((b, f, l) # evs) current =
     (let span = (case current of Some (a, _) \<Rightarrow> (a, l) | None \<Rightarrow> (min f l, l)) in
      if b = LF then span # line_spans evs None else line_spans evs (Some span))"

lemma finish_tracker_spans: "finish_tracker (fold push_event evs (current, m)) = m @ line_spans evs current"
  by (induction evs current arbitrary: m rule: line_spans.induct)
    (auto simp: push_event_def Let_def split: option.splits)

lemma length_split: "length (split LF s) = count_newlines s + 1"
  by (induction s) (auto split: list.splits)

lemma split_singleton: "split LF s = [[]] \<Longrightarrow> s = []"
  using join_split [of LF s] by simp

lemma last_split: "last (split LF s) = [] \<longleftrightarrow> s = [] \<or> last s = LF"
  by (induction s) (auto split: list.splits dest: split_singleton)

lemma length_str_lines: "length (str_lines s) = count_newlines s + (if s = [] \<or> last s = LF then 0 else 1)"
  by (simp add: str_lines_def Let_def length_split last_split)

lemma length_line_spans:
  "length (line_spans evs current) =
   count_newlines (map fst evs) +
     (if evs = [] then (if current = None then 0 else 1) else if fst (last evs) = LF then 0 else 1)"
  by (induction evs current rule: line_spans.induct) (auto simp: Let_def split: option.splits)

lemma line_spans_lines: "length (line_spans evs None) = length (str_lines (map fst evs))"
  by (simp add: length_line_spans length_str_lines last_map)

lemma line_spans_open:
  "sorted (z # map ev_line evs) \<Longrightarrow> \<exists>z' \<ge> z. \<exists>rest. line_spans evs (Some (a, z)) = (a, z') # rest"
proof (induction evs arbitrary: z)
  case (Cons e evs)
  obtain b f l where e: "e = (b, f, l)" by (cases e) auto
  with Cons.prems have l: "z \<le> l" "sorted (l # map ev_line evs)" by auto
  from Cons.IH [OF l(2)] l(1) show ?case by (auto simp: e Let_def intro: order_trans)
qed simp

text \<open>When the lines of the events only grow, the span of an output line holds the line of each of its bytes.\<close>

lemma line_spans_anchor:
  assumes "sorted (map ev_line evs)" and "j < length evs"
    and "\<forall>a z. current = Some (a, z) \<longrightarrow> (\<forall>e \<in> set evs. a \<le> ev_line e)"
  shows "let k = count_newlines (map fst (take j evs)) in
         k < length (line_spans evs current) \<and>
         fst (line_spans evs current ! k) \<le> ev_line (evs ! j) \<and> ev_line (evs ! j) \<le> snd (line_spans evs current ! k)"
  using assms
proof (induction evs arbitrary: current j)
  case (Cons e evs)
  obtain b f l where e: "e = (b, f, l)" by (cases e) auto
  define a where "a = (case current of Some (a, _) \<Rightarrow> a | None \<Rightarrow> min f l)"
  have a: "a \<le> l" "\<forall>e \<in> set evs. a \<le> ev_line e"
    using Cons.prems e by (auto simp: a_def min_def split: option.splits)
  have spans: "line_spans (e # evs) current = (if b = LF then (a, l) # line_spans evs None else line_spans evs (Some (a, l)))"
    by (auto simp: e a_def split: option.splits)
  show ?case
  proof (cases j)
    case 0
    obtain z' rest where "l \<le> z'" "line_spans evs (Some (a, l)) = (a, z') # rest"
      using line_spans_open [of l evs a] Cons.prems(1) e by auto
    with 0 a e spans show ?thesis by (simp add: Let_def)
  next
    case (Suc i)
    have "sorted (map ev_line evs)" "i < length evs" using Cons.prems Suc by auto
    from Cons.IH [OF this, of "if b = LF then None else Some (a, l)"] a show ?thesis
      by (auto simp: Suc e spans [unfolded e] Let_def simp del: line_spans.simps)
  qed
qed simp

subsection \<open>The events of a splice\<close>

text \<open>Replacements in order, each after the cursor and inside the text.\<close>

fun chain :: "nat \<Rightarrow> nat \<Rightarrow> replacement list \<Rightarrow> bool" where
  "chain len cursor [] = (cursor \<le> len)"
| "chain len cursor ((s, e, t) # reps) = (cursor \<le> s \<and> s \<le> e \<and> chain len e reps)"

lemma chain_bound: "chain len cursor reps \<Longrightarrow> cursor \<le> len"
  by (induction len cursor reps rule: chain.induct) auto

lemma accepted_chain: "cursor \<le> length content \<Longrightarrow> chain (length content) cursor (accepted content cursor reps)"
  by (induction content cursor reps rule: accepted.induct) auto

lemma map_fst_kept [simp]: "map fst (kept_events l kept) = kept"
  by (induction l kept rule: kept_events.induct) auto

lemma map_fst_replacement [simp]: "map fst (replacement_events t s body e) = t"
  by (cases t) (auto simp: comp_def)

lemma map_fst_events: "map fst (splice_events content cursor reps) = splice_at content cursor reps"
  by (induction content cursor reps rule: splice_events.induct) auto

lemma kept_events_lines:
  "e \<in> set (kept_events l kept) \<Longrightarrow> l \<le> ev_line e \<and> ev_line e \<le> l + count_newlines kept"
  by (induction l kept rule: kept_events.induct) (auto split: if_splits)

lemma kept_events_sorted: "sorted (map ev_line (kept_events l kept))"
  using kept_events_lines by (induction l kept rule: kept_events.induct) (fastforce split: if_splits)+

lemma replacement_events_lines:
  "s \<le> l \<Longrightarrow> e \<in> set (replacement_events t s body l) \<Longrightarrow> s \<le> ev_line e \<and> ev_line e \<le> l"
  by (cases t) auto

lemma replacement_events_sorted: "s \<le> l \<Longrightarrow> sorted (map ev_line (replacement_events t s body l))"
  by (cases t) (simp_all add: comp_def map_replicate_const)

lemma splice_events_lines:
  "chain (length content) cursor reps \<Longrightarrow>
   sorted (map ev_line (splice_events content cursor reps)) \<and>
   (\<forall>e \<in> set (splice_events content cursor reps). line_of content cursor \<le> ev_line e)"
proof (induction content cursor reps rule: splice_events.induct)
  case (1 content cursor)
  then show ?case using kept_events_lines kept_events_sorted by auto
next
  case (2 content cursor s e t reps)
  then have c: "cursor \<le> s" "s \<le> e" by auto
  note lines = line_of_mono [OF c(1), of content] line_of_mono [OF c(2), of content]
    line_of_advance [OF c(1), of content]
  note kept = kept_events_lines [of _ "line_of content cursor" "byte_range cursor s content"]
  note rep = replacement_events_lines [OF lines(2), of _ t "body_line_of content s e"]
  note sorted = kept_events_sorted replacement_events_sorted [OF lines(2)]
  from 2 have rest: "sorted (map ev_line (splice_events content e reps))"
    "\<forall>x \<in> set (splice_events content e reps). line_of content e \<le> ev_line x" by auto
  show ?case
    using kept rep sorted rest lines by (fastforce simp: sorted_append)
qed

lemma kept_events_nth:
  "i < length kept \<Longrightarrow> kept_events l kept ! i = (kept ! i, l + count_newlines (take i kept), l + count_newlines (take i kept))"
  by (induction l kept arbitrary: i rule: kept_events.induct) (auto simp: nth_Cons split: nat.splits)

definition copied_from :: "string \<Rightarrow> event \<Rightarrow> nat option \<Rightarrow> bool" where
  "copied_from content e origin \<longleftrightarrow>
     (\<forall>i. origin = Some i \<longrightarrow> i < length content \<and> fst e = content ! i \<and> ev_line e = line_of content i)"

lemma length_byte_range: "e \<le> length xs \<Longrightarrow> length (byte_range s e xs) = e - s"
  by (simp add: byte_range_def)

lemma nth_byte_range: "i < e - s \<Longrightarrow> e \<le> length xs \<Longrightarrow> byte_range s e xs ! i = xs ! (s + i)"
  by (simp add: byte_range_def)

lemma drop_byte_range: "drop s xs = byte_range s (length xs) xs"
  by (simp add: byte_range_def)

lemma kept_copied:
  assumes "s \<le> e" "e \<le> length content"
  shows "list_all2 (copied_from content) (kept_events (line_of content s) (byte_range s e content))
           (byte_range s e (map Some [0 ..< length content]))"
proof (rule list_all2_all_nthI)
  have len: "length (kept_events l kept) = length kept" for l kept
    by (metis length_map map_fst_kept)
  show "length (kept_events (line_of content s) (byte_range s e content))
        = length (byte_range s e (map Some [0 ..< length content]))"
    using assms by (simp add: len length_byte_range)
  fix i assume "i < length (kept_events (line_of content s) (byte_range s e content))"
  then have i: "i < e - s" using assms by (simp add: len length_byte_range)
  have "take i (byte_range s e content) = byte_range s (s + i) content"
    using i by (simp add: byte_range_def)
  with line_of_advance [of s "s + i" content]
  have "line_of content s + count_newlines (take i (byte_range s e content)) = line_of content (s + i)" by simp
  with i assms show "copied_from content (kept_events (line_of content s) (byte_range s e content) ! i)
      (byte_range s e (map Some [0 ..< length content]) ! i)"
    by (simp add: copied_from_def kept_events_nth length_byte_range nth_byte_range)
qed

lemma replacement_copied: "list_all2 (copied_from content) (replacement_events t s body e) (map (\<lambda>_. None) t)"
  by (cases t) (auto simp: copied_from_def list_all2_map1 list_all2_map2 list_all2_same)

lemma events_copied:
  "chain (length content) cursor reps \<Longrightarrow>
   list_all2 (copied_from content) (splice_events content cursor reps) (origins (length content) cursor reps)"
proof (induction content cursor reps rule: splice_events.induct)
  case (1 content cursor)
  with kept_copied [of cursor "length content" content] show ?case
    by (simp add: origins_def drop_byte_range)
next
  case (2 content cursor s e t reps)
  from 2(2) chain_bound [of "length content" e reps] have c: "cursor \<le> s" "s \<le> length content" by auto
  from 2 kept_copied [OF c] show ?case
    by (auto simp: origins_def intro!: list_all2_appendI replacement_copied)
qed

lemma apply_replacements_events:
  assumes "reps \<noteq> []"
  shows "apply_replacements True content reps =
    (let acc = accepted content 0 (sort_replacements reps) in
     (splice_at content 0 acc, line_spans (splice_events content 0 acc) None))"
  using splice_loop_events [of content 0 "[]" "(None, [])" "sort_replacements reps"] assms
  by (simp add: apply_replacements_def finish_tracker_spans line_of_def Let_def)

lemma length_identity_line_map [simp]: "length (identity_line_map content) = length (str_lines content)"
  by (auto simp: identity_line_map_def simp del: upt_Suc)

lemma newlines_before: "j < length s \<Longrightarrow> count_newlines (take j s) < length (str_lines s)"
proof -
  assume j: "j < length s"
  then have last: "last s \<in> set (drop j s)" by (metis drop_eq_Nil last_drop last_in_set not_le)
  have "count_newlines s = count_newlines (take j s) + count_newlines (drop j s)"
    by (metis append_take_drop_id count_newlines_simps(3))
  moreover have "count_newlines (drop j s) > 0" if "last s = LF"
    using last that by (auto simp: count_newlines_def filter_empty_conv)
  ultimately show ?thesis using j by (auto simp: length_str_lines)
qed

lemma apply_replacements_lines:
  "length (snd (apply_replacements True content reps)) = length (str_lines (fst (apply_replacements True content reps)))"
proof (cases "reps = []")
  case True
  then show ?thesis by (simp add: apply_replacements_def)
next
  case False
  then show ?thesis by (simp add: apply_replacements_events Let_def line_spans_lines map_fst_events)
qed

text \<open>C24: The line map anchors what was kept: a byte of the decapitated text that was copied from offset \<^verbatim>\<open>i\<close> of the source is that
  byte, and the span of its output line contains the line of offset \<^verbatim>\<open>i\<close>, whatever was stripped around it.\<close>

theorem line_map_anchors:
  assumes "apply_replacements True content reps = (txt, m)"
    and "j < length txt"
    and "origins (length content) 0 (accepted content 0 (sort_replacements reps)) ! j = Some i"
  shows "txt ! j = content ! i \<and> count_newlines (take j txt) < length m
    \<and> fst (m ! count_newlines (take j txt)) \<le> line_of content i
    \<and> line_of content i \<le> snd (m ! count_newlines (take j txt))"
proof (cases "reps = []")
  case True
  with assms have t: "txt = content" "m = identity_line_map content" and j: "j < length content" "j = i"
    by (auto simp: apply_replacements_def sort_replacements_def origins_def)
  have "count_newlines (take j content) < length (str_lines content)" using j by (simp add: newlines_before)
  then have "identity_line_map content ! count_newlines (take j content)
      = (Suc (count_newlines (take j content)), Suc (count_newlines (take j content)))"
    by (simp add: identity_line_map_def del: upt_Suc)
  with t j newlines_before [of j content] show ?thesis by (simp add: line_of_def)
next
  case False
  define acc where "acc = accepted content 0 (sort_replacements reps)"
  define evs where "evs = splice_events content 0 acc"
  have chain: "chain (length content) 0 acc" by (simp add: acc_def accepted_chain)
  have tm: "txt = splice_at content 0 acc" "m = line_spans evs None"
    using assms(1) apply_replacements_events [OF False] by (simp_all add: acc_def evs_def Let_def)
  have bytes: "map fst evs = txt" by (simp add: evs_def tm map_fst_events)
  then have j: "j < length evs" using assms(2) by (metis length_map)
  from events_copied [OF chain] j assms(3) have "copied_from content (evs ! j) (Some i)"
    by (metis acc_def evs_def list_all2_nthD)
  moreover have "take j txt = map fst (take j evs)" "txt ! j = fst (evs ! j)"
    using bytes j by (auto simp: take_map)
  moreover have "sorted (map ev_line evs)"
    using splice_events_lines [OF chain] by (simp add: evs_def)
  ultimately show ?thesis
    using line_spans_anchor [OF _ j, of None] by (auto simp: copied_from_def tm(2) Let_def)
qed

theorem line_map_anchors_witness:
  "apply_replacements True (''a('' @ [LF] @ ''b'' @ [LF] @ '')c'') [(1, 6, ''{}'')] = (''a{}c'', [(1, 3)])
   \<and> ''a{}c'' ! 3 = (''a('' @ [LF] @ ''b'' @ [LF] @ '')c'') ! 6
   \<and> line_of (''a('' @ [LF] @ ''b'' @ [LF] @ '')c'') 6 \<le> snd ([(1, 3)] ! count_newlines (take 3 ''a{}c''))"
proof -
  let ?c = "''a('' @ [LF] @ ''b'' @ [LF] @ '')c''"
  have run: "apply_replacements True ?c [(1, 6, ''{}'')] = (''a{}c'', [(1, 3)])" by code_simp
  have "origins (length ?c) 0 (accepted ?c 0 (sort_replacements [(1, 6, ''{}'')])) ! 3 = Some 6" by code_simp
  from line_map_anchors [OF run _ this] run show ?thesis by simp
qed

section \<open>The entry points\<close>

text \<open>What the two walks under a parser have in common: the same parse, the same text.\<close>

definition mapped_result :: "(decapitated_source \<times> bool) option \<Rightarrow> (string \<times> bool) option" where
  "mapped_result = map_option (\<lambda>(d, err). (ds_text d, err))"

lemma decapitate_mapped_checked:
  "decapitate_checked ts content lang p = (mapped_result (fst (decapitate_mapped ts content lang p)), snd (decapitate_mapped ts content lang p))"
  by (simp add: decapitate_checked_def decapitate_mapped_def mapped_result_def apply_replacements_text [of _ content]
      split_beta split: prod.splits option.splits)

lemma under_parser_mapped:
  "under_parser ts (decapitate_checked ts content) kind cache =
   (mapped_result (fst (under_parser ts (decapitate_mapped ts content) kind cache)),
    snd (under_parser ts (decapitate_mapped ts content) kind cache))"
  by (auto simp: under_parser_def with_parser_def decapitate_mapped_checked Let_def mapped_result_def split_beta
      split: option.splits sum.splits)

lemma with_dialect_mapped:
  "with_dialect lang (under_parser ts (decapitate_checked ts content)) cache =
   (map_option ds_text (fst (with_dialect lang (under_parser ts (decapitate_mapped ts content)) cache)),
    snd (with_dialect lang (under_parser ts (decapitate_mapped ts content)) cache))"
  by (auto simp: with_dialect_def under_parser_mapped mapped_result_def split_beta split: option.splits bool.splits prod.splits)

lemma mapped_decapitation_text:
  "decapitate_auto ts content lang include_body cache =
   (ds_text (fst (decapitate_auto_mapped ts content lang include_body cache)),
    snd (decapitate_auto_mapped ts content lang include_body cache))"
  by (auto simp: decapitate_auto_def decapitate_auto_mapped_def with_dialect_mapped identity_source_def stub_source_def
      split: option.splits prod.splits)

text \<open>The mapped decapitation shows the same text as the plain one and leaves the parser cache the same, for every language, every
  parser and every outcome of the parse.\<close>

theorem mapped_decapitation_agrees:
  "decapitate_auto ts content lang include_body cache =
   (ds_text (fst (decapitate_auto_mapped ts content lang include_body cache)),
    snd (decapitate_auto_mapped ts content lang include_body cache))"
  by (rule mapped_decapitation_text)

text \<open>Every result is the file, the stub, or the splice of a tree.\<close>

lemma under_parser_Some:
  assumes "under_parser ts (decapitate_mapped ts content) kind cache = (Some (d, err), cache')"
  obtains p tree where "fst (ts_parse ts p content) = Some tree" "err = nd_error tree"
    "(ds_text d, line_map d) = apply_replacements True content (collect_body_replacements content kind tree 0)" "\<not> bounded d"
  using assms
  by (auto simp: under_parser_def with_parser_def decapitate_mapped_def split_beta Let_def
      split: option.splits sum.splits prod.splits if_splits)

lemma with_dialect_Some:
  assumes "with_dialect lang f cache = (Some r, cache')"
  obtains kind c c' err where "f kind c = (Some (r, err), c')" "kind = lang \<or> lang = JavaScript \<and> kind = Tsx \<and> \<not> err"
  using assms by (auto simp: with_dialect_def split: option.splits prod.splits bool.splits if_splits)

lemma decapitate_auto_mapped_cases:
  obtains "fst (decapitate_auto_mapped ts content lang include_body cache) = identity_source content"
  | "fst (decapitate_auto_mapped ts content lang include_body cache) = stub_source content"
  | kind p tree where "fst (ts_parse ts p content) = Some tree" "kind = lang \<or> lang = JavaScript \<and> kind = Tsx"
      "(ds_text (fst (decapitate_auto_mapped ts content lang include_body cache)),
        line_map (fst (decapitate_auto_mapped ts content lang include_body cache)))
       = apply_replacements True content (collect_body_replacements content kind tree 0)"
proof (cases "include_body \<or> lang = Protobuf \<or> lang = Yaml \<or> lang = Unknown")
  case True
  then have "fst (decapitate_auto_mapped ts content lang include_body cache) \<in> {identity_source content, stub_source content}"
    by (auto simp: decapitate_auto_mapped_def)
  then show thesis using that(1,2) by blast
next
  case False
  obtain r cache' where run: "with_dialect lang (under_parser ts (decapitate_mapped ts content)) cache = (r, cache')"
    by fastforce
  show thesis
  proof (cases r)
    case None
    with False run show thesis using that(2) by (simp add: decapitate_auto_mapped_def)
  next
    case (Some d)
    with False run have d: "fst (decapitate_auto_mapped ts content lang include_body cache) = d"
      by (simp add: decapitate_auto_mapped_def)
    from with_dialect_Some [OF run [unfolded Some]] obtain kind c c' err
      where k: "under_parser ts (decapitate_mapped ts content) kind c = (Some (d, err), c')"
        "kind = lang \<or> lang = JavaScript \<and> kind = Tsx" by metis
    from under_parser_Some [OF k(1)] obtain p tree where "fst (ts_parse ts p content) = Some tree"
      "(ds_text d, line_map d) = apply_replacements True content (collect_body_replacements content kind tree 0)"
      by metis
    with that(3) k(2) d show thesis by blast
  qed
qed

lemma stub_lines: "length (str_lines BOUNDED_ERROR_STUB) = 1"
  by (simp add: length_str_lines BOUNDED_ERROR_STUB_def)

text \<open>The line map of a decapitated file has exactly one entry per line of its text, whether the text is the file itself, the
  stub or a splice, with or without a final newline and for any set of replacements.\<close>

theorem line_map_per_line:
  "length (line_map (fst (decapitate_auto_mapped ts content lang include_body cache)))
   = length (str_lines (ds_text (fst (decapitate_auto_mapped ts content lang include_body cache))))"
proof (cases rule: decapitate_auto_mapped_cases [of ts content lang include_body cache])
  case 1
  then show ?thesis by (simp add: identity_source_def)
next
  case 2
  then show ?thesis using stub_lines by (simp add: stub_source_def)
next
  case (3 kind p tree)
  then show ?thesis using apply_replacements_lines [of content] by (metis fst_conv snd_conv)
qed

text \<open>When the parser gives no tree, a file of a language with a grammar is never shown raw: the answer is the stub of at most
  256 bytes, marked as bounded.\<close>

theorem failed_parse_is_bounded:
  assumes "\<forall>p. fst (ts_parse ts p content) = None" and "lang \<notin> {Protobuf, Yaml, Unknown}"
  shows "fst (decapitate_auto ts content lang False cache) = BOUNDED_ERROR_STUB
    \<and> length (fst (decapitate_auto ts content lang False cache)) \<le> 256
    \<and> bounded (fst (decapitate_auto_mapped ts content lang False cache))"
proof -
  have none: "fst (under_parser ts (decapitate_mapped ts content) lang cache) = None"
  proof (cases "fst (under_parser ts (decapitate_mapped ts content) lang cache)")
    case (Some r)
    then obtain d err c' where "under_parser ts (decapitate_mapped ts content) lang cache = (Some (d, err), c')"
      by (metis prod.collapse)
    from under_parser_Some [OF this] assms(1) show ?thesis by (metis option.distinct(1))
  qed simp
  then have "fst (with_dialect lang (under_parser ts (decapitate_mapped ts content)) cache) = None"
    by (auto simp: with_dialect_def split: option.splits prod.splits)
  then have "fst (decapitate_auto_mapped ts content lang False cache) = stub_source content"
    using assms(2) by (auto simp: decapitate_auto_mapped_def split: option.splits prod.splits)
  then show ?thesis
    using mapped_decapitation_text [of ts content lang False cache] by (simp add: stub_source_def BOUNDED_ERROR_STUB_def)
qed

text \<open>A library that returns the same tree, or none, for every text.\<close>

definition fixed_parser :: "ts_node option \<Rightarrow> (unit, ts_node) tree_sitter" where
  "fixed_parser t =
     \<lparr>ts_new = (\<lambda>_. Inr ()), ts_timeout = (\<lambda>_ p. p), ts_parse = (\<lambda>p s. (t, p)), ts_reset = (\<lambda>p. p)\<rparr>"

theorem failed_parse_is_bounded_witness:
  "list_all (\<lambda>lang. fst (decapitate_auto (fixed_parser None) ''fn f() {}'' lang False no_parsers) = BOUNDED_ERROR_STUB)
     [Rust, Java]"
proof -
  have "\<forall>p. fst (ts_parse (fixed_parser None) p ''fn f() {}'') = None" by (simp add: fixed_parser_def)
  from failed_parse_is_bounded [OF this, of Rust no_parsers] failed_parse_is_bounded [OF this, of Java no_parsers]
  show ?thesis by simp
qed

section \<open>What is left of the file\<close>

text \<open>The promise of the library about the spans of a tree: they lie on character boundaries of the text, children lie inside
  their parent, in order and without overlap.\<close>

fun spans_ok :: "string \<Rightarrow> ts_node \<Rightarrow> bool" where
  "spans_ok content (TsNode k nm f s e sp ep er cs) \<longleftrightarrow>
     s \<le> e \<and> e \<le> length content \<and> is_char_boundary content s \<and> is_char_boundary content e
     \<and> sorted_wrt (\<lambda>a b. nd_end a \<le> nd_start b) cs
     \<and> (\<forall>c \<in> set cs. s \<le> nd_start c \<and> nd_end c \<le> e \<and> spans_ok content c)"

definition in_span :: "string \<Rightarrow> nat \<Rightarrow> nat \<Rightarrow> replacement \<Rightarrow> bool" where
  "in_span content lo hi = (\<lambda>(s, e, _). lo \<le> s \<and> s \<le> e \<and> e \<le> hi \<and> is_char_boundary content s \<and> is_char_boundary content e)"

definition apart :: "replacement \<Rightarrow> replacement \<Rightarrow> bool" where
  "apart = (\<lambda>(s, e, _) (s', e', _). e \<le> s' \<or> e' \<le> s)"

text \<open>Gaps and the texts between them.\<close>

fun interleave :: "string list \<Rightarrow> string list \<Rightarrow> string" where
  "interleave (g # gs) (t # ts) = g @ t @ interleave gs ts"
| "interleave gs ts = concat gs"

lemma spans_okD:
  assumes "spans_ok content n"
  shows "nd_start n \<le> nd_end n" "nd_end n \<le> length content"
    "is_char_boundary content (nd_start n)" "is_char_boundary content (nd_end n)"
    "c \<in> set (nd_children n) \<Longrightarrow> nd_start n \<le> nd_start c \<and> nd_end c \<le> nd_end n \<and> spans_ok content c"
    "sorted_wrt (\<lambda>a b. nd_end a \<le> nd_start b) (nd_children n)"
  using assms by (cases n; simp)+

lemma sorted_wrt_pairs: "sorted_wrt R xs \<Longrightarrow> x \<in> set xs \<Longrightarrow> y \<in> set xs \<Longrightarrow> x = y \<or> R x y \<or> R y x"
  by (induction xs) auto

lemma siblings_apart:
  "spans_ok content n \<Longrightarrow> a \<in> set (nd_children n) \<Longrightarrow> b \<in> set (nd_children n) \<Longrightarrow>
   a = b \<or> nd_end a \<le> nd_start b \<or> nd_end b \<le> nd_start a"
  using sorted_wrt_pairs [OF spans_okD(6)] by blast

lemma child_by_field_nameD: "child_by_field_name n f = Some c \<Longrightarrow> c \<in> set (nd_children n) \<and> nd_field c = Some f"
  by (auto simp: child_by_field_name_def find_Some_iff)

lemma child_in_span:
  assumes "spans_ok content n" "c \<in> set (nd_children n)"
  shows "in_span content (nd_start n) (nd_end n) (nd_start c, nd_end c, t)"
    and "in_span content (nd_start n) (nd_end n) (nd_end c, nd_end c, t)"
  using spans_okD(1-4) [of content c] spans_okD(5) [OF assms] by (auto simp: in_span_def)

lemma find_Some_in: "find P xs = Some x \<Longrightarrow> x \<in> set xs"
  by (auto simp: find_Some_iff)

lemma python_docstring_child: "python_docstring body = Some doc \<Longrightarrow> doc \<in> set (nd_children body)"
  using find_Some_in [of _ "named_children body" doc]
  by (auto simp: python_docstring_def named_children_def split: option.splits list.splits if_splits)

text \<open>An inferred return type is inserted behind a child that is not the body.\<close>

lemma inferred_type_shape:
  "inferred_type source node body = [] \<or>
   (\<exists>q t. q \<in> set (nd_children node) \<and> nd_field q \<noteq> Some ''body'' \<and> inferred_type source node body = [(nd_end q, nd_end q, t)])"
  using child_by_field_nameD [of node "''parameters''"] child_by_field_nameD [of node "''parameter''"]
  by (auto simp: inferred_type_def Let_def split: option.splits)

text \<open>What a node pushes stays inside it, does not overlap, and, when the walk goes on, stays clear of the children.\<close>

definition pushes_ok :: "string \<Rightarrow> ts_node \<Rightarrow> replacement list \<times> bool \<Rightarrow> bool" where
  "pushes_ok content n = (\<lambda>(pushed, returned).
     (\<forall>r \<in> set pushed. in_span content (nd_start n) (nd_end n) r) \<and> sorted_wrt apart pushed
     \<and> (\<not> returned \<longrightarrow> (\<forall>r \<in> set pushed. \<forall>c \<in> set (nd_children n). apart r (nd_start c, nd_end c, []))))"

lemma pushes_ok_Nil [simp]: "pushes_ok content n ([], b)"
  by (simp add: pushes_ok_def)

lemma pushes_ok_child:
  "spans_ok content n \<Longrightarrow> c \<in> set (nd_children n) \<Longrightarrow> pushes_ok content n ([(nd_start c, nd_end c, t)], True)"
  by (simp add: pushes_ok_def child_in_span)

lemma pushes_ok_whole_body: "spans_ok content n \<Longrightarrow> pushes_ok content n (whole_body n t)"
  by (auto simp: whole_body_def pushes_ok_child dest: child_by_field_nameD split: option.splits)

lemma pushes_ok_scala: "spans_ok content n \<Longrightarrow> pushes_ok content n (scala_replacements n)"
  by (auto simp: scala_replacements_def pushes_ok_child dest: child_by_field_nameD split: option.splits)

lemma pushes_ok_kotlin: "spans_ok content n \<Longrightarrow> pushes_ok content n (kotlin_replacements source n)"
  by (auto simp: kotlin_replacements_def pushes_ok_child Let_def dest: find_Some_in split: option.splits)

lemma pushes_ok_python:
  assumes "spans_ok content n"
  shows "pushes_ok content n (python_replacements n)"
proof -
  have "pushes_ok content n ([(nd_end doc, nd_end body, t)], True)"
    if "body \<in> set (nd_children n)" "doc \<in> set (nd_children body)" for body doc t
  proof -
    have b: "spans_ok content body" "nd_start n \<le> nd_start body" "nd_end body \<le> nd_end n"
      using spans_okD(5) [OF assms that(1)] by auto
    have d: "spans_ok content doc" "nd_start body \<le> nd_start doc" "nd_end doc \<le> nd_end body"
      using spans_okD(5) [OF b(1) that(2)] by auto
    from spans_okD(1,4) [OF b(1)] spans_okD(1,4) [OF d(1)] b d show ?thesis
      by (simp add: pushes_ok_def in_span_def)
  qed
  then show ?thesis
    using assms
    by (auto simp: python_replacements_def pushes_ok_child Let_def
        dest!: child_by_field_nameD python_docstring_child split: option.splits)
qed

lemma pushes_ok_ts:
  assumes "spans_ok content n"
  shows "pushes_ok content n (ts_replacements source n)"
proof (cases "child_by_field_name n ''body''")
  case None
  then show ?thesis by (simp add: ts_replacements_def)
next
  case (Some body)
  then have body: "body \<in> set (nd_children n)" "nd_field body = Some ''body''" by (auto dest: child_by_field_nameD)
  consider "inferred_type source n body = []"
    | q t where "q \<in> set (nd_children n)" "q \<noteq> body" "inferred_type source n body = [(nd_end q, nd_end q, t)]"
    using inferred_type_shape [of source n body] body(2) by auto
  then show ?thesis
  proof cases
    case 1
    with Some assms body show ?thesis by (simp add: ts_replacements_def pushes_ok_child Let_def)
  next
    case (2 q t)
    have sib: "apart (nd_end q, nd_end q, t) (nd_start c, nd_end c, u)" if "c \<in> set (nd_children n)" for c u
      using siblings_apart [OF assms 2(1) that] spans_okD(1) [of content c] spans_okD(5) [OF assms that] spans_okD(1) [of content q]
        spans_okD(5) [OF assms 2(1)]
      by (auto simp: apart_def)
    with Some assms body 2 show ?thesis
      by (simp add: ts_replacements_def pushes_ok_def child_in_span Let_def)
  qed
qed

lemma node_replacements_ok: "spans_ok content n \<Longrightarrow> pushes_ok content n (node_replacements source lang n)"
  by (cases lang)
    (simp_all add: node_replacements_def Let_def pushes_ok_whole_body pushes_ok_ts pushes_ok_python pushes_ok_kotlin pushes_ok_scala)

lemma in_span_apart:
  "in_span content (nd_start a) (nd_end a) r \<Longrightarrow> in_span content (nd_start b) (nd_end b) r' \<Longrightarrow>
   nd_end a \<le> nd_start b \<Longrightarrow> apart r r'"
  by (auto simp: in_span_def apart_def)

lemma in_span_outside:
  "in_span content (nd_start c) (nd_end c) r' \<Longrightarrow> apart r (nd_start c, nd_end c, []) \<Longrightarrow> apart r r'"
  by (auto simp: in_span_def apart_def)

lemma in_span_mono: "in_span content lo hi r \<Longrightarrow> lo' \<le> lo \<Longrightarrow> hi \<le> hi' \<Longrightarrow> in_span content lo' hi' r"
  by (auto simp: in_span_def)

lemma sorted_wrt_concat:
  assumes "\<And>x. x \<in> set xs \<Longrightarrow> sorted_wrt R (f x)"
    and "sorted_wrt (\<lambda>x y. \<forall>a \<in> set (f x). \<forall>b \<in> set (f y). R a b) xs"
  shows "sorted_wrt R (concat (map f xs))"
  using assms by (induction xs) (auto simp: sorted_wrt_append)

lemma collect_ok:
  "spans_ok content n \<Longrightarrow>
   (\<forall>r \<in> set (collect_body_replacements content lang n depth). in_span content (nd_start n) (nd_end n) r)
   \<and> sorted_wrt apart (collect_body_replacements content lang n depth)"
proof (induction content lang n depth rule: collect_body_replacements.induct)
  case (1 content lang n depth)
  let ?sub = "\<lambda>c. collect_body_replacements content lang c (depth + 1)"
  obtain pushed returned where run: "node_replacements content lang n = (pushed, returned)" by fastforce
  have ok: "pushes_ok content n (pushed, returned)"
    using node_replacements_ok [OF "1.prems", of content lang] run by simp
  show ?case
  proof (cases "depth > MAX_NESTING_DEPTH \<or> returned")
    case True
    with ok run show ?thesis by (subst (1 2) collect_body_replacements.simps) (auto simp: pushes_ok_def)
  next
    case False
    have sub: "(\<forall>r \<in> set (?sub c). in_span content (nd_start c) (nd_end c) r) \<and> sorted_wrt apart (?sub c)"
      if "c \<in> set (nd_children n)" for c
      using "1.IH" [OF _ run [symmetric] refl _ that] False spans_okD(5) [OF "1.prems" that] by simp
    have pairs: "sorted_wrt (\<lambda>a b. \<forall>x \<in> set (?sub a). \<forall>y \<in> set (?sub b). apart x y) (nd_children n)"
      using spans_okD(6) [OF "1.prems"] by (rule sorted_wrt_mono_rel [rotated]) (meson in_span_apart sub)
    define subs where "subs = concat (map ?sub (nd_children n))"
    have "sorted_wrt apart subs"
      unfolding subs_def using pairs sub by (intro sorted_wrt_concat) auto
    moreover have "\<forall>x \<in> set pushed. \<forall>y \<in> set subs. apart x y"
      using ok False sub by (fastforce simp: pushes_ok_def subs_def intro: in_span_outside)
    moreover have "\<forall>y \<in> set subs. in_span content (nd_start n) (nd_end n) y"
      using sub spans_okD(5) [OF "1.prems"] by (fastforce simp: subs_def intro: in_span_mono)
    ultimately have "(\<forall>r \<in> set (pushed @ subs). in_span content (nd_start n) (nd_end n) r) \<and> sorted_wrt apart (pushed @ subs)"
      using ok unfolding pushes_ok_def sorted_wrt_append by auto
    moreover have "collect_body_replacements content lang n depth = pushed @ subs"
      using False run by (subst collect_body_replacements.simps) (simp add: subs_def)
    ultimately show ?thesis by simp
  qed
qed

lemma apart_sym: "apart r r' \<Longrightarrow> apart r' r"
  by (auto simp: apart_def)

lemma sorted_wrt_apart_insort: "sorted_wrt apart (x # xs) \<Longrightarrow> sorted_wrt apart (insort_key f x xs)"
  by (induction xs) (auto simp: set_insort_key intro: apart_sym)

lemma sorted_wrt_apart_sort: "sorted_wrt apart xs \<Longrightarrow> sorted_wrt apart (sort_key f xs)"
  by (induction xs) (simp_all add: sorted_wrt_apart_insort)

text \<open>Of two replacements that do not overlap, the one that sorts first ends before the other starts.\<close>

lemma accepted_all:
  assumes "sorted (map (\<lambda>(s, e, _). (s, e)) reps)" "sorted_wrt apart reps" "\<forall>r \<in> set reps. in_span content cursor (length content) r"
  shows "accepted content cursor reps = reps"
  using assms
proof (induction reps arbitrary: cursor)
  case (Cons r reps)
  obtain s e t where r: "r = (s, e, t)" by (cases r) auto
  have "in_span content e (length content) x" if "x \<in> set reps" for x
  proof -
    obtain s' e' t' where x: "x = (s', e', t')" by (cases x) auto
    have "(s, e) \<le> (s', e')" "e \<le> s' \<or> e' \<le> s" "s' \<le> e'" "s \<le> e"
      using Cons.prems that r x by (fastforce simp: apart_def in_span_def)+
    then have "e \<le> s'" by (auto simp: less_eq_prod_def)
    with Cons.prems(3) that x show ?thesis by (auto simp: in_span_def)
  qed
  with Cons r show ?case by (auto simp: in_span_def)
qed simp

lemma splice_interleave:
  "chain (length content) cursor reps \<Longrightarrow>
   \<exists>gaps. length gaps = length reps + 1
     \<and> drop cursor content = interleave gaps (map (\<lambda>(s, e, _). byte_range s e content) reps)
     \<and> splice_at content cursor reps = interleave gaps (map (\<lambda>(_, _, t). t) reps)"
proof (induction content cursor reps rule: splice_at.induct)
  case (1 content cursor)
  then show ?case by (intro exI [of _ "[drop cursor content]"]) simp
next
  case (2 content cursor s e t reps)
  then obtain gaps where gaps: "length gaps = length reps + 1"
    "drop e content = interleave gaps (map (\<lambda>(s, e, _). byte_range s e content) reps)"
    "splice_at content e reps = interleave gaps (map (\<lambda>(_, _, t). t) reps)" by auto
  from 2(2) have c: "cursor \<le> s" "s \<le> e" by auto
  have "drop cursor content = byte_range cursor s content @ byte_range s e content @ drop e content"
    using c unfolding byte_range_def by (metis append_take_drop_id drop_drop le_add_diff_inverse2)
  with gaps show ?case by (intro exI [of _ "byte_range cursor s content # gaps"]) simp
qed

text \<open>C23: Decapitation replaces exactly the ranges the walk over the tree collects and nothing else: the source and the result
  are the same gaps with, between them, the stripped ranges and their stubs in the same order; no replacement is skipped.\<close>

theorem decapitation_splices:
  assumes "ts_parse ts p content = (Some tree, p')" and "spans_ok content tree"
  shows "\<exists>gaps. length gaps = length (collect_body_replacements content lang tree 0) + 1
    \<and> content = interleave gaps (map (\<lambda>(s, e, _). byte_range s e content)
        (sort_replacements (collect_body_replacements content lang tree 0)))
    \<and> decapitate_checked ts content lang p =
        (Some (interleave gaps (map (\<lambda>(_, _, t). t) (sort_replacements (collect_body_replacements content lang tree 0))),
               nd_error tree), p')"
proof -
  define reps where "reps = collect_body_replacements content lang tree 0"
  have ok: "\<forall>r \<in> set reps. in_span content 0 (length content) r" "sorted_wrt apart reps"
    using collect_ok [OF assms(2), of lang 0] spans_okD(2) [OF assms(2)] by (auto simp: reps_def intro: in_span_mono)
  then have all: "accepted content 0 (sort_replacements reps) = sort_replacements reps"
    unfolding sort_replacements_def by (intro accepted_all sorted_wrt_apart_sort sorted_sort_key) simp_all
  have "chain (length content) 0 (sort_replacements reps)"
    using accepted_chain [of 0 content "sort_replacements reps"] all by simp
  from splice_interleave [OF this] obtain gaps where "length gaps = length reps + 1"
    "content = interleave gaps (map (\<lambda>(s, e, _). byte_range s e content) (sort_replacements reps))"
    "splice_at content 0 (sort_replacements reps) = interleave gaps (map (\<lambda>(_, _, t). t) (sort_replacements reps))"
    by (auto simp: sort_replacements_def)
  with assms(1) all show ?thesis
    by (auto simp: decapitate_checked_def apply_replacements_text reps_def)
qed

text \<open>The tree of \<^verbatim>\<open>f(()=>{s}){t}\<close> as a function whose parameter has an arrow function as default.\<close>

definition leaf :: "string \<Rightarrow> string option \<Rightarrow> nat \<Rightarrow> nat \<Rightarrow> ts_node list \<Rightarrow> ts_node" where
  "leaf k f s e cs = TsNode k True f s e (0, s) (0, e) False cs"

definition default_arrow :: ts_node where
  "default_arrow =
     leaf ''function_declaration'' None 0 13
       [leaf ''formal_parameters'' (Some ''parameters'') 1 10
          [leaf ''arrow_function'' None 2 9 [leaf ''statement_block'' (Some ''body'') 6 9 []]],
        leaf ''statement_block'' (Some ''body'') 10 13 []]"

theorem decapitation_splices_witness:
  "\<exists>gaps. length gaps = 2 \<and> ''f(()=>{s}){t}'' = interleave gaps [''{t}'']
     \<and> decapitate_checked (fixed_parser (Some default_arrow)) ''f(()=>{s}){t}'' TypeScript ()
       = (Some (interleave gaps [STRIPPED], False), ())"
proof -
  have parse: "ts_parse (fixed_parser (Some default_arrow)) () ''f(()=>{s}){t}'' = (Some default_arrow, ())"
    by (simp add: fixed_parser_def)
  have ok: "spans_ok ''f(()=>{s}){t}'' default_arrow" by code_simp
  have "collect_body_replacements ''f(()=>{s}){t}'' TypeScript default_arrow 0 = [(10, 13, STRIPPED)]" by code_simp
  moreover have "byte_range 10 13 ''f(()=>{s}){t}'' = ''{t}''" by code_simp
  moreover have "\<not> nd_error default_arrow" by code_simp
  ultimately show ?thesis
    using decapitation_splices [OF parse ok, of TypeScript] by (simp add: sort_replacements_def numeral_2_eq_2)
qed

text \<open>The walk returns at a function it strips, so a function in the header of another, such as the default of a parameter,
  keeps its body.\<close>

lemma default_parameter_body_kept:
  "fst (decapitate_checked (fixed_parser (Some default_arrow)) ''f(()=>{s}){t}'' TypeScript ())
   = Some (''f(()=>{s})'' @ STRIPPED, False)"
  by code_simp

end
