(* ===== verification/Doc_Search.thy ===== *)
theory Doc_Search
  imports Doc_Sections Error_Sanitizer "HOL-Library.Word" "HOL-Library.Multiset"
begin

text \<open>
  The documentation index of \<^verbatim>\<open>crates/mesh-core/src/docs.rs\<close>, second half: the index, the normalization of queries, keyword
  and fuzzy scores, and the search. Scores are 32-bit words that wrap as in a release build. The edit distance of the fuzzy
  match is computed row by row on two arrays; its specification is the least number of single edits.
\<close>

section \<open>The index\<close>

record doc_index =
  di_sections :: "doc_section list"
  di_aliases :: "(string, string) hmap"
  stop_words :: "string list"
  exact_phrase_boost :: "32 word"
  sanitize_injections :: bool
  fuzzy_fallback :: bool

definition doc_index_new ::
  "(string, string) hmap \<Rightarrow> string list \<Rightarrow> 32 word \<Rightarrow> bool \<Rightarrow> bool \<Rightarrow> doc_index" where
  "doc_index_new aliases stops boost sanitize fuzzy =
     \<lparr>di_sections = [], di_aliases = aliases, stop_words = stops, exact_phrase_boost = boost,
      sanitize_injections = sanitize, fuzzy_fallback = fuzzy\<rparr>"

definition doc_index_default :: doc_index where
  "doc_index_default = doc_index_new [] [] 10 True True"

definition clone_settings :: "doc_index \<Rightarrow> doc_index" where
  "clone_settings ix = ix\<lparr>di_sections := []\<rparr>"

definition adopt_query_settings :: "doc_index \<Rightarrow> doc_index \<Rightarrow> doc_index" where
  "adopt_query_settings other ix =
     ix\<lparr>di_aliases := di_aliases other, stop_words := stop_words other,
        exact_phrase_boost := exact_phrase_boost other, fuzzy_fallback := fuzzy_fallback other\<rparr>"

definition section_count :: "doc_index \<Rightarrow> nat" where
  "section_count ix = length (di_sections ix)"

definition extend_sections :: "doc_section list \<Rightarrow> doc_index \<Rightarrow> doc_index" where
  "extend_sections ss ix = ix\<lparr>di_sections := di_sections ix @ ss\<rparr>"

definition index_markdown_file :: "layout \<Rightarrow> path \<Rightarrow> string \<Rightarrow> doc_index \<Rightarrow> doc_index" where
  "index_markdown_file lay p raw ix = extend_sections (parse_sections lay (sanitize_injections ix) p raw) ix"

definition remove_file :: "path \<Rightarrow> doc_index \<Rightarrow> doc_index" where
  "remove_file p ix = ix\<lparr>di_sections := filter (\<lambda>s. ds_path s \<noteq> p) (di_sections ix)\<rparr>"

definition remove_files :: "path list \<Rightarrow> doc_index \<Rightarrow> doc_index" where
  "remove_files ps ix =
     (if ps \<noteq> [] then ix\<lparr>di_sections := filter (\<lambda>s. ds_path s \<notin> set ps) (di_sections ix)\<rparr> else ix)"

section \<open>Edit distance\<close>

definition lev_cell :: "string \<Rightarrow> string \<Rightarrow> nat list \<Rightarrow> nat \<Rightarrow> nat \<Rightarrow> nat list \<Rightarrow> nat list" where
  "lev_cell a b prev i j cur =
     (let cost = (if a ! (i - 1) = b ! (j - 1) then 0 else 1) in
      cur[j := min (min (prev ! j + 1) (cur ! (j - 1) + 1)) (prev ! (j - 1) + cost)])"

definition lev_row :: "string \<Rightarrow> string \<Rightarrow> nat \<Rightarrow> nat list \<times> nat list \<Rightarrow> nat list \<times> nat list" where
  "lev_row a b i = (\<lambda>(prev, cur).
     let cur' = fold (lev_cell a b prev i) [1 ..< length b + 1] (cur[0 := i]) in (cur', cur'))"

definition levenshtein :: "string \<Rightarrow> string \<Rightarrow> nat" where
  "levenshtein a b =
     (let n = length a; m = length b in
      if n = 0 then m
      else if m = 0 then n
      else fst (fold (lev_row a b) [1 ..< n + 1] ([0 ..< m + 1], replicate (m + 1) 0)) ! m)"

definition is_fuzzy_match :: "string \<Rightarrow> string \<Rightarrow> bool" where
  "is_fuzzy_match token query_word \<longleftrightarrow>
     token = query_word \<or> levenshtein token query_word \<le> (if length query_word \<le> 4 then 1 else 2)"

section \<open>Scores and search\<close>

definition content_lower_text :: "doc_section \<Rightarrow> string" where
  "content_lower_text s = (case content_lower s of Some l \<Rightarrow> l | None \<Rightarrow> to_lowercase (doc_content s))"

definition word_tokens :: "string \<Rightarrow> string list" where
  "word_tokens s = filter (\<lambda>t. t \<noteq> []) (split_pred (\<lambda>c. \<not> is_ascii_alphanumeric c) s)"

definition fuzzy_score :: "doc_section \<Rightarrow> string list \<Rightarrow> 32 word" where
  "fuzzy_score s ws =
     (let title_tokens = word_tokens (title_lower s); content_tokens = word_tokens (content_lower_text s) in
      fold (\<lambda>w score.
        if length w < 3 then score
        else score + (if list_ex (\<lambda>t. is_fuzzy_match t w) title_tokens then 8 else 0)
                   + (if list_ex (\<lambda>t. is_fuzzy_match t w) content_tokens then 3 else 0)) ws 0)"

definition normalize_query :: "doc_index \<Rightarrow> string \<Rightarrow> string" where
  "normalize_query ix raw =
     join_with '' '' (map (\<lambda>w. case map_of (di_aliases ix) w of Some alias \<Rightarrow> alias | None \<Rightarrow> w)
       (filter (\<lambda>w. \<not> list_ex (\<lambda>sw. eq_ignore_ascii_case sw w) (stop_words ix))
         (map to_lowercase (split_whitespace raw))))"

definition calculate_score :: "doc_index \<Rightarrow> doc_section \<Rightarrow> string \<Rightarrow> string list \<Rightarrow> 32 word" where
  "calculate_score ix s norm_query ws =
     fold (\<lambda>w score. score + (if str_contains (title_lower s) w then 15 else 0)
                           + (if content_lower_contains s w then 5 else 0))
       ws ((if str_contains (title_lower s) norm_query then exact_phrase_boost ix else 0)
           + (if content_lower_contains s norm_query then 20 else 0))"

definition scored :: "(doc_section \<Rightarrow> 32 word) \<Rightarrow> doc_section list \<Rightarrow> (32 word \<times> doc_section) list" where
  "scored f ss = filter (\<lambda>(sc, _). sc > 0) (map (\<lambda>s. (f s, s)) ss)"

definition rank_key :: "32 word \<times> doc_section \<Rightarrow> int \<times> path \<times> nat \<times> string" where
  "rank_key = (\<lambda>(sc, s). (- uint sc, ds_path s, start_line s, doc_title s))"

definition search_docs :: "doc_index \<Rightarrow> string \<Rightarrow> nat \<Rightarrow> doc_section list" where
  "search_docs ix query max_sections =
     (let q = normalize_query ix query in
      if q = [] then []
      else
        let ws = split_whitespace q;
            exact = scored (\<lambda>s. calculate_score ix s q ws) (di_sections ix);
            hits = (if exact = [] \<and> fuzzy_fallback ix then scored (\<lambda>s. fuzzy_score s ws) (di_sections ix) else exact) in
        map snd (take max_sections (sort_key rank_key hits)))"

section \<open>The edit distance is the least number of edits\<close>

inductive single_edit :: "string \<Rightarrow> string \<Rightarrow> bool" where
  edit_insert: "single_edit (u @ v) (u @ c # v)"
| edit_delete: "single_edit (u @ c # v) (u @ v)"
| edit_change: "single_edit (u @ c # v) (u @ d # v)"

text \<open>Alignments of two strings, built from the left.\<close>

inductive align :: "nat \<Rightarrow> string \<Rightarrow> string \<Rightarrow> bool" where
  align_Nil: "align 0 [] []"
| align_same: "align k a b \<Longrightarrow> align k (a @ [x]) (b @ [x])"
| align_change: "align k a b \<Longrightarrow> align (Suc k) (a @ [x]) (b @ [y])"
| align_insert: "align k a b \<Longrightarrow> align (Suc k) a (b @ [y])"
| align_delete: "align k a b \<Longrightarrow> align (Suc k) (a @ [x]) b"

lemma single_edit_append: "single_edit s t \<Longrightarrow> single_edit (s @ w) (t @ w)"
  by (cases rule: single_edit.cases) (auto intro: single_edit.intros [where v = "_ @ w", simplified])

lemma edits_append: "(single_edit ^^ k) s t \<Longrightarrow> (single_edit ^^ k) (s @ w) (t @ w)"
  by (induction k arbitrary: t) (auto intro: single_edit_append elim!: relcomppE)

lemma edit_end:
  "single_edit b (b @ [y])" "single_edit (b @ [x]) b" "single_edit (b @ [x]) (b @ [y])"
  using edit_insert [of b "[]" y] edit_delete [of b x "[]"] edit_change [of b x "[]" y] by auto

lemma align_edits: "align k a b \<Longrightarrow> (single_edit ^^ k) a b"
proof (induction rule: align.induct)
  case (align_same k a b x)
  from edits_append [OF align_same.IH] show ?case .
next
  case (align_change k a b x y)
  then show ?case using edits_append edit_end(3) by (auto intro!: relcomppI)
next
  case (align_insert k a b y)
  then show ?case using edit_end(1) by (auto intro!: relcomppI)
next
  case (align_delete k a b x)
  then show ?case using edits_append edit_end(2) by (auto intro!: relcomppI)
qed simp

lemma align_refl: "align 0 a a"
  by (induction a rule: rev_induct) (auto intro: align.intros)

lemma snoc_eq_insert:
  "b @ [y] = u @ v \<Longrightarrow> (v = [] \<and> u = b @ [y]) \<or> (\<exists>v'. v = v' @ [y] \<and> b = u @ v')"
  by (cases v rule: rev_cases) auto

lemma snoc_eq_delete:
  "b @ [y] = u @ c # v \<Longrightarrow> (v = [] \<and> u = b \<and> c = y) \<or> (\<exists>v'. v = v' @ [y] \<and> b = u @ c # v')"
  by (cases v rule: rev_cases) auto

text \<open>One edit of the second string changes the length of an alignment by one at most.\<close>

lemma align_then_insert:
  "align k a w \<Longrightarrow> w = u @ v \<Longrightarrow> \<exists>k' \<le> Suc k. align k' a (u @ c # v)"
proof (induction arbitrary: u v rule: align.induct)
  case align_Nil
  then show ?case using align_insert [OF align.align_Nil, of c] by auto
next
  case (align_same k a b x)
  from snoc_eq_insert [OF align_same.prems] show ?case
  proof (elim disjE exE conjE)
    assume "v = []" "u = b @ [x]"
    then show ?thesis using align_insert [OF align.align_same [OF align_same.hyps, of x], of c] by auto
  next
    fix v' assume v: "v = v' @ [x]" "b = u @ v'"
    from align_same.IH [OF v(2)] obtain k' where "k' \<le> Suc k" "align k' a (u @ c # v')" by blast
    with v align.align_same [of k' a "u @ c # v'" x] show ?thesis by auto
  qed
next
  case (align_change k a b x y)
  from snoc_eq_insert [OF align_change.prems] show ?case
  proof (elim disjE exE conjE)
    assume "v = []" "u = b @ [y]"
    then show ?thesis using align_insert [OF align.align_change [OF align_change.hyps, of x y], of c] by auto
  next
    fix v' assume v: "v = v' @ [y]" "b = u @ v'"
    from align_change.IH [OF v(2)] obtain k' where "k' \<le> Suc k" "align k' a (u @ c # v')" by blast
    with v align.align_change [of k' a "u @ c # v'" x y] show ?thesis by (intro exI [of _ "Suc k'"]) auto
  qed
next
  case (align_insert k a b y)
  from snoc_eq_insert [OF align_insert.prems] show ?case
  proof (elim disjE exE conjE)
    assume "v = []" "u = b @ [y]"
    then show ?thesis using align.align_insert [OF align.align_insert [OF align_insert.hyps, of y], of c] by auto
  next
    fix v' assume v: "v = v' @ [y]" "b = u @ v'"
    from align_insert.IH [OF v(2)] obtain k' where "k' \<le> Suc k" "align k' a (u @ c # v')" by blast
    with v align.align_insert [of k' a "u @ c # v'" y] show ?thesis by (intro exI [of _ "Suc k'"]) auto
  qed
next
  case (align_delete k a b x)
  from align_delete.IH [OF align_delete.prems] obtain k' where "k' \<le> Suc k" "align k' a (u @ c # v)" by blast
  with align.align_delete [of k' a "u @ c # v" x] show ?case by (intro exI [of _ "Suc k'"]) auto
qed

text \<open>Deleting and changing are one statement: what stands in place of the byte is a list of at most one.\<close>

lemma align_end:
  assumes "align k a b" "length d \<le> 1"
  shows "align (Suc k) (a @ [x]) (b @ d)" "\<exists>k' \<le> Suc k. align k' a (b @ d)"
proof -
  consider "d = []" | y where "d = [y]" using assms(2) by (cases d) auto
  then show "align (Suc k) (a @ [x]) (b @ d)" "\<exists>k' \<le> Suc k. align k' a (b @ d)"
    using assms(1) align_delete [of k a b x] align_change [of k a b x] align_insert [of k a b]
    by (cases; fastforce)+
qed

lemma align_then_replace:
  "align k a w \<Longrightarrow> w = u @ c # v \<Longrightarrow> length d \<le> 1 \<Longrightarrow> \<exists>k' \<le> Suc k. align k' a (u @ d @ v)"
proof (induction arbitrary: u v rule: align.induct)
  case (align_same k a b x)
  from snoc_eq_delete [OF align_same.prems(1)] show ?case
  proof (elim disjE exE conjE)
    assume "v = []" "u = b"
    with align_end(1) [OF align_same.hyps align_same.prems(2)] show ?thesis by auto
  next
    fix v' assume v: "v = v' @ [x]" "b = u @ c # v'"
    from align_same.IH [OF v(2) align_same.prems(2)] obtain k' where "k' \<le> Suc k" "align k' a (u @ d @ v')" by blast
    with v align.align_same [of k' a "u @ d @ v'" x] show ?thesis by auto
  qed
next
  case (align_change k a b x y)
  from snoc_eq_delete [OF align_change.prems(1)] show ?case
  proof (elim disjE exE conjE)
    assume "v = []" "u = b"
    with align_end(1) [OF align_change.hyps align_change.prems(2), of x] show ?thesis by (intro exI [of _ "Suc k"]) simp
  next
    fix v' assume v: "v = v' @ [y]" "b = u @ c # v'"
    from align_change.IH [OF v(2) align_change.prems(2)] obtain k' where "k' \<le> Suc k" "align k' a (u @ d @ v')" by blast
    with v align.align_change [of k' a "u @ d @ v'" x y] show ?thesis by (intro exI [of _ "Suc k'"]) auto
  qed
next
  case (align_insert k a b y)
  from snoc_eq_delete [OF align_insert.prems(1)] show ?case
  proof (elim disjE exE conjE)
    assume "v = []" "u = b"
    with align_end(2) [OF align_insert.hyps align_insert.prems(2)] show ?thesis by (auto intro: le_SucI)
  next
    fix v' assume v: "v = v' @ [y]" "b = u @ c # v'"
    from align_insert.IH [OF v(2) align_insert.prems(2)] obtain k' where "k' \<le> Suc k" "align k' a (u @ d @ v')" by blast
    with v align.align_insert [of k' a "u @ d @ v'" y] show ?thesis by (intro exI [of _ "Suc k'"]) auto
  qed
next
  case (align_delete k a b x)
  from align_delete.IH [OF align_delete.prems] obtain k' where "k' \<le> Suc k" "align k' a (u @ d @ v)" by blast
  with align.align_delete [of k' a "u @ d @ v" x] show ?case by (intro exI [of _ "Suc k'"]) auto
qed simp

lemma edits_align: "(single_edit ^^ k) a b \<Longrightarrow> \<exists>k' \<le> k. align k' a b"
proof (induction k arbitrary: b)
  case 0
  then show ?case using align_refl by auto
next
  case (Suc k)
  then obtain w where w: "(single_edit ^^ k) a w" "single_edit w b" by auto
  from Suc.IH [OF w(1)] obtain k' where k': "k' \<le> k" "align k' a w" by blast
  from w(2) have "\<exists>j \<le> Suc k'. align j a b"
  proof cases
    case (edit_insert u v c)
    then show ?thesis using align_then_insert [OF k'(2)] by blast
  next
    case (edit_delete u c v)
    then show ?thesis using align_then_replace [OF k'(2), of u c v "[]"] by auto
  next
    case (edit_change u c v d)
    then show ?thesis using align_then_replace [OF k'(2), of u c v "[d]"] by auto
  qed
  with k'(1) show ?case by (meson Suc_le_mono order_trans)
qed

subsection \<open>The table\<close>

fun lev_table :: "string \<Rightarrow> string \<Rightarrow> nat \<Rightarrow> nat \<Rightarrow> nat" where
  "lev_table a b 0 j = j"
| "lev_table a b (Suc i) 0 = Suc i"
| "lev_table a b (Suc i) (Suc j) =
     min (min (lev_table a b i (Suc j) + 1) (lev_table a b (Suc i) j + 1))
         (lev_table a b i j + (if a ! i = b ! j then 0 else 1))"

lemma lev_table_0 [simp]: "lev_table a b i 0 = i"
  by (cases i) auto

lemma align_Nil_right: "align (length a) a []"
  by (induction a rule: rev_induct) (auto intro: align.intros)

lemma align_Nil_left: "align (length b) [] b"
  by (induction b rule: rev_induct) (auto intro: align.intros)

lemma lev_table_aligns:
  "i \<le> length a \<Longrightarrow> j \<le> length b \<Longrightarrow> align (lev_table a b i j) (take i a) (take j b)"
proof (induction a b i j rule: lev_table.induct)
  case (1 a b j)
  then show ?case using align_Nil_left [of "take j b"] by (simp add: min_absorb2)
next
  case (2 a b i)
  then show ?case using align_Nil_right [of "take (Suc i) a"] by (simp add: min_absorb2)
next
  case (3 a b i j)
  have snoc: "take (Suc i) a = take i a @ [a ! i]" "take (Suc j) b = take j b @ [b ! j]"
    using 3 by (simp_all add: take_Suc_conv_app_nth)
  have "align (lev_table a b i (Suc j) + 1) (take (Suc i) a) (take (Suc j) b)"
    "align (lev_table a b (Suc i) j + 1) (take (Suc i) a) (take (Suc j) b)"
    "align (lev_table a b i j + (if a ! i = b ! j then 0 else 1)) (take (Suc i) a) (take (Suc j) b)"
    using 3 align_delete [of "lev_table a b i (Suc j)" "take i a" "take (Suc j) b" "a ! i"]
      align_insert [of "lev_table a b (Suc i) j" "take (Suc i) a" "take j b" "b ! j"]
      align_same [of "lev_table a b i j" "take i a" "take j b" "a ! i"]
      align_change [of "lev_table a b i j" "take i a" "take j b" "a ! i" "b ! j"] snoc
    by auto
  then show ?case unfolding lev_table.simps min_def by (auto simp del: One_nat_def)
qed

lemma align_lengths: "align k a b \<Longrightarrow> length a \<le> length b + k \<and> length b \<le> length a + k"
  by (induction rule: align.induct) auto

lemma align_table:
  "align k s t \<Longrightarrow> s = take i a \<Longrightarrow> t = take j b \<Longrightarrow> i \<le> length a \<Longrightarrow> j \<le> length b \<Longrightarrow> lev_table a b i j \<le> k"
proof (induction arbitrary: i j rule: align.induct)
  case align_Nil
  then show ?case by auto
next
  case (align_same k s t x)
  obtain i' j' where ij: "i = Suc i'" "j = Suc j'"
    using align_same.prems by (cases i; cases j) auto
  then have "s = take i' a" "t = take j' b" "a ! i' = x" "b ! j' = x"
    using align_same.prems by (auto simp: take_Suc_conv_app_nth)
  with align_same.IH [of i' j'] align_same.prems ij show ?case by simp
next
  case (align_change k s t x y)
  obtain i' j' where ij: "i = Suc i'" "j = Suc j'"
    using align_change.prems by (cases i; cases j) auto
  then have "s = take i' a" "t = take j' b"
    using align_change.prems by (auto simp: take_Suc_conv_app_nth)
  with align_change.IH [of i' j'] align_change.prems ij show ?case by (simp add: min_le_iff_disj)
next
  case (align_insert k s t y)
  obtain j' where j: "j = Suc j'" using align_insert.prems by (cases j) auto
  then have "t = take j' b" using align_insert.prems by (auto simp: take_Suc_conv_app_nth)
  with align_insert.IH [of i j'] align_insert.prems j show ?case by (cases i) (auto simp: min_le_iff_disj)
next
  case (align_delete k s t x)
  obtain i' where i: "i = Suc i'" using align_delete.prems by (cases i) auto
  then have "s = take i' a" using align_delete.prems by (auto simp: take_Suc_conv_app_nth)
  with align_delete.IH [of i' j] align_delete.prems i show ?case by (cases j) (auto simp: min_le_iff_disj)
qed

text \<open>The two rows hold a row of the table each.\<close>

definition row_upto :: "string \<Rightarrow> string \<Rightarrow> nat \<Rightarrow> nat \<Rightarrow> nat list \<Rightarrow> bool" where
  "row_upto a b i m row \<longleftrightarrow> length row = length b + 1 \<and> (\<forall>j \<le> m. row ! j = lev_table a b i j)"

lemma lev_cell_row:
  assumes "row_upto a b i (length b) prev" "row_upto a b (Suc i) m cur" "m < length b"
  shows "row_upto a b (Suc i) (Suc m) (lev_cell a b prev (Suc i) (Suc m) cur)"
  unfolding row_upto_def
proof (intro conjI allI impI)
  have len: "length cur = length b + 1" using assms(2) by (simp add: row_upto_def)
  show "length (lev_cell a b prev (Suc i) (Suc m) cur) = length b + 1" by (simp add: lev_cell_def Let_def len)
  have prev: "prev ! Suc m = lev_table a b i (Suc m)" "prev ! m = lev_table a b i m"
    using assms(1,3) by (simp_all add: row_upto_def)
  have cur: "cur ! k = lev_table a b (Suc i) k" if "k \<le> m" for k using assms(2) that by (simp add: row_upto_def)
  fix j assume j: "j \<le> Suc m"
  show "lev_cell a b prev (Suc i) (Suc m) cur ! j = lev_table a b (Suc i) j"
  proof (cases "j = Suc m")
    case True
    then show ?thesis using prev cur [of m] len assms(3) by (simp add: lev_cell_def Let_def)
  next
    case False
    then show ?thesis using cur [of j] j by (simp add: lev_cell_def Let_def)
  qed
qed

lemma lev_cells:
  "row_upto a b i (length b) prev \<Longrightarrow> row_upto a b (Suc i) 0 cur \<Longrightarrow> m \<le> length b \<Longrightarrow>
   row_upto a b (Suc i) m (fold (lev_cell a b prev (Suc i)) [1 ..< m + 1] cur)"
proof (induction m)
  case (Suc m)
  have "[1 ..< Suc m + 1] = [1 ..< m + 1] @ [Suc m]" by simp
  then have "fold (lev_cell a b prev (Suc i)) [1 ..< Suc m + 1] cur
      = lev_cell a b prev (Suc i) (Suc m) (fold (lev_cell a b prev (Suc i)) [1 ..< m + 1] cur)"
    by (simp only: fold_append fold_simps comp_apply)
  moreover have "row_upto a b (Suc i) (Suc m) (lev_cell a b prev (Suc i) (Suc m) (fold (lev_cell a b prev (Suc i)) [1 ..< m + 1] cur))"
    using Suc by (intro lev_cell_row) simp_all
  ultimately show ?case by (simp only:)
qed simp

lemma lev_row_step:
  assumes "row_upto a b i (length b) prev" "length cur = length b + 1"
  shows "\<exists>row. lev_row a b (Suc i) (prev, cur) = (row, row) \<and> row_upto a b (Suc i) (length b) row"
  using lev_cells [OF assms(1), of "cur[0 := Suc i]" "length b"] assms(2)
  by (simp add: lev_row_def Let_def row_upto_def del: upt_Suc)

lemma lev_rows:
  "\<exists>prev cur. fold (lev_row a b) [1 ..< n + 1] ([0 ..< length b + 1], replicate (length b + 1) 0) = (prev, cur)
     \<and> row_upto a b n (length b) prev \<and> length cur = length b + 1"
proof (induction n)
  case 0
  then show ?case by (auto simp: row_upto_def less_Suc_eq_le simp del: upt_Suc)
next
  case (Suc n)
  then obtain prev cur where IH:
    "fold (lev_row a b) [1 ..< n + 1] ([0 ..< length b + 1], replicate (length b + 1) 0) = (prev, cur)"
    "row_upto a b n (length b) prev" "length cur = length b + 1" by blast
  obtain row where row: "lev_row a b (Suc n) (prev, cur) = (row, row)" "row_upto a b (Suc n) (length b) row"
    using lev_row_step [OF IH(2,3)] by blast
  have "[1 ..< Suc n + 1] = [1 ..< n + 1] @ [Suc n]" by simp
  then have "fold (lev_row a b) [1 ..< Suc n + 1] ([0 ..< length b + 1], replicate (length b + 1) 0) = (row, row)"
    by (simp only: fold_append fold_simps comp_apply IH(1) row(1))
  with row(2) show ?case by (auto simp: row_upto_def simp del: upt_Suc)
qed

lemma levenshtein_table: "levenshtein a b = lev_table a b (length a) (length b)"
proof (cases "length a = 0 \<or> length b = 0")
  case True
  then show ?thesis by (cases a) (auto simp: levenshtein_def)
next
  case False
  with lev_rows [of a b "length a"] show ?thesis by (auto simp: levenshtein_def Let_def row_upto_def simp del: upt_Suc)
qed

text \<open>C29: The edit distance computed on two rows is the least number of insertions, deletions and changes of one character that turn
  the first string into the second.\<close>

theorem levenshtein_exact: "levenshtein a b = (LEAST k. (single_edit ^^ k) a b)"
proof (rule Least_equality [symmetric])
  show "(single_edit ^^ levenshtein a b) a b"
    using lev_table_aligns [of "length a" a "length b" b] by (simp add: levenshtein_table align_edits)
  show "levenshtein a b \<le> k" if "(single_edit ^^ k) a b" for k
    using edits_align [OF that] align_table [of _ a b "length a" a "length b" b]
    by (auto simp: levenshtein_table intro: order_trans)
qed

section \<open>What a search returns\<close>

lemma take_sorted_key:
  assumes "x \<in> set (take n (sort_key f xs))" "y \<in> set (drop n (sort_key f xs))"
  shows "f x \<le> f y"
proof -
  have "sorted (map f (take n (sort_key f xs) @ drop n (sort_key f xs)))" by simp
  then show ?thesis using assms unfolding map_append sorted_append by simp
qed

lemma rank_key_score: "rank_key (a, s) \<le> rank_key (b, t) \<Longrightarrow> b \<le> a"
  by (auto simp: rank_key_def less_eq_prod_def word_le_def)

text \<open>The score a search ranks by: keywords, or the fuzzy one if no section has any keyword and the fallback is on.\<close>

definition search_score :: "doc_index \<Rightarrow> string \<Rightarrow> doc_section \<Rightarrow> 32 word" where
  "search_score ix query =
     (let q = normalize_query ix query; ws = split_whitespace q; exact = (\<lambda>s. calculate_score ix s q ws) in
      if fuzzy_fallback ix \<and> list_all (\<lambda>s. exact s = 0) (di_sections ix) then (\<lambda>s. fuzzy_score s ws) else exact)"

lemma scored_empty: "scored f ss = [] \<longleftrightarrow> list_all (\<lambda>s. f s = 0) ss"
  by (induction ss) (auto simp: scored_def word_gt_0)

lemma search_docs_ranked:
  "normalize_query ix query \<noteq> [] \<Longrightarrow>
   search_docs ix query n = map snd (take n (sort_key rank_key (scored (search_score ix query) (di_sections ix))))"
  by (simp add: search_docs_def search_score_def scored_empty Let_def)

text \<open>A search returns as many sections as asked for if that many match, each with a positive score, best first, and no section it
  leaves out scores higher than one it returns; what is returned and left out together are the matching sections, none twice.\<close>

theorem search_docs_top:
  assumes "normalize_query ix query \<noteq> []"
  shows "\<exists>rest. mset (search_docs ix query n) + mset rest = mset (filter (\<lambda>s. search_score ix query s > 0) (di_sections ix))
    \<and> length (search_docs ix query n) = min n (length (filter (\<lambda>s. search_score ix query s > 0) (di_sections ix)))
    \<and> sorted_wrt (\<lambda>s t. search_score ix query s \<ge> search_score ix query t) (search_docs ix query n)
    \<and> list_all (\<lambda>s. list_all (\<lambda>t. search_score ix query s \<ge> search_score ix query t) rest) (search_docs ix query n)"
proof -
  let ?f = "search_score ix query"
  define hits where "hits = scored ?f (di_sections ix)"
  define ranked where "ranked = sort_key rank_key hits"
  have pairs: "fst h = ?f (snd h)" if "h \<in> set ranked" for h
    using that by (auto simp: ranked_def hits_def scored_def)
  have out: "search_docs ix query n = map snd (take n ranked)"
    using search_docs_ranked [OF assms] by (simp add: ranked_def hits_def)
  have snds: "map snd hits = filter (\<lambda>s. ?f s > 0) (di_sections ix)"
    by (simp add: hits_def scored_def filter_map comp_def)
  have all: "mset (map snd ranked) = mset (filter (\<lambda>s. ?f s > 0) (di_sections ix))"
    unfolding snds [symmetric] by (simp only: mset_map ranked_def mset_sort)
  have "sorted_wrt (\<lambda>g h. rank_key g \<le> rank_key h) ranked"
    using sorted_sort_key [of rank_key hits] by (simp add: ranked_def sorted_wrt_map)
  then have "sorted_wrt (\<lambda>g h. fst h \<le> fst g) ranked"
    by (rule sorted_wrt_mono_rel [rotated]) (metis prod.collapse rank_key_score)
  then have desc: "sorted_wrt (\<lambda>g h. ?f (snd h) \<le> ?f (snd g)) ranked"
    by (rule sorted_wrt_mono_rel [rotated]) (simp add: pairs)
  have parts: "ranked = take n ranked @ drop n ranked" by simp
  have split: "sorted_wrt (\<lambda>g h. ?f (snd h) \<le> ?f (snd g)) (take n ranked)"
    "\<forall>g \<in> set (take n ranked). \<forall>h \<in> set (drop n ranked). ?f (snd h) \<le> ?f (snd g)"
    using desc [unfolded sorted_wrt_append [of _ "take n ranked" "drop n ranked", simplified append_take_drop_id]] by auto
  have "mset (search_docs ix query n) + mset (map snd (drop n ranked)) = mset (map snd ranked)"
    unfolding out by (metis append_take_drop_id map_append mset_append)
  moreover have "length ranked = length (filter (\<lambda>s. ?f s > 0) (di_sections ix))"
    using mset_eq_length [OF all] by simp
  ultimately show ?thesis
    using split all unfolding out
    by (intro exI [of _ "map snd (drop n ranked)"]) (auto simp: sorted_wrt_map list_all_iff min.commute)
qed

definition two_docs :: doc_index where
  "two_docs = extend_sections
     [new_section [Normal ''a.md''] ''Queues'' 1 1 2 ''retry'', new_section [Normal ''b.md''] ''Retry'' 1 1 2 ''policy'']
     doc_index_default"

theorem search_docs_top_witness:
  "map doc_title (search_docs two_docs ''Retry'' 1) = [''Queues'']
   \<and> length (search_docs two_docs ''Retry'' 1)
     = min 1 (length (filter (\<lambda>s. search_score two_docs ''Retry'' s > 0) (di_sections two_docs)))"
proof -
  have "normalize_query two_docs ''Retry'' \<noteq> []" by code_simp
  from search_docs_top [OF this, of 1] have "length (search_docs two_docs ''Retry'' 1)
     = min 1 (length (filter (\<lambda>s. search_score two_docs ''Retry'' s > 0) (di_sections two_docs)))" by blast
  moreover have "map doc_title (search_docs two_docs ''Retry'' 1) = [''Queues'']" by code_simp
  ultimately show ?thesis by blast
qed

text \<open>The score is a 32-bit sum: a configured boost near the limit wraps to zero and hides the best match.\<close>

lemma phrase_boost_wraps:
  "search_docs (two_docs\<lparr>exact_phrase_boost := - 15, fuzzy_fallback := False, di_sections := [di_sections two_docs ! 1]\<rparr>) ''Retry'' 1 = []"
  by code_simp

text \<open>Files come and go: removing a batch of files is removing each, and indexing a file again replaces its sections.\<close>

lemma remove_files_each: "remove_files ps ix = fold remove_file ps ix"
proof -
  have "fold remove_file ps ix = ix\<lparr>di_sections := filter (\<lambda>s. ds_path s \<notin> set ps) (di_sections ix)\<rparr>" for ix
    by (induction ps arbitrary: ix) (auto simp: remove_file_def intro!: filter_cong)
  then show ?thesis by (cases ps) (simp_all add: remove_files_def)
qed

lemma parse_sections_path: "s \<in> set (parse_sections lay b p raw) \<Longrightarrow> ds_path s = p"
proof -
  have "ds_path t = p" if "t \<in> set (body_sections lay p budget doc)" for t budget doc
    using body_sections_partition(1) [where doc = doc and lay = lay and p = p and budget = budget] that
    by (auto simp: list_all_iff section_ok_def)
  then show "s \<in> set (parse_sections lay b p raw) \<Longrightarrow> ds_path s = p"
    by (auto simp: parse_sections_body add_description_def split: option.splits list.splits) (metis list.set_intros(2))
qed

text \<open>Indexing a file again after removing it leaves exactly its new sections for it and keeps those of every other file, in
  their order.\<close>

theorem reindex_exact:
  "di_sections (index_markdown_file lay p raw (remove_files (p # ps) ix))
   = filter (\<lambda>s. ds_path s \<notin> set (p # ps)) (di_sections ix) @ parse_sections lay (sanitize_injections ix) p raw
   \<and> filter (\<lambda>s. ds_path s = p) (di_sections (index_markdown_file lay p raw (remove_files (p # ps) ix)))
     = parse_sections lay (sanitize_injections ix) p raw"
proof -
  have "filter (\<lambda>s. ds_path s = p) (parse_sections lay b p raw) = parse_sections lay b p raw" for b
    by (rule filter_True) (auto dest: parse_sections_path)
  then show ?thesis
    by (auto simp: index_markdown_file_def extend_sections_def remove_files_def filter_empty_conv)
qed

end
