(* ===== verification/Crawler.thy ===== *)
theory Crawler
  imports Path_Jail
begin

text \<open>
  The crawler of \<^verbatim>\<open>crates/mesh-core/src/crawler.rs\<close>: compiled exclusion patterns with their hit counters, the walk of a scope
  that follows links inside it, the decision on a single path, and the plan of directories to watch. The glob set, the directory
  walker and the ignore files are third-party libraries and appear as parameters; the recursion through links takes fuel, since it
  may not end.
\<close>

section \<open>Exclusion patterns\<close>

record glob_lib =
  gl_valid :: "string \<Rightarrow> bool"
  gl_matches :: "string \<Rightarrow> path \<Rightarrow> bool"

record exclude_matcher =
  em_set :: "string list"
  em_raw_patterns :: "string list"
  em_pattern_indices :: "nat list"
  em_hits :: "nat list"

text \<open>\<^verbatim>\<open>trim_end_matches\<close> of a string pattern takes the suffix away as often as it is there.\<close>

function trim_end_str :: "string \<Rightarrow> string \<Rightarrow> string" where
  "trim_end_str suf s =
     (if suf \<noteq> [] \<and> ends_with s suf then trim_end_str suf (take (length s - length suf) s) else s)"
  by auto
termination
proof (relation "measure (\<lambda>(suf, s). length s)")
  fix suf s :: string
  assume "suf \<noteq> [] \<and> ends_with s suf"
  then have "0 < length suf" "s \<noteq> []" by (auto simp: ends_with_def starts_with_def)
  then show "((suf, take (length s - length suf) s), suf, s) \<in> measure (\<lambda>(suf, s). length s)" by simp
qed simp

declare trim_end_str.simps [simp del]

definition expand_pattern :: "string \<Rightarrow> string list" where
  "expand_pattern pat =
     (let core = trim_end_str ''/'' (trim_end_str ''/**'' (strip_workspace_root_prefix pat)) in
      if core = [] then []
      else
        let anchored = (if starts_with core ''**/'' \<or> starts_with core ''/'' then core else ''**/'' @ core) in
        [anchored, anchored @ ''/**'']
        @ (if starts_with core ''/''
           then (let unslash = dropWhile (\<lambda>c. c = CHR ''/'') core in [unslash, unslash @ ''/**'']) else []))"

definition compile_pattern :: "glob_lib \<Rightarrow> string \<Rightarrow> exclude_matcher \<Rightarrow> exclude_matcher" where
  "compile_pattern gl raw m =
     (let pat = trim raw in
      if pat = [] then m
      else
        let idx = length (em_hits m); globs = filter (gl_valid gl) (expand_pattern pat) in
        m\<lparr>em_set := em_set m @ globs, em_raw_patterns := em_raw_patterns m @ [pat],
          em_pattern_indices := em_pattern_indices m @ replicate (length globs) idx, em_hits := em_hits m @ [0]\<rparr>)"

definition empty_matcher :: exclude_matcher where
  "empty_matcher = \<lparr>em_set = [], em_raw_patterns = [], em_pattern_indices = [], em_hits = []\<rparr>"

text \<open>The set is built from globs that parsed; where it still fails to build, the code keeps an empty set: \<^verbatim>\<open>builds\<close> says so.\<close>

definition compile_matcher :: "glob_lib \<Rightarrow> bool \<Rightarrow> string list \<Rightarrow> exclude_matcher" where
  "compile_matcher gl builds patterns =
     (let m = fold (compile_pattern gl) patterns empty_matcher in if builds then m else m\<lparr>em_set := []\<rparr>)"

definition set_matches :: "glob_lib \<Rightarrow> exclude_matcher \<Rightarrow> path \<Rightarrow> nat list" where
  "set_matches gl m p = filter (\<lambda>i. gl_matches gl (em_set m ! i) p) [0 ..< length (em_set m)]"

definition record_hit :: "nat \<Rightarrow> exclude_matcher \<Rightarrow> exclude_matcher" where
  "record_hit i m =
     (if i < length (em_pattern_indices m) \<and> em_pattern_indices m ! i < length (em_hits m)
      then m\<lparr>em_hits := (em_hits m)[em_pattern_indices m ! i := em_hits m ! (em_pattern_indices m ! i) + 1]\<rparr> else m)"

definition is_excluded_with_root :: "glob_lib \<Rightarrow> path \<Rightarrow> path option \<Rightarrow> exclude_matcher \<Rightarrow> bool \<times> exclude_matcher" where
  "is_excluded_with_root gl rel root m =
     (if Normal ''.git'' \<in> set rel then (True, m)
      else if set_matches gl m rel \<noteq> [] then (True, fold record_hit (set_matches gl m rel) m)
      else case Option.bind root file_name of
        Some root_name \<Rightarrow>
          (let with_root = path_join [Normal root_name] rel in
           if set_matches gl m with_root \<noteq> [] then (True, fold record_hit (set_matches gl m with_root) m) else (False, m))
      | None \<Rightarrow> (False, m))"

definition is_excluded :: "glob_lib \<Rightarrow> path \<Rightarrow> exclude_matcher \<Rightarrow> bool \<times> exclude_matcher" where
  "is_excluded gl rel m = is_excluded_with_root gl rel None m"

definition unmatched_patterns :: "exclude_matcher \<Rightarrow> string list" where
  "unmatched_patterns m =
     map (\<lambda>i. em_raw_patterns m ! i)
       (filter (\<lambda>i. i < length (em_hits m) \<and> em_hits m ! i = 0) [0 ..< length (em_raw_patterns m)])"

section \<open>One path\<close>

text \<open>The ignore rules of a root: whether each file is there, whether it parses, and what the compiled rules say of a path.\<close>

record 'g ignore_lib =
  ig_is_file :: "path \<Rightarrow> bool"
  ig_is_dir :: "path \<Rightarrow> bool"
  ig_parses :: "path \<Rightarrow> bool"
  ig_build :: "path \<Rightarrow> path list \<Rightarrow> 'g option"
  ig_matched :: "'g \<Rightarrow> path \<Rightarrow> bool \<Rightarrow> bool"
  ig_matched_or_parents :: "'g \<Rightarrow> path \<Rightarrow> bool \<Rightarrow> bool"

definition has_ignore_file :: "'g ignore_lib \<Rightarrow> path \<Rightarrow> bool" where
  "has_ignore_file ig dir \<longleftrightarrow> ig_is_file ig (join_name dir ''.gitignore'') \<or> ig_is_file ig (join_name dir ''.ignore'')"

text \<open>The loop up from the parent to the root: whether no directory strictly between them has its own ignore file.\<close>

function climb_clear :: "'g ignore_lib \<Rightarrow> path \<Rightarrow> path \<Rightarrow> bool" where
  "climb_clear ig root dir =
     (if dir = root then True
      else if \<not> path_starts_with dir root then False
      else if has_ignore_file ig dir then False
      else case path_parent dir of Some d \<Rightarrow> climb_clear ig root d | None \<Rightarrow> False)"
  by auto
termination
  by (relation "measure (\<lambda>(ig, root, dir). length dir)") (auto simp: path_parent_def split: if_splits)

declare climb_clear.simps [simp del]

definition ignore_sources :: "'g ignore_lib \<Rightarrow> path \<Rightarrow> path list" where
  "ignore_sources ig root =
     filter (ig_is_file ig)
       [join_name root ''.gitignore'', join_name root ''.ignore'', join_name (join_name (join_name root ''.git'') ''info'') ''exclude'']"

definition is_path_excluded ::
  "glob_lib \<Rightarrow> 'g ignore_lib \<Rightarrow> path \<Rightarrow> path \<Rightarrow> exclude_matcher \<Rightarrow> bool option" where
  "is_path_excluded gl ig root p m =
     (case path_strip_prefix root p of
        None \<Rightarrow> None
      | Some rel \<Rightarrow>
          if fst (is_excluded_with_root gl rel (Some root) m) then Some True
          else if rel = [] then Some False
          else case path_parent p of
            None \<Rightarrow> None
          | Some dir \<Rightarrow>
              if \<not> climb_clear ig root dir then None
              else
                let sources = ignore_sources ig root in
                if list_ex (\<lambda>q. \<not> ig_parses ig q) sources then None
                else if sources = [] then Some False
                else case ig_build ig root sources of
                  Some g \<Rightarrow> Some (ig_matched ig g p (ig_is_dir ig p))
                | None \<Rightarrow> None)"

section \<open>The walk\<close>

record walk_entry =
  we_path :: path
  we_symlink :: bool
  we_file :: bool
  we_dir :: bool

text \<open>The walker of the library: root, depth limit, the filter the caller installed; an entry it could not read is None.\<close>

type_synonym walker = "path \<Rightarrow> nat \<Rightarrow> (path \<Rightarrow> bool) \<Rightarrow> walk_entry option list"

record crawl_env =
  cr_world :: world
  cr_glob :: glob_lib
  cr_walk :: walker
  cr_is_file :: "path \<Rightarrow> bool"

definition filter_entry :: "glob_lib \<Rightarrow> path \<Rightarrow> exclude_matcher \<Rightarrow> path \<Rightarrow> bool" where
  "filter_entry gl root m p =
     (case path_strip_prefix root p of
        None \<Rightarrow> True
      | Some rel \<Rightarrow> rel = [] \<or> \<not> fst (is_excluded_with_root gl rel (Some root) m))"

definition max_walk_depth :: "nat option \<Rightarrow> nat" where
  "max_walk_depth d = (case d of Some n \<Rightarrow> n | None \<Rightarrow> 10)"

text \<open>One entry; \<^verbatim>\<open>sub\<close> is the crawl of a linked directory, None where it does not return.\<close>

definition crawl_entry ::
  "crawl_env \<Rightarrow> exclude_matcher \<Rightarrow> path \<Rightarrow> (path \<Rightarrow> path list option) \<Rightarrow> walk_entry option
   \<Rightarrow> (path set \<times> path list) option \<Rightarrow> (path set \<times> path list) option" where
  "crawl_entry env m root sub entry acc =
     (case (acc, entry) of
        (None, _) \<Rightarrow> None
      | (Some s, None) \<Rightarrow> Some s
      | (Some (visited, files), Some e) \<Rightarrow>
          if \<not> we_symlink e then Some (visited, if we_file e then files @ [we_path e] else files)
          else case w_canonicalize (cr_world env) (we_path e) of
            None \<Rightarrow> Some (visited, files)
          | Some c \<Rightarrow>
              if \<not> path_starts_with (to_nfc_path (cr_world env) c) (to_nfc_path (cr_world env) root) then Some (visited, files)
              else
                let rel_target = (case path_strip_prefix root c of Some r \<Rightarrow> r | None \<Rightarrow> c) in
                if fst (is_excluded (cr_glob env) rel_target m) then Some (visited, files)
                else if cr_is_file env c then Some (visited, files @ [c])
                else if w_is_dir (cr_world env) c \<and> c \<notin> visited then
                  (case resolve_scope (cr_world env) (path_str c) [root] of
                     Inl _ \<Rightarrow> Some (insert c visited, files)
                   | Inr sub_scope \<Rightarrow> map_option (\<lambda>fs. (insert c visited, files @ fs)) (sub sub_scope))
                else Some (visited, files))"

fun crawl_scope_with :: "nat \<Rightarrow> crawl_env \<Rightarrow> exclude_matcher \<Rightarrow> path \<Rightarrow> nat option \<Rightarrow> path list option" where
  "crawl_scope_with 0 env m root max_depth = None"
| "crawl_scope_with (Suc n) env m root max_depth =
     map_option (\<lambda>(_, files). remdups_adj (sort files))
       (fold (crawl_entry env m root (\<lambda>scope. crawl_scope_with n env m scope (Some 5)))
          (cr_walk env root (max_walk_depth max_depth) (filter_entry (cr_glob env) root m)) (Some ({}, [])))"

definition crawl_scope :: "nat \<Rightarrow> crawl_env \<Rightarrow> bool \<Rightarrow> path \<Rightarrow> string list \<Rightarrow> nat option \<Rightarrow> path list option" where
  "crawl_scope n env builds scope patterns max_depth =
     crawl_scope_with n env (compile_matcher (cr_glob env) builds patterns) scope max_depth"

section \<open>The directories to watch\<close>

record watch_plan =
  wp_dirs :: "path list"
  wp_capped :: bool

fun plan_loop :: "nat \<Rightarrow> walk_entry option list \<Rightarrow> path list \<Rightarrow> watch_plan" where
  "plan_loop cap [] dirs = \<lparr>wp_dirs = dirs, wp_capped = False\<rparr>"
| "plan_loop cap (None # es) dirs = plan_loop cap es dirs"
| "plan_loop cap (Some e # es) dirs =
     (if we_symlink e then plan_loop cap es dirs
      else if we_dir e then
        if length (dirs @ [we_path e]) > cap then \<lparr>wp_dirs = [], wp_capped = True\<rparr>
        else plan_loop cap es (dirs @ [we_path e])
      else plan_loop cap es dirs)"

definition plan_watch_dirs_from ::
  "crawl_env \<Rightarrow> path \<Rightarrow> path \<Rightarrow> exclude_matcher \<Rightarrow> nat option \<Rightarrow> nat \<Rightarrow> watch_plan" where
  "plan_watch_dirs_from env walk_root matcher_root m max_depth cap =
     (if (case path_strip_prefix matcher_root walk_root of
            Some root_rel \<Rightarrow> root_rel \<noteq> [] \<and> fst (is_excluded_with_root (cr_glob env) root_rel (Some matcher_root) m)
          | None \<Rightarrow> False)
      then \<lparr>wp_dirs = [], wp_capped = False\<rparr>
      else plan_loop cap (cr_walk env walk_root (max_walk_depth max_depth) (filter_entry (cr_glob env) matcher_root m)) [])"

definition plan_watch_dirs :: "crawl_env \<Rightarrow> path \<Rightarrow> exclude_matcher \<Rightarrow> nat option \<Rightarrow> nat \<Rightarrow> watch_plan" where
  "plan_watch_dirs env root m max_depth cap = plan_watch_dirs_from env root root m max_depth cap"

section \<open>What the matcher excludes\<close>

text \<open>A compiled matcher: one counter per pattern, one pattern per glob.\<close>

definition matcher_wf :: "exclude_matcher \<Rightarrow> bool" where
  "matcher_wf m \<longleftrightarrow> length (em_raw_patterns m) = length (em_hits m)
     \<and> (\<forall>i \<in> set (em_pattern_indices m). i < length (em_hits m)) \<and> length (em_set m) \<le> length (em_pattern_indices m)"

lemma compile_pattern_wf: "matcher_wf m \<Longrightarrow> matcher_wf (compile_pattern gl raw m)"
  by (auto simp: matcher_wf_def compile_pattern_def Let_def less_Suc_eq)

lemma compile_fold_wf: "matcher_wf m \<Longrightarrow> matcher_wf (fold (compile_pattern gl) ps m)"
  by (induction ps arbitrary: m) (auto simp: compile_pattern_wf)

lemma compile_matcher_wf: "matcher_wf (compile_matcher gl b ps)"
proof -
  have "matcher_wf (fold (compile_pattern gl) ps empty_matcher)"
    by (rule compile_fold_wf) (simp add: matcher_wf_def empty_matcher_def)
  then show ?thesis by (auto simp: compile_matcher_def Let_def matcher_wf_def)
qed

text \<open>The globs that count for the patterns of a configuration.\<close>

definition all_globs :: "glob_lib \<Rightarrow> string list \<Rightarrow> string list" where
  "all_globs gl ps = concat (map (\<lambda>raw. filter (gl_valid gl) (expand_pattern (trim raw))) (filter (\<lambda>raw. trim raw \<noteq> []) ps))"

lemma compile_fold_set: "em_set (fold (compile_pattern gl) ps m) = em_set m @ all_globs gl ps"
  by (induction ps arbitrary: m) (auto simp: all_globs_def compile_pattern_def Let_def)

lemma compile_matcher_set: "em_set (compile_matcher gl True ps) = all_globs gl ps"
  by (simp add: compile_matcher_def Let_def compile_fold_set empty_matcher_def)

definition hit_by :: "glob_lib \<Rightarrow> exclude_matcher \<Rightarrow> path \<Rightarrow> bool" where
  "hit_by gl m p \<longleftrightarrow> list_ex (\<lambda>g. gl_matches gl g p) (em_set m)"

lemma set_matches_hit: "set_matches gl m p = [] \<longleftrightarrow> \<not> hit_by gl m p"
  by (auto simp: set_matches_def hit_by_def filter_empty_conv list_ex_length)

lemma excluded_iff:
  "fst (is_excluded_with_root gl rel root m) \<longleftrightarrow>
     Normal ''.git'' \<in> set rel \<or> hit_by gl m rel
     \<or> (case Option.bind root file_name of Some n \<Rightarrow> hit_by gl m (path_join [Normal n] rel) | None \<Rightarrow> False)"
  by (auto simp: is_excluded_with_root_def set_matches_hit Let_def split: option.splits)

text \<open>What is relied on of the glob library: \<^verbatim>\<open>g/**\<close> matches exactly what lies strictly below a match of \<^verbatim>\<open>g\<close>.\<close>

definition below_glob :: "glob_lib \<Rightarrow> bool" where
  "below_glob gl \<longleftrightarrow> (\<forall>g p. gl_matches gl (g @ ''/**'') p \<longleftrightarrow> (\<exists>q r. p = q @ r \<and> r \<noteq> [] \<and> gl_matches gl g q))
     \<and> (\<forall>g. gl_valid gl g \<longrightarrow> gl_valid gl (g @ ''/**''))"

lemma expand_pattern_closed:
  "g \<in> set (expand_pattern pat) \<Longrightarrow> (\<exists>h \<in> set (expand_pattern pat). g = h @ ''/**'') \<or> g @ ''/**'' \<in> set (expand_pattern pat)"
  by (auto simp: expand_pattern_def Let_def split: if_splits)

lemma all_globs_closed:
  assumes "below_glob gl" "g \<in> set (all_globs gl ps)"
  shows "(\<exists>h. g = h @ ''/**'') \<or> g @ ''/**'' \<in> set (all_globs gl ps)"
proof -
  obtain raw where raw: "raw \<in> set ps" "trim raw \<noteq> []" "gl_valid gl g" "g \<in> set (expand_pattern (trim raw))"
    using assms(2) by (auto simp: all_globs_def)
  then show ?thesis
    using expand_pattern_closed [OF raw(4)] assms(1) by (auto simp: all_globs_def below_glob_def)
qed

lemma hit_below:
  assumes "below_glob gl" "hit_by gl (compile_matcher gl True ps) p"
  shows "hit_by gl (compile_matcher gl True ps) (p @ q)"
proof (cases "q = []")
  case False
  obtain g where g: "g \<in> set (all_globs gl ps)" "gl_matches gl g p"
    using assms(2) by (auto simp: hit_by_def compile_matcher_set list_ex_iff)
  from all_globs_closed [OF assms(1) g(1)] show ?thesis
  proof
    assume "\<exists>h. g = h @ ''/**''"
    then obtain h where h: "g = h @ ''/**''" by blast
    then obtain p1 p2 where "p = p1 @ p2" "p2 \<noteq> []" "gl_matches gl h p1"
      using g(2) assms(1) unfolding below_glob_def by metis
    then have "gl_matches gl g (p @ q)" using assms(1) h unfolding below_glob_def by (metis append.assoc append_is_Nil_conv)
    then show ?thesis using g(1) by (auto simp: hit_by_def compile_matcher_set list_ex_iff)
  next
    assume "g @ ''/**'' \<in> set (all_globs gl ps)"
    moreover have "gl_matches gl (g @ ''/**'') (p @ q)" using assms(1) g(2) False unfolding below_glob_def by blast
    ultimately show ?thesis unfolding hit_by_def compile_matcher_set list_ex_iff by blast
  qed
qed (use assms(2) in simp)

text \<open>
  Exclusion is closed downwards, which is what lets the walk prune a directory instead of filtering its files: whatever
  patterns are configured, a path below an excluded one is excluded as well, \<^verbatim>\<open>.git\<close> first of all.
\<close>

theorem exclusion_prunes:
  assumes "below_glob gl" "m = compile_matcher gl True ps" "list_all (\<lambda>c. c \<noteq> CurDir) (rel @ q)" "is_relative rel"
    and "fst (is_excluded_with_root gl rel root m)" "rel \<noteq> []"
  shows "fst (is_excluded_with_root gl (rel @ q) root m)"
proof -
  have nf: "filter (\<lambda>c. c \<noteq> CurDir) xs = xs" if "list_all (\<lambda>c. c \<noteq> CurDir) xs" for xs
    using that by (simp add: list_all_iff filter_id_conv)
  have rel: "is_relative (rel @ q)" using assms(4,6) by (auto simp: is_relative_def split: list.splits component.splits)
  have join: "path_join [Normal n] (rel @ q) = path_join [Normal n] rel @ q" for n
    using assms(3,4) rel nf [of "rel @ q"] nf [of rel] by (simp add: path_join_def)
  show ?thesis
    using assms(5) hit_below [OF assms(1), of ps] unfolding excluded_iff assms(2)
    by (auto simp: join split: option.splits)
qed

text \<open>A glob library with names only: the last component, or everything below it.\<close>

function toy_match :: "string \<Rightarrow> path \<Rightarrow> bool" where
  "toy_match g p =
     (if ends_with g ''/**'' then list_ex (\<lambda>n. toy_match (take (length g - 3) g) (take n p)) [0 ..< length p]
      else p \<noteq> [] \<and> last p = Normal (drop 3 g))"
  by auto
termination
proof (relation "measure (\<lambda>(g, p). length g)")
  fix g :: string and p :: path and n
  assume "ends_with g ''/**''"
  then have "g \<noteq> []" by (auto simp: ends_with_def starts_with_def)
  then show "((take (length g - 3) g, take n p), g, p) \<in> measure (\<lambda>(g, p). length g)" by simp
qed simp

declare toy_match.simps [simp del]

definition toy_glob :: glob_lib where
  "toy_glob = \<lparr>gl_valid = (\<lambda>_. True), gl_matches = toy_match\<rparr>"

lemma toy_match_below: "toy_match (g @ ''/**'') p \<longleftrightarrow> (\<exists>q r. p = q @ r \<and> r \<noteq> [] \<and> toy_match g q)"
proof -
  have "ends_with (g @ ''/**'') ''/**''" by (simp add: ends_with_def starts_with_def)
  then have "toy_match (g @ ''/**'') p \<longleftrightarrow> (\<exists>n < length p. toy_match g (take n p))"
    by (subst toy_match.simps) (auto simp: list_ex_iff)
  also have "\<dots> \<longleftrightarrow> (\<exists>q r. p = q @ r \<and> r \<noteq> [] \<and> toy_match g q)"
  proof
    assume "\<exists>n < length p. toy_match g (take n p)"
    then obtain n where "n < length p" "toy_match g (take n p)" by blast
    then show "\<exists>q r. p = q @ r \<and> r \<noteq> [] \<and> toy_match g q" by (intro exI [of _ "take n p"] exI [of _ "drop n p"]) simp
  next
    assume "\<exists>q r. p = q @ r \<and> r \<noteq> [] \<and> toy_match g q"
    then obtain q r where "p = q @ r" "r \<noteq> []" "toy_match g q" by blast
    then show "\<exists>n < length p. toy_match g (take n p)" by (intro exI [of _ "length q"]) simp
  qed
  finally show ?thesis .
qed

lemma toy_glob_below: "below_glob toy_glob"
  by (simp add: below_glob_def toy_glob_def toy_match_below)

theorem exclusion_prunes_witness:
  "fst (is_excluded_with_root toy_glob [Normal ''build'', Normal ''a.o''] None (compile_matcher toy_glob True [''build'']))"
proof -
  have "fst (is_excluded_with_root toy_glob [Normal ''build''] None (compile_matcher toy_glob True [''build'']))"
    by code_simp
  then show ?thesis
    using exclusion_prunes [OF toy_glob_below refl, of "[Normal ''build'']" "[Normal ''a.o'']" None "[''build'']"]
    by (simp add: is_relative_def)
qed

section \<open>Hit counters\<close>

text \<open>The globs one query counts: of the relative path, or, where none matches it, of the path under the name of the root.\<close>

definition query_hits :: "glob_lib \<Rightarrow> exclude_matcher \<Rightarrow> path \<times> path option \<Rightarrow> nat list" where
  "query_hits gl m = (\<lambda>(rel, root).
     if Normal ''.git'' \<in> set rel then []
     else if set_matches gl m rel \<noteq> [] then set_matches gl m rel
     else case Option.bind root file_name of Some n \<Rightarrow> set_matches gl m (path_join [Normal n] rel) | None \<Rightarrow> [])"

definition pattern_hit :: "glob_lib \<Rightarrow> exclude_matcher \<Rightarrow> (path \<times> path option) list \<Rightarrow> nat \<Rightarrow> bool" where
  "pattern_hit gl m qs k \<longleftrightarrow> (\<exists>q \<in> set qs. \<exists>i \<in> set (query_hits gl m q). em_pattern_indices m ! i = k)"

definition run_queries :: "glob_lib \<Rightarrow> (path \<times> path option) list \<Rightarrow> exclude_matcher \<Rightarrow> exclude_matcher" where
  "run_queries gl qs m = fold (\<lambda>(rel, root) m. snd (is_excluded_with_root gl rel root m)) qs m"

definition same_globs :: "exclude_matcher \<Rightarrow> exclude_matcher \<Rightarrow> bool" where
  "same_globs m m' \<longleftrightarrow> em_set m' = em_set m \<and> em_raw_patterns m' = em_raw_patterns m
     \<and> em_pattern_indices m' = em_pattern_indices m \<and> length (em_hits m') = length (em_hits m)"

lemma record_hit_same: "same_globs m (record_hit i m)"
  by (simp add: same_globs_def record_hit_def)

lemma record_hit_zero:
  assumes "matcher_wf m" "i < length (em_set m)" "k < length (em_hits m)"
  shows "em_hits (record_hit i m) ! k = 0 \<longleftrightarrow> em_hits m ! k = 0 \<and> em_pattern_indices m ! i \<noteq> k"
proof -
  have "i < length (em_pattern_indices m)" "em_pattern_indices m ! i < length (em_hits m)"
    using assms(1,2) by (auto simp: matcher_wf_def)
  then show ?thesis using assms(3) by (auto simp: record_hit_def nth_list_update)
qed

lemma matcher_wf_same: "matcher_wf m \<Longrightarrow> same_globs m m' \<Longrightarrow> matcher_wf m'"
  by (simp add: matcher_wf_def same_globs_def)

lemma same_globs_trans: "same_globs a b \<Longrightarrow> same_globs b c \<Longrightarrow> same_globs a c"
  by (simp add: same_globs_def)

lemma record_hits:
  assumes "matcher_wf m" "\<forall>i \<in> set is. i < length (em_set m)"
  shows "same_globs m (fold record_hit is m) \<and> (\<forall>k < length (em_hits m).
      em_hits (fold record_hit is m) ! k = 0 \<longleftrightarrow> em_hits m ! k = 0 \<and> (\<forall>i \<in> set is. em_pattern_indices m ! i \<noteq> k))"
  using assms
proof (induction "is" arbitrary: m)
  case (Cons i "is")
  have s: "same_globs m (record_hit i m)" by (rule record_hit_same)
  have "em_set (record_hit i m) = em_set m" using s by (simp add: same_globs_def)
  then have IH: "same_globs (record_hit i m) (fold record_hit is (record_hit i m)) \<and> (\<forall>k < length (em_hits (record_hit i m)).
      em_hits (fold record_hit is (record_hit i m)) ! k = 0
      \<longleftrightarrow> em_hits (record_hit i m) ! k = 0 \<and> (\<forall>j \<in> set is. em_pattern_indices (record_hit i m) ! j \<noteq> k))"
    using Cons.IH [OF matcher_wf_same [OF Cons.prems(1) s]] Cons.prems(2) by simp
  have eqs: "length (em_hits (record_hit i m)) = length (em_hits m)" "em_pattern_indices (record_hit i m) = em_pattern_indices m"
    using s by (simp_all add: same_globs_def)
  show ?case
    using IH same_globs_trans [OF s] record_hit_zero [OF Cons.prems(1), of i] Cons.prems(2) by (auto simp: eqs)
qed (simp add: same_globs_def)

lemma query_records:
  "snd (is_excluded_with_root gl rel root m) = fold record_hit (query_hits gl m (rel, root)) m"
  by (auto simp: is_excluded_with_root_def query_hits_def Let_def split: option.splits)

lemma query_hits_bound: "i \<in> set (query_hits gl m q) \<Longrightarrow> i < length (em_set m)"
  by (auto simp: query_hits_def set_matches_def split: prod.splits if_splits option.splits)

lemma query_hits_same: "same_globs m m' \<Longrightarrow> query_hits gl m' q = query_hits gl m q"
proof -
  assume "same_globs m m'"
  then have "set_matches gl m' = set_matches gl m" by (simp add: set_matches_def fun_eq_iff same_globs_def)
  then show ?thesis by (auto simp: query_hits_def split: prod.splits option.splits)
qed

lemma pattern_hit_same: "same_globs m m' \<Longrightarrow> pattern_hit gl m' qs k \<longleftrightarrow> pattern_hit gl m qs k"
  by (simp add: pattern_hit_def query_hits_same) (simp add: same_globs_def)

lemma run_queries_hits:
  "matcher_wf m \<Longrightarrow> same_globs m (run_queries gl qs m) \<and> (\<forall>k < length (em_hits m).
     em_hits (run_queries gl qs m) ! k = 0 \<longleftrightarrow> em_hits m ! k = 0 \<and> \<not> pattern_hit gl m qs k)"
proof (induction qs arbitrary: m)
  case (Cons q qs)
  obtain rel root where q: "q = (rel, root)" by (cases q)
  let ?m = "fold record_hit (query_hits gl m q) m"
  have R: "same_globs m ?m" "\<forall>k < length (em_hits m). em_hits ?m ! k = 0
      \<longleftrightarrow> em_hits m ! k = 0 \<and> (\<forall>i \<in> set (query_hits gl m q). em_pattern_indices m ! i \<noteq> k)"
    using record_hits [OF Cons.prems, of "query_hits gl m q"] query_hits_bound by auto
  have run: "run_queries gl (q # qs) m = run_queries gl qs ?m"
    by (simp add: run_queries_def q query_records)
  have len: "length (em_hits ?m) = length (em_hits m)" using R(1) by (simp add: same_globs_def)
  have IH: "same_globs ?m (run_queries gl qs ?m) \<and> (\<forall>k < length (em_hits m).
     em_hits (run_queries gl qs ?m) ! k = 0 \<longleftrightarrow> em_hits ?m ! k = 0 \<and> \<not> pattern_hit gl m qs k)"
    using Cons.IH [OF matcher_wf_same [OF Cons.prems R(1)]] pattern_hit_same [OF R(1)] len by simp
  have "pattern_hit gl m (q # qs) k \<longleftrightarrow> (\<exists>i \<in> set (query_hits gl m q). em_pattern_indices m ! i = k) \<or> pattern_hit gl m qs k" for k
    by (simp add: pattern_hit_def)
  then show ?case using IH R same_globs_trans [OF R(1)] unfolding run by auto
qed (simp add: run_queries_def same_globs_def pattern_hit_def)

lemma compile_hits_zero: "i \<in> set (em_hits (compile_matcher gl b ps)) \<Longrightarrow> i = 0"
proof -
  have step: "\<forall>i \<in> set (em_hits m). i = 0 \<Longrightarrow> \<forall>i \<in> set (em_hits (compile_pattern gl raw m)). i = 0" for m raw
    by (simp add: compile_pattern_def Let_def)
  have "\<forall>i \<in> set (em_hits m). i = 0 \<Longrightarrow> \<forall>i \<in> set (em_hits (fold (compile_pattern gl) ps m)). i = 0" for m
  proof (induction ps arbitrary: m)
    case (Cons a ps)
    then show ?case using Cons.IH [OF step [OF Cons.prems]] by simp
  qed simp
  from this [of empty_matcher] show "i \<in> set (em_hits (compile_matcher gl b ps)) \<Longrightarrow> i = 0"
    by (auto simp: compile_matcher_def Let_def empty_matcher_def split: if_splits)
qed

text \<open>
  The dead-pattern report is exact: after any sequence of exclusion queries on a compiled matcher, the patterns listed as
  unmatched are exactly those none of whose globs was hit by a query, in configuration order.
\<close>

theorem unmatched_patterns_exact:
  "unmatched_patterns (run_queries gl qs (compile_matcher gl b ps))
   = map (\<lambda>k. em_raw_patterns (compile_matcher gl b ps) ! k)
       (filter (\<lambda>k. \<not> pattern_hit gl (compile_matcher gl b ps) qs k) [0 ..< length (em_raw_patterns (compile_matcher gl b ps))])"
proof -
  let ?m = "compile_matcher gl b ps"
  note R = run_queries_hits [OF compile_matcher_wf [of gl b ps], of gl qs]
  have len: "length (em_raw_patterns ?m) = length (em_hits ?m)" using compile_matcher_wf [of gl b ps] by (simp add: matcher_wf_def)
  have "em_hits ?m ! k = 0" if "k < length (em_hits ?m)" for k using that compile_hits_zero nth_mem by blast
  moreover have "length (em_hits (run_queries gl qs ?m)) = length (em_hits ?m)"
    "em_raw_patterns (run_queries gl qs ?m) = em_raw_patterns ?m" using R by (simp_all add: same_globs_def)
  ultimately show ?thesis unfolding unmatched_patterns_def
    by (intro arg_cong2 [where f = map] filter_cong) (auto simp: len R)
qed

section \<open>What the crawl returns\<close>

text \<open>The documented behaviour of the walker that is relied on: its entries are the root and what lies below it.\<close>

definition walks_below :: "walker \<Rightarrow> bool" where
  "walks_below walk \<longleftrightarrow> (\<forall>root d flt e. Some e \<in> set (walk root d flt) \<longrightarrow> path_starts_with (we_path e) root)"

definition canonical_dir :: "crawl_env \<Rightarrow> path \<Rightarrow> bool" where
  "canonical_dir env p \<longleftrightarrow> (\<exists>q. w_canonicalize (cr_world env) q = Some p)"

text \<open>The link targets a crawl of a root descends into.\<close>

lemma crawl_entry_link:
  assumes w: "canonical_world (cr_world env)" and root: "canonical_dir env root"
    and c: "w_canonicalize (cr_world env) (we_path e) = Some c" and e: "we_symlink e"
  shows "crawl_entry env m root sub (Some e) (Some (visited, files)) =
     (if \<not> path_starts_with c root \<or> fst (is_excluded (cr_glob env) (drop (length root) c) m) then Some (visited, files)
      else if cr_is_file env c then Some (visited, files @ [c])
      else if w_is_dir (cr_world env) c \<and> c \<notin> visited then map_option (\<lambda>fs. (insert c visited, files @ fs)) (sub c)
      else Some (visited, files))"
proof -
  obtain q where q: "w_canonicalize (cr_world env) q = Some root" using root by (auto simp: canonical_dir_def)
  have "\<exists>q. w_canonicalize (cr_world env) q = Some r" if "r \<in> set [root]" for r using q that by auto
  then have "resolve_scope (cr_world env) (path_str c) [root] = (if path_starts_with c root then Inr c else Inl (SandboxEscapeAttempt c))"
    using resolve_scope_canonical [OF w c, of "[root]"] by (simp add: under_roots_def)
  then show ?thesis
    using e c by (simp add: crawl_entry_def to_nfc_path_canonical [OF w c] to_nfc_path_canonical [OF w q] path_strip_prefix_def Let_def)
qed

lemma crawl_entry_none [simp]: "crawl_entry env m root sub e None = None"
  by (simp add: crawl_entry_def)

lemma fold_crawl_none [simp]: "fold (crawl_entry env m root sub) es None = None"
  by (induction es) auto

definition inside :: "path \<Rightarrow> path list \<Rightarrow> bool" where
  "inside root files \<longleftrightarrow> list_all (\<lambda>f. path_starts_with f root) files"

lemma inside_simps [simp]:
  "inside root []" "inside root (a # xs) \<longleftrightarrow> path_starts_with a root \<and> inside root xs"
  "inside root (xs @ ys) \<longleftrightarrow> inside root xs \<and> inside root ys"
  by (simp_all add: inside_def)

lemma crawl_entry_inside:
  assumes w: "canonical_world (cr_world env)" and root: "canonical_dir env root"
    and sub: "\<And>c fs. canonical_dir env c \<Longrightarrow> sub c = Some fs \<Longrightarrow> inside c fs"
    and entry: "\<And>e. entry = Some e \<Longrightarrow> path_starts_with (we_path e) root"
    and r: "crawl_entry env m root sub entry (Some (visited, files)) = Some (visited', files')" and f: "inside root files"
  shows "inside root files'"
proof (cases "\<exists>e c. entry = Some e \<and> we_symlink e \<and> w_canonicalize (cr_world env) (we_path e) = Some c")
  case True
  then obtain e c where e: "entry = Some e" "we_symlink e" "w_canonicalize (cr_world env) (we_path e) = Some c" by blast
  have sub': "inside root fs" if "sub c = Some fs" "path_starts_with c root" for fs
    using sub [OF _ that(1)] e(3) that(2) path_starts_with_trans unfolding inside_def list_all_iff canonical_dir_def by blast
  show ?thesis using r f sub' unfolding e(1) crawl_entry_link [OF w root e(3,2)] by (auto split: if_splits)
next
  case False
  then show ?thesis using r f entry by (auto simp: crawl_entry_def split: option.splits if_splits)
qed

lemma fold_crawl_inside:
  assumes w: "canonical_world (cr_world env)" and root: "canonical_dir env root"
    and sub: "\<And>c fs. canonical_dir env c \<Longrightarrow> sub c = Some fs \<Longrightarrow> inside c fs"
  shows "list_all (\<lambda>entry. case entry of Some e \<Rightarrow> path_starts_with (we_path e) root | None \<Rightarrow> True) es \<Longrightarrow>
    fold (crawl_entry env m root sub) es (Some (visited, files)) = Some (visited', files') \<Longrightarrow> inside root files \<Longrightarrow>
    inside root files'"
proof (induction es arbitrary: visited files)
  case (Cons e es)
  show ?case
  proof (cases "crawl_entry env m root sub e (Some (visited, files))")
    case (Some s)
    obtain v1 f1 where s: "crawl_entry env m root sub e (Some (visited, files)) = Some (v1, f1)" using Some by (cases s) auto
    have "inside root f1"
      by (rule crawl_entry_inside [OF w root sub _ s Cons.prems(3)]) (use Cons.prems(1) in auto)
    then show ?thesis using Cons.IH [of v1 f1] Cons.prems s by simp
  qed (use Cons.prems in simp)
qed simp

lemma crawl_inside:
  assumes w: "canonical_world (cr_world env)" and walk: "walks_below (cr_walk env)"
  shows "canonical_dir env root \<Longrightarrow> crawl_scope_with n env m root d = Some files \<Longrightarrow> inside root files"
proof (induction n arbitrary: root d files)
  case (Suc n)
  let ?es = "cr_walk env root (max_walk_depth d) (filter_entry (cr_glob env) root m)"
  obtain v fs where fs: "fold (crawl_entry env m root (\<lambda>scope. crawl_scope_with n env m scope (Some 5))) ?es (Some ({}, [])) = Some (v, fs)"
      "files = remdups_adj (sort fs)"
    using Suc.prems(2) by auto
  have "inside root fs"
  proof (rule fold_crawl_inside [OF w Suc.prems(1) _ _ fs(1)])
    show "list_all (\<lambda>entry. case entry of Some e \<Rightarrow> path_starts_with (we_path e) root | None \<Rightarrow> True) ?es"
      using walk unfolding walks_below_def list_all_iff by (auto split: option.splits)
  qed (use Suc.IH in auto)
  then show ?case by (simp add: fs(2) inside_def list_all_iff)
qed simp


section \<open>When the crawl ends\<close>

text \<open>A crawl of \<^verbatim>\<open>root\<close> to depth \<^verbatim>\<open>d\<close> meets a link to a directory inside that is not excluded.\<close>

definition links_to :: "crawl_env \<Rightarrow> exclude_matcher \<Rightarrow> path \<Rightarrow> nat \<Rightarrow> path \<Rightarrow> bool" where
  "links_to env m root d c \<longleftrightarrow>
     list_ex (\<lambda>entry. case entry of
                Some e \<Rightarrow> we_symlink e \<and> w_canonicalize (cr_world env) (we_path e) = Some c
              | None \<Rightarrow> False) (cr_walk env root d (filter_entry (cr_glob env) root m))
     \<and> \<not> fst (is_excluded (cr_glob env) (drop (length root) c) m) \<and> \<not> cr_is_file env c \<and> w_is_dir (cr_world env) c"

lemma crawl_entry_total:
  assumes w: "canonical_world (cr_world env)" and root: "canonical_dir env root"
    and sub: "\<And>e c. entry = Some e \<Longrightarrow> we_symlink e \<Longrightarrow> w_canonicalize (cr_world env) (we_path e) = Some c
      \<Longrightarrow> path_starts_with c root \<Longrightarrow> \<not> fst (is_excluded (cr_glob env) (drop (length root) c) m) \<Longrightarrow> \<not> cr_is_file env c
      \<Longrightarrow> w_is_dir (cr_world env) c \<Longrightarrow> sub c \<noteq> None"
  shows "crawl_entry env m root sub entry (Some s) \<noteq> None"
proof -
  obtain visited files where s: "s = (visited, files)" by (cases s)
  show ?thesis
  proof (cases "\<exists>e c. entry = Some e \<and> we_symlink e \<and> w_canonicalize (cr_world env) (we_path e) = Some c")
    case True
    then obtain e c where e: "entry = Some e" "we_symlink e" "w_canonicalize (cr_world env) (we_path e) = Some c" by blast
    show ?thesis using sub [OF e] unfolding s e(1) crawl_entry_link [OF w root e(3,2)] by auto
  next
    case False
    then show ?thesis by (auto simp: s crawl_entry_def split: option.splits)
  qed
qed

lemma fold_crawl_total:
  "(\<And>entry s. entry \<in> set es \<Longrightarrow> crawl_entry env m root sub entry (Some s) \<noteq> None) \<Longrightarrow>
   fold (crawl_entry env m root sub) es (Some s) \<noteq> None"
proof (induction es arbitrary: s)
  case (Cons e es)
  obtain t where "crawl_entry env m root sub e (Some s) = Some t" using Cons.prems [of e s] by fastforce
  then show ?case using Cons.IH [of t] Cons.prems by (simp del: not_None_eq)
qed simp

lemma crawl_total:
  assumes w: "canonical_world (cr_world env)"
    and deep: "\<And>c. w_is_dir (cr_world env) c \<Longrightarrow> length c \<le> bound"
    and noself: "\<And>root d. \<not> links_to env m root d root"
  shows "canonical_dir env root \<Longrightarrow> bound - length root < n \<Longrightarrow> crawl_scope_with n env m root d \<noteq> None"
proof (induction n arbitrary: root d)
  case (Suc n)
  let ?es = "cr_walk env root (max_walk_depth d) (filter_entry (cr_glob env) root m)"
  let ?sub = "\<lambda>scope. crawl_scope_with n env m scope (Some 5)"
  have "crawl_entry env m root ?sub entry (Some s) \<noteq> None" if entry: "entry \<in> set ?es" for entry s
  proof (rule crawl_entry_total [OF w Suc.prems(1)])
    fix e c assume e: "entry = Some e" "we_symlink e" "w_canonicalize (cr_world env) (we_path e) = Some c" "path_starts_with c root"
      "\<not> fst (is_excluded (cr_glob env) (drop (length root) c) m)" "\<not> cr_is_file env c" "w_is_dir (cr_world env) c"
    then have "links_to env m root (max_walk_depth d) c" using entry by (force simp: links_to_def list_ex_iff)
    then have "c \<noteq> root" using noself by blast
    then have "length root < length c" using e(4) by (auto simp: path_starts_with_iff)
    then show "?sub c \<noteq> None"
      using Suc.prems(2) deep [OF e(7)] e(3) by (intro Suc.IH) (auto simp: canonical_dir_def)
  qed
  then have "fold (crawl_entry env m root ?sub) ?es (Some ({}, [])) \<noteq> None" by (intro fold_crawl_total)
  then show ?case by simp
qed simp


lemma fold_crawl_stuck:
  "entry \<in> set es \<Longrightarrow> (\<And>visited files. root \<notin> visited \<Longrightarrow> crawl_entry env m root sub entry (Some (visited, files)) = None) \<Longrightarrow>
   (\<And>entry visited files visited' files'. crawl_entry env m root sub entry (Some (visited, files)) = Some (visited', files')
      \<Longrightarrow> root \<notin> visited \<Longrightarrow> root \<notin> visited') \<Longrightarrow>
   root \<notin> visited \<Longrightarrow> fold (crawl_entry env m root sub) es (Some (visited, files)) = None"
proof (induction es arbitrary: visited files)
  case (Cons x es)
  show ?case
  proof (cases "crawl_entry env m root sub x (Some (visited, files))")
    case (Some t)
    obtain v f where t: "t = (v, f)" by (cases t)
    have "x \<noteq> entry" using Some Cons.prems(2,4) by auto
    moreover have "root \<notin> v" using Cons.prems(3,4) Some t by blast
    ultimately show ?thesis using Cons.IH [of v f] Cons.prems Some t by auto
  qed simp
qed simp

lemma crawl_entry_visited:
  assumes w: "canonical_world (cr_world env)" and root: "canonical_dir env root" and sub: "sub root = None"
    and r: "crawl_entry env m root sub entry (Some (visited, files)) = Some (visited', files')" and v: "root \<notin> visited"
  shows "root \<notin> visited'"
proof (cases "\<exists>e c. entry = Some e \<and> we_symlink e \<and> w_canonicalize (cr_world env) (we_path e) = Some c")
  case True
  then obtain e c where e: "entry = Some e" "we_symlink e" "w_canonicalize (cr_world env) (we_path e) = Some c" by blast
  show ?thesis using r v sub unfolding e(1) crawl_entry_link [OF w root e(3,2)] by (auto split: if_splits)
next
  case False
  then show ?thesis using r v by (auto simp: crawl_entry_def split: option.splits if_splits)
qed

text \<open>
  A directory that holds a link to itself is crawled forever: the set of link targets already followed belongs to one
  call, and the call for the target starts over with an empty one, so no amount of recursion brings a result.
\<close>

theorem self_link_never_ends:
  assumes "canonical_world (cr_world env)" "canonical_dir env root"
    and "links_to env m root (max_walk_depth d) root" "links_to env m root 5 root"
  shows "crawl_scope_with n env m root d = None"
proof -
  have "\<forall>d. links_to env m root (max_walk_depth d) root \<longrightarrow> crawl_scope_with n env m root d = None"
  proof (induction n)
    case (Suc n)
    let ?sub = "\<lambda>scope. crawl_scope_with n env m scope (Some 5)"
    have sub: "?sub root = None" using Suc.IH assms(4) by (simp add: max_walk_depth_def)
    show ?case
    proof (intro allI impI)
      fix d assume l: "links_to env m root (max_walk_depth d) root"
      let ?es = "cr_walk env root (max_walk_depth d) (filter_entry (cr_glob env) root m)"
      obtain e where e: "Some e \<in> set ?es" "we_symlink e" "w_canonicalize (cr_world env) (we_path e) = Some root"
        using l by (auto simp: links_to_def list_ex_iff split: option.splits)
      have "crawl_entry env m root ?sub (Some e) (Some (visited, files)) = None" if "root \<notin> visited" for visited files
        using that l sub unfolding crawl_entry_link [OF assms(1,2) e(3,2)] by (simp add: links_to_def path_starts_with_def)
      then have "fold (crawl_entry env m root ?sub) ?es (Some ({}, [])) = None"
        by (rule fold_crawl_stuck [OF e(1)]) (use crawl_entry_visited [OF assms(1,2), where sub = ?sub, OF sub] in auto)
      then show "crawl_scope_with (Suc n) env m root d = None" by simp
    qed
  qed simp
  then show ?thesis using assms(3) by blast
qed

text \<open>A workspace \<^verbatim>\<open>/srv\<close> with one file and, in the second, a link to itself.\<close>

definition demo_env :: "bool \<Rightarrow> crawl_env" where
  "demo_env link =
     \<lparr>cr_world = demo_world\<lparr>w_canonicalize := (\<lambda>p. if p \<in> set [path_of_str ''/srv'', path_of_str ''/srv/self''] then Some (path_of_str ''/srv'') else None),
        w_is_dir := (\<lambda>p. p = path_of_str ''/srv'')\<rparr>,
      cr_glob = toy_glob,
      cr_walk = (\<lambda>root _ _.
        (if link \<and> root = path_of_str ''/srv''
         then [Some \<lparr>we_path = path_of_str ''/srv/self'', we_symlink = True, we_file = False, we_dir = False\<rparr>] else [])
        @ [Some \<lparr>we_path = root @ [Normal ''a.rs''], we_symlink = False, we_file = True, we_dir = False\<rparr>]),
      cr_is_file = (\<lambda>_. False)\<rparr>"

lemma demo_env_facts:
  "canonical_world (cr_world (demo_env link))" "walks_below (cr_walk (demo_env link))" "canonical_dir (demo_env link) (path_of_str ''/srv'')"
  "w_is_dir (cr_world (demo_env link)) c \<Longrightarrow> length c \<le> 2"
proof -
  have srv: "path_of_str ''/srv'' = [RootDir, Normal ''srv'']" "path_of_str ''/srv/self'' = [RootDir, Normal ''srv'', Normal ''self'']"
    by code_simp+
  have again: "path_of_str (path_str [RootDir, Normal ''srv'']) = [RootDir, Normal ''srv'']" by code_simp
  show "canonical_world (cr_world (demo_env link))"
    using again by (auto simp: canonical_world_def demo_env_def demo_world_def srv is_relative_def split: if_splits)
  show "walks_below (cr_walk (demo_env link))"
    by (auto simp: walks_below_def demo_env_def path_starts_with_def srv)
  show "canonical_dir (demo_env link) (path_of_str ''/srv'')" by (auto simp: canonical_dir_def demo_env_def)
  show "w_is_dir (cr_world (demo_env link)) c \<Longrightarrow> length c \<le> 2" by (simp add: demo_env_def srv)
qed



theorem self_link_never_ends_witness:
  "list_all (\<lambda>n. crawl_scope_with n (demo_env True) empty_matcher (path_of_str ''/srv'') None = None) [0 ..< 100]"
proof -
  have "links_to (demo_env True) empty_matcher (path_of_str ''/srv'') (max_walk_depth None) (path_of_str ''/srv'')"
    "links_to (demo_env True) empty_matcher (path_of_str ''/srv'') 5 (path_of_str ''/srv'')"
    by code_simp+
  then show ?thesis
    using self_link_never_ends [OF demo_env_facts(1) demo_env_facts(3), where d = None and m = empty_matcher] by (simp add: list_all_iff)
qed

section \<open>Plans\<close>

definition watchable :: "walk_entry option list \<Rightarrow> path list" where
  "watchable es = map we_path (filter (\<lambda>e. \<not> we_symlink e \<and> we_dir e) (map the (filter (\<lambda>e. e \<noteq> None) es)))"

lemma plan_loop_exact:
  "length dirs \<le> cap \<Longrightarrow> plan_loop cap es dirs =
     (if length (dirs @ watchable es) \<le> cap then \<lparr>wp_dirs = dirs @ watchable es, wp_capped = False\<rparr>
      else \<lparr>wp_dirs = [], wp_capped = True\<rparr>)"
  by (induction cap es dirs rule: plan_loop.induct) (auto simp: watchable_def)

lemma plan_within_cap: "length (wp_dirs (plan_watch_dirs_from env r mr m d cap)) \<le> cap"
  by (auto simp: plan_watch_dirs_from_def plan_loop_exact split: option.splits)

end
