(* ===== verification/Git_Watcher.thy ===== *)
theory Git_Watcher
  imports Crawler
begin

text \<open>
  The file watcher of \<^verbatim>\<open>crates/mesh-core/src/watcher.rs\<close> and its Git gate, \<^verbatim>\<open>watcher/git.rs\<close>: events are classified, a gate holds
  the paths back while a Git operation rewrites the tree, and reloads are scheduled on a pool that coalesces them. Times are
  milliseconds; the file system, the process table and the ignore rules of a library are parameters. The scheduler is a step
  relation over the interleavings of watcher threads and reload jobs.
\<close>

section \<open>Git directories\<close>

record git_dir =
  gd_git_dir :: path
  gd_common_dir :: path
  gd_head_marker :: path

datatype entry_kind = EntryDir | EntryFile | EntryOther

record git_fs =
  fs_entry :: "path \<Rightarrow> entry_kind option"
  fs_read :: "path \<Rightarrow> string option"
  fs_canonical :: "path \<Rightarrow> path option"
  fs_is_dir :: "path \<Rightarrow> bool"

fun ancestors :: "nat \<Rightarrow> path \<Rightarrow> path list" where
  "ancestors 0 p = []"
| "ancestors (Suc n) p = p # (case path_parent p of Some q \<Rightarrow> ancestors n q | None \<Rightarrow> [])"

definition git_pointer :: "string \<Rightarrow> string option" where
  "git_pointer body =
     (case find (\<lambda>l. strip_prefix ''gitdir:'' (trim l) \<noteq> None) (str_lines body) of
        Some l \<Rightarrow> map_option trim (strip_prefix ''gitdir:'' (trim l))
      | None \<Rightarrow> None)"

definition common_dir_of :: "git_fs \<Rightarrow> path \<Rightarrow> path" where
  "common_dir_of fs dir =
     (case map_option trim (fs_read fs (join_name dir ''commondir'')) of
        Some c \<Rightarrow> if c = [] then dir
                  else (case fs_canonical fs (path_join dir (path_of_str c)) of Some q \<Rightarrow> q | None \<Rightarrow> dir)
      | None \<Rightarrow> dir)"

definition open_git_dir :: "git_fs \<Rightarrow> path \<Rightarrow> path \<Rightarrow> git_dir option" where
  "open_git_dir fs base dir0 =
     (case fs_canonical fs dir0 of
        None \<Rightarrow> None
      | Some dir \<Rightarrow>
          if \<not> fs_is_dir fs dir then None
          else Some \<lparr>gd_git_dir = dir, gd_common_dir = common_dir_of fs dir,
                     gd_head_marker = join_name (join_name base ''.git'') ''HEAD''\<rparr>)"

fun resolve_from :: "git_fs \<Rightarrow> path list \<Rightarrow> git_dir option" where
  "resolve_from fs [] = None"
| "resolve_from fs (base # bases) =
     (let dot_git = join_name base ''.git'' in
      case fs_entry fs dot_git of
        None \<Rightarrow> resolve_from fs bases
      | Some EntryDir \<Rightarrow> open_git_dir fs base dot_git
      | Some EntryFile \<Rightarrow>
          (case Option.bind (fs_read fs dot_git) git_pointer of
             None \<Rightarrow> None
           | Some ptr \<Rightarrow> if ptr = [] then None else open_git_dir fs base (path_join base (path_of_str ptr)))
      | Some EntryOther \<Rightarrow> None)"

definition resolve_git_dir :: "git_fs \<Rightarrow> path \<Rightarrow> git_dir option" where
  "resolve_git_dir fs root = resolve_from fs (ancestors 64 root)"

definition resolve_git_dirs :: "git_fs \<Rightarrow> path list \<Rightarrow> git_dir option list \<times> git_dir list" where
  "resolve_git_dirs fs roots =
     (let per_root = map (resolve_git_dir fs) roots in
      (per_root,
       fold (\<lambda>d unique. case d of
               Some g \<Rightarrow> if list_ex (\<lambda>u. gd_git_dir u = gd_git_dir g) unique then unique else unique @ [g]
             | None \<Rightarrow> unique) per_root []))"

datatype git_event_kind = Noise | Activity | RefChange

fun first_normal :: "path \<Rightarrow> string option" where
  "first_normal [] = None"
| "first_normal (Normal n # cs) = Some n"
| "first_normal (c # cs) = first_normal cs"

definition classify_git_event :: "git_dir \<Rightarrow> path \<Rightarrow> git_event_kind option" where
  "classify_git_event d p =
     (case path_strip_prefix (gd_git_dir d) p of
        Some rel \<Rightarrow>
          Some (case first_normal rel of
                  Some n \<Rightarrow> if n = ''objects'' then Noise
                            else if n \<in> set [''HEAD'', ''refs'', ''packed-refs''] then RefChange else Activity
                | None \<Rightarrow> Activity)
      | None \<Rightarrow>
          (case path_strip_prefix (gd_common_dir d) p of
             Some rel \<Rightarrow>
               Some (case first_normal rel of
                       Some n \<Rightarrow> if n \<in> set [''refs'', ''packed-refs''] then RefChange else Noise
                     | None \<Rightarrow> Noise)
           | None \<Rightarrow> None))"

section \<open>Locks\<close>

definition ORPHAN_LOCK_AGE :: nat where
  "ORPHAN_LOCK_AGE = 30000"

definition PROCESS_RECHECK :: nat where
  "PROCESS_RECHECK = 10000"

definition MAX_HOLD :: nat where
  "MAX_HOLD = 60000"

record lock_tracker =
  lt_orphan :: "nat option"
  lt_last_check :: "nat option"

text \<open>The tracker's answer and its next state; the process table is asked through \<^verbatim>\<open>git_running\<close> only where the code asks it.\<close>

definition lock_is_live ::
  "nat option \<Rightarrow> nat \<Rightarrow> nat \<Rightarrow> bool option \<Rightarrow> lock_tracker \<Rightarrow> bool \<times> lock_tracker" where
  "lock_is_live lock_mtime now_wall now git_running lt =
     (case lock_mtime of
        None \<Rightarrow> (False, \<lparr>lt_orphan = None, lt_last_check = None\<rparr>)
      | Some mtime \<Rightarrow>
          if lt_orphan lt = Some mtime then (False, lt)
          else if now_wall - mtime < ORPHAN_LOCK_AGE then (True, lt)
          else if (case lt_last_check lt of Some t \<Rightarrow> now - t < PROCESS_RECHECK | None \<Rightarrow> False) then (True, lt)
          else
            let lt = lt\<lparr>lt_last_check := Some now\<rparr> in
            if git_running = Some False then (False, lt\<lparr>lt_orphan := Some mtime\<rparr>) else (True, lt))"

record dir_probe =
  dp_lock_mtime :: "nat option"
  dp_sequence :: bool
  dp_head :: "string option"

text \<open>The three probes of one directory; \<^verbatim>\<open>mtime\<close> is None where there is no such file.\<close>

definition probe :: "(path \<Rightarrow> nat option) \<Rightarrow> git_fs \<Rightarrow> git_dir \<Rightarrow> dir_probe" where
  "probe mtime fs d =
     \<lparr>dp_lock_mtime = mtime (join_name (gd_git_dir d) ''index.lock''),
      dp_sequence = (fs_is_dir fs (join_name (gd_git_dir d) ''rebase-merge'') \<or> fs_is_dir fs (join_name (gd_git_dir d) ''rebase-apply'')),
      dp_head = fs_read fs (join_name (gd_git_dir d) ''HEAD'')\<rparr>"

section \<open>The gate\<close>

record dir_observation =
  ob_busy :: bool
  ob_head :: "string option"

fun observe :: "(git_dir \<Rightarrow> dir_probe) \<Rightarrow> nat \<Rightarrow> nat \<Rightarrow> bool option \<Rightarrow> git_dir list \<Rightarrow> lock_tracker list
  \<Rightarrow> dir_observation list \<times> lock_tracker list" where
  "observe prb now_wall now git_running (d # ds) (t # ts) =
     (let p = prb d; (live, t') = lock_is_live (dp_lock_mtime p) now_wall now git_running t;
          (obs, ts') = observe prb now_wall now git_running ds ts in
      (\<lparr>ob_busy = (live \<or> dp_sequence p), ob_head = dp_head p\<rparr> # obs, t' # ts'))"
| "observe prb now_wall now git_running _ ts = ([], ts)"

datatype gate_action =
  Pass "path list"
| Held bool
| Flush "path list" bool

record hold =
  ho_started :: nat
  ho_last_activity :: nat
  ho_paths :: "path list"
  ho_ref_dirty :: "bool list"

record git_gate =
  gg_dirs :: "git_dir list"
  gg_last_head :: "string option list"
  gg_hold :: "hold option"
  gg_settle :: nat

record step_input =
  si_paths :: "path list"
  si_active_dirs :: "nat list"
  si_ref_dirs :: "nat list"

definition gate_new :: "git_dir list \<Rightarrow> string option list \<Rightarrow> nat \<Rightarrow> git_gate" where
  "gate_new dirs initial settle =
     \<lparr>gg_dirs = dirs,
      gg_last_head = take (length dirs) (initial @ replicate (length dirs) None),
      gg_hold = None, gg_settle = settle\<rparr>"

definition is_holding :: "git_gate \<Rightarrow> bool" where
  "is_holding g \<longleftrightarrow> gg_hold g \<noteq> None"

text \<open>The flags of the loop over the observations: heads, dirty refs, whether anything is busy, whether anything happened.\<close>

definition observe_dir ::
  "nat \<times> dir_observation \<Rightarrow> string option list \<times> bool list \<times> bool \<times> bool \<Rightarrow> string option list \<times> bool list \<times> bool \<times> bool"
where
  "observe_dir = (\<lambda>(i, ob) (heads, dirty, any_busy, activity).
     let any_busy = (any_busy \<or> ob_busy ob) in
     if i < length heads \<and> heads ! i \<noteq> ob_head ob
     then (heads[i := ob_head ob], dirty[i := True], any_busy, True)
     else (heads, dirty, any_busy, activity))"

definition mark_dirs :: "nat list \<Rightarrow> bool list \<Rightarrow> bool list" where
  "mark_dirs ixs dirty = fold (\<lambda>i d. d[i := True]) ixs dirty"

definition observe_all ::
  "git_gate \<Rightarrow> step_input \<Rightarrow> dir_observation list \<Rightarrow> string option list \<times> bool list \<times> bool \<times> bool" where
  "observe_all g inp obs =
     (let n = length (gg_dirs g);
          (heads, dirty, any_busy, activity) =
            fold observe_dir (enumerate 0 (take n obs))
              (gg_last_head g, mark_dirs (si_ref_dirs inp) (replicate n False), False, si_active_dirs inp \<noteq> []) in
      (heads, dirty, any_busy, activity \<or> any_busy \<or> list_ex (\<lambda>d. d) dirty))"

definition head_markers :: "git_dir list \<Rightarrow> bool list \<Rightarrow> path list" where
  "head_markers dirs dirty = map (\<lambda>(d, _). gd_head_marker d) (filter (\<lambda>(_, b). b) (zip dirs dirty))"

definition merge_dirty :: "bool list \<Rightarrow> bool list \<Rightarrow> bool list" where
  "merge_dirty slots dirty = map2 (\<lambda>a b. a \<or> b) slots dirty @ drop (length dirty) slots"

definition gate_step :: "nat \<Rightarrow> step_input \<Rightarrow> dir_observation list \<Rightarrow> git_gate \<Rightarrow> gate_action \<times> git_gate" where
  "gate_step now inp obs g0 =
     (let (heads, dirty, any_busy, activity) = observe_all g0 inp obs;
          g = g0\<lparr>gg_last_head := heads\<rparr> in
      case gg_hold g of
        None \<Rightarrow>
          if \<not> activity then (Pass (si_paths inp), g)
          else (Held True,
                g\<lparr>gg_hold := Some \<lparr>ho_started = now, ho_last_activity = now, ho_paths = si_paths inp, ho_ref_dirty = dirty\<rparr>\<rparr>)
      | Some h0 \<Rightarrow>
          let h = h0\<lparr>ho_last_activity := (if activity \<or> si_paths inp \<noteq> [] then now else ho_last_activity h0),
                     ho_paths := ho_paths h0 @ si_paths inp,
                     ho_ref_dirty := merge_dirty (ho_ref_dirty h0) dirty\<rparr>;
              settled = (\<not> any_busy \<and> now - ho_last_activity h \<ge> gg_settle g);
              timed_out = (now - ho_started h \<ge> MAX_HOLD) in
          if \<not> settled \<and> \<not> timed_out then (Held False, g\<lparr>gg_hold := Some h\<rparr>)
          else (Flush (ho_paths h @ head_markers (gg_dirs g) (ho_ref_dirty h)) (timed_out \<and> \<not> settled),
                g\<lparr>gg_hold := None\<rparr>))"

section \<open>The watcher loop\<close>

text \<open>Paths that matter for the index.\<close>

definition SOURCE_EXTENSIONS :: "string list" where
  "SOURCE_EXTENSIONS =
     [''rs'', ''go'', ''java'', ''ts'', ''tsx'', ''mts'', ''cts'', ''js'', ''vue'', ''svelte'', ''astro'', ''jsx'', ''mjs'', ''cjs'',
      ''py'', ''kt'', ''kts'', ''cs'', ''rb'', ''rake'', ''php'', ''phtml'', ''swift'', ''scala'', ''sc'', ''proto'', ''yaml'',
      ''yml'', ''properties'', ''md'']"

fun in_git_verdict :: "bool \<Rightarrow> path \<Rightarrow> bool option" where
  "in_git_verdict in_git [] = None"
| "in_git_verdict in_git (c # cs) =
     (if in_git then Some (c = Normal ''HEAD'' \<or> c = Normal ''refs'') else in_git_verdict (c = Normal ''.git'') cs)"

definition is_relevant_path :: "path \<Rightarrow> bool" where
  "is_relevant_path p =
     (if list_ex (\<lambda>c. c = Normal ''target'' \<or> c = Normal ''node_modules'') p then False
      else
        let name = (case file_name p of Some n \<Rightarrow> n | None \<Rightarrow> []) in
        if ends_with name ''~'' \<or> ends_with name ''.swp'' then False
        else case in_git_verdict False p of
          Some verdict \<Rightarrow> verdict
        | None \<Rightarrow>
            (starts_with name ''tsconfig'' \<or> starts_with name ''jsconfig'') \<and> ends_with name ''.json''
            \<or> name = ''package.json''
            \<or> (case extension p of Some e \<Rightarrow> e \<in> set SOURCE_EXTENSIONS | None \<Rightarrow> False))"

definition is_relevant_dir_path :: "path \<Rightarrow> bool" where
  "is_relevant_dir_path p = (\<not> list_ex (\<lambda>c. c \<in> set (map Normal [''target'', ''node_modules'', ''.git''])) p)"

section \<open>The event filter\<close>

text \<open>Ignore rules of one root, compiled: none where a source does not parse, or where there is none.\<close>

definition root_ignore_sources :: "'g ignore_lib \<Rightarrow> path \<Rightarrow> git_dir option \<Rightarrow> path list" where
  "root_ignore_sources ig root gd =
     filter (ig_is_file ig)
       ([join_name root ''.gitignore'', join_name root ''.ignore'']
        @ (case gd of Some d \<Rightarrow> [join_name (join_name (gd_common_dir d) ''info'') ''exclude''] | None \<Rightarrow> []))"

definition compile_root_ignore :: "'g ignore_lib \<Rightarrow> path \<Rightarrow> git_dir option \<Rightarrow> 'g option" where
  "compile_root_ignore ig root gd =
     (let sources = root_ignore_sources ig root gd in
      if list_ex (\<lambda>q. \<not> ig_parses ig q) sources then None
      else if sources = [] then None
      else ig_build ig root sources)"

record 'g event_filter =
  ef_roots :: "(path \<times> 'g option \<times> git_dir option) list"
  ef_matcher :: exclude_matcher

definition event_filter_new ::
  "'g ignore_lib \<Rightarrow> path list \<Rightarrow> git_dir option list \<Rightarrow> exclude_matcher \<Rightarrow> 'g event_filter" where
  "event_filter_new ig roots git_dirs m =
     \<lparr>ef_roots = sort_key (\<lambda>(r, _, _). - int (length (path_str r)))
        (map (\<lambda>(r, g). (r, compile_root_ignore ig r g, g)) (zip roots git_dirs)),
      ef_matcher = m\<rparr>"

definition refresh_if_ignore_file :: "'g ignore_lib \<Rightarrow> path \<Rightarrow> 'g event_filter \<Rightarrow> 'g event_filter" where
  "refresh_if_ignore_file ig p ef =
     ef\<lparr>ef_roots := map (\<lambda>(root, ignore, gd).
          if p = join_name root ''.gitignore'' \<or> p = join_name root ''.ignore''
             \<or> (case gd of Some d \<Rightarrow> p = join_name (join_name (gd_common_dir d) ''info'') ''exclude'' | None \<Rightarrow> False)
          then (root, compile_root_ignore ig root gd, gd) else (root, ignore, gd)) (ef_roots ef)\<rparr>"

text \<open>The loop that looks for an ignore file between the path and the root, which could include the path again.\<close>

function nested_ignore :: "'g ignore_lib \<Rightarrow> path \<Rightarrow> path option \<Rightarrow> bool" where
  "nested_ignore ig root None = False"
| "nested_ignore ig root (Some d) =
     (if d = root \<or> \<not> path_starts_with d root then False
      else has_ignore_file ig d \<or> nested_ignore ig root (path_parent d))"
  by pat_completeness auto
termination
  by (relation "measure (\<lambda>(ig, root, d). case d of Some p \<Rightarrow> Suc (length p) | None \<Rightarrow> 0)")
    (auto simp: path_parent_def split: option.splits if_splits)

declare nested_ignore.simps [simp del]

definition filter_keeps :: "glob_lib \<Rightarrow> 'g ignore_lib \<Rightarrow> 'g event_filter \<Rightarrow> path \<Rightarrow> bool \<Rightarrow> bool" where
  "filter_keeps gl ig ef p is_dir =
     (case find (\<lambda>(r, _, _). path_starts_with p r) (ef_roots ef) of
        None \<Rightarrow> False
      | Some (root, ignore, _) \<Rightarrow>
          (case path_strip_prefix root p of
             None \<Rightarrow> False
           | Some rel \<Rightarrow>
               if rel = [] then True
               else if fst (is_excluded_with_root gl rel (Some root) (ef_matcher ef)) then False
               else (case ignore of
                       None \<Rightarrow> True
                     | Some g \<Rightarrow> if \<not> ig_matched_or_parents ig g p is_dir then True else nested_ignore ig root (path_parent p))))"

section \<open>Classification\<close>

definition find_index :: "('a \<Rightarrow> bool) \<Rightarrow> 'a list \<Rightarrow> nat option" where
  "find_index P xs = find (\<lambda>i. P (xs ! i)) [0 ..< length xs]"

definition owner_of :: "git_dir list \<Rightarrow> path \<Rightarrow> nat option" where
  "owner_of dirs p =
     (case find_index (\<lambda>d. path_starts_with p (gd_git_dir d)) dirs of
        Some i \<Rightarrow> Some i
      | None \<Rightarrow> find_index (\<lambda>d. path_starts_with p (gd_common_dir d)) dirs)"

definition keep_path :: "glob_lib \<Rightarrow> 'g ignore_lib \<Rightarrow> 'g event_filter option \<Rightarrow> path \<Rightarrow> bool" where
  "keep_path gl ig flt p =
     (if \<not> is_relevant_path p
      then (case flt of
              Some f \<Rightarrow> extension p = None \<and> is_relevant_dir_path p \<and> ig_is_dir ig p \<and> filter_keeps gl ig f p True
            | None \<Rightarrow> False)
      else (case flt of Some f \<Rightarrow> filter_keeps gl ig f p False | None \<Rightarrow> True))"

definition classify_event ::
  "glob_lib \<Rightarrow> 'g ignore_lib \<Rightarrow> git_dir list \<Rightarrow> path \<Rightarrow> step_input \<times> 'g event_filter option
   \<Rightarrow> step_input \<times> 'g event_filter option" where
  "classify_event gl ig dirs p = (\<lambda>(inp, flt).
     case owner_of dirs p of
       Some i \<Rightarrow>
         ((case classify_git_event (dirs ! i) p of
             Some RefChange \<Rightarrow> inp\<lparr>si_active_dirs := si_active_dirs inp @ [i], si_ref_dirs := si_ref_dirs inp @ [i]\<rparr>
           | Some Activity \<Rightarrow> inp\<lparr>si_active_dirs := si_active_dirs inp @ [i]\<rparr>
           | _ \<Rightarrow> inp), flt)
     | None \<Rightarrow>
         let flt = map_option (refresh_if_ignore_file ig p) flt in
         (if keep_path gl ig flt p then inp\<lparr>si_paths := si_paths inp @ [p]\<rparr> else inp, flt))"

definition no_input :: step_input where
  "no_input = \<lparr>si_paths = [], si_active_dirs = [], si_ref_dirs = []\<rparr>"

definition classify_events ::
  "glob_lib \<Rightarrow> 'g ignore_lib \<Rightarrow> git_dir list \<Rightarrow> path list \<Rightarrow> 'g event_filter option \<Rightarrow> step_input \<times> 'g event_filter option" where
  "classify_events gl ig dirs events flt =
     (let (inp, flt) = fold (classify_event gl ig dirs) events (no_input, flt) in
      (inp\<lparr>si_active_dirs := remdups_adj (si_active_dirs inp), si_ref_dirs := remdups_adj (si_ref_dirs inp)\<rparr>, flt))"

text \<open>The flags that make tools say a Git operation is in progress, shared by all watchers, with their count.\<close>

record hold_flags =
  hf_count :: nat
  hf_keys :: "nat list"

definition set_git_hold :: "nat \<Rightarrow> bool \<Rightarrow> hold_flags \<Rightarrow> hold_flags" where
  "set_git_hold key holding hf =
     (if holding
      then if key \<in> set (hf_keys hf) then hf else hf\<lparr>hf_count := hf_count hf + 1, hf_keys := key # hf_keys hf\<rparr>
      else if key \<in> set (hf_keys hf)
           then hf\<lparr>hf_count := hf_count hf - 1, hf_keys := filter (\<lambda>k. k \<noteq> key) (hf_keys hf)\<rparr> else hf)"

definition git_operation_note :: "nat \<Rightarrow> hold_flags \<Rightarrow> bool" where
  "git_operation_note key hf \<longleftrightarrow> hf_count hf \<noteq> 0 \<and> key \<in> set (hf_keys hf)"

record loop_ctx =
  lc_gate :: git_gate
  lc_key :: nat
  lc_guard :: bool
  lc_flags :: hold_flags
  lc_scheduled :: "path list list"

text \<open>Assigning the guard drops the one before it, which clears the flag.\<close>

definition set_guard :: "bool \<Rightarrow> loop_ctx \<Rightarrow> loop_ctx" where
  "set_guard new lc =
     (if lc_guard lc then lc\<lparr>lc_guard := new, lc_flags := set_git_hold (lc_key lc) False (lc_flags lc)\<rparr>
      else lc\<lparr>lc_guard := new\<rparr>)"

definition schedule :: "path list \<Rightarrow> loop_ctx \<Rightarrow> loop_ctx" where
  "schedule ps lc = lc\<lparr>lc_scheduled := lc_scheduled lc @ [ps]\<rparr>"

definition apply_input :: "nat \<Rightarrow> step_input \<Rightarrow> dir_observation list \<Rightarrow> loop_ctx \<Rightarrow> loop_ctx" where
  "apply_input now inp obs lc =
     (let idle_batch = (si_paths inp = [] \<and> si_active_dirs inp = [] \<and> si_ref_dirs inp = []) in
      if idle_batch \<and> \<not> is_holding (lc_gate lc) then lc
      else
        let (action, g) = gate_step now inp obs (lc_gate lc);
            lc = lc\<lparr>lc_gate := g\<rparr> in
        case action of
          Pass ps \<Rightarrow> if ps = [] then lc else schedule ps lc
        | Held True \<Rightarrow>
            set_guard True (lc\<lparr>lc_flags := set_git_hold (lc_key lc) True (lc_flags lc)\<rparr>)
        | Held False \<Rightarrow> lc
        | Flush ps _ \<Rightarrow>
            let lc = set_guard False lc in if ps = [] then lc else schedule ps lc)"

section \<open>What one step sees\<close>

definition gate_wf :: "git_gate \<Rightarrow> bool" where
  "gate_wf g \<longleftrightarrow> length (gg_last_head g) = length (gg_dirs g)
     \<and> (case gg_hold g of Some h \<Rightarrow> length (ho_ref_dirty h) = length (gg_dirs g) | None \<Rightarrow> True)"

text \<open>The references of a directory moved: an event says so, or its head is not the one of the step before.\<close>

definition ref_changed :: "git_gate \<Rightarrow> step_input \<Rightarrow> dir_observation list \<Rightarrow> nat \<Rightarrow> bool" where
  "ref_changed g inp obs i \<longleftrightarrow>
     i < length (gg_dirs g) \<and>
     (i \<in> set (si_ref_dirs inp) \<or> i < length obs \<and> gg_last_head g ! i \<noteq> ob_head (obs ! i))"

definition any_busy :: "git_gate \<Rightarrow> dir_observation list \<Rightarrow> bool" where
  "any_busy g obs \<longleftrightarrow> list_ex ob_busy (take (length (gg_dirs g)) obs)"

definition git_activity :: "git_gate \<Rightarrow> step_input \<Rightarrow> dir_observation list \<Rightarrow> bool" where
  "git_activity g inp obs \<longleftrightarrow> si_active_dirs inp \<noteq> [] \<or> any_busy g obs \<or> (\<exists>i. ref_changed g inp obs i)"

lemma length_mark_dirs [simp]: "length (mark_dirs ixs d) = length d"
  by (induction ixs arbitrary: d) (auto simp: mark_dirs_def)

lemma mark_dirs_nth: "i < length d \<Longrightarrow> mark_dirs ixs d ! i \<longleftrightarrow> d ! i \<or> i \<in> set ixs"
proof (induction ixs arbitrary: d)
  case (Cons x ixs)
  then show ?case by (cases "i = x") (auto simp: mark_dirs_def)
qed (simp add: mark_dirs_def)

lemma observe_dir_step:
  "observe_dir (k, ob) (hs, ds, bz, ac) =
     (if k < length hs \<and> hs ! k \<noteq> ob_head ob then (hs[k := ob_head ob], ds[k := True], bz \<or> ob_busy ob, True)
      else (hs, ds, bz \<or> ob_busy ob, ac))"
  by (auto simp: observe_dir_def Let_def)

lemma fold_observe:
  assumes "fold observe_dir (enumerate k os) (hs, ds, bz, ac) = (hs', ds', bz', ac')" "length ds = length hs"
  shows "length hs' = length hs \<and> length ds' = length hs
    \<and> (\<forall>i < length hs. hs' ! i = (if k \<le> i \<and> i < k + length os then ob_head (os ! (i - k)) else hs ! i))
    \<and> (\<forall>i < length hs. ds' ! i \<longleftrightarrow> ds ! i \<or> k \<le> i \<and> i < k + length os \<and> hs ! i \<noteq> ob_head (os ! (i - k)))
    \<and> (bz' \<longleftrightarrow> bz \<or> list_ex ob_busy os)
    \<and> (ac \<longrightarrow> ac') \<and> (ac' \<longrightarrow> ac \<or> (\<exists>i < length hs. ds' ! i))"
  using assms
proof (induction os arbitrary: k hs ds bz ac)
  case (Cons ob os)
  define c where "c \<longleftrightarrow> k < length hs \<and> hs ! k \<noteq> ob_head ob"
  define hs1 where "hs1 = (if c then hs[k := ob_head ob] else hs)"
  define ds1 where "ds1 = (if c then ds[k := True] else ds)"
  have step: "observe_dir (k, ob) (hs, ds, bz, ac) = (hs1, ds1, bz \<or> ob_busy ob, ac \<or> c)"
    by (auto simp: observe_dir_step hs1_def ds1_def c_def)
  have "fold observe_dir (enumerate (Suc k) os) (hs1, ds1, bz \<or> ob_busy ob, ac \<or> c) = (hs', ds', bz', ac')"
    using Cons.prems(1) by (simp add: step)
  moreover have "length ds1 = length hs1" using Cons.prems(2) by (simp add: hs1_def ds1_def)
  ultimately have IH: "length hs' = length hs1 \<and> length ds' = length hs1
    \<and> (\<forall>i < length hs1. hs' ! i = (if Suc k \<le> i \<and> i < Suc k + length os then ob_head (os ! (i - Suc k)) else hs1 ! i))
    \<and> (\<forall>i < length hs1. ds' ! i \<longleftrightarrow> ds1 ! i \<or> Suc k \<le> i \<and> i < Suc k + length os \<and> hs1 ! i \<noteq> ob_head (os ! (i - Suc k)))
    \<and> (bz' \<longleftrightarrow> (bz \<or> ob_busy ob) \<or> list_ex ob_busy os)
    \<and> (ac \<or> c \<longrightarrow> ac') \<and> (ac' \<longrightarrow> (ac \<or> c) \<or> (\<exists>i < length hs1. ds' ! i))"
    by (rule Cons.IH)
  have len: "length hs1 = length hs" by (simp add: hs1_def)
  have other: "hs1 ! i = hs ! i" "ds1 ! i = ds ! i" if "i \<noteq> k" for i using that by (auto simp: hs1_def ds1_def)
  have here: "hs1 ! k = ob_head ob" "ds1 ! k \<longleftrightarrow> ds ! k \<or> hs ! k \<noteq> ob_head ob" if "k < length hs"
    using that Cons.prems(2) by (auto simp: hs1_def ds1_def c_def)
  have mark: "ds' ! k" "k < length hs" if c
    using that IH len here by (auto simp: c_def)
  show ?case
  proof (intro conjI allI impI)
    fix i assume i: "i < length hs"
    show "hs' ! i = (if k \<le> i \<and> i < k + length (ob # os) then ob_head ((ob # os) ! (i - k)) else hs ! i)"
      using IH i len other [of i] here by (cases "i = k") (auto simp: nth_Cons' Suc_le_eq)
    show "ds' ! i \<longleftrightarrow> ds ! i \<or> k \<le> i \<and> i < k + length (ob # os) \<and> hs ! i \<noteq> ob_head ((ob # os) ! (i - k))"
      using IH i len other [of i] here by (cases "i = k") (auto simp: nth_Cons' Suc_le_eq)
  next
    assume "ac'"
    then show "ac \<or> (\<exists>i < length hs. ds' ! i)" using IH len mark by (cases c) auto
  qed (use IH len in auto)
qed auto

lemma observe_all_exact:
  assumes wf: "gate_wf g" and o: "observe_all g inp obs = (hs, ds, bz, ac)"
  shows "length hs = length (gg_dirs g)" "length ds = length (gg_dirs g)"
    and "i < length (gg_dirs g) \<Longrightarrow> ds ! i \<longleftrightarrow> ref_changed g inp obs i"
    and "bz \<longleftrightarrow> any_busy g obs" "ac \<longleftrightarrow> git_activity g inp obs"
proof -
  define n where "n = length (gg_dirs g)"
  let ?ds0 = "mark_dirs (si_ref_dirs inp) (replicate n False)"
  have len: "length (gg_last_head g) = n" using wf by (simp add: gate_wf_def n_def)
  obtain hs' ds' bz' ac' where f:
    "fold observe_dir (enumerate 0 (take n obs)) (gg_last_head g, ?ds0, False, si_active_dirs inp \<noteq> []) = (hs', ds', bz', ac')"
    by (metis prod_cases4)
  have out: "hs = hs'" "ds = ds'" "bz = bz'" "ac \<longleftrightarrow> ac' \<or> bz' \<or> list_ex (\<lambda>d. d) ds'"
    using o f by (auto simp: observe_all_def Let_def n_def)
  note F = fold_observe [OF f, unfolded len, simplified]
  show "length hs = length (gg_dirs g)" "length ds = length (gg_dirs g)" using F out by (auto simp: n_def)
  have ref: "ds ! i \<longleftrightarrow> ref_changed g inp obs i" if "i < length (gg_dirs g)" for i
    using F out that by (auto simp: ref_changed_def n_def mark_dirs_nth)
  show "i < length (gg_dirs g) \<Longrightarrow> ds ! i \<longleftrightarrow> ref_changed g inp obs i" by (rule ref)
  show bz: "bz \<longleftrightarrow> any_busy g obs" using F out by (auto simp: any_busy_def n_def)
  have ex: "list_ex (\<lambda>d. d) ds \<longleftrightarrow> (\<exists>i < length (gg_dirs g). ds ! i)"
    using F out(2) by (simp add: list_ex_length n_def)
  have inside: "ref_changed g inp obs i \<Longrightarrow> i < length (gg_dirs g)" for i by (simp add: ref_changed_def)
  have "list_ex (\<lambda>d. d) ds \<longleftrightarrow> (\<exists>i. ref_changed g inp obs i)"
    unfolding ex using ref inside by blast
  moreover have "ac' \<longleftrightarrow> si_active_dirs inp \<noteq> [] \<or> ac' \<and> list_ex (\<lambda>d. d) ds"
    using F out(2) ex by (auto simp: n_def)
  ultimately show "ac \<longleftrightarrow> git_activity g inp obs" using out bz by (auto simp: git_activity_def)
qed

section \<open>Runs of the gate\<close>

type_synonym gate_input = "nat \<times> step_input \<times> dir_observation list"

fun gate_run :: "gate_input list \<Rightarrow> git_gate \<Rightarrow> gate_action list \<times> git_gate" where
  "gate_run [] g = ([], g)"
| "gate_run ((now, inp, obs) # ins) g =
     (let (a, g1) = gate_step now inp obs g; (as, g2) = gate_run ins g1 in (a # as, g2))"

fun released :: "gate_action \<Rightarrow> path list" where
  "released (Pass ps) = ps"
| "released (Held _) = []"
| "released (Flush ps _) = ps"

fun is_held :: "gate_action \<Rightarrow> bool" where
  "is_held (Held _) = True"
| "is_held _ = False"

definition held_paths :: "git_gate \<Rightarrow> path list" where
  "held_paths g = (case gg_hold g of Some h \<Rightarrow> ho_paths h | None \<Rightarrow> [])"

text \<open>The paths a batch brings that are not the marker a changed head stands for.\<close>

definition off_marker :: "git_dir list \<Rightarrow> path list \<Rightarrow> path list" where
  "off_marker dirs = filter (\<lambda>p. p \<notin> gd_head_marker ` set dirs)"

lemma off_marker_simps [simp]:
  "off_marker dirs [] = []" "off_marker dirs (xs @ ys) = off_marker dirs xs @ off_marker dirs ys"
  by (simp_all add: off_marker_def)

lemma off_marker_heads [simp]: "off_marker dirs (head_markers dirs ds) = []"
  by (auto simp: off_marker_def head_markers_def filter_empty_conv dest: set_zip_leftD)

lemma gate_run_Cons:
  "gate_step now inp obs g = (a, g1) \<Longrightarrow>
   gate_run ((now, inp, obs) # ins) g = (a # fst (gate_run ins g1), snd (gate_run ins g1))"
  by (simp add: Let_def split_def)

lemma gate_step_frame:
  "gate_step now inp obs g = (a, g') \<Longrightarrow> gg_dirs g' = gg_dirs g \<and> gg_settle g' = gg_settle g"
  by (auto simp: gate_step_def Let_def split: prod.splits option.splits if_splits)

lemma gate_step_paths:
  "gate_step now inp obs g = (a, g') \<Longrightarrow>
   off_marker (gg_dirs g) (released a @ held_paths g') = off_marker (gg_dirs g) (held_paths g @ si_paths inp)"
  by (auto simp: gate_step_def Let_def held_paths_def split: prod.splits option.splits if_splits)

lemma gate_step_wf:
  assumes "gate_wf g" "gate_step now inp obs g = (a, g')"
  shows "gate_wf g'"
proof -
  obtain hs ds bz ac where o: "observe_all g inp obs = (hs, ds, bz, ac)" by (metis prod_cases4)
  have "length hs = length (gg_dirs g)" "length ds = length (gg_dirs g)" by (rule observe_all_exact [OF assms(1) o])+
  then show ?thesis using assms o
    by (auto simp: gate_step_def gate_wf_def merge_dirty_def Let_def split: option.splits if_splits)
qed

text \<open>What a step does, over what it sees.\<close>

lemma head_markers_mem:
  "length ds = length dirs \<Longrightarrow> i < length dirs \<Longrightarrow> ds ! i \<Longrightarrow> gd_head_marker (dirs ! i) \<in> set (head_markers dirs ds)"
  by (force simp: head_markers_def set_zip)

lemma merge_dirty_nth:
  "length a = length b \<Longrightarrow> i < length a \<Longrightarrow> merge_dirty a b ! i \<longleftrightarrow> a ! i \<or> b ! i"
  by (simp add: merge_dirty_def nth_append)

lemma gate_step_idle:
  assumes "gate_wf g" "gate_step now inp obs g = (a, g')" "gg_hold g = None"
  shows "if git_activity g inp obs
    then a = Held True \<and> (\<exists>h. gg_hold g' = Some h \<and> ho_started h = now \<and> ho_last_activity h = now \<and> ho_paths h = si_paths inp
           \<and> (\<forall>i < length (gg_dirs g). ho_ref_dirty h ! i \<longleftrightarrow> ref_changed g inp obs i))
    else a = Pass (si_paths inp) \<and> gg_hold g' = None"
proof -
  obtain hs ds bz ac where o: "observe_all g inp obs = (hs, ds, bz, ac)" by (metis prod_cases4)
  show ?thesis using assms(2,3) o observe_all_exact(3,5) [OF assms(1) o]
    by (auto simp: gate_step_def Let_def)
qed

lemma gate_step_holding:
  assumes "gate_wf g" "gate_step now inp obs g = (a, g')" "gg_hold g = Some h"
  obtains h' where "ho_started h' = ho_started h" "ho_paths h' = ho_paths h @ si_paths inp"
    "ho_last_activity h' = (if git_activity g inp obs \<or> si_paths inp \<noteq> [] then now else ho_last_activity h)"
    "length (ho_ref_dirty h') = length (gg_dirs g)"
    "\<And>i. i < length (gg_dirs g) \<Longrightarrow> ho_ref_dirty h' ! i \<longleftrightarrow> ho_ref_dirty h ! i \<or> ref_changed g inp obs i"
    "(if \<not> (\<not> any_busy g obs \<and> now - ho_last_activity h' \<ge> gg_settle g) \<and> \<not> now - ho_started h \<ge> MAX_HOLD
      then a = Held False \<and> gg_hold g' = Some h'
      else a = Flush (ho_paths h' @ head_markers (gg_dirs g) (ho_ref_dirty h'))
             (\<not> (\<not> any_busy g obs \<and> now - ho_last_activity h' \<ge> gg_settle g)) \<and> gg_hold g' = None)"
proof -
  obtain hs ds bz ac where o: "observe_all g inp obs = (hs, ds, bz, ac)" by (metis prod_cases4)
  have len: "length (ho_ref_dirty h) = length (gg_dirs g)" using assms(1,3) by (simp add: gate_wf_def)
  note O = observe_all_exact [OF assms(1) o]
  show ?thesis
    by (rule that [of "h\<lparr>ho_last_activity := (if ac \<or> si_paths inp \<noteq> [] then now else ho_last_activity h),
          ho_paths := ho_paths h @ si_paths inp, ho_ref_dirty := merge_dirty (ho_ref_dirty h) ds\<rparr>"])
      (use assms(2,3) o O len in \<open>auto simp: gate_step_def Let_def merge_dirty_nth merge_dirty_def\<close>)
qed

lemma gate_step_still_held:
  assumes "gate_wf g" "gate_step now inp obs g = (a, g')" "gg_hold g = Some h" "is_held a"
  shows "\<exists>h'. gg_hold g' = Some h' \<and> ho_started h' = ho_started h
    \<and> ho_last_activity h' = (if git_activity g inp obs \<or> si_paths inp \<noteq> [] then now else ho_last_activity h)"
  by (rule gate_step_holding [OF assms(1-3)]) (use assms(4) in \<open>force split: if_splits\<close>)

lemma gate_step_quiet_flush:
  assumes "gate_wf g" "gate_step now inp obs g = (Flush ps False, g')" "gg_hold g = Some h"
  shows "\<not> any_busy g obs
    \<and> gg_settle g \<le> now - (if git_activity g inp obs \<or> si_paths inp \<noteq> [] then now else ho_last_activity h)"
  by (rule gate_step_holding [OF assms]) (auto split: if_splits)

section \<open>Releases\<close>

definition first_release :: "gate_action list \<Rightarrow> gate_action option" where
  "first_release as = find (\<lambda>a. \<not> is_held a) as"

text \<open>A directory marked in the hold is in the next release, which comes once the hold is old enough.\<close>

lemma marked_is_released:
  assumes "gate_wf g" "gg_hold g = Some h" "i < length (gg_dirs g)" "ho_ref_dirty h ! i"
    and "list_ex (\<lambda>x. fst x \<ge> ho_started h + MAX_HOLD) ins"
  shows "\<exists>ps t. first_release (fst (gate_run ins g)) = Some (Flush ps t) \<and> gd_head_marker (gg_dirs g ! i) \<in> set ps"
  using assms
proof (induction ins arbitrary: g h)
  case (Cons x ins)
  obtain now inp obs where x: "x = (now, inp, obs)" by (cases x)
  obtain a g1 where s: "gate_step now inp obs g = (a, g1)" by fastforce
  from gate_step_holding [OF Cons.prems(1) s Cons.prems(2)] obtain h' where
    h': "ho_started h' = ho_started h" "length (ho_ref_dirty h') = length (gg_dirs g)" "ho_ref_dirty h' ! i"
    and act: "if \<not> (\<not> any_busy g obs \<and> now - ho_last_activity h' \<ge> gg_settle g) \<and> \<not> now - ho_started h \<ge> MAX_HOLD
      then a = Held False \<and> gg_hold g1 = Some h'
      else a = Flush (ho_paths h' @ head_markers (gg_dirs g) (ho_ref_dirty h'))
             (\<not> (\<not> any_busy g obs \<and> now - ho_last_activity h' \<ge> gg_settle g)) \<and> gg_hold g1 = None"
    using Cons.prems(3,4) by metis
  have d: "gg_dirs g1 = gg_dirs g" using gate_step_frame [OF s] by simp
  show ?case
  proof (cases "is_held a")
    case True
    then have held: "gg_hold g1 = Some h'" and young: "\<not> now - ho_started h \<ge> MAX_HOLD"
      using act by (auto split: if_splits)
    have "list_ex (\<lambda>x. fst x \<ge> ho_started h' + MAX_HOLD) ins"
      using Cons.prems(5) young h'(1) by (auto simp: x)
    then show ?thesis
      using Cons.IH [OF gate_step_wf [OF Cons.prems(1) s] held] Cons.prems(3) h'(3) d True
      by (simp add: x gate_run_Cons [OF s] first_release_def del: gate_run.simps)
  next
    case False
    then show ?thesis
      using act head_markers_mem [OF h'(2) Cons.prems(3) h'(3)]
      by (auto simp: x gate_run_Cons [OF s] first_release_def simp del: gate_run.simps split: if_splits)
  qed
qed simp

text \<open>
  C18: a change of the references of a repository always reaches the reload: the first release after it is a flush that carries
  the head marker of that repository, and it comes at the latest with the first step a minute after the change.
\<close>

theorem ref_change_is_flushed:
  assumes "gate_wf g" "list_all (\<lambda>h. ho_started h \<le> now) (case gg_hold g of Some h \<Rightarrow> [h] | None \<Rightarrow> [])"
    and "ref_changed g inp obs i" "list_ex (\<lambda>x. fst x \<ge> now + MAX_HOLD) ins"
  shows "\<exists>ps t. first_release (fst (gate_run ((now, inp, obs) # ins) g)) = Some (Flush ps t)
    \<and> gd_head_marker (gg_dirs g ! i) \<in> set ps"
proof -
  obtain a g1 where s: "gate_step now inp obs g = (a, g1)" by fastforce
  have i: "i < length (gg_dirs g)" and act: "git_activity g inp obs"
    using assms(3) by (auto simp: ref_changed_def git_activity_def)
  have d: "gg_dirs g1 = gg_dirs g" using gate_step_frame [OF s] by simp
  have go: ?thesis if h: "gg_hold g1 = Some h" "ho_started h \<le> now" "ho_ref_dirty h ! i" "is_held a" for h
  proof -
    obtain x where "x \<in> set ins" "fst x \<ge> now + MAX_HOLD" using assms(4) unfolding list_ex_iff by blast
    then have "list_ex (\<lambda>x. fst x \<ge> ho_started h + MAX_HOLD) ins"
      using h(2) unfolding list_ex_iff by (intro bexI [of _ x]) auto
    then show ?thesis
      using marked_is_released [OF gate_step_wf [OF assms(1) s] h(1) _ h(3)] i d h(4)
      by (simp add: gate_run_Cons [OF s] first_release_def del: gate_run.simps)
  qed
  show ?thesis
  proof (cases "gg_hold g")
    case None
    then show ?thesis using gate_step_idle [OF assms(1) s None] act assms(3) i go by auto
  next
    case (Some h)
    from gate_step_holding [OF assms(1) s Some] obtain h' where
      h': "ho_started h' = ho_started h" "length (ho_ref_dirty h') = length (gg_dirs g)" "ho_ref_dirty h' ! i"
      and act: "if \<not> (\<not> any_busy g obs \<and> now - ho_last_activity h' \<ge> gg_settle g) \<and> \<not> now - ho_started h \<ge> MAX_HOLD
        then a = Held False \<and> gg_hold g1 = Some h'
        else a = Flush (ho_paths h' @ head_markers (gg_dirs g) (ho_ref_dirty h'))
               (\<not> (\<not> any_busy g obs \<and> now - ho_last_activity h' \<ge> gg_settle g)) \<and> gg_hold g1 = None"
      using assms(3) i by metis
    show ?thesis
    proof (cases "is_held a")
      case True
      then show ?thesis using act h' assms(2) Some go by (auto split: if_splits)
    next
      case False
      then show ?thesis using act head_markers_mem [OF h'(2) i h'(3)]
        by (auto simp: gate_run_Cons [OF s] first_release_def simp del: gate_run.simps split: if_splits)
    qed
  qed
qed

theorem ref_change_is_flushed_witness:
  "\<exists>ps t. first_release (fst (gate_run [(0, no_input\<lparr>si_ref_dirs := [0]\<rparr>, []), (60000, no_input, [])]
       (gate_new [\<lparr>gd_git_dir = [Normal ''g''], gd_common_dir = [Normal ''g''], gd_head_marker = [Normal ''m'']\<rparr>] [] 300)))
     = Some (Flush ps t) \<and> [Normal ''m''] \<in> set ps"
  using ref_change_is_flushed [where g = "gate_new [\<lparr>gd_git_dir = [Normal ''g''], gd_common_dir = [Normal ''g''],
      gd_head_marker = [Normal ''m'']\<rparr>] [] 300" and now = 0 and i = 0 and inp = "no_input\<lparr>si_ref_dirs := [0]\<rparr>" and obs = "[]"
      and ins = "[(60000, no_input, [])]"]
  by (simp add: gate_wf_def gate_new_def ref_changed_def MAX_HOLD_def del: gate_run.simps)

text \<open>A release that is not a timeout comes after a quiet window.\<close>

lemma quiet_before_flush:
  assumes "gate_wf g" "gg_hold g = Some h" "t \<le> ho_last_activity h" "list_all (\<lambda>x. t \<le> fst x) (mid @ [(n, inp, obs)])"
    and "list_all is_held (butlast (fst (gate_run (mid @ [(n, inp, obs)]) g)))"
    and "last (fst (gate_run (mid @ [(n, inp, obs)]) g)) = Flush ps False"
  shows "gg_settle g \<le> n - t \<and> \<not> any_busy g obs"
  using assms
proof (induction mid arbitrary: g h)
  case Nil
  obtain a g1 where s: "gate_step n inp obs g = (a, g1)" by fastforce
  have "a = Flush ps False" using Nil.prems(6) by (simp add: s)
  then show ?case
    using gate_step_quiet_flush [OF Nil.prems(1) _ Nil.prems(2)] s Nil.prems(3,4) by (fastforce split: if_splits)
next
  case (Cons x mid)
  obtain now inp' obs' where x: "x = (now, inp', obs')" by (cases x)
  obtain a g1 where s: "gate_step now inp' obs' g = (a, g1)" by fastforce
  have ne: "fst (gate_run (mid @ [(n, inp, obs)]) g1) \<noteq> []"
    by (cases mid) (auto simp: Let_def split_def)
  have a: "is_held a" and rest: "list_all is_held (butlast (fst (gate_run (mid @ [(n, inp, obs)]) g1)))"
      "last (fst (gate_run (mid @ [(n, inp, obs)]) g1)) = Flush ps False"
    using Cons.prems(5,6) ne by (auto simp: x gate_run_Cons [OF s] simp del: gate_run.simps)
  obtain h' where h': "gg_hold g1 = Some h'"
      "ho_last_activity h' = (if git_activity g inp' obs' \<or> si_paths inp' \<noteq> [] then now else ho_last_activity h)"
    using gate_step_still_held [OF Cons.prems(1) s Cons.prems(2) a] by blast
  have "t \<le> ho_last_activity h'" using h'(2) Cons.prems(3,4) by (simp add: x)
  then have "gg_settle g1 \<le> n - t \<and> \<not> any_busy g1 obs"
    using Cons.IH [OF gate_step_wf [OF Cons.prems(1) s] h'(1) _ _ rest] Cons.prems(4) by simp
  then show ?case using gate_step_frame [OF s] by (simp add: any_busy_def)
qed



section \<open>The flag of a held workspace\<close>

text \<open>One watcher's context agrees with the shared flags: the flag is set, and guarded, exactly while the gate holds.\<close>

definition loop_wf :: "loop_ctx \<Rightarrow> bool" where
  "loop_wf lc \<longleftrightarrow> (lc_guard lc \<longleftrightarrow> is_holding (lc_gate lc))
     \<and> (lc_key lc \<in> set (hf_keys (lc_flags lc)) \<longleftrightarrow> lc_guard lc)
     \<and> distinct (hf_keys (lc_flags lc)) \<and> hf_count (lc_flags lc) = length (hf_keys (lc_flags lc))"

lemma set_git_hold_keys:
  "set (hf_keys (set_git_hold k b hf)) = (if b then insert k (set (hf_keys hf)) else set (hf_keys hf) - {k})"
  by (auto simp: set_git_hold_def)

lemma set_git_hold_count:
  assumes "distinct (hf_keys hf)" "hf_count hf = length (hf_keys hf)"
  shows "distinct (hf_keys (set_git_hold k b hf)) \<and> hf_count (set_git_hold k b hf) = length (hf_keys (set_git_hold k b hf))"
proof -
  have "length (filter (\<lambda>x. x \<noteq> k) (hf_keys hf)) = length (hf_keys hf) - 1" if "k \<in> set (hf_keys hf)"
    using assms(1) that by (simp add: distinct_remove1_removeAll [symmetric] removeAll_filter_not_eq [symmetric] length_remove1 eq_commute [of _ k])
  then show ?thesis using assms by (auto simp: set_git_hold_def)
qed

lemma gate_step_action:
  assumes "gate_step now inp obs g = (a, g')"
  shows "(a = Held True \<longrightarrow> gg_hold g = None \<and> gg_hold g' \<noteq> None) \<and> (a = Held False \<longrightarrow> gg_hold g \<noteq> None \<and> gg_hold g' \<noteq> None)
    \<and> (\<forall>ps. a = Pass ps \<longrightarrow> gg_hold g = None \<and> gg_hold g' = None)
    \<and> (\<forall>ps t. a = Flush ps t \<longrightarrow> gg_hold g \<noteq> None \<and> gg_hold g' = None)"
  using assms by (auto simp: gate_step_def Let_def split: prod.splits option.splits if_splits)

lemmas flag_simps = loop_wf_def is_holding_def set_guard_def schedule_def set_git_hold_keys

lemma apply_input_frame:
  "lc_key (apply_input now inp obs lc) = lc_key lc"
  by (auto simp: apply_input_def Let_def set_guard_def schedule_def split: prod.splits gate_action.splits bool.splits)

lemma apply_input_flags:
  assumes wf: "loop_wf lc"
  shows "loop_wf (apply_input now inp obs lc)
    \<and> set (hf_keys (lc_flags (apply_input now inp obs lc))) - {lc_key lc} = set (hf_keys (lc_flags lc)) - {lc_key lc}"
proof -
  obtain a g' where s: "gate_step now inp obs (lc_gate lc) = (a, g')" by fastforce
  note act = gate_step_action [OF s]
  have cnt: "distinct (hf_keys (set_git_hold k b (lc_flags lc)))"
    "hf_count (set_git_hold k b (lc_flags lc)) = length (hf_keys (set_git_hold k b (lc_flags lc)))" for k b
    using wf set_git_hold_count [of "lc_flags lc" k b] by (simp_all add: loop_wf_def)
  show ?thesis
  proof (cases "si_paths inp = [] \<and> si_active_dirs inp = [] \<and> si_ref_dirs inp = [] \<and> \<not> is_holding (lc_gate lc)")
    case True
    then show ?thesis using wf by (simp add: apply_input_def)
  next
    case go: False
    show ?thesis
    proof (cases a)
      case (Pass ps)
      then show ?thesis using wf act go by (auto simp: apply_input_def Let_def s flag_simps)
    next
      case (Held b)
      show ?thesis
      proof (cases b)
        case True
        have "\<not> lc_guard lc" "gg_hold g' \<noteq> None" using wf act Held True by (auto simp: loop_wf_def is_holding_def)
        moreover have "apply_input now inp obs lc
            = set_guard True (lc\<lparr>lc_gate := g', lc_flags := set_git_hold (lc_key lc) True (lc_flags lc)\<rparr>)"
          using go Held True by (auto simp: apply_input_def Let_def s)
        ultimately show ?thesis using cnt by (simp add: flag_simps)
      next
        case False
        then show ?thesis using wf act go Held by (auto simp: apply_input_def Let_def s flag_simps)
      qed
    next
      case (Flush ps t)
      have h: "lc_guard lc" "gg_hold g' = None" using wf act Flush by (auto simp: loop_wf_def is_holding_def)
      have "apply_input now inp obs lc = (if ps = [] then set_guard False (lc\<lparr>lc_gate := g'\<rparr>)
          else schedule ps (set_guard False (lc\<lparr>lc_gate := g'\<rparr>)))"
        using go Flush by (auto simp: apply_input_def Let_def s)
      then show ?thesis using h cnt by (simp add: flag_simps)
    qed
  qed
qed

lemma note_iff_holding:
  assumes "loop_wf lc"
  shows "(git_operation_note (lc_key lc) (lc_flags lc) \<longleftrightarrow> is_holding (lc_gate lc))
    \<and> \<not> git_operation_note (lc_key lc) (lc_flags (set_guard False lc))"
  using assms by (auto simp: loop_wf_def git_operation_note_def set_guard_def set_git_hold_keys)

definition watch_run :: "gate_input list \<Rightarrow> loop_ctx \<Rightarrow> loop_ctx" where
  "watch_run ins lc = fold (\<lambda>(now, inp, obs). apply_input now inp obs) ins lc"

text \<open>
  The note that a Git operation is in progress is shown exactly while this watcher's gate holds, after any run; the flags of
  other workspaces stay as they were, and stopping the watcher, which drops its guard, takes its own flag away.
\<close>

theorem note_follows_hold:
  assumes "loop_wf lc"
  shows "(git_operation_note (lc_key lc) (lc_flags (watch_run ins lc)) \<longleftrightarrow> is_holding (lc_gate (watch_run ins lc)))
    \<and> set (hf_keys (lc_flags (watch_run ins lc))) - {lc_key lc} = set (hf_keys (lc_flags lc)) - {lc_key lc}
    \<and> \<not> git_operation_note (lc_key lc) (lc_flags (set_guard False (watch_run ins lc)))"
proof -
  have run: "loop_wf (watch_run ins lc) \<and> lc_key (watch_run ins lc) = lc_key lc
    \<and> set (hf_keys (lc_flags (watch_run ins lc))) - {lc_key lc} = set (hf_keys (lc_flags lc)) - {lc_key lc}"
    using assms
  proof (induction ins arbitrary: lc)
    case (Cons x ins)
    obtain now inp obs where x: "x = (now, inp, obs)" by (cases x)
    note A = apply_input_flags [OF Cons.prems, of now inp obs] apply_input_frame [of now inp obs lc]
    show ?case using Cons.IH [of "apply_input now inp obs lc"] A by (simp add: x watch_run_def)
  qed (simp add: watch_run_def)
  then show ?thesis using note_iff_holding [of "watch_run ins lc"] by simp
qed

lemma apply_input_paths:
  "off_marker (gg_dirs (lc_gate lc)) (concat (lc_scheduled (apply_input now inp obs lc)) @ held_paths (lc_gate (apply_input now inp obs lc)))
   = off_marker (gg_dirs (lc_gate lc)) (concat (lc_scheduled lc) @ held_paths (lc_gate lc) @ si_paths inp)
   \<and> gg_dirs (lc_gate (apply_input now inp obs lc)) = gg_dirs (lc_gate lc)"
proof -
  obtain a g' where s: "gate_step now inp obs (lc_gate lc) = (a, g')" by fastforce
  have "gg_dirs g' = gg_dirs (lc_gate lc)" using gate_step_frame [OF s] by simp
  moreover have "off_marker (gg_dirs (lc_gate lc)) (released a) @ off_marker (gg_dirs (lc_gate lc)) (held_paths g')
      = off_marker (gg_dirs (lc_gate lc)) (held_paths (lc_gate lc)) @ off_marker (gg_dirs (lc_gate lc)) (si_paths inp)"
    using gate_step_paths [OF s] by simp
  ultimately show ?thesis
    by (cases a) (auto simp: apply_input_def Let_def s set_guard_def schedule_def split: bool.splits)
qed

text \<open>
  C19: the watcher neither loses nor repeats nor reorders a path of its batches: after any run, the paths scheduled for a reload
  followed by those the gate still holds are those there before followed by those the batches brought, up to the head markers.
\<close>

theorem watch_conserves_paths:
  "off_marker (gg_dirs (lc_gate lc)) (concat (lc_scheduled (watch_run ins lc)) @ held_paths (lc_gate (watch_run ins lc)))
   = off_marker (gg_dirs (lc_gate lc)) (concat (lc_scheduled lc) @ held_paths (lc_gate lc) @ concat (map (\<lambda>(_, inp, _). si_paths inp) ins))"
proof (induction ins arbitrary: lc)
  case (Cons x ins)
  obtain now inp obs where x: "x = (now, inp, obs)" by (cases x)
  let ?om = "off_marker (gg_dirs (lc_gate lc))" and ?lc = "apply_input now inp obs lc"
  note A = apply_input_paths [of lc now inp obs]
  have "?om (concat (lc_scheduled (watch_run ins ?lc)) @ held_paths (lc_gate (watch_run ins ?lc)))
      = ?om (concat (lc_scheduled ?lc) @ held_paths (lc_gate ?lc)) @ ?om (concat (map (\<lambda>(_, inp, _). si_paths inp) ins))"
    using Cons.IH [of ?lc] A by simp
  also have "\<dots> = ?om (concat (lc_scheduled lc) @ held_paths (lc_gate lc) @ si_paths inp) @ ?om (concat (map (\<lambda>(_, inp, _). si_paths inp) ins))"
    by (simp only: A)
  finally show ?case by (simp add: x watch_run_def)
qed (simp add: watch_run_def)

definition idle_ctx :: loop_ctx where
  "idle_ctx = \<lparr>lc_gate = gate_new [] [] 300, lc_key = 7, lc_guard = False, lc_flags = \<lparr>hf_count = 1, hf_keys = [9]\<rparr>,
     lc_scheduled = []\<rparr>"

theorem note_follows_hold_witness:
  "loop_wf idle_ctx
   \<and> (git_operation_note 7 (lc_flags (watch_run [(0, no_input\<lparr>si_active_dirs := [0]\<rparr>, [])] idle_ctx))
      \<longleftrightarrow> is_holding (lc_gate (watch_run [(0, no_input\<lparr>si_active_dirs := [0]\<rparr>, [])] idle_ctx)))
   \<and> set (hf_keys (lc_flags (watch_run [(0, no_input\<lparr>si_active_dirs := [0]\<rparr>, [])] idle_ctx))) - {7} = {9}"
proof -
  have "loop_wf idle_ctx" by (simp add: idle_ctx_def loop_wf_def gate_new_def is_holding_def)
  moreover have "lc_key idle_ctx = 7" "set (hf_keys (lc_flags idle_ctx)) - {7} = {9}" by (auto simp: idle_ctx_def)
  ultimately show ?thesis using note_follows_hold [of idle_ctx "[(0, no_input\<lparr>si_active_dirs := [0]\<rparr>, [])]"] by metis
qed

section \<open>Scheduling reloads\<close>

text \<open>
  The coalescing of \<^verbatim>\<open>schedule_reload\<close>, one atomic access per event. A call appends its paths under the lock, then swaps the
  flag: the call that found it clear spawns a job. A job clears the flag, takes the accumulated paths and reloads them. Callers and
  jobs interleave freely; the paths handed over so far are kept beside the state.
\<close>

record reload_sched =
  rs_pending_paths :: "path list"
  rs_reload_pending :: bool
  rs_callers :: nat
  rs_spawning :: nat
  rs_queued :: nat
  rs_started :: nat
  rs_reloads :: "path list list"
  rs_given :: "path list"

datatype sched_event = Extend "path list" | SwapFlag | SpawnJob | ClearFlag | DrainAndReload

fun sched_step :: "sched_event \<Rightarrow> reload_sched \<Rightarrow> reload_sched option" where
  "sched_step (Extend ps) s =
     Some (s\<lparr>rs_pending_paths := rs_pending_paths s @ ps, rs_given := rs_given s @ ps, rs_callers := rs_callers s + 1\<rparr>)"
| "sched_step SwapFlag s =
     (if rs_callers s = 0 then None
      else if rs_reload_pending s then Some (s\<lparr>rs_callers := rs_callers s - 1\<rparr>)
      else Some (s\<lparr>rs_callers := rs_callers s - 1, rs_reload_pending := True, rs_spawning := rs_spawning s + 1\<rparr>))"
| "sched_step SpawnJob s =
     (if rs_spawning s = 0 then None
      else Some (s\<lparr>rs_spawning := rs_spawning s - 1, rs_queued := rs_queued s + 1\<rparr>))"
| "sched_step ClearFlag s =
     (if rs_queued s = 0 then None
      else Some (s\<lparr>rs_queued := rs_queued s - 1, rs_reload_pending := False, rs_started := rs_started s + 1\<rparr>))"
| "sched_step DrainAndReload s =
     (if rs_started s = 0 then None
      else Some (s\<lparr>rs_started := rs_started s - 1, rs_reloads := rs_reloads s @ [rs_pending_paths s], rs_pending_paths := []\<rparr>))"

definition sched_init :: reload_sched where
  "sched_init = \<lparr>rs_pending_paths = [], rs_reload_pending = False, rs_callers = 0, rs_spawning = 0, rs_queued = 0,
     rs_started = 0, rs_reloads = [], rs_given = []\<rparr>"

inductive sched_reach :: "reload_sched \<Rightarrow> bool" where
  sched_reach_init: "sched_reach sched_init"
| sched_reach_step: "sched_reach s \<Longrightarrow> sched_step e s = Some s' \<Longrightarrow> sched_reach s'"

text \<open>A step of work already under way, with no new call.\<close>

inductive sched_work :: "reload_sched \<Rightarrow> reload_sched \<Rightarrow> bool" where
  sched_work_step: "sched_step e s = Some s' \<Longrightarrow> (\<forall>ps. e \<noteq> Extend ps) \<Longrightarrow> sched_work s s'"

definition sched_inv :: "reload_sched \<Rightarrow> bool" where
  "sched_inv s \<longleftrightarrow> concat (rs_reloads s) @ rs_pending_paths s = rs_given s
     \<and> (rs_reload_pending s \<longrightarrow> 0 < rs_spawning s + rs_queued s)
     \<and> (rs_pending_paths s \<noteq> [] \<longrightarrow> 0 < rs_callers s + rs_spawning s + rs_queued s + rs_started s)"

definition sched_todo :: "reload_sched \<Rightarrow> nat" where
  "sched_todo s = 4 * rs_callers s + 3 * rs_spawning s + 2 * rs_queued s + rs_started s"

lemma sched_step_inv: "sched_step e s = Some s' \<Longrightarrow> sched_inv s \<Longrightarrow> sched_inv s'"
  by (cases e) (auto simp: sched_inv_def split: if_splits)

lemma sched_reach_inv: "sched_reach s \<Longrightarrow> sched_inv s"
proof (induction rule: sched_reach.induct)
  case sched_reach_init
  then show ?case by (simp add: sched_inv_def sched_init_def)
qed (rule sched_step_inv)

lemma sched_work_todo: "sched_work s s' \<Longrightarrow> sched_todo s' < sched_todo s"
  by (induction rule: sched_work.induct) (rename_tac e s s', case_tac e, auto simp: sched_todo_def split: if_splits)

lemma sched_work_given: "sched_work s s' \<Longrightarrow> rs_given s' = rs_given s"
  by (induction rule: sched_work.induct) (rename_tac e s s', case_tac e, auto split: if_splits)

lemma sched_stuck_quiet:
  assumes "\<nexists>s'. sched_work s s'"
  shows "rs_callers s = 0 \<and> rs_spawning s = 0 \<and> rs_queued s = 0 \<and> rs_started s = 0"
proof -
  have "sched_step e s = None" if "\<forall>ps. e \<noteq> Extend ps" for e
    using assms that sched_work_step by (metis option.exhaust)
  from this [of SwapFlag] this [of SpawnJob] this [of ClearFlag] this [of DrainAndReload]
  show ?thesis by (auto split: if_splits)
qed


lemma sched_work_run:
  "fold (\<lambda>e s. Option.bind s (sched_step e)) es (Some s) = Some s' \<Longrightarrow> list_all (\<lambda>e. \<forall>ps. e \<noteq> Extend ps) es
   \<Longrightarrow> (sched_work ^^ length es) s s'"
proof (induction es arbitrary: s)
  case (Cons e es)
  have none: "fold (\<lambda>e s. Option.bind s (sched_step e)) es None = None" for es by (induction es) auto
  obtain t where t: "sched_step e s = Some t" using Cons.prems(1) none by (cases "sched_step e s") auto
  have "sched_work s t" using t Cons.prems(2) by (auto intro: sched_work_step)
  moreover have "(sched_work ^^ length es) t s'" using Cons.IH [of t] Cons.prems t by simp
  ultimately show ?case by (simp add: relpowp_commute [symmetric]) (metis relcomppI)
qed simp


end
