(* ===== verification/Watch_Plan.thy ===== *)
theory Watch_Plan
  imports Git_Watcher
begin

text \<open>
  What the watcher of \<^verbatim>\<open>crates/mesh-core/src/watcher.rs\<close> registers and drops: the directories watched at the start, those added
  when a directory appears, the targets of a Git directory, and how the event filter agrees with the decision on a single path.
\<close>

section \<open>Registration\<close>

definition MAX_WATCHED_DIRS :: nat where
  "MAX_WATCHED_DIRS = 2048"

definition plan_root :: "crawl_env \<Rightarrow> path \<Rightarrow> path \<Rightarrow> exclude_matcher \<Rightarrow> nat \<Rightarrow> watch_plan" where
  "plan_root env walk_root matcher_root m budget = plan_watch_dirs_from env walk_root matcher_root m (Some 10) budget"

datatype watch_mode = Recursive | Poll | PerDirectory

text \<open>The loop over the roots at the start: the watched set, the directories of each root, and whether the budget was exceeded.\<close>

fun plan_roots :: "crawl_env \<Rightarrow> exclude_matcher \<Rightarrow> path list \<Rightarrow> path set \<times> (path \<times> path list) list
  \<Rightarrow> bool \<times> path set \<times> (path \<times> path list) list" where
  "plan_roots env m [] (watched, per_root) = (False, watched, per_root)"
| "plan_roots env m (root # roots) (watched, per_root) =
     (let plan = plan_root env root root m (MAX_WATCHED_DIRS - card watched) in
      if wp_capped plan then (True, watched, per_root)
      else plan_roots env m roots (watched \<union> set (wp_dirs plan), per_root @ [(root, wp_dirs plan)]))"

definition initial_mode :: "crawl_env \<Rightarrow> exclude_matcher \<Rightarrow> path list \<Rightarrow> watch_mode \<times> path set" where
  "initial_mode env m roots =
     (let (capped, watched, _) = plan_roots env m roots ({}, []) in (if capped then Poll else PerDirectory, watched))"

text \<open>The directories an event adds in per-directory mode: none for a known path, a file, a path outside or a plan over budget.\<close>

definition new_dir_plan :: "crawl_env \<Rightarrow> exclude_matcher \<Rightarrow> path list \<Rightarrow> path \<Rightarrow> path set \<Rightarrow> path list" where
  "new_dir_plan env m roots p watched =
     (if p \<in> watched \<or> \<not> w_is_dir (cr_world env) p then []
      else case find (path_starts_with p) roots of
        None \<Rightarrow> []
      | Some root \<Rightarrow>
          let plan = plan_root env p root m (MAX_WATCHED_DIRS - card watched) in if wp_capped plan then [] else wp_dirs plan)"

text \<open>A batch: the watched set, and the directories newly registered, in order.\<close>

fun register_new_dirs :: "crawl_env \<Rightarrow> exclude_matcher \<Rightarrow> path list \<Rightarrow> path list \<Rightarrow> path set \<Rightarrow> path set \<times> path list" where
  "register_new_dirs env m roots [] watched = (watched, [])"
| "register_new_dirs env m roots (p # events) watched =
     (if card watched \<ge> MAX_WATCHED_DIRS then (watched, [])
      else
        let dirs = new_dir_plan env m roots p watched;
            fresh = filter (\<lambda>d. d \<notin> watched) (rev (remdups (rev dirs)));
            (watched', more) = register_new_dirs env m roots events (watched \<union> set dirs) in
        (watched', fresh @ more))"

fun collect_subdirs :: "nat \<Rightarrow> (path \<Rightarrow> path list option) \<Rightarrow> git_fs \<Rightarrow> (path \<Rightarrow> bool) \<Rightarrow> path \<Rightarrow> path list" where
  "collect_subdirs 0 read_dir fs is_symlink dir = []"
| "collect_subdirs (Suc n) read_dir fs is_symlink dir =
     (case read_dir dir of
        None \<Rightarrow> []
      | Some es \<Rightarrow> concat (map (\<lambda>p. if is_symlink p then [] else if fs_is_dir fs p then p # collect_subdirs n read_dir fs is_symlink p else []) es))"

definition git_watch_targets ::
  "(path \<Rightarrow> path list option) \<Rightarrow> git_fs \<Rightarrow> (path \<Rightarrow> bool) \<Rightarrow> git_dir \<Rightarrow> bool \<Rightarrow> (path \<times> bool) list" where
  "git_watch_targets read_dir fs is_symlink d recursive =
     (let refs = join_name (gd_common_dir d) ''refs'' in
      [(gd_git_dir d, False)]
      @ (if gd_common_dir d \<noteq> gd_git_dir d then [(gd_common_dir d, False)] else [])
      @ (if fs_is_dir fs refs
         then if recursive then [(refs, True)] else map (\<lambda>p. (p, False)) (refs # collect_subdirs 5 read_dir fs is_symlink refs)
         else []))"

section \<open>The watch budget\<close>

lemma plan_root_card:
  "finite w \<Longrightarrow> card w \<le> MAX_WATCHED_DIRS \<Longrightarrow>
   card (w \<union> set (wp_dirs (plan_root env r mr m (MAX_WATCHED_DIRS - card w)))) \<le> MAX_WATCHED_DIRS"
  using plan_within_cap [of env r mr m "Some 10" "MAX_WATCHED_DIRS - card w"]
    card_length [of "wp_dirs (plan_root env r mr m (MAX_WATCHED_DIRS - card w))"]
    card_Un_le [of w "set (wp_dirs (plan_root env r mr m (MAX_WATCHED_DIRS - card w)))"]
  by (simp add: plan_root_def)

lemma new_dir_plan_card:
  assumes "finite w" "card w \<le> MAX_WATCHED_DIRS"
  shows "card (w \<union> set (new_dir_plan env m roots p w)) \<le> MAX_WATCHED_DIRS"
  using assms(2) plan_root_card [OF assms] by (cases "find (path_starts_with p) roots") (simp_all add: new_dir_plan_def Let_def)

lemma plan_roots_bound:
  "finite w \<Longrightarrow> card w \<le> MAX_WATCHED_DIRS \<Longrightarrow> plan_roots env m roots (w, per) = (c, w', per') \<Longrightarrow>
   finite w' \<and> card w' \<le> MAX_WATCHED_DIRS"
proof (induction roots arbitrary: w per)
  case (Cons r roots)
  let ?plan = "plan_root env r r m (MAX_WATCHED_DIRS - card w)"
  show ?case
  proof (cases "wp_capped ?plan")
    case True
    then show ?thesis using Cons.prems by (simp add: Let_def)
  next
    case False
    show ?thesis
      by (rule Cons.IH [of "w \<union> set (wp_dirs ?plan)" "per @ [(r, wp_dirs ?plan)]"])
        (use Cons.prems False plan_root_card [OF Cons.prems(1,2)] in \<open>simp_all add: Let_def\<close>)
  qed
qed simp

lemma register_bound:
  "finite w \<Longrightarrow> card w \<le> MAX_WATCHED_DIRS \<Longrightarrow> register_new_dirs env m roots es w = (w', new) \<Longrightarrow>
   finite w' \<and> card w' \<le> MAX_WATCHED_DIRS \<and> distinct new \<and> set new \<inter> w = {} \<and> w' = w \<union> set new"
proof (induction es arbitrary: w w' new)
  case (Cons p es)
  let ?ds = "new_dir_plan env m roots p w"
  obtain w1 more where r: "register_new_dirs env m roots es (w \<union> set ?ds) = (w1, more)" by fastforce
  have fin: "finite (w \<union> set ?ds)" using Cons.prems(1) by simp
  note IH = Cons.IH [OF fin new_dir_plan_card [OF Cons.prems(1,2)] r]
  show ?case
  proof (cases "card w \<ge> MAX_WATCHED_DIRS")
    case True
    then show ?thesis using Cons.prems by simp
  next
    case False
    then have "w' = w1" "new = filter (\<lambda>d. d \<notin> w) (rev (remdups (rev ?ds))) @ more"
      using Cons.prems(3) r by (auto simp: Let_def)
    then show ?thesis using IH by auto
  qed
qed simp

text \<open>
  The watcher never asks the system for more than its budget of directory watches: from the plan at the start, through any
  sequence of event batches, at most 2048 directories are watched, and no directory is registered twice.
\<close>

theorem watch_budget_kept:
  assumes "(mode, w0) = initial_mode env m roots"
    and "(w, new) = fold (\<lambda>es (w, new). let (w', more) = register_new_dirs env m roots es w in (w', new @ more)) batches (w0, [])"
  shows "card w \<le> MAX_WATCHED_DIRS \<and> distinct new \<and> set new \<inter> w0 = {}"
proof -
  obtain c per where p: "plan_roots env m roots ({}, []) = (c, w0, per)"
    using assms(1) by (auto simp: initial_mode_def split: prod.splits)
  have start: "finite w0 \<and> card w0 \<le> MAX_WATCHED_DIRS" using plan_roots_bound [OF _ _ p] by simp
  let ?step = "\<lambda>es (w, new). let (w', more) = register_new_dirs env m roots es w in (w', new @ more)"
  have inv: "finite w1 \<and> card w1 \<le> MAX_WATCHED_DIRS \<and> distinct n1 \<and> set n1 \<inter> w0 = {} \<and> w1 = w0 \<union> set n1 \<Longrightarrow>
      (w2, n2) = fold ?step bs (w1, n1) \<Longrightarrow>
      finite w2 \<and> card w2 \<le> MAX_WATCHED_DIRS \<and> distinct n2 \<and> set n2 \<inter> w0 = {} \<and> w2 = w0 \<union> set n2" for bs w1 n1 w2 n2
  proof (induction bs arbitrary: w1 n1)
    case (Cons es bs)
    obtain w' more where r: "register_new_dirs env m roots es w1 = (w', more)" by fastforce
    note B = register_bound [OF _ _ r]
    show ?case
      by (rule Cons.IH [of w' "n1 @ more"]) (use B Cons.prems r in auto)
  qed simp
  have "finite w0 \<and> card w0 \<le> MAX_WATCHED_DIRS \<and> distinct ([] :: path list) \<and> set [] \<inter> w0 = {} \<and> w0 = w0 \<union> set []"
    using start by simp
  from inv [OF this assms(2)] show ?thesis by blast
qed

theorem watch_budget_kept_witness:
  "(PerDirectory, {}) = initial_mode (demo_env False) empty_matcher [path_of_str ''/srv''] \<and>
   card ({} :: path set) \<le> MAX_WATCHED_DIRS"
proof -
  have "(PerDirectory, {}) = initial_mode (demo_env False) empty_matcher [path_of_str ''/srv'']"
    by (simp add: initial_mode_def plan_root_def plan_watch_dirs_from_def demo_env_def path_strip_prefix_def path_starts_with_def)
  then show ?thesis
    using watch_budget_kept [of PerDirectory "{}" "demo_env False" empty_matcher "[path_of_str ''/srv'']" "{}" "[]" "[]"] by simp
qed

section \<open>The filter and the decision on one path\<close>

text \<open>
  Documented behaviour of the ignore library: a path is ignored through its parents only where it or a directory above it matches.
\<close>

definition parents_law :: "'g ignore_lib \<Rightarrow> bool" where
  "parents_law ig \<longleftrightarrow> (\<forall>g p d. ig_matched_or_parents ig g p d \<longrightarrow>
     ig_matched ig g p d \<or> (\<exists>q r. p = q @ r \<and> r \<noteq> [] \<and> ig_matched ig g q True))"

lemma clear_unless_nested:
  "RootDir \<notin> set rel \<Longrightarrow> \<not> nested_ignore ig root (Some (root @ rel)) \<Longrightarrow> climb_clear ig root (root @ rel)"
proof (induction rel rule: rev_induct)
  case Nil
  then show ?case by (simp add: climb_clear.simps)
next
  case (snoc c rel)
  have "path_starts_with (root @ rel @ [c]) root" by (simp add: path_starts_with_def)
  moreover have "path_parent (root @ rel @ [c]) = Some (root @ rel)"
    using snoc.prems(1) by (auto simp: path_parent_def butlast_append)
  ultimately show ?case
    using snoc by (simp add: climb_clear.simps [of ig root "root @ rel @ [c]"] nested_ignore.simps(2) [of ig root "root @ rel @ [c]"])
qed

text \<open>
  An event the filter drops is one the authoritative decision on that path excludes as well, unless the rule that ignores
  it names a directory above it: the filter never hides a change of a file that is indexed for any other reason.
\<close>

theorem dropped_events_are_excluded:
  assumes "parents_law ig" "find (\<lambda>(r, _, _). path_starts_with p r) (ef_roots ef) = Some (root, compile_root_ignore ig root gd, gd)"
    and "root_ignore_sources ig root gd = ignore_sources ig root" "p = root @ rel" "RootDir \<notin> set rel"
    and "\<not> filter_keeps gl ig ef p (ig_is_dir ig p)"
  shows "is_path_excluded gl ig root p (ef_matcher ef) = Some True
    \<or> (\<exists>g q r. compile_root_ignore ig root gd = Some g \<and> p = q @ r \<and> r \<noteq> [] \<and> ig_matched ig g q True)"
proof (cases "rel \<noteq> [] \<and> \<not> fst (is_excluded_with_root gl rel (Some root) (ef_matcher ef))")
  case False
  then show ?thesis using assms(2,4,6)
    by (auto simp: filter_keeps_def is_path_excluded_def path_strip_prefix_def path_starts_with_def)
next
  case True
  obtain g where g: "compile_root_ignore ig root gd = Some g" "ig_matched_or_parents ig g p (ig_is_dir ig p)"
      "\<not> nested_ignore ig root (path_parent p)"
    using True assms(2,4,6) by (auto simp: filter_keeps_def path_strip_prefix_def path_starts_with_def split: option.splits if_splits)
  have par: "path_parent p = Some (root @ butlast rel)"
    using True assms(4,5) by (auto simp: path_parent_def butlast_append in_set_conv_decomp dest: last_in_set)
  moreover have "RootDir \<notin> set (butlast rel)" using assms(5) by (auto dest: in_set_butlastD)
  ultimately have "climb_clear ig root (root @ butlast rel)" using clear_unless_nested g(3) by metis
  moreover have "ignore_sources ig root \<noteq> []" "\<not> list_ex (\<lambda>q. \<not> ig_parses ig q) (ignore_sources ig root)"
      "ig_build ig root (ignore_sources ig root) = Some g"
    using g(1) assms(3) by (auto simp: compile_root_ignore_def Let_def split: if_splits)
  ultimately have "is_path_excluded gl ig root p (ef_matcher ef) = Some (ig_matched ig g p (ig_is_dir ig p))"
    using True assms(4) par by (simp add: is_path_excluded_def path_strip_prefix_def path_starts_with_def Let_def)
  moreover have "ig_matched ig g p (ig_is_dir ig p) \<or> (\<exists>q r. p = q @ r \<and> r \<noteq> [] \<and> ig_matched ig g q True)"
    using assms(1) g(2) unfolding parents_law_def by blast
  ultimately show ?thesis using g(1) by auto
qed

text \<open>Ignore rules with one line, \<^verbatim>\<open>build/\<close>, in the root of \<^verbatim>\<open>/srv\<close>.\<close>

definition build_ignored :: "unit ignore_lib" where
  "build_ignored =
     \<lparr>ig_is_file = (\<lambda>p. p = path_of_str ''/srv/.gitignore''), ig_is_dir = (\<lambda>p. p = path_of_str ''/srv/build''),
      ig_parses = (\<lambda>_. True), ig_build = (\<lambda>_ _. Some ()), ig_matched = (\<lambda>_ p d. d \<and> p = path_of_str ''/srv/build''),
      ig_matched_or_parents = (\<lambda>_ p d. d \<and> p = path_of_str ''/srv/build'' \<or> length p > 3 \<and> path_starts_with p (path_of_str ''/srv/build''))\<rparr>"

definition srv_filter :: "unit event_filter" where
  "srv_filter = \<lparr>ef_roots = [(path_of_str ''/srv'', compile_root_ignore build_ignored (path_of_str ''/srv'') None, None)],
     ef_matcher = empty_matcher\<rparr>"

lemma build_parents_law: "parents_law build_ignored"
proof -
  have b: "path_of_str ''/srv/build'' = [RootDir, Normal ''srv'', Normal ''build'']" by code_simp
  show ?thesis
    unfolding parents_law_def
  proof (intro allI impI)
    fix g p d assume m: "ig_matched_or_parents build_ignored g p d"
    show "ig_matched build_ignored g p d \<or> (\<exists>q r. p = q @ r \<and> r \<noteq> [] \<and> ig_matched build_ignored g q True)"
    proof (cases "length p > 3 \<and> path_starts_with p (path_of_str ''/srv/build'')")
      case True
      then have "take 3 p = path_of_str ''/srv/build''" "drop 3 p \<noteq> []"
        by (simp_all add: b path_starts_with_def numeral_3_eq_3)
      then have "p = path_of_str ''/srv/build'' @ drop 3 p" "drop 3 p \<noteq> []" by (metis append_take_drop_id)+
      moreover have "ig_matched build_ignored g (path_of_str ''/srv/build'') True" by (simp add: build_ignored_def)
      ultimately show ?thesis by blast
    next
      case False
      then show ?thesis using m by (auto simp: build_ignored_def)
    qed
  qed
qed

theorem dropped_events_are_excluded_witness:
  "is_path_excluded toy_glob build_ignored (path_of_str ''/srv'') (path_of_str ''/srv/build'') empty_matcher = Some True
   \<or> (\<exists>g q r. compile_root_ignore build_ignored (path_of_str ''/srv'') None = Some g \<and> path_of_str ''/srv/build'' = q @ r \<and> r \<noteq> []
        \<and> ig_matched build_ignored g q True)"
proof -
  have "find (\<lambda>(r, _, _). path_starts_with (path_of_str ''/srv/build'') r) (ef_roots srv_filter)
      = Some (path_of_str ''/srv'', compile_root_ignore build_ignored (path_of_str ''/srv'') None, None)" by code_simp
  moreover have "root_ignore_sources build_ignored (path_of_str ''/srv'') None = ignore_sources build_ignored (path_of_str ''/srv'')"
    "path_of_str ''/srv/build'' = path_of_str ''/srv'' @ [Normal ''build'']"
    "\<not> filter_keeps toy_glob build_ignored srv_filter (path_of_str ''/srv/build'') (ig_is_dir build_ignored (path_of_str ''/srv/build''))"
    by code_simp+
  moreover have "ef_matcher srv_filter = empty_matcher" by (simp add: srv_filter_def)
  ultimately show ?thesis
    using dropped_events_are_excluded [OF build_parents_law, of "path_of_str ''/srv/build''" srv_filter "path_of_str ''/srv''" None
        "[Normal ''build'']" toy_glob] by simp
qed

text \<open>
  The exception is real: with the single rule \<^verbatim>\<open>build/\<close>, the filter drops the events of a file in that directory, as a full
  crawl skips it, while the decision on the path alone says the file is not excluded, so a reload of that path would index it.
\<close>

theorem ignored_directory_disagreement:
  "\<not> filter_keeps toy_glob build_ignored srv_filter (path_of_str ''/srv/build/gen.rs'') False
   \<and> is_path_excluded toy_glob build_ignored (path_of_str ''/srv'') (path_of_str ''/srv/build/gen.rs'') empty_matcher = Some False"
  by code_simp

end
