(* ===== verification/Utf8.thy ===== *)
theory Utf8
  imports Mesh_Prelude
begin

text \<open>\<^verbatim>\<open>str::from_utf8\<close> of the standard library: which byte strings are text, and that text splits at every ASCII byte.\<close>

text \<open>The ranges the bytes after a leading byte must lie in.\<close>

definition utf8_lead :: "nat \<Rightarrow> (nat \<times> nat) list option" where
  "utf8_lead b =
     (if b < 128 then Some []
      else if 194 \<le> b \<and> b \<le> 223 then Some [(128, 191)]
      else if b = 224 then Some [(160, 191), (128, 191)]
      else if b = 237 then Some [(128, 159), (128, 191)]
      else if 225 \<le> b \<and> b \<le> 239 then Some [(128, 191), (128, 191)]
      else if b = 240 then Some [(144, 191), (128, 191), (128, 191)]
      else if 241 \<le> b \<and> b \<le> 243 then Some [(128, 191), (128, 191), (128, 191)]
      else if b = 244 then Some [(128, 143), (128, 191), (128, 191)]
      else None)"

fun utf8_run :: "(nat \<times> nat) list \<Rightarrow> nat list \<Rightarrow> bool" where
  "utf8_run [] [] = True"
| "utf8_run [] (b # bs) = (case utf8_lead b of None \<Rightarrow> False | Some rs \<Rightarrow> utf8_run rs bs)"
| "utf8_run (r # rs) [] = False"
| "utf8_run ((lo, hi) # rs) (b # bs) = (lo \<le> b \<and> b \<le> hi \<and> utf8_run rs bs)"

definition from_utf8 :: "string \<Rightarrow> string option" where
  "from_utf8 bytes = (if utf8_run [] (map of_char bytes) then Some bytes else None)"

lemma utf8_Nil [simp]: "from_utf8 [] = Some []"
  by (simp add: from_utf8_def)

abbreviation is_ascii_byte :: "char \<Rightarrow> bool" where
  "is_ascii_byte c \<equiv> of_char c < (128 :: nat)"

lemma utf8_lead_ranges: "utf8_lead b = Some rs \<Longrightarrow> \<forall>(lo, hi) \<in> set rs. 128 \<le> lo"
  by (auto simp: utf8_lead_def split: if_splits)

lemma utf8_run_ascii: "b < 128 \<Longrightarrow> \<forall>(lo, hi) \<in> set rs. 128 \<le> lo \<Longrightarrow> utf8_run rs (xs @ b # ys) \<longleftrightarrow> utf8_run rs xs \<and> utf8_run [] ys"
proof (induction rs xs rule: utf8_run.induct)
  case (2 x xs)
  show ?case
  proof (cases "utf8_lead x")
    case (Some rs)
    then show ?thesis using 2 utf8_lead_ranges [OF Some] by simp
  qed simp
qed (auto simp: utf8_lead_def)

lemma utf8_split: "is_ascii_byte c \<Longrightarrow> from_utf8 (xs @ c # ys) \<noteq> None \<longleftrightarrow> from_utf8 xs \<noteq> None \<and> from_utf8 ys \<noteq> None"
  by (simp add: from_utf8_def utf8_run_ascii)

lemma utf8_ascii: "list_all is_ascii_byte xs \<Longrightarrow> from_utf8 (xs @ ys) \<noteq> None \<longleftrightarrow> from_utf8 ys \<noteq> None"
proof (induction xs)
  case (Cons c xs)
  then show ?case using utf8_split [of c "[]" "xs @ ys"] by simp
qed simp

text \<open>What follows valid text is valid exactly if the whole is.\<close>

lemma utf8_run_prefix: "utf8_run rs xs \<Longrightarrow> utf8_run rs (xs @ ys) \<longleftrightarrow> utf8_run [] ys"
  by (induction rs xs rule: utf8_run.induct) (auto split: option.splits)

lemma utf8_prefix: "from_utf8 xs \<noteq> None \<Longrightarrow> from_utf8 (xs @ ys) \<noteq> None \<longleftrightarrow> from_utf8 ys \<noteq> None"
  by (simp add: from_utf8_def utf8_run_prefix split: if_splits)

lemma utf8_cut:
  assumes "from_utf8 s \<noteq> None" "i < length s" "is_ascii_byte (s ! i)"
  shows "from_utf8 (take i s) \<noteq> None" "from_utf8 (take (Suc i) s) \<noteq> None"
  using assms utf8_split [of "s ! i" "take i s" "drop (Suc i) s"] utf8_split [of "s ! i" "take i s" "[]"]
  by (simp_all add: id_take_nth_drop [symmetric] take_Suc_conv_app_nth)

end
