(* ===== verification/File_Index.thy ===== *)
theory File_Index
  imports Graph_Edges
begin

text \<open>
  \<^verbatim>\<open>FileIndex\<close> of \<^verbatim>\<open>crates/mesh-parsers/src/languages/mod.rs\<close>: what is extracted from one file, over local node indices, its
  merge and its application to the graph, which numbers the nodes; and the facts a graph holds about a file, free of node ids.
\<close>

section \<open>Fragments\<close>

record file_index =
  fi_nodes :: "contract_node list"
  fi_dependencies :: "(nat \<times> string) list"
  fi_producers :: "(nat \<times> string) list"
  fi_consumers :: "(nat \<times> string) list"
  fi_rpc_calls :: "(nat \<times> string) list"
  fi_heuristic_topic_nodes :: "nat list"
  fi_parse_failed :: bool

definition file_index_default :: file_index where
  "file_index_default = \<lparr>fi_nodes = [], fi_dependencies = [], fi_producers = [], fi_consumers = [], fi_rpc_calls = [],
     fi_heuristic_topic_nodes = [], fi_parse_failed = False\<rparr>"

definition shift_facts :: "nat \<Rightarrow> (nat \<times> string) list \<Rightarrow> (nat \<times> string) list" where
  "shift_facts offset fs = map (\<lambda>(i, t). (i + offset, t)) fs"

definition fi_merge :: "file_index \<Rightarrow> file_index \<Rightarrow> file_index" where
  "fi_merge self other =
     (let offset = length (fi_nodes self) in
      \<lparr>fi_nodes = fi_nodes self @ fi_nodes other,
       fi_dependencies = fi_dependencies self @ shift_facts offset (fi_dependencies other),
       fi_producers = fi_producers self @ shift_facts offset (fi_producers other),
       fi_consumers = fi_consumers self @ shift_facts offset (fi_consumers other),
       fi_rpc_calls = fi_rpc_calls self @ shift_facts offset (fi_rpc_calls other),
       fi_heuristic_topic_nodes = fi_heuristic_topic_nodes self @ map (\<lambda>i. i + offset) (fi_heuristic_topic_nodes other),
       fi_parse_failed = (fi_parse_failed self \<or> fi_parse_failed other)\<rparr>)"

text \<open>Every local index names a node; an index out of range is a panic of the code.\<close>

definition fi_ok :: "file_index \<Rightarrow> bool" where
  "fi_ok fi \<longleftrightarrow> list_all (\<lambda>(i, _). i < length (fi_nodes fi))
       (fi_dependencies fi @ fi_producers fi @ fi_consumers fi @ fi_rpc_calls fi)
     \<and> list_all (\<lambda>i. i < length (fi_nodes fi)) (fi_heuristic_topic_nodes fi)"

fun add_nodes :: "contract_node list \<Rightarrow> contract_graph \<Rightarrow> contract_graph \<times> node_id list" where
  "add_nodes [] g = (g, [])"
| "add_nodes (n # ns) g = (let (g1, i) = add_node n g; (g2, ids) = add_nodes ns g1 in (g2, i # ids))"

definition add_facts :: "(node_id \<Rightarrow> string \<Rightarrow> contract_graph \<Rightarrow> contract_graph) \<Rightarrow> node_id list \<Rightarrow> (nat \<times> string) list
  \<Rightarrow> contract_graph \<Rightarrow> contract_graph" where
  "add_facts add ids fs g = fold (\<lambda>(i, t). add (ids ! i) t) fs g"

definition apply_index :: "file_index \<Rightarrow> contract_graph \<Rightarrow> contract_graph option" where
  "apply_index fi g =
     (if \<not> fi_ok fi then None
      else
        let (g1, ids) = add_nodes (fi_nodes fi) g;
            g2 = add_facts add_dependency ids (fi_dependencies fi) g1;
            g3 = add_facts add_producer ids (fi_producers fi) g2;
            g4 = add_facts add_consumer ids (fi_consumers fi) g3;
            g5 = add_facts add_rpc_call ids (fi_rpc_calls fi) g4 in
        Some (fold (\<lambda>i. mark_heuristic_topic_node (ids ! i)) (fi_heuristic_topic_nodes fi) g5))"

section \<open>The application, field by field\<close>

definition node_part :: "contract_node list \<Rightarrow> contract_graph \<Rightarrow> contract_graph" where
  "node_part ns g = fst (add_nodes ns g)"

lemma add_nodes_ids: "snd (add_nodes ns g) = [g_next_node_id g ..< g_next_node_id g + length ns]"
proof (induction ns arbitrary: g)
  case (Cons n ns)
  then show ?case using Cons[of "fst (add_node n g)"] by (simp add: split_def Let_def upt_rec)
qed simp

lemma node_part_simps [simp]: "node_part [] g = g" "node_part (n # ns) g = node_part ns (fst (add_node n g))"
  by (simp_all add: node_part_def split_def Let_def)

lemma node_part_append: "node_part (ms @ ns) g = node_part ns (node_part ms g)"
  by (induction ms arbitrary: g) simp_all

lemma node_part_next [simp]: "g_next_node_id (node_part ns g) = g_next_node_id g + length ns"
  by (induction ns arbitrary: g) simp_all

lemma node_part_facts [simp]:
  "g_reverse_deps (node_part ns g) = g_reverse_deps g" "g_topic_producers (node_part ns g) = g_topic_producers g"
  "g_topic_consumers (node_part ns g) = g_topic_consumers g" "g_rpc_calls (node_part ns g) = g_rpc_calls g"
  "g_heuristic_topic_nodes (node_part ns g) = g_heuristic_topic_nodes g" "g_edges (node_part ns g) = g_edges g"
  "g_handler_rpc_names (node_part ns g) = g_handler_rpc_names g"
  by (induction ns arbitrary: g) simp_all

definition put_facts ::
  "(string \<times> node_id) list \<Rightarrow> (string \<times> node_id) list \<Rightarrow> (string \<times> node_id) list \<Rightarrow> (node_id \<times> string) list \<Rightarrow> node_id set
   \<Rightarrow> contract_graph \<Rightarrow> contract_graph" where
  "put_facts deps prods cons calls heur g =
     g\<lparr>g_reverse_deps := fold (\<lambda>(k, v). hm_push k v) deps (g_reverse_deps g),
       g_topic_producers := fold (\<lambda>(k, v). hm_push k v) prods (g_topic_producers g),
       g_topic_consumers := fold (\<lambda>(k, v). hm_push k v) cons (g_topic_consumers g),
       g_rpc_calls := g_rpc_calls g @ calls,
       g_heuristic_topic_nodes := heur \<union> g_heuristic_topic_nodes g\<rparr>"

definition keyed :: "(string \<Rightarrow> string) \<Rightarrow> nat \<Rightarrow> (nat \<times> string) list \<Rightarrow> (string \<times> node_id) list" where
  "keyed key base fs = map (\<lambda>(i, t). (key t, base + i)) fs"

lemma keyed_append: "keyed key base (fs @ gs) = keyed key base fs @ keyed key base gs"
  by (simp add: keyed_def)

lemma add_facts_put:
  assumes "list_all (\<lambda>(i, _). i < n) fs"
  shows "add_facts add_dependency [base ..< base + n] fs g = put_facts (keyed (\<lambda>t. t) base fs) [] [] [] {} g"
    and "add_facts add_producer [base ..< base + n] fs g = put_facts [] (keyed normalize_topic_key base fs) [] [] {} g"
    and "add_facts add_consumer [base ..< base + n] fs g = put_facts [] [] (keyed normalize_topic_key base fs) [] {} g"
    and "add_facts add_rpc_call [base ..< base + n] fs g = put_facts [] [] [] (map (\<lambda>(i, t). (base + i, t)) fs) {} g"
  using assms
  by (induction fs arbitrary: g)
    (auto simp: add_facts_def put_facts_def keyed_def add_dependency_def add_producer_def add_consumer_def add_rpc_call_def)

lemma mark_heuristic_put:
  assumes "list_all (\<lambda>i. i < n) is"
  shows "fold (\<lambda>i. mark_heuristic_topic_node ([base ..< base + n] ! i)) is g = put_facts [] [] [] [] ((\<lambda>i. base + i) ` set is) g"
  using assms by (induction "is" arbitrary: g) (auto simp: put_facts_def mark_heuristic_topic_node_def)

definition frag_put :: "file_index \<Rightarrow> nat \<Rightarrow> contract_graph \<Rightarrow> contract_graph" where
  "frag_put fi base =
     put_facts (keyed (\<lambda>t. t) base (fi_dependencies fi)) (keyed normalize_topic_key base (fi_producers fi))
       (keyed normalize_topic_key base (fi_consumers fi)) (map (\<lambda>(i, t). (base + i, t)) (fi_rpc_calls fi))
       ((\<lambda>i. base + i) ` set (fi_heuristic_topic_nodes fi))"

lemma put_facts_put:
  "put_facts d2 p2 c2 r2 h2 (put_facts d1 p1 c1 r1 h1 g) = put_facts (d1 @ d2) (p1 @ p2) (c1 @ c2) (r1 @ r2) (h2 \<union> h1) g"
  by (simp add: put_facts_def Un_assoc)

lemma apply_index_Some:
  assumes "fi_ok fi"
  shows "apply_index fi g = Some (frag_put fi (g_next_node_id g) (node_part (fi_nodes fi) g))"
proof -
  have ids: "add_nodes (fi_nodes fi) g = (node_part (fi_nodes fi) g, [g_next_node_id g ..< g_next_node_id g + length (fi_nodes fi)])"
    using add_nodes_ids [of "fi_nodes fi" g] by (simp add: node_part_def prod_eq_iff)
  have ok: "list_all (\<lambda>(i, _). i < length (fi_nodes fi)) (fi_dependencies fi)" "list_all (\<lambda>(i, _). i < length (fi_nodes fi)) (fi_producers fi)"
    "list_all (\<lambda>(i, _). i < length (fi_nodes fi)) (fi_consumers fi)" "list_all (\<lambda>(i, _). i < length (fi_nodes fi)) (fi_rpc_calls fi)"
    "list_all (\<lambda>i. i < length (fi_nodes fi)) (fi_heuristic_topic_nodes fi)"
    using assms by (auto simp: fi_ok_def)
  show ?thesis
    using assms by (simp add: apply_index_def ids add_facts_put [OF ok(1)] add_facts_put [OF ok(2)] add_facts_put [OF ok(3)]
        add_facts_put [OF ok(4)] mark_heuristic_put [OF ok(5)] put_facts_put frag_put_def)
qed

lemma add_node_put_facts: "fst (add_node n (put_facts d p c r h g)) = put_facts d p c r h (fst (add_node n g))"
  by (simp add: add_node_def put_facts_def Let_def)

lemma node_part_put_facts: "node_part ns (put_facts d p c r h g) = put_facts d p c r h (node_part ns g)"
  by (induction ns arbitrary: g) (simp_all add: add_node_put_facts)

lemma put_facts_next [simp]: "g_next_node_id (put_facts d p c r h g) = g_next_node_id g"
  by (simp add: put_facts_def)

lemma facts_in_range:
  "list_all (\<lambda>(i, _). i < m) fs \<Longrightarrow> list_all (\<lambda>(i, _). i < m + n) fs"
  "list_all (\<lambda>(i, _). i < n) fs \<Longrightarrow> list_all (\<lambda>(i, _). i < m + n) (shift_facts m fs)"
  by (induction fs) (auto simp: shift_facts_def)

lemma indices_in_range:
  "list_all (\<lambda>i. i < m) js \<Longrightarrow> list_all (\<lambda>i. i < m + n) js"
  "list_all (\<lambda>i. i < n) js \<Longrightarrow> list_all (\<lambda>i. i < m + n) (map (\<lambda>i. i + m) js)" for m n :: nat
  by (induction js) auto

lemma fi_merge_ok: "fi_ok a \<Longrightarrow> fi_ok b \<Longrightarrow> fi_ok (fi_merge a b)"
  by (simp add: fi_ok_def fi_merge_def Let_def facts_in_range indices_in_range)

text \<open>
  Merging fragments and then applying them is applying them one after the other: the custom patterns of a file may be merged
  into its index before the graph is touched, with the same nodes, ids and facts in the same order.
\<close>

theorem merge_then_apply:
  assumes "fi_ok a" "fi_ok b"
  shows "apply_index (fi_merge a b) g = Option.bind (apply_index a g) (apply_index b)"
proof -
  let ?m = "g_next_node_id g" and ?n = "length (fi_nodes a)"
  have sh: "keyed key (?m + ?n) fs = keyed key ?m (shift_facts ?n fs)" for key fs
    by (simp add: keyed_def shift_facts_def split_def o_def add_ac)
  have calls: "map (\<lambda>(i, t). (?m + ?n + i, t)) fs = map (\<lambda>(i, t). (?m + i, t)) (shift_facts ?n fs)" for fs :: "(nat \<times> string) list"
    by (simp add: shift_facts_def split_def o_def add_ac)
  have heur: "(\<lambda>i. ?m + ?n + i) ` H \<union> (\<lambda>i. ?m + i) ` K = (\<lambda>i. ?m + i) ` (K \<union> (\<lambda>i. i + ?n) ` H)" for H K
    by (simp add: image_Un image_image Un_commute add_ac)
  have "frag_put b (?m + ?n) (frag_put a ?m G) = frag_put (fi_merge a b) ?m G" for G
    by (simp only: frag_put_def put_facts_put fi_merge_def Let_def file_index.simps sh calls heur set_append set_map keyed_append
        map_append)
  then show ?thesis
    using assms by (simp add: apply_index_Some fi_merge_ok node_part_put_facts frag_put_def)
      (simp add: frag_put_def fi_merge_def Let_def node_part_append)
qed


section \<open>What a graph says of a file\<close>

text \<open>
  A node as a reader sees it, without its id: the declaration, what it imports, produces and consumes, its calls in order, and
  whether its topic links are heuristic. Topic hubs belong to no file.
\<close>

record node_view =
  nv_node :: contract_node
  nv_imports :: "string set"
  nv_produces :: "string set"
  nv_consumes :: "string set"
  nv_calls :: "string list"
  nv_heuristic :: bool

definition strip_id :: "contract_node \<Rightarrow> contract_node" where
  "strip_id n = n\<lparr>n_id := 0\<rparr>"

definition view_node :: "contract_graph \<Rightarrow> contract_node \<Rightarrow> node_view" where
  "view_node g n = \<lparr>nv_node = strip_id n,
     nv_imports = {t. n_id n \<in> set (bucket (g_reverse_deps g) t)},
     nv_produces = {t. n_id n \<in> set (bucket (g_topic_producers g) t)},
     nv_consumes = {t. n_id n \<in> set (bucket (g_topic_consumers g) t)},
     nv_calls = map snd (filter (\<lambda>c. fst c = n_id n) (g_rpc_calls g)),
     nv_heuristic = (n_id n \<in> g_heuristic_topic_nodes g)\<rparr>"

definition file_view :: "contract_graph \<Rightarrow> path \<Rightarrow> node_view list" where
  "file_view g p = map (view_node g) (filter (\<lambda>n. n_file n = p \<and> \<not> is_hub n) (all_nodes g))"

text \<open>The same for a fragment: what its extraction says.\<close>

definition index_view :: "file_index \<Rightarrow> node_view list" where
  "index_view fi = map (\<lambda>i. \<lparr>nv_node = strip_id (fi_nodes fi ! i),
     nv_imports = {t. (i, t) \<in> set (fi_dependencies fi)},
     nv_produces = {normalize_topic_key t |t. (i, t) \<in> set (fi_producers fi)},
     nv_consumes = {normalize_topic_key t |t. (i, t) \<in> set (fi_consumers fi)},
     nv_calls = map snd (filter (\<lambda>c. fst c = i) (fi_rpc_calls fi)),
     nv_heuristic = (i \<in> set (fi_heuristic_topic_nodes fi))\<rparr>) [0 ..< length (fi_nodes fi)]"

text \<open>What the extractors promise: indices in range, every node attributed to the file, none of them a topic hub.\<close>

definition index_for :: "path \<Rightarrow> file_index \<Rightarrow> bool" where
  "index_for p fi \<longleftrightarrow> fi_ok fi \<and> list_all (\<lambda>n. n_file n = p \<and> \<not> is_hub n) (fi_nodes fi)"

definition put_index :: "file_index \<Rightarrow> contract_graph \<Rightarrow> contract_graph" where
  "put_index fi g = frag_put fi (g_next_node_id g) (node_part (fi_nodes fi) g)"

lemma apply_put_index: "index_for p fi \<Longrightarrow> apply_index fi g = Some (put_index fi g)"
  by (simp add: index_for_def apply_index_Some put_index_def)

subsection \<open>Applying a fragment adds its view\<close>

lemma node_part_nodes:
  assumes "wf_graph g"
  shows "g_nodes (node_part ns g) = g_nodes g
    @ map (\<lambda>i. (g_next_node_id g + i, (ns ! i)\<lparr>n_id := g_next_node_id g + i\<rparr>)) [0 ..< length ns]"
  using assms
proof (induction ns arbitrary: g)
  case (Cons n ns)
  have wf: "wf_graph (fst (add_node n g))" by (rule wf_add_node [OF Cons.prems])
  have "nodes_wf g" using Cons.prems by (simp add: wf_graph_def)
  moreover have "map (\<lambda>i. (g_next_node_id g + i, ((n # ns) ! i)\<lparr>n_id := g_next_node_id g + i\<rparr>)) [0 ..< Suc (length ns)]
    = (g_next_node_id g, n\<lparr>n_id := g_next_node_id g\<rparr>)
      # map (\<lambda>i. (Suc (g_next_node_id g) + i, (ns ! i)\<lparr>n_id := Suc (g_next_node_id g) + i\<rparr>)) [0 ..< length ns]"
    by (simp add: upt_conv_Cons del: upt_Suc) (simp add: map_Suc_upt [symmetric] o_def del: upt_Suc)
  ultimately show ?case using Cons.IH [OF wf] by (simp add: add_node_nodes del: upt_Suc)
qed simp

lemma set_bucket_pushes: "set (bucket (fold (\<lambda>(k, v). hm_push k v) xs m) k) = set (bucket m k) \<union> {v. (k, v) \<in> set xs}"
  by (induction xs arbitrary: m) (auto simp: bucket_simps split: if_splits)

lemma keyed_mem: "(k, v) \<in> set (keyed key base fs) \<longleftrightarrow> (\<exists>i t. v = base + i \<and> k = key t \<and> (i, t) \<in> set fs)"
  by (force simp: keyed_def)

lemma filter_shifted_calls:
  "map snd (filter (\<lambda>c. fst c = b + i) (map (\<lambda>(j, t). (b + j, t)) fs)) = map snd (filter (\<lambda>c. fst c = i) fs)" for b :: nat
  by (induction fs) auto


lemma frag_put_facts:
  "set (bucket (g_reverse_deps (frag_put fi b g)) t) = set (bucket (g_reverse_deps g) t) \<union> {b + i |i. (i, t) \<in> set (fi_dependencies fi)}"
  "set (bucket (g_topic_producers (frag_put fi b g)) k)
     = set (bucket (g_topic_producers g) k) \<union> {b + i |i t. k = normalize_topic_key t \<and> (i, t) \<in> set (fi_producers fi)}"
  "set (bucket (g_topic_consumers (frag_put fi b g)) k)
     = set (bucket (g_topic_consumers g) k) \<union> {b + i |i t. k = normalize_topic_key t \<and> (i, t) \<in> set (fi_consumers fi)}"
  "g_rpc_calls (frag_put fi b g) = g_rpc_calls g @ map (\<lambda>(i, t). (b + i, t)) (fi_rpc_calls fi)"
  "g_heuristic_topic_nodes (frag_put fi b g) = (\<lambda>i. b + i) ` set (fi_heuristic_topic_nodes fi) \<union> g_heuristic_topic_nodes g"
  "g_nodes (frag_put fi b g) = g_nodes g"
  by (auto simp: frag_put_def put_facts_def set_bucket_pushes keyed_mem)

lemma fact_ids_below: "wf_graph g \<Longrightarrow> i \<in> fact_ids g \<Longrightarrow> i < g_next_node_id g"
  by (force simp: wf_graph_def facts_wf_iff node_ids_def nodes_wf_def)

lemma no_facts_above:
  assumes "wf_graph g" "g_next_node_id g \<le> i"
  shows "i \<notin> set (bucket (g_reverse_deps g) t)" "i \<notin> set (bucket (g_topic_producers g) t)"
    "i \<notin> set (bucket (g_topic_consumers g) t)" "filter (\<lambda>c. fst c = i) (g_rpc_calls g) = []" "i \<notin> g_heuristic_topic_nodes g"
proof -
  have "i \<notin> fact_ids g" using fact_ids_below [OF assms(1), of i] assms(2) by fastforce
  then show "i \<notin> set (bucket (g_reverse_deps g) t)" "i \<notin> set (bucket (g_topic_producers g) t)"
    "i \<notin> set (bucket (g_topic_consumers g) t)" "filter (\<lambda>c. fst c = i) (g_rpc_calls g) = []" "i \<notin> g_heuristic_topic_nodes g"
    by (auto simp: fact_ids_def filter_empty_conv)
qed

lemma view_put_old:
  assumes "n_id n < g_next_node_id g"
  shows "view_node (put_index fi g) n = view_node g n"
proof -
  have "filter (\<lambda>c. fst c = n_id n) (map (\<lambda>(i, t). (g_next_node_id g + i, t)) (fi_rpc_calls fi)) = []"
    using assms by (auto simp: filter_empty_conv)
  then show ?thesis
    using assms by (auto simp: view_node_def put_index_def frag_put_facts)
qed

lemma view_put_new:
  assumes "wf_graph g" "i < length (fi_nodes fi)"
  shows "view_node (put_index fi g) ((fi_nodes fi ! i)\<lparr>n_id := g_next_node_id g + i\<rparr>) = index_view fi ! i"
  using assms(2) no_facts_above [OF assms(1), of "g_next_node_id g + i"]
  by (auto simp: view_node_def put_index_def frag_put_facts index_view_def strip_id_def filter_shifted_calls)

lemma all_nodes_put:
  assumes "wf_graph g"
  shows "all_nodes (put_index fi g)
    = all_nodes g @ map (\<lambda>i. (fi_nodes fi ! i)\<lparr>n_id := g_next_node_id g + i\<rparr>) [0 ..< length (fi_nodes fi)]"
  by (simp add: all_nodes_def put_index_def frag_put_facts node_part_nodes [OF assms] o_def)

lemma all_nodes_below: "wf_graph g \<Longrightarrow> n \<in> set (all_nodes g) \<Longrightarrow> n_id n < g_next_node_id g"
  by (auto simp: all_nodes_def wf_graph_def nodes_wf_def)

lemma is_hub_id [simp]: "is_hub (n\<lparr>n_id := i\<rparr>) = is_hub n"
  by (simp add: is_hub_def)

lemma file_view_put_index:
  assumes wf: "wf_graph g" and fi: "index_for q fi"
  shows "file_view (put_index fi g) p = file_view g p @ (if p = q then index_view fi else [])"
proof -
  let ?new = "map (\<lambda>i. (fi_nodes fi ! i)\<lparr>n_id := g_next_node_id g + i\<rparr>) [0 ..< length (fi_nodes fi)]"
  have old: "map (view_node (put_index fi g)) (filter (\<lambda>n. n_file n = p \<and> \<not> is_hub n) (all_nodes g)) = file_view g p"
    by (auto simp: file_view_def view_put_old all_nodes_below [OF wf])
  have "n_file (fi_nodes fi ! i) = q \<and> \<not> is_hub (fi_nodes fi ! i)" if "i < length (fi_nodes fi)" for i
    using fi that by (simp add: index_for_def list_all_length)
  then have new: "filter (\<lambda>n. n_file n = p \<and> \<not> is_hub n) ?new = (if p = q then ?new else [])"
    by (auto simp: filter_map o_def filter_empty_conv intro: filter_True)
  have "map (view_node (put_index fi g)) ?new = index_view fi"
    by (rule nth_equalityI) (simp_all add: view_put_new [OF wf], simp_all add: index_view_def)
  then show ?thesis
    unfolding file_view_def all_nodes_put [OF wf] filter_append map_append new using old by (simp add: file_view_def)
qed


subsection \<open>Purging files empties their views and no other\<close>

lemma patch_heuristic:
  "wf_graph g \<Longrightarrow> g_heuristic_topic_nodes (patch_files ps g) = {i \<in> g_heuristic_topic_nodes g. i \<notin> ids_in_files ps g}"
proof -
  assume wf: "wf_graph g"
  obtain files stale where t: "take_files ps (g_file_to_nodes g) [] = (files, stale)" by force
  have "set stale = ids_in_files ps g" by (rule take_files_stale [OF wf t])
  then show ?thesis by (auto simp: patch_files_unfold [OF wf t])
qed

lemma view_patch:
  assumes wf: "wf_graph g" and n: "n_id n \<notin> ids_in_files ps g"
  shows "view_node (patch_files ps g) n = view_node g n"
proof -
  have "filter (\<lambda>c. fst c = n_id n) (filter (\<lambda>(i, _). i \<notin> ids_in_files ps g) cs) = filter (\<lambda>c. fst c = n_id n) cs" for cs :: "(nat \<times> string) list"
    using n by (induction cs) auto
  then show ?thesis
    using n patch_files_facts(2,3) [OF wf, of ps] patch_heuristic [OF wf, of ps] by (simp add: view_node_def)
qed

lemma file_view_patch:
  assumes wf: "wf_graph g"
  shows "file_view (patch_files ps g) p = (if p \<in> set ps then [] else file_view g p)"
proof -
  have nodes: "filter (\<lambda>n. n_file n = p \<and> \<not> is_hub n) (all_nodes (patch_files ps g))
      = filter (\<lambda>n. n_file n = p \<and> \<not> is_hub n \<and> p \<notin> set ps) (all_nodes g)"
    by (auto simp: all_nodes_def patch_files_nodes [OF wf] filter_map o_def case_prod_unfold intro!: arg_cong [where f = "map snd"] filter_cong)
  have "view_node (patch_files ps g) n = view_node g n" if "n \<in> set (all_nodes g)" "n_file n \<notin> set ps" for n
  proof (rule view_patch [OF wf])
    have "(n_id n, n) \<in> set (g_nodes g)" using that(1) wf by (auto simp: all_nodes_def wf_graph_def nodes_wf_def)
    then show "n_id n \<notin> ids_in_files ps g"
      using that(2) wf nodes_wf_distinct [of g] by (auto simp: ids_in_files_def wf_graph_def dest: eq_key_imp_eq_value)
  qed
  then show ?thesis unfolding file_view_def nodes by (auto intro!: map_cong filter_cong simp: filter_empty_conv)
qed

subsection \<open>Reconciling the edges says nothing new of a file\<close>

lemma view_same_facts: "same_facts g g' \<Longrightarrow> view_node g' n = view_node g n"
  by (simp add: view_node_def same_facts_def)

lemma plain_hub_step:
  assumes "nodes_wf g"
  shows "filter (\<lambda>n. n_file n = p \<and> \<not> is_hub n) (all_nodes (hub_step k g)) = filter (\<lambda>n. n_file n = p \<and> \<not> is_hub n) (all_nodes g)"
proof (cases "existing_hub g k")
  case None
  moreover have "is_hub (hub_node k)" by (simp add: is_hub_def hub_node_def stream_like_def)
  ultimately show ?thesis using assms by (simp add: hub_step_def topic_hub_def all_nodes_def add_node_nodes)
qed (simp add: hub_step_def topic_hub_def)

lemma plain_hub_steps:
  "wf_graph g \<Longrightarrow> filter (\<lambda>n. n_file n = p \<and> \<not> is_hub n) (all_nodes (fold hub_step ks g))
     = filter (\<lambda>n. n_file n = p \<and> \<not> is_hub n) (all_nodes g)"
proof (induction ks arbitrary: g)
  case (Cons k ks)
  then show ?case using Cons.IH [OF hub_step_wf [OF Cons.prems]] plain_hub_step [of g p k] by (simp add: wf_graph_def)
qed simp

lemma plain_purged:
  assumes "nodes_wf g"
  shows "filter (\<lambda>n. n_file n = p \<and> \<not> is_hub n) (all_nodes (remove_nodes (stale_hubs g ts) g))
    = filter (\<lambda>n. n_file n = p \<and> \<not> is_hub n) (all_nodes g)"
proof -
  have stale: "is_hub n" if "(i, n) \<in> set (g_nodes g)" "i \<in> set (stale_hubs g ts)" for i n
    using that assms by (auto simp: stale_hubs_mem get_node_Some_iff [OF assms] dest: eq_key_imp_eq_value [OF nodes_wf_distinct [OF assms]])
  show ?thesis
    by (auto simp: all_nodes_def filter_map o_def case_prod_unfold dest: stale intro!: arg_cong [where f = "map snd"] filter_cong)
qed

lemma file_view_reconcile:
  assumes "wf_mesh g"
  shows "file_view (reconcile_edges clean g) p = file_view g p"
proof -
  obtain h e where r: "reconcile_edges clean g = (hubs g)\<lparr>g_handler_rpc_names := h, g_edges := e\<rparr>"
    using settle_is_update reconcile_settle [OF assms] by metis
  have "file_view (hubs g) p = file_view g p"
    using plain_hub_steps [OF wf_purged [OF assms], of p] plain_purged [of g p] assms view_same_facts [OF same_facts_hubs, of g]
    by (simp add: file_view_def hubs_def wf_mesh_def wf_graph_def)
  moreover have "view_node (reconcile_edges clean g) = view_node (hubs g)" by (simp add: r view_node_def fun_eq_iff)
  ultimately show ?thesis by (simp add: r file_view_def all_nodes_def)
qed


subsection \<open>The invariant of the graph under a fragment\<close>

lemma mesh_inv_add_node: "mesh_inv g \<Longrightarrow> \<not> is_hub n \<Longrightarrow> mesh_inv (fst (add_node n g))"
  using mesh_inv_fold [of g "AddNode n"] by simp

lemma mesh_inv_node_part: "mesh_inv g \<Longrightarrow> list_all (\<lambda>n. \<not> is_hub n) ns \<Longrightarrow> mesh_inv (node_part ns g)"
  by (induction ns arbitrary: g) (simp_all add: mesh_inv_add_node)

lemma plain_new_node:
  assumes "wf_graph g" "list_all (\<lambda>n. \<not> is_hub n) ns" "i < length ns"
  shows "plain_node (node_part ns g) (g_next_node_id g + i)"
proof -
  have "(g_next_node_id g + i, (ns ! i)\<lparr>n_id := g_next_node_id g + i\<rparr>) \<in> set (g_nodes (node_part ns g))"
    using assms(3) by (auto simp: node_part_nodes [OF assms(1)])
  moreover have "wf_graph (node_part ns g)" using assms(1) by (induction ns arbitrary: g) (simp_all add: wf_add_node)
  ultimately show ?thesis
    using assms(2,3) by (simp add: plain_node_def get_node_Some_iff [THEN iffD2] wf_graph_def list_all_length)
qed

definition keeps_mesh :: "node_id set \<Rightarrow> (contract_graph \<Rightarrow> contract_graph) \<Rightarrow> bool" where
  "keeps_mesh ids f \<longleftrightarrow> (\<forall>g. mesh_inv g \<longrightarrow> (\<forall>i \<in> ids. plain_node g i) \<longrightarrow> mesh_inv (f g) \<and> (\<forall>i \<in> ids. plain_node (f g) i))"

lemma keeps_meshD:
  "keeps_mesh ids f \<Longrightarrow> mesh_inv g \<and> (\<forall>i \<in> ids. plain_node g i) \<Longrightarrow> mesh_inv (f g) \<and> (\<forall>i \<in> ids. plain_node (f g) i)"
  by (simp add: keeps_mesh_def)

lemma keeps_mesh_fold: "(\<And>x. x \<in> set xs \<Longrightarrow> keeps_mesh ids (f x)) \<Longrightarrow> keeps_mesh ids (fold f xs)"
proof (induction xs)
  case (Cons x xs)
  then have "keeps_mesh ids (f x)" "keeps_mesh ids (fold f xs)" by simp_all
  then show ?case by (simp add: keeps_mesh_def)
qed (simp add: keeps_mesh_def)

lemma keeps_mesh_ops:
  assumes "i \<in> ids"
  shows "keeps_mesh ids (add_dependency i t)" "keeps_mesh ids (add_producer i t)" "keeps_mesh ids (add_consumer i t)"
    "keeps_mesh ids (add_rpc_call i t)" "keeps_mesh ids (mark_heuristic_topic_node i)"
  using assms mesh_inv_fold [of _ "AddDependency i t"] mesh_inv_fold [of _ "AddProducer i t"] mesh_inv_fold [of _ "AddConsumer i t"]
    mesh_inv_fold [of _ "AddRpcCall i t"] mesh_inv_fold [of _ "MarkHeuristic i"]
  by (auto simp: keeps_mesh_def plain_node_def get_node_facts_update)

lemma keeps_mesh_add_facts:
  assumes "\<And>i t. i \<in> set ids \<Longrightarrow> keeps_mesh (set ids) (add i t)" "list_all (\<lambda>(i, _). i < length ids) fs"
  shows "keeps_mesh (set ids) (add_facts add ids fs)"
proof -
  have "keeps_mesh (set ids) ((\<lambda>(i, t). add (ids ! i) t) x)" if "x \<in> set fs" for x
    using that assms by (auto simp: list_all_iff)
  then have "keeps_mesh (set ids) (fold (\<lambda>(i, t). add (ids ! i) t) fs)" by (rule keeps_mesh_fold)
  then show ?thesis by (simp add: keeps_mesh_def add_facts_def)
qed

lemma mesh_inv_put_index:
  assumes inv: "mesh_inv g" and fi: "index_for p fi"
  shows "mesh_inv (put_index fi g)"
proof -
  let ?ids = "[g_next_node_id g ..< g_next_node_id g + length (fi_nodes fi)]"
  let ?mark = "fold (\<lambda>i. mark_heuristic_topic_node (?ids ! i)) (fi_heuristic_topic_nodes fi)"
  have wf: "wf_graph g" using inv by (simp add: mesh_inv_def wf_mesh_def)
  have plain: "list_all (\<lambda>n. \<not> is_hub n) (fi_nodes fi)" and ok: "fi_ok fi"
    using fi by (auto simp: index_for_def list_all_iff)
  have ids: "add_nodes (fi_nodes fi) g = (node_part (fi_nodes fi) g, ?ids)"
    using add_nodes_ids [of "fi_nodes fi" g] by (simp add: node_part_def prod_eq_iff)
  have "plain_node (node_part (fi_nodes fi) g) i" if "i \<in> set ?ids" for i
    using plain_new_node [OF wf plain, of "i - g_next_node_id g"] that by auto
  then have start: "mesh_inv (node_part (fi_nodes fi) g) \<and> (\<forall>i \<in> set ?ids. plain_node (node_part (fi_nodes fi) g) i)"
    using mesh_inv_node_part [OF inv plain] by blast
  have mark: "keeps_mesh (set ?ids) ?mark"
    using ok by (intro keeps_mesh_fold keeps_mesh_ops(5)) (auto simp: fi_ok_def list_all_iff)
  have facts: "keeps_mesh (set ?ids) (add_facts add_dependency ?ids (fi_dependencies fi))"
    "keeps_mesh (set ?ids) (add_facts add_producer ?ids (fi_producers fi))"
    "keeps_mesh (set ?ids) (add_facts add_consumer ?ids (fi_consumers fi))"
    "keeps_mesh (set ?ids) (add_facts add_rpc_call ?ids (fi_rpc_calls fi))"
    using ok by (intro keeps_mesh_add_facts keeps_mesh_ops; simp add: fi_ok_def)+
  note final = keeps_meshD [OF mark keeps_meshD [OF facts(4) keeps_meshD [OF facts(3) keeps_meshD [OF facts(2) keeps_meshD [OF facts(1) start]]]]]
  show ?thesis
    using conjunct1 [OF final] ok apply_put_index [OF fi, of g] by (simp add: apply_index_def ids Let_def)
qed

section \<open>A store of facts by file\<close>

text \<open>
  What an index over files promises: purging files empties their view and no other, folding a fragment in appends to the view of
  its own file only. A batch of both then leaves every file with its new fragment, with nothing, or as it was.
\<close>

locale fact_store =
  fixes purge :: "path list \<Rightarrow> 's \<Rightarrow> 's"
    and put :: "path \<Rightarrow> 'f \<Rightarrow> 's \<Rightarrow> 's"
    and view :: "'s \<Rightarrow> path \<Rightarrow> 'v list"
    and frag :: "'f \<Rightarrow> 'v list"
    and inv :: "'s \<Rightarrow> bool"
    and good :: "path \<Rightarrow> 'f \<Rightarrow> bool"
  assumes view_purge: "inv s \<Longrightarrow> view (purge ps s) p = (if p \<in> set ps then [] else view s p)"
    and view_put: "inv s \<Longrightarrow> good q f \<Longrightarrow> view (put q f s) p = view s p @ (if p = q then frag f else [])"
    and inv_purge: "inv s \<Longrightarrow> inv (purge ps s)"
    and inv_put: "inv s \<Longrightarrow> good q f \<Longrightarrow> inv (put q f s)"
begin

lemma inv_put_all: "inv s \<Longrightarrow> \<forall>(q, f) \<in> set fs. good q f \<Longrightarrow> inv (fold (\<lambda>(q, f). put q f) fs s)"
  by (induction fs arbitrary: s) (auto simp: inv_put)

lemma view_put_all:
  "inv s \<Longrightarrow> \<forall>(q, f) \<in> set fs. good q f \<Longrightarrow> view (fold (\<lambda>(q, f). put q f) fs s) p = view s p @ concat (map (frag \<circ> snd) (filter (\<lambda>(q, f). q = p) fs))"
  by (induction fs arbitrary: s) (auto simp: inv_put view_put)

lemma fragment_of:
  "distinct (map fst fs) \<Longrightarrow> filter (\<lambda>(q, f). q = p) fs = (case map_of fs p of None \<Rightarrow> [] | Some f \<Rightarrow> [(p, f)])"
proof (induction fs)
  case (Cons x fs)
  obtain q f where x: "x = (q, f)" by force
  have "filter (\<lambda>(q', f). q' = q) fs = []" using Cons.prems by (force simp: x filter_empty_conv)
  with Cons show ?case by (auto simp: x)
qed simp

lemma view_batch:
  assumes "inv s" "\<forall>(q, f) \<in> set fs. good q f" "distinct (map fst fs)"
  shows "view (fold (\<lambda>(q, f). put q f) fs (purge (map fst fs @ gone) s)) p
    = (case map_of fs p of Some f \<Rightarrow> frag f | None \<Rightarrow> if p \<in> set gone then [] else view s p)"
proof -
  have "view (fold (\<lambda>(q, f). put q f) fs (purge (map fst fs @ gone) s)) p
      = (if p \<in> set (map fst fs @ gone) then [] else view s p) @ concat (map (frag \<circ> snd) (filter (\<lambda>(q, f). q = p) fs))"
    using view_put_all [OF inv_purge [OF assms(1)] assms(2), of "map fst fs @ gone" p] by (simp add: view_purge [OF assms(1)])
  then show ?thesis
    using map_of_eq_None_iff [of fs p] by (auto simp: fragment_of [OF assms(3)] split: option.splits)
qed

end

interpretation graph_store: fact_store patch_files "\<lambda>_. put_index" file_view index_view mesh_inv index_for
  using mesh_inv_fold [of _ "PatchFiles _"]
  by unfold_locales (auto simp: file_view_patch file_view_put_index mesh_inv_def wf_mesh_def mesh_inv_put_index [unfolded mesh_inv_def wf_mesh_def])

end
