(* ===== verification/Index_Cache.thy ===== *)
theory Index_Cache
  imports Mesh_Types "HOL-Library.Product_Lexorder"
begin

text \<open>
  The persistent index cache, \<^verbatim>\<open>crates/mesh-core/src/index_cache.rs\<close>: the key of a file's extraction, lookups, the batched
  write of one scan with the access times it flushes, and the eviction of the least recently used entries under a byte quota.
  The two tables are what SQLite stores; page counts and failing statements are SQLite's and are parameters. A transaction that
  fails is rolled back. Times are \<^verbatim>\<open>i64\<close> milliseconds, sizes \<^verbatim>\<open>u64\<close> far below the wrap.
\<close>

section \<open>Keys\<close>

definition SCHEMA_VERSION :: nat where
  "SCHEMA_VERSION = 11"

definition DEFAULT_MAX_SIZE_MB :: nat where
  "DEFAULT_MAX_SIZE_MB = 2048"

definition QUOTA_CHECK_MIN_WRITES :: nat where
  "QUOTA_CHECK_MIN_WRITES = 100"

definition EVICTION_BATCH :: nat where
  "EVICTION_BATCH = 1000"

definition EVICTION_TARGET_PERCENT :: nat where
  "EVICTION_TARGET_PERCENT = 80"

definition u64_max :: nat where
  "u64_max = 2 ^ 64 - 1"

definition quota_bytes_from_mb :: "nat \<Rightarrow> nat" where
  "quota_bytes_from_mb mb = min u64_max (max mb 1 * (1024 * 1024))"

definition repo_le_bytes :: "repo_id \<Rightarrow> string" where
  "repo_le_bytes r = [char_of (unat r mod 256), char_of (unat r div 256)]"

definition key_input :: "path \<Rightarrow> string \<Rightarrow> repo_id \<Rightarrow> string \<Rightarrow> string" where
  "key_input p content_hash repo fingerprint =
     [char_of SCHEMA_VERSION] @ path_str p @ content_hash @ repo_le_bytes repo @ fingerprint"

definition key_for :: "(string \<Rightarrow> string) \<Rightarrow> path \<Rightarrow> string \<Rightarrow> repo_id \<Rightarrow> string \<Rightarrow> string" where
  "key_for sha256 p content_hash repo fingerprint = sha256 (key_input p content_hash repo fingerprint)"

section \<open>The tables and the cache\<close>

record payload_row =
  pr_rowid :: nat
  pr_payload :: string
  pr_updated :: int

record access_row =
  ar_last :: int
  ar_rowid :: nat

record cache_tables =
  ct_payloads :: "(string, payload_row) hmap"
  ct_access :: "(string, access_row) hmap"

record index_cache =
  ic_tables :: cache_tables
  ic_touched :: "string list"
  ic_max_size :: nat
  ic_hits :: nat
  ic_misses :: nat
  ic_errors :: nat
  ic_evicted :: nat

definition cache_opened :: "nat \<Rightarrow> index_cache" where
  "cache_opened max_size =
     \<lparr>ic_tables = \<lparr>ct_payloads = [], ct_access = []\<rparr>, ic_touched = [], ic_max_size = max_size,
      ic_hits = 0, ic_misses = 0, ic_errors = 0, ic_evicted = 0\<rparr>"

text \<open>\<^verbatim>\<open>get\<close>; \<^term>\<open>fault\<close> when the query itself fails.\<close>

definition ic_get :: "bool \<Rightarrow> string \<Rightarrow> index_cache \<Rightarrow> string option \<times> index_cache" where
  "ic_get fault key c =
     (if fault then (None, c\<lparr>ic_misses := ic_misses c + 1, ic_errors := ic_errors c + 1\<rparr>)
      else case map_of (ct_payloads (ic_tables c)) key of
        Some row \<Rightarrow> (Some (pr_payload row), c\<lparr>ic_hits := ic_hits c + 1, ic_touched := ic_touched c @ [key]\<rparr>)
      | None \<Rightarrow> (None, c\<lparr>ic_misses := ic_misses c + 1\<rparr>))"

section \<open>Writing a batch\<close>

text \<open>\<^verbatim>\<open>INSERT OR REPLACE\<close>: a row id one above the largest, the conflicting row replaced.\<close>

definition next_rowid :: "(string, payload_row) hmap \<Rightarrow> nat" where
  "next_rowid rows = foldr max (map (pr_rowid \<circ> snd) rows) 0 + 1"

definition write_entry :: "int \<Rightarrow> string \<times> string \<Rightarrow> cache_tables \<Rightarrow> cache_tables" where
  "write_entry now entry t =
     (case entry of (key, payload) \<Rightarrow>
        let rowid = next_rowid (ct_payloads t) in
        \<lparr>ct_payloads = hm_remove key (ct_payloads t) @ [(key, \<lparr>pr_rowid = rowid, pr_payload = payload, pr_updated = now\<rparr>)],
         ct_access = hm_insert key \<lparr>ar_last = now, ar_rowid = rowid\<rparr> (ct_access t)\<rparr>)"

definition bump_access :: "int \<Rightarrow> string \<Rightarrow> cache_tables \<Rightarrow> cache_tables" where
  "bump_access now key t = t\<lparr>ct_access := map (\<lambda>(k, a). (k, if k = key then a\<lparr>ar_last := now\<rparr> else a)) (ct_access t)\<rparr>"

definition commit_batch :: "int \<Rightarrow> (string \<times> string) list \<Rightarrow> string list \<Rightarrow> cache_tables \<Rightarrow> cache_tables" where
  "commit_batch now entries touched t = fold (bump_access now) touched (fold (write_entry now) entries t)"

section \<open>The quota\<close>

definition div_ceil :: "nat \<Rightarrow> nat \<Rightarrow> nat" where
  "div_ceil a b = (if a mod b = 0 then a div b else a div b + 1)"

definition eviction_batch :: "nat \<Rightarrow> nat \<Rightarrow> nat \<Rightarrow> nat" where
  "eviction_batch live target entries =
     (let excess = live - target;
          per_entry = max (live div max entries 1) 1 in
      max 1 (min (div_ceil excess per_entry) EVICTION_BATCH))"

definition lru_order :: "cache_tables \<Rightarrow> (string \<times> access_row) list" where
  "lru_order t = sort_key (\<lambda>(k, a). (ar_last a, ar_rowid a)) (ct_access t)"

definition payload_order :: "cache_tables \<Rightarrow> (string \<times> payload_row) list" where
  "payload_order t = sort_key (\<lambda>(k, r). (pr_updated r, pr_rowid r)) (ct_payloads t)"

definition drop_keys :: "string list \<Rightarrow> cache_tables \<Rightarrow> cache_tables" where
  "drop_keys ks t = \<lparr>ct_payloads = filter (\<lambda>(k, _). k \<notin> set ks) (ct_payloads t), ct_access = filter (\<lambda>(k, _). k \<notin> set ks) (ct_access t)\<rparr>"

text \<open>
  What SQLite answers in one round of the loop: its live bytes for the tables, or a failing statement. Counted pages depend on
  the file's history, so the answer may differ from round to round.
\<close>

lemma drop_keys_shrinks:
  assumes "ks \<noteq> []" "set ks \<subseteq> fst ` set xs"
  shows "length (filter (\<lambda>(k, _). k \<notin> set ks) xs) < length xs"
proof -
  obtain x where "x \<in> set xs" "fst x \<in> set ks" using assms by (cases ks) auto
  then show ?thesis by (intro length_filter_less [of x]) auto
qed

type_synonym pager = "nat \<Rightarrow> cache_tables \<Rightarrow> nat option"

text \<open>The loop: the number of evicted entries, None when a statement failed; the rounds already committed stay.\<close>

function evict_loop :: "pager \<Rightarrow> nat \<Rightarrow> nat \<Rightarrow> cache_tables \<Rightarrow> nat \<Rightarrow> nat option \<times> cache_tables" where
  "evict_loop live target n t evicted =
     (case live n t of
        None \<Rightarrow> (None, t)
      | Some bytes \<Rightarrow>
          if bytes \<le> target then (Some evicted, t)
          else
            let keys = map fst (take (eviction_batch bytes target (length (ct_access t))) (lru_order t)) in
            if keys = [] then
              let removed = map fst (take EVICTION_BATCH (payload_order t)) in
              if removed = [] then (Some evicted, t)
              else evict_loop live target (Suc n) (t\<lparr>ct_payloads := filter (\<lambda>(k, _). k \<notin> set removed) (ct_payloads t)\<rparr>)
                     (evicted + length removed)
            else evict_loop live target (Suc n) (drop_keys keys t) (evicted + length keys))"
  by pat_completeness auto

termination
proof (relation "measure (\<lambda>(live, target, n, t, evicted). length (ct_payloads t) + length (ct_access t))", goal_cases)
  case (2 live target n t evicted bytes keys removed)
  have "set removed \<subseteq> fst ` set (ct_payloads t)"
    using 2(5) by (auto simp: payload_order_def dest!: in_set_takeD)
  with drop_keys_shrinks [of removed "ct_payloads t"] 2 show ?case by simp
next
  case (3 live target n t evicted bytes keys)
  have "set keys \<subseteq> fst ` set (ct_access t)"
    using 3(3) by (auto simp: lru_order_def dest!: in_set_takeD)
  from add_le_less_mono [OF length_filter_le drop_keys_shrinks [OF 3(4) this], of "\<lambda>(k, _). k \<notin> set keys" "ct_payloads t"]
  show ?case by (simp add: drop_keys_def)
qed simp

declare evict_loop.simps [simp del]

text \<open>The sizes SQLite and the file system report: when a batch is written, before and after an eviction.\<close>

record sqlite =
  sq_size :: "nat \<Rightarrow> cache_tables \<Rightarrow> nat"
  sq_live :: pager
  sq_vacuum_ok :: bool

record quota_outcome =
  size_before :: nat
  size_after :: nat
  evicted :: nat

definition enforce_quota :: "sqlite \<Rightarrow> index_cache \<Rightarrow> quota_outcome option \<times> index_cache" where
  "enforce_quota lib c =
     (let before = sq_size lib 1 (ic_tables c) in
      if before \<le> ic_max_size c then (Some \<lparr>size_before = before, size_after = before, evicted = 0\<rparr>, c)
      else
        let target = ic_max_size c div 100 * EVICTION_TARGET_PERCENT;
            (result, t) = evict_loop (sq_live lib) target 0 (ic_tables c) 0;
            c' = c\<lparr>ic_tables := t\<rparr> in
        case result of
          None \<Rightarrow> (None, c')
        | Some n \<Rightarrow>
            if \<not> sq_vacuum_ok lib then (None, c')
            else (Some \<lparr>size_before = before, size_after = sq_size lib 2 t, evicted = n\<rparr>, c'\<lparr>ic_evicted := ic_evicted c' + n\<rparr>))"

definition put_batch :: "sqlite \<Rightarrow> bool \<Rightarrow> int \<Rightarrow> (string \<times> string) list \<Rightarrow> index_cache \<Rightarrow> index_cache" where
  "put_batch lib fault now entries c =
     (if entries = [] \<and> ic_touched c = [] then c
      else
        let c1 = c\<lparr>ic_touched := []\<rparr> in
        if fault then c1\<lparr>ic_errors := ic_errors c1 + 1\<rparr>
        else
          let c2 = c1\<lparr>ic_tables := commit_batch now entries (ic_touched c) (ic_tables c1)\<rparr> in
          if length entries > QUOTA_CHECK_MIN_WRITES \<or> sq_size lib 0 (ic_tables c2) > ic_max_size c2 then
            case enforce_quota lib c2 of
              (Some _, c3) \<Rightarrow> c3
            | (None, c3) \<Rightarrow> c3\<lparr>ic_errors := ic_errors c3 + 1\<rparr>
          else c2)"

section \<open>Keys name what they were computed from\<close>

lemma repo_le_bytes_inj: "repo_le_bytes r = repo_le_bytes r' \<Longrightarrow> r = r'"
proof -
  have b: "unat r < 256 * 256" for r :: repo_id using unsigned_less [of r] by simp
  assume "repo_le_bytes r = repo_le_bytes r'"
  then have "unat r mod 256 = unat r' mod 256" "(unat r div 256) mod 256 = (unat r' div 256) mod 256"
    by (simp_all add: repo_le_bytes_def char_of_eq_iff take_bit_eq_mod)
  moreover have "(unat r div 256) mod 256 = unat r div 256" for r :: repo_id using b [of r] by simp
  ultimately have "unat r = unat r'" by (metis div_mult_mod_eq)
  then show "r = r'" by (simp add: unsigned_word_eqI)
qed

lemma key_input_inj:
  assumes "length h = 32" "length h' = 32" "length f = 32" "length f' = 32" "key_input p h r f = key_input p' h' r' f'"
  shows "path_str p = path_str p' \<and> h = h' \<and> r = r' \<and> f = f'"
proof -
  have eq: "(path_str p @ h) @ (repo_le_bytes r @ f) = (path_str p' @ h') @ (repo_le_bytes r' @ f')"
    using assms(5) by (simp add: key_input_def)
  have "length (repo_le_bytes r @ f) = length (repo_le_bytes r' @ f')" using assms(3,4) by (simp add: repo_le_bytes_def)
  note parts = iffD1 [OF append_eq_append_conv [OF disjI2 [OF this]] eq]
  have "length h = length h'" using assms(1,2) by simp
  note first = iffD1 [OF append_eq_append_conv [OF disjI2 [OF this]] conjunct1 [OF parts]]
  have "repo_le_bytes r = repo_le_bytes r' \<and> f = f'" using parts by (simp add: repo_le_bytes_def)
  then show ?thesis using first repo_le_bytes_inj by simp
qed

text \<open>
  The key of a cached extraction determines everything the extraction depends on: two lookups that agree on the key agree on
  the path as text, the content hash, the repository and the configuration fingerprint, although the fields are concatenated
  without separators. Digests are 32 bytes and the two inputs do not collide.
\<close>

theorem key_for_injective:
  assumes "inj_on sha256 {key_input p h r f, key_input p' h' r' f'}" "length h = 32" "length h' = 32" "length f = 32" "length f' = 32"
    and "key_for sha256 p h r f = key_for sha256 p' h' r' f'"
  shows "path_str p = path_str p' \<and> h = h' \<and> r = r' \<and> f = f'"
  using key_input_inj [OF assms(2-5) inj_onD [OF assms(1) assms(6) [unfolded key_for_def]]] by simp

definition demo_digest :: "char \<Rightarrow> string" where
  "demo_digest c = replicate 32 c"

theorem key_for_injective_witness:
  "length (demo_digest CHR ''a'') = 32
   \<and> key_for id [Normal ''src''] (demo_digest CHR ''a'') 1 (demo_digest CHR ''b'')
       = key_for id (path_of_str ''src'') (demo_digest CHR ''a'') 1 (demo_digest CHR ''b'')
   \<and> path_str [Normal ''src''] = path_str (path_of_str ''src'')"
proof -
  have len: "length (demo_digest c) = 32" for c by (simp add: demo_digest_def)
  have key: "key_for id [Normal ''src''] (demo_digest CHR ''a'') 1 (demo_digest CHR ''b'')
       = key_for id (path_of_str ''src'') (demo_digest CHR ''a'') 1 (demo_digest CHR ''b'')"
    by (rule arg_cong [of _ _ "\<lambda>p. key_for id p _ _ _"]) code_simp
  show ?thesis using key_for_injective [OF inj_on_id len len len len key] key len by blast
qed

section \<open>Eviction\<close>

definition recency :: "access_row \<Rightarrow> int \<times> nat" where
  "recency a = (ar_last a, ar_rowid a)"

definition tables_ok :: "cache_tables \<Rightarrow> bool" where
  "tables_ok t \<longleftrightarrow> distinct (map fst (ct_payloads t)) \<and> distinct (map fst (ct_access t))
     \<and> fst ` set (ct_payloads t) = fst ` set (ct_access t)"

lemma distinct_filter_keys: "distinct (map fst xs) \<Longrightarrow> distinct (map fst (filter P xs))"
  by (induction xs) auto

lemma filter_keys: "fst ` set (filter (\<lambda>(k, _). k \<notin> set ks) xs) = fst ` set xs - set ks"
  by force

lemma tables_ok_drop: "tables_ok t \<Longrightarrow> tables_ok (drop_keys ks t)"
  by (simp add: tables_ok_def drop_keys_def distinct_filter_keys filter_keys del: set_filter)

lemma drop_keys_twice: "drop_keys ks' (drop_keys ks t) = drop_keys (ks @ ks') t"
  by (auto simp: drop_keys_def intro!: filter_cong)

lemma drop_no_keys [simp]: "drop_keys [] t = t"
  by (simp add: drop_keys_def case_prod_unfold)

lemma lru_order_set [simp]: "set (lru_order t) = set (ct_access t)" "length (lru_order t) = length (ct_access t)"
  by (simp_all add: lru_order_def)

lemma lru_order_sorted: "sorted (map (\<lambda>(k, a). recency a) (lru_order t))"
  using sorted_sort_key [of "\<lambda>(k, a). recency a" "ct_access t"] by (simp add: lru_order_def recency_def)

text \<open>The rows a round leaves are no less recent than those it drops.\<close>

lemma round_oldest:
  assumes "tables_ok t" "(k, a) \<in> set (take b (lru_order t))" "(k', a') \<in> set (ct_access (drop_keys (map fst (take b (lru_order t))) t))"
  shows "recency a \<le> recency a'"
proof -
  have "(k', a') \<in> set (lru_order t)" "(k', a') \<notin> set (take b (lru_order t))"
    using assms(3) by (force simp: drop_keys_def)+
  then have "(k', a') \<in> set (drop b (lru_order t))" by (metis UnE append_take_drop_id set_append)
  moreover have "sorted_wrt (\<lambda>x y. recency (snd x) \<le> recency (snd y)) (take b (lru_order t) @ drop b (lru_order t))"
    using lru_order_sorted [of t] by (simp add: sorted_wrt_map case_prod_unfold)
  ultimately show ?thesis using assms(2) unfolding sorted_wrt_append by fastforce
qed


text \<open>What a run of the loop does: it drops a set of keys from both tables, the oldest ones, and says how many.\<close>

definition evicts :: "cache_tables \<Rightarrow> string list \<Rightarrow> bool" where
  "evicts t ks \<longleftrightarrow> distinct ks \<and> set ks \<subseteq> fst ` set (ct_access t)
     \<and> (\<forall>k a k' a'. (k, a) \<in> set (ct_access t) \<and> k \<in> set ks \<and> (k', a') \<in> set (ct_access t) \<and> k' \<notin> set ks \<longrightarrow> recency a \<le> recency a')"

lemma access_unique: "tables_ok t \<Longrightarrow> (k, a) \<in> set (ct_access t) \<Longrightarrow> (k, b) \<in> set (ct_access t) \<Longrightarrow> a = b"
  by (auto simp: tables_ok_def dest: eq_key_imp_eq_value)

lemma evicts_round:
  assumes ok: "tables_ok t" and ks: "ks = map fst (take b (lru_order t))" and rest: "evicts (drop_keys ks t) ks'"
  shows "evicts t (ks @ ks')"
proof -
  have "distinct (map fst (lru_order t))"
    using ok by (simp add: tables_ok_def lru_order_def distinct_map inj_on_def)
  then have d: "distinct ks" by (simp add: ks flip: take_map)
  have sub: "set ks \<subseteq> fst ` set (ct_access t)" by (auto simp: ks dest!: in_set_takeD)
  have sub': "set ks' \<subseteq> fst ` set (ct_access t) - set ks" using rest by (force simp: evicts_def drop_keys_def)
  have "recency a \<le> recency a'"
    if a: "(k, a) \<in> set (ct_access t)" "k \<in> set (ks @ ks')" and a': "(k', a') \<in> set (ct_access t)" "k' \<notin> set (ks @ ks')" for k a k' a'
  proof (cases "k \<in> set ks")
    case True
    then obtain a2 where a2: "(k, a2) \<in> set (take b (lru_order t))" by (auto simp: ks)
    then have "a2 = a" using access_unique [OF ok _ a(1)] by (auto dest!: in_set_takeD)
    moreover have "(k', a') \<in> set (ct_access (drop_keys ks t))" using a' by (simp add: drop_keys_def)
    ultimately show ?thesis using round_oldest [OF ok, of k a2 b k' a'] a2 by (simp add: ks)
  next
    case False
    then show ?thesis using rest a a' by (simp add: evicts_def drop_keys_def)
  qed
  then show ?thesis using d sub sub' rest by (auto simp: evicts_def)
qed

lemma evict_loop_step:
  assumes "live n t = Some bytes" "\<not> bytes \<le> target" "tables_ok t" "ct_access t \<noteq> []"
  shows "evict_loop live target n t e
    = evict_loop live target (Suc n) (drop_keys (map fst (take (eviction_batch bytes target (length (ct_access t))) (lru_order t))) t)
        (e + length (take (eviction_batch bytes target (length (ct_access t))) (lru_order t)))"
proof -
  have "take (eviction_batch bytes target (length (ct_access t))) (lru_order t) \<noteq> []"
    using assms(4) by (simp add: eviction_batch_def Let_def lru_order_def) (metis length_0_conv length_sort)
  then show ?thesis using assms(1,2) by (simp add: evict_loop.simps [of live target n t] Let_def)
qed

lemma evict_loop_evicts:
  assumes "tables_ok t"
  shows "\<exists>ks. snd (evict_loop live target n t e) = drop_keys ks t \<and> evicts t ks
    \<and> (\<forall>m. fst (evict_loop live target n t e) = Some m \<longrightarrow> m = e + length ks
         \<and> (ct_access (drop_keys ks t) = [] \<or> (\<exists>j bytes. live j (drop_keys ks t) = Some bytes \<and> bytes \<le> target)))"
  using assms
proof (induction "length (ct_access t)" arbitrary: n t e rule: less_induct)
  case less
  have base: "evicts t []" by (simp add: evicts_def)
  consider (fail) "live n t = None" | (fits) bytes where "live n t = Some bytes" "bytes \<le> target"
    | (empty) bytes where "live n t = Some bytes" "\<not> bytes \<le> target" "ct_access t = []"
    | (round) bytes where "live n t = Some bytes" "\<not> bytes \<le> target" "ct_access t \<noteq> []" by (cases "live n t") auto
  then show ?case
  proof cases
    case empty
    then have "ct_payloads t = []" using less.prems by (simp add: tables_ok_def)
    with empty base show ?thesis
      by (intro exI [of _ "[]"]) (simp add: evict_loop.simps [of live target n t] Let_def lru_order_def payload_order_def)
  next
    case round
    define ks where "ks = map fst (take (eviction_batch bytes target (length (ct_access t))) (lru_order t))"
    have ne: "ks \<noteq> []" using round(3)
      by (simp add: ks_def eviction_batch_def Let_def lru_order_def) (metis length_0_conv length_sort)
    have "set ks \<subseteq> fst ` set (ct_access t)" by (auto simp: ks_def dest!: in_set_takeD)
    from drop_keys_shrinks [OF ne this] have "length (ct_access (drop_keys ks t)) < length (ct_access t)"
      by (simp only: drop_keys_def cache_tables.simps)
    note IH = less.hyps [OF this tables_ok_drop [OF less.prems], of "Suc n" "e + length ks"]
    have step: "evict_loop live target n t e = evict_loop live target (Suc n) (drop_keys ks t) (e + length ks)"
      using evict_loop_step [of live n t bytes, OF round(1,2) less.prems round(3)] by (simp add: ks_def)
    from IH obtain ks' where ks': "snd (evict_loop live target n t e) = drop_keys ks' (drop_keys ks t)" "evicts (drop_keys ks t) ks'"
      "\<forall>m. fst (evict_loop live target n t e) = Some m \<longrightarrow> m = e + length ks + length ks' \<and> (ct_access (drop_keys ks' (drop_keys ks t)) = []
         \<or> (\<exists>j bytes. live j (drop_keys ks' (drop_keys ks t)) = Some bytes \<and> bytes \<le> target))"
      unfolding step by blast
    then show ?thesis
      using evicts_round [OF less.prems ks_def ks'(2)] by (intro exI [of _ "ks @ ks'"]) (simp add: drop_keys_twice add.assoc)
  qed (use base in \<open>auto simp: evict_loop.simps [of live target n t] intro!: exI [of _ "[]"]\<close>)
qed


text \<open>
  C33: a cache over its quota loses its least recently used entries and nothing else. Whatever SQLite reports, when
  the enforcement succeeds, what was dropped is dropped from both tables, is counted, and is no more recent than anything kept (ties by storage order); and it
  only stops because the live data fits in 80 % of the quota or nothing is left.
\<close>

theorem quota_evicts_oldest:
  assumes "tables_ok (ic_tables c)" "enforce_quota lib c = (Some q, c')"
  shows "\<exists>ks. ic_tables c' = drop_keys ks (ic_tables c) \<and> evicts (ic_tables c) ks
    \<and> evicted q = length ks \<and> ic_evicted c' = ic_evicted c + length ks
    \<and> (size_before q \<le> ic_max_size c \<or> ct_payloads (ic_tables c') = []
       \<or> (\<exists>j bytes. sq_live lib j (ic_tables c') = Some bytes \<and> bytes \<le> ic_max_size c div 100 * 80))"
proof (cases "sq_size lib 1 (ic_tables c) \<le> ic_max_size c")
  case True
  then show ?thesis using assms(2) by (intro exI [of _ "[]"]) (auto simp: enforce_quota_def evicts_def Let_def)
next
  case False
  let ?r = "evict_loop (sq_live lib) (ic_max_size c div 100 * EVICTION_TARGET_PERCENT) 0 (ic_tables c) 0"
  from evict_loop_evicts [OF assms(1), of "sq_live lib" "ic_max_size c div 100 * EVICTION_TARGET_PERCENT" 0 0]
  obtain ks where ks: "snd ?r = drop_keys ks (ic_tables c)" "evicts (ic_tables c) ks"
    and m: "\<forall>m. fst ?r = Some m \<longrightarrow> m = 0 + length ks \<and> (ct_access (drop_keys ks (ic_tables c)) = []
      \<or> (\<exists>j bytes. sq_live lib j (drop_keys ks (ic_tables c)) = Some bytes \<and> bytes \<le> ic_max_size c div 100 * EVICTION_TARGET_PERCENT))"
    by blast
  obtain n where n: "fst ?r = Some n" "evicted q = n" "ic_tables c' = snd ?r" "ic_evicted c' = ic_evicted c + n"
    using assms(2) False by (auto simp: enforce_quota_def Let_def split: prod.splits option.splits if_splits)
  have "ct_payloads (drop_keys ks (ic_tables c)) = []" if "ct_access (drop_keys ks (ic_tables c)) = []"
    using tables_ok_drop [OF assms(1), of ks] that by (simp add: tables_ok_def)
  then show ?thesis using n ks m [rule_format, OF n(1)] by (intro exI [of _ ks]) (auto simp: EVICTION_TARGET_PERCENT_def)
qed

section \<open>Every hit was written\<close>

datatype cache_op = GetOp bool string | PutOp sqlite bool int "(string \<times> string) list" | QuotaOp sqlite

fun cache_step :: "cache_op \<Rightarrow> index_cache \<Rightarrow> index_cache" where
  "cache_step (GetOp fault key) c = snd (ic_get fault key c)"
| "cache_step (PutOp lib fault now entries) c = put_batch lib fault now entries c"
| "cache_step (QuotaOp lib) c = snd (enforce_quota lib c)"

fun cache_op_ok :: "(string \<times> string) set \<Rightarrow> cache_op \<Rightarrow> index_cache \<Rightarrow> bool" where
  "cache_op_ok W (PutOp lib fault now entries) c = (set entries \<subseteq> W)"
| "cache_op_ok W _ c = True"

definition tables_of :: "(string \<times> string) set \<Rightarrow> cache_tables \<Rightarrow> bool" where
  "tables_of W t \<longleftrightarrow> tables_ok t \<and> (\<forall>(k, row) \<in> set (ct_payloads t). (k, pr_payload row) \<in> W)"

lemma tables_of_drop: "tables_of W t \<Longrightarrow> tables_of W (drop_keys ks t)"
  using tables_ok_drop [of t ks] by (auto simp: tables_of_def drop_keys_def)

lemma hm_remove_keys: "fst ` set (hm_remove k m) = fst ` set m - {k}" "distinct (map fst m) \<Longrightarrow> distinct (map fst (hm_remove k m))"
  "set (hm_remove k m) \<subseteq> set m"
  by (force simp: hm_remove_def distinct_filter_keys)+

lemma tables_of_write: "tables_of W t \<Longrightarrow> e \<in> W \<Longrightarrow> tables_of W (write_entry now e t)"
  using hm_remove_keys [where k = "fst e" and m = "ct_payloads t"]
  by (cases e) (auto simp: tables_of_def tables_ok_def write_entry_def Let_def keys_hm_insert distinct_hm_insert subset_iff)

lemma tables_of_bump: "tables_of W t \<Longrightarrow> tables_of W (bump_access now k t)"
  by (auto simp: tables_of_def tables_ok_def bump_access_def case_prod_unfold o_def image_image)

lemma tables_of_commit: "tables_of W t \<Longrightarrow> set entries \<subseteq> W \<Longrightarrow> tables_of W (commit_batch now entries touched t)"
proof -
  assume "tables_of W t" "set entries \<subseteq> W"
  then have "tables_of W (fold (write_entry now) entries t)" by (induction entries arbitrary: t) (auto simp: tables_of_write)
  then show ?thesis unfolding commit_batch_def by (induction touched arbitrary: t entries) (auto simp: tables_of_bump fold_invariant)
qed


lemma enforce_quota_tables:
  assumes "tables_ok (ic_tables c)"
  shows "\<exists>ks. ic_tables (snd (enforce_quota lib c)) = drop_keys ks (ic_tables c)"
proof -
  let ?r = "evict_loop (sq_live lib) (ic_max_size c div 100 * EVICTION_TARGET_PERCENT) 0 (ic_tables c) 0"
  have "ic_tables (snd (enforce_quota lib c)) = ic_tables c \<or> ic_tables (snd (enforce_quota lib c)) = snd ?r"
    by (auto simp: enforce_quota_def Let_def split: prod.splits option.splits if_splits)
  then show ?thesis
    using evict_loop_evicts [OF assms, of "sq_live lib" "ic_max_size c div 100 * EVICTION_TARGET_PERCENT" 0 0] drop_no_keys by metis
qed

lemma tables_of_quota: "tables_of W (ic_tables c) \<Longrightarrow> tables_of W (ic_tables (snd (enforce_quota lib c)))"
  using enforce_quota_tables [of c lib] tables_of_drop by (metis tables_of_def)

lemma put_batch_tables:
  "ic_tables (put_batch lib fault now entries c) \<in>
     {ic_tables c, commit_batch now entries (ic_touched c) (ic_tables c),
      ic_tables (snd (enforce_quota lib (c\<lparr>ic_touched := [], ic_tables := commit_batch now entries (ic_touched c) (ic_tables c)\<rparr>)))}"
  by (auto simp: put_batch_def Let_def split: prod.splits option.splits)

lemma tables_of_step: "tables_of W (ic_tables c) \<Longrightarrow> cache_op_ok W op c \<Longrightarrow> tables_of W (ic_tables (cache_step op c))"
proof (cases op)
  case (GetOp fault key)
  then show "tables_of W (ic_tables c) \<Longrightarrow> ?thesis" by (simp add: ic_get_def split: option.splits)
next
  case (PutOp lib fault now entries)
  let ?t = "commit_batch now entries (ic_touched c) (ic_tables c)"
  assume "tables_of W (ic_tables c)" "cache_op_ok W op c"
  then have "tables_of W (ic_tables c)" "tables_of W ?t" using PutOp by (simp_all add: tables_of_commit)
  with tables_of_quota [of W "c\<lparr>ic_touched := [], ic_tables := ?t\<rparr>" lib] put_batch_tables [of lib fault now entries c]
  show ?thesis using PutOp by auto
qed (simp add: tables_of_quota)

interpretation cache_machine: invariant_machine cache_step "cache_op_ok W" "cache_opened max_size" "\<lambda>c. tables_of W (ic_tables c)" for W max_size
  by unfold_locales (simp_all add: tables_of_step, simp add: tables_of_def tables_ok_def cache_opened_def)

fun entries_of :: "cache_op list \<Rightarrow> (string \<times> string) list" where
  "entries_of [] = []"
| "entries_of (PutOp lib fault now entries # ops) = entries @ entries_of ops"
| "entries_of (_ # ops) = entries_of ops"

lemma entries_allowed: "set (entries_of ops) \<subseteq> W \<Longrightarrow> cache_machine.run_allowed W ops c"
proof (induction ops arbitrary: c)
  case (Cons op ops)
  then show ?case by (cases op) auto
qed simp

text \<open>
  In every run of the cache - lookups and batches in any order, failing statements, evictions - a lookup that hits returns
  bytes that an earlier batch wrote under that very key, and each payload has exactly one access row, so no entry escapes eviction.
\<close>

theorem hits_were_written:
  assumes "fst (ic_get fault key (fold cache_step ops (cache_opened max_size))) = Some payload"
  shows "(key, payload) \<in> set (entries_of ops) \<and> tables_ok (ic_tables (fold cache_step ops (cache_opened max_size)))"
proof -
  let ?c = "fold cache_step ops (cache_opened max_size)"
  have inv: "tables_of (set (entries_of ops)) (ic_tables ?c)"
    by (rule cache_machine.inv_run [OF entries_allowed]) simp
  obtain row where "(key, row) \<in> set (ct_payloads (ic_tables ?c))" "pr_payload row = payload"
    using assms by (auto simp: ic_get_def dest: map_of_SomeD split: if_splits option.splits)
  with inv show ?thesis by (auto simp: tables_of_def)
qed

lemma write_entry_payload:
  "map_of (ct_payloads (write_entry now (k, b) t)) k'
     = (if k' = k then Some \<lparr>pr_rowid = next_rowid (ct_payloads t), pr_payload = b, pr_updated = now\<rparr> else map_of (ct_payloads t) k')"
  using map_of_filter_key [of "\<lambda>x. x \<noteq> k" "ct_payloads t" k']
  by (auto simp: write_entry_def Let_def hm_remove_def map_add_def split: option.splits)

lemma bump_payloads: "ct_payloads (fold (bump_access now) ks t) = ct_payloads t"
  by (induction ks arbitrary: t) (simp_all add: bump_access_def)

lemma commit_payload:
  "map_option pr_payload (map_of (ct_payloads (commit_batch now entries touched t)) k)
     = (case map_of (rev entries) k of Some b \<Rightarrow> Some b | None \<Rightarrow> map_option pr_payload (map_of (ct_payloads t) k))"
proof -
  have "map_option pr_payload (map_of (ct_payloads (fold (write_entry now) entries t)) k)
     = (case map_of (rev entries) k of Some b \<Rightarrow> Some b | None \<Rightarrow> map_option pr_payload (map_of (ct_payloads t) k))"
    by (induction entries arbitrary: t) (auto simp: write_entry_payload map_add_def split: option.splits)
  then show ?thesis by (simp add: commit_batch_def bump_payloads)
qed


section \<open>A small cache\<close>

definition small_sqlite :: "nat \<Rightarrow> sqlite" where
  "small_sqlite page = \<lparr>sq_size = (\<lambda>_ t. page * length (ct_payloads t)), sq_live = (\<lambda>_ t. Some (page * length (ct_payloads t))), sq_vacuum_ok = True\<rparr>"

definition three_entries :: index_cache where
  "three_entries = (cache_opened 200)\<lparr>ic_tables := commit_batch 7 [(''b'', ''B'')] [''c''] (commit_batch 5 [(''a'', ''A''), (''b'', ''x''), (''c'', ''C'')] []
     \<lparr>ct_payloads = [], ct_access = []\<rparr>)\<rparr>"


theorem hits_were_written_witness:
  "fst (ic_get False ''k'' (fold cache_step [PutOp (small_sqlite 0) False 3 [(''k'', ''v'')]] (cache_opened 10))) = Some ''v''
   \<and> (''k'', ''v'') \<in> set (entries_of [PutOp (small_sqlite 0) False 3 [(''k'', ''v'')]])"
proof -
  have "fst (ic_get False ''k'' (fold cache_step [PutOp (small_sqlite 0) False 3 [(''k'', ''v'')]] (cache_opened 10))) = Some ''v''"
    by (simp add: put_batch_def small_sqlite_def cache_opened_def commit_batch_def write_entry_def Let_def hm_remove_def ic_get_def
        QUOTA_CHECK_MIN_WRITES_def)
  with hits_were_written [OF this] show ?thesis by blast
qed


lemma three_entries_tables:
  "ic_tables three_entries =
     \<lparr>ct_payloads = [(''a'', \<lparr>pr_rowid = 1, pr_payload = ''A'', pr_updated = 5\<rparr>), (''c'', \<lparr>pr_rowid = 3, pr_payload = ''C'', pr_updated = 5\<rparr>),
        (''b'', \<lparr>pr_rowid = 4, pr_payload = ''B'', pr_updated = 7\<rparr>)],
      ct_access = [(''a'', \<lparr>ar_last = 5, ar_rowid = 1\<rparr>), (''b'', \<lparr>ar_last = 7, ar_rowid = 4\<rparr>), (''c'', \<lparr>ar_last = 7, ar_rowid = 3\<rparr>)]\<rparr>"
  by (simp add: three_entries_def cache_opened_def commit_batch_def write_entry_def bump_access_def Let_def hm_remove_def next_rowid_def)

lemma three_entries_evict:
  "\<exists>c'. enforce_quota (small_sqlite 100) three_entries = (Some \<lparr>size_before = 300, size_after = 100, evicted = 2\<rparr>, c')"
proof -
  let ?left = "\<lparr>ct_payloads = [(''b'', \<lparr>pr_rowid = 4, pr_payload = ''B'', pr_updated = 7\<rparr>)], ct_access = [(''b'', \<lparr>ar_last = 7, ar_rowid = 4\<rparr>)]\<rparr>"
  have b: "eviction_batch 300 160 (Suc (Suc (Suc 0))) = Suc (Suc 0)"
    by (simp add: eviction_batch_def Let_def div_ceil_def EVICTION_BATCH_def)
  have max: "ic_max_size three_entries = 200" by (simp add: three_entries_def cache_opened_def)
  have stop: "evict_loop (sq_live (small_sqlite 100)) 160 (Suc 0) ?left 2 = (Some 2, ?left)"
    by (simp add: evict_loop.simps small_sqlite_def)
  have "lru_order (ic_tables three_entries)
      = [(''a'', \<lparr>ar_last = 5, ar_rowid = 1\<rparr>), (''c'', \<lparr>ar_last = 7, ar_rowid = 3\<rparr>), (''b'', \<lparr>ar_last = 7, ar_rowid = 4\<rparr>)]"
    by (simp add: lru_order_def three_entries_tables)
  then have "evict_loop (sq_live (small_sqlite 100)) 160 0 (ic_tables three_entries) 0
      = evict_loop (sq_live (small_sqlite 100)) 160 (Suc 0) ?left 2"
    by (subst evict_loop.simps) (simp add: small_sqlite_def three_entries_tables Let_def b drop_keys_def numeral_2_eq_2)
  then show ?thesis
    using stop by (simp add: enforce_quota_def Let_def max EVICTION_TARGET_PERCENT_def)
      (simp add: small_sqlite_def three_entries_tables)
qed

theorem quota_evicts_oldest_witness:
  "\<exists>q c' ks. enforce_quota (small_sqlite 100) three_entries = (Some q, c') \<and> evicted q = 2
     \<and> ic_tables c' = drop_keys ks (ic_tables three_entries) \<and> evicts (ic_tables three_entries) ks \<and> length ks = 2"
proof -
  have ok: "tables_ok (ic_tables three_entries)" by (auto simp: three_entries_tables tables_ok_def)
  obtain c' where c': "enforce_quota (small_sqlite 100) three_entries = (Some \<lparr>size_before = 300, size_after = 100, evicted = 2\<rparr>, c')"
    using three_entries_evict by blast
  from quota_evicts_oldest [OF ok c'] c' show ?thesis by fastforce
qed

end
