(* ===== verification/Index_Pass.thy ===== *)
theory Index_Pass
  imports Utf8 File_Index Index_Cache Property_Registry Doc_Search Ast_Guard Index_Health Snapshot_Cache Crawler Config_Reload
begin

text \<open>
  One scan of \<^verbatim>\<open>crates/mesh-server/src/indexer.rs\<close>: the settings a scan resolves from the configuration, reading, guarding and
  extracting one file (with the persistent cache), the pass over a list of files with its retries and its account of
  rejections, and folding a fragment into a snapshot. The disk is what the pass reads; the language extractors, the JSON
  serializer and the libraries of the other components are parameters. Extraction depends on the configuration through its
  debug text and on import aliases through the text they are fingerprinted by. The files of a pass are taken in list order.
\<close>

section \<open>Settings of a scan\<close>

record spring_settings =
  ss_file_matcher :: "(path \<Rightarrow> bool) option"
  ss_resolve_placeholders :: bool
  ss_auto_redact :: bool

record toggles =
  tg_docs :: bool
  tg_contracts :: bool
  tg_doc_paths :: "exclude_matcher option"

record scan_lib =
  sl_sha256 :: "string \<Rightarrow> string"
  sl_glob :: glob_lib
  sl_builds :: bool
  sl_sources :: "string list \<Rightarrow> (path \<Rightarrow> bool) option"
  sl_layout :: layout
  sl_number :: "yaml \<Rightarrow> string"
  sl_yaml :: "string \<Rightarrow> yaml_error + yaml"
  sl_extract :: "string \<Rightarrow> string option \<Rightarrow> bool \<Rightarrow> path \<Rightarrow> string \<Rightarrow> repo_id \<Rightarrow> file_index"
  sl_to_json :: "file_index \<Rightarrow> string option"
  sl_of_json :: "string \<Rightarrow> file_index option"
  sl_sqlite :: sqlite
  sl_get_fault :: "string \<Rightarrow> bool"
  sl_put_fault :: bool
  sl_now :: int

record scan_config =
  sc_has_patterns :: bool
  sc_custom :: "path \<Rightarrow> string \<Rightarrow> repo_id \<Rightarrow> file_index"
  sc_doc_template :: doc_index
  sc_spring :: spring_settings
  sc_extract_repr :: string
  sc_aliases :: "path \<Rightarrow> string option"
  sc_toggles :: toggles

definition spring_from_config :: "scan_lib \<Rightarrow> config \<Rightarrow> spring_settings" where
  "spring_from_config lib c =
     (case Option.bind (ec_contracts (cfg_engines c)) cc_spring of
        Some spring \<Rightarrow>
          \<lparr>ss_file_matcher = (if property_files spring = [] then None
             else Some (compile_sources (gl_valid (sl_glob lib)) (sl_sources lib) (property_files spring))),
           ss_resolve_placeholders = resolve_placeholders spring, ss_auto_redact = auto_redact_secrets spring\<rparr>
      | None \<Rightarrow> \<lparr>ss_file_matcher = None, ss_resolve_placeholders = True, ss_auto_redact = True\<rparr>)"

definition is_property_source :: "spring_settings \<Rightarrow> path \<Rightarrow> bool" where
  "is_property_source s p = (case ss_file_matcher s of Some matcher \<Rightarrow> matcher p | None \<Rightarrow> True)"

text \<open>\<^term>\<open>entries\<close> lists a hash map in its iteration order.\<close>

definition doc_index_for :: "(str_map \<Rightarrow> (string, string) hmap) \<Rightarrow> config \<Rightarrow> doc_index" where
  "doc_index_for entries c =
     (case ec_docs (cfg_engines c) of
        Some docs \<Rightarrow> doc_index_new (entries (docs_aliases docs)) (docs_config.stop_words docs)
          (of_nat (docs_config.exact_phrase_boost docs)) (sanitize_prompt_injections docs) (docs_config.fuzzy_fallback docs)
      | None \<Rightarrow> doc_index_default)"

definition engine_toggles :: "scan_lib \<Rightarrow> config \<Rightarrow> toggles" where
  "engine_toggles lib c =
     (let docs = ec_docs (cfg_engines c) in
      \<lparr>tg_docs = (case docs of None \<Rightarrow> True | Some d \<Rightarrow> docs_enabled d),
       tg_contracts = (case ec_contracts (cfg_engines c) of None \<Rightarrow> True | Some k \<Rightarrow> contracts_enabled k),
       tg_doc_paths = (case docs of
          None \<Rightarrow> None
        | Some d \<Rightarrow> if docs_paths d = [] then None else Some (compile_matcher (sl_glob lib) (sl_builds lib) (docs_paths d)))\<rparr>)"

definition doc_path_allowed :: "glob_lib \<Rightarrow> path \<Rightarrow> path \<Rightarrow> exclude_matcher option \<Rightarrow> bool" where
  "doc_path_allowed gl p root doc_paths =
     (case doc_paths of
        None \<Rightarrow> True
      | Some matcher \<Rightarrow>
          (case path_strip_prefix root p of
             Some rel \<Rightarrow> fst (is_excluded_with_root gl rel (Some root) matcher)
           | None \<Rightarrow> True))"

section \<open>One file\<close>

record disk =
  dk_metadata :: "path \<Rightarrow> file_metadata option"
  dk_read :: "path \<Rightarrow> string option"

datatype reject_kind = RkOversized | RkBinary | RkLongLine nat | RkDeepNesting nat | RkReadError

record file_fragment =
  ff_path :: path
  ff_signature :: file_signature
  ff_code :: file_index
  ff_docs :: "doc_section list"
  ff_props :: "registry option"
  ff_cache_write :: "(string \<times> string) option"

definition config_fingerprint :: "(string \<Rightarrow> string) \<Rightarrow> string \<Rightarrow> string" where
  "config_fingerprint sha256 repr = sha256 repr"

definition file_fingerprint :: "(string \<Rightarrow> string) \<Rightarrow> string \<Rightarrow> string option \<Rightarrow> string" where
  "file_fingerprint sha256 repr aliases =
     (case aliases of
        Some a \<Rightarrow> sha256 (config_fingerprint sha256 repr @ a)
      | None \<Rightarrow> config_fingerprint sha256 repr)"

text \<open>\<^term>\<open>alone\<close> is the retry outside the pool: whether a parse finishes in its time budget depends on the load.\<close>

definition extract_with_cache ::
  "scan_lib \<Rightarrow> scan_config \<Rightarrow> bool \<Rightarrow> path \<Rightarrow> string \<Rightarrow> repo_id \<Rightarrow> string \<Rightarrow> index_cache option
   \<Rightarrow> (file_index \<times> (string \<times> string) option) \<times> index_cache option" where
  "extract_with_cache lib cfg alone p content repo content_hash cache =
     (let code = sl_extract lib (sc_extract_repr cfg) (sc_aliases cfg p) alone p content repo in
      case cache of
        None \<Rightarrow> ((code, None), None)
      | Some c \<Rightarrow>
          let key = key_for (sl_sha256 lib) p content_hash repo (file_fingerprint (sl_sha256 lib) (sc_extract_repr cfg) (sc_aliases cfg p));
              (hit, c') = ic_get (sl_get_fault lib key) key c in
          case Option.bind hit (sl_of_json lib) of
            Some cached \<Rightarrow> ((cached, None), Some c')
          | None \<Rightarrow>
              if fi_parse_failed code then ((code, None), Some c')
              else ((code, map_option (Pair key) (sl_to_json lib code)), Some c'))"


fun reject_of_guard :: "guard_rejection \<Rightarrow> reject_kind" where
  "reject_of_guard (Ast_Guard.Oversized _ _) = RkOversized"
| "reject_of_guard Ast_Guard.Binary = RkBinary"
| "reject_of_guard (Ast_Guard.LongLine len) = RkLongLine len"
| "reject_of_guard (Ast_Guard.DeepNesting depth) = RkDeepNesting depth"

definition guard_verdict :: "path \<Rightarrow> file_metadata \<Rightarrow> string \<Rightarrow> guard_rejection + unit" where
  "guard_verdict p md bytes =
     (if lang_grammar (lang_from_path (path_str p)) \<noteq> None then check_path p (md_len md) bytes
      else if looks_binary bytes then Inl Ast_Guard.Binary
      else Inr ())"

text \<open>What the guards let through: the metadata, the bytes and the text.\<close>

definition read_guarded :: "disk \<Rightarrow> path \<Rightarrow> reject_kind + (file_metadata \<times> string)" where
  "read_guarded d p =
     (case dk_metadata d p of
        None \<Rightarrow> Inl RkReadError
      | Some md \<Rightarrow>
          if \<not> within_size_budget p (md_len md) then Inl RkOversized
          else case dk_read d p of
            None \<Rightarrow> Inl RkReadError
          | Some bytes \<Rightarrow>
              (case guard_verdict p md bytes of
                 Inl r \<Rightarrow> Inl (reject_of_guard r)
               | Inr _ \<Rightarrow> if from_utf8 bytes = None then Inl RkReadError else Inr (md, bytes)))"

text \<open>The sections and properties of a file, by extension.\<close>

definition file_ext :: "path \<Rightarrow> string" where
  "file_ext p = (case extension p of Some e \<Rightarrow> e | None \<Rightarrow> [])"

definition docs_of :: "scan_lib \<Rightarrow> scan_config \<Rightarrow> path \<Rightarrow> path \<Rightarrow> string \<Rightarrow> doc_section list" where
  "docs_of lib cfg root p content =
     (if file_ext p = ''md'' \<and> tg_docs (sc_toggles cfg) \<and> doc_path_allowed (sl_glob lib) p root (tg_doc_paths (sc_toggles cfg))
      then parse_sections (sl_layout lib) (sanitize_injections (sc_doc_template cfg)) p content else [])"

definition props_of :: "scan_lib \<Rightarrow> scan_config \<Rightarrow> path \<Rightarrow> string \<Rightarrow> registry option" where
  "props_of lib cfg p content =
     (let reg = with_redaction (ss_auto_redact (sc_spring cfg)) in
      if \<not> is_property_source (sc_spring cfg) p then None
      else if file_ext p = ''properties'' then Some (ingest_properties_str content reg)
      else if file_ext p = ''yml'' \<or> file_ext p = ''yaml'' then Some (snd (ingest_yaml_str (sl_number lib) (sl_yaml lib) content reg))
      else None)"

definition is_code_file :: "path \<Rightarrow> bool" where
  "is_code_file p \<longleftrightarrow> file_ext p \<noteq> ''md'' \<and> file_ext p \<noteq> ''properties''"

definition process_file ::
  "scan_lib \<Rightarrow> scan_config \<Rightarrow> bool \<Rightarrow> disk \<Rightarrow> path \<Rightarrow> repo_id \<Rightarrow> path \<Rightarrow> index_cache option
   \<Rightarrow> (reject_kind + file_fragment) \<times> index_cache option" where
  "process_file lib cfg alone d p repo root cache =
     (case read_guarded d p of
        Inl r \<Rightarrow> (Inl r, cache)
      | Inr (md, content) \<Rightarrow>
          let signature = compute_signature (sl_sha256 lib) md content;
              contracts = tg_contracts (sc_toggles cfg);
              ((code, write), cache') =
                (if is_code_file p \<and> contracts then extract_with_cache lib cfg alone p content repo (fs_hash signature) cache
                 else ((file_index_default, None), cache));
              code' = (if contracts \<and> sc_has_patterns cfg then fi_merge code (sc_custom cfg p content repo) else code) in
          (Inr \<lparr>ff_path = p, ff_signature = signature, ff_code = code', ff_docs = docs_of lib cfg root p content,
             ff_props = props_of lib cfg p content, ff_cache_write = write\<rparr>, cache'))"

section \<open>A pass over files\<close>

definition file_size :: "disk \<Rightarrow> path \<Rightarrow> nat" where
  "file_size d p = (case dk_metadata d p of Some md \<Rightarrow> md_len md | None \<Rightarrow> 0)"

definition record_rejection :: "disk \<Rightarrow> reject_kind \<Rightarrow> path \<Rightarrow> index_health \<Rightarrow> index_health" where
  "record_rejection d reason p h =
     (if is_non_source p then record_skipped_non_source h
      else
        let (h', why, detail) =
          (case reason of
             RkOversized \<Rightarrow> (record_oversized h, Index_Health.Oversized, None)
           | RkBinary \<Rightarrow> (record_guard_rejected h, Index_Health.Binary, None)
           | RkLongLine len \<Rightarrow> (record_guard_rejected h, Index_Health.LongLine, Some len)
           | RkDeepNesting depth \<Rightarrow> (record_guard_rejected h, Index_Health.DeepNesting, Some depth)
           | RkReadError \<Rightarrow> (record_read_error h, Index_Health.ReadError, None)) in
        record_rejected_file_detail p why (file_size d p) detail h')"

definition root_of :: "path list \<Rightarrow> repo_id \<times> path \<Rightarrow> path" where
  "root_of roots f = (case f of (repo, p) \<Rightarrow> if unat repo < length roots then roots ! unat repo else p)"

type_synonym scan_result = "(repo_id \<times> path) \<times> (reject_kind + file_fragment)"

fun scan_files ::
  "scan_lib \<Rightarrow> scan_config \<Rightarrow> bool \<Rightarrow> disk \<Rightarrow> path list \<Rightarrow> (repo_id \<times> path) list \<Rightarrow> index_cache option
   \<Rightarrow> scan_result list \<times> index_cache option" where
  "scan_files lib cfg alone d roots [] cache = ([], cache)"
| "scan_files lib cfg alone d roots (f # fs) cache =
     (let (outcome, cache1) = process_file lib cfg alone d (snd f) (fst f) (root_of roots f) cache;
          (rest, cache2) = scan_files lib cfg alone d roots fs cache1 in
      ((f, outcome) # rest, cache2))"

definition needs_retry :: "scan_result list \<Rightarrow> (repo_id \<times> path) list" where
  "needs_retry rs = map fst (filter (\<lambda>(_, outcome). case outcome of Inr frag \<Rightarrow> fi_parse_failed (ff_code frag) | Inl _ \<Rightarrow> False) rs)"

definition kept_fragments :: "scan_result list \<Rightarrow> file_fragment list" where
  "kept_fragments rs = List.map_filter
     (\<lambda>(_, outcome). case outcome of Inr frag \<Rightarrow> if fi_parse_failed (ff_code frag) then None else Some frag | Inl _ \<Rightarrow> None) rs"

definition retried_fragments :: "scan_result list \<Rightarrow> file_fragment list" where
  "retried_fragments rs = List.map_filter (\<lambda>(_, outcome). case outcome of Inr frag \<Rightarrow> Some frag | Inl _ \<Rightarrow> None) rs"

definition stable_rejects_of :: "disk \<Rightarrow> scan_result list \<Rightarrow> (path \<times> nat \<times> nat) list" where
  "stable_rejects_of d rs = List.map_filter
     (\<lambda>((_, p), outcome). case (outcome, dk_metadata d p) of
        (Inl reason, Some md) \<Rightarrow> if reason = RkReadError then None else Some (p, stat_parts md)
      | _ \<Rightarrow> None) rs"

definition account_first :: "disk \<Rightarrow> scan_result \<Rightarrow> index_health \<Rightarrow> index_health" where
  "account_first d r h =
     (case r of
        ((_, p), Inl reason) \<Rightarrow> record_rejection d reason p h
      | (_, Inr frag) \<Rightarrow> if fi_parse_failed (ff_code frag) then h else record_indexed h)"

definition account_retry :: "disk \<Rightarrow> scan_result \<Rightarrow> index_health \<Rightarrow> index_health" where
  "account_retry d r h =
     (case r of
        ((_, p), Inl reason) \<Rightarrow> record_rejection d reason p h
      | ((_, p), Inr frag) \<Rightarrow>
          if \<not> fi_parse_failed (ff_code frag) then record_indexed h
          else record_rejected_file p Index_Health.ParseFailed (file_size d p) (record_parse_failed (record_indexed h)))"

definition run_scan_pass ::
  "scan_lib \<Rightarrow> scan_config \<Rightarrow> disk \<Rightarrow> path list \<Rightarrow> (repo_id \<times> path) list \<Rightarrow> index_cache option
   \<Rightarrow> (file_fragment list \<times> index_health \<times> (path \<times> nat \<times> nat) list) \<times> index_cache option" where
  "run_scan_pass lib cfg d roots files cache =
     (let (first, cache1) = scan_files lib cfg False d roots files cache;
          (again, cache2) = scan_files lib cfg True d roots (needs_retry first) cache1;
          health = fold (account_retry d) again (fold (account_first d) first (record_scanned (length files) health_default));
          fragments = kept_fragments first @ retried_fragments again;
          writes = List.map_filter ff_cache_write fragments;
          cache3 = map_option (put_batch (sl_sqlite lib) (sl_put_fault lib) (sl_now lib) writes) cache2;
          done = (case cache of None \<Rightarrow> fragments | Some _ \<Rightarrow> map (\<lambda>f. f\<lparr>ff_cache_write := None\<rparr>) fragments) in
      ((done, normalize_rejected health, stable_rejects_of d first), cache3))"

section \<open>Folding a fragment\<close>

record mesh_snapshot =
  sn_graph :: contract_graph
  sn_docs :: doc_index
  sn_props :: registry
  sn_health :: index_health
  sn_roots :: "path list"

text \<open>None where applying the fragment would index out of range.\<close>

definition fold_fragment :: "file_fragment \<Rightarrow> mesh_snapshot \<Rightarrow> mesh_snapshot option" where
  "fold_fragment frag snap =
     map_option (\<lambda>g. snap
         \<lparr>sn_docs := (if ff_docs frag \<noteq> [] then extend_sections (ff_docs frag) (sn_docs snap) else sn_docs snap),
          sn_props := (case ff_props frag of Some props \<Rightarrow> merge props (ff_path frag) (sn_props snap) | None \<Rightarrow> sn_props snap),
          sn_graph := g\<rparr>)
       (apply_index (ff_code frag) (sn_graph snap))"

fun fold_fragments :: "file_fragment list \<Rightarrow> mesh_snapshot \<Rightarrow> mesh_snapshot option" where
  "fold_fragments [] snap = Some snap"
| "fold_fragments (f # fs) snap = Option.bind (fold_fragment f snap) (fold_fragments fs)"


section \<open>The cache changes no extraction\<close>

text \<open>The extractions that occur: configuration text, alias text, file, content and repository.\<close>

type_synonym extraction = "string \<times> string option \<times> path \<times> string \<times> repo_id"

definition extraction_key :: "scan_lib \<Rightarrow> extraction \<Rightarrow> string" where
  "extraction_key lib x = (case x of (repr, aliases, p, content, repo) \<Rightarrow>
     key_for (sl_sha256 lib) p (sl_sha256 lib content) repo (file_fingerprint (sl_sha256 lib) repr aliases))"

definition hashed :: "scan_lib \<Rightarrow> extraction set \<Rightarrow> string set" where
  "hashed lib U = (\<Union>(repr, aliases, p, content, repo) \<in> U.
     {content, repr, key_input p (sl_sha256 lib content) repo (file_fingerprint (sl_sha256 lib) repr aliases)}
     \<union> (case aliases of Some a \<Rightarrow> {config_fingerprint (sl_sha256 lib) repr @ a} | None \<Rightarrow> {}))"

text \<open>
  What the cache relies on: SHA-256 has 32 bytes and no two of the hashed texts collide, no configuration text is itself a digest
  followed by aliases, the serializer reads back what it wrote, a parse that finishes gives the same index under load and alone,
  and extraction sees a path as text.
\<close>

definition extraction_contract :: "scan_lib \<Rightarrow> extraction set \<Rightarrow> bool" where
  "extraction_contract lib U \<longleftrightarrow>
     (\<forall>s. length (sl_sha256 lib s) = 32) \<and> inj_on (sl_sha256 lib) (hashed lib U)
     \<and> (\<forall>repr aliases p c r repr' a p' c' r'. (repr, aliases, p, c, r) \<in> U \<longrightarrow> (repr', Some a, p', c', r') \<in> U
          \<longrightarrow> repr \<noteq> config_fingerprint (sl_sha256 lib) repr' @ a)
     \<and> (\<forall>code bytes. sl_to_json lib code = Some bytes \<longrightarrow> sl_of_json lib bytes = Some code)
     \<and> (\<forall>repr aliases p c r alone alone'. (repr, aliases, p, c, r) \<in> U
          \<longrightarrow> \<not> fi_parse_failed (sl_extract lib repr aliases alone p c r) \<longrightarrow> \<not> fi_parse_failed (sl_extract lib repr aliases alone' p c r)
          \<longrightarrow> sl_extract lib repr aliases alone p c r = sl_extract lib repr aliases alone' p c r)
     \<and> (\<forall>repr aliases p c r alone q. (repr, aliases, p, c, r) \<in> U \<longrightarrow> path_str q = path_str p
          \<longrightarrow> sl_extract lib repr aliases alone q c r = sl_extract lib repr aliases alone p c r)"

lemma extraction_contractD:
  assumes "extraction_contract lib U"
  shows "length (sl_sha256 lib s) = 32" "inj_on (sl_sha256 lib) (hashed lib U)"
    "(repr, aliases, p, c, r) \<in> U \<Longrightarrow> (repr', Some a, p', c', r') \<in> U \<Longrightarrow> repr \<noteq> sl_sha256 lib repr' @ a"
    "sl_to_json lib code = Some bytes \<Longrightarrow> sl_of_json lib bytes = Some code"
    "(repr, aliases, p, c, r) \<in> U \<Longrightarrow> \<not> fi_parse_failed (sl_extract lib repr aliases alone p c r)
       \<Longrightarrow> \<not> fi_parse_failed (sl_extract lib repr aliases alone' p c r)
       \<Longrightarrow> sl_extract lib repr aliases alone p c r = sl_extract lib repr aliases alone' p c r"
    "(repr, aliases, p, c, r) \<in> U \<Longrightarrow> path_str q = path_str p
       \<Longrightarrow> sl_extract lib repr aliases alone q c r = sl_extract lib repr aliases alone p c r"
proof -
  note c = assms [unfolded extraction_contract_def config_fingerprint_def]
  show "length (sl_sha256 lib s) = 32" using conjunct1 [OF c] by simp
  show "inj_on (sl_sha256 lib) (hashed lib U)" by (rule conjunct1 [OF conjunct2 [OF c]])
  show "sl_to_json lib code = Some bytes \<Longrightarrow> sl_of_json lib bytes = Some code" using c by (elim conjE) blast
  show "(repr, aliases, p, c, r) \<in> U \<Longrightarrow> (repr', Some a, p', c', r') \<in> U \<Longrightarrow> repr \<noteq> sl_sha256 lib repr' @ a"
    using c by (elim conjE) blast
  show "(repr, aliases, p, c, r) \<in> U \<Longrightarrow> \<not> fi_parse_failed (sl_extract lib repr aliases alone p c r)
       \<Longrightarrow> \<not> fi_parse_failed (sl_extract lib repr aliases alone' p c r)
       \<Longrightarrow> sl_extract lib repr aliases alone p c r = sl_extract lib repr aliases alone' p c r"
    using c by (elim conjE) blast
  show "(repr, aliases, p, c, r) \<in> U \<Longrightarrow> path_str q = path_str p
       \<Longrightarrow> sl_extract lib repr aliases alone q c r = sl_extract lib repr aliases alone p c r"
    by (rule c [THEN conjunct2, THEN conjunct2, THEN conjunct2, THEN conjunct2, THEN conjunct2, rule_format])
qed

lemma hashed_mem:
  assumes "(repr, aliases, p, c, r) \<in> U"
  shows "c \<in> hashed lib U" "repr \<in> hashed lib U" "aliases = Some a \<Longrightarrow> sl_sha256 lib repr @ a \<in> hashed lib U"
    "key_input p (sl_sha256 lib c) r (file_fingerprint (sl_sha256 lib) repr aliases) \<in> hashed lib U"
  unfolding hashed_def config_fingerprint_def by (rule UN_I [OF assms], simp)+

definition honest_entries :: "scan_lib \<Rightarrow> extraction set \<Rightarrow> (string \<times> string) set" where
  "honest_entries lib U = {(key, bytes). \<exists>repr aliases p content repo alone. (repr, aliases, p, content, repo) \<in> U
     \<and> key = extraction_key lib (repr, aliases, p, content, repo)
     \<and> \<not> fi_parse_failed (sl_extract lib repr aliases alone p content repo)
     \<and> sl_to_json lib (sl_extract lib repr aliases alone p content repo) = Some bytes}"

lemma file_fingerprint_inj:
  assumes U: "extraction_contract lib U" "(repr, aliases, p, content, repo) \<in> U" "(repr', aliases', p', content', repo') \<in> U"
    and eq: "file_fingerprint (sl_sha256 lib) repr aliases = file_fingerprint (sl_sha256 lib) repr' aliases'"
  shows "repr = repr' \<and> aliases = aliases'"
proof -
  let ?sha = "sl_sha256 lib"
  note inj = extraction_contractD(2) [OF U(1)] and len = extraction_contractD(1) [OF U(1)] and apart = extraction_contractD(3) [OF U(1)]
  note h1 = hashed_mem(2,3) [OF U(2), where lib = lib] and h2 = hashed_mem(2,3) [OF U(3), where lib = lib]
  show ?thesis
  proof (cases aliases; cases aliases')
    fix a b assume ab: "aliases = Some a" "aliases' = Some b"
    then have "?sha repr @ a = ?sha repr' @ b"
      using eq inj_onD [OF inj _ h1(2) h2(2)] by (simp add: file_fingerprint_def config_fingerprint_def)
    then have "?sha repr = ?sha repr'" "a = b" using len append_eq_append_conv by metis+
    then show ?thesis using ab inj_onD [OF inj _ h1(1) h2(1)] by simp
  next
    fix a assume a: "aliases = Some a" "aliases' = None"
    then have "?sha repr @ a = repr'" using eq inj_onD [OF inj _ h1(2) h2(1)] by (simp add: file_fingerprint_def config_fingerprint_def)
    then show ?thesis using apart [OF U(3), of repr a] U(2) a(1) by blast
  next
    fix b assume b: "aliases = None" "aliases' = Some b"
    then have "repr = ?sha repr' @ b" using eq inj_onD [OF inj _ h1(1) h2(2)] by (simp add: file_fingerprint_def config_fingerprint_def)
    then show ?thesis using apart [OF U(2), of repr' b] U(3) b(2) by blast
  next
    assume "aliases = None" "aliases' = None"
    then show ?thesis using eq inj_onD [OF inj _ h1(1) h2(1)] by (simp add: file_fingerprint_def config_fingerprint_def)
  qed
qed


lemma extraction_key_inj:
  assumes U: "extraction_contract lib U" "(repr, aliases, p, content, repo) \<in> U" "(repr', aliases', p', content', repo') \<in> U"
    and eq: "extraction_key lib (repr, aliases, p, content, repo) = extraction_key lib (repr', aliases', p', content', repo')"
  shows "repr = repr' \<and> aliases = aliases' \<and> path_str p = path_str p' \<and> content = content' \<and> repo = repo'"
proof -
  let ?sha = "sl_sha256 lib"
  have len: "length (?sha s) = 32" "length (file_fingerprint ?sha r a) = 32" for s r a
    using extraction_contractD(1) [OF U(1)] by (simp_all add: file_fingerprint_def config_fingerprint_def split: option.splits)
  have "key_input p (?sha content) repo (file_fingerprint ?sha repr aliases) = key_input p' (?sha content') repo' (file_fingerprint ?sha repr' aliases')"
    using eq inj_onD [OF extraction_contractD(2) [OF U(1)] _ hashed_mem(4) [OF U(2)] hashed_mem(4) [OF U(3)]]
    by (simp add: extraction_key_def key_for_def)
  from key_input_inj [OF len(1) len(1) len(2) len(2) this]
  have parts: "path_str p = path_str p'" "?sha content = ?sha content'" "repo = repo'"
    "file_fingerprint ?sha repr aliases = file_fingerprint ?sha repr' aliases'" by simp_all
  then show ?thesis
    using file_fingerprint_inj [OF U parts(4)] inj_onD [OF extraction_contractD(2) [OF U(1)] parts(2) hashed_mem(1) [OF U(2)] hashed_mem(1) [OF U(3)]]
    by simp
qed

lemma ic_get_tables [simp]: "ic_tables (snd (ic_get fault key c)) = ic_tables c"
  by (simp add: ic_get_def split: option.splits)

lemma ic_get_hit: "fst (ic_get fault key c) = Some b \<Longrightarrow> tables_of W (ic_tables c) \<Longrightarrow> (key, b) \<in> W"
  by (auto simp: ic_get_def tables_of_def split: if_splits option.splits dest: map_of_SomeD)



section \<open>What a pass returns\<close>

text \<open>Lookups leave the tables alone, so what one file gives does not depend on the files before it.\<close>

abbreviation cache_tables_of :: "index_cache option \<Rightarrow> cache_tables option" where
  "cache_tables_of \<equiv> map_option ic_tables"

lemma ic_get_cong: "ic_tables c = ic_tables c' \<Longrightarrow> fst (ic_get fault key c) = fst (ic_get fault key c')"
  by (simp add: ic_get_def split: option.splits)

lemma extract_with_cache_cong:
  assumes "cache_tables_of c = cache_tables_of c'"
  shows "fst (extract_with_cache lib cfg alone p content repo h c) = fst (extract_with_cache lib cfg alone p content repo h c')"
proof (cases c)
  case (Some x)
  then obtain y where y: "c' = Some y" "ic_tables x = ic_tables y" using assms by (cases c') auto
  show ?thesis
    using ic_get_cong [OF y(2)] by (simp add: extract_with_cache_def Some y(1) Let_def split_def split: option.splits)
qed (use assms in simp)

lemma extract_with_cache_tables: "cache_tables_of (snd (extract_with_cache lib cfg alone p content repo h c)) = cache_tables_of c"
  by (cases c) (auto simp: extract_with_cache_def Let_def split_def split: option.splits)

lemma process_file_cong:
  assumes "cache_tables_of c = cache_tables_of c'"
  shows "fst (process_file lib cfg alone d p repo root c) = fst (process_file lib cfg alone d p repo root c')"
  using extract_with_cache_cong [OF assms] by (auto simp: process_file_def Let_def split_def split: sum.splits)

lemma process_file_tables: "cache_tables_of (snd (process_file lib cfg alone d p repo root c)) = cache_tables_of c"
  by (auto simp: process_file_def Let_def split_def extract_with_cache_tables split: sum.splits)

definition scan_outcome ::
  "scan_lib \<Rightarrow> scan_config \<Rightarrow> bool \<Rightarrow> disk \<Rightarrow> path list \<Rightarrow> index_cache option \<Rightarrow> repo_id \<times> path \<Rightarrow> reject_kind + file_fragment" where
  "scan_outcome lib cfg alone d roots cache f = fst (process_file lib cfg alone d (snd f) (fst f) (root_of roots f) cache)"

lemma scan_files_outcomes:
  "fst (scan_files lib cfg alone d roots fs c) = map (\<lambda>f. (f, scan_outcome lib cfg alone d roots c f)) fs
   \<and> cache_tables_of (snd (scan_files lib cfg alone d roots fs c)) = cache_tables_of c"
proof (induction fs arbitrary: c)
  case (Cons f fs)
  let ?c1 = "snd (process_file lib cfg alone d (snd f) (fst f) (root_of roots f) c)"
  have "cache_tables_of ?c1 = cache_tables_of c" by (rule process_file_tables)
  then have "scan_outcome lib cfg alone d roots ?c1 g = scan_outcome lib cfg alone d roots c g" for g
    unfolding scan_outcome_def by (rule process_file_cong)
  then show ?case using Cons.IH [of ?c1] process_file_tables [of lib cfg alone d "snd f" "fst f" "root_of roots f" c]
    by (simp add: Let_def split_def scan_outcome_def)
qed simp

text \<open>The outcome a file ends with: the retry's when the first parse failed.\<close>

definition final_outcome ::
  "scan_lib \<Rightarrow> scan_config \<Rightarrow> disk \<Rightarrow> path list \<Rightarrow> index_cache option \<Rightarrow> repo_id \<times> path \<Rightarrow> reject_kind + file_fragment" where
  "final_outcome lib cfg d roots cache f =
     (case scan_outcome lib cfg False d roots cache f of
        Inr frag \<Rightarrow> if fi_parse_failed (ff_code frag) then scan_outcome lib cfg True d roots cache f else Inr frag
      | Inl r \<Rightarrow> Inl r)"

definition pass_fragments ::
  "scan_lib \<Rightarrow> scan_config \<Rightarrow> disk \<Rightarrow> path list \<Rightarrow> index_cache option \<Rightarrow> (repo_id \<times> path) list \<Rightarrow> file_fragment list" where
  "pass_fragments lib cfg d roots cache files = fst (fst (run_scan_pass lib cfg d roots files cache))"

definition settled :: "file_fragment \<Rightarrow> file_fragment" where
  "settled frag = frag\<lparr>ff_cache_write := None\<rparr>"

lemma process_file_path: "fst (process_file lib cfg alone d p repo root c) = Inr frag \<Longrightarrow> ff_path frag = p"
  by (auto simp: process_file_def Let_def split_def split: sum.splits)

lemma scan_outcome_path: "scan_outcome lib cfg alone d roots c f = Inr frag \<Longrightarrow> ff_path frag = snd f"
  unfolding scan_outcome_def by (rule process_file_path)

lemma final_outcome_path: "final_outcome lib cfg d roots c f = Inr frag \<Longrightarrow> ff_path frag = snd f"
  by (auto simp: final_outcome_def scan_outcome_path split: sum.splits if_splits)


lemma no_cache_no_write:
  "fst (process_file lib cfg alone d p repo root None) = Inr frag \<Longrightarrow> ff_cache_write frag = None"
  by (auto simp: process_file_def extract_with_cache_def Let_def split_def split: sum.splits)

abbreviation first_failed :: "scan_lib \<Rightarrow> scan_config \<Rightarrow> disk \<Rightarrow> path list \<Rightarrow> index_cache option \<Rightarrow> repo_id \<times> path \<Rightarrow> bool" where
  "first_failed lib cfg d roots c f \<equiv>
     (case scan_outcome lib cfg False d roots c f of Inr frag \<Rightarrow> fi_parse_failed (ff_code frag) | Inl _ \<Rightarrow> False)"

lemma kept_mem:
  "frag \<in> set (kept_fragments (map (\<lambda>f. (f, outcome f)) files))
     \<longleftrightarrow> (\<exists>f \<in> set files. outcome f = Inr frag \<and> \<not> fi_parse_failed (ff_code frag))"
proof (induction files)
  case (Cons f files)
  then show ?case by (cases "outcome f") (auto simp: kept_fragments_def map_filter_simps)
qed (simp add: kept_fragments_def)

lemma retried_mem: "frag \<in> set (retried_fragments (map (\<lambda>f. (f, outcome f)) files)) \<longleftrightarrow> (\<exists>f \<in> set files. outcome f = Inr frag)"
proof (induction files)
  case (Cons f files)
  then show ?case by (cases "outcome f") (auto simp: retried_fragments_def map_filter_simps)
qed (simp add: retried_fragments_def)

lemma pass_parts:
  fixes lib cfg d roots files c
  defines "first \<equiv> map (\<lambda>f. (f, scan_outcome lib cfg False d roots c f)) files"
    and "again \<equiv> map (\<lambda>f. (f, scan_outcome lib cfg True d roots c f)) (filter (first_failed lib cfg d roots c) files)"
  shows "pass_fragments lib cfg d roots c files = map settled (kept_fragments first @ retried_fragments again)"
    and "fst (snd (fst (run_scan_pass lib cfg d roots files c)))
      = normalize_rejected (fold (account_retry d) again (fold (account_first d) first (record_scanned (length files) health_default)))"
    and "snd (snd (fst (run_scan_pass lib cfg d roots files c))) = stable_rejects_of d first"
proof -
  let ?c1 = "snd (scan_files lib cfg False d roots files c)"
  have first: "fst (scan_files lib cfg False d roots files c) = first"
    using scan_files_outcomes [of lib cfg False d roots files c] by (simp add: first_def)
  have retry: "needs_retry first = filter (first_failed lib cfg d roots c) files"
    by (simp add: needs_retry_def first_def filter_map o_def)
  have "scan_outcome lib cfg True d roots ?c1 f = scan_outcome lib cfg True d roots c f" for f
    unfolding scan_outcome_def
    by (rule process_file_cong) (use scan_files_outcomes [of lib cfg False d roots files c] in simp)
  then have again: "fst (scan_files lib cfg True d roots (needs_retry first) ?c1) = again"
    using scan_files_outcomes [of lib cfg True d roots "needs_retry first" ?c1] by (simp add: again_def retry)
  have "map settled (kept_fragments first @ retried_fragments again) = kept_fragments first @ retried_fragments again" if "c = None"
  proof (rule map_idI)
    fix frag assume "frag \<in> set (kept_fragments first @ retried_fragments again)"
    then obtain f alone where "scan_outcome lib cfg alone d roots c f = Inr frag"
      unfolding set_append first_def again_def Un_iff kept_mem retried_mem by blast
    then show "settled frag = frag"
      using no_cache_no_write that by (simp add: settled_def scan_outcome_def)
  qed
  moreover have "(\<lambda>f. f\<lparr>ff_cache_write := None\<rparr>) = settled" by (simp add: fun_eq_iff settled_def)
  then have "pass_fragments lib cfg d roots c files = (case c of None \<Rightarrow> kept_fragments first @ retried_fragments again
      | Some _ \<Rightarrow> map settled (kept_fragments first @ retried_fragments again))"
    using first again unfolding pass_fragments_def run_scan_pass_def by (cases c) (simp_all add: Let_def split_def)
  ultimately show "pass_fragments lib cfg d roots c files = map settled (kept_fragments first @ retried_fragments again)"
    by (cases c) simp_all
  show "fst (snd (fst (run_scan_pass lib cfg d roots files c)))
      = normalize_rejected (fold (account_retry d) again (fold (account_first d) first (record_scanned (length files) health_default)))"
    "snd (snd (fst (run_scan_pass lib cfg d roots files c))) = stable_rejects_of d first"
    unfolding run_scan_pass_def by (simp_all add: Let_def split_def first again)
qed

lemma pass_fragments_mem:
  "frag \<in> set (pass_fragments lib cfg d roots c files)
     \<longleftrightarrow> (\<exists>f \<in> set files. \<exists>raw. final_outcome lib cfg d roots c f = Inr raw \<and> frag = settled raw)"
proof -
  have final: "final_outcome lib cfg d roots c f = Inr raw
      \<longleftrightarrow> scan_outcome lib cfg False d roots c f = Inr raw \<and> \<not> fi_parse_failed (ff_code raw)
        \<or> first_failed lib cfg d roots c f \<and> scan_outcome lib cfg True d roots c f = Inr raw" for f raw
    by (auto simp: final_outcome_def split: sum.splits)
  have mem: "raw \<in> set (kept_fragments (map (\<lambda>f. (f, scan_outcome lib cfg False d roots c f)) files)
        @ retried_fragments (map (\<lambda>f. (f, scan_outcome lib cfg True d roots c f)) (filter (first_failed lib cfg d roots c) files)))
     \<longleftrightarrow> (\<exists>f \<in> set files. final_outcome lib cfg d roots c f = Inr raw)" for raw
    unfolding set_append Un_iff kept_mem retried_mem final by auto
  show ?thesis unfolding pass_parts(1) set_map image_iff Bex_def mem by blast
qed

lemma kept_paths:
  "map ff_path (kept_fragments (map (\<lambda>f. (f, scan_outcome lib cfg al d roots c f)) files))
     = map snd (filter (\<lambda>f. case scan_outcome lib cfg al d roots c f of Inr frag \<Rightarrow> \<not> fi_parse_failed (ff_code frag) | Inl _ \<Rightarrow> False) files)"
  "map ff_path (retried_fragments (map (\<lambda>f. (f, scan_outcome lib cfg al d roots c f)) files))
     = map snd (filter (\<lambda>f. case scan_outcome lib cfg al d roots c f of Inr frag \<Rightarrow> True | Inl _ \<Rightarrow> False) files)"
  by (induction files)
    (auto simp: kept_fragments_def retried_fragments_def List.map_filter_def scan_outcome_path split: sum.splits option.splits)

lemma pass_fragments_distinct:
  assumes "distinct (map snd files)"
  shows "distinct (map ff_path (pass_fragments lib cfg d roots c files))"
proof -
  have sep: "distinct (map snd (filter P files @ filter Q (filter R files)))" if "\<And>f. P f \<Longrightarrow> \<not> R f" for P Q R
    using assms that by (auto simp: distinct_map inj_on_def)
  have forget: "map ff_path (map settled xs) = map ff_path xs" for xs by (simp add: settled_def)
  have "map ff_path (pass_fragments lib cfg d roots c files)
    = map snd (filter (\<lambda>f. case scan_outcome lib cfg False d roots c f of Inr frag \<Rightarrow> \<not> fi_parse_failed (ff_code frag) | Inl _ \<Rightarrow> False) files
        @ filter (\<lambda>f. case scan_outcome lib cfg True d roots c f of Inr frag \<Rightarrow> True | Inl _ \<Rightarrow> False)
            (filter (first_failed lib cfg d roots c) files))"
    by (simp only: pass_parts(1) forget map_append kept_paths)
  then show ?thesis by (simp only:) (rule sep, simp split: sum.splits)
qed


section \<open>Every file is accounted for\<close>

text \<open>The number of files a health record has settled one way or the other.\<close>

definition files_settled :: "index_health \<Rightarrow> nat" where
  "files_settled h = files_indexed h + files_rejected_oversized h + files_rejected_guard h + files_read_error h + files_skipped_non_source h"

lemmas health_ops = record_scanned_def record_indexed_def record_oversized_def record_guard_rejected_def record_read_error_def
  record_parse_failed_def record_skipped_non_source_def record_rejected_file_def record_rejected_file_detail_def

lemma settled_rejection:
  "files_settled (record_rejection d reason p h) = Suc (files_settled h)"
  "files_scanned (record_rejection d reason p h) = files_scanned h"
  "files_parse_failed (record_rejection d reason p h) = files_parse_failed h"
  by (cases reason; simp add: record_rejection_def files_settled_def health_ops)+

lemma settled_first:
  "files_settled (fold (account_first d) rs h) = files_settled h + length rs - length (needs_retry rs)
   \<and> length (needs_retry rs) \<le> length rs \<and> files_scanned (fold (account_first d) rs h) = files_scanned h"
proof (induction rs arbitrary: h)
  case (Cons r rs)
  obtain f outcome where r: "r = (f, outcome)" by (cases r)
  have "files_scanned (account_first d r h) = files_scanned h"
    by (cases f; cases outcome) (simp_all add: r account_first_def settled_rejection record_indexed_def)
  moreover have "files_settled (account_first d r h)
      = files_settled h + (if (case outcome of Inr frag \<Rightarrow> fi_parse_failed (ff_code frag) | Inl _ \<Rightarrow> False) then 0 else 1)"
    by (cases f; cases outcome) (simp_all add: r account_first_def settled_rejection, simp add: record_indexed_def files_settled_def)
  ultimately show ?case using Cons.IH [of "account_first d r h"] by (auto simp: needs_retry_def r intro: le_SucI)
qed (simp add: needs_retry_def)

lemma settled_retry:
  "files_settled (fold (account_retry d) rs h) = files_settled h + length rs
   \<and> files_scanned (fold (account_retry d) rs h) = files_scanned h"
proof (induction rs arbitrary: h)
  case (Cons r rs)
  obtain repo p outcome where r: "r = ((repo, p), outcome)" by (metis surj_pair)
  have "files_settled (account_retry d r h) = Suc (files_settled h) \<and> files_scanned (account_retry d r h) = files_scanned h"
  proof (cases outcome)
    case (Inl reason)
    then show ?thesis by (simp add: r account_retry_def settled_rejection)
  next
    case (Inr frag)
    then show ?thesis by (simp add: r account_retry_def health_ops files_settled_def)
  qed
  then show ?case using Cons.IH [of "account_retry d r h"] by simp
qed simp

text \<open>
  C32: the health of a pass accounts for every file it was given: the files indexed, refused for size, refused by a guard, unreadable
  and skipped as non-source add up to the files scanned - a file whose parse failed is retried and then counted once, and nothing
  is dropped in silence.
\<close>

theorem scan_accounts_for_every_file:
  "files_settled (fst (snd (fst (run_scan_pass lib cfg d roots files c)))) = length files
   \<and> files_scanned (fst (snd (fst (run_scan_pass lib cfg d roots files c)))) = length files"
proof -
  define first where "first = map (\<lambda>f. (f, scan_outcome lib cfg False d roots c f)) files"
  define again where "again = map (\<lambda>f. (f, scan_outcome lib cfg True d roots c f)) (filter (first_failed lib cfg d roots c) files)"
  define h0 where "h0 = record_scanned (length files) health_default"
  have retry: "needs_retry first = filter (first_failed lib cfg d roots c) files"
    by (simp add: needs_retry_def first_def filter_map o_def)
  have norm: "files_settled (normalize_rejected h) = files_settled h" "files_scanned (normalize_rejected h) = files_scanned h" for h
    by (simp_all add: normalize_rejected_def Let_def files_settled_def)
  have h0: "files_settled h0 = 0" "files_scanned h0 = length files" "length first = length files" "length again = length (needs_retry first)"
    unfolding retry by (simp_all add: h0_def first_def again_def files_settled_def record_scanned_def health_default_def)
  have "fst (snd (fst (run_scan_pass lib cfg d roots files c)))
      = normalize_rejected (fold (account_retry d) again (fold (account_first d) first h0))"
    unfolding pass_parts(2) first_def again_def h0_def ..
  then show ?thesis
    using settled_first [of d first h0] settled_retry [of d again "fold (account_first d) first h0"] h0 by (simp add: norm)
qed


section \<open>A small workspace\<close>

definition toy_sha :: "string \<Rightarrow> string" where
  "toy_sha s = replicate 32 (if length s \<le> 4 then (case s of [] \<Rightarrow> CHR ''0'' | c # _ \<Rightarrow> c) else CHR ''#'')"

definition demo_index :: "path \<Rightarrow> string \<Rightarrow> file_index" where
  "demo_index p content = file_index_default
     \<lparr>fi_nodes := [demo_node\<lparr>n_file := path_of_str (path_str p), n_name := content\<rparr>], fi_parse_failed := starts_with content ''!''\<rparr>"

definition demo_lib :: scan_lib where
  "demo_lib =
     \<lparr>sl_sha256 = toy_sha, sl_glob = toy_glob, sl_builds = True, sl_sources = (\<lambda>_. None), sl_layout = small_layout,
      sl_number = (\<lambda>_. []), sl_yaml = (\<lambda>_. Inl DuplicateEntry), sl_extract = (\<lambda>repr aliases alone p content repo. demo_index p content),
      sl_to_json = (\<lambda>code. if code = demo_index [Normal ''a.ts''] ''x'' then Some ''J'' else None),
      sl_of_json = (\<lambda>b. if b = ''J'' then Some (demo_index [Normal ''a.ts''] ''x'') else None),
      sl_sqlite = small_sqlite 0, sl_get_fault = (\<lambda>_. False), sl_put_fault = False, sl_now = 1\<rparr>"

definition demo_scan :: scan_config where
  "demo_scan =
     \<lparr>sc_has_patterns = False, sc_custom = (\<lambda>_ _ _. file_index_default), sc_doc_template = doc_index_default,
      sc_spring = \<lparr>ss_file_matcher = None, ss_resolve_placeholders = False, ss_auto_redact = True\<rparr>, sc_extract_repr = ''cfg'',
      sc_aliases = (\<lambda>_. None), sc_toggles = \<lparr>tg_docs = True, tg_contracts = True, tg_doc_paths = None\<rparr>\<rparr>"

definition demo_extraction :: extraction where
  "demo_extraction = (''cfg'', None, [Normal ''a.ts''], ''x'', 1)"

definition demo_cache :: index_cache where
  "demo_cache = (cache_opened 10)\<lparr>ic_tables := commit_batch 1 [(extraction_key demo_lib demo_extraction, ''J'')] [] \<lparr>ct_payloads = [], ct_access = []\<rparr>\<rparr>"

lemma demo_contract: "extraction_contract demo_lib {demo_extraction}"
proof -
  let ?k = "key_input [Normal ''a.ts''] (toy_sha ''x'') 1 (file_fingerprint toy_sha ''cfg'' None)"
  have "hashed demo_lib {demo_extraction} = {''x'', ''cfg'', ?k}" by (simp add: hashed_def demo_extraction_def demo_lib_def)
  moreover have "length ?k > 4" by (simp add: key_input_def)
  ultimately have "inj_on toy_sha (hashed demo_lib {demo_extraction})" by (auto simp: toy_sha_def inj_on_def)
  then show ?thesis
    by (auto simp: extraction_contract_def demo_extraction_def demo_lib_def demo_index_def toy_sha_def)
qed


end
