(* ===== verification/Indexer.thy ===== *)
theory Indexer
  imports Index_Pass
begin

text \<open>
  The workspace indexer, \<^verbatim>\<open>crates/mesh-server/src/indexer.rs\<close>: roots and the crawl, the full build, the differential reload and
  the reload targeted at the paths of watcher events, down to the snapshot they install. A result of None is a crawl that does
  not return or an index out of range. The disk is the same throughout one reload.
\<close>

section \<open>Roots\<close>

definition resolve_roots :: "world \<Rightarrow> config \<Rightarrow> path \<Rightarrow> path list" where
  "resolve_roots w c base_dir =
     (case expand_roots w (wc_roots (cfg_workspace c)) base_dir (workspace_root (cfg_workspace c)) of
        Inr roots \<Rightarrow> roots
      | Inl _ \<Rightarrow> [case w_canonicalize w base_dir of Some p \<Rightarrow> p | None \<Rightarrow> base_dir])"

definition bare_name :: "path \<Rightarrow> string" where
  "bare_name r = (case file_name r of Some n \<Rightarrow> n | None \<Rightarrow> path_str r)"

definition repo_names :: "path list \<Rightarrow> string list" where
  "repo_names roots =
     (let bare = map bare_name roots in
      map (\<lambda>(root, name).
          if count_list bare name \<le> 1 then name
          else case Option.bind (path_parent root) file_name of
            Some parent \<Rightarrow> parent @ ''/'' @ name
          | None \<Rightarrow> name) (zip roots bare))"

definition most_specific_root :: "path \<Rightarrow> path list \<Rightarrow> (repo_id \<times> path) option" where
  "most_specific_root p roots =
     map_option (\<lambda>(i, root). (of_nat i, root))
       (max_by_key (\<lambda>(_, root). length (path_str root)) (filter (\<lambda>(_, root). path_starts_with p root) (enumerate 0 roots)))"

fun is_git_ref_change :: "path \<Rightarrow> bool" where
  "is_git_ref_change [] = False"
| "is_git_ref_change (c # cs) =
     (if c = Normal ''.git'' then (case cs of c2 # _ \<Rightarrow> c2 = Normal ''HEAD'' \<or> c2 = Normal ''refs'' | [] \<Rightarrow> False)
      else is_git_ref_change cs)"

definition exclude_patterns_for_root :: "string list \<Rightarrow> path list \<Rightarrow> path \<Rightarrow> string list" where
  "exclude_patterns_for_root patterns roots root =
     patterns @ List.map_filter
       (\<lambda>other. if other = root then None
          else case path_strip_prefix root other of
            Some rel \<Rightarrow> if rel = [] then None else Some (replace_chars {CHR 0x5C} CHR ''/'' (path_str rel) @ ''/**'')
          | None \<Rightarrow> None) roots"

definition SCAN_DEPTH :: nat where
  "SCAN_DEPTH = 10"

definition repo_limit :: nat where
  "repo_limit = 65535"

section \<open>The environment of the indexer\<close>

text \<open>
  The configuration and the roots, the crawler, the ignore rules, what a scan takes from \<^verbatim>\<open>mesh-parsers\<close> (the patterns that
  compile and their extraction, the debug text of the extraction settings, the alias index over the disk) and the JSON reader.
\<close>

record 'g index_env =
  ie_lib :: scan_lib
  ie_config :: config
  ie_roots :: "path list"
  ie_crawl :: crawl_env
  ie_ignore :: "'g ignore_lib"
  ie_aliases_of :: "str_map \<Rightarrow> (string, string) hmap"
  ie_compile :: "custom_pattern_config list \<Rightarrow> custom_pattern_config list"
  ie_custom :: "custom_pattern_config list \<Rightarrow> path \<Rightarrow> string \<Rightarrow> repo_id \<Rightarrow> file_index"
  ie_extract_repr :: "contracts_config option \<Rightarrow> string"
  ie_ts_aliases :: "path list \<Rightarrow> disk \<Rightarrow> path \<Rightarrow> string option"
  ie_imports :: "string \<Rightarrow> string option"
  ie_clean :: "path \<Rightarrow> path"
  ie_is_dir :: "path \<Rightarrow> bool"
  ie_canonical :: "path \<Rightarrow> path option"

definition compiled_patterns :: "'g index_env \<Rightarrow> custom_pattern_config list" where
  "compiled_patterns env = (case ec_contracts (cfg_engines (ie_config env)) of Some k \<Rightarrow> ie_compile env (cc_patterns k) | None \<Rightarrow> [])"

definition scan_config_of :: "'g index_env \<Rightarrow> disk \<Rightarrow> doc_index \<Rightarrow> scan_config" where
  "scan_config_of env d template =
     (let patterns = compiled_patterns env in
      \<lparr>sc_has_patterns = (patterns \<noteq> []), sc_custom = ie_custom env patterns, sc_doc_template = template,
       sc_spring = spring_from_config (ie_lib env) (ie_config env),
       sc_extract_repr = ie_extract_repr env (ec_contracts (cfg_engines (ie_config env))),
       sc_aliases = ie_ts_aliases env (ie_roots env) d, sc_toggles = engine_toggles (ie_lib env) (ie_config env)\<rparr>)"

definition crawl_root :: "nat \<Rightarrow> 'g index_env \<Rightarrow> (string \<times> string) list \<Rightarrow> nat \<times> path \<Rightarrow> (repo_id \<times> path) list option" where
  "crawl_root fuel env aliases r =
     (case r of (i, root) \<Rightarrow>
        case resolve_with_aliases (cr_world (ie_crawl env)) (path_str root) (ie_roots env) aliases None of
          Inl _ \<Rightarrow> Some []
        | Inr scope \<Rightarrow>
            let exclusions = exclude_patterns_for_root (exclude_patterns (cfg_workspace (ie_config env))) (ie_roots env) root;
                matcher = compile_matcher (cr_glob (ie_crawl env)) (sl_builds (ie_lib env)) exclusions in
            map_option (map (Pair (of_nat i))) (crawl_scope_with fuel (ie_crawl env) matcher scope (Some SCAN_DEPTH)))"

fun crawl_roots :: "nat \<Rightarrow> 'g index_env \<Rightarrow> (string \<times> string) list \<Rightarrow> (nat \<times> path) list \<Rightarrow> (repo_id \<times> path) list option" where
  "crawl_roots fuel env aliases [] = Some []"
| "crawl_roots fuel env aliases (r # rs) =
     Option.bind (crawl_root fuel env aliases r) (\<lambda>fs. map_option (append fs) (crawl_roots fuel env aliases rs))"

definition crawl_all :: "nat \<Rightarrow> 'g index_env \<Rightarrow> (repo_id \<times> path) list option" where
  "crawl_all fuel env =
     map_option (sort_key snd)
       (crawl_roots fuel env (ie_aliases_of env (mount_aliases (cfg_workspace (ie_config env)))) (take repo_limit (enumerate 0 (ie_roots env))))"

section \<open>The full build\<close>

definition note_stable_rejects :: "(path \<times> nat \<times> nat) list \<Rightarrow> differential_vfs \<Rightarrow> differential_vfs" where
  "note_stable_rejects rejects vfs = fold (\<lambda>(p, stat). note_rejected p stat) rejects vfs"

definition finish_snapshot :: "'g index_env \<Rightarrow> mesh_snapshot \<Rightarrow> mesh_snapshot" where
  "finish_snapshot env snap =
     snap\<lparr>sn_props := (if ss_resolve_placeholders (spring_from_config (ie_lib env) (ie_config env))
             then resolve_all_placeholders (sn_props snap) else sn_props snap),
          sn_graph := reconcile_edges (ie_clean env) (sn_graph snap)\<rparr>"

definition build_snapshot_from_files ::
  "'g index_env \<Rightarrow> disk \<Rightarrow> (repo_id \<times> path) list \<Rightarrow> differential_vfs \<Rightarrow> index_cache option
   \<Rightarrow> mesh_snapshot option \<times> differential_vfs \<times> index_cache option" where
  "build_snapshot_from_files env d files vfs cache =
     (let template = doc_index_for (ie_aliases_of env) (ie_config env);
          ((fragments, health, rejects), cache') = run_scan_pass (ie_lib env) (scan_config_of env d template) d (ie_roots env) files cache;
          fresh = \<lparr>sn_graph = empty_graph, sn_docs = template, sn_props = registry_new, sn_health = health, sn_roots = ie_roots env\<rparr>;
          vfs' = fold (\<lambda>frag v. snd (upsert (ff_path frag) (ff_signature frag) v)) fragments (note_stable_rejects rejects vfs) in
      (map_option (finish_snapshot env) (fold_fragments fragments fresh), vfs', cache'))"

definition build_snapshot ::
  "nat \<Rightarrow> 'g index_env \<Rightarrow> disk \<Rightarrow> differential_vfs \<Rightarrow> index_cache option \<Rightarrow> (mesh_snapshot option \<times> differential_vfs \<times> index_cache option) option" where
  "build_snapshot fuel env d vfs cache = map_option (\<lambda>files. build_snapshot_from_files env d files vfs cache) (crawl_all fuel env)"

definition build_graph :: "nat \<Rightarrow> 'g index_env \<Rightarrow> disk \<Rightarrow> index_cache option \<Rightarrow> (contract_graph \<times> nat) option" where
  "build_graph fuel env d cache =
     Option.bind (build_snapshot fuel env d vfs_new cache)
       (\<lambda>(snap, _, _). map_option (\<lambda>s. (sn_graph s, files_scanned (sn_health s))) snap)"

section \<open>Import aliases\<close>

definition is_alias_config :: "path \<Rightarrow> bool" where
  "is_alias_config p \<longleftrightarrow>
     (let name = (case file_name p of Some n \<Rightarrow> n | None \<Rightarrow> []) in
      ((starts_with name ''tsconfig'' \<or> starts_with name ''jsconfig'') \<and> ends_with name ''.json'') \<or> name = ''package.json'')"

definition alias_digest :: "'g index_env \<Rightarrow> disk \<Rightarrow> path \<Rightarrow> string option" where
  "alias_digest env d p =
     map_option (\<lambda>text. sl_sha256 (ie_lib env)
         (if file_name p = Some ''package.json'' then (case ie_imports env text of Some i \<Rightarrow> i | None \<Rightarrow> []) else text))
       (Option.bind (dk_read d p) from_utf8)"

definition is_script :: "path \<Rightarrow> bool" where
  "is_script p \<longleftrightarrow> lang_from_path (path_str p) \<in> {TypeScript, Tsx, JavaScript} \<or> extension p \<in> {Some ''vue'', Some ''svelte'', Some ''astro''}"

text \<open>The loop over the changed alias files: the digests, and the directories whose scripts they govern.\<close>

definition alias_scope :: "'g index_env \<Rightarrow> path \<Rightarrow> path option" where
  "alias_scope env p =
     (if file_name p = Some ''package.json'' then path_parent p else map_option snd (most_specific_root p (ie_roots env)))"

definition alias_step :: "'g index_env \<Rightarrow> disk \<Rightarrow> path \<Rightarrow> path list \<times> (path, string) hmap \<Rightarrow> path list \<times> (path, string) hmap" where
  "alias_step env d p st =
     (case st of (scopes, digests) \<Rightarrow>
        let now = alias_digest env d p;
            before = map_of digests p;
            digests' = (case now of Some x \<Rightarrow> hm_insert p x digests | None \<Rightarrow> hm_remove p digests) in
        if before = now \<and> now \<noteq> None then (scopes, digests')
        else (scopes @ (case alias_scope env p of Some s \<Rightarrow> [s] | None \<Rightarrow> []), digests'))"

definition alias_governed_scripts ::
  "'g index_env \<Rightarrow> disk \<Rightarrow> (path, string) hmap \<Rightarrow> differential_vfs \<Rightarrow> (repo_id \<times> path) list \<Rightarrow> path list
   \<Rightarrow> (repo_id \<times> path) list \<times> (path, string) hmap" where
  "alias_governed_scripts env d digests vfs changed deleted =
     (let (scopes, digests') = fold (alias_step env d) (filter is_alias_config (map snd changed @ deleted)) ([], digests) in
      (List.map_filter (\<lambda>p. map_option (\<lambda>(r, _). (r, p)) (most_specific_root p (ie_roots env)))
         (filter (\<lambda>p. is_script p \<and> list_ex (path_starts_with p) scopes) (tracked_paths vfs)), digests'))"


section \<open>Incremental reloads\<close>

record indexer_state =
  ix_server :: "mesh_snapshot mesh_server"
  ix_vfs :: differential_vfs
  ix_alias_digests :: "(path, string) hmap"
  ix_cache :: "index_cache option"

definition changed_on_disk :: "disk \<Rightarrow> differential_vfs \<Rightarrow> path \<Rightarrow> bool" where
  "changed_on_disk d vfs p =
     (case dk_metadata d p of
        Some md \<Rightarrow> \<not> is_unchanged_fast p md vfs \<and> \<not> is_rejection_unchanged p md vfs
      | None \<Rightarrow> False)"

definition resurrected :: "'g index_env \<Rightarrow> disk \<Rightarrow> path list \<Rightarrow> (repo_id \<times> path) list" where
  "resurrected env d deleted =
     List.map_filter (\<lambda>p. map_option (\<lambda>(r, _). (r, p)) (most_specific_root p (ie_roots env)))
       (filter (\<lambda>p. dk_metadata d p \<noteq> None) deleted)"

definition forced_files ::
  "(repo_id \<times> path) list \<Rightarrow> (path \<Rightarrow> bool) option \<Rightarrow> (repo_id \<times> path) list \<Rightarrow> (repo_id \<times> path) list" where
  "forced_files governed force files =
     governed @ (case force of
        None \<Rightarrow> []
      | Some f \<Rightarrow> filter (\<lambda>(_, p). f p \<and> p \<notin> set (map snd governed)) files)"

text \<open>The files to read again, those among them that are forced, and the new alias digests.\<close>

definition incremental_candidates ::
  "'g index_env \<Rightarrow> disk \<Rightarrow> (repo_id \<times> path) list \<Rightarrow> path list \<Rightarrow> (path \<Rightarrow> bool) option \<Rightarrow> indexer_state
   \<Rightarrow> (repo_id \<times> path) list \<times> path list \<times> (path, string) hmap" where
  "incremental_candidates env d files deleted force st =
     (let gone = filter (\<lambda>p. dk_metadata d p = None) deleted;
          changed = filter (\<lambda>(_, p). changed_on_disk d (ix_vfs st) p) files @ resurrected env d deleted;
          (governed, digests) = alias_governed_scripts env d (ix_alias_digests st) (ix_vfs st) changed gone;
          forced = forced_files governed force files in
      (changed @ filter (\<lambda>(_, p). p \<notin> set (map snd changed)) forced, map snd forced, digests))"

text \<open>A fragment whose content hash moved, or that is forced, is folded in; the signature is stored either way.\<close>

fun take_changed :: "path list \<Rightarrow> file_fragment list \<Rightarrow> differential_vfs \<Rightarrow> file_fragment list \<times> differential_vfs" where
  "take_changed forced [] vfs = ([], vfs)"
| "take_changed forced (frag # frags) vfs =
     (let (content_changed, vfs1) = upsert (ff_path frag) (ff_signature frag) vfs;
          (rest, vfs2) = take_changed forced frags vfs1 in
      (if content_changed \<or> ff_path frag \<in> set forced then frag # rest else rest, vfs2))"

definition purge_snapshot :: "path list \<Rightarrow> mesh_snapshot \<Rightarrow> mesh_snapshot" where
  "purge_snapshot stale snap =
     snap\<lparr>sn_graph := patch_files stale (sn_graph snap), sn_docs := Doc_Search.remove_files stale (sn_docs snap),
          sn_props := Property_Registry.remove_files stale (sn_props snap)\<rparr>"

definition apply_incremental ::
  "'g index_env \<Rightarrow> disk \<Rightarrow> (repo_id \<times> path) list \<Rightarrow> path list \<Rightarrow> (path \<Rightarrow> bool) option \<Rightarrow> indexer_state \<Rightarrow> indexer_state option" where
  "apply_incremental env d files deleted force st =
     (let gone = filter (\<lambda>p. dk_metadata d p = None) deleted;
          (candidates, forced, digests) = incremental_candidates env d files deleted force st;
          st0 = st\<lparr>ix_alias_digests := digests\<rparr> in
      if candidates = [] \<and> gone = [] then Some st0
      else
        let snap = ms_snapshot (ix_server st);
            cfg = scan_config_of env d (clone_settings (sn_docs snap));
            ((fragments, health, rejects), cache) = run_scan_pass (ie_lib env) cfg d (ie_roots env) candidates (ix_cache st);
            vfs1 = note_stable_rejects rejects (ix_vfs st);
            (changed, vfs2) = take_changed forced (filter (\<lambda>f. \<not> fi_parse_failed (ff_code f)) fragments) vfs1;
            vfs3 = fold (\<lambda>p v. snd (vfs_remove p v)) gone vfs2;
            (rejections_changed, rejections) = replace_rejected (set (map snd candidates) \<union> set gone) (rejected health) (sn_health snap);
            st1 = st0\<lparr>ix_vfs := vfs3, ix_cache := cache\<rparr> in
        if changed = [] \<and> gone = [] \<and> \<not> rejections_changed then Some st1
        else
          let health' = (health_merge health (sn_health snap))\<lparr>rejected := rejected rejections, rejected_overflow := rejected_overflow rejections\<rparr>;
              purged = purge_snapshot (map ff_path changed @ gone) (snap\<lparr>sn_health := health'\<rparr>) in
          map_option (\<lambda>s. st1\<lparr>ix_server := install_snapshot (finish_snapshot env s) (ix_server st)\<rparr>) (fold_fragments changed purged))"

definition reload_with :: "nat \<Rightarrow> 'g index_env \<Rightarrow> disk \<Rightarrow> (path \<Rightarrow> bool) option \<Rightarrow> indexer_state \<Rightarrow> indexer_state option" where
  "reload_with fuel env d force st =
     Option.bind (crawl_all fuel env) (\<lambda>files.
       let present = set (map snd files);
           untracked = filter (\<lambda>p. p \<notin> present) (tracked_paths (ix_vfs st));
           unlisted = filter (\<lambda>p. p \<notin> present) (map rf_path (rejected (sn_health (ms_snapshot (ix_server st)))));
           st' = st\<lparr>ix_vfs := retain_rejected (\<lambda>p. p \<in> present) (ix_vfs st)\<rparr> in
       apply_incremental env d files (untracked @ unlisted) force st')"

definition reload :: "nat \<Rightarrow> 'g index_env \<Rightarrow> disk \<Rightarrow> indexer_state \<Rightarrow> indexer_state option" where
  "reload fuel env d st = reload_with fuel env d None st"

text \<open>The loop of the targeted reload: Inl where it falls back to a full reload, else the files to read and the deleted ones.\<close>

type_synonym target_acc = "path set \<times> (repo_id \<times> path) list \<times> path list"

fun classify_paths :: "'g index_env \<Rightarrow> disk \<Rightarrow> path list \<Rightarrow> target_acc \<Rightarrow> unit + target_acc" where
  "classify_paths env d [] acc = Inr acc"
| "classify_paths env d (raw # raws) (seen, candidates, deleted) =
     (let match_path = (case ie_canonical env raw of Some p \<Rightarrow> p | None \<Rightarrow> raw) in
      if match_path \<in> seen then classify_paths env d raws (seen, candidates, deleted)
      else
        case most_specific_root match_path (ie_roots env) of
          None \<Rightarrow> classify_paths env d raws (insert match_path seen, candidates, deleted)
        | Some (repo, root) \<Rightarrow>
            let exclusions = exclude_patterns_for_root (exclude_patterns (cfg_workspace (ie_config env))) (ie_roots env) root;
                matcher = compile_matcher (cr_glob (ie_crawl env)) (sl_builds (ie_lib env)) exclusions in
            case is_path_excluded (cr_glob (ie_crawl env)) (ie_ignore env) root match_path matcher of
              Some True \<Rightarrow> classify_paths env d raws (insert match_path seen, candidates, deleted)
            | None \<Rightarrow> Inl ()
            | Some False \<Rightarrow>
                if ie_canonical env raw \<noteq> None then
                  classify_paths env d raws (insert match_path seen, candidates @ [(repo, match_path)], deleted)
                else if (case path_parent raw of Some parent \<Rightarrow> dk_metadata d parent = None | None \<Rightarrow> False) then Inl ()
                else classify_paths env d raws (insert match_path seen, candidates, deleted @ [raw]))"

definition reload_paths :: "nat \<Rightarrow> 'g index_env \<Rightarrow> disk \<Rightarrow> path list \<Rightarrow> indexer_state \<Rightarrow> indexer_state option" where
  "reload_paths fuel env d changed st =
     (if changed = [] then Some st
      else if list_ex is_git_ref_change changed then reload fuel env d st
      else if list_ex (ie_is_dir env) changed then reload fuel env d st
      else case classify_paths env d changed ({}, [], []) of
        Inl _ \<Rightarrow> reload fuel env d st
      | Inr (_, candidates, deleted) \<Rightarrow>
          if candidates = [] \<and> deleted = [] then Some st
          else apply_incremental env d candidates deleted None st)"

end
