(* ===== verification/Index_Sync.thy ===== *)
theory Index_Sync
  imports Indexer
begin

text \<open>
  What the reloads of \<^verbatim>\<open>crates/mesh-server/src/indexer.rs\<close> promise: the facts an index holds about a file are those of its
  content on disk, a reload touches no other file, and a differential reload ends with the facts of a full rebuild; and where
  that fails.
\<close>

section \<open>Facts by file\<close>

definition doc_view :: "doc_index \<Rightarrow> path \<Rightarrow> doc_section list" where
  "doc_view ix p = filter (\<lambda>s. ds_path s = p) (di_sections ix)"

interpretation doc_store: fact_store Doc_Search.remove_files "\<lambda>_. extend_sections" doc_view "\<lambda>ss. ss" "\<lambda>_. True"
    "\<lambda>q ss. \<forall>s \<in> set ss. ds_path s = q"
  by unfold_locales (auto simp: doc_view_def Doc_Search.remove_files_def extend_sections_def filter_empty_conv intro!: filter_cong)

definition file_facts :: "mesh_snapshot \<Rightarrow> path \<Rightarrow> node_view list \<times> doc_section list" where
  "file_facts snap p = (file_view (sn_graph snap) p, doc_view (sn_docs snap) p)"

definition fragment_facts :: "file_fragment \<Rightarrow> node_view list \<times> doc_section list" where
  "fragment_facts frag = (index_view (ff_code frag), ff_docs frag)"

definition fragment_ok :: "file_fragment \<Rightarrow> bool" where
  "fragment_ok frag \<longleftrightarrow> index_for (ff_path frag) (ff_code frag) \<and> (\<forall>s \<in> set (ff_docs frag). ds_path s = ff_path frag)"

lemma extend_nothing [simp]: "extend_sections [] ix = ix"
  by (simp add: extend_sections_def)

lemma fold_fragments_stores:
  assumes "\<forall>f \<in> set fs. fragment_ok f"
  shows "\<exists>s. fold_fragments fs snap = Some s
    \<and> sn_graph s = fold (\<lambda>(q, fi). put_index fi) (map (\<lambda>f. (ff_path f, ff_code f)) fs) (sn_graph snap)
    \<and> sn_docs s = fold (\<lambda>(q, ss). extend_sections ss) (map (\<lambda>f. (ff_path f, ff_docs f)) fs) (sn_docs snap)
    \<and> sn_health s = sn_health snap \<and> sn_roots s = sn_roots snap"
  using assms
proof (induction fs arbitrary: snap)
  case (Cons f fs)
  have "apply_index (ff_code f) (sn_graph snap) = Some (put_index (ff_code f) (sn_graph snap))"
    using Cons.prems apply_put_index by (auto simp: fragment_ok_def)
  then have "\<exists>s. fold_fragment f snap = Some s \<and> sn_graph s = put_index (ff_code f) (sn_graph snap)
      \<and> sn_docs s = extend_sections (ff_docs f) (sn_docs snap) \<and> sn_health s = sn_health snap \<and> sn_roots s = sn_roots snap"
    by (auto simp: fold_fragment_def)
  then obtain s where s: "fold_fragment f snap = Some s" "sn_graph s = put_index (ff_code f) (sn_graph snap)"
      "sn_docs s = extend_sections (ff_docs f) (sn_docs snap)" "sn_health s = sn_health snap" "sn_roots s = sn_roots snap" by blast
  with Cons.IH [of s] Cons.prems show ?case by auto
qed simp

lemma settings_kept:
  "clone_settings (fold (\<lambda>(q, ss). extend_sections ss) xs ix) = clone_settings ix"
  "clone_settings (Doc_Search.remove_files ps ix) = clone_settings ix"
proof -
  show "clone_settings (fold (\<lambda>(q, ss). extend_sections ss) xs ix) = clone_settings ix"
    by (induction xs arbitrary: ix) (auto simp: clone_settings_def extend_sections_def)
qed (simp add: Doc_Search.remove_files_def clone_settings_def)

lemma map_of_fragments: "map_of (map (\<lambda>f. (ff_path f, h f)) fs) p = map_option h (find (\<lambda>f. ff_path f = p) fs)"
  by (induction fs) auto

text \<open>A batch on a snapshot: purge the files that changed or went, fold the fragments in, settle the edges.\<close>

lemma batch_facts:
  assumes inv: "mesh_inv (sn_graph snap)" and ok: "\<forall>f \<in> set fs. fragment_ok f" and dist: "distinct (map ff_path fs)"
  shows "\<exists>s. fold_fragments fs (purge_snapshot (map ff_path fs @ gone) snap) = Some s
    \<and> mesh_inv (sn_graph (finish_snapshot env s)) \<and> clone_settings (sn_docs (finish_snapshot env s)) = clone_settings (sn_docs snap)
    \<and> sn_health (finish_snapshot env s) = sn_health snap
    \<and> (\<forall>p. file_facts (finish_snapshot env s) p
         = (case find (\<lambda>f. ff_path f = p) fs of Some f \<Rightarrow> fragment_facts f | None \<Rightarrow> if p \<in> set gone then ([], []) else file_facts snap p))"
proof -
  let ?codes = "map (\<lambda>f. (ff_path f, ff_code f)) fs" and ?docs = "map (\<lambda>f. (ff_path f, ff_docs f)) fs"
  let ?ps = "map ff_path fs @ gone"
  let ?g = "fold (\<lambda>(q, fi). put_index fi) ?codes (patch_files ?ps (sn_graph snap))"
  from fold_fragments_stores [OF ok, of "purge_snapshot ?ps snap"] obtain s where
    s: "fold_fragments fs (purge_snapshot ?ps snap) = Some s" "sn_graph s = ?g"
      "sn_docs s = fold (\<lambda>(q, ss). extend_sections ss) ?docs (Doc_Search.remove_files ?ps (sn_docs snap))" "sn_health s = sn_health snap"
    by (auto simp: purge_snapshot_def)
  have good: "\<forall>(q, fi) \<in> set ?codes. index_for q fi" "\<forall>(q, ss) \<in> set ?docs. \<forall>s \<in> set ss. ds_path s = q"
    using ok by (auto simp: fragment_ok_def)
  have dist': "distinct (map fst ?codes)" "distinct (map fst ?docs)" "map fst ?codes = map ff_path fs" "map fst ?docs = map ff_path fs"
    using dist by (simp_all add: o_def)
  have gi: "mesh_inv ?g"
    using graph_store.inv_put_all [OF graph_store.inv_purge [OF inv] good(1)] by simp
  have "file_view ?g p = (case map_of ?codes p of Some f \<Rightarrow> index_view f | None \<Rightarrow> if p \<in> set gone then [] else file_view (sn_graph snap) p)" for p
    using graph_store.view_batch [OF inv good(1) dist'(1), of gone p] by (simp only: dist'(3))
  moreover have "doc_view (sn_docs s) p = (case map_of ?docs p of Some f \<Rightarrow> f | None \<Rightarrow> if p \<in> set gone then [] else doc_view (sn_docs snap) p)" for p
    using doc_store.view_batch [OF TrueI good(2) dist'(2), of gone _ p] by (simp only: dist'(4) s(3))
  moreover have "file_view (sn_graph (finish_snapshot env s)) p = file_view ?g p" for p
    using file_view_reconcile [of ?g] gi s(2) by (simp add: finish_snapshot_def mesh_inv_def)
  ultimately have "file_facts (finish_snapshot env s) p
      = (case find (\<lambda>f. ff_path f = p) fs of Some f \<Rightarrow> fragment_facts f | None \<Rightarrow> if p \<in> set gone then ([], []) else file_facts snap p)" for p
    by (simp add: file_facts_def fragment_facts_def map_of_fragments finish_snapshot_def split: option.splits)
  moreover have "mesh_inv (sn_graph (finish_snapshot env s))" using mesh_inv_reconcile [OF gi] s(2) by (simp add: finish_snapshot_def)
  moreover have "clone_settings (sn_docs (finish_snapshot env s)) = clone_settings (sn_docs snap)"
    by (simp add: finish_snapshot_def s(3) settings_kept)
  moreover have "sn_health (finish_snapshot env s) = sn_health snap" by (simp add: finish_snapshot_def s(4))
  ultimately show ?thesis using s(1) by blast
qed


section \<open>What a file gives\<close>

text \<open>The index and the facts of a content, without a cache.\<close>

definition content_code :: "scan_lib \<Rightarrow> scan_config \<Rightarrow> bool \<Rightarrow> path \<Rightarrow> repo_id \<Rightarrow> string \<Rightarrow> file_index" where
  "content_code lib cfg alone p repo content =
     (let contracts = tg_contracts (sc_toggles cfg);
          code = (if is_code_file p \<and> contracts then sl_extract lib (sc_extract_repr cfg) (sc_aliases cfg p) alone p content repo
                  else file_index_default) in
      if contracts \<and> sc_has_patterns cfg then fi_merge code (sc_custom cfg p content repo) else code)"

definition content_facts ::
  "scan_lib \<Rightarrow> scan_config \<Rightarrow> path list \<Rightarrow> bool \<Rightarrow> repo_id \<times> path \<Rightarrow> string \<Rightarrow> node_view list \<times> doc_section list" where
  "content_facts lib cfg roots alone f content =
     (index_view (content_code lib cfg alone (snd f) (fst f) content), docs_of lib cfg (root_of roots f) (snd f) content)"

lemma scan_outcome_content:
  "scan_outcome lib cfg alone d roots None f =
     (case read_guarded d (snd f) of
        Inl r \<Rightarrow> Inl r
      | Inr (md, content) \<Rightarrow> Inr \<lparr>ff_path = snd f, ff_signature = compute_signature (sl_sha256 lib) md content,
          ff_code = content_code lib cfg alone (snd f) (fst f) content, ff_docs = docs_of lib cfg (root_of roots f) (snd f) content,
          ff_props = props_of lib cfg (snd f) content, ff_cache_write = None\<rparr>)"
  by (auto simp: scan_outcome_def process_file_def extract_with_cache_def content_code_def Let_def split: sum.splits)

text \<open>The fragment a file ends with, when it is read, passes the guards and parses.\<close>

definition clean_fragment :: "scan_lib \<Rightarrow> scan_config \<Rightarrow> disk \<Rightarrow> path list \<Rightarrow> repo_id \<times> path \<Rightarrow> file_fragment option" where
  "clean_fragment lib cfg d roots f =
     (case final_outcome lib cfg d roots None f of
        Inr frag \<Rightarrow> if fi_parse_failed (ff_code frag) then None else Some frag
      | Inl _ \<Rightarrow> None)"

lemma clean_fragment_content:
  assumes "clean_fragment lib cfg d roots f = Some frag"
  shows "\<exists>alone md content. read_guarded d (snd f) = Inr (md, content) \<and> ff_path frag = snd f
    \<and> ff_signature frag = compute_signature (sl_sha256 lib) md content \<and> \<not> fi_parse_failed (content_code lib cfg alone (snd f) (fst f) content)
    \<and> fragment_facts frag = content_facts lib cfg roots alone f content \<and> ff_code frag = content_code lib cfg alone (snd f) (fst f) content
    \<and> ff_docs frag = docs_of lib cfg (root_of roots f) (snd f) content \<and> ff_cache_write frag = None"
proof -
  obtain alone where "scan_outcome lib cfg alone d roots None f = Inr frag" "\<not> fi_parse_failed (ff_code frag)"
    using assms by (auto simp: clean_fragment_def final_outcome_def split: sum.splits if_splits)
  then show ?thesis by (auto simp: scan_outcome_content fragment_facts_def content_facts_def split: sum.splits)
qed

lemma read_guarded_read: "read_guarded d p = Inr (md, content) \<Longrightarrow> dk_read d p = Some content \<and> dk_metadata d p = Some md"
  by (auto simp: read_guarded_def split: option.splits if_splits sum.splits)

text \<open>
  The contract of the extractors under one configuration: the index of a file is about that file, and a parse that finishes
  gives the same index under load and alone.
\<close>

definition extractors_ok :: "scan_lib \<Rightarrow> scan_config \<Rightarrow> bool" where
  "extractors_ok lib cfg \<longleftrightarrow>
     (\<forall>alone p repo content. index_for p (content_code lib cfg alone p repo content))
     \<and> (\<forall>alone alone' p repo content. \<not> fi_parse_failed (content_code lib cfg alone p repo content)
          \<longrightarrow> \<not> fi_parse_failed (content_code lib cfg alone' p repo content)
          \<longrightarrow> content_code lib cfg alone p repo content = content_code lib cfg alone' p repo content)"

lemma extractors_okD:
  assumes "extractors_ok lib cfg"
  shows "index_for p (content_code lib cfg alone p repo content)"
    and "\<not> fi_parse_failed (content_code lib cfg alone p repo content) \<Longrightarrow> \<not> fi_parse_failed (content_code lib cfg alone' p repo content)
      \<Longrightarrow> content_facts lib cfg roots alone (repo, p) content = content_facts lib cfg roots alone' (repo, p) content"
proof -
  show "index_for p (content_code lib cfg alone p repo content)" using assms unfolding extractors_ok_def by blast
  assume "\<not> fi_parse_failed (content_code lib cfg alone p repo content)" "\<not> fi_parse_failed (content_code lib cfg alone' p repo content)"
  then have "content_code lib cfg alone p repo content = content_code lib cfg alone' p repo content"
    using assms unfolding extractors_ok_def by blast
  then show "content_facts lib cfg roots alone (repo, p) content = content_facts lib cfg roots alone' (repo, p) content"
    by (simp add: content_facts_def)
qed

lemma clean_fragment_ok: "extractors_ok lib cfg \<Longrightarrow> clean_fragment lib cfg d roots f = Some frag \<Longrightarrow> fragment_ok frag"
  using clean_fragment_content [of lib cfg d roots f frag] extractors_okD(1) [of lib cfg]
  by (auto simp: fragment_ok_def docs_of_def dest: parse_sections_path split: if_splits)

lemma settled_clean: "clean_fragment lib cfg d roots f = Some frag \<Longrightarrow> settled frag = frag"
  using clean_fragment_content [of lib cfg d roots f frag] by (auto simp: settled_def)

text \<open>The fragments a reload may fold in: those of the candidates that end clean.\<close>

lemma clean_of_pass:
  "frag \<in> set (filter (\<lambda>f. \<not> fi_parse_failed (ff_code f)) (pass_fragments lib cfg d roots None files))
     \<longleftrightarrow> (\<exists>f \<in> set files. clean_fragment lib cfg d roots f = Some frag)"
proof -
  have eq: "(\<exists>raw. final_outcome lib cfg d roots None f = Inr raw \<and> frag = settled raw \<and> \<not> fi_parse_failed (ff_code frag))
      \<longleftrightarrow> clean_fragment lib cfg d roots f = Some frag" for f
  proof
    assume "\<exists>raw. final_outcome lib cfg d roots None f = Inr raw \<and> frag = settled raw \<and> \<not> fi_parse_failed (ff_code frag)"
    then obtain raw where raw: "final_outcome lib cfg d roots None f = Inr raw" "frag = settled raw" "\<not> fi_parse_failed (ff_code frag)" by blast
    then have "clean_fragment lib cfg d roots f = Some raw" by (simp add: clean_fragment_def settled_def)
    with raw(2) settled_clean show "clean_fragment lib cfg d roots f = Some frag" by metis
  next
    assume c: "clean_fragment lib cfg d roots f = Some frag"
    then show "\<exists>raw. final_outcome lib cfg d roots None f = Inr raw \<and> frag = settled raw \<and> \<not> fi_parse_failed (ff_code frag)"
      using settled_clean [OF c] by (auto simp: clean_fragment_def split: sum.splits if_splits)
  qed
  show ?thesis by (simp only: set_filter mem_Collect_eq pass_fragments_mem eq [symmetric]) blast
qed


section \<open>Signatures\<close>

definition moved :: "differential_vfs \<Rightarrow> file_fragment \<Rightarrow> bool" where
  "moved vfs frag = (case map_of (vfs_signatures vfs) (ff_path frag) of None \<Rightarrow> True | Some s \<Rightarrow> fs_hash s \<noteq> fs_hash (ff_signature frag))"

lemma map_of_hm_insert_upd: "map_of (hm_insert k v m) = (map_of m)(k \<mapsto> v)"
  by (auto simp: map_of_hm_insert)

lemma upsert_signature:
  "map_of (vfs_signatures (snd (upsert p sig v))) = (map_of (vfs_signatures v))(p \<mapsto> sig)"
  "fst (upsert (ff_path f) (ff_signature f) v) = moved v f"
  "distinct (map fst (vfs_signatures v)) \<Longrightarrow> distinct (map fst (vfs_signatures (snd (upsert p sig v))))"
  by (simp_all add: upsert_def map_of_hm_insert_upd moved_def distinct_hm_insert)

lemma take_changed_result:
  assumes "distinct (map ff_path fs)"
  shows "fst (take_changed forced fs v) = filter (\<lambda>f. moved v f \<or> ff_path f \<in> set forced) fs"
    and "map_of (vfs_signatures (snd (take_changed forced fs v))) p
      = (case find (\<lambda>f. ff_path f = p) fs of Some f \<Rightarrow> Some (ff_signature f) | None \<Rightarrow> map_of (vfs_signatures v) p)"
    and "distinct (map fst (vfs_signatures v)) \<Longrightarrow> distinct (map fst (vfs_signatures (snd (take_changed forced fs v))))"
proof -
  have "fst (take_changed forced fs v) = filter (\<lambda>f. moved v f \<or> ff_path f \<in> set forced) fs
    \<and> map_of (vfs_signatures (snd (take_changed forced fs v))) p
      = (case find (\<lambda>f. ff_path f = p) fs of Some f \<Rightarrow> Some (ff_signature f) | None \<Rightarrow> map_of (vfs_signatures v) p)
    \<and> (distinct (map fst (vfs_signatures v)) \<longrightarrow> distinct (map fst (vfs_signatures (snd (take_changed forced fs v)))))"
    using assms
  proof (induction fs arbitrary: v)
    case (Cons f fs)
    let ?v = "snd (upsert (ff_path f) (ff_signature f) v)"
    have "moved ?v g = moved v g" if "g \<in> set fs" for g
    proof -
      have "ff_path g \<in> ff_path ` set fs" using that by (rule imageI)
      then have "ff_path g \<noteq> ff_path f" using Cons.prems by auto
      then show ?thesis by (simp add: moved_def upsert_signature(1))
    qed
    then have "filter (\<lambda>g. moved ?v g \<or> ff_path g \<in> set forced) fs = filter (\<lambda>g. moved v g \<or> ff_path g \<in> set forced) fs"
      by (auto intro: filter_cong)
    moreover have "find (\<lambda>g. ff_path g = p) fs = None" if "ff_path f = p"
      using that Cons.prems by (auto simp: find_None_iff) (metis imageI)
    ultimately show ?case
      using Cons.IH [of ?v] Cons.prems upsert_signature(1) [of "ff_path f" "ff_signature f" v]
        upsert_signature(2) [of f v] upsert_signature(3) [of v "ff_path f" "ff_signature f"]
      by (auto simp: Let_def split_def split: option.splits)
  qed simp
  then show "fst (take_changed forced fs v) = filter (\<lambda>f. moved v f \<or> ff_path f \<in> set forced) fs"
    "map_of (vfs_signatures (snd (take_changed forced fs v))) p
      = (case find (\<lambda>f. ff_path f = p) fs of Some f \<Rightarrow> Some (ff_signature f) | None \<Rightarrow> map_of (vfs_signatures v) p)"
    "distinct (map fst (vfs_signatures v)) \<Longrightarrow> distinct (map fst (vfs_signatures (snd (take_changed forced fs v))))" by blast+
qed

lemma vfs_removes:
  "map_of (vfs_signatures (fold (\<lambda>p v. snd (vfs_remove p v)) ps v)) q = (if q \<in> set ps then None else map_of (vfs_signatures v) q)"
  "distinct (map fst (vfs_signatures v)) \<Longrightarrow> distinct (map fst (vfs_signatures (fold (\<lambda>p v. snd (vfs_remove p v)) ps v)))"
proof -
  have one: "map_of (vfs_signatures (snd (vfs_remove p v))) q = (if q = p then None else map_of (vfs_signatures v) q)" for p v
    using map_of_filter_key [of "\<lambda>x. x \<noteq> p" "vfs_signatures v" q] by (simp add: vfs_remove_def hm_remove_def)
  show "map_of (vfs_signatures (fold (\<lambda>p v. snd (vfs_remove p v)) ps v)) q = (if q \<in> set ps then None else map_of (vfs_signatures v) q)"
    by (induction ps arbitrary: v) (auto simp: one)
  show "distinct (map fst (vfs_signatures v)) \<Longrightarrow> distinct (map fst (vfs_signatures (fold (\<lambda>p v. snd (vfs_remove p v)) ps v)))"
    by (induction ps arbitrary: v) (auto simp: vfs_remove_def hm_remove_keys)
qed

lemma rejects_keep_signatures [simp]: "vfs_signatures (note_stable_rejects rs v) = vfs_signatures v"
  unfolding note_stable_rejects_def by (induction rs arbitrary: v) (auto simp: note_rejected_def)


section \<open>An index in step with what it read\<close>

definition owner :: "path list \<Rightarrow> path \<Rightarrow> repo_id" where
  "owner roots p = (case most_specific_root p roots of Some (r, _) \<Rightarrow> r | None \<Rightarrow> 0)"

definition owned :: "path list \<Rightarrow> path \<Rightarrow> repo_id \<times> path" where
  "owned roots p = (owner roots p, p)"

text \<open>
  Every tracked file carries the facts of the content its signature was computed from, every other file carries none.
  \<^term>\<open>K\<close> holds the contents read so far.
\<close>

definition in_step :: "scan_lib \<Rightarrow> scan_config \<Rightarrow> path list \<Rightarrow> string set \<Rightarrow> mesh_snapshot \<Rightarrow> file_signature option \<Rightarrow> path \<Rightarrow> bool" where
  "in_step lib cfg roots K snap sig p \<longleftrightarrow>
     (case sig of
        None \<Rightarrow> file_facts snap p = ([], [])
      | Some s \<Rightarrow> \<exists>alone content. content \<in> K \<and> fs_hash s = sl_sha256 lib content
          \<and> \<not> fi_parse_failed (content_code lib cfg alone p (owner roots p) content)
          \<and> file_facts snap p = content_facts lib cfg roots alone (owned roots p) content)"

definition synced :: "'g index_env \<Rightarrow> scan_config \<Rightarrow> string set \<Rightarrow> indexer_state \<Rightarrow> bool" where
  "synced env cfg K st \<longleftrightarrow>
     mesh_inv (sn_graph (ms_snapshot (ix_server st))) \<and> clone_settings (sn_docs (ms_snapshot (ix_server st))) = sc_doc_template cfg
     \<and> distinct (tracked_paths (ix_vfs st)) \<and> ix_cache st = None
     \<and> (\<forall>p. in_step (ie_lib env) cfg (ie_roots env) K (ms_snapshot (ix_server st)) (map_of (vfs_signatures (ix_vfs st)) p) p)"

lemma in_step_cong:
  "file_facts snap' p = file_facts snap p \<Longrightarrow> in_step lib cfg roots K snap' sig p = in_step lib cfg roots K snap sig p"
  by (simp add: in_step_def split: option.splits)

subsection \<open>The candidates\<close>

lemma map_filter_owned:
  "map snd (List.map_filter (\<lambda>p. map_option (\<lambda>(r, _). (r, p)) (most_specific_root p roots)) ps)
     = filter (\<lambda>p. most_specific_root p roots \<noteq> None) ps"
  "f \<in> set (List.map_filter (\<lambda>p. map_option (\<lambda>(r, _). (r, p)) (most_specific_root p roots)) ps) \<Longrightarrow> f = owned roots (snd f) \<and> snd f \<in> set ps"
  by (induction ps) (auto simp: map_filter_simps owned_def owner_def split: option.splits)

lemma governed_owned:
  assumes "alias_governed_scripts env d digests vfs changed deleted = (governed, digests')" "distinct (tracked_paths vfs)"
  shows "distinct (map snd governed)" "\<forall>f \<in> set governed. f = owned (ie_roots env) (snd f) \<and> snd f \<in> set (tracked_paths vfs)"
proof -
  obtain scopes where g: "governed = List.map_filter (\<lambda>p. map_option (\<lambda>(r, _). (r, p)) (most_specific_root p (ie_roots env)))
      (filter (\<lambda>p. is_script p \<and> list_ex (path_starts_with p) scopes) (tracked_paths vfs))"
    using assms(1) by (auto simp: alias_governed_scripts_def split: prod.splits)
  show "distinct (map snd governed)" unfolding g map_filter_owned(1) using assms(2) by simp
  show "\<forall>f \<in> set governed. f = owned (ie_roots env) (snd f) \<and> snd f \<in> set (tracked_paths vfs)"
    unfolding g using map_filter_owned(2) by fastforce
qed

lemma candidates_ok:
  assumes cand: "incremental_candidates env d files deleted force st = (candidates, forced, digests)"
    and gone: "\<forall>p \<in> set deleted. dk_metadata d p = None"
    and files: "distinct (map snd files)" "\<forall>f \<in> set files. f = owned (ie_roots env) (snd f)"
    and tracked: "distinct (tracked_paths (ix_vfs st))"
  shows "distinct (map snd candidates)" "\<forall>f \<in> set candidates. f = owned (ie_roots env) (snd f)"
    "\<forall>f \<in> set files. changed_on_disk d (ix_vfs st) (snd f) \<longrightarrow> f \<in> set candidates"
    "\<forall>f \<in> set candidates. f \<in> set files \<or> snd f \<in> set (tracked_paths (ix_vfs st))"
proof -
  let ?changed = "filter (\<lambda>(_, p). changed_on_disk d (ix_vfs st) p) files"
  have res: "resurrected env d deleted = []" using gone by (simp add: resurrected_def filter_empty_conv)
  obtain governed dg where g: "alias_governed_scripts env d (ix_alias_digests st) (ix_vfs st) ?changed deleted = (governed, dg)" by force
  have gd: "filter (\<lambda>p. dk_metadata d p = None) deleted = deleted" using gone by (simp add: filter_True)
  have c: "candidates = ?changed @ filter (\<lambda>(_, p). p \<notin> set (map snd ?changed)) (forced_files governed force files)"
    using cand g by (simp add: incremental_candidates_def res gd Let_def)
  note gov = governed_owned [OF g tracked]
  have sub: "distinct (map snd (filter P xs))" if "distinct (map snd xs)" for P and xs :: "(repo_id \<times> path) list"
    using that by (auto simp: distinct_map inj_on_def)
  have ff: "distinct (map snd (forced_files governed force files))" "\<forall>f \<in> set (forced_files governed force files). f = owned (ie_roots env) (snd f)"
    "\<forall>f \<in> set (forced_files governed force files). f \<in> set files \<or> snd f \<in> set (tracked_paths (ix_vfs st))"
    using gov files(2) sub [OF files(1)] by (auto simp: forced_files_def split: option.splits) (metis imageI snd_conv)
  show "distinct (map snd candidates)"
    unfolding c map_append distinct_append using sub [OF files(1)] sub [OF ff(1)]
    by (auto simp: case_prod_unfold) (metis (mono_tags, lifting) imageI mem_Collect_eq snd_conv)
  show "\<forall>f \<in> set candidates. f = owned (ie_roots env) (snd f)" unfolding c using files(2) ff(2) by auto
  show "\<forall>f \<in> set files. changed_on_disk d (ix_vfs st) (snd f) \<longrightarrow> f \<in> set candidates" unfolding c by auto
  show "\<forall>f \<in> set candidates. f \<in> set files \<or> snd f \<in> set (tracked_paths (ix_vfs st))" unfolding c using ff(3) by auto
qed


subsection \<open>One reload\<close>

lemma find_distinct: "distinct (map h xs) \<Longrightarrow> find (\<lambda>x. h x = p) xs = Some x \<longleftrightarrow> x \<in> set xs \<and> h x = p"
proof (induction xs)
  case (Cons y ys)
  then have "h x \<noteq> h y" if "x \<in> set ys" using that by (metis distinct.simps(2) imageI list.set_map list.simps(9))
  with Cons show ?case by auto
qed simp

lemma find_filter_None: "find (\<lambda>x. h x = p) xs = None \<Longrightarrow> find (\<lambda>x. h x = p) (filter Q xs) = None"
  by (auto simp: find_None_iff)

text \<open>What a reload computes from its candidates, before it publishes anything.\<close>

definition clean_fragments :: "'g index_env \<Rightarrow> scan_config \<Rightarrow> disk \<Rightarrow> (repo_id \<times> path) list \<Rightarrow> file_fragment list" where
  "clean_fragments env cfg d candidates =
     filter (\<lambda>f. \<not> fi_parse_failed (ff_code f)) (pass_fragments (ie_lib env) cfg d (ie_roots env) None candidates)"

lemma clean_fragments_find:
  assumes "distinct (map snd candidates)" "\<forall>f \<in> set candidates. f = owned (ie_roots env) (snd f)"
  shows "distinct (map ff_path (clean_fragments env cfg d candidates))"
    and "find (\<lambda>f. ff_path f = p) (clean_fragments env cfg d candidates)
      = (if p \<in> set (map snd candidates) then clean_fragment (ie_lib env) cfg d (ie_roots env) (owned (ie_roots env) p) else None)"
proof -
  show dist: "distinct (map ff_path (clean_fragments env cfg d candidates))"
    using pass_fragments_distinct [OF assms(1)] by (auto simp: clean_fragments_def distinct_map inj_on_def)
  have path: "ff_path frag = snd f" if "clean_fragment (ie_lib env) cfg d (ie_roots env) f = Some frag" for f frag
    using clean_fragment_content [OF that] by blast
  have own: "f = owned (ie_roots env) p \<longleftrightarrow> snd f = p" if "f \<in> set candidates" for f
    using that assms(2) by (metis owned_def snd_conv)
  have mem: "frag \<in> set (clean_fragments env cfg d candidates) \<and> ff_path frag = p
      \<longleftrightarrow> p \<in> set (map snd candidates) \<and> clean_fragment (ie_lib env) cfg d (ie_roots env) (owned (ie_roots env) p) = Some frag" for frag
  proof
    assume "frag \<in> set (clean_fragments env cfg d candidates) \<and> ff_path frag = p"
    then obtain f where f: "f \<in> set candidates" "clean_fragment (ie_lib env) cfg d (ie_roots env) f = Some frag" "ff_path frag = p"
      unfolding clean_fragments_def clean_of_pass by blast
    then have "snd f = p" using path by simp
    moreover from this f(1) have "p \<in> set (map snd candidates)" by (metis imageI list.set_map)
    ultimately show "p \<in> set (map snd candidates) \<and> clean_fragment (ie_lib env) cfg d (ie_roots env) (owned (ie_roots env) p) = Some frag"
      using f own [OF f(1)] by simp
  next
    assume a: "p \<in> set (map snd candidates) \<and> clean_fragment (ie_lib env) cfg d (ie_roots env) (owned (ie_roots env) p) = Some frag"
    then obtain f where "f \<in> set candidates" "snd f = p" by auto
    with own [of f] a path show "frag \<in> set (clean_fragments env cfg d candidates) \<and> ff_path frag = p"
      unfolding clean_fragments_def clean_of_pass by (auto simp: owned_def)
  qed
  let ?rhs = "if p \<in> set (map snd candidates) then clean_fragment (ie_lib env) cfg d (ie_roots env) (owned (ie_roots env) p) else None"
  have "find (\<lambda>f. ff_path f = p) (clean_fragments env cfg d candidates) = Some frag \<longleftrightarrow> ?rhs = Some frag" for frag
    unfolding find_distinct [OF dist] mem by simp
  then show "find (\<lambda>f. ff_path f = p) (clean_fragments env cfg d candidates) = ?rhs" by (metis not_None_eq)
qed

lemma run_scan_pass_no_cache: "snd (run_scan_pass lib cfg d roots files None) = None"
proof -
  have "snd (scan_files lib cfg alone d roots fs None) = None" for alone fs
    using conjunct2 [OF scan_files_outcomes [of lib cfg alone d roots fs None]] by simp
  then show ?thesis by (simp add: run_scan_pass_def Let_def split_def)
qed

text \<open>The publication: purge, fold and install, or nothing at all when nothing moved.\<close>

lemma apply_incremental_published:
  fixes env :: "'g index_env" and cfg d files deleted force st
  defines "snap \<equiv> ms_snapshot (ix_server st)"
  assumes cfg: "scan_config_of env d (sc_doc_template cfg) = cfg" "clone_settings (sn_docs snap) = sc_doc_template cfg"
    and gone: "\<forall>p \<in> set deleted. dk_metadata d p = None" and nocache: "ix_cache st = None" and inv: "mesh_inv (sn_graph snap)"
    and cand: "incremental_candidates env d files deleted force st = (candidates, forced, digests)"
    and ok: "distinct (map ff_path (clean_fragments env cfg d candidates))" "\<forall>f \<in> set (clean_fragments env cfg d candidates). fragment_ok f"
  shows "\<exists>st'. apply_incremental env d files deleted force st = Some st' \<and> ix_cache st' = None
    \<and> mesh_inv (sn_graph (ms_snapshot (ix_server st'))) \<and> clone_settings (sn_docs (ms_snapshot (ix_server st'))) = clone_settings (sn_docs snap)
    \<and> (\<forall>p. file_facts (ms_snapshot (ix_server st')) p
         = (case find (\<lambda>f. ff_path f = p) (filter (\<lambda>f. moved (ix_vfs st) f \<or> ff_path f \<in> set forced) (clean_fragments env cfg d candidates)) of
              Some f \<Rightarrow> fragment_facts f | None \<Rightarrow> if p \<in> set deleted then ([], []) else file_facts snap p))
    \<and> (\<forall>p. map_of (vfs_signatures (ix_vfs st')) p
         = (if p \<in> set deleted then None
            else case find (\<lambda>f. ff_path f = p) (clean_fragments env cfg d candidates) of
              Some f \<Rightarrow> Some (ff_signature f) | None \<Rightarrow> map_of (vfs_signatures (ix_vfs st)) p))
    \<and> (distinct (tracked_paths (ix_vfs st)) \<longrightarrow> distinct (tracked_paths (ix_vfs st')))"
proof -
  let ?fs = "clean_fragments env cfg d candidates"
  let ?ch = "filter (\<lambda>f. moved (ix_vfs st) f \<or> ff_path f \<in> set forced) ?fs"
  have gd: "filter (\<lambda>p. dk_metadata d p = None) deleted = deleted" using gone by (simp add: filter_True)
  obtain frags health rejects where pass: "fst (run_scan_pass (ie_lib env) cfg d (ie_roots env) candidates None) = (frags, health, rejects)"
    by (metis surj_pair)
  have run: "run_scan_pass (ie_lib env) cfg d (ie_roots env) candidates None = ((frags, health, rejects), None)"
    using pass run_scan_pass_no_cache [of "ie_lib env" cfg d "ie_roots env" candidates] by (simp add: prod_eq_iff)
  have fs: "filter (\<lambda>f. \<not> fi_parse_failed (ff_code f)) frags = ?fs" using pass by (simp add: clean_fragments_def pass_fragments_def)
  define vfs1 where "vfs1 = note_stable_rejects rejects (ix_vfs st)"
  obtain changed vfs2 where ch: "take_changed forced ?fs vfs1 = (changed, vfs2)" by force
  have vs: "vfs_signatures vfs1 = vfs_signatures (ix_vfs st)" by (simp add: vfs1_def)
  then have mv: "moved vfs1 f = moved (ix_vfs st) f" for f by (simp add: moved_def)
  have changed: "changed = ?ch" using take_changed_result(1) [OF ok(1), of forced vfs1] ch by (simp add: mv)
  define vfs3 where "vfs3 = fold (\<lambda>p v. snd (vfs_remove p v)) deleted vfs2"
  have sigs: "map_of (vfs_signatures vfs3) p = (if p \<in> set deleted then None
      else case find (\<lambda>f. ff_path f = p) ?fs of Some f \<Rightarrow> Some (ff_signature f) | None \<Rightarrow> map_of (vfs_signatures (ix_vfs st)) p)" for p
    using take_changed_result(2) [OF ok(1), of forced vfs1 p, unfolded ch vs snd_conv] by (simp add: vfs3_def vfs_removes(1))
  have dist: "distinct (tracked_paths (ix_vfs st)) \<longrightarrow> distinct (tracked_paths vfs3)"
    using take_changed_result(3) [OF ok(1), of vfs1 forced] ch vfs_removes(2) [of vfs2 deleted] by (simp add: vfs3_def vs tracked_paths_def)
  obtain rc rj where rj: "replace_rejected (set (map snd candidates) \<union> set deleted) (rejected health) (sn_health snap) = (rc, rj)" by force
  define snap' where "snap' = snap\<lparr>sn_health := (health_merge health (sn_health snap))\<lparr>rejected := rejected rj, rejected_overflow := rejected_overflow rj\<rparr>\<rparr>"
  have snap': "sn_graph snap' = sn_graph snap" "sn_docs snap' = sn_docs snap" "file_facts snap' = file_facts snap"
    by (simp_all add: snap'_def file_facts_def fun_eq_iff)
  define st1 where "st1 = st\<lparr>ix_alias_digests := digests, ix_vfs := vfs3, ix_cache := None\<rparr>"
  have red: "apply_incremental env d files deleted force st =
    (if candidates = [] \<and> deleted = [] then Some (st\<lparr>ix_alias_digests := digests\<rparr>)
     else if changed = [] \<and> deleted = [] \<and> \<not> rc then Some st1
     else map_option (\<lambda>s. st1\<lparr>ix_server := install_snapshot (finish_snapshot env s) (ix_server st)\<rparr>)
       (fold_fragments changed (purge_snapshot (map ff_path changed @ deleted) snap')))"
    unfolding apply_incremental_def Let_def gd cand prod.case cfg(2) [unfolded snap_def] cfg(1) nocache run fs ch [unfolded vfs1_def]
      rj [unfolded snap_def] st1_def vfs3_def snap'_def snap_def by simp
  consider "candidates = [] \<and> deleted = []" | "\<not> (candidates = [] \<and> deleted = [])" "changed = [] \<and> deleted = [] \<and> \<not> rc"
    | "\<not> (candidates = [] \<and> deleted = [])" "\<not> (changed = [] \<and> deleted = [] \<and> \<not> rc)" by blast
  then show ?thesis
  proof cases
    case 1
    then have "?fs = []" by (simp add: clean_fragments_def pass_fragments_def run_scan_pass_def needs_retry_def kept_fragments_def retried_fragments_def)
    moreover have "apply_incremental env d files deleted force st = Some (st\<lparr>ix_alias_digests := digests\<rparr>)" using 1 unfolding red by simp
    ultimately show ?thesis using 1 inv nocache by (intro exI [of _ "st\<lparr>ix_alias_digests := digests\<rparr>"]) (simp add: snap_def)
  next
    case 2
    then have "apply_incremental env d files deleted force st = Some st1" unfolding red by simp
    then show ?thesis using 2 inv sigs dist changed by (intro exI [of _ st1]) (simp add: snap_def st1_def)
  next
    case 3
    have "\<forall>f \<in> set changed. fragment_ok f" "distinct (map ff_path changed)" using ok changed by (auto simp: distinct_map inj_on_def)
    from batch_facts [OF _ this, of snap' deleted env, unfolded snap', OF inv] obtain s where
      s: "fold_fragments changed (purge_snapshot (map ff_path changed @ deleted) snap') = Some s" "mesh_inv (sn_graph (finish_snapshot env s))"
        "clone_settings (sn_docs (finish_snapshot env s)) = clone_settings (sn_docs snap)"
        "\<forall>p. file_facts (finish_snapshot env s) p = (case find (\<lambda>f. ff_path f = p) changed of Some f \<Rightarrow> fragment_facts f
           | None \<Rightarrow> if p \<in> set deleted then ([], []) else file_facts snap p)" by blast
    let ?st = "st1\<lparr>ix_server := install_snapshot (finish_snapshot env s) (ix_server st)\<rparr>"
    have "apply_incremental env d files deleted force st = Some ?st" using 3 s(1) unfolding red by auto
    then show ?thesis using s(2-) sigs dist changed by (intro exI [of _ ?st]) (simp add: st1_def install_snapshot_def)
  qed
qed


lemma unmoved_facts:
  assumes sync: "in_step lib cfg roots K snap (map_of (vfs_signatures vfs) p) p" and ext: "extractors_ok lib cfg"
    and inj: "inj_on (sl_sha256 lib) K" and reads: "\<forall>q c. dk_read d q = Some c \<longrightarrow> c \<in> K"
    and frag: "clean_fragment lib cfg d roots (owned roots p) = Some frag" and same: "\<not> moved vfs frag"
  shows "file_facts snap p = fragment_facts frag"
proof -
  obtain alone md content where c: "read_guarded d p = Inr (md, content)" "ff_path frag = p"
    "ff_signature frag = compute_signature (sl_sha256 lib) md content" "\<not> fi_parse_failed (content_code lib cfg alone p (owner roots p) content)"
    "fragment_facts frag = content_facts lib cfg roots alone (owned roots p) content"
    using clean_fragment_content [OF frag] by (auto simp: owned_def)
  obtain s alone' content' where s: "map_of (vfs_signatures vfs) p = Some s" "fs_hash s = sl_sha256 lib content" "content' \<in> K"
    "fs_hash s = sl_sha256 lib content'" "\<not> fi_parse_failed (content_code lib cfg alone' p (owner roots p) content')"
    "file_facts snap p = content_facts lib cfg roots alone' (owned roots p) content'"
    using same sync c(2,3) by (auto simp: moved_def in_step_def compute_signature_def split: option.splits)
  have "content \<in> K" using read_guarded_read [OF c(1)] reads by blast
  then have "content' = content" using s inj by (metis inj_onD)
  then show ?thesis using extractors_okD(2) [OF ext c(4), of alone' roots] s c(5) by (simp add: owned_def)
qed

lemma chosen_fragment:
  assumes dist: "distinct (map ff_path fs)" and same: "\<And>frag. find (\<lambda>f. ff_path f = p) fs = Some frag \<Longrightarrow> \<not> Q frag \<Longrightarrow> old = F frag"
  shows "(case find (\<lambda>f. ff_path f = p) (filter Q fs) of Some f \<Rightarrow> F f | None \<Rightarrow> old)
    = (case find (\<lambda>f. ff_path f = p) fs of Some f \<Rightarrow> F f | None \<Rightarrow> old)"
proof (cases "find (\<lambda>f. ff_path f = p) fs")
  case None
  then show ?thesis using find_filter_None [OF None] by simp
next
  case (Some frag)
  have d2: "distinct (map ff_path (filter Q fs))" using dist by (auto simp: distinct_map inj_on_def)
  have frag: "frag \<in> set fs" "ff_path frag = p" using Some find_distinct [OF dist] by auto
  show ?thesis
  proof (cases "Q frag")
    case True
    then have "find (\<lambda>f. ff_path f = p) (filter Q fs) = Some frag" using find_distinct [OF d2] frag by simp
    then show ?thesis using Some by simp
  next
    case False
    moreover have "x = frag" if "x \<in> set fs" "ff_path x = p" for x using find_distinct [OF dist, of p x] Some that by simp
    ultimately have "find (\<lambda>f. ff_path f = p) (filter Q fs) = None" by (auto simp: find_None_iff)
    then show ?thesis using Some same [OF Some False] by simp
  qed
qed

lemma in_step_clean:
  assumes clean: "clean_fragment lib cfg d roots (owned roots p) = Some frag" and reads: "\<forall>q c. dk_read d q = Some c \<longrightarrow> c \<in> K"
    and facts: "file_facts snap p = fragment_facts frag"
  shows "in_step lib cfg roots K snap (Some (ff_signature frag)) p"
proof -
  obtain alone md content where c: "read_guarded d p = Inr (md, content)" "ff_signature frag = compute_signature (sl_sha256 lib) md content"
    "\<not> fi_parse_failed (content_code lib cfg alone p (owner roots p) content)"
    "fragment_facts frag = content_facts lib cfg roots alone (owned roots p) content"
    using clean_fragment_content [OF clean] by (auto simp: owned_def)
  have "content \<in> K" using read_guarded_read [OF c(1)] reads by blast
  then show ?thesis unfolding in_step_def using facts c by (simp add: compute_signature_def) blast
qed

lemma clean_exists: "clean_fragment lib cfg d roots (owned roots p) = Some frag \<Longrightarrow> dk_metadata d p \<noteq> None"
  using clean_fragment_content [of lib cfg d roots "owned roots p" frag] read_guarded_read [of d p] by (auto simp: owned_def)

lemma incremental_step:
  fixes env :: "'g index_env"
  assumes sync: "synced env cfg K st" and cfg: "scan_config_of env d (sc_doc_template cfg) = cfg"
    and ext: "extractors_ok (ie_lib env) cfg" and inj: "inj_on (sl_sha256 (ie_lib env)) K"
    and reads: "\<forall>q c. dk_read d q = Some c \<longrightarrow> c \<in> K"
    and gone: "\<forall>p \<in> set deleted. dk_metadata d p = None"
    and files: "distinct (map snd files)" "\<forall>f \<in> set files. f = owned (ie_roots env) (snd f)"
    and cand: "incremental_candidates env d files deleted force st = (candidates, forced, digests)"
  shows "\<exists>st'. apply_incremental env d files deleted force st = Some st' \<and> synced env cfg K st'
    \<and> (\<forall>p. file_facts (ms_snapshot (ix_server st')) p =
         (if p \<in> set deleted then ([], [])
          else if p \<in> set (map snd candidates) then
            (case clean_fragment (ie_lib env) cfg d (ie_roots env) (owned (ie_roots env) p) of
               Some frag \<Rightarrow> fragment_facts frag
             | None \<Rightarrow> file_facts (ms_snapshot (ix_server st)) p)
          else file_facts (ms_snapshot (ix_server st)) p))"
proof -
  let ?lib = "ie_lib env" and ?roots = "ie_roots env" and ?snap = "ms_snapshot (ix_server st)"
  let ?fs = "clean_fragments env cfg d candidates" and ?clean = "\<lambda>p. clean_fragment ?lib cfg d ?roots (owned ?roots p)"
  have step: "in_step ?lib cfg ?roots K ?snap (map_of (vfs_signatures (ix_vfs st)) p) p" for p using sync by (simp add: synced_def)
  have st: "mesh_inv (sn_graph ?snap)" "clone_settings (sn_docs ?snap) = sc_doc_template cfg" "distinct (tracked_paths (ix_vfs st))" "ix_cache st = None"
    using sync by (simp_all add: synced_def)
  note cs = candidates_ok [OF cand gone files st(3)]
  note found = clean_fragments_find [OF cs(1,2), where cfg = cfg and d = d]
  have clean: "?clean p = Some frag \<and> p \<notin> set deleted" if "find (\<lambda>f. ff_path f = p) ?fs = Some frag" for p frag
    using that found(2) [of p] gone clean_exists [of ?lib cfg d ?roots p] by (auto split: if_splits)
  have ok: "\<forall>f \<in> set ?fs. fragment_ok f"
    unfolding clean_fragments_def using clean_fragment_ok [OF ext] clean_of_pass by blast
  from apply_incremental_published [OF cfg st(2) gone st(4,1) cand found(1) ok] obtain st' where
    st': "apply_incremental env d files deleted force st = Some st'" "ix_cache st' = None" "mesh_inv (sn_graph (ms_snapshot (ix_server st')))"
      "clone_settings (sn_docs (ms_snapshot (ix_server st'))) = sc_doc_template cfg" "distinct (tracked_paths (ix_vfs st'))"
    and facts: "\<And>p. file_facts (ms_snapshot (ix_server st')) p
         = (case find (\<lambda>f. ff_path f = p) (filter (\<lambda>f. moved (ix_vfs st) f \<or> ff_path f \<in> set forced) ?fs) of
              Some f \<Rightarrow> fragment_facts f | None \<Rightarrow> if p \<in> set deleted then ([], []) else file_facts ?snap p)"
    and sigs: "\<And>p. map_of (vfs_signatures (ix_vfs st')) p = (if p \<in> set deleted then None
            else case find (\<lambda>f. ff_path f = p) ?fs of Some f \<Rightarrow> Some (ff_signature f) | None \<Rightarrow> map_of (vfs_signatures (ix_vfs st)) p)"
    using st(2,3) by auto
  have new: "file_facts (ms_snapshot (ix_server st')) p = (case find (\<lambda>f. ff_path f = p) ?fs of
      Some f \<Rightarrow> fragment_facts f | None \<Rightarrow> if p \<in> set deleted then ([], []) else file_facts ?snap p)" for p
    unfolding facts by (rule chosen_fragment [OF found(1)]) (use clean unmoved_facts [OF step ext inj reads] in auto)
  have "in_step ?lib cfg ?roots K (ms_snapshot (ix_server st')) (map_of (vfs_signatures (ix_vfs st')) p) p" for p
  proof (cases "find (\<lambda>f. ff_path f = p) ?fs")
    case None
    then have "file_facts (ms_snapshot (ix_server st')) p = (if p \<in> set deleted then ([], []) else file_facts ?snap p)"
      "map_of (vfs_signatures (ix_vfs st')) p = (if p \<in> set deleted then None else map_of (vfs_signatures (ix_vfs st)) p)"
      using new [of p] sigs [of p] by simp_all
    then show ?thesis using step [of p] in_step_cong [of "ms_snapshot (ix_server st')" p ?snap] by (cases "p \<in> set deleted") (simp_all add: in_step_def)
  next
    case (Some frag)
    then show ?thesis
      using in_step_clean [OF conjunct1 [OF clean [OF Some]] reads] conjunct2 [OF clean [OF Some]] new [of p] sigs [of p] by simp
  qed
  then have "synced env cfg K st'" using st' by (simp add: synced_def)
  moreover have "file_facts (ms_snapshot (ix_server st')) p =
         (if p \<in> set deleted then ([], [])
          else if p \<in> set (map snd candidates) then (case ?clean p of Some frag \<Rightarrow> fragment_facts frag | None \<Rightarrow> file_facts ?snap p)
          else file_facts ?snap p)" for p
    using new [of p] clean [of p] unfolding found(2) by (auto split: option.splits if_splits)
  ultimately show ?thesis using st'(1) by blast
qed



section \<open>The full build\<close>

lemma fresh_facts: "file_facts \<lparr>sn_graph = empty_graph, sn_docs = doc_index_for entries c, sn_props = r, sn_health = h, sn_roots = roots\<rparr> p = ([], [])"
  by (simp add: file_facts_def file_view_def doc_view_def all_nodes_def empty_graph_def doc_index_for_def doc_index_default_def
      doc_index_new_def split: option.splits)

lemma folded_facts:
  assumes inv: "mesh_inv (sn_graph snap)" and ok: "\<forall>f \<in> set fs. fragment_ok f" and dist: "distinct (map ff_path fs)"
    and empty: "file_facts snap p = ([], [])"
  shows "\<exists>s. fold_fragments fs snap = Some s \<and> file_facts (finish_snapshot env s) p
    = (case find (\<lambda>f. ff_path f = p) fs of Some f \<Rightarrow> fragment_facts f | None \<Rightarrow> ([], []))"
proof -
  let ?codes = "map (\<lambda>f. (ff_path f, ff_code f)) fs" and ?docs = "map (\<lambda>f. (ff_path f, ff_docs f)) fs"
  from fold_fragments_stores [OF ok, of snap] obtain s where
    s: "fold_fragments fs snap = Some s" "sn_graph s = fold (\<lambda>(q, fi). put_index fi) ?codes (sn_graph snap)"
      "sn_docs s = fold (\<lambda>(q, ss). extend_sections ss) ?docs (sn_docs snap)" by blast
  have good: "\<forall>(q, fi) \<in> set ?codes. index_for q fi" "\<forall>(q, ss) \<in> set ?docs. \<forall>s \<in> set ss. ds_path s = q"
    using ok by (auto simp: fragment_ok_def)
  have d: "distinct (map fst ?codes)" "distinct (map fst ?docs)" using dist by (simp_all add: o_def)
  have gi: "mesh_inv (sn_graph s)" using graph_store.inv_put_all [OF inv good(1)] s(2) by simp
  then have "file_view (sn_graph (finish_snapshot env s)) p = file_view (sn_graph s) p"
    using file_view_reconcile [of "sn_graph s"] by (simp add: finish_snapshot_def mesh_inv_def)
  moreover have "file_view (sn_graph s) p = concat (map (index_view \<circ> snd) (filter (\<lambda>(q, f). q = p) ?codes))"
    using graph_store.view_put_all [OF inv good(1), of p] empty s(2) by (simp add: file_facts_def)
  moreover have "doc_view (sn_docs s) p = concat (map ((\<lambda>ss. ss) \<circ> snd) (filter (\<lambda>(q, f). q = p) ?docs))"
    using doc_store.view_put_all [OF TrueI good(2), of _ p] empty s(3) by (simp add: file_facts_def)
  ultimately have "file_facts (finish_snapshot env s) p
      = (case find (\<lambda>f. ff_path f = p) fs of Some f \<Rightarrow> fragment_facts f | None \<Rightarrow> ([], []))"
    unfolding graph_store.fragment_of [OF d(1)] doc_store.fragment_of [OF d(2)] map_of_fragments
    by (simp add: file_facts_def fragment_facts_def finish_snapshot_def split: option.splits)
  then show ?thesis using s(1) by blast
qed

text \<open>A full build gives every file the facts of the outcome it ended with, and no other file any.\<close>

lemma build_facts:
  fixes env :: "'g index_env"
  assumes cfg: "scan_config_of env d (doc_index_for (ie_aliases_of env) (ie_config env)) = cfg" and ext: "extractors_ok (ie_lib env) cfg"
    and files: "distinct (map snd files)" "\<forall>f \<in> set files. f = owned (ie_roots env) (snd f)"
  shows "\<exists>s. fst (build_snapshot_from_files env d files vfs None) = Some s
    \<and> (\<forall>p. file_facts s p = (if p \<in> set (map snd files) then
          (case final_outcome (ie_lib env) cfg d (ie_roots env) None (owned (ie_roots env) p) of Inr frag \<Rightarrow> fragment_facts frag | Inl _ \<Rightarrow> ([], []))
        else ([], [])))"
proof -
  let ?lib = "ie_lib env" and ?roots = "ie_roots env"
  let ?frags = "pass_fragments ?lib cfg d ?roots None files"
  define fresh where "fresh = \<lparr>sn_graph = empty_graph, sn_docs = doc_index_for (ie_aliases_of env) (ie_config env), sn_props = registry_new,
     sn_health = fst (snd (fst (run_scan_pass ?lib cfg d ?roots files None))), sn_roots = ?roots\<rparr>"
  have built: "fst (build_snapshot_from_files env d files vfs None) = map_option (finish_snapshot env) (fold_fragments ?frags fresh)"
    by (simp add: build_snapshot_from_files_def Let_def split_def cfg fresh_def pass_fragments_def)
  have outcome: "\<exists>alone md content. read_guarded d (snd f) = Inr (md, content) \<and> raw = \<lparr>ff_path = snd f, ff_signature = compute_signature (sl_sha256 ?lib) md content,
      ff_code = content_code ?lib cfg alone (snd f) (fst f) content, ff_docs = docs_of ?lib cfg (root_of ?roots f) (snd f) content,
      ff_props = props_of ?lib cfg (snd f) content, ff_cache_write = None\<rparr>" if "final_outcome ?lib cfg d ?roots None f = Inr raw" for f raw
    using that by (auto simp: final_outcome_def scan_outcome_content split: sum.splits if_splits)
  have keep: "settled raw = raw \<and> fragment_ok raw \<and> ff_path raw = snd f" if "final_outcome ?lib cfg d ?roots None f = Inr raw" for f raw
    using outcome [OF that] extractors_okD(1) [OF ext] by (auto simp: settled_def fragment_ok_def docs_of_def dest: parse_sections_path split: if_splits)
  have mem: "frag \<in> set ?frags \<longleftrightarrow> (\<exists>f \<in> set files. final_outcome ?lib cfg d ?roots None f = Inr frag)" for frag
    unfolding pass_fragments_mem using keep by metis
  note dist = pass_fragments_distinct [OF files(1), where lib = ?lib and cfg = cfg and d = d and roots = ?roots and c = None]
  have ok: "\<forall>f \<in> set ?frags. fragment_ok f" using mem keep by blast
  have own: "f = owned ?roots p \<longleftrightarrow> snd f = p" if "f \<in> set files" for f p using that files(2) by (metis owned_def snd_conv)
  have mem2: "frag \<in> set ?frags \<and> ff_path frag = p \<longleftrightarrow> p \<in> set (map snd files) \<and> final_outcome ?lib cfg d ?roots None (owned ?roots p) = Inr frag" for frag p
  proof
    assume "frag \<in> set ?frags \<and> ff_path frag = p"
    then obtain f where f: "f \<in> set files" "final_outcome ?lib cfg d ?roots None f = Inr frag" "snd f = p" using mem keep by metis
    then show "p \<in> set (map snd files) \<and> final_outcome ?lib cfg d ?roots None (owned ?roots p) = Inr frag"
      using own [OF f(1), of p] by (metis imageI list.set_map)
  next
    assume a: "p \<in> set (map snd files) \<and> final_outcome ?lib cfg d ?roots None (owned ?roots p) = Inr frag"
    then obtain f where "f \<in> set files" "snd f = p" by auto
    then show "frag \<in> set ?frags \<and> ff_path frag = p" using own mem keep a by (metis owned_def snd_conv)
  qed
  let ?out = "\<lambda>p. if p \<in> set (map snd files) then
      (case final_outcome ?lib cfg d ?roots None (owned ?roots p) of Inr frag \<Rightarrow> Some frag | Inl _ \<Rightarrow> None) else None"
  have "find (\<lambda>f. ff_path f = p) ?frags = Some frag \<longleftrightarrow> ?out p = Some frag" for p frag
    unfolding find_distinct [OF dist] mem2 by (simp split: sum.splits)
  then have find: "find (\<lambda>f. ff_path f = p) ?frags = ?out p" for p by (metis (no_types, lifting) not_None_eq)
  have "\<exists>s. fold_fragments ?frags fresh = Some s \<and> file_facts (finish_snapshot env s) p
      = (case find (\<lambda>f. ff_path f = p) ?frags of Some f \<Rightarrow> fragment_facts f | None \<Rightarrow> ([], []))" for p
    by (rule folded_facts [OF _ ok dist]) (simp_all add: fresh_def fresh_facts mesh_inv_empty)
  then obtain s where "fold_fragments ?frags fresh = Some s"
    "\<And>p. file_facts (finish_snapshot env s) p = (case ?out p of Some f \<Rightarrow> fragment_facts f | None \<Rightarrow> ([], []))"
    unfolding find by (metis option.inject)
  then show ?thesis unfolding built by (intro exI [of _ "finish_snapshot env s"]) (auto split: sum.splits)
qed


section \<open>Differential and full\<close>

text \<open>A stat that did not move means content that did not move, for the files indexed and for the files refused.\<close>

definition honest_stats :: "'g index_env \<Rightarrow> scan_config \<Rightarrow> disk \<Rightarrow> differential_vfs \<Rightarrow> (repo_id \<times> path) list \<Rightarrow> bool" where
  "honest_stats env cfg d vfs files \<longleftrightarrow>
     (\<forall>f \<in> set files. \<forall>md. dk_metadata d (snd f) = Some md \<longrightarrow>
        (\<forall>sig content. is_unchanged_fast (snd f) md vfs \<longrightarrow> map_of (vfs_signatures vfs) (snd f) = Some sig
           \<longrightarrow> dk_read d (snd f) = Some content \<longrightarrow> fs_hash sig = sl_sha256 (ie_lib env) content)
        \<and> (is_rejection_unchanged (snd f) md vfs \<longrightarrow> clean_fragment (ie_lib env) cfg d (ie_roots env) f = None))"

text \<open>Every file of the crawl ends clean, or is refused and was not indexed before.\<close>

definition settles :: "'g index_env \<Rightarrow> scan_config \<Rightarrow> disk \<Rightarrow> differential_vfs \<Rightarrow> (repo_id \<times> path) list \<Rightarrow> bool" where
  "settles env cfg d vfs files \<longleftrightarrow>
     (\<forall>f \<in> set files. clean_fragment (ie_lib env) cfg d (ie_roots env) f \<noteq> None
        \<or> (\<exists>r. final_outcome (ie_lib env) cfg d (ie_roots env) None f = Inl r) \<and> snd f \<notin> set (tracked_paths vfs))"

lemma in_step_untracked: "in_step lib cfg roots K snap (map_of (vfs_signatures vfs) p) p \<Longrightarrow> p \<notin> set (tracked_paths vfs) \<Longrightarrow> file_facts snap p = ([], [])"
  using map_of_eq_None_iff [of "vfs_signatures vfs" p] by (simp add: in_step_def tracked_paths_def)

lemma skipped_unmoved:
  assumes honest: "honest_stats env cfg d vfs files" and f: "f \<in> set files" "\<not> changed_on_disk d vfs (snd f)"
    and clean: "clean_fragment (ie_lib env) cfg d (ie_roots env) f = Some frag"
  shows "\<not> moved vfs frag"
proof -
  obtain md content where c: "read_guarded d (snd f) = Inr (md, content)" "ff_path frag = snd f"
    "ff_signature frag = compute_signature (sl_sha256 (ie_lib env)) md content"
    using clean_fragment_content [OF clean] by blast
  note rd = read_guarded_read [OF c(1)]
  have fast: "is_unchanged_fast (snd f) md vfs"
    using f honest clean rd unfolding changed_on_disk_def honest_stats_def by fastforce
  then obtain sig where "map_of (vfs_signatures vfs) (snd f) = Some sig" by (auto simp: is_unchanged_fast_def split: option.splits)
  moreover from this fast rd f(1) honest have "fs_hash sig = sl_sha256 (ie_lib env) content" unfolding honest_stats_def by blast
  ultimately show ?thesis by (simp add: moved_def c compute_signature_def)
qed

lemma reload_facts:
  fixes env :: "'g index_env"
  assumes sync: "synced env cfg K st" and cfg: "scan_config_of env d (sc_doc_template cfg) = cfg"
    and ext: "extractors_ok (ie_lib env) cfg" and inj: "inj_on (sl_sha256 (ie_lib env)) K"
    and reads: "\<forall>q c. dk_read d q = Some c \<longrightarrow> c \<in> K"
    and gone: "\<forall>p \<in> set deleted. dk_metadata d p = None \<and> p \<notin> set (map snd files)"
    and all_gone: "\<forall>p \<in> set (tracked_paths (ix_vfs st)). p \<in> set (map snd files) \<or> p \<in> set deleted"
    and files: "distinct (map snd files)" "\<forall>f \<in> set files. f = owned (ie_roots env) (snd f)"
    and honest: "honest_stats env cfg d (ix_vfs st) files" and settles: "settles env cfg d (ix_vfs st) files"
  shows "\<exists>st'. apply_incremental env d files deleted force st = Some st'
    \<and> (\<forall>p. file_facts (ms_snapshot (ix_server st')) p = (if p \<in> set (map snd files) then
          (case final_outcome (ie_lib env) cfg d (ie_roots env) None (owned (ie_roots env) p) of Inr frag \<Rightarrow> fragment_facts frag | Inl _ \<Rightarrow> ([], []))
        else ([], [])))"
proof -
  let ?lib = "ie_lib env" and ?roots = "ie_roots env" and ?snap = "ms_snapshot (ix_server st)"
  have g: "\<forall>p \<in> set deleted. dk_metadata d p = None" using gone by blast
  obtain candidates forced digests where cand: "incremental_candidates env d files deleted force st = (candidates, forced, digests)"
    by (metis surj_pair)
  have step: "in_step ?lib cfg ?roots K ?snap (map_of (vfs_signatures (ix_vfs st)) p) p" for p using sync by (simp add: synced_def)
  have "distinct (tracked_paths (ix_vfs st))" using sync by (simp add: synced_def)
  note cs = candidates_ok(3,4) [OF cand g files this]
  obtain st' where st': "apply_incremental env d files deleted force st = Some st'"
    "\<And>p. file_facts (ms_snapshot (ix_server st')) p =
         (if p \<in> set deleted then ([], [])
          else if p \<in> set (map snd candidates) then
            (case clean_fragment ?lib cfg d ?roots (owned ?roots p) of Some frag \<Rightarrow> fragment_facts frag | None \<Rightarrow> file_facts ?snap p)
          else file_facts ?snap p)"
    using incremental_step [OF sync cfg ext inj reads g files cand] by blast
  have inside: "file_facts (ms_snapshot (ix_server st')) p
      = (case final_outcome ?lib cfg d ?roots None (owned ?roots p) of Inr frag \<Rightarrow> fragment_facts frag | Inl _ \<Rightarrow> ([], []))"
    if p: "p \<in> set (map snd files)" for p
  proof -
    obtain f where f: "f \<in> set files" "snd f = p" using p by auto
    then have own: "f = owned ?roots p" using files(2) by metis
    have alive: "p \<notin> set deleted" using gone p by blast
    show ?thesis
    proof (cases "clean_fragment ?lib cfg d ?roots f")
      case (Some frag)
      have "file_facts ?snap p = fragment_facts frag" if "p \<notin> set (map snd candidates)"
      proof -
        have "f \<notin> set candidates" using that f(2) by (metis imageI list.set_map)
        then have "\<not> changed_on_disk d (ix_vfs st) (snd f)" using cs(1) f(1) by blast
        from unmoved_facts [OF step ext inj reads _ skipped_unmoved [OF honest f(1) this Some]] Some own show ?thesis by simp
      qed
      moreover have "final_outcome ?lib cfg d ?roots None f = Inr frag"
        using Some by (auto simp: clean_fragment_def split: sum.splits if_splits)
      ultimately show ?thesis using st'(2) [of p] alive Some own by simp
    next
      case None
      then obtain r where r: "final_outcome ?lib cfg d ?roots None f = Inl r" "p \<notin> set (tracked_paths (ix_vfs st))"
        using settles f unfolding settles_def by blast
      then show ?thesis using st'(2) [of p] alive None own in_step_untracked [OF step r(2)] by simp
    qed
  qed
  have outside: "file_facts (ms_snapshot (ix_server st')) p = ([], [])" if p: "p \<notin> set (map snd files)" for p
  proof (cases "p \<in> set deleted")
    case False
    then have t: "p \<notin> set (tracked_paths (ix_vfs st))" using all_gone p by blast
    then have "p \<notin> set (map snd candidates)" using cs(2) p by fastforce
    then show ?thesis using st'(2) [of p] False in_step_untracked [OF step t] by simp
  qed (simp add: st'(2))
  show ?thesis using st'(1) inside outside by (intro exI [of _ st']) simp
qed


lemma retain_signatures [simp]: "vfs_signatures (retain_rejected keep v) = vfs_signatures v" "tracked_paths (retain_rejected keep v) = tracked_paths v"
  by (simp_all add: retain_rejected_def tracked_paths_def)

lemma retain_rejection: "is_rejection_unchanged p md (retain_rejected keep v) \<Longrightarrow> is_rejection_unchanged p md v"
  using map_of_filter_key [of keep "vfs_rejected v" p] by (simp add: is_rejection_unchanged_def retain_rejected_def split: if_splits)

lemma honest_retain: "honest_stats env cfg d v files \<Longrightarrow> honest_stats env cfg d (retain_rejected keep v) files"
  unfolding honest_stats_def is_unchanged_fast_def retain_signatures using retain_rejection by blast



section \<open>Where a reload and a rebuild part\<close>

text \<open>
  A file that was indexed and is now refused - too large, binary, too deep or unreadable - keeps the facts of the content it had,
  under every reload, while a build from nothing has none: only files that changed or went are purged.
\<close>

lemma refused_file_keeps_facts:
  fixes env :: "'g index_env"
  assumes sync: "synced env cfg K st" and cfg: "scan_config_of env d (sc_doc_template cfg) = cfg"
    and template: "sc_doc_template cfg = doc_index_for (ie_aliases_of env) (ie_config env)"
    and ext: "extractors_ok (ie_lib env) cfg" and inj: "inj_on (sl_sha256 (ie_lib env)) K"
    and reads: "\<forall>q c. dk_read d q = Some c \<longrightarrow> c \<in> K"
    and files: "distinct (map snd files)" "\<forall>f \<in> set files. f = owned (ie_roots env) (snd f)"
    and p: "p \<in> set (map snd files)" "read_guarded d p = Inl r"
  shows "\<exists>st' snap. apply_incremental env d files [] force st = Some st' \<and> fst (build_snapshot_from_files env d files vfs None) = Some snap
    \<and> file_facts (ms_snapshot (ix_server st')) p = file_facts (ms_snapshot (ix_server st)) p \<and> file_facts snap p = ([], [])"
proof -
  have out: "final_outcome (ie_lib env) cfg d (ie_roots env) None (owned (ie_roots env) p) = Inl r"
    using p(2) by (simp add: final_outcome_def scan_outcome_content owned_def)
  obtain candidates forced digests where cand: "incremental_candidates env d files [] force st = (candidates, forced, digests)"
    by (metis surj_pair)
  have "clean_fragment (ie_lib env) cfg d (ie_roots env) (owned (ie_roots env) p) = None" by (simp add: clean_fragment_def out)
  then obtain st' where st': "apply_incremental env d files [] force st = Some st'"
    "file_facts (ms_snapshot (ix_server st')) p = file_facts (ms_snapshot (ix_server st)) p"
    using incremental_step [OF sync cfg ext inj reads _ files cand] by auto
  moreover obtain snap where "fst (build_snapshot_from_files env d files vfs None) = Some snap" "file_facts snap p = ([], [])"
    using build_facts [OF cfg [unfolded template] ext files, of vfs] p(1) out by auto
  ultimately show ?thesis by blast
qed

text \<open>
  A tracked file that the crawl no longer lists but that is still on disk - an ignore rule was added - counts as deleted for the
  set difference and as back on disk for the check that follows, so it is a candidate and never purged.
\<close>

lemma excluded_file_is_candidate:
  assumes "p \<in> set deleted" "dk_metadata d p = Some md" "most_specific_root p (ie_roots env) = Some (repo, root)"
    and "incremental_candidates env d files deleted force st = (candidates, forced, digests)"
  shows "p \<in> set (map snd candidates) \<and> p \<notin> set (filter (\<lambda>q. dk_metadata d q = None) deleted)"
proof -
  have "(repo, p) \<in> set (resurrected env d deleted)"
    using assms(1-3) by (force simp: resurrected_def set_map_filter)
  then have "(repo, p) \<in> set candidates" using assms(4) by (auto simp: incremental_candidates_def Let_def split: prod.splits)
  then show ?thesis using assms(2) by force
qed


section \<open>A workspace of one file\<close>

definition one_node :: "path \<Rightarrow> string \<Rightarrow> file_index" where
  "one_node p content = file_index_default\<lparr>fi_nodes := [demo_node\<lparr>n_file := p, n_name := content\<rparr>]\<rparr>"

definition srv :: path where
  "srv = [RootDir, Normal ''srv'']"

definition a_rs :: path where
  "a_rs = [RootDir, Normal ''srv'', Normal ''a.rs'']"

definition one_env :: "unit index_env" where
  "one_env =
     \<lparr>ie_lib = demo_lib\<lparr>sl_extract := (\<lambda>_ _ _ p content _. one_node p content)\<rparr>, ie_config = demo_config [], ie_roots = [srv], ie_crawl = demo_env False,
      ie_ignore = \<lparr>ig_is_file = (\<lambda>_. False), ig_is_dir = (\<lambda>_. False), ig_parses = (\<lambda>_. True), ig_build = (\<lambda>_ _. None),
        ig_matched = (\<lambda>_ _ _. False), ig_matched_or_parents = (\<lambda>_ _ _. False)\<rparr>,
      ie_aliases_of = (\<lambda>_. []), ie_compile = (\<lambda>ps. ps), ie_custom = (\<lambda>_ _ _ _. file_index_default), ie_extract_repr = (\<lambda>_. ''cfg''),
      ie_ts_aliases = (\<lambda>_ _ _. None), ie_imports = (\<lambda>_. None), ie_clean = (\<lambda>p. p), ie_is_dir = (\<lambda>_. False), ie_canonical = Some\<rparr>"

definition one_disk :: disk where
  "one_disk = \<lparr>dk_metadata = (\<lambda>p. if p = a_rs then Some \<lparr>md_modified = Some 7, md_len = 1\<rparr> else None),
     dk_read = (\<lambda>p. if p = a_rs then Some ''x'' else None)\<rparr>"

definition one_scan :: scan_config where
  "one_scan = scan_config_of one_env one_disk (doc_index_for (ie_aliases_of one_env) (ie_config one_env))"

definition one_start :: indexer_state where
  "one_start =
     \<lparr>ix_server = mesh_server_start \<lparr>sn_graph = empty_graph, sn_docs = doc_index_for (ie_aliases_of one_env) (ie_config one_env),
        sn_props = registry_new, sn_health = health_default, sn_roots = [srv]\<rparr>,
      ix_vfs = vfs_new, ix_alias_digests = [], ix_cache = None\<rparr>"

lemma one_template: "sc_doc_template one_scan = doc_index_for (ie_aliases_of one_env) (ie_config one_env)"
  by (simp add: one_scan_def scan_config_of_def Let_def)

lemma one_scan_again: "scan_config_of one_env one_disk (sc_doc_template one_scan) = one_scan"
  by (simp add: one_template) (simp add: one_scan_def)

lemma one_synced: "synced one_env one_scan {''x''} one_start"
proof -
  have "clone_settings (doc_index_for (ie_aliases_of one_env) (ie_config one_env)) = doc_index_for (ie_aliases_of one_env) (ie_config one_env)"
    by (simp add: clone_settings_def doc_index_for_def one_env_def demo_config_def doc_index_default_def doc_index_new_def)
  then show ?thesis
    by (simp add: synced_def one_start_def mesh_server_start_def mesh_inv_empty one_template vfs_new_def tracked_paths_def in_step_def fresh_facts)
qed

lemma one_code: "content_code (ie_lib one_env) one_scan alone p repo content = (if is_code_file p then one_node p content else file_index_default)"
  by (simp add: content_code_def one_scan_def scan_config_of_def compiled_patterns_def engine_toggles_def one_env_def demo_config_def
      contracts_default_def Let_def)

lemma one_extractors: "extractors_ok (ie_lib one_env) one_scan"
  by (simp add: extractors_ok_def one_code index_for_def fi_ok_def one_node_def file_index_default_def is_hub_def demo_node_def)

lemma one_read: "read_guarded one_disk a_rs = Inr (\<lparr>md_modified = Some 7, md_len = 1\<rparr>, ''x'')"
proof -
  have "longest_line ''x'' = 1" "max_nesting_depth ''x'' = 0" "\<not> is_contract_or_schema a_rs" "from_utf8 ''x'' = Some ''x''" by code_simp+
  then show ?thesis
    by (simp add: read_guarded_def guard_verdict_def one_disk_def within_size_budget_def size_budget_def check_path_def check_with_budget_def
        looks_binary_def BINARY_SNIFF_LEN_def MAX_FILE_SIZE_BYTES_def MAX_LINE_LEN_BYTES_def MAX_NESTING_DEPTH_def)
qed

lemma one_outcome:
  "\<exists>frag. final_outcome (ie_lib one_env) one_scan one_disk [srv] None (0, a_rs) = Inr frag
     \<and> clean_fragment (ie_lib one_env) one_scan one_disk [srv] (0, a_rs) = Some frag \<and> fragment_facts frag = (index_view (one_node a_rs ''x''), [])"
proof -
  have "is_code_file a_rs" "file_ext a_rs = ''rs''" by code_simp+
  then show ?thesis
    by (simp add: clean_fragment_def final_outcome_def scan_outcome_content one_read one_code fragment_facts_def docs_of_def)
      (simp add: one_node_def file_index_default_def)
qed

lemma one_roots: "ie_roots one_env = [srv]"
  by (simp add: one_env_def)

lemma one_owned: "owned [srv] a_rs = (0, a_rs)"
  by code_simp

lemma one_stats: "changed_on_disk one_disk vfs_new a_rs" "honest_stats one_env one_scan one_disk vfs_new [(0, a_rs)]"
  by (simp_all add: changed_on_disk_def honest_stats_def one_disk_def is_unchanged_fast_def is_rejection_unchanged_def vfs_new_def)

lemma one_candidates: "incremental_candidates one_env one_disk [(0, a_rs)] [] None one_start = ([(0, a_rs)], [], [])"
proof -
  have "\<not> is_alias_config a_rs" by code_simp
  then show ?thesis using one_stats(1)
    by (simp add: incremental_candidates_def resurrected_def alias_governed_scripts_def forced_files_def one_start_def Let_def map_filter_simps
        vfs_new_def tracked_paths_def)
qed

lemma one_crawl: "crawl_all 2 one_env = Some [(0, a_rs)]"
proof -
  have root: "crawl_root 2 one_env [] (0, srv) = Some [(0, a_rs)]" by code_simp
  have "ie_aliases_of one_env m = []" for m by (simp add: one_env_def)
  with root show ?thesis by (simp add: one_roots crawl_all_def repo_limit_def enumerate_Suc_eq)
qed



end
