(* ===== verification/Sfc.thy ===== *)
theory Sfc
  imports Utf8 Doc_Sections Ast_Guard
begin

text \<open>
  Single-file components, \<^verbatim>\<open>crates/mesh-parsers/src/languages/sfc.rs\<close>: the script blocks of a \<^verbatim>\<open>.vue\<close>, \<^verbatim>\<open>.svelte\<close> or \<^verbatim>\<open>.astro\<close>
  file, found in one pass over its markup, and the view in which everything else is blanked. Text is bytes in UTF-8.
\<close>

section \<open>Tags\<close>

definition is_sfc :: "path \<Rightarrow> bool" where
  "is_sfc p \<longleftrightarrow> extension p \<in> {Some ''vue'', Some ''svelte'', Some ''astro''}"

definition attribute_value :: "string \<Rightarrow> string" where
  "attribute_value v =
     (let v' = trim_start v in
      case v' of
        q # rest \<Rightarrow> if q = CHR 0x22 \<or> q = CHR 0x27 then hd (split q rest) else hd (split_pred (\<lambda>c. is_whitespace c \<or> c = CHR ''>'') v')
      | [] \<Rightarrow> [])"

function attribute :: "string \<Rightarrow> string \<Rightarrow> string option" where
  "attribute tag name =
     (case find_str name tag of
        None \<Rightarrow> None
      | Some i \<Rightarrow>
          let before_ok = (i = 0 \<or> \<not> (is_ascii_alphanumeric (tag ! (i - 1)) \<or> tag ! (i - 1) = CHR ''-''));
              rest = drop (i + length name) tag in
          case strip_prefix ''='' (trim_start rest) of
            Some v \<Rightarrow> if before_ok then Some (attribute_value v) else if name = [] then None else attribute rest name
          | None \<Rightarrow> if name = [] then None else attribute rest name)"
  by pat_completeness auto
termination
proof (relation "measure (length \<circ> fst)", goal_cases)
  case (2 tag name i)
  then show ?case by (cases tag) auto
next
  case (3 tag name i)
  then show ?case by (cases tag) auto
qed simp

declare attribute.simps [simp del]

fun tag_scan :: "char option \<Rightarrow> nat \<Rightarrow> string \<Rightarrow> nat option" where
  "tag_scan quote i [] = None"
| "tag_scan (Some q) i (c # cs) = tag_scan (if c = q then None else Some q) (Suc i) cs"
| "tag_scan None i (c # cs) =
     (if c = CHR 0x22 \<or> c = CHR 0x27 then tag_scan (Some c) (Suc i) cs
      else if c = CHR ''>'' then Some i
      else tag_scan None (Suc i) cs)"

definition tag_end :: "string \<Rightarrow> nat \<Rightarrow> nat option" where
  "tag_end content start = tag_scan None start (drop start content)"

definition SCRIPT_TYPES :: "string list" where
  "SCRIPT_TYPES = ['''', ''module'', ''text/javascript'', ''application/javascript'', ''text/typescript'', ''application/typescript'',
     ''ts'', ''tsx'', ''jsx'']"

definition lang_kind :: "string option \<Rightarrow> language_kind option" where
  "lang_kind l =
     (if l \<in> {None, Some ''js'', Some ''javascript'', Some ''jsx'', Some ''mjs''} then Some JavaScript
      else if l \<in> {Some ''ts'', Some ''typescript'', Some ''mts''} then Some TypeScript
      else if l = Some ''tsx'' then Some Tsx
      else None)"

definition script_kind :: "string \<Rightarrow> language_kind option" where
  "script_kind tag =
     (case map_option to_lowercase (attribute tag ''type'') of
        Some ty \<Rightarrow> if ty \<in> set SCRIPT_TYPES then lang_kind (map_option to_lowercase (attribute tag ''lang'')) else None
      | None \<Rightarrow> lang_kind (map_option to_lowercase (attribute tag ''lang'')))"

section \<open>The blocks\<close>

definition delimiter_after :: "string \<Rightarrow> string \<Rightarrow> bool" where
  "delimiter_after rest name = (case drop (length name) rest of [] \<Rightarrow> True | c # _ \<Rightarrow> is_whitespace c \<or> c = CHR ''>'' \<or> c = CHR ''/'')"

definition opens_tag :: "string \<Rightarrow> bool" where
  "opens_tag rest = (case tl rest of [] \<Rightarrow> False | c # _ \<Rightarrow> is_ascii_alphabetic c \<or> c = CHR ''/'')"

definition after_comment :: "string \<Rightarrow> nat \<Rightarrow> nat" where
  "after_comment lower at = (case find_str ''-->'' (drop (at + 4) lower) of Some i \<Rightarrow> at + 4 + i + 3 | None \<Rightarrow> length lower)"

definition after_style :: "string \<Rightarrow> nat \<Rightarrow> nat" where
  "after_style lower at = (case find_str ''</style'' (drop at lower) of Some i \<Rightarrow> at + i + 7 | None \<Rightarrow> length lower)"

type_synonym script_block = "nat \<times> nat \<times> language_kind"

text \<open>One \<^verbatim>\<open><\<close> at \<^term>\<open>at\<close>: the block it opens, and where the scan goes on, or None where it stops.\<close>

definition block_at :: "string \<Rightarrow> string \<Rightarrow> nat \<Rightarrow> script_block list \<times> nat option" where
  "block_at content lower at =
     (let rest = drop at lower in
      if starts_with rest ''<!--'' then ([], Some (after_comment lower at))
      else if starts_with rest ''<style'' \<and> delimiter_after rest ''<style'' then ([], Some (after_style lower at))
      else if starts_with rest ''<script'' \<and> delimiter_after rest ''<script'' then
        (case tag_end content (at + 7) of
           None \<Rightarrow> ([], None)
         | Some e \<Rightarrow>
             let tag = take (e - at) (drop at lower) in
             if ends_with (trim_end tag) ''/'' then ([], Some (e + 1))
             else case find_str ''</script'' (drop (e + 1) lower) of
               None \<Rightarrow> ([], None)
             | Some close \<Rightarrow>
                 let body_end = e + 1 + close in
                 (case script_kind tag of Some k \<Rightarrow> [(e + 1, body_end, k)] | None \<Rightarrow> [], Some (body_end + 8)))
      else if opens_tag rest then (case tag_end content (at + 1) of Some e \<Rightarrow> ([], Some (e + 1)) | None \<Rightarrow> ([], None))
      else ([], Some (at + 1)))"


lemma find_str_bound: "find_str p s = Some i \<Longrightarrow> i + length p \<le> length s"
  by (induction s arbitrary: i) (auto simp: starts_with_def split: if_splits dest: arg_cong [where f = length])

lemma tag_scan_bound: "tag_scan q i s = Some e \<Longrightarrow> i \<le> e \<and> e < i + length s"
  by (induction q i s rule: tag_scan.induct) (auto split: if_splits)

lemma tag_end_bound: "tag_end s i = Some e \<Longrightarrow> i \<le> e \<and> e < length s"
  using tag_scan_bound [of None i "drop i s" e] by (cases "i \<le> length s") (auto simp: tag_end_def)

lemma block_at_advances: "block_at content lower at = (bs, Some next) \<Longrightarrow> at < length lower \<Longrightarrow> at < next"
  by (auto simp: block_at_def after_comment_def after_style_def Let_def dest!: tag_end_bound split: if_splits option.splits)

function script_blocks_from :: "string \<Rightarrow> string \<Rightarrow> nat \<Rightarrow> script_block list" where
  "script_blocks_from content lower at =
     (if length lower < at then []
      else case find_str ''<'' (drop at lower) of
        None \<Rightarrow> []
      | Some offset \<Rightarrow>
          (case block_at content lower (at + offset) of
             (bs, None) \<Rightarrow> bs
           | (bs, Some next) \<Rightarrow> bs @ script_blocks_from content lower next))"
  by pat_completeness auto
termination
proof (relation "measure (\<lambda>(content, lower, at). Suc (length lower) - at)", goal_cases)
  case (2 content lower at offset bs nx n)
  then have "at + offset < length lower" using find_str_bound [of "''<''" "drop at lower" offset] by simp
  with 2 show ?case using block_at_advances [of content lower "at + offset" bs n] by auto
qed simp

declare script_blocks_from.simps [simp del]

definition script_blocks :: "string \<Rightarrow> nat \<Rightarrow> script_block list" where
  "script_blocks content at = script_blocks_from content (to_lowercase content) at"

section \<open>The frontmatter of an Astro component\<close>

function skip_lead :: "string \<Rightarrow> string" where
  "skip_lead s = (if starts_with s BOM then skip_lead (drop (length BOM) s) else case s of c # cs \<Rightarrow> if is_whitespace c then skip_lead cs else s | [] \<Rightarrow> [])"
  by pat_completeness auto
termination
  by (relation "measure length") (auto simp: BOM_def starts_with_def dest!: arg_cong [where f = length])

declare skip_lead.simps [simp del]

fun lines_inclusive :: "string \<Rightarrow> string list" where
  "lines_inclusive [] = []"
| "lines_inclusive (c # cs) =
     (if c = LF then [c] # lines_inclusive cs
      else case lines_inclusive cs of [] \<Rightarrow> [[c]] | l # ls \<Rightarrow> (c # l) # ls)"

fun frontmatter_end :: "nat \<Rightarrow> string list \<Rightarrow> nat option" where
  "frontmatter_end offset [] = None"
| "frontmatter_end offset (l # ls) = (if trim l = ''---'' then Some offset else frontmatter_end (offset + length l) ls)"

definition astro_frontmatter :: "string \<Rightarrow> (nat \<times> nat) option" where
  "astro_frontmatter content =
     (let lead = length content - length (skip_lead content);
          first_line_end = (case find_str [LF] (drop lead content) of Some i \<Rightarrow> lead + i | None \<Rightarrow> length content) in
      if trim (take (first_line_end - lead) (drop lead content)) \<noteq> ''---'' then None
      else let start = min (first_line_end + 1) (length content) in
        map_option (Pair start) (frontmatter_end start (lines_inclusive (drop start content))))"

section \<open>The view\<close>

record script_view_record =
  sv_script :: string
  sv_kind :: language_kind

definition component_ranges :: "path \<Rightarrow> string \<Rightarrow> script_block list" where
  "component_ranges p content =
     (case (if extension p = Some ''astro'' then astro_frontmatter content else None) of
        Some (s, e) \<Rightarrow> (s, e, TypeScript) # script_blocks content e
      | None \<Rightarrow> script_blocks content 0)"

definition component_kind :: "script_block list \<Rightarrow> language_kind" where
  "component_kind ranges =
     (if list_ex (\<lambda>(_, _, k). k = Tsx) ranges then Tsx
      else if list_ex (\<lambda>(_, _, k). k = TypeScript) ranges then TypeScript
      else JavaScript)"

definition blank_byte :: "char \<Rightarrow> char" where
  "blank_byte b = (if b \<noteq> LF \<and> b \<noteq> CHR 0x0D then CHR '' '' else b)"

definition blank_range :: "nat \<Rightarrow> nat \<Rightarrow> string \<Rightarrow> string" where
  "blank_range a b bytes = take a bytes @ map blank_byte (take (b - a) (drop a bytes)) @ drop (max a b) bytes"

fun blank_loop :: "script_block list \<Rightarrow> nat \<Rightarrow> string \<Rightarrow> string" where
  "blank_loop [] cursor bytes = blank_range cursor (length bytes) bytes"
| "blank_loop ((start, end', _) # ranges) cursor bytes = blank_loop ranges end' (blank_range cursor (max start cursor) bytes)"

definition script_view :: "path \<Rightarrow> string \<Rightarrow> script_view_record option" where
  "script_view p content =
     (if \<not> is_sfc p then None
      else let ranges = component_ranges p content in
        if ranges = [] then None
        else map_option (\<lambda>script. \<lparr>sv_script = script, sv_kind = component_kind ranges\<rparr>)
          (from_utf8 (blank_loop (sort_key fst ranges) 0 content)))"


section \<open>The view keeps every position\<close>

subsection \<open>Blocks in order, cut at characters\<close>

definition text_cut :: "string \<Rightarrow> nat \<Rightarrow> bool" where
  "text_cut content b \<longleftrightarrow> b \<le> length content \<and> from_utf8 (take b content) \<noteq> None"

fun blocks_from :: "nat \<Rightarrow> script_block list \<Rightarrow> bool" where
  "blocks_from a [] = True"
| "blocks_from a ((s, e, _) # bs) = (a \<le> s \<and> s \<le> e \<and> blocks_from e bs)"

definition blocks_ok :: "string \<Rightarrow> nat \<Rightarrow> script_block list \<Rightarrow> bool" where
  "blocks_ok content a bs \<longleftrightarrow> blocks_from a bs \<and> (\<forall>(s, e, k) \<in> set bs. text_cut content s \<and> text_cut content e)"

lemma blocks_ok_simps [simp]:
  "blocks_ok content a []"
  "blocks_ok content a ((s, e, k) # bs) \<longleftrightarrow> a \<le> s \<and> s \<le> e \<and> text_cut content s \<and> text_cut content e \<and> blocks_ok content e bs"
  by (auto simp: blocks_ok_def)

lemma blocks_ok_mono: "blocks_ok content b bs \<Longrightarrow> a \<le> b \<Longrightarrow> blocks_ok content a bs"
  by (cases bs) auto

lemma text_cut_at:
  assumes "from_utf8 content \<noteq> None" "i < length content" "is_ascii_byte (content ! i)"
  shows "text_cut content i" "text_cut content (Suc i)"
  using utf8_cut [OF assms] assms(2) by (simp_all add: text_cut_def)

lemma tag_scan_hit: "tag_scan q i s = Some e \<Longrightarrow> s ! (e - i) = CHR ''>''"
proof (induction q i s rule: tag_scan.induct)
  case (2 q i c cs)
  then show ?case using tag_scan_bound [of "if c = q then None else Some q" "Suc i" cs e] by (auto simp: nth_Cons' split: if_splits)
next
  case (3 i c cs)
  then show ?case
    using tag_scan_bound [of None "Suc i" cs e] tag_scan_bound [of "Some c" "Suc i" cs e] by (auto simp: nth_Cons' split: if_splits)
qed simp

lemma tag_end_hit: "tag_end s i = Some e \<Longrightarrow> s ! e = CHR ''>''"
  using tag_scan_hit [of None i "drop i s" e] tag_end_bound [of s i e] by (simp add: tag_end_def)

lemma lower_ascii: "is_ascii_byte (ascii_lower c) \<Longrightarrow> is_ascii_byte c"
  by (cases "is_ascii_upper c") (auto simp: ascii_lower_def is_ascii_upper_def less_eq_char_def)

lemma find_str_hit: "find_str p s = Some i \<Longrightarrow> take (length p) (drop i s) = p"
  by (induction s arbitrary: i) (auto simp: starts_with_def split: if_splits)

lemma find_str_byte: "find_str (c # p) s = Some i \<Longrightarrow> i < length s \<and> s ! i = c"
  using find_str_bound [of "c # p" s i] arg_cong [OF find_str_hit [of "c # p" s i], of hd] by (auto simp: hd_drop_conv_nth)

lemma block_at_ok:
  assumes utf8: "from_utf8 content \<noteq> None" and at: "at < length content" and b: "block_at content (to_lowercase content) at = (bs, next)"
  shows "blocks_ok content at bs \<and> (\<forall>n. next = Some n \<longrightarrow> (\<forall>(s, e, k) \<in> set bs. e \<le> n))"
proof (cases "bs = []")
  case False
  let ?lower = "to_lowercase content"
  obtain e close k where e: "tag_end content (at + 7) = Some e" and close: "find_str ''</script'' (drop (e + 1) ?lower) = Some close"
    and bs: "bs = [(e + 1, e + 1 + close, k)]" "next = Some (e + 1 + close + 8)"
    using b False by (auto simp: block_at_def Let_def split: if_splits option.splits)
  have gt: "e < length content" "content ! e = CHR ''>''" "at < e" using tag_end_bound [OF e] tag_end_hit [OF e] by auto
  have lt: "e + 1 + close < length content" "?lower ! (e + 1 + close) = CHR ''<''"
    using find_str_byte [OF close] by (auto simp: to_lowercase_def)
  then have "is_ascii_byte (content ! (e + 1 + close))" using lower_ascii [of "content ! (e + 1 + close)"] by (simp add: to_lowercase_def)
  then show ?thesis
    using text_cut_at(2) [OF utf8 gt(1)] text_cut_at(1) [OF utf8 lt(1)] gt bs by simp
qed simp

lemma blocks_ok_append:
  "blocks_ok content a xs \<Longrightarrow> (\<forall>(s, e, k) \<in> set xs. e \<le> b) \<Longrightarrow> a \<le> b \<Longrightarrow> blocks_ok content b ys \<Longrightarrow> blocks_ok content a (xs @ ys)"
  by (induction xs arbitrary: a) (auto intro: blocks_ok_mono)

lemma script_blocks_from_ok:
  "from_utf8 content \<noteq> None \<Longrightarrow> lower = to_lowercase content \<Longrightarrow> blocks_ok content at (script_blocks_from content lower at)"
proof (induction content lower at rule: script_blocks_from.induct)
  case (1 content lower at)
  show ?case
  proof (cases "length lower < at \<or> find_str ''<'' (drop at lower) = None")
    case True
    then show ?thesis by (subst script_blocks_from.simps) auto
  next
    case False
    then obtain i where i: "\<not> length lower < at" "find_str ''<'' (drop at lower) = Some i" by auto
    then have len: "at + i < length lower" using find_str_bound [of "''<''" "drop at lower" i] by simp
    obtain bs n where b: "block_at content lower (at + i) = (bs, n)" by force
    have ok: "blocks_ok content (at + i) bs" "\<And>k. n = Some k \<Longrightarrow> \<forall>(s, e, l) \<in> set bs. e \<le> k"
      using block_at_ok [OF 1(2) _ b [unfolded 1(3)]] len 1(3) by (simp_all add: to_lowercase_def)
    show ?thesis
    proof (cases n)
      case None
      then show ?thesis using i b blocks_ok_mono [OF ok(1)] by (subst script_blocks_from.simps) simp
    next
      case (Some k)
      have "at + i < k" using block_at_advances [of content lower "at + i" bs k] b Some len by simp
      moreover have "blocks_ok content k (script_blocks_from content lower k)" using 1(1) [OF i b [symmetric] Some 1(2,3)] .
      ultimately have "blocks_ok content (at + i) (bs @ script_blocks_from content lower k)"
        using blocks_ok_append [OF ok(1) ok(2) [OF Some]] by simp
      then show ?thesis using i b Some blocks_ok_mono by (subst script_blocks_from.simps) fastforce
    qed
  qed
qed

lemma script_blocks_ok: "from_utf8 content \<noteq> None \<Longrightarrow> blocks_ok content at (script_blocks content at)"
  by (simp add: script_blocks_def script_blocks_from_ok)

subsection \<open>The frontmatter\<close>

lemma frontmatter_end_split:
  "frontmatter_end offset ls = Some e \<Longrightarrow> \<exists>pre l post. ls = pre @ l # post \<and> e = offset + length (concat pre)"
proof (induction offset ls rule: frontmatter_end.induct)
  case (2 offset l ls)
  show ?case
  proof (cases "trim l = ''---''")
    case True
    then show ?thesis using 2(2) by (intro exI [of _ "[]"] exI [of _ l] exI [of _ ls]) simp
  next
    case False
    then obtain pre k post where "ls = pre @ k # post" "e = offset + length l + length (concat pre)" using 2 by auto
    then show ?thesis by (intro exI [of _ "l # pre"] exI [of _ k] exI [of _ post]) simp
  qed
qed simp

lemma lines_inclusive_lines:
  "concat (lines_inclusive s) = s \<and> (\<forall>pre l post. lines_inclusive s = pre @ l # post \<longrightarrow> pre \<noteq> [] \<longrightarrow> concat pre \<noteq> [] \<and> last (concat pre) = LF)
   \<and> [] \<notin> set (lines_inclusive s)"
proof (induction s)
  case (Cons c cs)
  show ?case
  proof (cases "c = LF")
    case True
    have "last (concat pre) = LF \<and> concat pre \<noteq> []" if e: "[c] # lines_inclusive cs = pre @ l # post" "pre \<noteq> []" for pre l post
    proof -
      obtain pre' where pre: "pre = [c] # pre'" "lines_inclusive cs = pre' @ l # post" using e by (cases pre) auto
      then show ?thesis using Cons True by (cases "pre' = []") auto
    qed
    then show ?thesis using Cons True by auto
  next
    case False
    show ?thesis
    proof (cases "lines_inclusive cs")
      case Nil
      then show ?thesis using Cons False by (auto simp: append_eq_Cons_conv Cons_eq_append_conv)
    next
      case (Cons k ks)
      have "last (concat pre) = LF \<and> concat pre \<noteq> []" if e: "(c # k) # ks = pre @ l # post" "pre \<noteq> []" for pre l post
      proof -
        obtain pre' where pre: "pre = (c # k) # pre'" "ks = pre' @ l # post" using e by (cases pre) auto
        then have "lines_inclusive cs = (k # pre') @ l # post" using Cons by simp
        then have "last (concat (k # pre')) = LF \<and> concat (k # pre') \<noteq> []" using Cons.IH by blast
        then show ?thesis using pre by auto
      qed
      then show ?thesis using Cons.IH Cons False by auto
    qed
  qed
qed simp

lemma astro_frontmatter_ok:
  assumes utf8: "from_utf8 content \<noteq> None" and fm: "astro_frontmatter content = Some (s, e)"
  shows "s \<le> e \<and> text_cut content s \<and> text_cut content e"
proof -
  let ?lead = "length content - length (skip_lead content)"
  let ?eol = "case find_str [LF] (drop ?lead content) of Some i \<Rightarrow> ?lead + i | None \<Rightarrow> length content"
  have s: "s = min (?eol + 1) (length content)" and e: "frontmatter_end s (lines_inclusive (drop s content)) = Some e"
    using fm by (auto simp: astro_frontmatter_def Let_def split: if_splits)
  have all: "text_cut content (length content)" using utf8 by (simp add: text_cut_def)
  have cut: "text_cut content s"
  proof (cases "find_str [LF] (drop ?lead content)")
    case (Some i)
    then have "?lead + i < length content" "content ! (?lead + i) = LF"
      using find_str_byte [OF Some] by auto
    then show ?thesis using text_cut_at(2) [OF utf8] Some s by (simp add: min_def)
  qed (use all s in simp)
  then have le: "s \<le> length content" by (simp add: text_cut_def)
  obtain pre l post where split: "lines_inclusive (drop s content) = pre @ l # post" "e = s + length (concat pre)"
    using frontmatter_end_split [OF e] by blast
  note ln = lines_inclusive_lines [of "drop s content"]
  have "concat pre @ l @ concat post = drop s content" using ln split(1) by simp
  then have whole: "content = take s content @ concat pre @ l @ concat post" by (metis append_take_drop_id)
  have "text_cut content e"
  proof (cases "pre = []")
    case False
    then have lf: "concat pre \<noteq> []" "last (concat pre) = LF" using ln split(1) by auto
    then have pos: "0 < length (concat pre)" unfolding length_greater_0_conv by blast
    moreover have "s + length (concat pre) \<le> length content" using arg_cong [OF whole, of length] le by (simp del: length_concat)
    ultimately have "e = Suc (e - 1)" "e - 1 < length content" using split(2) by linarith+
    moreover have "content ! (e - 1) = LF"
    proof -
      have "(take s content @ concat pre @ l @ concat post) ! (s + (length (concat pre) - 1)) = concat pre ! (length (concat pre) - 1)"
        using pos le nth_append_length_plus [of "take s content" "concat pre @ l @ concat post" "length (concat pre) - 1"]
          nth_append_left [of "length (concat pre) - 1" "concat pre" "l @ concat post"] by (simp del: length_concat length_greater_0_conv)
      moreover have "e - 1 = s + (length (concat pre) - 1)" using pos split(2) by linarith
      ultimately have "(take s content @ concat pre @ l @ concat post) ! (e - 1) = last (concat pre)"
        using last_conv_nth [OF lf(1)] by simp
      then show ?thesis using whole lf(2) by simp
    qed
    ultimately show ?thesis using text_cut_at(2) [OF utf8, of "e - 1"] by simp
  qed (use cut split in simp)
  then show ?thesis using cut split(2) by simp
qed

lemma component_ranges_ok:
  assumes "from_utf8 content \<noteq> None"
  shows "blocks_ok content 0 (component_ranges p content)"
proof (cases "if extension p = Some ''astro'' then astro_frontmatter content else None")
  case None
  then show ?thesis using script_blocks_ok [OF assms] by (simp add: component_ranges_def)
next
  case (Some r)
  then obtain s e where "r = (s, e)" "astro_frontmatter content = Some (s, e)" by (cases r) (auto split: if_splits)
  then show ?thesis using Some astro_frontmatter_ok [OF assms] script_blocks_ok [OF assms] by (simp add: component_ranges_def)
qed


subsection \<open>Blanking\<close>

lemma blank_range_nth:
  assumes "i < length bytes"
  shows "blank_range a b bytes ! i = (if a \<le> i \<and> i < b then blank_byte (bytes ! i) else bytes ! i)" "length (blank_range a b bytes) = length bytes"
  using assms by (auto simp: blank_range_def nth_append min_def max_def)

text \<open>What the loop leaves: the bytes inside a block as they are, the others blanked.\<close>

definition in_blocks :: "script_block list \<Rightarrow> nat \<Rightarrow> bool" where
  "in_blocks bs i \<longleftrightarrow> list_ex (\<lambda>(s, e, _). s \<le> i \<and> i < e) bs"

lemma blocks_from_outside: "blocks_from a bs \<Longrightarrow> i < a \<Longrightarrow> \<not> in_blocks bs i"
  by (induction a bs rule: blocks_from.induct) (force simp: in_blocks_def)+

lemma blank_loop_nth:
  "blocks_from cursor bs \<Longrightarrow> length (blank_loop bs cursor bytes) = length bytes
   \<and> (i < length bytes \<longrightarrow> blank_loop bs cursor bytes ! i = (if i < cursor \<or> in_blocks bs i then bytes ! i else blank_byte (bytes ! i)))"
proof (induction bs cursor bytes rule: blank_loop.induct)
  case (1 cursor bytes)
  then show ?case using blank_range_nth [of _ bytes cursor "length bytes"]
    by (cases "bytes = []") (auto simp: in_blocks_def blank_range_def)
next
  case (2 s e k bs cursor bytes)
  let ?b = "blank_range cursor (max s cursor) bytes"
  have len: "length ?b = length bytes" using blank_range_nth(2) [of _ bytes] by (cases "bytes = []") (auto simp: blank_range_def)
  have later: "\<not> in_blocks bs i" if "i < e"
    using 2(2) that blocks_from_outside by auto
  have "length (blank_loop bs e ?b) = length bytes"
    "i < length bytes \<longrightarrow> blank_loop bs e ?b ! i = (if i < e \<or> in_blocks bs i then ?b ! i else blank_byte (?b ! i))" using 2 len by auto
  then show ?case using 2(2) later blank_range_nth(1) [of i bytes cursor "max s cursor"] by (auto simp: in_blocks_def max_def)
qed

lemma blank_ascii: "is_ascii_byte (blank_byte b)"
  by (auto simp: blank_byte_def)

lemma blanks_ascii: "list_all is_ascii_byte (map blank_byte bs)"
  by (simp add: list_all_iff blank_ascii)

lemma text_between: "text_cut content a \<Longrightarrow> text_cut content b \<Longrightarrow> a \<le> b \<Longrightarrow> from_utf8 (take (b - a) (drop a content)) \<noteq> None"
  using utf8_prefix [of "take a content" "take (b - a) (drop a content)"] take_add [of a "b - a" content] by (simp add: text_cut_def)

lemma blank_loop_utf8:
  "blocks_ok content cursor bs \<Longrightarrow> length bytes = length content \<Longrightarrow> drop cursor bytes = drop cursor content
   \<Longrightarrow> cursor \<le> length content \<Longrightarrow> from_utf8 (take cursor bytes) \<noteq> None \<Longrightarrow> from_utf8 (blank_loop bs cursor bytes) \<noteq> None"
proof (induction bs cursor bytes rule: blank_loop.induct)
  case (1 cursor bytes)
  have "from_utf8 (map blank_byte (drop cursor bytes) @ []) \<noteq> None" unfolding utf8_ascii [OF blanks_ascii] by simp
  then show ?case using 1 utf8_prefix [of "take cursor bytes"] by (simp add: blank_range_def)
next
  case (2 s e k bs cursor bytes)
  let ?blanks = "map blank_byte (take (s - cursor) (drop cursor bytes))"
  have o: "cursor \<le> s" "s \<le> e" "e \<le> length content" "text_cut content s" "text_cut content e" "blocks_ok content e bs"
    using 2(2) by (auto simp: text_cut_def)
  have same: "drop s bytes = drop s content" using 2(4) o(1) by (metis drop_drop le_add_diff_inverse2)
  have b: "blank_range cursor (max s cursor) bytes = take cursor bytes @ ?blanks @ drop s content"
    using o(1) same by (simp add: blank_range_def max_def)
  have len: "length (take cursor bytes @ ?blanks) = s" using 2(3) o by simp
  have "take e (xs @ drop s content) = xs @ take (e - s) (drop s content) \<and> drop e (xs @ drop s content) = drop e content
      \<and> length (xs @ drop s content) = length content" if "length xs = s" for xs
    using that o by simp
  from this [OF len, unfolded append_assoc] have "take e (take cursor bytes @ ?blanks @ drop s content) = take cursor bytes @ ?blanks @ take (e - s) (drop s content)"
    "drop e (take cursor bytes @ ?blanks @ drop s content) = drop e content" "length (take cursor bytes @ ?blanks @ drop s content) = length content"
    by blast+
  moreover have "from_utf8 (take cursor bytes @ ?blanks @ take (e - s) (drop s content)) \<noteq> None"
    unfolding utf8_prefix [OF 2(6)] utf8_ascii [OF blanks_ascii] by (rule text_between [OF o(4,5,2)])
  ultimately have "from_utf8 (blank_loop bs e (take cursor bytes @ ?blanks @ drop s content)) \<noteq> None"
    using 2(1) [OF o(6), unfolded b] o(3) by (simp only: simp_thms)
  then show ?case unfolding blank_loop.simps b .
qed

text \<open>
  C22: the script of a single-file component keeps every position of the file. For a component with a script block, the view
  exists (blanking never breaks a character), is as long as the file, has the bytes of each block where the file has them, and elsewhere
  only blanks and the line ends of the file - so every line and column a parser reports on it is one of the file. The blocks lie in
  order and do not overlap.
\<close>

theorem script_view_keeps_positions:
  assumes "from_utf8 content \<noteq> None" "is_sfc p" "component_ranges p content \<noteq> []"
  shows "\<exists>v. script_view p content = Some v \<and> length (sv_script v) = length content \<and> blocks_from 0 (component_ranges p content)
    \<and> (\<forall>i < length content. sv_script v ! i = (if in_blocks (component_ranges p content) i then content ! i else blank_byte (content ! i)))"
proof -
  let ?bs = "component_ranges p content"
  have ok: "blocks_ok content 0 ?bs" by (rule component_ranges_ok [OF assms(1)])
  then have ord: "blocks_from 0 ?bs" by (simp add: blocks_ok_def)
  have "blocks_from a bs \<Longrightarrow> sorted (map fst bs) \<and> (\<forall>b \<in> set bs. a \<le> fst b)" for a bs
    by (induction a bs rule: blocks_from.induct) auto
  then have "sort_key fst ?bs = ?bs" using ord by (metis sort_key_id_if_sorted)
  moreover have "from_utf8 (blank_loop ?bs 0 content) \<noteq> None" using blank_loop_utf8 [OF ok] by simp
  ultimately have "script_view p content = Some \<lparr>sv_script = blank_loop ?bs 0 content, sv_kind = component_kind ?bs\<rparr>"
    using assms by (auto simp: script_view_def from_utf8_def Let_def split: if_splits)
  then show ?thesis using blank_loop_nth [OF ord] ord by auto
qed

text \<open>A component with a template that quotes a script tag, and one script block.\<close>

definition demo_component :: string where
  "demo_component = ''<p t='<script>'>'' @ [LF] @ ''<script lang=ts>let a</script>''"

theorem script_view_keeps_positions_witness:
  "script_view [Normal ''a.vue''] demo_component
     = Some \<lparr>sv_script = replicate 16 (CHR '' '') @ [LF] @ replicate 16 (CHR '' '') @ ''let a'' @ replicate 9 (CHR '' ''), sv_kind = TypeScript\<rparr>
   \<and> (\<exists>v. script_view [Normal ''a.vue''] demo_component = Some v \<and> length (sv_script v) = length demo_component)"
proof -
  have "script_view [Normal ''a.vue''] demo_component
     = Some \<lparr>sv_script = replicate 16 (CHR '' '') @ [LF] @ replicate 16 (CHR '' '') @ ''let a'' @ replicate 9 (CHR '' ''), sv_kind = TypeScript\<rparr>"
    by code_simp
  moreover have "from_utf8 demo_component \<noteq> None" "is_sfc [Normal ''a.vue'']" "component_ranges [Normal ''a.vue''] demo_component \<noteq> []" by code_simp+
  ultimately show ?thesis using script_view_keeps_positions [of demo_component "[Normal ''a.vue'']"] by blast
qed

end
