(* ===== verification/File_Routes.thy ===== *)
theory File_Routes
  imports Utf8 Decapitation
begin

text \<open>
  Routes a file declares by where it lies: \<^verbatim>\<open>crates/mesh-parsers/src/languages/js_frameworks/file_routes.rs\<close>, with the gate
  before it in \<^verbatim>\<open>js_frameworks/mod.rs\<close>. Next.js, Remix and React Router, SvelteKit, Nuxt and Astro; syntax trees are those of
  \<^verbatim>\<open>Decapitation\<close>, the modules a file refers to are a predicate.
\<close>

section \<open>Text of nodes and paths\<close>

record route_fact =
  rf_method :: string
  rf_route :: string

definition route_label :: "route_fact \<Rightarrow> string" where
  "route_label r = rf_method r @ '' '' @ rf_route r"

definition node_text :: "string \<Rightarrow> ts_node \<Rightarrow> string option" where
  "node_text source n = from_utf8 (byte_range (nd_start n) (nd_end n) source)"

definition node_lines :: "ts_node \<Rightarrow> nat \<times> nat" where
  "node_lines n = (fst (nd_start_pos n) + 1, fst (nd_end_pos n) + 1)"

definition unquote :: "string \<Rightarrow> ts_node \<Rightarrow> string option" where
  "unquote source n =
     (if nd_kind n \<noteq> ''string'' then None
      else Option.bind (node_text source n) (\<lambda>t.
        let between = (\<lambda>q. Option.bind (strip_prefix [q] t) (strip_suffix [q])) in
        Option.bind (case between CHR 0x27 of Some inner \<Rightarrow> Some inner | None \<Rightarrow> between CHR 0x22)
          (\<lambda>inner. if CHR 0x5C \<in> set inner then None else Some inner)))"

definition call_arguments :: "ts_node \<Rightarrow> ts_node list" where
  "call_arguments call =
     (case child_by_field_name call ''arguments'' of Some a \<Rightarrow> filter (\<lambda>n. nd_kind n \<noteq> ''comment'') (named_children a) | None \<Rightarrow> [])"

lemma starts_with_length: "starts_with s p \<Longrightarrow> length p \<le> length s"
  by (metis length_take min.cobounded1 starts_with_def)

function trim_start_str :: "string \<Rightarrow> string \<Rightarrow> string" where
  "trim_start_str pre s = (if pre \<noteq> [] \<and> starts_with s pre then trim_start_str pre (drop (length pre) s) else s)"
  by pat_completeness auto
termination
  by (relation "measure (\<lambda>(pre, s). length s)") (auto intro!: diff_less simp: starts_with_def)

declare trim_start_str.simps [simp del]

definition join_route :: "string \<Rightarrow> string \<Rightarrow> string" where
  "join_route prefix0 path0 =
     (let pre = rev (dropWhile (\<lambda>c. c = CHR ''/'') (rev prefix0));
          p = dropWhile (\<lambda>c. c = CHR ''/'') path0;
          joined = (if pre = [] then if p = [] then [] else if starts_with p ''*'' then p else ''/'' @ p
                    else if p = [] then pre else pre @ ''/'' @ p);
          rooted = (if starts_with joined ''/'' \<or> starts_with joined ''*'' then joined else ''/'' @ joined) in
      if length rooted > 1 then rev (dropWhile (\<lambda>c. c = CHR ''/'') (rev rooted)) else rooted)"

section \<open>Routes from locations\<close>

definition HTTP_VERBS :: "string list" where
  "HTTP_VERBS = [''GET'', ''POST'', ''PUT'', ''PATCH'', ''DELETE'', ''HEAD'', ''OPTIONS'']"

definition path_may_route :: "path \<Rightarrow> bool" where
  "path_may_route p \<longleftrightarrow>
     (case file_name p of Some f \<Rightarrow> starts_with f ''+'' | None \<Rightarrow> False)
     \<or> list_ex (\<lambda>c. component_str c \<in> {''app'', ''pages'', ''routes'', ''api''}) p"

fun normal_name :: "component \<Rightarrow> string option" where
  "normal_name (Normal s) = Some s"
| "normal_name _ = None"

definition path_names :: "path \<Rightarrow> string list" where
  "path_names p = List.map_filter normal_name p"

definition split_ext :: "string \<Rightarrow> string \<times> string" where
  "split_ext f = (case rsplit_once CHR ''.'' f of Some r \<Rightarrow> r | None \<Rightarrow> (f, []))"

definition is_script_ext :: "string \<Rightarrow> bool" where
  "is_script_ext ext \<longleftrightarrow> ext \<in> {''ts'', ''tsx'', ''js'', ''jsx'', ''mjs'', ''cjs'', ''mts'', ''cts''}"

definition dynamic_segment :: "string \<Rightarrow> string option" where
  "dynamic_segment seg =
     (if starts_with seg ''('' \<and> ends_with seg '')'' \<or> starts_with seg ''@'' then None
      else case Option.bind (strip_prefix ''[['' seg) (strip_suffix '']]'') of
        Some inner \<Rightarrow>
          let name = hd (split CHR ''='' (trim_start_str ''...'' inner)) in
          Some (if starts_with inner ''...'' then ''*'' @ name @ ''?'' else '':'' @ name @ ''?'')
      | None \<Rightarrow>
          (case Option.bind (strip_prefix ''['' seg) (strip_suffix '']'') of
             Some inner \<Rightarrow>
               let name = hd (split CHR ''='' inner) in
               Some (case strip_prefix ''...'' name of Some rest \<Rightarrow> ''*'' @ rest | None \<Rightarrow> '':'' @ name)
           | None \<Rightarrow> Some seg))"

text \<open>The markers of intercepting routes: what is left of the segment, and of the route so far.\<close>

function pop_marks :: "string \<Rightarrow> string list \<Rightarrow> string \<times> string list" where
  "pop_marks seg segs =
     (case strip_prefix ''(..)'' seg of Some rest \<Rightarrow> pop_marks rest (butlast segs) | None \<Rightarrow> (seg, segs))"
  by pat_completeness auto
termination
  by (relation "measure (\<lambda>(seg, segs). length seg)") (auto simp: strip_prefix_def dest!: starts_with_length split: if_splits)

declare pop_marks.simps [simp del]

definition intercepted :: "string \<Rightarrow> string list \<Rightarrow> string \<times> string list" where
  "intercepted raw segs =
     (case strip_prefix ''(...)'' raw of
        Some rest \<Rightarrow> (rest, [])
      | None \<Rightarrow>
          if starts_with raw ''(..)'' then pop_marks raw segs
          else case strip_prefix ''(.)'' raw of Some rest \<Rightarrow> (rest, segs) | None \<Rightarrow> (raw, segs))"

definition push_route_seg :: "string \<Rightarrow> string list \<Rightarrow> string list" where
  "push_route_seg raw segs =
     (let (seg, segs') = intercepted raw segs in
      case dynamic_segment seg of Some s \<Rightarrow> if s = [] then segs' else segs' @ [s] | None \<Rightarrow> segs')"

definition route_segs :: "string list \<Rightarrow> string option \<Rightarrow> string list" where
  "route_segs dirs last_name = fold push_route_seg (dirs @ (case last_name of Some l \<Rightarrow> [l] | None \<Rightarrow> [])) []"

definition location_route :: "string list \<Rightarrow> string option \<Rightarrow> string" where
  "location_route dirs last_name = (let segs = route_segs dirs last_name in if segs = [] then ''/'' else ''/'' @ join_with ''/'' segs)"

definition remix_part :: "string \<Rightarrow> string" where
  "remix_part part =
     (if part = [] \<or> part = ''_index'' \<or> part = ''index'' \<or> starts_with part ''_'' then []
      else ''/'' @
        (if part = ''$'' then ''*''
         else case strip_prefix ''$'' part of
           Some name \<Rightarrow> '':'' @ name
         | None \<Rightarrow>
             (case Option.bind (strip_prefix ''('' part) (strip_suffix '')'') of
                Some inner \<Rightarrow> (case strip_prefix ''$'' inner of Some name \<Rightarrow> '':'' @ name @ ''?'' | None \<Rightarrow> inner @ ''?'')
              | None \<Rightarrow> part)))"

definition remix_route :: "string \<Rightarrow> string" where
  "remix_route stem =
     (let escaped = replace_str ''[.]'' [CHR 0x01] stem;
          out = concat (map (\<lambda>p. remix_part (replace_chars {CHR 0x01} CHR ''.'' (rev (dropWhile (\<lambda>c. c = CHR ''_'') (rev p))))) (split CHR ''.'' escaped)) in
      if out = [] then ''/'' else out)"

text \<open>The directories below the first of a pair of names, or below the first of one name.\<close>

fun after_pair :: "string \<Rightarrow> string \<Rightarrow> string list \<Rightarrow> string list option" where
  "after_pair parent marker (a # b # dirs) = (if a = parent \<and> b = marker then Some dirs else after_pair parent marker (b # dirs))"
| "after_pair parent marker _ = None"

fun after_marker :: "string \<Rightarrow> string list \<Rightarrow> string list option" where
  "after_marker marker [] = None"
| "after_marker marker (d # dirs) = (if d = marker then Some dirs else after_marker marker dirs)"

definition sfc_route :: "path \<Rightarrow> route_fact option" where
  "sfc_route p =
     (case rev (path_names p) of
        [] \<Rightarrow> None
      | f # rdirs \<Rightarrow>
          let dirs = rev rdirs; (stem, ext) = split_ext f in
          map_option (\<lambda>r. \<lparr>rf_method = ''PAGE'', rf_route = r\<rparr>)
            (if ext = ''svelte'' \<and> (stem = ''+page'' \<or> starts_with stem ''+page@'')
             then map_option (\<lambda>rest. location_route rest None) (after_pair ''src'' ''routes'' dirs)
             else if ext = ''astro'' \<and> \<not> starts_with stem ''_''
             then Option.bind (after_pair ''src'' ''pages'' dirs) (\<lambda>rest.
               if list_ex (\<lambda>d. starts_with d ''_'') rest then None
               else Some (location_route rest (if stem \<noteq> ''index'' then Some stem else None)))
             else None))"

section \<open>Routes from exports\<close>

type_synonym exports = "(string, nat \<times> nat) hmap"

definition nitro_handlers :: "string list" where
  "nitro_handlers = [''defineEventHandler'', ''eventHandler'', ''defineNuxtRouteHandler'', ''defineCachedEventHandler'',
     ''defineWebSocketHandler'', ''defineLazyEventHandler'', ''cachedEventHandler'']"

definition has_handler :: "exports \<Rightarrow> bool" where
  "has_handler exports =
     list_ex (\<lambda>h. list_ex (\<lambda>callee. callee = h \<or> ends_with callee (''.'' @ h)) (List.map_filter (strip_prefix ''default@'') (map fst exports)))
       nitro_handlers"

definition nitro_name :: "string \<Rightarrow> string \<times> string" where
  "nitro_name stem =
     (case rsplit_once CHR ''.'' stem of
        Some (n, m) \<Rightarrow> if list_ex (eq_ignore_ascii_case m) HTTP_VERBS then (n, map ascii_upper m) else (stem, ''ALL'')
      | None \<Rightarrow> (stem, ''ALL''))"

definition nitro_route :: "string list \<Rightarrow> string list \<Rightarrow> string \<Rightarrow> exports \<Rightarrow> (route_fact \<times> nat \<times> nat) list option" where
  "nitro_route prefix_dirs rest stem exports =
     Option.bind (map_of exports ''default'') (\<lambda>lines.
       if \<not> has_handler exports then None
       else let (name, m) = nitro_name stem in
         Some [(\<lparr>rf_method = m, rf_route = location_route (prefix_dirs @ rest) (if name \<noteq> ''index'' then Some name else None)\<rparr>, lines)])"

definition verb_exports :: "exports \<Rightarrow> (string \<times> nat \<times> nat) list" where
  "verb_exports exports = List.map_filter (\<lambda>v. map_option (Pair v) (map_of exports v)) HTTP_VERBS"

definition verb_facts :: "exports \<Rightarrow> string \<Rightarrow> (route_fact \<times> nat \<times> nat) list" where
  "verb_facts exports route = map (\<lambda>(v, l). (\<lparr>rf_method = v, rf_route = route\<rparr>, l)) (verb_exports exports)"

definition page_fact :: "exports \<Rightarrow> string \<Rightarrow> string \<Rightarrow> route_fact \<times> nat \<times> nat" where
  "page_fact exports m route = (\<lparr>rf_method = m, rf_route = route\<rparr>, case map_of exports ''default'' of Some l \<Rightarrow> l | None \<Rightarrow> (1, 1))"

definition svelte_routes :: "string list \<Rightarrow> string \<Rightarrow> exports \<Rightarrow> (route_fact \<times> nat \<times> nat) list option" where
  "svelte_routes dirs stem exports =
     (if starts_with stem ''+'' then
        map_option (\<lambda>rest.
          let route = location_route rest None in
          if stem = ''+server'' then verb_facts exports route
          else if stem = ''+page'' \<or> stem = ''+page.server''
          then (case map_of exports ''actions'' of Some l \<Rightarrow> [(\<lparr>rf_method = ''POST'', rf_route = route\<rparr>, l)] | None \<Rightarrow> [])
          else []) (after_pair ''src'' ''routes'' dirs)
      else None)"

definition next_app_routes :: "(string list \<Rightarrow> bool) \<Rightarrow> string list \<Rightarrow> string \<Rightarrow> exports \<Rightarrow> (route_fact \<times> nat \<times> nat) list option" where
  "next_app_routes refs dirs stem exports =
     (if (stem = ''route'' \<or> stem = ''page'') \<and> ''app'' \<in> set dirs then
        let rest = (case after_marker ''app'' dirs of Some r \<Rightarrow> r | None \<Rightarrow> []); route = location_route rest None in
        if list_ex (\<lambda>d. starts_with d ''_'') rest then None
        else if stem = ''route'' \<and> verb_exports exports \<noteq> [] then Some (verb_facts exports route)
        else if stem = ''page'' \<and> map_of exports ''default'' \<noteq> None \<and> refs [''next''] then Some [page_fact exports ''PAGE'' route]
        else None
      else None)"

definition pathless :: "string \<Rightarrow> bool" where
  "pathless name = (let l = last_segment CHR ''.'' name in starts_with l ''_'' \<and> l \<noteq> ''_index'')"

definition remix_location :: "string list \<Rightarrow> string \<Rightarrow> string option" where
  "remix_location rest stem =
     (if rest = [] then if pathless stem then None else Some (remix_route stem)
      else if length rest = 1 \<and> (stem = ''route'' \<or> stem = ''index'')
      then if pathless (last rest) then None else Some (remix_route (last rest))
      else None)"

definition remix_facts :: "exports \<Rightarrow> string \<Rightarrow> (route_fact \<times> nat \<times> nat) list" where
  "remix_facts exports route =
     (case map_of exports ''loader'' of Some l \<Rightarrow> [(\<lparr>rf_method = ''GET'', rf_route = route\<rparr>, l)] | None \<Rightarrow> [])
     @ (case map_of exports ''action'' of Some l \<Rightarrow> [(\<lparr>rf_method = ''POST'', rf_route = route\<rparr>, l)] | None \<Rightarrow> [])
     @ (if map_of exports ''default'' \<noteq> None then [page_fact exports ''PAGE'' route] else [])"

definition remix_routes :: "(string list \<Rightarrow> bool) \<Rightarrow> string list \<Rightarrow> string \<Rightarrow> exports \<Rightarrow> (route_fact \<times> nat \<times> nat) list option" where
  "remix_routes refs dirs stem exports =
     Option.bind (after_pair ''app'' ''routes'' dirs) (\<lambda>rest.
       if refs [''@remix-run/'', ''react-router'', ''@react-router/''] then
         Option.bind (remix_location rest stem) (\<lambda>route.
           let out = remix_facts exports route in if out \<noteq> [] then Some out else None)
       else None)"

definition pages_routes :: "(string list \<Rightarrow> bool) \<Rightarrow> string list \<Rightarrow> string \<Rightarrow> exports \<Rightarrow> (route_fact \<times> nat \<times> nat) list option" where
  "pages_routes refs dirs stem exports =
     Option.bind (after_marker ''pages'' dirs) (\<lambda>rest.
       let astro_rest = (case after_pair ''src'' ''pages'' dirs of Some r \<Rightarrow> r | None \<Rightarrow> rest);
           last_name = (if stem = ''index'' then None else Some stem) in
       if verb_exports exports \<noteq> [] \<and> refs [''astro''] then Some (verb_facts exports (location_route astro_rest last_name))
       else if map_of exports ''default'' \<noteq> None \<and> refs [''next''] \<and> \<not> starts_with stem ''_'' \<and> stem \<noteq> ''middleware''
       then Some [page_fact exports (if rest \<noteq> [] \<and> hd rest = ''api'' then ''ALL'' else ''PAGE'') (location_route rest last_name)]
       else None)"

fun first_some :: "'a option list \<Rightarrow> 'a option" where
  "first_some [] = None"
| "first_some (None # xs) = first_some xs"
| "first_some (Some x # xs) = Some x"

definition file_routes :: "(string list \<Rightarrow> bool) \<Rightarrow> path \<Rightarrow> exports \<Rightarrow> (route_fact \<times> nat \<times> nat) list" where
  "file_routes refs p exports =
     (case rev (path_names p) of
        [] \<Rightarrow> []
      | f # rdirs \<Rightarrow>
          let dirs = rev rdirs; (stem, ext) = split_ext f in
          if \<not> is_script_ext ext then []
          else case first_some
              [svelte_routes dirs stem exports,
               next_app_routes refs dirs stem exports,
               Option.bind (after_pair ''server'' ''api'' dirs) (\<lambda>rest. nitro_route [''api''] rest stem exports),
               Option.bind (after_pair ''server'' ''routes'' dirs) (\<lambda>rest. nitro_route [] rest stem exports),
               remix_routes refs dirs stem exports,
               pages_routes refs dirs stem exports] of
            Some out \<Rightarrow> out
          | None \<Rightarrow> [])"

section \<open>The exports of a module\<close>

definition kind_in :: "string list \<Rightarrow> ts_node \<Rightarrow> bool" where
  "kind_in ks n \<longleftrightarrow> nd_kind n \<in> set ks"

definition text_of_field :: "string \<Rightarrow> ts_node \<Rightarrow> string \<Rightarrow> string option" where
  "text_of_field source n f = Option.bind (child_by_field_name n f) (node_text source)"

definition pattern_local :: "ts_node \<Rightarrow> ts_node option" where
  "pattern_local m =
     (if nd_kind m = ''shorthand_property_identifier_pattern'' then Some m
      else if nd_kind m = ''pair_pattern'' then child_by_field_name m ''value''
      else if nd_kind m = ''object_assignment_pattern'' then child_by_field_name m ''left''
      else None)"

definition bound_names :: "string \<Rightarrow> ts_node \<Rightarrow> string list" where
  "bound_names source binding =
     (if nd_kind binding = ''identifier'' then (case node_text source binding of Some t \<Rightarrow> [t] | None \<Rightarrow> [])
      else if nd_kind binding = ''object_pattern''
      then List.map_filter (\<lambda>m. Option.bind (pattern_local m) (node_text source)) (named_children binding)
      else [])"

definition declared_names :: "string \<Rightarrow> ts_node \<Rightarrow> string list" where
  "declared_names source decl =
     (if kind_in [''function_declaration'', ''generator_function_declaration'', ''class_declaration''] decl
      then (case text_of_field source decl ''name'' of Some t \<Rightarrow> [t] | None \<Rightarrow> [])
      else if kind_in [''lexical_declaration'', ''variable_declaration''] decl
      then concat (map (\<lambda>d. case child_by_field_name d ''name'' of Some b \<Rightarrow> bound_names source b | None \<Rightarrow> [])
             (filter (\<lambda>d. nd_kind d = ''variable_declarator'') (named_children decl)))
      else [])"

definition clause_names :: "string \<Rightarrow> ts_node \<Rightarrow> string list" where
  "clause_names source stmt =
     List.map_filter (\<lambda>spec. Option.bind (case child_by_field_name spec ''alias'' of Some a \<Rightarrow> Some a | None \<Rightarrow> child_by_field_name spec ''name'')
         (node_text source))
       (concat (map (\<lambda>cl. filter (\<lambda>s. nd_kind s = ''export_specifier'') (named_children cl))
          (filter (\<lambda>c. nd_kind c = ''export_clause'') (named_children stmt))))"

definition default_callee :: "string \<Rightarrow> ts_node \<Rightarrow> string option" where
  "default_callee source stmt =
     Option.bind (child_by_field_name stmt ''value'') (\<lambda>v.
       if nd_kind v = ''call_expression'' then text_of_field source v ''function'' else None)"

definition is_default_export :: "ts_node \<Rightarrow> bool" where
  "is_default_export stmt \<longleftrightarrow> list_ex (\<lambda>c. nd_kind c = ''default'') (nd_children stmt)"

definition statement_names :: "string \<Rightarrow> ts_node \<Rightarrow> string list" where
  "statement_names source stmt =
     (if is_default_export stmt
      then ''default'' # (case default_callee source stmt of Some callee \<Rightarrow> [''default@'' @ callee] | None \<Rightarrow> [])
      else (case child_by_field_name stmt ''declaration'' of Some decl \<Rightarrow> declared_names source decl | None \<Rightarrow> []) @ clause_names source stmt)"

definition exported_names :: "string \<Rightarrow> ts_node \<Rightarrow> exports" where
  "exported_names source root =
     fold (\<lambda>stmt out. fold (\<lambda>n. hm_insert n (node_lines stmt)) (statement_names source stmt) out)
       (filter (\<lambda>s. nd_kind s = ''export_statement'') (named_children root)) []"

section \<open>React Router configuration\<close>

function peel_wrappers :: "ts_node \<Rightarrow> ts_node" where
  "peel_wrappers n =
     (if kind_in [''parenthesized_expression'', ''as_expression'', ''satisfies_expression'', ''non_null_expression'', ''await_expression''] n
      then (case named_children n of c # _ \<Rightarrow> peel_wrappers c | [] \<Rightarrow> n)
      else n)"
  by pat_completeness auto
termination
proof (relation "measure size", goal_cases)
  case (2 n c cs)
  then have "c \<in> set (nd_children n)" by (metis filter_is_subset list.set_intros(1) named_children_def subsetD)
  then show ?case using size_list_estimation' [of c "nd_children n" "size c" size] by (cases n) auto
qed simp

declare peel_wrappers.simps [simp del]

definition text_arg :: "string \<Rightarrow> ts_node list \<Rightarrow> nat \<Rightarrow> string option" where
  "text_arg source args i = (if i < length args then unquote source (args ! i) else None)"

definition array_arg :: "ts_node list \<Rightarrow> nat \<Rightarrow> ts_node option" where
  "array_arg args i = (if i < length args \<and> nd_kind (args ! i) = ''array'' then Some (args ! i) else None)"

definition route_page :: "string \<Rightarrow> ts_node \<Rightarrow> route_fact \<times> nat \<times> nat" where
  "route_page p call = (\<lparr>rf_method = ''PAGE'', rf_route = p\<rparr>, node_lines call)"

definition unspread :: "ts_node \<Rightarrow> ts_node option" where
  "unspread e = (if nd_kind e = ''spread_element'' then (case named_children e of c # _ \<Rightarrow> Some c | [] \<Rightarrow> None) else Some e)"

text \<open>One call of the configuration: its own page, and the children to walk with their prefix.\<close>

definition route_call :: "string \<Rightarrow> string \<Rightarrow> ts_node \<Rightarrow> (route_fact \<times> nat \<times> nat) list \<times> (ts_node \<times> string) option" where
  "route_call source pre call =
     (let args = call_arguments call; name = text_of_field source call ''function'' in
      if nd_kind call \<noteq> ''call_expression'' then ([], None)
      else if name = Some ''index'' then ([route_page (join_route pre []) call], None)
      else if name = Some ''route'' then
        if args \<noteq> [] \<and> nd_kind (hd args) = ''null'' then ([], map_option (\<lambda>c. (c, pre)) (array_arg args 2))
        else (case text_arg source args 0 of
            None \<Rightarrow> ([], None)
          | Some p \<Rightarrow> ([route_page (join_route pre p) call], map_option (\<lambda>c. (c, join_route pre p)) (array_arg args 2)))
      else if name = Some ''layout''
      then ([], map_option (\<lambda>c. (c, pre)) (case array_arg args 1 of Some c \<Rightarrow> Some c | None \<Rightarrow> array_arg args 2))
      else if name = Some ''prefix''
      then ([], Option.bind (text_arg source args 0) (\<lambda>p. map_option (\<lambda>c. (c, join_route pre p)) (array_arg args 1)))
      else ([], None))"

function walk_route_config :: "string \<Rightarrow> ts_node \<Rightarrow> string \<Rightarrow> nat \<Rightarrow> (route_fact \<times> nat \<times> nat) list" where
  "walk_route_config source array pre depth =
     (if depth > 16 then []
      else concat (map (\<lambda>e. case route_call source pre e of
            (pages, Some (children, pre')) \<Rightarrow> pages @ walk_route_config source children pre' (depth + 1)
          | (pages, None) \<Rightarrow> pages) (List.map_filter unspread (named_children array))))"
  by pat_completeness auto
termination by (relation "measure (\<lambda>(s, a, p, d). 17 - d)") auto

declare walk_route_config.simps [simp del]

definition exported_value :: "ts_node \<Rightarrow> ts_node option" where
  "exported_value root =
     map_option peel_wrappers (case List.map_filter (\<lambda>s. child_by_field_name s ''value'')
         (filter is_default_export (filter (\<lambda>s. nd_kind s = ''export_statement'') (named_children root))) of v # _ \<Rightarrow> Some v | [] \<Rightarrow> None)"

definition declarators :: "ts_node \<Rightarrow> ts_node list" where
  "declarators s =
     (case (if nd_kind s = ''export_statement'' then child_by_field_name s ''declaration'' else Some s) of
        Some d \<Rightarrow> filter (\<lambda>c. nd_kind c = ''variable_declarator'') (named_children d)
      | None \<Rightarrow> [])"

definition routes_array :: "string \<Rightarrow> ts_node \<Rightarrow> ts_node option" where
  "routes_array source root =
     Option.bind (exported_value root) (\<lambda>v.
       if nd_kind v \<noteq> ''identifier'' then Some v
       else Option.bind (node_text source v) (\<lambda>name.
         map_option peel_wrappers
           (Option.bind (find (\<lambda>d. text_of_field source d ''name'' = Some name) (concat (map declarators (named_children root))))
              (\<lambda>d. child_by_field_name d ''value''))))"

definition react_router_config :: "string \<Rightarrow> ts_node \<Rightarrow> (route_fact \<times> nat \<times> nat) list" where
  "react_router_config source root =
     dedup_on (\<lambda>(fact, _). rf_route fact) []
       (case routes_array source root of
          Some a \<Rightarrow> if nd_kind a = ''array'' then walk_route_config source a [] 0 else []
        | None \<Rightarrow> [])"

definition detect_file_routes :: "(string list \<Rightarrow> bool) \<Rightarrow> path \<Rightarrow> string \<Rightarrow> ts_node \<Rightarrow> (route_fact \<times> nat \<times> nat) list" where
  "detect_file_routes refs p source root =
     (if \<not> path_may_route p then []
      else if file_stem p = Some ''routes'' \<and> refs [''@react-router/dev/routes''] then react_router_config source root
      else let exports = exported_names source root in
        if exports = [] then [] else file_routes refs p exports)"

section \<open>The shape of a route\<close>

definition names_ok :: "path \<Rightarrow> bool" where
  "names_ok p \<longleftrightarrow> list_all (\<lambda>c. case normal_name c of Some n \<Rightarrow> CHR ''/'' \<notin> set n | None \<Rightarrow> True) p"

definition route_shape :: "string \<Rightarrow> bool" where
  "route_shape r \<longleftrightarrow> r \<noteq> [] \<and> (hd r = CHR ''/'' \<or> hd r = CHR ''*'') \<and> (length r > 1 \<longrightarrow> last r \<noteq> CHR ''/'')"

definition slashless :: "string \<Rightarrow> bool" where
  "slashless s \<longleftrightarrow> CHR ''/'' \<notin> set s"

lemma slashless_simps [simp]:
  "slashless (a @ b) \<longleftrightarrow> slashless a \<and> slashless b" "slashless (c # a) \<longleftrightarrow> c \<noteq> CHR ''/'' \<and> slashless a" "slashless []"
  "slashless (rev a) \<longleftrightarrow> slashless a"
  by (auto simp: slashless_def)

lemma slashless_subset: "slashless s \<Longrightarrow> set t \<subseteq> set s \<Longrightarrow> slashless t"
  by (auto simp: slashless_def)

lemma slashless_last: "slashless s \<Longrightarrow> s \<noteq> [] \<Longrightarrow> last s \<noteq> CHR ''/''"
  by (metis last_in_set slashless_def)

lemma slashless_dropWhile: "slashless s \<Longrightarrow> slashless (dropWhile P s)"
  by (auto simp: slashless_def dest: set_dropWhileD)

lemma slashless_trim_start: "slashless s \<Longrightarrow> slashless (trim_start_str pre s)"
proof (induction pre s rule: trim_start_str.induct)
  case (1 pre s)
  then show ?case by (subst trim_start_str.simps) (auto intro: slashless_subset dest: in_set_dropD)
qed

lemma slashless_split: "slashless s \<Longrightarrow> t \<in> set (split c s) \<Longrightarrow> slashless t"
proof -
  have "c' \<in> set s" if "t \<in> set (split_pred P s)" "c' \<in> set t" for P s t c'
    using that by (induction P s arbitrary: t rule: split_pred.induct) (fastforce split: if_splits list.splits)+
  then show "slashless s \<Longrightarrow> t \<in> set (split c s) \<Longrightarrow> slashless t" by (auto simp: slashless_def)
qed

lemma slashless_hd_split: "slashless s \<Longrightarrow> slashless (hd (split c s))"
  by (rule slashless_split [OF _ hd_in_set [OF split_pred_nonempty]])

lemma slashless_strip:
  "strip_prefix pre s = Some t \<Longrightarrow> slashless s \<Longrightarrow> slashless t" "strip_suffix suf s = Some t \<Longrightarrow> slashless s \<Longrightarrow> slashless t"
  unfolding strip_prefix_def strip_suffix_def slashless_def
  by (metis in_set_dropD option.distinct(1) option.inject) (metis in_set_takeD option.distinct(1) option.inject)

lemma slashless_rsplit: "rsplit_once c s = Some (a, b) \<Longrightarrow> slashless s \<Longrightarrow> slashless a \<and> slashless b"
  by (auto simp: rsplit_once_Some slashless_def)

lemma slashless_dynamic: "dynamic_segment s = Some t \<Longrightarrow> slashless s \<Longrightarrow> slashless t"
  by (auto simp: dynamic_segment_def Let_def bind_eq_Some_conv intro!: slashless_hd_split slashless_trim_start split: if_splits option.splits dest!: slashless_strip)

lemma slashless_pop_marks: "pop_marks seg segs = (seg', segs') \<Longrightarrow> slashless seg \<Longrightarrow> slashless seg' \<and> set segs' \<subseteq> set segs"
proof (induction seg segs rule: pop_marks.induct)
  case (1 seg segs)
  show ?case
  proof (cases "strip_prefix ''(..)'' seg")
    case (Some rest)
    then have "pop_marks rest (butlast segs) = (seg', segs')" using 1(2) by (subst (asm) pop_marks.simps) simp
    then have "slashless seg' \<and> set segs' \<subseteq> set (butlast segs)" using 1(1) [OF Some] slashless_strip(1) [OF Some 1(3)] by blast
    then show ?thesis by (meson in_set_butlastD subset_eq)
  qed (use 1 in \<open>simp add: pop_marks.simps\<close>)
qed

lemma slashless_intercepted:
  assumes "intercepted raw segs = (seg, segs')" "slashless raw"
  shows "slashless seg \<and> set segs' \<subseteq> set segs"
proof (cases "strip_prefix ''(...)'' raw")
  case (Some rest)
  then show ?thesis using assms slashless_strip(1) [OF Some] by (simp add: intercepted_def)
next
  case no: None
  show ?thesis
  proof (cases "starts_with raw ''(..)''")
    case True
    then show ?thesis using assms no slashless_pop_marks by (simp add: intercepted_def)
  next
    case False
    then show ?thesis using assms no slashless_strip(1) [of "''(.)''" raw] by (cases "strip_prefix ''(.)'' raw") (simp_all add: intercepted_def)
  qed
qed

lemma push_route_seg_ok:
  assumes "slashless raw" "\<forall>s \<in> set segs. slashless s \<and> s \<noteq> []"
  shows "\<forall>s \<in> set (push_route_seg raw segs). slashless s \<and> s \<noteq> []"
proof -
  obtain seg segs' where i: "intercepted raw segs = (seg, segs')" by force
  note k = slashless_intercepted [OF i assms(1)]
  show ?thesis
  proof (cases "dynamic_segment seg")
    case None
    then show ?thesis using k assms(2) i by (auto simp: push_route_seg_def)
  next
    case (Some s)
    then have "slashless s" using slashless_dynamic k by blast
    then show ?thesis using Some k assms(2) i by (auto simp: push_route_seg_def)
  qed
qed

lemma route_segs_ok:
  assumes "\<forall>d \<in> set dirs. slashless d" "\<forall>l. last_name = Some l \<longrightarrow> slashless l"
  shows "\<forall>s \<in> set (route_segs dirs last_name). slashless s \<and> s \<noteq> []"
proof -
  have run: "\<forall>s \<in> set (fold push_route_seg ds segs). slashless s \<and> s \<noteq> []"
    if "\<forall>d \<in> set ds. slashless d" "\<forall>s \<in> set segs. slashless s \<and> s \<noteq> []" for ds segs
    using that
  proof (induction ds arbitrary: segs)
    case (Cons d ds)
    show ?case unfolding fold.simps o_apply
      by (rule Cons.IH [OF _ push_route_seg_ok [OF _ Cons.prems(2)]]) (use Cons.prems(1) in simp_all)
  qed simp
  show ?thesis unfolding route_segs_def by (rule run) (use assms in \<open>auto split: option.splits\<close>)
qed

lemma route_shape_join:
  assumes "segs \<noteq> []" "\<forall>s \<in> set segs. slashless s \<and> s \<noteq> []"
  shows "route_shape (''/'' @ join_with ''/'' segs)"
proof -
  have "join_with ''/'' segs \<noteq> [] \<and> last (join_with ''/'' segs) \<noteq> CHR ''/''"
    using assms by (induction segs rule: induct_list012) (auto dest: slashless_last)
  then show ?thesis by (simp add: route_shape_def)
qed

lemma location_route_shape:
  assumes "\<forall>d \<in> set dirs. slashless d" "\<forall>l. last_name = Some l \<longrightarrow> slashless l"
  shows "route_shape (location_route dirs last_name)"
  using route_shape_join [OF _ route_segs_ok [OF assms]] by (auto simp: location_route_def Let_def) (simp add: route_shape_def)

lemma remix_part_shape: "slashless part \<Longrightarrow> remix_part part = [] \<or> (\<exists>x. remix_part part = CHR ''/'' # x \<and> x \<noteq> [] \<and> slashless x)"
  by (auto simp: remix_part_def bind_eq_Some_conv strip_prefix_Some dest!: slashless_strip split: option.splits)

lemma remix_route_shape:
  assumes "slashless stem"
  shows "route_shape (remix_route stem)"
proof -
  have clean: "slashless (replace_chars {CHR 0x01} CHR ''.'' (rev (dropWhile P (rev p))))" if "slashless p" for P p
    using that slashless_dropWhile [of "rev p" P] by (auto simp: slashless_def replace_chars_def)
  have "slashless (replace_skip n ''[.]'' [CHR 0x01] s)" if "slashless s" for n s
    using that by (induction n "''[.]''" "[CHR 0x01]" s rule: replace_skip.induct) auto
  then have "slashless (replace_str ''[.]'' [CHR 0x01] stem)" using assms by (simp add: replace_str_def)
  then have parts: "\<forall>p \<in> set (split CHR ''.'' (replace_str ''[.]'' [CHR 0x01] stem)). slashless p" using slashless_split by blast
  have cat: "concat (map f ps) = [] \<or> (hd (concat (map f ps)) = CHR ''/'' \<and> last (concat (map f ps)) \<noteq> CHR ''/'')"
    if "\<forall>p \<in> set ps. f p = [] \<or> (\<exists>x. f p = CHR ''/'' # x \<and> x \<noteq> [] \<and> slashless x)" for f :: "string \<Rightarrow> string" and ps
    using that
  proof (induction ps)
    case (Cons p ps)
    define rest where "rest = concat (map f ps)"
    have ih: "rest = [] \<or> (hd rest = CHR ''/'' \<and> last rest \<noteq> CHR ''/'')" using Cons unfolding rest_def by simp
    from Cons.prems consider "f p = []" | x where "f p = CHR ''/'' # x" "x \<noteq> []" "slashless x" by auto
    then show ?case
    proof cases
      case 2
      then show ?thesis using ih slashless_last [OF 2(3) 2(2)] by (auto simp: last_append simp flip: rest_def)
    qed (use ih in \<open>simp flip: rest_def\<close>)
  qed simp
  have shaped: "route_shape c" if "c = [] \<or> (hd c = CHR ''/'' \<and> last c \<noteq> CHR ''/'')" "c \<noteq> []" for c
    using that by (simp add: route_shape_def)
  define f where "f = (\<lambda>p. remix_part (replace_chars {CHR 0x01} CHR ''.'' (rev (dropWhile (\<lambda>c. c = CHR ''_'') (rev p)))))"
  define ps where "ps = split CHR ''.'' (replace_str ''[.]'' [CHR 0x01] stem)"
  have "f p = [] \<or> (\<exists>x. f p = CHR ''/'' # x \<and> x \<noteq> [] \<and> slashless x)" if "p \<in> set ps" for p
    unfolding f_def by (rule remix_part_shape, rule clean) (use that parts in \<open>simp add: ps_def\<close>)
  then have c: "concat (map f ps) = [] \<or> (hd (concat (map f ps)) = CHR ''/'' \<and> last (concat (map f ps)) \<noteq> CHR ''/'')" using cat by blast
  have r: "remix_route stem = (if concat (map f ps) = [] then ''/'' else concat (map f ps))" unfolding remix_route_def Let_def f_def ps_def ..
  show ?thesis
  proof (cases "concat (map f ps) = []")
    case True
    then show ?thesis unfolding r by (simp add: route_shape_def)
  next
    case False
    then show ?thesis unfolding r if_not_P [OF False] by (rule shaped [OF c])
  qed
qed

lemma starts_with_single: "starts_with s [c] \<longleftrightarrow> s \<noteq> [] \<and> hd s = c"
  by (cases s) (auto simp: starts_with_def)

lemma route_shape_trimmed:
  assumes "r \<noteq> []" "hd r = CHR ''/'' \<or> hd r = CHR ''*''" "length r > 1 \<Longrightarrow> \<not> slashes r" "slashes = list_all (\<lambda>c. c = CHR ''/'')"
  shows "route_shape (if length r > 1 then rev (dropWhile (\<lambda>c. c = CHR ''/'') (rev r)) else r)"
proof (cases "length r > 1")
  case True
  define t where "t = dropWhile (\<lambda>c. c = CHR ''/'') (rev r)"
  have t: "t \<noteq> []" using assms(3) [OF True] assms(4) by (auto simp: t_def dropWhile_eq_Nil_conv list_all_iff)
  obtain u where "rev r = u @ t" using takeWhile_dropWhile_id [of "\<lambda>c. c = CHR ''/''" "rev r"] unfolding t_def by metis
  then have "r = rev t @ rev u" by (metis rev_append rev_rev_ident)
  then have "hd (rev t) = hd r" using t by simp
  moreover have "last (rev t) \<noteq> CHR ''/''" using t hd_dropWhile [of "\<lambda>c. c = CHR ''/''" "rev r"] by (simp add: last_rev t_def)
  ultimately show ?thesis using True t assms(2) by (simp add: route_shape_def flip: t_def)
qed (use assms in \<open>simp add: route_shape_def\<close>)

lemma route_shape_join_route: "route_shape (join_route pre p)"
proof -
  define pre' where "pre' = rev (dropWhile (\<lambda>c. c = CHR ''/'') (rev pre))"
  define p' where "p' = dropWhile (\<lambda>c. c = CHR ''/'') p"
  define joined where "joined = (if pre' = [] then if p' = [] then [] else if starts_with p' ''*'' then p' else ''/'' @ p'
                    else if p' = [] then pre' else pre' @ ''/'' @ p')"
  define rooted where "rooted = (if starts_with joined ''/'' \<or> starts_with joined ''*'' then joined else ''/'' @ joined)"
  have "p' \<noteq> [] \<Longrightarrow> hd p' \<noteq> CHR ''/''" unfolding p'_def using hd_dropWhile by fast
  then have p: "p' \<noteq> [] \<Longrightarrow> \<exists>c \<in> set p'. c \<noteq> CHR ''/''" using hd_in_set by blast
  have "pre' \<noteq> [] \<Longrightarrow> last pre' \<noteq> CHR ''/''" unfolding pre'_def using hd_dropWhile [of "\<lambda>c. c = CHR ''/''" "rev pre"] by (simp add: last_rev)
  then have pre: "pre' \<noteq> [] \<Longrightarrow> \<exists>c \<in> set pre'. c \<noteq> CHR ''/''" using last_in_set by blast
  have j: "joined \<noteq> [] \<Longrightarrow> \<exists>c \<in> set joined. c \<noteq> CHR ''/''" using p pre by (auto simp: joined_def)
  have "rooted \<noteq> []" "hd rooted = CHR ''/'' \<or> hd rooted = CHR ''*''" by (auto simp: rooted_def starts_with_single)
  moreover have "\<not> list_all (\<lambda>c. c = CHR ''/'') rooted" if "length rooted > 1"
    using j that by (cases "joined = []") (auto simp: rooted_def list_all_iff starts_with_single)
  ultimately have "route_shape (if length rooted > 1 then rev (dropWhile (\<lambda>c. c = CHR ''/'') (rev rooted)) else rooted)"
    by (intro route_shape_trimmed) simp_all
  then show ?thesis unfolding join_route_def Let_def rooted_def joined_def pre'_def p'_def .
qed

section \<open>What a file may declare\<close>

definition route_methods :: "string list" where
  "route_methods = ''PAGE'' # ''ALL'' # HTTP_VERBS"

definition route_ok :: "route_fact \<times> nat \<times> nat \<Rightarrow> bool" where
  "route_ok r \<longleftrightarrow> rf_method (fst r) \<in> set route_methods \<and> route_shape (rf_route (fst r))"

lemma verb_exports_sound: "(v, l) \<in> set (verb_exports exports) \<Longrightarrow> v \<in> set HTTP_VERBS \<and> map_of exports v = Some l"
  by (auto simp: verb_exports_def List.map_filter_def)

lemma verb_facts_ok: "route_shape route \<Longrightarrow> r \<in> set (verb_facts exports route) \<Longrightarrow> route_ok r"
  by (auto simp: verb_facts_def route_ok_def route_methods_def dest: verb_exports_sound)

lemma page_fact_ok: "route_shape route \<Longrightarrow> m \<in> set route_methods \<Longrightarrow> route_ok (page_fact exports m route)"
  by (simp add: page_fact_def route_ok_def)

lemma ascii_upper_lower: "ascii_upper (ascii_lower c) = ascii_upper c"
  by (cases c) (auto simp: ascii_defs less_eq_char_def)

lemma eq_ignore_ascii_case_upper: "eq_ignore_ascii_case a b \<Longrightarrow> map ascii_upper a = map ascii_upper b"
proof -
  assume "eq_ignore_ascii_case a b"
  then have "map ascii_upper (map ascii_lower a) = map ascii_upper (map ascii_lower b)" by (simp add: eq_ignore_ascii_case_def to_lowercase_def)
  then show ?thesis by (simp add: o_def ascii_upper_lower)
qed

lemma verbs_upper: "v \<in> set HTTP_VERBS \<Longrightarrow> map ascii_upper v = v"
  by (auto simp: HTTP_VERBS_def ascii_defs)

lemma nitro_name_method:
  assumes "nitro_name stem = (name, m)" "slashless stem"
  shows "m \<in> set route_methods \<and> slashless name"
proof (cases "rsplit_once CHR ''.'' stem")
  case None
  then show ?thesis using assms by (auto simp: nitro_name_def route_methods_def)
next
  case (Some nm)
  then obtain n m' where nm: "rsplit_once CHR ''.'' stem = Some (n, m')" by (cases nm) simp
  show ?thesis
  proof (cases "\<exists>v \<in> set HTTP_VERBS. eq_ignore_ascii_case m' v")
    case True
    then have "map ascii_upper m' \<in> set HTTP_VERBS" using eq_ignore_ascii_case_upper verbs_upper by metis
    then show ?thesis using True assms nm slashless_rsplit [OF nm] by (auto simp: nitro_name_def route_methods_def list_ex_iff)
  next
    case False
    then show ?thesis using assms nm by (auto simp: nitro_name_def route_methods_def list_ex_iff)
  qed
qed

lemma after_pair_subset: "after_pair a b dirs = Some rest \<Longrightarrow> set rest \<subseteq> set dirs \<and> b \<in> set dirs"
  by (induction a b dirs rule: after_pair.induct) (auto split: if_splits)

lemma after_marker_subset: "after_marker m dirs = Some rest \<Longrightarrow> set rest \<subseteq> set dirs \<and> m \<in> set dirs"
  by (induction m dirs rule: after_marker.induct) (auto split: if_splits)

lemma location_ok:
  assumes "\<forall>d \<in> set dirs. slashless d" "set rest \<subseteq> set dirs" "\<forall>l. n = Some l \<longrightarrow> slashless l"
  shows "route_shape (location_route rest n)"
  using assms by (intro location_route_shape) auto

abbreviation plain_dirs :: "string list \<Rightarrow> bool" where
  "plain_dirs dirs \<equiv> \<forall>d \<in> set dirs. slashless d"

lemma svelte_routes_ok:
  assumes "svelte_routes dirs stem exports = Some out" "plain_dirs dirs" "r \<in> set out"
  shows "route_ok r"
proof -
  obtain rest where m: "starts_with stem ''+''" "after_pair ''src'' ''routes'' dirs = Some rest"
    using assms(1) by (auto simp: svelte_routes_def split: if_splits)
  define route where "route = location_route rest None"
  have s: "route_shape route" unfolding route_def using after_pair_subset [OF m(2)] assms(2) by (intro location_ok) auto
  have "r \<in> set (verb_facts exports route) \<or> (\<exists>l. r = (\<lparr>rf_method = ''POST'', rf_route = route\<rparr>, l))"
    using assms(1,3) m unfolding svelte_routes_def Let_def route_def by (auto split: if_splits option.splits)
  moreover have "route_ok (\<lparr>rf_method = ''POST'', rf_route = route\<rparr>, l)" for l using s by (simp add: route_ok_def route_methods_def HTTP_VERBS_def)
  ultimately show ?thesis using s verb_facts_ok by blast
qed

lemma next_app_routes_ok:
  assumes "next_app_routes refs dirs stem exports = Some out" "plain_dirs dirs" "r \<in> set out"
  shows "route_ok r"
proof -
  define rest where "rest = (case after_marker ''app'' dirs of Some r \<Rightarrow> r | None \<Rightarrow> [])"
  have "set rest \<subseteq> set dirs" unfolding rest_def by (cases "after_marker ''app'' dirs") (use after_marker_subset in fastforce)+
  then have "route_shape (location_route rest None)" using assms(2) by (intro location_ok) auto
  then show ?thesis using assms(1,3) unfolding next_app_routes_def Let_def rest_def [symmetric]
    by (auto intro: verb_facts_ok intro!: page_fact_ok simp: route_methods_def split: if_splits)
qed

lemma nitro_route_ok:
  assumes "nitro_route pre rest stem exports = Some out" "plain_dirs (pre @ rest)" "slashless stem" "r \<in> set out"
  shows "route_ok r"
proof -
  obtain name m where n: "nitro_name stem = (name, m)" by force
  have "route_shape (location_route (pre @ rest) (if name \<noteq> ''index'' then Some name else None))"
    using assms(2) nitro_name_method [OF n assms(3)] by (intro location_ok [of "pre @ rest"]) auto
  then show ?thesis using assms(1,4) n nitro_name_method [OF n assms(3)]
    by (auto simp: nitro_route_def route_ok_def bind_eq_Some_conv split: if_splits)
qed

lemma remix_routes_ok:
  assumes "remix_routes refs dirs stem exports = Some out" "plain_dirs dirs" "slashless stem" "r \<in> set out"
  shows "route_ok r"
proof -
  obtain rest route where r: "after_pair ''app'' ''routes'' dirs = Some rest" "remix_location rest stem = Some route" "out = remix_facts exports route"
    using assms(1) by (auto simp: remix_routes_def bind_eq_Some_conv Let_def split: if_splits)
  have "rest \<noteq> [] \<Longrightarrow> slashless (last rest)" using assms(2) after_pair_subset [OF r(1)] last_in_set [of rest] by blast
  then have "route_shape route" using r(2) assms(3) by (auto simp: remix_location_def intro!: remix_route_shape split: if_splits)
  then show ?thesis using assms(4) unfolding r(3) remix_facts_def
    by (auto simp: route_ok_def [of "(_, _)"] route_methods_def HTTP_VERBS_def intro: page_fact_ok split: option.splits if_splits)
qed

lemma pages_routes_ok:
  assumes "pages_routes refs dirs stem exports = Some out" "plain_dirs dirs" "slashless stem" "r \<in> set out"
  shows "route_ok r"
proof -
  obtain rest where m: "after_marker ''pages'' dirs = Some rest" using assms(1) by (auto simp: pages_routes_def bind_eq_Some_conv)
  define astro where "astro = (case after_pair ''src'' ''pages'' dirs of Some r \<Rightarrow> r | None \<Rightarrow> rest)"
  have "set astro \<subseteq> set dirs" "set rest \<subseteq> set dirs" using after_marker_subset [OF m] after_pair_subset [of "''src''" "''pages''" dirs]
    unfolding astro_def by (cases "after_pair ''src'' ''pages'' dirs"; simp)+
  then have s: "route_shape (location_route rest' (if stem = ''index'' then None else Some stem))" if "rest' = astro \<or> rest' = rest" for rest'
    using that assms(2,3) by (intro location_ok) auto
  have "r \<in> set (verb_facts exports (location_route astro (if stem = ''index'' then None else Some stem)))
      \<or> (\<exists>mm \<in> {''PAGE'', ''ALL''}. r = page_fact exports mm (location_route rest (if stem = ''index'' then None else Some stem)))"
    using assms(1,4) unfolding pages_routes_def m Option.bind.simps Let_def astro_def [symmetric]
    by (auto split: if_splits simp del: in_set_conv_nth)
  then show ?thesis
  proof
    assume "r \<in> set (verb_facts exports (location_route astro (if stem = ''index'' then None else Some stem)))"
    then show ?thesis by (rule verb_facts_ok [rotated]) (rule s, simp)
  next
    assume "\<exists>mm \<in> {''PAGE'', ''ALL''}. r = page_fact exports mm (location_route rest (if stem = ''index'' then None else Some stem))"
    then obtain mm where r: "mm \<in> {''PAGE'', ''ALL''}" "r = page_fact exports mm (location_route rest (if stem = ''index'' then None else Some stem))" ..
    show ?thesis unfolding r(2) by (rule page_fact_ok [OF s]) (use r(1) in \<open>auto simp: route_methods_def\<close>)
  qed
qed

lemma first_some_Some: "first_some xs = Some x \<Longrightarrow> Some x \<in> set xs"
  by (induction xs rule: first_some.induct) auto

lemma path_names_plain: "names_ok p \<Longrightarrow> n \<in> set (path_names p) \<Longrightarrow> slashless n"
  by (auto simp: names_ok_def list_all_iff path_names_def List.map_filter_def slashless_def)

lemma split_ext_plain: "slashless f \<Longrightarrow> split_ext f = (stem, ext) \<Longrightarrow> slashless stem"
  by (cases "rsplit_once CHR ''.'' f") (auto simp: split_ext_def dest: slashless_rsplit)

lemma file_routes_cases:
  assumes "r \<in> set (file_routes refs p exports)"
  obtains f rdirs stem ext out where "path_names p = rev rdirs @ [f]" "split_ext f = (stem, ext)" "r \<in> set out"
    "Some out \<in> {svelte_routes (rev rdirs) stem exports, next_app_routes refs (rev rdirs) stem exports,
       Option.bind (after_pair ''server'' ''api'' (rev rdirs)) (\<lambda>rest. nitro_route [''api''] rest stem exports),
       Option.bind (after_pair ''server'' ''routes'' (rev rdirs)) (\<lambda>rest. nitro_route [] rest stem exports),
       remix_routes refs (rev rdirs) stem exports, pages_routes refs (rev rdirs) stem exports}"
proof (cases "rev (path_names p)")
  case Nil
  then show ?thesis using assms by (simp add: file_routes_def)
next
  case (Cons f rdirs)
  obtain stem ext where s: "split_ext f = (stem, ext)" by force
  obtain out where "first_some [svelte_routes (rev rdirs) stem exports, next_app_routes refs (rev rdirs) stem exports,
       Option.bind (after_pair ''server'' ''api'' (rev rdirs)) (\<lambda>rest. nitro_route [''api''] rest stem exports),
       Option.bind (after_pair ''server'' ''routes'' (rev rdirs)) (\<lambda>rest. nitro_route [] rest stem exports),
       remix_routes refs (rev rdirs) stem exports, pages_routes refs (rev rdirs) stem exports] = Some out" "r \<in> set out"
    using assms Cons s unfolding file_routes_def by (simp only: list.case Let_def prod.case split: if_splits option.splits) auto
  moreover have "path_names p = rev rdirs @ [f]" using Cons by (metis rev.simps(2) rev_rev_ident)
  ultimately show ?thesis using that s first_some_Some by fastforce
qed

lemma file_routes_ok:
  assumes "names_ok p" "r \<in> set (file_routes refs p exports)"
  shows "route_ok r"
proof -
  from assms(2) obtain f rdirs stem ext out where c: "path_names p = rev rdirs @ [f]" "split_ext f = (stem, ext)" "r \<in> set out"
    "Some out \<in> {svelte_routes (rev rdirs) stem exports, next_app_routes refs (rev rdirs) stem exports,
       Option.bind (after_pair ''server'' ''api'' (rev rdirs)) (\<lambda>rest. nitro_route [''api''] rest stem exports),
       Option.bind (after_pair ''server'' ''routes'' (rev rdirs)) (\<lambda>rest. nitro_route [] rest stem exports),
       remix_routes refs (rev rdirs) stem exports, pages_routes refs (rev rdirs) stem exports}" by (rule file_routes_cases)
  have d: "plain_dirs (rev rdirs)" "slashless stem" using path_names_plain [OF assms(1)] c(1,2) split_ext_plain by auto
  have nitro: "route_ok r" if "Some out = Option.bind (after_pair ''server'' b (rev rdirs)) (\<lambda>rest. nitro_route pre rest stem exports)" "plain_dirs pre" for b pre
  proof -
    have "\<exists>rest. after_pair ''server'' b (rev rdirs) = Some rest \<and> nitro_route pre rest stem exports = Some out"
      using sym [OF that(1)] by (auto simp: bind_eq_Some_conv)
    then show ?thesis using nitro_route_ok [OF _ _ d(2) c(3)] that(2) d(1) after_pair_subset by (metis (full_types) Un_iff set_append subsetD)
  qed
  show ?thesis using c(4) svelte_routes_ok [OF _ d(1) c(3)] next_app_routes_ok [OF _ d(1) c(3)] remix_routes_ok [OF _ d c(3)]
      pages_routes_ok [OF _ d c(3)] nitro [of "''api''" "[''api'']"] nitro [of "''routes''" "[]"] by fastforce
qed

lemma route_call_ok: "route_call source pre e = (pages, next_walk) \<Longrightarrow> r \<in> set pages \<Longrightarrow> route_ok r"
  by (auto simp: route_call_def Let_def route_page_def route_ok_def route_methods_def route_shape_join_route split: if_splits option.splits)

lemma walk_route_config_ok: "r \<in> set (walk_route_config source array pre depth) \<Longrightarrow> route_ok r"
proof (induction source array pre depth arbitrary: r rule: walk_route_config.induct)
  case (1 source array pre depth)
  have "\<exists>e. \<not> depth > 16 \<and> e \<in> set (List.map_filter unspread (named_children array))
    \<and> r \<in> set (case route_call source pre e of (pages, Some (children, pre')) \<Rightarrow> pages @ walk_route_config source children pre' (depth + 1) | (pages, None) \<Rightarrow> pages)"
    using "1.prems" unfolding walk_route_config.simps [of source array pre depth] set_map set_concat
    by (cases "depth > 16") (simp_all only: if_True if_False list.set empty_iff set_concat set_map UN_iff, blast)
  then obtain e where d: "\<not> depth > 16" and e: "e \<in> set (List.map_filter unspread (named_children array))"
    "r \<in> set (case route_call source pre e of (pages, Some (children, pre')) \<Rightarrow> pages @ walk_route_config source children pre' (depth + 1) | (pages, None) \<Rightarrow> pages)"
    by blast
  obtain pages nxt where c: "route_call source pre e = (pages, nxt)" by force
  show ?case
  proof (cases nxt)
    case None
    then show ?thesis using e(2) c route_call_ok by simp
  next
    case (Some cp)
    obtain children pre' where cp: "cp = (children, pre')" by force
    then consider "r \<in> set pages" | "r \<in> set (walk_route_config source children pre' (depth + 1))" using e(2) c Some by auto
    then show ?thesis using route_call_ok [OF c] "1.IH" [OF d e(1) c [symmetric] Some cp [symmetric]] by cases blast+
  qed
qed

lemma react_router_config_ok: "r \<in> set (react_router_config source root) \<Longrightarrow> route_ok r"
  by (auto simp: react_router_config_def dest!: subsetD [OF set_dedup_on] intro: walk_route_config_ok split: option.splits if_splits)

lemma sfc_route_cases:
  assumes "sfc_route p = Some rt"
  obtains f rdirs stem ext rest n where "path_names p = rev rdirs @ [f]" "split_ext f = (stem, ext)"
    "after_pair ''src'' ''routes'' (rev rdirs) = Some rest \<or> after_pair ''src'' ''pages'' (rev rdirs) = Some rest"
    "n = None \<or> n = Some stem" "rt = \<lparr>rf_method = ''PAGE'', rf_route = location_route rest n\<rparr>"
proof (cases "rev (path_names p)")
  case Nil
  then show ?thesis using assms by (simp add: sfc_route_def)
next
  case (Cons f rdirs)
  obtain stem ext where s: "split_ext f = (stem, ext)" by force
  have "path_names p = rev rdirs @ [f]" using Cons by (metis rev.simps(2) rev_rev_ident)
  moreover have "\<exists>rest n. (after_pair ''src'' ''routes'' (rev rdirs) = Some rest \<or> after_pair ''src'' ''pages'' (rev rdirs) = Some rest)
      \<and> (n = None \<or> n = Some stem) \<and> rt = \<lparr>rf_method = ''PAGE'', rf_route = location_route rest n\<rparr>"
    using assms unfolding sfc_route_def Cons list.case Let_def s prod.case rev_rev_ident
    by (auto simp: bind_eq_Some_conv split: if_splits)
  ultimately show ?thesis using that s by blast
qed

lemma sfc_route_ok: "names_ok p \<Longrightarrow> sfc_route p = Some rt \<Longrightarrow> route_ok (rt, l)"
proof (erule sfc_route_cases)
  fix f rdirs stem ext rest n
  assume p: "names_ok p" "path_names p = rev rdirs @ [f]" "split_ext f = (stem, ext)"
    "after_pair ''src'' ''routes'' (rev rdirs) = Some rest \<or> after_pair ''src'' ''pages'' (rev rdirs) = Some rest"
    "n = None \<or> n = Some stem" "rt = \<lparr>rf_method = ''PAGE'', rf_route = location_route rest n\<rparr>"
  have d: "plain_dirs (rev rdirs)" "slashless stem" using path_names_plain [OF p(1)] p(2,3) split_ext_plain by auto
  have "set rest \<subseteq> set (rev rdirs)" using p(4) after_pair_subset by blast
  then have "route_shape (location_route rest n)" using location_ok [OF d(1)] d(2) p(5) by auto
  then show "route_ok (rt, l)" using p(6) by (simp add: route_ok_def route_methods_def)
qed


definition demo_svelte_path :: path where
  "demo_svelte_path = [Normal ''src'', Normal ''routes'', Normal ''[id]'', Normal ''+page.svelte'']"


lemma named_dir_may_route: "d \<in> {''app'', ''pages'', ''routes'', ''api''} \<Longrightarrow> path_names p = dirs @ fs \<Longrightarrow> d \<in> set dirs \<Longrightarrow> path_may_route p"
proof -
  assume d: "d \<in> {''app'', ''pages'', ''routes'', ''api''}" "path_names p = dirs @ fs" "d \<in> set dirs"
  then have "d \<in> set (path_names p)" by simp
  then obtain c where c: "c \<in> set p" "normal_name c = Some d" by (auto simp: path_names_def List.map_filter_def)
  have "component_str c = d" using c(2) by (cases c) simp_all
  then have "list_ex (\<lambda>c. component_str c \<in> {''app'', ''pages'', ''routes'', ''api''}) p" using c(1) d(1) unfolding list_ex_iff by blast
  then show ?thesis unfolding path_may_route_def ..
qed

lemma framework_dirs:
  "svelte_routes dirs stem exports = Some out \<Longrightarrow> ''routes'' \<in> set dirs"
  "next_app_routes refs dirs stem exports = Some out \<Longrightarrow> ''app'' \<in> set dirs"
  "Option.bind (after_pair ''server'' b dirs) g = Some out \<Longrightarrow> b \<in> set dirs"
  "remix_routes refs dirs stem exports = Some out \<Longrightarrow> ''routes'' \<in> set dirs"
  "pages_routes refs dirs stem exports = Some out \<Longrightarrow> ''pages'' \<in> set dirs"
      apply (auto simp: svelte_routes_def dest: after_pair_subset split: if_splits) [1]
     apply (simp add: next_app_routes_def split: if_splits)
    apply (auto simp: bind_eq_Some_conv dest: after_pair_subset) [1]
   apply (auto simp: remix_routes_def bind_eq_Some_conv dest: after_pair_subset) [1]
  apply (auto simp: pages_routes_def bind_eq_Some_conv dest: after_marker_subset) [1]
  done

text \<open>
  The gate before the parse loses no route. A path that any of the conventions would give a route, a script's or a component's,
  passes the cheap test on its components, whatever the file exports and refers to.
\<close>

theorem route_gate_complete:
  assumes "file_routes refs p exports \<noteq> [] \<or> sfc_route p \<noteq> None"
  shows "path_may_route p"
proof (cases "sfc_route p")
  case (Some rt)
  then show ?thesis
  proof (rule sfc_route_cases)
    fix f rdirs rest
    assume p: "path_names p = rev rdirs @ [f]"
      and a: "after_pair ''src'' ''routes'' (rev rdirs) = Some rest \<or> after_pair ''src'' ''pages'' (rev rdirs) = Some rest"
    then have "''routes'' \<in> set (rev rdirs) \<or> ''pages'' \<in> set (rev rdirs)" using after_pair_subset by blast
    then show ?thesis using named_dir_may_route [OF _ p] by blast
  qed
next
  case None
  then obtain r where "r \<in> set (file_routes refs p exports)" using assms by (cases "file_routes refs p exports") auto
  then show ?thesis
  proof (rule file_routes_cases)
    fix f rdirs stem ext out
    assume p: "path_names p = rev rdirs @ [f]" and o: "Some out \<in> {svelte_routes (rev rdirs) stem exports, next_app_routes refs (rev rdirs) stem exports,
       Option.bind (after_pair ''server'' ''api'' (rev rdirs)) (\<lambda>rest. nitro_route [''api''] rest stem exports),
       Option.bind (after_pair ''server'' ''routes'' (rev rdirs)) (\<lambda>rest. nitro_route [] rest stem exports),
       remix_routes refs (rev rdirs) stem exports, pages_routes refs (rev rdirs) stem exports}"
    have "''routes'' \<in> set (rev rdirs) \<or> ''app'' \<in> set (rev rdirs) \<or> ''api'' \<in> set (rev rdirs) \<or> ''pages'' \<in> set (rev rdirs)"
      using o framework_dirs(1) [OF sym, of out "rev rdirs" stem exports] framework_dirs(2) [OF sym, of out refs "rev rdirs" stem exports]
        framework_dirs(3) [OF sym, of out "''api''" "rev rdirs"] framework_dirs(3) [OF sym, of out "''routes''" "rev rdirs"]
        framework_dirs(4) [OF sym, of out refs "rev rdirs" stem exports] framework_dirs(5) [OF sym, of out refs "rev rdirs" stem exports]
      unfolding insert_iff empty_iff by blast
    then show ?thesis using named_dir_may_route [OF _ p] by blast
  qed
qed

theorem route_gate_complete_witness:
  "file_routes (\<lambda>_. False) [Normal ''web'', Normal ''app'', Normal ''users'', Normal ''route.ts''] [(''GET'', (3, 5))]
     = [(\<lparr>rf_method = ''GET'', rf_route = ''/users''\<rparr>, 3, 5)]
   \<and> path_may_route [Normal ''web'', Normal ''app'', Normal ''users'', Normal ''route.ts'']"
proof -
  have f: "file_routes (\<lambda>_. False) [Normal ''web'', Normal ''app'', Normal ''users'', Normal ''route.ts''] [(''GET'', (3, 5))]
     = [(\<lparr>rf_method = ''GET'', rf_route = ''/users''\<rparr>, 3, 5)]" by code_simp
  show ?thesis
    using f route_gate_complete [of "\<lambda>_. False" "[Normal ''web'', Normal ''app'', Normal ''users'', Normal ''route.ts'']" "[(''GET'', (3, 5))]"] by simp
qed

end
