(* ===== verification/Spec2Isabelle.thy ===== *)
theory Spec2Isabelle
  imports Graph_Matrix Http_Routes Property_Registry Snapshot_Cache Idle_Watchdog Tool_Dispatch Decapitation Doc_Search Watch_Plan Index_Sync Sfc File_Routes
begin

text \<open>
  A verification library for MeshMCP, a server that indexes a workspace of many repositories into a graph of
  services, contracts, events and routes, and answers questions of coding agents about it over JSON-RPC.

  \<^bold>\<open>The program.\<close> \<^verbatim>\<open>mesh-parsers\<close> turns files into facts. \<^verbatim>\<open>mesh-core\<close> folds facts into a
  \<^verbatim>\<open>ContractGraph\<close>, derives its edges (\<^verbatim>\<open>reconcile_edges\<close>), publishes it as a snapshot with a generation number, and holds
  what surrounds it: configuration, path jail, property registry, audit trail, search cache.
  \<^verbatim>\<open>mesh-server\<close> dispatches tool calls against the pinned snapshot. \<^verbatim>\<open>mesh-daemon\<close> serves many clients and stops when idle.

  \<^bold>\<open>The theories\<close>, each with the sources it models (under \<^verbatim>\<open>src/crates\<close>):
  \<^item> \<^verbatim>\<open>Mesh_Prelude\<close>: Rust strings, hash maps and ordered maps as lists, the interfaces \<^verbatim>\<open>bucket_index\<close> (an index of
    vectors) and \<^verbatim>\<open>invariant_machine\<close> (operations that keep an invariant).
  \<^item> \<^verbatim>\<open>Mesh_Paths\<close>, \<^verbatim>\<open>Mesh_Types\<close>: Unix paths, \<^verbatim>\<open>mesh-core/src/test_paths.rs\<close>, \<^verbatim>\<open>types.rs\<close>.
  \<^item> \<^verbatim>\<open>Mesh_Topics\<close>, \<^verbatim>\<open>Mesh_Names\<close>, \<^verbatim>\<open>Contract_Graph\<close>, \<^verbatim>\<open>Graph_Imports\<close>, \<^verbatim>\<open>Graph_Rpc\<close>, \<^verbatim>\<open>Graph_Reconcile\<close>, \<^verbatim>\<open>Graph_Edges\<close>,
    \<^verbatim>\<open>Graph_Lookup\<close>, \<^verbatim>\<open>Graph_Impact\<close>, \<^verbatim>\<open>Graph_Matrix\<close>: \<^verbatim>\<open>mesh-core/src/contracts.rs\<close>. The record \<^verbatim>\<open>contract_graph\<close> has the fields of
    \<^verbatim>\<open>ContractGraph\<close>; \<^verbatim>\<open>add_node\<close>, \<^verbatim>\<open>add_edge\<close>, \<^verbatim>\<open>patch_files\<close>, \<^verbatim>\<open>remove_nodes\<close> and the registrations change it;
    \<^verbatim>\<open>reconcile_edges\<close> is its passes in the order of the code, with the set of seen edges as an accumulator.
  \<^item> \<^verbatim>\<open>Http_Routes\<close>: \<^verbatim>\<open>routes.rs\<close>. \<^verbatim>\<open>Property_Registry\<close>: \<^verbatim>\<open>properties.rs\<close>. \<^verbatim>\<open>Index_Health\<close>: \<^verbatim>\<open>health.rs\<close>.
  \<^item> \<^verbatim>\<open>Snapshot_Cache\<close>: \<^verbatim>\<open>search_cache.rs\<close>, \<^verbatim>\<open>vfs.rs\<close>, the snapshot of \<^verbatim>\<open>state.rs\<close>, and the cache protocol of
    \<^verbatim>\<open>mesh-server/src/tools/smart_search.rs\<close> as a step relation.
  \<^item> \<^verbatim>\<open>Path_Jail\<close>: \<^verbatim>\<open>security.rs\<close>, \<^verbatim>\<open>root_guard.rs\<close>, root expansion of \<^verbatim>\<open>config.rs\<close>. \<^verbatim>\<open>Config_Reload\<close>: the rest of \<^verbatim>\<open>config.rs\<close>,
    \<^verbatim>\<open>reload_kind.rs\<close>, \<^verbatim>\<open>config_watch.rs\<close>.
  \<^item> \<^verbatim>\<open>Audit_Chain\<close>, \<^verbatim>\<open>Error_Sanitizer\<close>: \<^verbatim>\<open>audit.rs\<close>. \<^verbatim>\<open>Output_Cap\<close>, \<^verbatim>\<open>Tool_Dispatch\<close>: \<^verbatim>\<open>governance.rs\<close>,
    \<^verbatim>\<open>mesh-server/src/tools/mod.rs\<close>, \<^verbatim>\<open>protocol.rs\<close>, \<^verbatim>\<open>lib.rs\<close>.
  \<^item> \<^verbatim>\<open>Idle_Watchdog\<close>: \<^verbatim>\<open>mesh-daemon/src/idle.rs\<close>.
  \<^item> \<^verbatim>\<open>Ast_Guard\<close>, \<^verbatim>\<open>Decapitation\<close>: \<^verbatim>\<open>mesh-parsers/src/guard.rs\<close> (checks before parsing, the parser caches) and
    \<^verbatim>\<open>decapitate.rs\<close> (removal of bodies, with the map of lines back to the source).
  \<^item> \<^verbatim>\<open>Doc_Sections\<close>, \<^verbatim>\<open>Doc_Search\<close>: \<^verbatim>\<open>mesh-core/src/docs.rs\<close> (sanitizing and splitting of documents; index, scores, ranking).
  \<^item> \<^verbatim>\<open>Crawler\<close>: \<^verbatim>\<open>crawler.rs\<close>. \<^verbatim>\<open>Git_Watcher\<close>, \<^verbatim>\<open>Watch_Plan\<close>: \<^verbatim>\<open>watcher.rs\<close> and \<^verbatim>\<open>watcher/git.rs\<close>. The gate is a function on a record, as in
    the code; the scheduling of reloads is a step relation over the interleavings of callers and jobs, one atomic access per step.
  \<^item> \<^verbatim>\<open>File_Index\<close>: the index of one file, \<^verbatim>\<open>FileIndex\<close> of \<^verbatim>\<open>mesh-parsers/src/languages/mod.rs\<close>, and the interface
    \<^verbatim>\<open>fact_store\<close> (facts by file, purged and put), which the graph and the documentation index both implement.
  \<^item> \<^verbatim>\<open>Index_Cache\<close>: \<^verbatim>\<open>mesh-core/src/index_cache.rs\<close>, its two tables as lists of rows. \<^verbatim>\<open>Index_Pass\<close>, \<^verbatim>\<open>Indexer\<close>: the scan pass, the
    crawl, the full build and the reloads of \<^verbatim>\<open>mesh-server/src/indexer.rs\<close>; \<^verbatim>\<open>Index_Sync\<close> states what the reloads promise.

  \<^item> \<^verbatim>\<open>Utf8\<close>: decoding of bytes. \<^verbatim>\<open>Sfc\<close>: single-file components, \<^verbatim>\<open>mesh-parsers/src/languages/sfc.rs\<close>. \<^verbatim>\<open>File_Routes\<close>: routes that the
    location and the exports of a file declare, \<^verbatim>\<open>languages/js_frameworks/file_routes.rs\<close>, over syntax trees as data.

  \<^bold>\<open>What is shown.\<close> The graph: every run of folding, purging and reconciling keeps the indices exact; edges are unique and
  live; topics, wildcards, RPC handlers, imports and calls are linked exactly as specified, the optimised lookups equal to the
  scans they replace; reconciling settles; queries return exactly what their specification says. Security: the path jail is
  exact, property secrets do not leak (as noninterference), secret values are masked in stored errors, governance decides before a tool runs.
  Reliability: every call leaves one audit row, the chain verifies and its tail commits to the history, a served page belongs to the
  snapshot its request pinned, output is capped, the idle daemon stops, a reload re-extracts what an edit changed. Indexing: a crawl
  stays in its scope and ends unless a directory links to itself; the watcher loses no path, releases nothing while a Git operation
  runs and delivers every change of references; the scheduler delivers every path under every interleaving; a differential reload
  changes exactly the files it should and ends with the facts of a full rebuild; the index cache is invisible, evicts what was used least
  recently, and a pass accounts for every file. Reading: decapitation
  replaces disjoint ranges and maps lines faithfully, the nesting scan, the edit distance and the section split equal
  their specifications, cached parsers behave as fresh ones, no injection pattern survives the sanitizer, the script view of a component keeps every
  position of its file, and the routes found by location are well formed and never lost to the cheap test before the parse.
  Some theorems show where the code departs from its documentation.

  \<^bold>\<open>Conventions and bounds.\<close> Text is ASCII, or bytes in UTF-8 where lengths matter (\<^verbatim>\<open>Output_Cap\<close>, notes of
  \<^verbatim>\<open>Index_Health\<close>); lower case and white space are those of ASCII. Node ids are natural numbers (\<^verbatim>\<open>u32\<close> in the code, no
  overflow below 2^32 nodes), repository ids are 16-bit words, the client counter is a 64-bit word. A hash map is a list in
  its iteration order; a result that must not depend on the order is proved for every order. Every recursion is total by a termination
  proof, but for the crawl, which may not end and takes fuel: as much as directories are deep is enough where it ends, and where
  it does not, no amount is. Times are natural numbers in milliseconds. Libraries and the operating system are parameters: file system, globbing, canonical paths, Unicode
  normalization, SHA-256, serde and JSON, the clock, human-readable sizes, tree-sitter and the extractors, the directory walker and the ignore rules, the sizes SQLite reports. The disk does
  not change during one reload.

  \<^bold>\<open>Not modelled.\<close> The other extractors of \<^verbatim>\<open>mesh-parsers/src/languages\<close> query tree-sitter syntax trees, a C library; sockets,
  sandbox, command line and rendering of the tools are input and output, as are the opening of the databases and the loading of
  the configuration file.
\<close>

end
